(* ===== verification/Prelude.thy ===== *)
theory Prelude
  imports Main "HOL-Library.Word"
begin

text \<open>
  Shared vocabulary of the development: the widths of the machine integers, Rust's saturating,
  checked and wrapping arithmetic, the slice operations the code uses (position, copy_within
  used as deletion and insertion), and the lemma collections the component theories add to.

  Quantities (sizes, addresses, ticks, costs, counters) are natural numbers; every operation
  of the source that saturates, checks or wraps at a width is one of the functions below, so
  the width is written where it matters. Names that the code decodes bit by bit (object ids,
  region ids, register values) are words.
\<close>

type_synonym u8 = "8 word"
type_synonym u16 = "16 word"
type_synonym u32 = "32 word"
type_synonym u64 = "64 word"

named_theorems widths \<open>facts about the width-bounded arithmetic\<close>
named_theorems frame \<open>which parts of a state an operation leaves alone\<close>
named_theorems invs \<open>introduction rules for component invariants\<close>

section \<open>Arithmetic at a width\<close>

definition umax :: "nat \<Rightarrow> nat" where
  "umax w = 2 ^ w - 1"

definition sat_add :: "nat \<Rightarrow> nat \<Rightarrow> nat \<Rightarrow> nat" where
  "sat_add w a b = min (a + b) (umax w)"

definition sat_mul :: "nat \<Rightarrow> nat \<Rightarrow> nat \<Rightarrow> nat" where
  "sat_mul w a b = min (a * b) (umax w)"

definition checked_add :: "nat \<Rightarrow> nat \<Rightarrow> nat \<Rightarrow> nat option" where
  "checked_add w a b = (if a + b \<le> umax w then Some (a + b) else None)"

definition checked_sub :: "nat \<Rightarrow> nat \<Rightarrow> nat option" where
  "checked_sub a b = (if b \<le> a then Some (a - b) else None)"

definition checked_div :: "nat \<Rightarrow> nat \<Rightarrow> nat option" where
  "checked_div a b = (if b = 0 then None else Some (a div b))"

text \<open>\<open>wrap w n\<close> is what is left of \<open>n\<close> in a register of \<open>w\<close> bits: the \<open>as\<close> casts, and the
  operators of a build without overflow checks.\<close>

definition wrap :: "nat \<Rightarrow> nat \<Rightarrow> nat" where
  "wrap w n = n mod 2 ^ w"

definition wrap_sub :: "nat \<Rightarrow> nat \<Rightarrow> nat \<Rightarrow> nat" where
  "wrap_sub w a b = (a + 2 ^ w - b mod 2 ^ w) mod 2 ^ w"

text \<open>\<open>next_multiple_of k n\<close> rounds up to a multiple of \<open>k\<close>, before any width is applied.\<close>

definition next_multiple_of :: "nat \<Rightarrow> nat \<Rightarrow> nat" where
  "next_multiple_of k n = (if n mod k = 0 then n else n + (k - n mod k))"

definition div_ceil :: "nat \<Rightarrow> nat \<Rightarrow> nat" where
  "div_ceil a b = (if a mod b = 0 then a div b else a div b + 1)"

lemma umax_16 [simp]: "umax 16 = 65535"
  by (simp add: umax_def)

lemma umax_32 [simp]: "umax 32 = 4294967295"
  by (simp add: umax_def)

lemma umax_64 [simp]: "umax 64 = 18446744073709551615"
  by (simp add: umax_def)

lemma sat_add_le [widths]: "sat_add w a b \<le> umax w"
  by (simp add: sat_add_def)

lemma sat_add_mono [widths]: "a \<le> umax w \<Longrightarrow> a \<le> sat_add w a b"
  by (simp add: sat_add_def)

lemma sat_add_exact: "a + b \<le> umax w \<Longrightarrow> sat_add w a b = a + b"
  by (simp add: sat_add_def)

lemma sat_add_mono2: "a \<le> a' \<Longrightarrow> b \<le> b' \<Longrightarrow> sat_add w a b \<le> sat_add w a' b'"
  by (auto simp: sat_add_def min_def)

lemma sat_mul_le [widths]: "sat_mul w a b \<le> umax w"
  by (simp add: sat_mul_def)

lemma sat_mul_exact: "a * b \<le> umax w \<Longrightarrow> sat_mul w a b = a * b"
  by (simp add: sat_mul_def)

lemma sat_mul_mono: "a \<le> a' \<Longrightarrow> b \<le> b' \<Longrightarrow> sat_mul w a b \<le> sat_mul w a' b'"
  unfolding sat_mul_def by (intro min.mono mult_le_mono) auto

lemma wrap_exact: "n < 2 ^ w \<Longrightarrow> wrap w n = n"
  by (simp add: wrap_def)

lemma wrap_sub_exact:
  assumes "b \<le> a" "a < 2 ^ w"
  shows "wrap_sub w a b = a - b"
proof -
  have "b mod 2 ^ w = b" using assms by simp
  then have "wrap_sub w a b = ((a - b) + 2 ^ w) mod 2 ^ w"
    using assms(1) by (simp add: wrap_sub_def)
  also have "\<dots> = (a - b) mod 2 ^ w" by (rule mod_add_self2)
  also have "\<dots> = a - b" using assms by (intro mod_less) linarith
  finally show ?thesis .
qed

lemma next_multiple_of_ge: "n \<le> next_multiple_of k n"
  unfolding next_multiple_of_def by (cases "n mod k = 0") (auto intro: le_add1)

lemma next_multiple_of_dvd: "0 < k \<Longrightarrow> k dvd next_multiple_of k n"
proof (cases "n mod k = 0")
  case True
  then show ?thesis by (simp add: next_multiple_of_def mod_0_imp_dvd)
next
  case False
  assume k: "0 < k"
  have "n + (k - n mod k) = k * (n div k) + k"
  proof -
    have "n = k * (n div k) + n mod k" by simp
    moreover have "n mod k \<le> k" using k by (simp add: less_imp_le)
    ultimately show ?thesis by linarith
  qed
  with False show ?thesis by (simp add: next_multiple_of_def)
qed

lemma next_multiple_of_lt: "0 < k \<Longrightarrow> next_multiple_of k n < n + k"
  by (auto simp: next_multiple_of_def)

lemma next_multiple_of_0 [simp]: "next_multiple_of k 0 = 0"
  by (simp add: next_multiple_of_def)

lemma next_multiple_of_pos: "0 < n \<Longrightarrow> 0 < next_multiple_of k n"
  using next_multiple_of_ge [of n k] by linarith

lemma next_multiple_of_mono:
  assumes "0 < k" "a \<le> b"
  shows "next_multiple_of k a \<le> next_multiple_of k b"
proof -
  obtain c where c: "next_multiple_of k b = k * c"
    using next_multiple_of_dvd [OF assms(1), of b] by (auto simp: dvd_def)
  obtain d where d: "next_multiple_of k a = k * d"
    using next_multiple_of_dvd [OF assms(1), of a] by (auto simp: dvd_def)
  have "k * d < a + k" using next_multiple_of_lt [OF assms(1), of a] d by simp
  also have "a + k \<le> k * c + k"
    using assms(2) next_multiple_of_ge [of b k] c by simp
  finally have "k * d < k * (c + 1)" by simp
  then have "d < c + 1" using assms(1) by (simp only: nat_mult_less_cancel1)
  then have "d \<le> c" by simp
  then show ?thesis using c d by simp
qed

section \<open>Slices\<close>

text \<open>\<open>Iterator::position\<close>: the first index whose element satisfies the predicate.\<close>

fun position :: "('a \<Rightarrow> bool) \<Rightarrow> 'a list \<Rightarrow> nat option" where
  "position P [] = None"
| "position P (x # xs) = (if P x then Some 0 else map_option Suc (position P xs))"

definition delete_at :: "nat \<Rightarrow> 'a list \<Rightarrow> 'a list" where
  "delete_at i xs = take i xs @ drop (Suc i) xs"

definition insert_at :: "nat \<Rightarrow> 'a \<Rightarrow> 'a list \<Rightarrow> 'a list" where
  "insert_at i x xs = take i xs @ x # drop i xs"

text \<open>\<open>slice.get(i)\<close>.\<close>

definition nth_opt :: "'a list \<Rightarrow> nat \<Rightarrow> 'a option" where
  "nth_opt xs i = (if i < length xs then Some (xs ! i) else None)"

lemma position_Some:
  "position P xs = Some i \<Longrightarrow> i < length xs \<and> P (xs ! i) \<and> (\<forall>j < i. \<not> P (xs ! j))"
proof (induction xs arbitrary: i)
  case (Cons x xs)
  show ?case
  proof (cases "P x")
    case True
    with Cons.prems show ?thesis by simp
  next
    case False
    with Cons.prems obtain k where "position P xs = Some k" "i = Suc k" by auto
    with Cons.IH [of k] False show ?thesis
      by (auto simp: less_Suc_eq_0_disj)
  qed
qed simp

lemma position_None: "position P xs = None \<longleftrightarrow> (\<forall>x \<in> set xs. \<not> P x)"
  by (induction xs) auto

lemma position_split:
  "position P xs = Some i \<Longrightarrow>
     \<exists>us ys. xs = us @ (xs ! i) # ys \<and> length us = i \<and> (\<forall>u \<in> set us. \<not> P u) \<and> P (xs ! i)"
proof -
  assume pos: "position P xs = Some i"
  note i = position_Some [OF this]
  have "xs = take i xs @ (xs ! i) # drop (Suc i) xs"
    using i by (simp add: id_take_nth_drop)
  moreover have "\<forall>u \<in> set (take i xs). \<not> P u"
    using i by (auto simp: in_set_conv_nth)
  ultimately show ?thesis
    using i by (intro exI [of _ "take i xs"] exI [of _ "drop (Suc i) xs"]) simp
qed

lemma delete_at_append [simp]: "delete_at (length us) (us @ x # ys) = us @ ys"
  by (simp add: delete_at_def)

lemma insert_at_append [simp]: "insert_at (length us) x (us @ ys) = us @ x # ys"
  by (simp add: insert_at_def)

lemma nth_opt_Some [simp]: "nth_opt xs i = Some x \<longleftrightarrow> i < length xs \<and> xs ! i = x"
  by (simp add: nth_opt_def)

lemma nth_opt_None [simp]: "nth_opt xs i = None \<longleftrightarrow> length xs \<le> i"
  by (auto simp: nth_opt_def)

lemma nth_opt_code [code]:
  "nth_opt [] i = None"
  "nth_opt (x # xs) i = (case i of 0 \<Rightarrow> Some x | Suc j \<Rightarrow> nth_opt xs j)"
  by (auto simp: nth_opt_def split: nat.splits)

end
