(* ===== verification/Abi.thy ===== *)
theory Abi
  imports Prelude
begin

text \<open>
  crates/mlos-abi: everything that crosses the syscall boundary. An object id is one 64-bit
  word whose bit layout is fixed (class, model, layer, tensor, tile); classes and error codes
  have fixed discriminants that are decoded by rejecting anything undefined.
\<close>

unbundle bit_operations_syntax

section \<open>Classes (class.rs)\<close>

datatype object_class =
    WeightTile | Scale | Expert | KvBlock | Activation | EmbedBlock | RagBlock | Adapter

fun class_u8 :: "object_class \<Rightarrow> u8" where
  "class_u8 WeightTile = 1"
| "class_u8 Scale = 2"
| "class_u8 Expert = 3"
| "class_u8 KvBlock = 4"
| "class_u8 Activation = 5"
| "class_u8 EmbedBlock = 6"
| "class_u8 RagBlock = 7"
| "class_u8 Adapter = 8"

definition all_classes :: "object_class list" where
  "all_classes = [WeightTile, Scale, Expert, KvBlock, Activation, EmbedBlock, RagBlock, Adapter]"

definition class_index :: "object_class \<Rightarrow> nat" where
  "class_index c = unat (class_u8 c) - 1"

definition class_from_u8 :: "u8 \<Rightarrow> object_class option" where
  "class_from_u8 v =
     (if v = 1 then Some WeightTile
      else if v = 2 then Some Scale
      else if v = 3 then Some Expert
      else if v = 4 then Some KvBlock
      else if v = 5 then Some Activation
      else if v = 6 then Some EmbedBlock
      else if v = 7 then Some RagBlock
      else if v = 8 then Some Adapter
      else None)"

fun is_session_scoped :: "object_class \<Rightarrow> bool" where
  "is_session_scoped KvBlock = True"
| "is_session_scoped Activation = True"
| "is_session_scoped _ = False"

section \<open>Errors (error.rs)\<close>

datatype err =
    BadObject | BadClass | NotResident | NoBudget | Refused | NoProvider | Revoked | Denied

fun err_as_i32 :: "err \<Rightarrow> int" where
  "err_as_i32 BadObject = 1"
| "err_as_i32 BadClass = 2"
| "err_as_i32 NotResident = 3"
| "err_as_i32 NoBudget = 4"
| "err_as_i32 Refused = 5"
| "err_as_i32 NoProvider = 6"
| "err_as_i32 Revoked = 7"
| "err_as_i32 Denied = 8"

definition err_from_i32 :: "int \<Rightarrow> err option" where
  "err_from_i32 v =
     (if v = 1 then Some BadObject
      else if v = 2 then Some BadClass
      else if v = 3 then Some NotResident
      else if v = 4 then Some NoBudget
      else if v = 5 then Some Refused
      else if v = 6 then Some NoProvider
      else if v = 7 then Some Revoked
      else if v = 8 then Some Denied
      else None)"

text \<open>The result of a syscall: the error on the left, the value on the right.\<close>

type_synonym 'a res = "err + 'a"

section \<open>Object ids (object.rs)\<close>

record fields =
  f_model :: u16
  f_layer :: u16
  f_tensor :: u16
  f_tile :: u8

type_synonym object_id = u64

definition CLASS_SHIFT :: nat where "CLASS_SHIFT = 56"
definition MODEL_SHIFT :: nat where "MODEL_SHIFT = 40"
definition LAYER_SHIFT :: nat where "LAYER_SHIFT = 24"
definition TENSOR_SHIFT :: nat where "TENSOR_SHIFT = 8"

definition object_new :: "object_class \<Rightarrow> fields \<Rightarrow> object_id" where
  "object_new c f =
     push_bit CLASS_SHIFT (ucast (class_u8 c))
       OR push_bit MODEL_SHIFT (ucast (f_model f))
       OR push_bit LAYER_SHIFT (ucast (f_layer f))
       OR push_bit TENSOR_SHIFT (ucast (f_tensor f))
       OR ucast (f_tile f)"

definition object_class_of :: "object_id \<Rightarrow> object_class option" where
  "object_class_of i = class_from_u8 (ucast (drop_bit CLASS_SHIFT i))"

definition object_fields :: "object_id \<Rightarrow> fields" where
  "object_fields i =
     \<lparr>f_model = ucast (drop_bit MODEL_SHIFT i),
      f_layer = ucast (drop_bit LAYER_SHIFT i),
      f_tensor = ucast (drop_bit TENSOR_SHIFT i),
      f_tile = ucast i\<rparr>"

lemmas shift_defs = CLASS_SHIFT_def MODEL_SHIFT_def LAYER_SHIFT_def TENSOR_SHIFT_def

section \<open>Lemmas\<close>

lemma class_from_u8_inverse [simp]: "class_from_u8 (class_u8 c) = Some c"
  by (cases c) (simp_all add: class_from_u8_def)

lemma class_from_u8_Some: "class_from_u8 v = Some c \<longleftrightarrow> v = class_u8 c"
  by (cases c) (auto simp: class_from_u8_def split: if_splits)

lemma class_index_lt [simp]: "class_index c < 8"
  by (cases c) (simp_all add: class_index_def)

lemma class_index_nth: "all_classes ! class_index c = c"
  by (cases c) (simp_all add: class_index_def all_classes_def)

lemma class_index_inject: "class_index c = class_index d \<longleftrightarrow> c = d"
  by (metis class_index_nth)

lemma object_class_of_0: "object_class_of 0 = None"
  by (simp add: object_class_of_def class_from_u8_def)

lemma object_new_slices:
  shows "ucast (drop_bit CLASS_SHIFT (object_new c f)) = class_u8 c"
    and "ucast (drop_bit MODEL_SHIFT (object_new c f)) = f_model f"
    and "ucast (drop_bit LAYER_SHIFT (object_new c f)) = f_layer f"
    and "ucast (drop_bit TENSOR_SHIFT (object_new c f)) = f_tensor f"
    and "ucast (object_new c f) = f_tile f"
  unfolding object_new_def shift_defs
  by (rule bit_word_eqI; auto simp: bit_simps dest: bit_imp_le_length)+

lemma object_class_of_new [simp]: "object_class_of (object_new c f) = Some c"
  by (simp add: object_class_of_def object_new_slices)

text \<open>An id built from a class and fields decodes back to that class and those fields.\<close>

theorem object_id_roundtrip:
  "object_class_of (object_new c f) = Some c \<and> object_fields (object_new c f) = f"
  by (simp add: object_class_of_def object_fields_def object_new_slices)

end
