(* ===== verification/Objtab.thy ===== *)
theory Objtab
  imports Abi
begin

text \<open>
  crates/mlos-objtab: what the kernel knows about one piece of model state (meta.rs), and the
  fixed-capacity table that remembers it (probe.rs, table.rs). The table is open addressing
  with linear probing over a slot array; a removed slot keeps its mark, so the probe chain
  through it is not cut. The lemmas show that under the invariant the table is a finite map.
\<close>

section \<open>The record of one object (meta.rs)\<close>

datatype precision = Fp16 | Bf16 | Q8 | Q4 | Q3 | Ternary

datatype tier = Hot | Warm | Cold | Stream | Archive

datatype next_use = Never | At nat | Probability nat

definition IMPOSSIBLE :: nat where "IMPOSSIBLE = umax 32"

datatype mutability = Immutable | CowOverlay | Mutable

type_synonym provider_id = nat
type_synonym session_id = nat

record object_meta =
  m_size :: nat
  m_precision :: precision
  m_tier :: tier
  m_home :: tier
  m_provider :: provider_id
  m_handle :: nat
  m_resident_at :: nat
  m_next_use :: next_use
  m_reuse_count :: nat
  m_placed_tick :: nat
  m_used_tick :: nat
  m_reload_cost :: nat
  m_recompute_cost :: nat
  m_share_count :: nat
  m_mutability :: mutability
  m_owner :: session_id

datatype rung = L0 | L1 | L2 | L3 | L4 | L5 | L6 | L7

fun rung_u8 :: "rung \<Rightarrow> nat" where
  "rung_u8 L0 = 0"
| "rung_u8 L1 = 1"
| "rung_u8 L2 = 2"
| "rung_u8 L3 = 3"
| "rung_u8 L4 = 4"
| "rung_u8 L5 = 5"
| "rung_u8 L6 = 6"
| "rung_u8 L7 = 7"

fun deeper :: "rung \<Rightarrow> rung option" where
  "deeper L0 = Some L1"
| "deeper L1 = Some L2"
| "deeper L2 = Some L3"
| "deeper L3 = Some L4"
| "deeper L4 = Some L5"
| "deeper L5 = Some L6"
| "deeper L6 = Some L7"
| "deeper L7 = None"

fun quality :: "rung \<Rightarrow> precision" where
  "quality L0 = Fp16"
| "quality L1 = Q8"
| "quality L2 = Q4"
| "quality _ = Ternary"

fun tier_u8 :: "tier \<Rightarrow> nat" where
  "tier_u8 Hot = 1"
| "tier_u8 Warm = 2"
| "tier_u8 Cold = 3"
| "tier_u8 Stream = 4"
| "tier_u8 Archive = 5"

fun precision_u8 :: "precision \<Rightarrow> nat" where
  "precision_u8 Fp16 = 1"
| "precision_u8 Bf16 = 2"
| "precision_u8 Q8 = 3"
| "precision_u8 Q4 = 4"
| "precision_u8 Q3 = 5"
| "precision_u8 Ternary = 6"

text \<open>Rust derives the order of tiers and rungs from their discriminants.\<close>

lemma tier_u8_inject [simp]: "tier_u8 a = tier_u8 b \<longleftrightarrow> a = b"
  by (cases a; cases b) simp_all

lemma rung_u8_inject [simp]: "rung_u8 a = rung_u8 b \<longleftrightarrow> a = b"
  by (cases a; cases b) simp_all

instantiation tier :: linorder
begin
definition less_eq_tier :: "tier \<Rightarrow> tier \<Rightarrow> bool" where
  "less_eq_tier a b = (tier_u8 a \<le> tier_u8 b)"
definition less_tier :: "tier \<Rightarrow> tier \<Rightarrow> bool" where
  "less_tier a b = (tier_u8 a < tier_u8 b)"
instance
  by (standard; auto simp: less_eq_tier_def less_tier_def)
end

instantiation rung :: linorder
begin
definition less_eq_rung :: "rung \<Rightarrow> rung \<Rightarrow> bool" where
  "less_eq_rung a b = (rung_u8 a \<le> rung_u8 b)"
definition less_rung :: "rung \<Rightarrow> rung \<Rightarrow> bool" where
  "less_rung a b = (rung_u8 a < rung_u8 b)"
instance
  by (standard; auto simp: less_eq_rung_def less_rung_def)
end

lemma deeper_greater: "deeper r = Some r' \<Longrightarrow> r < r'"
  by (cases r) (auto simp: less_rung_def)

lemma deeper_next: "deeper r = Some r' \<longleftrightarrow> rung_u8 r' = rung_u8 r + 1"
  by (cases r; cases r') simp_all

section \<open>Where to look (probe.rs)\<close>

definition GOLDEN :: u64 where "GOLDEN = 0x9e3779b97f4a7c15"

definition probe_start :: "object_id \<Rightarrow> nat \<Rightarrow> nat" where
  "probe_start i capacity = unat (drop_bit 32 (i * GOLDEN)) mod capacity"

definition probe_at :: "object_id \<Rightarrow> nat \<Rightarrow> nat \<Rightarrow> nat" where
  "probe_at i capacity step = (probe_start i capacity + step) mod capacity"

definition probe_sequence :: "object_id \<Rightarrow> nat \<Rightarrow> nat list" where
  "probe_sequence i capacity = map (probe_at i capacity) [0..<capacity]"

section \<open>The table (table.rs)\<close>

datatype slot = Vacant | Removed | Live object_id object_meta

type_synonym table = "slot list"

definition table_empty :: "nat \<Rightarrow> table" where
  "table_empty n = replicate n Vacant"

definition table_at :: "table \<Rightarrow> nat \<Rightarrow> (object_id \<times> object_meta) option" where
  "table_at s index =
     (case nth_opt s index of
        None \<Rightarrow> None
      | Some sl \<Rightarrow> (case sl of Live i m \<Rightarrow> Some (i, m) | Vacant \<Rightarrow> None | Removed \<Rightarrow> None))"

text \<open>The loop of \<open>insert\<close>: the table when a slot was written, \<open>None\<close> for \<open>false\<close>.\<close>

fun insert_loop :: "table \<Rightarrow> object_id \<Rightarrow> object_meta \<Rightarrow> nat option \<Rightarrow> nat list \<Rightarrow> table option" where
  "insert_loop s i m reusable [] = None"
| "insert_loop s i m reusable (p # ps) =
     (case s ! p of
        Live found _ \<Rightarrow>
          if found = i then Some (s[p := Live i m]) else insert_loop s i m reusable ps
      | Removed \<Rightarrow>
          insert_loop s i m (case reusable of None \<Rightarrow> Some p | Some r \<Rightarrow> Some r) ps
      | Vacant \<Rightarrow> Some (s[(case reusable of None \<Rightarrow> p | Some r \<Rightarrow> r) := Live i m]))"

definition table_insert :: "object_id \<Rightarrow> object_meta \<Rightarrow> table \<Rightarrow> bool \<times> table" where
  "table_insert i m s =
     (case insert_loop s i m None (probe_sequence i (length s)) of
        Some s' \<Rightarrow> (True, s')
      | None \<Rightarrow> (False, s))"

text \<open>The loop that \<open>get\<close>, \<open>get_mut\<close> and \<open>remove\<close> share: the slot holding the id.\<close>

fun find_loop :: "table \<Rightarrow> object_id \<Rightarrow> nat list \<Rightarrow> (nat \<times> object_meta) option" where
  "find_loop s i [] = None"
| "find_loop s i (p # ps) =
     (case s ! p of
        Live found m \<Rightarrow> if found = i then Some (p, m) else find_loop s i ps
      | Vacant \<Rightarrow> None
      | Removed \<Rightarrow> find_loop s i ps)"

definition table_get :: "table \<Rightarrow> object_id \<Rightarrow> object_meta option" where
  "table_get s i = map_option snd (find_loop s i (probe_sequence i (length s)))"

text \<open>\<open>get_mut\<close> hands out a reference; here, the table with the entry rewritten through it.\<close>

definition table_get_mut :: "object_id \<Rightarrow> (object_meta \<Rightarrow> object_meta) \<Rightarrow> table \<Rightarrow> table option" where
  "table_get_mut i f s =
     (case find_loop s i (probe_sequence i (length s)) of
        None \<Rightarrow> None
      | Some (p, m) \<Rightarrow> Some (s[p := Live i (f m)]))"

definition table_remove :: "object_id \<Rightarrow> table \<Rightarrow> bool \<times> table" where
  "table_remove i s =
     (case find_loop s i (probe_sequence i (length s)) of
        None \<Rightarrow> (False, s)
      | Some (p, _) \<Rightarrow> (True, s[p := Removed]))"

section \<open>What a table means\<close>

definition entries :: "table \<Rightarrow> (object_id \<times> object_meta) list" where
  "entries s = List.map_filter (table_at s) [0..<length s]"

definition table_map :: "table \<Rightarrow> object_id \<Rightarrow> object_meta option" where
  "table_map s = map_of (entries s)"

text \<open>A slot is reachable for an id when no vacant slot is met before it.\<close>

definition reach :: "table \<Rightarrow> object_id \<Rightarrow> nat \<Rightarrow> bool" where
  "reach s i p \<longleftrightarrow>
     (\<exists>k < length s. p = probe_at i (length s) k \<and>
        (\<forall>j < k. s ! probe_at i (length s) j \<noteq> Vacant))"

definition table_inv :: "table \<Rightarrow> bool" where
  "table_inv s \<longleftrightarrow>
     (\<forall>p < length s. \<forall>q < length s. \<forall>i m m'. s ! p = Live i m \<longrightarrow> s ! q = Live i m' \<longrightarrow> p = q) \<and>
     (\<forall>p < length s. \<forall>i m. s ! p = Live i m \<longrightarrow> reach s i p)"

section \<open>The probe sequence\<close>

lemma probe_at_lt [simp]: "0 < n \<Longrightarrow> probe_at i n k < n"
  by (simp add: probe_at_def)

lemma probe_sequence_set: "p \<in> set (probe_sequence i n) \<Longrightarrow> p < n"
  by (cases "n = 0") (auto simp: probe_sequence_def)

lemma probe_at_surj:
  assumes "p < n"
  shows "\<exists>k < n. probe_at i n k = p"
proof -
  let ?f = "probe_start i n"
  have f: "?f < n" using assms by (simp add: probe_start_def)
  show ?thesis
  proof (cases "?f \<le> p")
    case True
    then show ?thesis using assms by (intro exI [of _ "p - ?f"]) (auto simp: probe_at_def)
  next
    case False
    then have "(?f + (p + n - ?f)) mod n = p" using f assms by simp
    with False f assms show ?thesis by (intro exI [of _ "p + n - ?f"]) (auto simp: probe_at_def)
  qed
qed

lemma probe_sequence_all: "set (probe_sequence i n) = {..<n}"
proof
  show "set (probe_sequence i n) \<subseteq> {..<n}" by (auto dest: probe_sequence_set)
  show "{..<n} \<subseteq> set (probe_sequence i n)"
  proof
    fix p assume "p \<in> {..<n}"
    then obtain k where "k < n" "probe_at i n k = p" using probe_at_surj by blast
    then show "p \<in> set (probe_sequence i n)" by (auto simp: probe_sequence_def)
  qed
qed

lemma probe_sequence_split:
  assumes "probe_sequence i n = us @ p # vs"
  shows "p = probe_at i n (length us)" "length us < n"
    "set us = probe_at i n ` {..<length us}"
proof -
  have len: "length us < n"
    using arg_cong [OF assms, of length] by (simp add: probe_sequence_def)
  show "length us < n" by (rule len)
  have "p = probe_sequence i n ! length us" by (simp add: assms)
  then show "p = probe_at i n (length us)" using len by (simp add: probe_sequence_def)
  have "us = take (length us) (probe_sequence i n)" by (simp add: assms)
  also have "\<dots> = map (probe_at i n) [0..<length us]"
    using len by (simp add: probe_sequence_def take_map)
  finally have "set us = set (map (probe_at i n) [0..<length us])" by simp
  then show "set us = probe_at i n ` {..<length us}" by (auto simp: atLeast0LessThan)
qed

lemma reach_split:
  assumes "probe_sequence i (length s) = us @ p # vs" "\<forall>u \<in> set us. s ! u \<noteq> Vacant"
  shows "reach s i p"
  using probe_sequence_split [OF assms(1)] assms(2) by (auto simp: reach_def)

section \<open>The loops\<close>

lemma find_loop_Some:
  "find_loop s i ps = Some (p, m) \<Longrightarrow> p \<in> set ps \<and> s ! p = Live i m"
  by (induction ps) (auto split: slot.splits if_splits)

lemma find_loop_None:
  "find_loop s i (us @ p # vs) = None \<Longrightarrow> s ! p = Live i m \<Longrightarrow> \<exists>u \<in> set us. s ! u = Vacant"
  by (induction us) (auto split: slot.splits if_splits)

lemma reach_in_sequence:
  assumes "reach s i p"
  obtains us vs where "probe_sequence i (length s) = us @ p # vs" "\<forall>u \<in> set us. s ! u \<noteq> Vacant"
proof -
  let ?n = "length s"
  from assms obtain k where k: "k < ?n" "p = probe_at i ?n k"
    and before: "\<forall>j < k. s ! probe_at i ?n j \<noteq> Vacant"
    by (auto simp: reach_def)
  have "[0..<?n] = [0..<k] @ k # [Suc k..<?n]"
    using k(1) by (metis le_add1 less_imp_le_nat upt_add_eq_append upt_conv_Cons le_add_diff_inverse zero_le add_0)
  then have "probe_sequence i ?n =
      map (probe_at i ?n) [0..<k] @ p # map (probe_at i ?n) [Suc k..<?n]"
    by (simp add: probe_sequence_def k(2))
  then show ?thesis using before by (intro that) auto
qed

lemma find_loop_iff:
  assumes "table_inv s"
  shows "find_loop s i (probe_sequence i (length s)) = Some (p, m) \<longleftrightarrow>
           p < length s \<and> s ! p = Live i m"
proof
  assume "find_loop s i (probe_sequence i (length s)) = Some (p, m)"
  from find_loop_Some [OF this] show "p < length s \<and> s ! p = Live i m"
    using probe_sequence_set by blast
next
  assume p: "p < length s \<and> s ! p = Live i m"
  with assms have "reach s i p" by (auto simp: table_inv_def)
  then obtain us vs where sp: "probe_sequence i (length s) = us @ p # vs"
    and nv: "\<forall>u \<in> set us. s ! u \<noteq> Vacant" by (rule reach_in_sequence)
  have "find_loop s i (probe_sequence i (length s)) \<noteq> None"
    using find_loop_None [of s i us p vs m] nv p unfolding sp by blast
  then obtain q m' where q: "find_loop s i (probe_sequence i (length s)) = Some (q, m')"
    by (metis not_None_eq surj_pair)
  from find_loop_Some [OF q] have "q < length s" "s ! q = Live i m'"
    using probe_sequence_set by blast+
  with p assms have "q = p" unfolding table_inv_def by blast
  with q p \<open>s ! q = Live i m'\<close>
  show "find_loop s i (probe_sequence i (length s)) = Some (p, m)" by simp
qed

lemma insert_loop_Some:
  "insert_loop s i m r ps = Some s' \<Longrightarrow>
     \<exists>us p vs. ps = us @ p # vs \<and>
       (\<forall>u \<in> set us. s ! u \<noteq> Vacant \<and> (\<forall>m. s ! u \<noteq> Live i m)) \<and>
       ((\<exists>m0. s ! p = Live i m0 \<and> s' = s[p := Live i m]) \<or>
        (s ! p = Vacant \<and>
          (\<exists>q. s' = s[q := Live i m] \<and>
             (r = Some q \<or> r = None \<and> (q = p \<or> q \<in> set us \<and> s ! q = Removed)))))"
proof (induction ps arbitrary: r)
  case (Cons p ps)
  show ?case
  proof (cases "s ! p")
    case Vacant
    with Cons.prems show ?thesis
      by (intro exI [of _ "[]"] exI [of _ p] exI [of _ ps]) (auto split: option.splits)
  next
    case Removed
    let ?r = "case r of None \<Rightarrow> Some p | Some r \<Rightarrow> Some r"
    from Cons.prems Removed have "insert_loop s i m ?r ps = Some s'" by simp
    from Cons.IH [OF this] obtain us q vs where
      "ps = us @ q # vs" "\<forall>u \<in> set us. s ! u \<noteq> Vacant \<and> (\<forall>m. s ! u \<noteq> Live i m)"
      "(\<exists>m0. s ! q = Live i m0 \<and> s' = s[q := Live i m]) \<or>
        (s ! q = Vacant \<and> (\<exists>q'. s' = s[q' := Live i m] \<and>
             (?r = Some q' \<or> ?r = None \<and> (q' = q \<or> q' \<in> set us \<and> s ! q' = Removed))))"
      by blast
    with Removed show ?thesis
      by (intro exI [of _ "p # us"] exI [of _ q] exI [of _ vs]) (auto split: option.splits)
  next
    case (Live f m0)
    show ?thesis
    proof (cases "f = i")
      case True
      with Live Cons.prems show ?thesis
        by (intro exI [of _ "[]"] exI [of _ p] exI [of _ ps]) auto
    next
      case False
      with Live Cons.prems have "insert_loop s i m r ps = Some s'" by simp
      from Cons.IH [OF this] obtain us q vs where
        "ps = us @ q # vs" "\<forall>u \<in> set us. s ! u \<noteq> Vacant \<and> (\<forall>m. s ! u \<noteq> Live i m)"
        "(\<exists>m0. s ! q = Live i m0 \<and> s' = s[q := Live i m]) \<or>
          (s ! q = Vacant \<and> (\<exists>q'. s' = s[q' := Live i m] \<and>
             (r = Some q' \<or> r = None \<and> (q' = q \<or> q' \<in> set us \<and> s ! q' = Removed))))"
        by blast
      with False Live show ?thesis
        by (intro exI [of _ "p # us"] exI [of _ q] exI [of _ vs]) auto
    qed
  qed
qed simp

lemma insert_loop_None:
  "insert_loop s i m r ps = None \<longleftrightarrow>
     (\<forall>p \<in> set ps. s ! p \<noteq> Vacant \<and> (\<forall>m. s ! p \<noteq> Live i m))"
  by (induction ps arbitrary: r) (auto split: slot.splits)

section \<open>The table is a finite map\<close>

lemma table_at_Some: "table_at s p = Some (i, m) \<longleftrightarrow> p < length s \<and> s ! p = Live i m"
  by (auto simp: table_at_def nth_opt_def split: slot.splits)

lemma entries_set: "(i, m) \<in> set (entries s) \<longleftrightarrow> (\<exists>p < length s. s ! p = Live i m)"
proof -
  have "(i, m) \<in> set (entries s) \<longleftrightarrow> (\<exists>p < length s. table_at s p = Some (i, m))"
    by (force simp: entries_def List.map_filter_def image_iff)
  then show ?thesis by (auto simp: table_at_Some)
qed

lemma table_inv_unique:
  "table_inv s \<Longrightarrow> (i, m) \<in> set (entries s) \<Longrightarrow> (i, m') \<in> set (entries s) \<Longrightarrow> m = m'"
  unfolding entries_set table_inv_def by (metis slot.inject)

lemma table_map_Some:
  assumes "table_inv s"
  shows "table_map s i = Some m \<longleftrightarrow> (\<exists>p < length s. s ! p = Live i m)"
proof
  assume "table_map s i = Some m"
  then show "\<exists>p < length s. s ! p = Live i m"
    unfolding table_map_def by (metis entries_set map_of_SomeD)
next
  assume e: "\<exists>p < length s. s ! p = Live i m"
  then have "map_of (entries s) i \<noteq> None"
    by (metis entries_set fst_conv image_eqI map_of_eq_None_iff)
  then obtain m' where m': "map_of (entries s) i = Some m'" by blast
  from map_of_SomeD [OF this] e table_inv_unique [OF assms] have "m = m'"
    by (metis entries_set)
  with m' show "table_map s i = Some m" by (simp add: table_map_def)
qed

lemma table_map_None:
  assumes "table_inv s"
  shows "table_map s i = None \<longleftrightarrow> (\<forall>p < length s. \<forall>m. s ! p \<noteq> Live i m)"
  using table_map_Some [OF assms, of i] by (metis not_None_eq option.distinct(1))

lemma table_get_map: "table_inv s \<Longrightarrow> table_get s i = table_map s i"
proof -
  assume inv: "table_inv s"
  show ?thesis
  proof (cases "table_map s i")
    case None
    then have "find_loop s i (probe_sequence i (length s)) = None"
      using find_loop_iff [OF inv, of i] table_map_None [OF inv, of i]
      by (metis not_None_eq surj_pair)
    with None show ?thesis by (simp add: table_get_def)
  next
    case (Some m)
    then obtain p where "p < length s" "s ! p = Live i m"
      using table_map_Some [OF inv] by blast
    with find_loop_iff [OF inv, of i p m] Some show ?thesis by (simp add: table_get_def)
  qed
qed

lemma table_empty_inv: "table_inv (table_empty n)"
  by (simp add: table_inv_def table_empty_def)

lemma table_empty_map: "table_map (table_empty n) = (\<lambda>_. None)"
  using table_map_None [OF table_empty_inv, of n] by (auto simp: table_empty_def)

lemma reach_update: "reach s i p \<Longrightarrow> x \<noteq> Vacant \<Longrightarrow> reach (s[q := x]) i p"
  unfolding reach_def by (auto simp: nth_list_update) (metis nth_list_update_eq nth_list_update_neq list_update_beyond not_le)

text \<open>Writing an id into a slot it is reachable at, with no other slot holding it.\<close>

lemma table_inv_write:
  assumes inv: "table_inv s" and q: "q < length s" "reach s i q"
    and only: "\<forall>p < length s. \<forall>m. s ! p = Live i m \<longrightarrow> p = q"
  shows "table_inv (s[q := Live i m])"
    and "\<forall>m'. s ! q = Live i' m' \<longrightarrow> i' = i \<Longrightarrow>
           table_map (s[q := Live i m]) i' = (if i' = i then Some m else table_map s i')"
proof -
  show inv': "table_inv (s[q := Live i m])"
    using inv only q unfolding table_inv_def
    by (auto simp: nth_list_update split: if_splits intro!: reach_update)
  assume old: "\<forall>m'. s ! q = Live i' m' \<longrightarrow> i' = i"
  show "table_map (s[q := Live i m]) i' = (if i' = i then Some m else table_map s i')"
  proof (cases "i' = i")
    case True
    then show ?thesis using q by (auto simp: table_map_Some [OF inv'])
  next
    case False
    have "table_map (s[q := Live i m]) i' = Some m' \<longleftrightarrow> table_map s i' = Some m'" for m'
      using old False q by (auto simp: table_map_Some [OF inv'] table_map_Some [OF inv] nth_list_update)
    then have "table_map (s[q := Live i m]) i' = table_map s i'" by (metis not_Some_eq)
    with False show ?thesis by simp
  qed
qed

lemma table_inv_clear:
  assumes inv: "table_inv s" and q: "q < length s" "s ! q = Live i m0"
  shows "table_inv (s[q := Removed])"
    and "table_map (s[q := Removed]) = (table_map s)(i := None)"
proof -
  show inv': "table_inv (s[q := Removed])"
    using inv q unfolding table_inv_def
    by (auto simp: nth_list_update split: if_splits intro!: reach_update)
  show "table_map (s[q := Removed]) = (table_map s)(i := None)"
  proof
    fix i'
    show "table_map (s[q := Removed]) i' = ((table_map s)(i := None)) i'"
    proof (cases "i' = i")
      case True
      then show ?thesis
        using inv q by (auto simp: table_map_None [OF inv'] nth_list_update table_inv_def)
    next
      case False
      have "table_map (s[q := Removed]) i' = Some m' \<longleftrightarrow> table_map s i' = Some m'" for m'
        using q False
        by (auto simp: table_map_Some [OF inv'] table_map_Some [OF inv] nth_list_update)
          (metis q(2) slot.inject)
      with False show ?thesis by (metis fun_upd_other not_Some_eq)
    qed
  qed
qed

lemma table_insert_length [simp]: "length (snd (table_insert i m s)) = length s"
proof (cases "insert_loop s i m None (probe_sequence i (length s))")
  case (Some s')
  from insert_loop_Some [OF this] show ?thesis by (auto simp: table_insert_def Some)
qed (simp add: table_insert_def)

lemma table_insert_cases:
  assumes inv: "table_inv s" and "table_insert i m s = (ok, s')"
  obtains (written) q where "ok" "s' = s[q := Live i m]" "q < length s" "reach s i q"
      "\<forall>p < length s. \<forall>m'. s ! p = Live i m' \<longrightarrow> p = q"
      "\<forall>i' m'. s ! q = Live i' m' \<longrightarrow> i' = i"
    | (full) "\<not> ok" "s' = s" "\<forall>p < length s. s ! p \<noteq> Vacant \<and> (\<forall>m'. s ! p \<noteq> Live i m')"
proof (cases "insert_loop s i m None (probe_sequence i (length s))")
  case None
  then have "\<not> ok" "s' = s" using assms(2) by (auto simp: table_insert_def)
  moreover have "\<forall>p < length s. s ! p \<noteq> Vacant \<and> (\<forall>m'. s ! p \<noteq> Live i m')"
    using None by (simp add: insert_loop_None probe_sequence_all)
  ultimately show ?thesis by (rule full)
next
  case (Some s'')
  then have ok: "ok" "s'' = s'" using assms(2) by (auto simp: table_insert_def)
  from insert_loop_Some [OF Some] obtain us p vs where
    sp: "probe_sequence i (length s) = us @ p # vs"
    and nv: "\<forall>u \<in> set us. s ! u \<noteq> Vacant \<and> (\<forall>m. s ! u \<noteq> Live i m)"
    and alt: "(\<exists>m0. s ! p = Live i m0 \<and> s'' = s[p := Live i m]) \<or>
        (s ! p = Vacant \<and> (\<exists>q. s'' = s[q := Live i m] \<and> (q = p \<or> q \<in> set us \<and> s ! q = Removed)))"
    by auto
  have p: "p < length s" "reach s i p"
    using reach_split [OF sp] nv probe_sequence_set [of p i "length s"] sp by auto
  from alt consider
      (here) m0 where "s ! p = Live i m0" "s'' = s[p := Live i m]"
    | (free) q where "s ! p = Vacant" "s'' = s[q := Live i m]" "q = p \<or> q \<in> set us \<and> s ! q = Removed"
    by blast
  then show ?thesis
  proof cases
    case here
    note live = here(1) and s'' = here(2)
    from live p(1) inv have "\<forall>p' < length s. \<forall>m'. s ! p' = Live i m' \<longrightarrow> p' = p"
      unfolding table_inv_def by metis
    moreover have "\<forall>i' m'. s ! p = Live i' m' \<longrightarrow> i' = i" using live by simp
    ultimately show ?thesis using s'' ok p by (intro written [of p]) blast+
  next
    case free
    note vac = free(1) and s'' = free(2) and q = free(3)
    have absent: "s ! p' \<noteq> Live i m'" if p': "p' < length s" for p' m'
    proof
      assume l: "s ! p' = Live i m'"
      with inv p' have "reach s i p'" by (auto simp: table_inv_def)
      then obtain us' vs' where sp': "probe_sequence i (length s) = us' @ p' # vs'"
        and nv': "\<forall>u \<in> set us'. s ! u \<noteq> Vacant" by (rule reach_in_sequence)
      from sp sp' have "us @ p # vs = us' @ p' # vs'" by simp
      then consider "us = us'" "p = p'" | zs where "us' = us @ p # zs" | zs where "us = us' @ p' # zs"
        by (auto simp: append_eq_append_conv2 Cons_eq_append_conv append_eq_Cons_conv)
      then show False using vac nv nv' l by cases auto
    qed
    have "reach s i q"
    proof (cases "q = p")
      case False
      with q obtain as bs where "us = as @ q # bs" by (metis in_set_conv_decomp)
      with sp nv show ?thesis by (intro reach_split [of i s as q "bs @ p # vs"]) auto
    qed (use p in simp)
    moreover have "q < length s"
      using q p sp probe_sequence_set [of q i "length s"] by auto
    moreover have "\<forall>i' m'. s ! q = Live i' m' \<longrightarrow> i' = i" using q vac by auto
    moreover have "\<forall>p < length s. \<forall>m'. s ! p = Live i m' \<longrightarrow> p = q" using absent by blast
    moreover have "s' = s[q := Live i m]" using ok s'' by simp
    ultimately show ?thesis using ok(1) by (intro written) 
  qed
qed

lemma table_insert_true:
  assumes "table_inv s" "table_insert i m s = (True, s')"
  shows "table_inv s' \<and> table_map s' = (table_map s)(i \<mapsto> m)"
  using assms
proof (cases rule: table_insert_cases)
  case (written q)
  have "table_inv s'" unfolding written(2)
    by (rule table_inv_write(1)) (use assms(1) written in blast)+
  moreover have "table_map s' i' = (if i' = i then Some m else table_map s i')" for i'
    unfolding written(2)
    by (rule table_inv_write(2)) (use assms(1) written in blast)+
  ultimately show ?thesis by (simp add: fun_eq_iff)
next
  case full
  from full(1) show ?thesis by simp
qed

lemma table_insert_false:
  assumes "table_inv s" "table_insert i m s = (False, s')"
  shows "s' = s \<and> table_map s i = None"
  using assms
proof (cases rule: table_insert_cases)
  case full
  then show ?thesis by (simp add: table_map_None [OF assms(1)])
next
  case written
  from written(1) show ?thesis by simp
qed

lemma table_insert_update:
  assumes "table_inv s" "table_map s i \<noteq> None"
  shows "fst (table_insert i m s)"
proof (rule ccontr)
  assume "\<not> fst (table_insert i m s)"
  then have "table_insert i m s = (False, snd (table_insert i m s))" by (simp add: prod_eq_iff)
  from table_insert_false [OF assms(1) this] assms(2) show False by simp
qed

lemma table_remove_map:
  assumes inv: "table_inv s"
  shows "table_inv (snd (table_remove i s))"
    and "table_map (snd (table_remove i s)) = (table_map s)(i := None)"
    and "fst (table_remove i s) \<longleftrightarrow> table_map s i \<noteq> None"
proof -
  have "table_inv (snd (table_remove i s)) \<and>
        table_map (snd (table_remove i s)) = (table_map s)(i := None) \<and>
        (fst (table_remove i s) \<longleftrightarrow> table_map s i \<noteq> None)"
  proof (cases "find_loop s i (probe_sequence i (length s))")
    case None
    then have "table_map s i = None" using table_get_map [OF inv, of i] by (simp add: table_get_def)
    with None inv show ?thesis by (auto simp: table_remove_def)
  next
    case (Some r)
    obtain p m where r: "r = (p, m)" by (cases r)
    with Some have "p < length s \<and> s ! p = Live i m" by (simp add: find_loop_iff [OF inv])
    with Some r table_inv_clear [OF inv, of p i m] table_map_Some [OF inv, of i m]
    show ?thesis by (auto simp: table_remove_def)
  qed
  then show "table_inv (snd (table_remove i s))"
    "table_map (snd (table_remove i s)) = (table_map s)(i := None)"
    "fst (table_remove i s) \<longleftrightarrow> table_map s i \<noteq> None" by blast+
qed

lemma table_get_mut_None:
  "table_inv s \<Longrightarrow> table_get_mut i f s = None \<longleftrightarrow> table_map s i = None"
  by (simp add: table_get_map [symmetric] table_get_mut_def table_get_def split: option.splits)

lemma table_get_mut_Some:
  assumes inv: "table_inv s" and "table_get_mut i f s = Some s'"
  obtains m where "table_map s i = Some m" "table_inv s'" "table_map s' = (table_map s)(i \<mapsto> f m)"
    "length s' = length s"
proof -
  from assms(2) obtain p m where pm: "find_loop s i (probe_sequence i (length s)) = Some (p, m)"
    and s': "s' = s[p := Live i (f m)]" by (auto simp: table_get_mut_def split: option.splits)
  from pm have p: "p < length s" "s ! p = Live i m" by (auto simp: find_loop_iff [OF inv])
  then have "reach s i p" and only: "\<forall>q < length s. \<forall>m. s ! q = Live i m \<longrightarrow> q = p"
    using inv unfolding table_inv_def by metis+
  have old: "\<forall>m'. s ! p = Live i' m' \<longrightarrow> i' = i" for i' using p by simp
  have w: "table_inv s'" unfolding s'
    by (rule table_inv_write(1) [OF inv p(1) \<open>reach s i p\<close> only])
  have "table_map s' i' = (if i' = i then Some (f m) else table_map s i')" for i'
    unfolding s' by (rule table_inv_write(2) [OF inv p(1) \<open>reach s i p\<close> only old])
  then have u: "table_map s' = (table_map s)(i \<mapsto> f m)" by (simp add: fun_eq_iff)
  have "table_map s i = Some m" using p by (auto simp: table_map_Some [OF inv])
  from this w u show ?thesis by (rule that) (simp add: s')
qed

section \<open>The interface the object manager relies on\<close>

text \<open>
  A keyed store that may refuse an insertion. What the manager needs of it: every operation
  keeps the store well formed and changes one key at most, and an entry that is there can
  always be rewritten.
\<close>

locale object_map =
  fixes good :: "'t \<Rightarrow> bool"
    and lookup :: "'t \<Rightarrow> 'k \<Rightarrow> 'v option"
    and put :: "'k \<Rightarrow> 'v \<Rightarrow> 't \<Rightarrow> bool \<times> 't"
    and del :: "'k \<Rightarrow> 't \<Rightarrow> bool \<times> 't"
    and modify :: "'k \<Rightarrow> ('v \<Rightarrow> 'v) \<Rightarrow> 't \<Rightarrow> 't option"
  assumes put_true: "good t \<Longrightarrow> put k v t = (True, t') \<Longrightarrow>
      good t' \<and> lookup t' = (lookup t)(k \<mapsto> v)"
    and put_false: "good t \<Longrightarrow> put k v t = (False, t') \<Longrightarrow> t' = t \<and> lookup t k = None"
    and del_good: "good t \<Longrightarrow> good (snd (del k t))"
    and del_lookup: "good t \<Longrightarrow> lookup (snd (del k t)) = (lookup t)(k := None)"
    and del_flag: "good t \<Longrightarrow> fst (del k t) \<longleftrightarrow> lookup t k \<noteq> None"
    and modify_None: "good t \<Longrightarrow> modify k f t = None \<longleftrightarrow> lookup t k = None"
    and modify_Some: "good t \<Longrightarrow> modify k f t = Some t' \<Longrightarrow>
      good t' \<and> (\<exists>v. lookup t k = Some v \<and> lookup t' = (lookup t)(k \<mapsto> f v))"
begin

lemma put_present: "good t \<Longrightarrow> lookup t k \<noteq> None \<Longrightarrow> fst (put k v t)"
  using put_false [of t k v "snd (put k v t)"]
  by (cases "put k v t"; cases "fst (put k v t)") auto

lemma put_good: "good t \<Longrightarrow> good (snd (put k v t))"
  using put_true [of t k v] put_false [of t k v] by (cases "put k v t"; cases "fst (put k v t)") auto

lemma put_lookup:
  "good t \<Longrightarrow> lookup (snd (put k v t)) = (if fst (put k v t) then (lookup t)(k \<mapsto> v) else lookup t)"
  using put_true [of t k v] put_false [of t k v] by (cases "put k v t"; cases "fst (put k v t)") auto

lemma modify_present: "good t \<Longrightarrow> lookup t k = Some v \<Longrightarrow>
    \<exists>t'. modify k f t = Some t' \<and> good t' \<and> lookup t' = (lookup t)(k \<mapsto> f v)"
  using modify_None [of t k f] modify_Some [of t k f] by fastforce

lemma del_absent: "good t \<Longrightarrow> \<not> fst (del k t) \<Longrightarrow> lookup (snd (del k t)) = lookup t"
  by (simp add: del_lookup del_flag fun_upd_idem)

end

interpretation tab: object_map table_inv table_map table_insert table_remove table_get_mut
proof
  fix t :: table and k v t' f
  assume inv: "table_inv t"
  show "table_insert k v t = (True, t') \<Longrightarrow> table_inv t' \<and> table_map t' = (table_map t)(k \<mapsto> v)"
    by (rule table_insert_true [OF inv])
  show "table_insert k v t = (False, t') \<Longrightarrow> t' = t \<and> table_map t k = None"
    by (rule table_insert_false [OF inv])
  show "table_inv (snd (table_remove k t))"
    "table_map (snd (table_remove k t)) = (table_map t)(k := None)"
    "fst (table_remove k t) = (table_map t k \<noteq> None)"
    by (rule table_remove_map [OF inv])+
  show "table_get_mut k f t = None \<longleftrightarrow> table_map t k = None"
    by (rule table_get_mut_None [OF inv])
  show "table_get_mut k f t = Some t' \<Longrightarrow>
      table_inv t' \<and> (\<exists>v. table_map t k = Some v \<and> table_map t' = (table_map t)(k \<mapsto> f v))"
    by (erule table_get_mut_Some [OF inv]) auto
qed

lemma entries_map: "table_inv s \<Longrightarrow> (i, m) \<in> set (entries s) \<longleftrightarrow> table_map s i = Some m"
  by (simp add: entries_set table_map_Some)

lemma table_at_map: "table_inv s \<Longrightarrow> table_at s p = Some (i, m) \<Longrightarrow> table_map s i = Some m"
  by (auto simp: table_at_Some table_map_Some)

lemma table_map_at: "table_inv s \<Longrightarrow> table_map s i = Some m \<Longrightarrow> \<exists>p < length s. table_at s p = Some (i, m)"
  by (auto simp: table_at_Some table_map_Some)

lemma table_get_mut_length: "table_get_mut i f s = Some s' \<Longrightarrow> length s' = length s"
  by (auto simp: table_get_mut_def split: option.splits)

lemma table_remove_length [simp]: "length (snd (table_remove i s)) = length s"
  by (auto simp: table_remove_def split: option.splits)

section \<open>Properties\<close>

text \<open>C7: the object table is a finite map from ids to records. An insertion that succeeds
  updates exactly that id and leaves the table well formed; a lookup is the map; a removal
  clears exactly that id and reports whether it was there.\<close>

theorem table_refines_map:
  assumes "table_inv s"
  shows "table_get s i = table_map s i \<and>
    table_inv (snd (table_insert j m s)) \<and>
    table_map (snd (table_insert j m s)) =
      (if fst (table_insert j m s) then (table_map s)(j \<mapsto> m) else table_map s) \<and>
    table_inv (snd (table_remove j s)) \<and>
    table_map (snd (table_remove j s)) = (table_map s)(j := None) \<and>
    (fst (table_remove j s) \<longleftrightarrow> table_map s j \<noteq> None)"
  using assms
  by (simp add: table_get_map tab.put_good tab.put_lookup tab.del_good tab.del_lookup tab.del_flag)

text \<open>An object to state examples with: one KV block of session 1, not resident.\<close>

definition sample_meta :: object_meta where
  "sample_meta =
     \<lparr>m_size = 64, m_precision = Fp16, m_tier = Cold, m_home = Cold, m_provider = 1, m_handle = 0,
      m_resident_at = 0, m_next_use = Never, m_reuse_count = 0, m_placed_tick = 0, m_used_tick = 0,
      m_reload_cost = 10, m_recompute_cost = IMPOSSIBLE, m_share_count = 0, m_mutability = Mutable,
      m_owner = 1\<rparr>"

lemma table_refines_map_witness:
  "table_get (snd (table_insert 7 sample_meta (table_empty 4))) 7 = Some sample_meta"
proof -
  have "fst (table_insert 7 sample_meta (table_empty 4))"
    using insert_loop_None [of "table_empty 4" 7 sample_meta None "probe_sequence 7 4"]
    by (auto simp: table_insert_def table_empty_def probe_sequence_all split: option.splits dest: spec [of _ 0])
  with table_refines_map [OF table_empty_inv, of 4 0 7 sample_meta]
    table_refines_map [of "snd (table_insert 7 sample_meta (table_empty 4))" 7 0 sample_meta]
  show ?thesis by simp
qed

text \<open>An insertion is refused exactly when the id is absent and no slot was never used:
  slots whose object was removed do not count as room, whatever their number.\<close>

theorem table_insert_refused_iff:
  assumes "table_inv s"
  shows "\<not> fst (table_insert i m s) \<longleftrightarrow> table_map s i = None \<and> Vacant \<notin> set s"
proof -
  have "insert_loop s i m None (probe_sequence i (length s)) = None \<longleftrightarrow>
          Vacant \<notin> set s \<and> table_map s i = None"
    by (auto simp: insert_loop_None probe_sequence_all table_map_None [OF assms] in_set_conv_nth)
  then show ?thesis by (auto simp: table_insert_def split: option.splits)
qed

lemma table_insert_refused_iff_witness:
  "entries [Removed, Removed] = [] \<and> \<not> fst (table_insert 7 sample_meta [Removed, Removed])"
proof -
  have inv: "table_inv [Removed, Removed]"
    by (simp add: table_inv_def less_Suc_eq)
  have e: "entries [Removed, Removed] = []" by code_simp
  then have "table_map [Removed, Removed] 7 = None" by (simp add: table_map_def)
  with e table_insert_refused_iff [OF inv, of 7 sample_meta] show ?thesis by simp
qed

end
