(* ===== verification/Arena.thy ===== *)
theory Arena
  imports Abi
begin

text \<open>
  crates/mlos-arena: a fixed region of bytes with a sorted, coalescing free list of at most 64
  holes. A placement takes the front of the first hole that is long enough; a release inserts a
  hole and merges it with its neighbours. The free list is a canonical form of the set of free
  bytes, which is what the lemmas are stated over.
\<close>

section \<open>State (lib.rs, holes.rs)\<close>

definition HOLES :: nat where "HOLES = 64"

definition ALIGN :: nat where "ALIGN = 16"

record hole =
  h_at :: nat
  h_len :: nat

text \<open>\<open>ar_free\<close> is the live prefix \<open>free[..holes]\<close> of the array of holes.\<close>

record arena =
  ar_bytes :: "u8 list"
  ar_base :: nat
  ar_free :: "hole list"
  ar_used :: nat

record occupancy =
  oc_base :: nat
  oc_used :: nat
  oc_capacity :: nat
  oc_largest :: nat

definition arena_new :: "nat \<Rightarrow> u8 list \<Rightarrow> arena" where
  "arena_new base bytes =
     \<lparr>ar_bytes = bytes, ar_base = base, ar_free = [\<lparr>h_at = 0, h_len = length bytes\<rparr>], ar_used = 0\<rparr>"

text \<open>What a size takes, in \<open>usize\<close>.\<close>

definition aligned :: "nat \<Rightarrow> nat" where
  "aligned sz = next_multiple_of ALIGN sz"

text \<open>\<open>place\<close>: the address and the room to fill, as the offset of its first byte and its length.\<close>

definition arena_place :: "nat \<Rightarrow> arena \<Rightarrow> (nat \<times> nat \<times> nat) res \<times> arena" where
  "arena_place sz a =
     (let want = aligned sz in
      case position (\<lambda>h. want \<le> h_len h) (ar_free a) of
        None \<Rightarrow> (Inl NoBudget, a)
      | Some index \<Rightarrow>
          (let h = ar_free a ! index;
               start = h_at h;
               h' = \<lparr>h_at = h_at h + want, h_len = h_len h - want\<rparr>;
               free' = (if h_len h' = 0 then delete_at index (ar_free a) else (ar_free a)[index := h']);
               a' = a\<lparr>ar_free := free', ar_used := ar_used a + want\<rparr>
           in if start + want \<le> length (ar_bytes a)
              then (Inr (ar_base a + start, start, sz), a')
              else (Inl NoBudget, a')))"

definition merge_next :: "hole list \<Rightarrow> nat \<Rightarrow> hole list" where
  "merge_next free index =
     (if index + 1 < length free \<and>
         h_at (free ! index) + h_len (free ! index) = h_at (free ! (index + 1))
      then delete_at (index + 1)
             (free[index := (free ! index)\<lparr>h_len := h_len (free ! index) + h_len (free ! (index + 1))\<rparr>])
      else free)"

definition merge_previous :: "hole list \<Rightarrow> nat \<Rightarrow> hole list" where
  "merge_previous free index =
     (if 0 < index \<and>
         h_at (free ! (index - 1)) + h_len (free ! (index - 1)) = h_at (free ! index)
      then delete_at index
             (free[index - 1 :=
                (free ! (index - 1))\<lparr>h_len := h_len (free ! (index - 1)) + h_len (free ! index)\<rparr>])
      else free)"

definition merge :: "hole list \<Rightarrow> nat \<Rightarrow> hole list" where
  "merge free index = merge_previous (merge_next free index) index"

definition arena_release :: "nat \<Rightarrow> nat \<Rightarrow> arena \<Rightarrow> unit res \<times> arena" where
  "arena_release address sz a =
     (case checked_sub address (ar_base a) of
        None \<Rightarrow> (Inl BadObject, a)
      | Some start \<Rightarrow>
          (let len = aligned sz;
               index = (case position (\<lambda>h. start < h_at h) (ar_free a) of
                          None \<Rightarrow> length (ar_free a) | Some i \<Rightarrow> i)
           in if length (ar_free a) = HOLES then (Inl NoBudget, a)
              else (Inr (),
                    a\<lparr>ar_free := merge (insert_at index \<lparr>h_at = start, h_len = len\<rparr> (ar_free a)) index,
                      ar_used := wrap_sub 64 (ar_used a) len\<rparr>)))"

definition arena_largest :: "arena \<Rightarrow> nat" where
  "arena_largest a = foldr max (map h_len (ar_free a)) 0"

definition arena_occupancy :: "arena \<Rightarrow> occupancy" where
  "arena_occupancy a =
     \<lparr>oc_base = ar_base a, oc_used = ar_used a, oc_capacity = length (ar_bytes a),
      oc_largest = arena_largest a\<rparr>"

text \<open>\<open>fits\<close> rounds in \<open>u32\<close>, as the source does: the rounding of a size within 15 bytes of
  the top of the range is what a register of 32 bits keeps of it.\<close>

definition fits :: "occupancy \<Rightarrow> nat \<Rightarrow> bool" where
  "fits oc sz = (wrap 32 (next_multiple_of ALIGN sz) \<le> oc_largest oc)"

text \<open>The caller fills the room a placement returned.\<close>

definition arena_write :: "nat \<Rightarrow> u8 list \<Rightarrow> arena \<Rightarrow> arena" where
  "arena_write start data a =
     a\<lparr>ar_bytes := take start (ar_bytes a) @ data @ drop (start + length data) (ar_bytes a)\<rparr>"

section \<open>The free list as a set of bytes\<close>

definition hole_set :: "hole \<Rightarrow> nat set" where
  "hole_set h = {h_at h..<h_at h + h_len h}"

definition holes_set :: "hole list \<Rightarrow> nat set" where
  "holes_set hs = (\<Union>h \<in> set hs. hole_set h)"

definition separated :: "hole list \<Rightarrow> bool" where
  "separated hs \<longleftrightarrow> sorted_wrt (\<lambda>h g. h_at h + h_len h < h_at g) hs \<and> (\<forall>h \<in> set hs. 0 < h_len h)"

definition free_set :: "arena \<Rightarrow> nat set" where
  "free_set a = holes_set (ar_free a)"

definition arena_inv :: "arena \<Rightarrow> bool" where
  "arena_inv a \<longleftrightarrow>
     separated (ar_free a) \<and> length (ar_free a) \<le> HOLES \<and>
     (\<forall>h \<in> set (ar_free a). ALIGN dvd h_at h \<and> h_at h + h_len h \<le> length (ar_bytes a)) \<and>
     ar_used a + sum_list (map h_len (ar_free a)) = length (ar_bytes a) \<and>
     ar_base a + length (ar_bytes a) < 2 ^ 64"

lemma holes_set_simps [simp]:
  "holes_set [] = {}"
  "holes_set (h # hs) = hole_set h \<union> holes_set hs"
  "holes_set (hs @ gs) = holes_set hs \<union> holes_set gs"
  by (auto simp: holes_set_def)

lemma separated_simps [simp]:
  "separated []"
  "separated (h # hs) \<longleftrightarrow> 0 < h_len h \<and> (\<forall>g \<in> set hs. h_at h + h_len h < h_at g) \<and> separated hs"
  by (auto simp: separated_def)

lemma separated_append:
  "separated (hs @ gs) \<longleftrightarrow>
     separated hs \<and> separated gs \<and> (\<forall>h \<in> set hs. \<forall>g \<in> set gs. h_at h + h_len h < h_at g)"
  by (auto simp: separated_def sorted_wrt_append)

lemma aligned_facts:
  "ALIGN dvd aligned sz" "sz \<le> aligned sz" "aligned sz < sz + ALIGN"
  "0 < sz \<Longrightarrow> 0 < aligned sz"
  by (simp_all add: aligned_def ALIGN_def next_multiple_of_dvd next_multiple_of_ge
      next_multiple_of_lt next_multiple_of_pos)

text \<open>A separated list is determined by the set it describes.\<close>

lemma separated_Cons_first:
  assumes "separated (h # hs)"
  shows "h_at h \<in> holes_set (h # hs)" "\<And>x. x \<in> holes_set (h # hs) \<Longrightarrow> h_at h \<le> x"
    "h_at h + h_len h \<notin> holes_set (h # hs)"
    "holes_set hs = {x \<in> holes_set (h # hs). h_at h + h_len h \<le> x}"
  using assms by (auto simp: hole_set_def holes_set_def; fastforce)+

lemma separated_unique:
  "separated hs \<Longrightarrow> separated gs \<Longrightarrow> holes_set hs = holes_set gs \<Longrightarrow> hs = gs"
proof (induction hs arbitrary: gs)
  case Nil
  then show ?case by (cases gs) (auto simp: hole_set_def)
next
  case (Cons h hs)
  from Cons.prems separated_Cons_first(1) [OF Cons.prems(1)] obtain g gs' where gs: "gs = g # gs'"
    by (cases gs) auto
  note h = separated_Cons_first [OF Cons.prems(1)]
    and g = separated_Cons_first [OF Cons.prems(2) [unfolded gs]]
  have eq: "holes_set (h # hs) = holes_set (g # gs')" using Cons.prems(3) gs by simp
  have at: "h_at h = h_at g" using h(1,2) g(1,2) eq by (metis antisym)
  have inh: "h_at h \<le> x \<Longrightarrow> x < h_at h + h_len h \<Longrightarrow> x \<in> holes_set (h # hs)" for x
    by (simp add: hole_set_def)
  have ing: "h_at g \<le> x \<Longrightarrow> x < h_at g + h_len g \<Longrightarrow> x \<in> holes_set (g # gs')" for x
    by (simp add: hole_set_def)
  have "\<not> h_len h < h_len g" using ing [of "h_at h + h_len h"] h(3) eq at by auto
  moreover have "\<not> h_len g < h_len h" using inh [of "h_at g + h_len g"] g(3) eq at by auto
  ultimately have len: "h_len h = h_len g" by simp
  have "holes_set hs = holes_set gs'" unfolding h(4) g(4) eq at len ..
  then have "hs = gs'" using Cons.IH [of gs'] Cons.prems gs by simp
  with at len gs show ?case by simp
qed

section \<open>Placing\<close>

lemma hole_eta: "h\<lparr>h_at := x, h_len := y\<rparr> = \<lparr>h_at = x, h_len = y\<rparr>"
  by simp

lemma arena_place_cases:
  assumes inv: "arena_inv a"
  obtains (refused) "arena_place sz a = (Inl NoBudget, a)" "\<forall>h \<in> set (ar_free a). h_len h < aligned sz"
  | (placed) us h vs where "ar_free a = us @ h # vs" "aligned sz \<le> h_len h"
      "\<forall>g \<in> set us. h_len g < aligned sz"
      "arena_place sz a =
         (Inr (ar_base a + h_at h, h_at h, sz),
          a\<lparr>ar_free := us @ (if h_len h = aligned sz then vs
                             else \<lparr>h_at = h_at h + aligned sz, h_len = h_len h - aligned sz\<rparr> # vs),
            ar_used := ar_used a + aligned sz\<rparr>)"
proof (cases "position (\<lambda>h. aligned sz \<le> h_len h) (ar_free a)")
  case None
  then show ?thesis
    by (intro refused) (simp add: arena_place_def, simp add: position_None not_le)
next
  case (Some i)
  from position_split [OF this] obtain us vs where
    fr: "ar_free a = us @ (ar_free a ! i) # vs" and len: "length us = i"
    and before: "\<forall>u \<in> set us. \<not> aligned sz \<le> h_len u" and ok: "aligned sz \<le> h_len (ar_free a ! i)"
    by blast
  define h where "h = ar_free a ! i"
  from fr have fr': "ar_free a = us @ h # vs" by (simp add: h_def)
  have bound: "h_at h + h_len h \<le> length (ar_bytes a)"
    using inv fr' by (simp add: arena_inv_def)
  have nth: "ar_free a ! i = h" by (simp add: h_def)
  have "arena_place sz a =
         (Inr (ar_base a + h_at h, h_at h, sz),
          a\<lparr>ar_free := us @ (if h_len h = aligned sz then vs
                             else \<lparr>h_at = h_at h + aligned sz, h_len = h_len h - aligned sz\<rparr> # vs),
            ar_used := ar_used a + aligned sz\<rparr>)"
    using Some ok bound len
    by (simp add: arena_place_def Let_def nth) (auto simp: fr' h_def [symmetric] list_update_append)
  with fr' ok before show ?thesis by (intro placed [of us h vs]) (auto simp: not_le h_def)
qed

lemma arena_place_refused:
  assumes "arena_inv a"
  shows "fst (arena_place sz a) = Inl e \<longleftrightarrow> e = NoBudget \<and> (\<forall>h \<in> set (ar_free a). h_len h < aligned sz)"
  using assms by (cases rule: arena_place_cases [of a sz]) auto

lemma arena_place_refused_same:
  "arena_inv a \<Longrightarrow> arena_place sz a = (Inl e, a') \<Longrightarrow> a' = a"
  by (cases rule: arena_place_cases [of a sz]) auto

lemma arena_place_frame [frame]:
  "ar_bytes (snd (arena_place sz a)) = ar_bytes a" "ar_base (snd (arena_place sz a)) = ar_base a"
  by (auto simp: arena_place_def Let_def split: option.splits)

text \<open>A successful placement of a positive size, as a set operation.\<close>

lemma arena_place_sound:
  assumes inv: "arena_inv a" and pos: "0 < sz" and run: "arena_place sz a = (Inr (address, start, len), a')"
  shows "arena_inv a'" "address = ar_base a + start" "len = sz" "ALIGN dvd start"
    "start + aligned sz \<le> length (ar_bytes a)"
    "{start..<start + aligned sz} \<subseteq> free_set a"
    "free_set a' = free_set a - {start..<start + aligned sz}"
    "ar_used a' = ar_used a + aligned sz"
    "length (ar_free a') \<le> length (ar_free a)"
proof -
  have "arena_inv a' \<and> address = ar_base a + start \<and> len = sz \<and> ALIGN dvd start \<and>
    start + aligned sz \<le> length (ar_bytes a) \<and>
    {start..<start + aligned sz} \<subseteq> free_set a \<and>
    free_set a' = free_set a - {start..<start + aligned sz} \<and>
    ar_used a' = ar_used a + aligned sz \<and> length (ar_free a') \<le> length (ar_free a)"
    using inv
  proof (cases rule: arena_place_cases [of a sz])
    case refused
    with run show ?thesis by simp
  next
    case (placed us h vs)
    let ?w = "aligned sz"
    have w: "0 < ?w" "ALIGN dvd ?w" using pos aligned_facts by auto
    have st: "start = h_at h" "address = ar_base a + h_at h" "len = sz"
      and a': "a' = a\<lparr>ar_free := us @ (if h_len h = ?w then vs
                   else \<lparr>h_at = h_at h + ?w, h_len = h_len h - ?w\<rparr> # vs), ar_used := ar_used a + ?w\<rparr>"
      using placed(4) run by auto
    have sep: "separated (us @ h # vs)" using inv placed(1) by (simp add: arena_inv_def)
    have inv': "arena_inv a'"
      using inv placed(1,2) w sep
      by (auto simp: arena_inv_def a' separated_append dvd_add)
    have "holes_set (us @ (if h_len h = ?w then vs
                   else \<lparr>h_at = h_at h + ?w, h_len = h_len h - ?w\<rparr> # vs)) =
          holes_set (us @ h # vs) - {h_at h..<h_at h + ?w}"
    proof -
      have "x < h_at h" if "x \<in> holes_set us" for x
        using that sep by (auto simp: separated_append holes_set_def hole_set_def)
      moreover have "h_at h + h_len h < x" if "x \<in> holes_set vs" for x
        using that sep by (auto simp: separated_append holes_set_def hole_set_def)
      ultimately have "holes_set us \<inter> {h_at h..<h_at h + ?w} = {}"
        "holes_set vs \<inter> {h_at h..<h_at h + ?w} = {}"
        using placed(2) by fastforce+
      then show ?thesis using placed(2) by (auto simp: hole_set_def)
    qed
    then have "free_set a' = free_set a - {h_at h..<h_at h + ?w}"
      by (simp add: free_set_def a' placed(1))
    moreover have "{h_at h..<h_at h + ?w} \<subseteq> free_set a"
      using placed(1,2) by (auto simp: free_set_def hole_set_def)
    ultimately show ?thesis
      using inv' st a' inv placed(1,2) by (auto simp: arena_inv_def)
  qed
  then show "arena_inv a'" "address = ar_base a + start" "len = sz" "ALIGN dvd start"
    "start + aligned sz \<le> length (ar_bytes a)"
    "{start..<start + aligned sz} \<subseteq> free_set a"
    "free_set a' = free_set a - {start..<start + aligned sz}"
    "ar_used a' = ar_used a + aligned sz" "length (ar_free a') \<le> length (ar_free a)" by blast+
qed

text \<open>A run of free bytes lies within one hole, so a hole long enough exists exactly when a run
  long enough does.\<close>

lemma run_in_hole:
  assumes "separated hs" "0 < n" "{x..<x + n} \<subseteq> holes_set hs"
  shows "\<exists>h \<in> set hs. h_at h \<le> x \<and> x + n \<le> h_at h + h_len h"
  using assms
proof (induction hs)
  case (Cons h hs)
  show ?case
  proof (cases "h_at h + h_len h \<le> x")
    case True
    have "separated hs" using Cons.prems(1) by simp
    moreover have "{x..<x + n} \<subseteq> holes_set hs"
    proof
      fix y assume y: "y \<in> {x..<x + n}"
      then have "y \<in> holes_set (h # hs)" using Cons.prems(3) by blast
      moreover have "h_at h + h_len h \<le> y" using y True by simp
      ultimately show "y \<in> holes_set hs"
        unfolding separated_Cons_first(4) [OF Cons.prems(1)] by blast
    qed
    ultimately obtain g where "g \<in> set hs" "h_at g \<le> x" "x + n \<le> h_at g + h_len g"
      using Cons.IH Cons.prems(2) by blast
    then show ?thesis by auto
  next
    case False
    have "x \<in> {x..<x + n}" using Cons.prems(2) by simp
    then have "x \<in> holes_set (h # hs)" using Cons.prems(3) by blast
    then have "h_at h \<le> x" using separated_Cons_first(2) [OF Cons.prems(1)] by blast
    moreover have "x + n \<le> h_at h + h_len h"
    proof (rule ccontr)
      assume "\<not> x + n \<le> h_at h + h_len h"
      then have "h_at h + h_len h \<in> {x..<x + n}" using False by auto
      with Cons.prems(3) separated_Cons_first(3) [OF Cons.prems(1)] show False by blast
    qed
    ultimately show ?thesis by auto
  qed
qed auto

section \<open>Releasing\<close>

lemma merge_next_append:
  "merge_next (us @ b # vs) (length us) = us @
     (case vs of
        [] \<Rightarrow> [b]
      | v # vs' \<Rightarrow> if h_at b + h_len b = h_at v then b\<lparr>h_len := h_len b + h_len v\<rparr> # vs' else b # vs)"
proof (cases vs)
  case (Cons v vs')
  have "delete_at (Suc (length us)) ((us @ b # v # vs')[length us := b']) = us @ b' # vs'" for b'
    using delete_at_append [of "us @ [b']" v vs'] by (simp add: list_update_append)
  with Cons show ?thesis by (simp add: merge_next_def nth_append)
qed (simp add: merge_next_def)

lemma merge_previous_0: "merge_previous free 0 = free"
  by (simp add: merge_previous_def)

lemma merge_previous_append:
  "merge_previous (us @ u # b # vs) (Suc (length us)) =
     (if h_at u + h_len u = h_at b then us @ u\<lparr>h_len := h_len u + h_len b\<rparr> # vs else us @ u # b # vs)"
proof -
  have "delete_at (Suc (length us)) ((us @ u # b # vs)[length us := u']) = us @ u' # vs" for u'
    using delete_at_append [of "us @ [u']" b vs] by (simp add: list_update_append)
  then show ?thesis by (simp add: merge_previous_def nth_append)
qed

text \<open>What both steps keep: the bytes, their number, and the ends of the holes.\<close>

definition same_holes :: "hole list \<Rightarrow> hole list \<Rightarrow> bool" where
  "same_holes hs gs \<longleftrightarrow>
     holes_set gs = holes_set hs \<and>
     sum_list (map h_len gs) = sum_list (map h_len hs) \<and>
     length gs \<le> length hs \<and>
     (\<forall>g \<in> set gs. (\<exists>h \<in> set hs. h_at g = h_at h) \<and>
                   (\<exists>h \<in> set hs. h_at g + h_len g = h_at h + h_len h))"

lemma same_holes_refl [simp]: "same_holes hs hs"
  by (auto simp: same_holes_def)

lemma same_holes_trans: "same_holes hs gs \<Longrightarrow> same_holes gs fs \<Longrightarrow> same_holes hs fs"
  unfolding same_holes_def by (metis (no_types, lifting) le_trans)

lemma same_holes_join:
  assumes "h_at b + h_len b = h_at v"
  shows "same_holes (us @ b # v # vs) (us @ b\<lparr>h_len := h_len b + h_len v\<rparr> # vs)"
  using assms by (auto simp: same_holes_def hole_set_def)

lemma merge_spec:
  assumes "separated us" "separated vs" "0 < h_len b"
    and "\<forall>u \<in> set us. h_at u + h_len u \<le> h_at b" "\<forall>v \<in> set vs. h_at b + h_len b \<le> h_at v"
  shows "separated (merge (us @ b # vs) (length us))"
    and "same_holes (us @ b # vs) (merge (us @ b # vs) (length us))"
proof -
  obtain b' vs' where n: "merge_next (us @ b # vs) (length us) = us @ b' # vs'"
    and sep: "separated (b' # vs')" and b': "h_at b' = h_at b"
    and same: "same_holes (us @ b # vs) (us @ b' # vs')"
  proof (cases vs)
    case Nil
    with assms that [of b "[]"] show ?thesis by (simp add: merge_next_append)
  next
    case (Cons v vs')
    show ?thesis
    proof (cases "h_at b + h_len b = h_at v")
      case True
      with Cons assms show ?thesis
        by (intro that [of "b\<lparr>h_len := h_len b + h_len v\<rparr>" vs'])
          (auto simp: merge_next_append intro: same_holes_join)
    next
      case False
      with Cons assms have "h_at b + h_len b < h_at v" by simp
      with Cons assms show ?thesis
        by (intro that [of b vs]) (auto simp: merge_next_append)
    qed
  qed
  have "separated (merge_previous (us @ b' # vs') (length us)) \<and>
        same_holes (us @ b' # vs') (merge_previous (us @ b' # vs') (length us))"
  proof (cases us rule: rev_cases)
    case Nil
    with sep show ?thesis by (simp add: merge_previous_0)
  next
    case (snoc us' u)
    have u: "h_at u + h_len u \<le> h_at b'" using assms(4) snoc b' by simp
    have us': "\<forall>w \<in> set us'. h_at w + h_len w < h_at u" "separated us'" "0 < h_len u"
      using assms(1) snoc by (simp_all add: separated_append)
    have before: "\<forall>w \<in> set us'. \<forall>v \<in> set (b' # vs'). h_at w + h_len w < h_at v"
      using us' u sep by fastforce
    show ?thesis
    proof (cases "h_at u + h_len u = h_at b'")
      case True
      have "separated (us' @ u\<lparr>h_len := h_len u + h_len b'\<rparr> # vs')"
        using us' sep True before by (auto simp: separated_append)
      with True snoc same_holes_join [OF True, of us' vs'] show ?thesis
        using merge_previous_append [of us' u b' vs'] by simp
    next
      case False
      then have "h_at u + h_len u < h_at b'" using u by simp
      then have "separated (us' @ u # b' # vs')"
        using us' sep before by (auto simp: separated_append)
      with False snoc show ?thesis
        using merge_previous_append [of us' u b' vs'] by simp
    qed
  qed
  with n same show "separated (merge (us @ b # vs) (length us))"
    "same_holes (us @ b # vs) (merge (us @ b # vs) (length us))"
    by (auto simp: merge_def intro: same_holes_trans)
qed

lemma holes_set_finite [simp]: "finite (holes_set hs)"
  by (induction hs) (auto simp: hole_set_def)

lemma holes_set_card: "separated hs \<Longrightarrow> card (holes_set hs) = sum_list (map h_len hs)"
proof (induction hs)
  case (Cons h hs)
  have "hole_set h \<inter> holes_set hs = {}"
  proof -
    have "h_at h + h_len h \<le> x" if "x \<in> holes_set hs" for x
      using separated_Cons_first(4) [OF Cons.prems] that by blast
    then show ?thesis by (fastforce simp: hole_set_def)
  qed
  then have "card (holes_set (h # hs)) = card (hole_set h) + card (holes_set hs)"
    by (simp add: card_Un_disjoint hole_set_def)
  with Cons show ?case by (simp add: hole_set_def)
qed simp

lemma free_set_bound: "arena_inv a \<Longrightarrow> free_set a \<subseteq> {..<length (ar_bytes a)}"
  by (fastforce simp: arena_inv_def free_set_def holes_set_def hole_set_def)

lemma arena_inv_card: "arena_inv a \<Longrightarrow> ar_used a + card (free_set a) = length (ar_bytes a)"
  by (simp add: arena_inv_def free_set_def holes_set_card)

lemma arena_used_ge:
  assumes "arena_inv a" "X \<subseteq> {..<length (ar_bytes a)}" "X \<inter> free_set a = {}"
  shows "card X \<le> ar_used a"
proof -
  have "finite X" using assms(2) finite_subset by blast
  have "card X + card (free_set a) = card (X \<union> free_set a)"
    using assms(3) \<open>finite X\<close> by (simp add: card_Un_disjoint free_set_def)
  also have "\<dots> \<le> card {..<length (ar_bytes a)}"
    using assms(2) free_set_bound [OF assms(1)] by (intro card_mono) auto
  finally show ?thesis using arena_inv_card [OF assms(1)] by simp
qed

lemma free_split:
  assumes "separated hs" and "index = (case position (\<lambda>h. x < h_at h) hs of None \<Rightarrow> length hs | Some i \<Rightarrow> i)"
  obtains us vs where "hs = us @ vs" "index = length us"
    "\<forall>u \<in> set us. h_at u \<le> x" "\<forall>v \<in> set vs. x < h_at v"
proof (cases "position (\<lambda>h. x < h_at h) hs")
  case None
  with assms that [of hs "[]"] show ?thesis by (auto simp: position_None not_less)
next
  case (Some i)
  from position_split [OF this] obtain us ys where us: "hs = us @ hs ! i # ys" "length us = i"
    "\<forall>u \<in> set us. \<not> x < h_at u" "x < h_at (hs ! i)" by blast
  have "separated (us @ hs ! i # ys)" using us(1) assms(1) by simp
  then have "\<forall>v \<in> set (hs ! i # ys). x < h_at v"
    using us(4) by (fastforce simp: separated_append)
  with us Some assms(2) show ?thesis by (intro that [of us "hs ! i # ys"]) auto
qed

lemma arena_release_sound:
  assumes inv: "arena_inv a" and pos: "0 < sz" and al: "ALIGN dvd start"
    and bound: "start + aligned sz \<le> length (ar_bytes a)"
    and used: "{start..<start + aligned sz} \<inter> free_set a = {}"
    and room: "length (ar_free a) < HOLES"
  obtains a' where "arena_release (ar_base a + start) sz a = (Inr (), a')" "arena_inv a'"
    "free_set a' = free_set a \<union> {start..<start + aligned sz}"
    "ar_used a' = ar_used a - aligned sz" "aligned sz \<le> ar_used a"
    "ar_bytes a' = ar_bytes a" "ar_base a' = ar_base a"
proof -
  let ?w = "aligned sz" and ?b = "\<lparr>h_at = start, h_len = aligned sz\<rparr>"
  define index where "index = (case position (\<lambda>h. start < h_at h) (ar_free a) of
      None \<Rightarrow> length (ar_free a) | Some i \<Rightarrow> i)"
  have sep: "separated (ar_free a)" using inv by (simp add: arena_inv_def)
  from free_split [OF sep index_def] obtain us vs where sp: "ar_free a = us @ vs" "index = length us"
    and us: "\<forall>u \<in> set us. h_at u \<le> start" and vs: "\<forall>v \<in> set vs. start < h_at v" by blast
  have w: "0 < ?w" using pos aligned_facts by auto
  have us': "\<forall>u \<in> set us. h_at u + h_len u \<le> start"
  proof
    fix u assume u: "u \<in> set us"
    show "h_at u + h_len u \<le> start"
    proof (rule ccontr)
      assume "\<not> h_at u + h_len u \<le> start"
      then have "start \<in> hole_set u" "u \<in> set (ar_free a)"
        using u us sp by (auto simp: hole_set_def)
      then have "start \<in> free_set a" by (auto simp: free_set_def holes_set_def)
      moreover have "start \<in> {start..<start + ?w}" using w by simp
      ultimately show False using used by blast
    qed
  qed
  have vs': "\<forall>v \<in> set vs. start + ?w \<le> h_at v"
  proof
    fix v assume v: "v \<in> set vs"
    show "start + ?w \<le> h_at v"
    proof (rule ccontr)
      assume lt: "\<not> start + ?w \<le> h_at v"
      have "h_at v \<in> free_set a"
        using v sp sep by (auto simp: free_set_def holes_set_def hole_set_def separated_def)
      moreover have "h_at v \<in> {start..<start + ?w}" using lt v vs by auto
      ultimately show False using used by blast
    qed
  qed
  note m = merge_spec [of us vs ?b]
  let ?fs = "merge (us @ ?b # vs) (length us)"
  have m1: "separated ?fs" and m2: "same_holes (us @ ?b # vs) ?fs"
    using m sep sp us' vs' w by (auto simp: separated_append)
  have "{start..<start + ?w} \<subseteq> {..<length (ar_bytes a)}" using bound by auto
  from arena_used_ge [OF inv this used] have usedge: "?w \<le> ar_used a" by simp
  have lt: "ar_used a < 2 ^ 64" using inv by (simp add: arena_inv_def)
  define a' where "a' = a\<lparr>ar_free := ?fs, ar_used := ar_used a - ?w\<rparr>"
  have idx: "(case position (\<lambda>h. start < h_at h) (ar_free a) of
      None \<Rightarrow> length (ar_free a) | Some i \<Rightarrow> i) = length us"
    using sp(2) by (simp only: index_def)
  have ins: "insert_at (length us) ?b (ar_free a) = us @ ?b # vs" by (simp add: sp(1))
  have "length (ar_free a) \<noteq> HOLES" using room by simp
  then have "arena_release (ar_base a + start) sz a = (Inr (), a')"
    by (simp add: arena_release_def checked_sub_def idx ins Let_def a'_def wrap_sub_exact [OF usedge lt])
  moreover have "arena_inv a'"
    using inv m1 m2 sp al room usedge bound
    unfolding arena_inv_def a'_def same_holes_def by fastforce
  moreover have "free_set a' = free_set a \<union> {start..<start + ?w}"
    using m2 sp by (auto simp: free_set_def a'_def same_holes_def hole_set_def)
  ultimately show ?thesis using usedge by (intro that [of a']) (simp_all add: a'_def)
qed

lemma arena_release_full:
  "arena_inv a \<Longrightarrow> arena_release address sz a = (Inl e, a') \<Longrightarrow> a' = a"
  by (auto simp: arena_release_def Let_def split: option.splits if_splits)

section \<open>The interface the object manager relies on\<close>

text \<open>
  A family of blocks, by owner, that are inside the region, outside its free set, and disjoint:
  what it means for residents not to overlap. With nothing leaked, blocks and free set cover
  the region.
\<close>

definition block :: "(nat \<Rightarrow> nat) \<Rightarrow> nat \<times> nat \<Rightarrow> nat set" where
  "block span b = {fst b..<fst b + span (snd b)}"

definition holds ::
  "(nat \<Rightarrow> nat) \<Rightarrow> (nat \<Rightarrow> bool) \<Rightarrow> nat \<Rightarrow> nat set \<Rightarrow> ('k \<Rightarrow> (nat \<times> nat) option) \<Rightarrow> bool" where
  "holds span start_ok cap fr A \<longleftrightarrow>
     (\<forall>k b. A k = Some b \<longrightarrow> 0 < snd b \<and> start_ok (fst b) \<and> fst b + span (snd b) \<le> cap \<and>
        block span b \<inter> fr = {}) \<and>
     (\<forall>k k' b b'. A k = Some b \<longrightarrow> A k' = Some b' \<longrightarrow> k \<noteq> k' \<longrightarrow> block span b \<inter> block span b' = {})"

definition covers :: "(nat \<Rightarrow> nat) \<Rightarrow> nat \<Rightarrow> nat set \<Rightarrow> ('k \<Rightarrow> (nat \<times> nat) option) \<Rightarrow> bool" where
  "covers span cap fr A \<longleftrightarrow> fr \<union> (\<Union>b \<in> ran A. block span b) = {..<cap}"

locale allocator =
  fixes good :: "'a \<Rightarrow> bool"
    and free :: "'a \<Rightarrow> nat set"
    and cap :: "'a \<Rightarrow> nat"
    and base :: "'a \<Rightarrow> nat"
    and span :: "nat \<Rightarrow> nat"
    and start_ok :: "nat \<Rightarrow> bool"
    and place :: "nat \<Rightarrow> 'a \<Rightarrow> ('e + nat \<times> nat \<times> nat) \<times> 'a"
    and release :: "nat \<Rightarrow> nat \<Rightarrow> 'a \<Rightarrow> ('e + unit) \<times> 'a"
  assumes span_ge: "n \<le> span n"
    and place_ok: "good a \<Longrightarrow> 0 < n \<Longrightarrow> place n a = (Inr (address, start, len), a') \<Longrightarrow>
      good a' \<and> address = base a + start \<and> len = n \<and> start_ok start \<and> start + span n \<le> cap a \<and>
      {start..<start + span n} \<subseteq> free a \<and> free a' = free a - {start..<start + span n} \<and>
      cap a' = cap a \<and> base a' = base a"
    and place_err: "good a \<Longrightarrow> place n a = (Inl e, a') \<Longrightarrow> a' = a"
    and release_ok: "good a \<Longrightarrow> 0 < n \<Longrightarrow> start_ok start \<Longrightarrow> start + span n \<le> cap a \<Longrightarrow>
      {start..<start + span n} \<inter> free a = {} \<Longrightarrow> release (base a + start) n a = (Inr (), a') \<Longrightarrow>
      good a' \<and> free a' = free a \<union> {start..<start + span n} \<and> cap a' = cap a \<and> base a' = base a"
    and release_err: "good a \<Longrightarrow> release address n a = (Inl e, a') \<Longrightarrow> a' = a"
begin

lemma place_holds:
  assumes "good a" "0 < n" "place n a = (Inr (address, start, len), a')"
    and "holds span start_ok (cap a) (free a) A"
  shows "holds span start_ok (cap a') (free a') (A(k \<mapsto> (start, n)))"
proof -
  note p = place_ok [OF assms(1-3)]
  have old: "0 < snd b \<and> start_ok (fst b) \<and> fst b + span (snd b) \<le> cap a \<and> block span b \<inter> free a = {}"
    if "A k' = Some b" for k' b using assms(4) that unfolding holds_def by blast
  have pair: "block span b \<inter> block span b' = {}"
    if "A k1 = Some b" "A k2 = Some b'" "k1 \<noteq> k2" for k1 k2 b b'
    using assms(4) that unfolding holds_def by blast
  have new: "block span (start, n) \<subseteq> free a" "block span (start, n) \<inter> free a' = {}" "free a' \<subseteq> free a"
    using p by (auto simp: block_def)
  have cross: "block span b \<inter> block span (start, n) = {}" if "A k' = Some b" for k' b
    using old [OF that] new(1) by blast
  show ?thesis
    unfolding holds_def
  proof (intro conjI allI impI)
    fix k' b assume "(A(k \<mapsto> (start, n))) k' = Some b"
    then have "b = (start, n) \<or> A k' = Some b" by (auto split: if_splits)
    then show "0 < snd b" "start_ok (fst b)" "fst b + span (snd b) \<le> cap a'" "block span b \<inter> free a' = {}"
      using old [of k' b] new p assms(2) by auto
  next
    fix k1 k2 b b'
    assume "(A(k \<mapsto> (start, n))) k1 = Some b" "(A(k \<mapsto> (start, n))) k2 = Some b'" "k1 \<noteq> k2"
    then show "block span b \<inter> block span b' = {}"
      using pair [of k1 b k2 b'] cross [of k1 b] cross [of k2 b'] by (auto split: if_splits)
  qed
qed

lemma release_holds:
  assumes "good a" "holds span start_ok (cap a) (free a) A" "A k = Some (start, n)"
    and "release (base a + start) n a = (Inr (), a')"
  shows "good a' \<and> holds span start_ok (cap a') (free a') (A(k := None)) \<and>
    free a' = free a \<union> {start..<start + span n} \<and> cap a' = cap a \<and> base a' = base a"
proof -
  have b: "0 < n" "start_ok start" "start + span n \<le> cap a" "{start..<start + span n} \<inter> free a = {}"
    using assms(2,3) unfolding holds_def block_def by fastforce+
  note r = release_ok [OF assms(1) b assms(4)]
  have "holds span start_ok (cap a') (free a') (A(k := None))"
    unfolding holds_def
  proof (intro conjI allI impI)
    fix k' b assume k': "(A(k := None)) k' = Some b"
    then have "k' \<noteq> k" "A k' = Some b" by (auto split: if_splits)
    with assms(2,3) have "0 < snd b \<and> start_ok (fst b) \<and> fst b + span (snd b) \<le> cap a \<and>
        block span b \<inter> free a = {} \<and> block span b \<inter> block span (start, n) = {}"
      unfolding holds_def by blast
    with r show "0 < snd b" "start_ok (fst b)" "fst b + span (snd b) \<le> cap a'" "block span b \<inter> free a' = {}"
      by (auto simp: block_def)
  next
    fix k1 k2 b b'
    assume "(A(k := None)) k1 = Some b" "(A(k := None)) k2 = Some b'" "k1 \<noteq> k2"
    then have "A k1 = Some b" "A k2 = Some b'" "k1 \<noteq> k2" by (auto split: if_splits)
    with assms(2) show "block span b \<inter> block span b' = {}" unfolding holds_def by blast
  qed
  with r show ?thesis by simp
qed

lemma place_release_free:
  assumes "good a" "0 < n" "place n a = (Inr (address, start, len), a')"
    and "release address n a' = (Inr (), a'')"
  shows "good a'' \<and> free a'' = free a"
proof -
  note p = place_ok [OF assms(1-3)]
  have "release (base a' + start) n a' = (Inr (), a'')" using p assms(4) by simp
  with release_ok [of a' n start a''] p assms(2)
  have "good a'' \<and> free a'' = free a' \<union> {start..<start + span n}" by auto
  with p show ?thesis by auto
qed

end

interpretation alloc: allocator arena_inv free_set "\<lambda>a. length (ar_bytes a)" ar_base aligned
  "\<lambda>start. ALIGN dvd start" arena_place arena_release
proof
  fix a a' :: arena and n address start len e
  show "n \<le> aligned n" by (rule aligned_facts)
  assume inv: "arena_inv a"
  show "arena_place n a = (Inl e, a') \<Longrightarrow> a' = a" by (rule arena_place_refused_same [OF inv])
  show "arena_release address n a = (Inl e, a') \<Longrightarrow> a' = a" by (rule arena_release_full [OF inv])
  assume n: "0 < n"
  show "arena_place n a = (Inr (address, start, len), a') \<Longrightarrow>
      arena_inv a' \<and> address = ar_base a + start \<and> len = n \<and> ALIGN dvd start \<and>
      start + aligned n \<le> length (ar_bytes a) \<and> {start..<start + aligned n} \<subseteq> free_set a \<and>
      free_set a' = free_set a - {start..<start + aligned n} \<and>
      length (ar_bytes a') = length (ar_bytes a) \<and> ar_base a' = ar_base a"
    using arena_place_sound [OF inv n] arena_place_frame [of n a] by simp
  assume "ALIGN dvd start" "start + aligned n \<le> length (ar_bytes a)"
    "{start..<start + aligned n} \<inter> free_set a = {}"
    and run: "arena_release (ar_base a + start) n a = (Inr (), a')"
  moreover from run have "length (ar_free a) \<noteq> HOLES"
    by (auto simp: arena_release_def checked_sub_def Let_def)
  moreover have "length (ar_free a) \<le> HOLES" using inv by (simp add: arena_inv_def)
  ultimately show "arena_inv a' \<and> free_set a' = free_set a \<union> {start..<start + aligned n} \<and>
      length (ar_bytes a') = length (ar_bytes a) \<and> ar_base a' = ar_base a"
    by (elim arena_release_sound [OF inv n]) simp_all
qed

section \<open>Properties\<close>

lemma arena_largest_ge: "h \<in> set (ar_free a) \<Longrightarrow> h_len h \<le> arena_largest a"
proof -
  have "x \<in> set xs \<Longrightarrow> x \<le> foldr max xs 0" for x :: nat and xs
    by (induction xs) (auto simp: le_max_iff_disj)
  then show "h \<in> set (ar_free a) \<Longrightarrow> h_len h \<le> arena_largest a" by (simp add: arena_largest_def)
qed

lemma arena_largest_attained: "0 < arena_largest a \<Longrightarrow> \<exists>h \<in> set (ar_free a). h_len h = arena_largest a"
proof -
  have "0 < foldr max xs 0 \<Longrightarrow> foldr max xs 0 \<in> set xs" for xs :: "nat list"
    by (induction xs) (auto simp: max_def)
  from this [of "map h_len (ar_free a)"]
  show "0 < arena_largest a \<Longrightarrow> \<exists>h \<in> set (ar_free a). h_len h = arena_largest a"
    by (auto simp: arena_largest_def)
qed

lemma arena_place_some:
  assumes "arena_inv a"
  shows "(\<exists>r. fst (arena_place sz a) = Inr r) \<longleftrightarrow> (\<exists>h \<in> set (ar_free a). aligned sz \<le> h_len h)"
  using assms by (cases rule: arena_place_cases [of a sz]) (auto simp: not_le)

text \<open>An arena to state examples with: 64 bytes at address 4096, of which 16..<32 are taken.\<close>

definition sample_arena :: arena where
  "sample_arena =
     \<lparr>ar_bytes = replicate 64 0, ar_base = 4096,
      ar_free = [\<lparr>h_at = 0, h_len = 16\<rparr>, \<lparr>h_at = 32, h_len = 32\<rparr>], ar_used = 16\<rparr>"

lemma sample_arena_inv: "arena_inv sample_arena"
  by (simp add: arena_inv_def sample_arena_def HOLES_def ALIGN_def)

lemma sample_arena_place:
  "arena_place 20 sample_arena =
     (Inr (4128, 32, 20), sample_arena\<lparr>ar_free := [\<lparr>h_at = 0, h_len = 16\<rparr>], ar_used := 48\<rparr>)"
  by (simp add: arena_place_def sample_arena_def aligned_def next_multiple_of_def ALIGN_def
      delete_at_def Let_def)

text \<open>C9: a placement succeeds exactly when the region has a run of free bytes as long as the
  rounded size; it then takes exactly such a run, aligned, off the free bytes, and a refused
  one changes nothing.\<close>

theorem arena_place_iff_run:
  assumes "arena_inv a" "0 < sz"
  shows "case arena_place sz a of
      (Inl e, a') \<Rightarrow> e = NoBudget \<and> a' = a \<and> (\<nexists>x. {x..<x + aligned sz} \<subseteq> free_set a)
    | (Inr (address, start, len), a') \<Rightarrow>
        arena_inv a' \<and> address = ar_base a + start \<and> len = sz \<and> ALIGN dvd start \<and>
        {start..<start + aligned sz} \<subseteq> free_set a \<and>
        free_set a' = free_set a - {start..<start + aligned sz} \<and>
        ar_used a' = ar_used a + aligned sz"
proof (cases "fst (arena_place sz a)")
  case (Inl e)
  have "\<forall>h \<in> set (ar_free a). h_len h < aligned sz" "e = NoBudget"
    using arena_place_refused [OF assms(1), of sz e] Inl by blast+
  moreover have "\<nexists>x. {x..<x + aligned sz} \<subseteq> free_set a"
  proof
    assume "\<exists>x. {x..<x + aligned sz} \<subseteq> free_set a"
    then obtain x where x: "{x..<x + aligned sz} \<subseteq> holes_set (ar_free a)" by (auto simp: free_set_def)
    have "separated (ar_free a)" "0 < aligned sz"
      using assms aligned_facts by (auto simp: arena_inv_def)
    from run_in_hole [OF this x] obtain h where "h \<in> set (ar_free a)" "aligned sz \<le> h_len h"
      by fastforce
    with \<open>\<forall>h \<in> set (ar_free a). h_len h < aligned sz\<close> show False by fastforce
  qed
  ultimately show ?thesis
    using Inl arena_place_refused_same [OF assms(1), of sz e "snd (arena_place sz a)"]
    by (cases "arena_place sz a") simp
next
  case (Inr r)
  obtain address start len where r: "r = (address, start, len)" by (cases r)
  then have run: "arena_place sz a = (Inr (address, start, len), snd (arena_place sz a))"
    using Inr by (simp add: prod_eq_iff)
  from arena_place_sound [OF assms run] show ?thesis by (subst run) simp
qed

lemma arena_place_iff_run_witness:
  "{32..<64} \<subseteq> free_set sample_arena \<and> 64 \<notin> free_set sample_arena \<and>
   free_set (snd (arena_place 20 sample_arena)) = free_set sample_arena - {32..<64}"
proof -
  have e: "free_set sample_arena = {0..<16} \<union> {32..<64}"
    by (auto simp: free_set_def sample_arena_def hole_set_def)
  have "aligned 20 = 32" by (simp add: aligned_def ALIGN_def next_multiple_of_def)
  with arena_place_iff_run [OF sample_arena_inv, of 20] sample_arena_place e
  show ?thesis by simp
qed

text \<open>C10: releasing what was just placed gives back exactly the arena there was, hole list
  included, whenever the free list has a slot left; with every slot taken it is refused and
  nothing changes, even though merging would have needed none.\<close>

theorem arena_release_undoes_place:
  assumes "arena_inv a" "0 < sz" "arena_place sz a = (Inr (address, start, len), a')"
  shows "arena_release address sz a' =
    (if length (ar_free a') < HOLES then (Inr (), a) else (Inl NoBudget, a'))"
proof (cases "length (ar_free a') < HOLES")
  case True
  note p = arena_place_sound [OF assms] and f = arena_place_frame [of sz a, simplified assms(3) snd_conv]
  have "{start..<start + aligned sz} \<inter> free_set a' = {}"
    "start + aligned sz \<le> length (ar_bytes a')" using p(5,7) f by auto
  then obtain a'' where r: "arena_release (ar_base a' + start) sz a' = (Inr (), a'')" "arena_inv a''"
    "free_set a'' = free_set a' \<union> {start..<start + aligned sz}"
    "ar_used a'' = ar_used a' - aligned sz" "ar_bytes a'' = ar_bytes a'" "ar_base a'' = ar_base a'"
    using arena_release_sound [OF p(1) assms(2) p(4) _ _ True] by metis
  have "free_set a'' = free_set a" using r(3) p(6,7) by auto
  then have "ar_free a'' = ar_free a"
    using separated_unique r(2) assms(1) unfolding free_set_def arena_inv_def by blast
  then have "a'' = a" using r(4-6) p(8) f by (intro arena.equality) simp_all
  with r(1) True p(2) f show ?thesis by simp
next
  case False
  have "length (ar_free a') = HOLES"
    using False arena_place_sound(1) [OF assms] by (simp add: arena_inv_def)
  moreover have "address = ar_base a' + start"
    using arena_place_sound(2) [OF assms] arena_place_frame [of sz a] assms(3) by simp
  ultimately show ?thesis by (simp add: arena_release_def checked_sub_def)
qed

lemma arena_release_undoes_place_witness:
  "arena_release 4128 20 (snd (arena_place 20 sample_arena)) = (Inr (), sample_arena)"
  using arena_release_undoes_place [OF sample_arena_inv _ sample_arena_place]
  by (simp add: sample_arena_place HOLES_def)

text \<open>Up to the rounding of 32 bits, \<open>fits\<close> answers exactly whether a placement of that
  size would succeed now.\<close>

theorem fits_iff_place:
  assumes "arena_inv a" "0 < sz" "sz + ALIGN \<le> 2 ^ 32"
  shows "fits (arena_occupancy a) sz \<longleftrightarrow> (\<exists>r. fst (arena_place sz a) = Inr r)"
proof -
  have "aligned sz < 2 ^ 32" using aligned_facts(3) [of sz] assms(3) by linarith
  then have "fits (arena_occupancy a) sz \<longleftrightarrow> aligned sz \<le> arena_largest a"
    by (simp add: fits_def arena_occupancy_def wrap_exact aligned_def)
  also have "\<dots> \<longleftrightarrow> (\<exists>h \<in> set (ar_free a). aligned sz \<le> h_len h)"
    using arena_largest_ge arena_largest_attained aligned_facts(4) [OF assms(2)]
    by (metis le_trans less_le_trans)
  finally show ?thesis unfolding arena_place_some [OF assms(1)] .
qed

lemma fits_iff_place_witness:
  "fits (arena_occupancy sample_arena) 20"
  using fits_iff_place [OF sample_arena_inv, of 20] sample_arena_place by (simp add: ALIGN_def)

text \<open>Within 15 bytes of the top of the 32-bit range \<open>fits\<close> answers yes for every arena,
  because its rounding wraps to zero, while a placement rounds in 64 bits and refuses.\<close>

theorem fits_wraps_at_top:
  assumes "arena_inv a" "2 ^ 32 - ALIGN < sz" "sz < 2 ^ 32" "length (ar_bytes a) < 2 ^ 32"
  shows "fits (arena_occupancy a) sz \<and> fst (arena_place sz a) = Inl NoBudget"
proof -
  have "aligned sz = 2 ^ 32"
  proof -
    have "2 ^ 32 - 16 < aligned sz" "aligned sz < 2 ^ 32 + 16" "16 dvd aligned sz"
      using aligned_facts(1-3) [of sz] assms(2,3) by (simp_all add: ALIGN_def)
    then show ?thesis by (auto elim!: dvdE)
  qed
  then have "fits (arena_occupancy a) sz" by (simp add: fits_def wrap_def aligned_def)
  moreover have "\<forall>h \<in> set (ar_free a). h_len h < aligned sz"
    using assms(1,4) \<open>aligned sz = 2 ^ 32\<close> by (fastforce simp: arena_inv_def)
  ultimately show ?thesis using arena_place_refused [OF assms(1), of sz NoBudget] by simp
qed

lemma fits_wraps_at_top_witness:
  "fits (arena_occupancy sample_arena) 4294967290"
proof -
  have "length (ar_bytes sample_arena) = 64" by (simp add: sample_arena_def)
  then show ?thesis using fits_wraps_at_top [OF sample_arena_inv, of 4294967290] by (simp add: ALIGN_def)
qed

end
