(* ===== verification/DeclStream.thy ===== *)
theory DeclStream
  imports Objtab
begin

text \<open>
  crates/mlos-stream: a declared sequence of objects and where the workload is in it. chain.rs
  precomputes, for every position, where the same object is declared next; lib.rs answers when
  an object is next wanted, through the chain when it is the one at the cursor and by a scan
  otherwise. The lemmas show that both ways give the same answer.
\<close>

section \<open>Where each access turns up next (chain.rs)\<close>

definition NEVER :: nat where "NEVER = umax 32"

type_synonym seen = "(object_id \<times> nat) list"

text \<open>The loop of \<open>chain\<close> over the positions still to do, the last first. \<open>seen\<close> is the live
  prefix of the scratch buffer, whose length is \<open>room\<close>. Both buffers are part of the answer:
  an error leaves what was written in them.\<close>

fun chain_loop :: "object_id list \<Rightarrow> nat \<Rightarrow> nat \<Rightarrow> nat list \<Rightarrow> seen \<Rightarrow> unit res \<times> nat list \<times> seen" where
  "chain_loop objects room 0 into seen = (Inr (), into, seen)"
| "chain_loop objects room (Suc k) into seen =
     (let object = objects ! k; p = wrap 32 k in
      case position (\<lambda>(held, _). held = object) seen of
        Some slot \<Rightarrow>
          chain_loop objects room k (into[p := snd (seen ! slot)]) (seen[slot := (fst (seen ! slot), p)])
      | None \<Rightarrow>
          if length seen < room
          then chain_loop objects room k (into[p := NEVER]) (seen @ [(object, p)])
          else (Inl NoBudget, into[p := NEVER], seen))"

definition chain :: "object_id list \<Rightarrow> nat list \<Rightarrow> nat \<Rightarrow> unit res \<times> nat list" where
  "chain objects into room =
     (if length into < length objects then (Inl NoBudget, into)
      else (case chain_loop objects room (length objects) into [] of (r, into', _) \<Rightarrow> (r, into')))"

section \<open>The stream (lib.rs)\<close>

record stream =
  st_declared :: "object_id list"
  st_next :: "nat list"
  st_cursor :: nat

definition stream_empty :: stream where
  "stream_empty = \<lparr>st_declared = [], st_next = [], st_cursor = 0\<rparr>"

definition stream_declare :: "object_id list \<Rightarrow> nat list \<Rightarrow> stream \<Rightarrow> unit res \<times> stream" where
  "stream_declare objects next st =
     (if length next < length objects then (Inl NoBudget, st)
      else (Inr (), st\<lparr>st_declared := objects, st_next := next, st_cursor := 0\<rparr>))"

definition stream_advance :: "nat \<Rightarrow> stream \<Rightarrow> stream" where
  "stream_advance steps st = st\<lparr>st_cursor := sat_add 32 (st_cursor st) steps\<rparr>"

definition next_after :: "stream \<Rightarrow> object_id \<Rightarrow> next_use" where
  "next_after st i =
     (let c = st_cursor st in
      if nth_opt (st_declared st) c = Some i
      then (if st_next st ! c = NEVER then Never else At (st_next st ! c + 1))
      else (case position (\<lambda>held. held = i) (drop (sat_add 64 c 1) (st_declared st)) of
              Some offset \<Rightarrow> At (wrap 32 (c + offset + 2))
            | None \<Rightarrow> Never))"

section \<open>Specification\<close>

text \<open>The first position after \<open>p\<close> that declares \<open>i\<close>.\<close>

definition next_position :: "object_id list \<Rightarrow> nat \<Rightarrow> object_id \<Rightarrow> nat option" where
  "next_position objects p i =
     map_option (\<lambda>k. Suc p + k) (position (\<lambda>held. held = i) (drop (Suc p) objects))"

definition chained :: "object_id list \<Rightarrow> nat list \<Rightarrow> bool" where
  "chained objects into \<longleftrightarrow>
     (\<forall>p < length objects. into ! p =
        (case next_position objects p (objects ! p) of None \<Rightarrow> NEVER | Some q \<Rightarrow> q))"

text \<open>What has been seen when the positions from \<open>k\<close> on are done: each object of the rest, with
  its first position there.\<close>

definition seen_ok :: "object_id list \<Rightarrow> nat \<Rightarrow> seen \<Rightarrow> bool" where
  "seen_ok objects k seen \<longleftrightarrow>
     distinct (map fst seen) \<and> fst ` set seen = set (drop k objects) \<and>
     (\<forall>(i, q) \<in> set seen. position (\<lambda>held. held = i) (drop k objects) = Some (q - k) \<and> k \<le> q)"

lemma seen_ok_start: "seen_ok objects (length objects) []"
  by (simp add: seen_ok_def)

lemma seen_ok_length: "seen_ok objects k seen \<Longrightarrow> length seen = card (set (drop k objects))"
  unfolding seen_ok_def by (metis distinct_card length_map set_map)

lemma seen_lookup:
  assumes "seen_ok objects (Suc k) seen"
  shows "(case position (\<lambda>(held, _). held = i) seen of
            None \<Rightarrow> i \<notin> set (drop (Suc k) objects) \<and> next_position objects k i = None
          | Some s \<Rightarrow> s < length seen \<and> fst (seen ! s) = i \<and>
              next_position objects k i = Some (snd (seen ! s)))"
proof (cases "position (\<lambda>(held, _). held = i) seen")
  case None
  then have "i \<notin> fst ` set seen" by (auto simp: position_None)
  with assms have "i \<notin> set (drop (Suc k) objects)" by (simp add: seen_ok_def)
  then have "position (\<lambda>held. held = i) (drop (Suc k) objects) = None"
    unfolding position_None by blast
  with None \<open>i \<notin> set (drop (Suc k) objects)\<close> show ?thesis by (simp add: next_position_def)
next
  case (Some s)
  from position_Some [OF this] have s: "s < length seen" "fst (seen ! s) = i" by (auto split: prod.splits)
  then have "(i, snd (seen ! s)) \<in> set seen" by (metis nth_mem prod.collapse)
  with assms have "position (\<lambda>held. held = i) (drop (Suc k) objects) = Some (snd (seen ! s) - Suc k)"
    "Suc k \<le> snd (seen ! s)" by (auto simp: seen_ok_def)
  with Some s show ?thesis by (simp add: next_position_def)
qed

lemma seen_ok_step:
  assumes ok: "seen_ok objects (Suc k) seen" and k: "k < length objects"
  shows "position (\<lambda>(held, _). held = objects ! k) seen = Some s \<Longrightarrow>
           seen_ok objects k (seen[s := (fst (seen ! s), k)])"
    and "position (\<lambda>(held, _). held = objects ! k) seen = None \<Longrightarrow>
           seen_ok objects k (seen @ [(objects ! k, k)])"
proof -
  have dr: "drop k objects = objects ! k # drop (Suc k) objects"
    using k by (rule Cons_nth_drop_Suc [symmetric])
  have other: "position (\<lambda>held. held = i) (drop k objects) = Some (q - k) \<and> k \<le> q"
    if "(i, q) \<in> set seen" "i \<noteq> objects ! k" for i q
  proof -
    from ok that(1) have "position (\<lambda>held. held = i) (drop (Suc k) objects) = Some (q - Suc k)" "Suc k \<le> q"
      by (auto simp: seen_ok_def)
    with that(2) show ?thesis by (simp add: dr Suc_diff_le)
  qed
  {
    assume p: "position (\<lambda>(held, _). held = objects ! k) seen = Some s"
    then have s: "s < length seen" "fst (seen ! s) = objects ! k"
      using position_Some [OF p] by (auto split: prod.splits)
    have fsts: "map fst (seen[s := (fst (seen ! s), k)]) = map fst seen"
      using s by (simp add: map_update list_update_same_conv)
    then have fs: "fst ` set (seen[s := (fst (seen ! s), k)]) = fst ` set seen" by (metis set_map)
    have "objects ! k \<in> set (drop (Suc k) objects)"
      using ok s unfolding seen_ok_def by (metis image_eqI nth_mem)
    then have keys: "fst ` set seen = set (drop k objects)"
      using ok by (auto simp: seen_ok_def dr)
    have "position (\<lambda>held. held = i) (drop k objects) = Some (q - k) \<and> k \<le> q"
      if iq: "(i, q) \<in> set (seen[s := (fst (seen ! s), k)])" for i q
    proof (cases "i = objects ! k")
      case True
      have d: "distinct (map fst (seen[s := (fst (seen ! s), k)]))" using ok fsts by (simp add: seen_ok_def)
      have "(objects ! k, k) \<in> set (seen[s := (fst (seen ! s), k)])"
        using s by (metis set_update_memI)
      with d iq True have "q = k" by (metis eq_key_imp_eq_value)
      with True show ?thesis by (simp add: dr)
    next
      case False
      from iq have "(i, q) \<in> set seen \<or> i = objects ! k"
        using s set_update_subset_insert [of seen s "(fst (seen ! s), k)"] by auto
      with False other show ?thesis by blast
    qed
    then show "seen_ok objects k (seen[s := (fst (seen ! s), k)])"
      using ok fsts fs keys by (auto simp: seen_ok_def)
  next
    assume p: "position (\<lambda>(held, _). held = objects ! k) seen = None"
    then have "objects ! k \<notin> fst ` set seen" by (auto simp: position_None)
    moreover from this have "(objects ! k, b) \<notin> set seen" for b by force
    ultimately show "seen_ok objects k (seen @ [(objects ! k, k)])"
      using ok other unfolding seen_ok_def by (auto simp: dr)
  }
qed

section \<open>The chain\<close>

lemma card_drop_le: "card (set (drop k xs)) \<le> card (set (drop j xs))" if "j \<le> k"
  using that by (intro card_mono) (auto intro: set_drop_subset_set_drop [THEN subsetD])

lemma chain_loop_correct:
  assumes "seen_ok objects k seen" "k \<le> length objects" "length objects \<le> length into"
    and "length objects < 2 ^ 32" "length seen \<le> room"
    and "\<forall>p. k \<le> p \<longrightarrow> p < length objects \<longrightarrow> into ! p =
        (case next_position objects p (objects ! p) of None \<Rightarrow> NEVER | Some q \<Rightarrow> q)"
  shows "case chain_loop objects room k into seen of
      (Inr _, into', _) \<Rightarrow> chained objects into' \<and> length into' = length into \<and>
        drop (length objects) into' = drop (length objects) into \<and> card (set objects) \<le> room
    | (Inl e, into', _) \<Rightarrow> e = NoBudget \<and> length into' = length into \<and> room < card (set objects)"
  using assms
proof (induction k arbitrary: into seen)
  case 0
  then show ?case using seen_ok_length [OF 0(1)] by (simp add: chained_def)
next
  case (Suc k)
  let ?o = "objects ! k"
  have k: "k < length objects" and w: "wrap 32 k = k" using Suc.prems(2,4) by (simp_all add: wrap_def)
  have inv: "\<forall>p. k \<le> p \<longrightarrow> p < length objects \<longrightarrow> into[k := x] ! p =
      (case next_position objects p (objects ! p) of None \<Rightarrow> NEVER | Some q \<Rightarrow> q)"
    if "x = (case next_position objects k ?o of None \<Rightarrow> NEVER | Some q \<Rightarrow> q)" for x
    using Suc.prems(3,6) that k by (auto simp: nth_list_update Suc_le_eq)
  have dr: "drop (length objects) (into[k := x]) = drop (length objects) into" for x
    using k by simp
  have len: "length objects \<le> length (into[k := x])" for x using Suc.prems(3) by simp
  have k': "k \<le> length objects" using k by simp
  show ?case
  proof (cases "position (\<lambda>(held, _). held = ?o) seen")
    case None
    have np: "next_position objects k ?o = None"
      using seen_lookup [OF Suc.prems(1), of ?o] None by simp
    have ok: "seen_ok objects k (seen @ [(?o, k)])"
      using seen_ok_step(2) [OF Suc.prems(1) k] None by simp
    show ?thesis
    proof (cases "length seen < room")
      case True
      then have r: "length (seen @ [(?o, k)]) \<le> room" by simp
      from Suc.IH [OF ok k' len Suc.prems(4) r inv] True None np dr
      show ?thesis by (simp add: w Let_def split: prod.splits sum.splits)
    next
      case False
      have "length seen < card (set objects)"
        using seen_ok_length [OF ok] card_drop_le [of 0 k objects] by simp
      with False None show ?thesis by (simp add: w Let_def)
    qed
  next
    case (Some s)
    have np: "next_position objects k ?o = Some (snd (seen ! s))"
      using seen_lookup [OF Suc.prems(1), of ?o] Some by simp
    have ok: "seen_ok objects k (seen[s := (fst (seen ! s), k)])"
      using seen_ok_step(1) [OF Suc.prems(1) k] Some by simp
    have r: "length (seen[s := (fst (seen ! s), k)]) \<le> room" using Suc.prems(5) by simp
    from Suc.IH [OF ok k' len Suc.prems(4) r inv] Some np dr
    show ?thesis by (simp add: w Let_def split: prod.splits sum.splits)
  qed
qed

lemma chain_spec:
  assumes "length objects < 2 ^ 32"
  shows "case chain objects into room of
      (Inr _, into') \<Rightarrow> length objects \<le> length into \<and> card (set objects) \<le> room \<and>
        chained objects into' \<and> length into' = length into
    | (Inl e, into') \<Rightarrow> e = NoBudget \<and> (length into < length objects \<or> room < card (set objects))"
proof (cases "length into < length objects")
  case True
  then show ?thesis by (simp add: chain_def)
next
  case False
  with chain_loop_correct [OF seen_ok_start, of objects into room] assms
  show ?thesis by (auto simp: chain_def split: prod.splits sum.splits)
qed

text \<open>The chain is built exactly when both buffers are large enough (an entry per position,
  a slot per distinct object), and then every entry is the next position of the same object, or
  the distinct answer for none.\<close>

theorem chain_correct:
  assumes "length objects < 2 ^ 32"
  shows "case chain objects into room of
      (Inr _, into') \<Rightarrow> length objects \<le> length into \<and> card (set objects) \<le> room \<and>
        chained objects into' \<and> length into' = length into
    | (Inl e, into') \<Rightarrow> e = NoBudget \<and> (length into < length objects \<or> room < card (set objects))"
  by (rule chain_spec [OF assms])

lemma chain_correct_witness:
  "chain [5, 6, 5, 5] [0, 0, 0, 0] 2 = (Inr (), [2, NEVER, 3, NEVER]) \<and>
   chained [5, 6, 5, 5] [2, NEVER, 3, NEVER]"
proof -
  have run: "chain [5, 6, 5, 5] [0, 0, 0, 0] 2 = (Inr (), [2, NEVER, 3, NEVER])"
    by (simp add: chain_def wrap_exact)
  with chain_correct [of "[5, 6, 5, 5]" "[0, 0, 0, 0]" 2] show ?thesis by simp
qed

section \<open>Asking when an object is next wanted\<close>

lemma next_position_bounds:
  "next_position objects p i = Some q \<Longrightarrow> p < q \<and> q < length objects \<and> objects ! q = i"
  by (auto simp: next_position_def dest: position_Some)

text \<open>With the chain built over what was declared, the answer for every object at every
  cursor is the tick of its first declaration strictly after the cursor, or never; the constant
  time answer for the object at the cursor and the scan for the others agree.\<close>

theorem next_after_spec:
  assumes "chained (st_declared st) (st_next st)" "length (st_declared st) < 2 ^ 32 - 1"
    and "st_cursor st < 2 ^ 32"
  shows "next_after st i =
    (case next_position (st_declared st) (st_cursor st) i of None \<Rightarrow> Never | Some q \<Rightarrow> At (q + 1))"
proof (cases "nth_opt (st_declared st) (st_cursor st) = Some i")
  case True
  then have c: "st_cursor st < length (st_declared st)" "st_declared st ! st_cursor st = i" by simp_all
  then have "st_next st ! st_cursor st =
      (case next_position (st_declared st) (st_cursor st) i of None \<Rightarrow> NEVER | Some q \<Rightarrow> q)"
    using assms(1) by (auto simp: chained_def)
  moreover have "q \<noteq> NEVER" if "next_position (st_declared st) (st_cursor st) i = Some q" for q
    using next_position_bounds [OF that] assms(2) by (simp add: NEVER_def)
  ultimately show ?thesis using True by (auto simp: next_after_def Let_def split: option.splits)
next
  case False
  have s: "sat_add 64 (st_cursor st) 1 = Suc (st_cursor st)"
    using assms(3) by (simp add: sat_add_def)
  have "wrap 32 (st_cursor st + k + 2) = st_cursor st + k + 2"
    if "position (\<lambda>held. held = i) (drop (Suc (st_cursor st)) (st_declared st)) = Some k" for k
  proof -
    have "k < length (st_declared st) - Suc (st_cursor st)" using position_Some [OF that] by simp
    with assms(2) have "st_cursor st + k + 2 < 2 ^ 32" by linarith
    then show ?thesis by (rule wrap_exact)
  qed
  with False s show ?thesis
    by (auto simp: next_after_def Let_def next_position_def split: option.splits)
qed

lemma next_after_spec_witness:
  "next_after \<lparr>st_declared = [5, 6, 5], st_next = [2, NEVER, NEVER], st_cursor = 0\<rparr> 5 = At 3"
proof -
  have "chained [5, 6, 5] [2, NEVER, NEVER]"
    by (simp add: chained_def next_position_def less_Suc_eq)
  then show ?thesis
    using next_after_spec [of "\<lparr>st_declared = [5, 6, 5], st_next = [2, NEVER, NEVER], st_cursor = 0\<rparr>" 5]
    by (simp add: next_position_def)
qed

end
