(* ===== verification/Policy.thy ===== *)
theory Policy
  imports Objtab
begin

text \<open>
  crates/mlos-policy: which resident object to throw away. A policy sees the resident set
  through an indexed view and answers an object id or declines. The baselines scan for the
  smallest tick, known-next-use for the largest distance per unit of recovery cost; ties go to
  the lower id, so the answer does not depend on the order of the view.
\<close>

section \<open>What a policy sees (residency.rs, lib.rs)\<close>

record residency =
  rs_len :: nat
  rs_at :: "nat \<Rightarrow> (object_id \<times> object_meta) option"
  rs_now :: nat

record policy =
  pol_name :: string
  pol_victim :: "residency \<Rightarrow> object_meta \<Rightarrow> object_id option"

definition residents :: "residency \<Rightarrow> (object_id \<times> object_meta) set" where
  "residents r = {e. \<exists>index < rs_len r. rs_at r index = Some e}"

section \<open>The scan both kinds of policy make\<close>

fun scan ::
  "residency \<Rightarrow> (object_meta \<Rightarrow> nat) \<Rightarrow> (nat \<Rightarrow> nat \<Rightarrow> bool) \<Rightarrow> (object_id \<times> nat) option \<Rightarrow>
   nat list \<Rightarrow> (object_id \<times> nat) option" where
  "scan r key beats best [] = best"
| "scan r key beats best (index # rest) =
     (case rs_at r index of
        None \<Rightarrow> scan r key beats best rest
      | Some (i, m) \<Rightarrow>
          (let k = key m;
               better = (case best of
                           None \<Rightarrow> True
                         | Some (held_id, held) \<Rightarrow> beats k held \<or> k = held \<and> i < held_id)
           in scan r key beats (if better then Some (i, k) else best) rest))"

section \<open>The baselines (baselines.rs)\<close>

definition demand_victim :: "residency \<Rightarrow> object_meta \<Rightarrow> object_id option" where
  "demand_victim r wanting = None"

definition Demand :: policy where
  "Demand = \<lparr>pol_name = ''demand'', pol_victim = demand_victim\<rparr>"

record oldest =
  ol_name :: string
  ol_tick :: "object_meta \<Rightarrow> nat"

definition FIFO :: oldest where "FIFO = \<lparr>ol_name = ''fifo'', ol_tick = m_placed_tick\<rparr>"

definition LRU :: oldest where "LRU = \<lparr>ol_name = ''lru'', ol_tick = m_used_tick\<rparr>"

definition oldest_victim :: "oldest \<Rightarrow> residency \<Rightarrow> object_meta \<Rightarrow> object_id option" where
  "oldest_victim ol r wanting =
     map_option fst (scan r (ol_tick ol) (\<lambda>tick held. tick < held) None [0..<rs_len r])"

definition oldest_policy :: "oldest \<Rightarrow> policy" where
  "oldest_policy ol = \<lparr>pol_name = ol_name ol, pol_victim = oldest_victim ol\<rparr>"

section \<open>Known next use (nextuse.rs)\<close>

definition UNDECLARED :: nat where "UNDECLARED = 2 ^ 40"
definition HINT :: nat where "HINT = 2"
definition SCALE :: nat where "SCALE = 1000000"

fun horizon :: "next_use \<Rightarrow> nat \<Rightarrow> nat" where
  "horizon Never now = UNDECLARED"
| "horizon (At p) now = p - now"
| "horizon (Probability chance) now =
     (if chance = 0 then UNDECLARED div HINT else umax 16 div chance div HINT)"

definition recovery :: "object_meta \<Rightarrow> nat" where
  "recovery m = (let c = min (m_reload_cost m) (m_recompute_cost m) in if c = 0 then 1 else c)"

definition holders :: "object_meta \<Rightarrow> nat" where
  "holders m = max (m_share_count m) 1"

definition evictability :: "object_meta \<Rightarrow> nat \<Rightarrow> nat" where
  "evictability m now =
     sat_mul 64 (horizon (m_next_use m) now) SCALE div sat_mul 64 (recovery m) (holders m)"

definition next_use_victim :: "residency \<Rightarrow> object_meta \<Rightarrow> object_id option" where
  "next_use_victim r wanting =
     map_option fst
       (scan r (\<lambda>m. evictability m (rs_now r)) (\<lambda>score held. held < score) None [0..<rs_len r])"

definition NEXT_USE :: policy where
  "NEXT_USE = \<lparr>pol_name = ''next-use'', pol_victim = next_use_victim\<rparr>"

section \<open>What the scan finds\<close>

definition prefers :: "(nat \<Rightarrow> nat \<Rightarrow> bool) \<Rightarrow> object_id \<times> nat \<Rightarrow> object_id \<times> nat \<Rightarrow> bool" where
  "prefers beats a b \<longleftrightarrow> beats (snd a) (snd b) \<or> snd a = snd b \<and> fst a < fst b"

definition candidates :: "residency \<Rightarrow> (object_meta \<Rightarrow> nat) \<Rightarrow> (object_id \<times> nat) set" where
  "candidates r key = (\<lambda>(i, m). (i, key m)) ` residents r"

text \<open>The two orders the scans use are strict and total.\<close>

definition strict_total :: "(nat \<Rightarrow> nat \<Rightarrow> bool) \<Rightarrow> bool" where
  "strict_total beats \<longleftrightarrow>
     (\<forall>a b c. beats a b \<longrightarrow> beats b c \<longrightarrow> beats a c) \<and> (\<forall>a. \<not> beats a a) \<and>
     (\<forall>a b. beats a b \<or> a = b \<or> beats b a)"

lemma strict_total_orders [simp]:
  "strict_total (\<lambda>a b. a < b)" "strict_total (\<lambda>a b. b < a)"
  by (auto simp: strict_total_def)

lemma prefers_trans:
  assumes "strict_total beats" "prefers beats a b" "prefers beats b c"
  shows "prefers beats a c"
proof -
  have tr: "beats x y \<Longrightarrow> beats y z \<Longrightarrow> beats x z" for x y z
    using assms(1) unfolding strict_total_def by blast
  from assms(2,3) show ?thesis
    unfolding prefers_def by (auto intro: tr)
qed

lemma prefers_irrefl: "strict_total beats \<Longrightarrow> \<not> prefers beats a a"
  by (simp add: prefers_def strict_total_def)

lemma prefers_total:
  assumes "strict_total beats"
  shows "prefers beats a b \<or> a = b \<or> prefers beats b a"
proof -
  have "beats (snd a) (snd b) \<or> snd a = snd b \<or> beats (snd b) (snd a)"
    using assms unfolding strict_total_def by blast
  then show ?thesis unfolding prefers_def by (auto simp: prod_eq_iff)
qed

definition best_of :: "(nat \<Rightarrow> nat \<Rightarrow> bool) \<Rightarrow> (object_id \<times> nat) set \<Rightarrow> (object_id \<times> nat) option \<Rightarrow> bool" where
  "best_of beats C b \<longleftrightarrow>
     (case b of None \<Rightarrow> C = {} | Some x \<Rightarrow> x \<in> C \<and> (\<forall>c \<in> C. \<not> prefers beats c x))"

lemma scan_best:
  assumes st: "strict_total beats" and "best_of beats C best"
  shows "best_of beats (C \<union> {(i, key m) | i m. \<exists>index \<in> set ns. rs_at r index = Some (i, m)})
           (scan r key beats best ns)"
  using assms(2)
proof (induction ns arbitrary: best C)
  case (Cons n ns)
  let ?D = "{(i, key m) | i m. \<exists>index \<in> set ns. rs_at r index = Some (i, m)}"
  show ?case
  proof (cases "rs_at r n")
    case None
    then have "{(i, key m) | i m. \<exists>index \<in> set (n # ns). rs_at r index = Some (i, m)} = ?D" by auto
    with None Cons.IH [OF Cons.prems] show ?thesis by simp
  next
    case (Some e)
    obtain i m where e: "e = (i, m)" by (cases e)
    let ?x = "(i, key m)"
    let ?best = "if (case best of None \<Rightarrow> True
        | Some (held_id, held) \<Rightarrow> beats (key m) held \<or> key m = held \<and> i < held_id) then Some ?x else best"
    have "best_of beats (insert ?x C) ?best"
    proof (cases best)
      case None
      with Cons.prems show ?thesis by (simp add: best_of_def prefers_irrefl [OF st])
    next
      case (Some h)
      have h: "h \<in> C" "\<forall>c \<in> C. \<not> prefers beats c h" using Cons.prems Some by (auto simp: best_of_def)
      have "?best = (if prefers beats ?x h then Some ?x else Some h)"
        using Some by (auto simp: prefers_def split: prod.splits)
      then show ?thesis
        using h prefers_trans [OF st, of _ ?x h] prefers_irrefl [OF st, of ?x] by (auto simp: best_of_def)
    qed
    from Cons.IH [OF this]
    have "best_of beats (insert ?x C \<union> ?D) (scan r key beats ?best ns)" .
    moreover have "C \<union> {(i, key m) | i m. \<exists>index \<in> set (n # ns). rs_at r index = Some (i, m)} =
        insert ?x C \<union> ?D" using Some e by auto
    ultimately show ?thesis using Some e by (simp add: Let_def)
  qed
qed simp

lemma scan_candidates:
  assumes "strict_total beats"
  shows "best_of beats (candidates r key) (scan r key beats None [0..<rs_len r])"
proof -
  have "{(i, key m) | i m. \<exists>index \<in> set [0..<rs_len r]. rs_at r index = Some (i, m)} = candidates r key"
    by (force simp: candidates_def residents_def)
  moreover have "best_of beats {} None" by (simp add: best_of_def)
  from scan_best [OF assms this, of key "[0..<rs_len r]" r]
  have "best_of beats {(i, key m) | i m. \<exists>index \<in> set [0..<rs_len r]. rs_at r index = Some (i, m)}
          (scan r key beats None [0..<rs_len r])" by simp
  ultimately show ?thesis by metis
qed

lemma best_of_unique:
  "strict_total beats \<Longrightarrow> best_of beats C a \<Longrightarrow> best_of beats C b \<Longrightarrow> a = b"
  using prefers_total by (fastforce simp: best_of_def split: option.splits)

lemma scan_same_set:
  assumes "strict_total beats" "residents r = residents r'"
  shows "scan r key beats None [0..<rs_len r] = scan r' key beats None [0..<rs_len r']"
proof -
  have "candidates r key = candidates r' key" by (simp add: candidates_def assms(2))
  then show ?thesis
    using best_of_unique [OF assms(1)] scan_candidates [OF assms(1)] by metis
qed

lemma scan_victim:
  assumes "strict_total beats" "map_option fst (scan r key beats None [0..<rs_len r]) = Some i"
  obtains m where "(i, m) \<in> residents r"
    "\<And>j m'. (j, m') \<in> residents r \<Longrightarrow> \<not> prefers beats (j, key m') (i, key m)"
proof -
  from assms(2) obtain k where sc: "scan r key beats None [0..<rs_len r] = Some (i, k)" by auto
  from scan_candidates [OF assms(1), of r key, unfolded sc]
  have "(i, k) \<in> candidates r key" and best: "\<forall>c \<in> candidates r key. \<not> prefers beats c (i, k)"
    by (auto simp: best_of_def)
  then obtain m where m: "(i, m) \<in> residents r" "k = key m" by (auto simp: candidates_def)
  from best m(2) have "\<not> prefers beats (j, key m') (i, key m)" if "(j, m') \<in> residents r" for j m'
    using that by (force simp: candidates_def)
  with m(1) that show ?thesis by blast
qed

lemma scan_empty:
  assumes "strict_total beats"
  shows "scan r key beats None [0..<rs_len r] = None \<longleftrightarrow> residents r = {}"
  using scan_candidates [OF assms, of r key]
  by (auto simp: best_of_def candidates_def split: option.splits)

section \<open>The contract of a policy\<close>

text \<open>What the manager relies on: a victim is one of the residents, and the choice depends on
  the residents and the clock only, never on the order they are offered in.\<close>

locale victim_policy =
  fixes victim :: "residency \<Rightarrow> object_meta \<Rightarrow> object_id option"
  assumes resident: "victim r w = Some i \<Longrightarrow> \<exists>m. (i, m) \<in> residents r"
    and order_free: "residents r = residents r' \<Longrightarrow> rs_now r = rs_now r' \<Longrightarrow> victim r w = victim r' w"
begin

lemma nothing_resident: "residents r = {} \<Longrightarrow> victim r w = None"
  using resident by (metis empty_iff not_Some_eq)

text \<open>Dropping the holes of a view, or permuting it, changes nothing.\<close>

lemma reindexed:
  assumes "bij_betw f {..<rs_len r} {..<rs_len r}"
    "\<And>n. n < rs_len r \<Longrightarrow> rs_at r' n = rs_at r (f n)" "rs_len r' = rs_len r" "rs_now r' = rs_now r"
  shows "victim r' w = victim r w"
proof (rule order_free)
  have "residents r' = {e. \<exists>n < rs_len r. rs_at r (f n) = Some e}"
    using assms(2,3) by (auto simp: residents_def)
  also have "\<dots> = {e. \<exists>k \<in> f ` {..<rs_len r}. rs_at r k = Some e}" by auto
  also have "f ` {..<rs_len r} = {..<rs_len r}" using assms(1) by (simp add: bij_betw_def)
  finally show "residents r' = residents r" by (simp add: residents_def Bex_def)
qed (use assms(4) in simp)

end

text \<open>A policy that declines only when nothing is resident: with one, making room goes on until
  there is room or nothing left.\<close>

locale eager_policy = victim_policy +
  assumes eager: "residents r \<noteq> {} \<Longrightarrow> victim r w \<noteq> None"
begin

lemma declines_iff: "victim r w = None \<longleftrightarrow> residents r = {}"
  using eager nothing_resident by blast

end

interpretation demand: victim_policy demand_victim
  by unfold_locales (simp_all add: demand_victim_def)

interpretation oldest: eager_policy "oldest_victim ol" for ol
proof
  fix r r' w i
  show "oldest_victim ol r w = Some i \<Longrightarrow> \<exists>m. (i, m) \<in> residents r"
    unfolding oldest_victim_def by (erule scan_victim [rotated]) auto
  show "residents r = residents r' \<Longrightarrow> rs_now r = rs_now r' \<Longrightarrow> oldest_victim ol r w = oldest_victim ol r' w"
    unfolding oldest_victim_def using scan_same_set [of "\<lambda>a b. a < b" r r'] by simp
  show "residents r \<noteq> {} \<Longrightarrow> oldest_victim ol r w \<noteq> None"
    by (simp add: oldest_victim_def scan_empty)
qed

interpretation next_use: eager_policy next_use_victim
proof
  fix r r' w i
  show "next_use_victim r w = Some i \<Longrightarrow> \<exists>m. (i, m) \<in> residents r"
    unfolding next_use_victim_def by (erule scan_victim [rotated]) auto
  show "residents r = residents r' \<Longrightarrow> rs_now r = rs_now r' \<Longrightarrow> next_use_victim r w = next_use_victim r' w"
    unfolding next_use_victim_def using scan_same_set [of "\<lambda>a b. b < a" r r'] by simp
  show "residents r \<noteq> {} \<Longrightarrow> next_use_victim r w \<noteq> None"
    by (simp add: next_use_victim_def scan_empty)
qed

section \<open>Properties\<close>

definition meta_wf :: "object_meta \<Rightarrow> bool" where
  "meta_wf m \<longleftrightarrow> m_size m < 2 ^ 32 \<and> m_reload_cost m < 2 ^ 32 \<and> m_recompute_cost m < 2 ^ 32 \<and>
     m_share_count m < 2 ^ 16 \<and> m_placed_tick m < 2 ^ 32 \<and> m_used_tick m < 2 ^ 32 \<and>
     m_resident_at m < 2 ^ 64 \<and> m_handle m < 2 ^ 64 \<and>
     (case m_next_use m of Never \<Rightarrow> True | At p \<Rightarrow> p < 2 ^ 32 | Probability c \<Rightarrow> c < 2 ^ 16)"

lemma horizon_bound: "meta_wf m \<Longrightarrow> horizon (m_next_use m) now \<le> UNDECLARED"
proof (cases "m_next_use m")
  case (Probability c)
  have "65535 div c div 2 \<le> (65535::nat)"
    by (meson div_le_dividend le_trans)
  then show ?thesis using Probability by (simp add: UNDECLARED_def HINT_def)
qed (auto simp: UNDECLARED_def meta_wf_def)

lemma recovery_pos: "0 < recovery m"
  by (simp add: recovery_def Let_def)

lemma evictability_exact:
  assumes "meta_wf m"
  shows "evictability m now = horizon (m_next_use m) now * SCALE div (recovery m * holders m)"
proof -
  have "horizon (m_next_use m) now * SCALE \<le> UNDECLARED * SCALE"
    using horizon_bound [OF assms] by simp
  then have "horizon (m_next_use m) now * SCALE \<le> umax 64"
    by (rule order_trans) (simp add: UNDECLARED_def SCALE_def)
  moreover have "recovery m * holders m \<le> 2 ^ 32 * 2 ^ 16"
    using assms by (intro mult_le_mono) (auto simp: recovery_def holders_def meta_wf_def Let_def)
  then have "recovery m * holders m \<le> umax 64" by (rule order_trans) simp
  ultimately show ?thesis by (simp add: evictability_def sat_mul_exact)
qed

lemma div_le_near:
  fixes a b c :: nat
  assumes "0 < c" "a div c \<le> b div c"
  shows "a < b + c"
proof -
  have "a mod c < c" using assms(1) by simp
  moreover have "a div c * c \<le> b div c * c" using assms(2) by (rule mult_le_mono1)
  moreover have "b div c * c \<le> b" by simp
  ultimately show ?thesis using div_mult_mod_eq [of a c] by linarith
qed

text \<open>C14: what each of the four policies answers. Demand declines, whatever is resident. FIFO and LRU answer the resident
  with the oldest tick, next-use the one with the largest score, ties to the lower id; these three decline only when nothing
  is resident.\<close>

theorem victim_is_extreme:
  "pol_victim Demand r w = None \<and>
   (case pol_victim (oldest_policy ol) r w of
      None \<Rightarrow> residents r = {}
    | Some i \<Rightarrow> \<exists>m. (i, m) \<in> residents r \<and>
        (\<forall>(j, m') \<in> residents r. ol_tick ol m \<le> ol_tick ol m' \<and> (ol_tick ol m = ol_tick ol m' \<longrightarrow> i \<le> j))) \<and>
   (case pol_victim NEXT_USE r w of
      None \<Rightarrow> residents r = {}
    | Some i \<Rightarrow> \<exists>m. (i, m) \<in> residents r \<and>
        (\<forall>(j, m') \<in> residents r. evictability m' (rs_now r) \<le> evictability m (rs_now r) \<and>
            (evictability m' (rs_now r) = evictability m (rs_now r) \<longrightarrow> i \<le> j)))"
  unfolding Demand_def oldest_policy_def NEXT_USE_def policy.select_convs
proof (intro conjI)
  show "demand_victim r w = None" by (simp add: demand_victim_def)
next
  show "case oldest_victim ol r w of
      None \<Rightarrow> residents r = {}
    | Some i \<Rightarrow> \<exists>m. (i, m) \<in> residents r \<and>
        (\<forall>(j, m') \<in> residents r. ol_tick ol m \<le> ol_tick ol m' \<and> (ol_tick ol m = ol_tick ol m' \<longrightarrow> i \<le> j))"
  proof (cases "oldest_victim ol r w")
    case None
    then have "residents r = {}" using oldest.declines_iff by blast
    with None show ?thesis by simp
  next
    case (Some i)
    then obtain m where m: "(i, m) \<in> residents r"
      "\<And>j m'. (j, m') \<in> residents r \<Longrightarrow> \<not> prefers (\<lambda>a b. a < b) (j, ol_tick ol m') (i, ol_tick ol m)"
      unfolding oldest_victim_def by (erule scan_victim [rotated]) auto
    then show ?thesis using Some by (fastforce simp: prefers_def not_less)
  qed
next
  show "case next_use_victim r w of
      None \<Rightarrow> residents r = {}
    | Some i \<Rightarrow> \<exists>m. (i, m) \<in> residents r \<and>
        (\<forall>(j, m') \<in> residents r. evictability m' (rs_now r) \<le> evictability m (rs_now r) \<and>
            (evictability m' (rs_now r) = evictability m (rs_now r) \<longrightarrow> i \<le> j))"
  proof (cases "next_use_victim r w")
    case None
    then have "residents r = {}" using next_use.declines_iff by blast
    with None show ?thesis by simp
  next
    case (Some i)
    then obtain m where m: "(i, m) \<in> residents r"
      "\<And>j m'. (j, m') \<in> residents r \<Longrightarrow> \<not> prefers (\<lambda>a b. b < a)
          (j, evictability m' (rs_now r)) (i, evictability m (rs_now r))"
      unfolding next_use_victim_def by (erule scan_victim [rotated]) auto
    then show ?thesis using Some by (fastforce simp: prefers_def not_less)
  qed
qed

text \<open>A resident set to state examples with: two blocks, the first placed earlier and used later,
  the second wanted further away.\<close>

definition sample_residency :: residency where
  "sample_residency =
     \<lparr>rs_len = 2,
      rs_at = nth_opt
        [(7, sample_meta\<lparr>m_placed_tick := 1, m_used_tick := 5, m_next_use := At 9\<rparr>),
         (8, sample_meta\<lparr>m_placed_tick := 2, m_used_tick := 3, m_next_use := At 30\<rparr>)],
      rs_now = 6\<rparr>"

lemma sample_residents:
  "residents sample_residency =
     {(7, sample_meta\<lparr>m_placed_tick := 1, m_used_tick := 5, m_next_use := At 9\<rparr>),
      (8, sample_meta\<lparr>m_placed_tick := 2, m_used_tick := 3, m_next_use := At 30\<rparr>)}"
  by (auto simp: residents_def sample_residency_def less_Suc_eq numeral_2_eq_2)

lemma victim_is_extreme_witness:
  "oldest_victim LRU sample_residency sample_meta = Some 8 \<and>
   (\<exists>m. (8, m) \<in> residents sample_residency \<and>
     (\<forall>(j, m') \<in> residents sample_residency. m_used_tick m \<le> m_used_tick m'))"
proof -
  have v: "oldest_victim LRU sample_residency sample_meta = Some 8"
    by (simp add: oldest_victim_def LRU_def sample_residency_def upt_rec sample_meta_def nth_opt_def)
  from victim_is_extreme [where ol = LRU and r = sample_residency and w = sample_meta] v show ?thesis
    by (fastforce simp: LRU_def oldest_policy_def)
qed

text \<open>C13: among residents whose next uses are all declared and which cost the same to bring back, next-use evicts one
  whose next use is less than cost / SCALE steps nearer than the furthest, the cost being the cheaper of reload and recompute
  times the sharers. Where that cost is at most SCALE it is Belady's choice, one wanted furthest away; the synthetic weight
  tiles cost 4 * SCALE, and there it can be up to three steps nearer.\<close>

theorem next_use_near_belady:
  assumes "\<forall>(j, m) \<in> residents r. meta_wf m \<and> recovery m * holders m = c \<and> m_next_use m = At (pos m)"
    and "next_use_victim r w = Some i"
  shows "\<exists>m. (i, m) \<in> residents r \<and>
    (\<forall>(j, m') \<in> residents r.
       (pos m' - rs_now r) * SCALE < (pos m - rs_now r) * SCALE + c \<and>
       (c \<le> SCALE \<longrightarrow> pos m' - rs_now r \<le> pos m - rs_now r))"
proof -
  from assms(2) obtain m where m: "(i, m) \<in> residents r"
    "\<And>j m'. (j, m') \<in> residents r \<Longrightarrow> \<not> prefers (\<lambda>a b. b < a)
        (j, evictability m' (rs_now r)) (i, evictability m (rs_now r))"
    unfolding next_use_victim_def by (erule scan_victim [rotated]) auto
  have ev: "evictability m'' (rs_now r) = (pos m'' - rs_now r) * SCALE div c" if "(j'', m'') \<in> residents r" for j'' m''
  proof -
    from assms(1) that have "meta_wf m''" "recovery m'' * holders m'' = c" "m_next_use m'' = At (pos m'')" by auto
    then show ?thesis by (simp add: evictability_exact)
  qed
  from assms(1) m(1) have "c = recovery m * holders m" by auto
  then have c: "0 < c" by (simp add: recovery_pos holders_def)
  have "(pos m' - rs_now r) * SCALE < (pos m - rs_now r) * SCALE + c \<and> (c \<le> SCALE \<longrightarrow> pos m' - rs_now r \<le> pos m - rs_now r)"
    if r: "(j, m') \<in> residents r" for j m'
  proof -
    from m(2) [OF r] have "(pos m' - rs_now r) * SCALE div c \<le> (pos m - rs_now r) * SCALE div c"
      unfolding ev [OF m(1)] ev [OF r] by (simp add: prefers_def not_less)
    then have near: "(pos m' - rs_now r) * SCALE < (pos m - rs_now r) * SCALE + c" by (rule div_le_near [OF c])
    have "pos m' - rs_now r \<le> pos m - rs_now r" if "c \<le> SCALE"
    proof -
      have "(pos m' - rs_now r) * SCALE < (pos m - rs_now r + 1) * SCALE" using near that by simp
      then have "pos m' - rs_now r < pos m - rs_now r + 1" by (simp only: mult_less_cancel2)
      then show ?thesis by simp
    qed
    with near show ?thesis by blast
  qed
  with m(1) show ?thesis by blast
qed

lemma next_use_near_belady_witness:
  "next_use_victim sample_residency sample_meta = Some 8 \<and>
   (\<exists>m. (8, m) \<in> residents sample_residency \<and> m_next_use m = At 30)"
proof -
  have v: "next_use_victim sample_residency sample_meta = Some 8"
    by (simp add: next_use_victim_def sample_residency_def upt_rec sample_meta_def nth_opt_def evictability_def
        sat_mul_def SCALE_def recovery_def holders_def IMPOSSIBLE_def)
  let ?pos = "\<lambda>m. case m_next_use m of At p \<Rightarrow> p | _ \<Rightarrow> 0"
  have h: "\<forall>(j, m) \<in> residents sample_residency.
      meta_wf m \<and> recovery m * holders m = 10 \<and> m_next_use m = At (?pos m)"
    by (simp add: sample_residents sample_meta_def meta_wf_def recovery_def holders_def IMPOSSIBLE_def)
  from next_use_near_belady [OF h v] obtain m where
    "(8, m) \<in> residents sample_residency" by blast
  then show ?thesis using v by (auto simp: sample_residents)
qed

end
