(* ===== verification/Provider.thy ===== *)
theory Provider
  imports Objtab
begin

text \<open>
  crates/mlos-provider and crates/mlos-provider-dram: where an object's bytes come from. A
  provider copies part of a located object into a buffer and says how many bytes arrived; it
  names what producing the object would cost. The resident tier is a provider over a window of
  physical memory, which no read may leave.
\<close>

section \<open>Located objects and costs (located.rs)\<close>

record located =
  lo_id :: object_id
  lo_handle :: nat
  lo_size :: nat

definition located_new :: "object_id \<Rightarrow> object_meta \<Rightarrow> located" where
  "located_new i m = \<lparr>lo_id = i, lo_handle = m_handle m, lo_size = m_size m\<rparr>"

record cost =
  co_latency :: nat
  co_bytes_per_ms :: nat

definition for_bytes :: "cost \<Rightarrow> nat \<Rightarrow> nat" where
  "for_bytes c sz =
     (if co_bytes_per_ms c = 0 then co_latency c
      else let transfer = sz * 1000000 div co_bytes_per_ms c
           in sat_add 32 (co_latency c) (wrap 32 transfer))"

section \<open>The provider interface (lib.rs)\<close>

text \<open>\<open>pr_read\<close> takes the buffer and returns it as the read left it.\<close>

record provider =
  pr_id :: provider_id
  pr_read :: "located \<Rightarrow> nat \<Rightarrow> u8 list \<Rightarrow> nat res \<times> u8 list"
  pr_cost :: "located \<Rightarrow> cost"
  pr_prefetch :: "located \<Rightarrow> unit res"

definition default_prefetch :: "located \<Rightarrow> unit res" where
  "default_prefetch object = Inr ()"

section \<open>The resident tier (mlos-provider-dram)\<close>

record dram =
  d_id :: provider_id
  d_base :: nat
  d_length :: nat

definition within :: "nat \<Rightarrow> nat \<Rightarrow> located \<Rightarrow> nat \<Rightarrow> nat \<Rightarrow> nat res" where
  "within base len object offset want =
     (case checked_add 64 (lo_handle object) offset of
        None \<Rightarrow> Inl BadObject
      | Some start \<Rightarrow>
          (case checked_add 64 start want of
             None \<Rightarrow> Inl BadObject
           | Some end \<Rightarrow>
               (case checked_add 64 base len of
                  None \<Rightarrow> Inl BadObject
                | Some limit \<Rightarrow>
                    if start < base \<or> limit < end then Inl BadObject else Inr start)))"

text \<open>The physical memory is an argument: the copy reads \<open>want\<close> bytes from \<open>from\<close> on.\<close>

definition dram_read ::
  "(nat \<Rightarrow> u8) \<Rightarrow> dram \<Rightarrow> located \<Rightarrow> nat \<Rightarrow> u8 list \<Rightarrow> nat res \<times> u8 list" where
  "dram_read mem d object offset into =
     (let want = min (length into) (lo_size object - offset) in
      case within (d_base d) (d_length d) object offset want of
        Inl e \<Rightarrow> (Inl e, into)
      | Inr from \<Rightarrow> (Inr (wrap 32 want), map mem [from..<from + want] @ drop want into))"

definition dram_cost :: "located \<Rightarrow> cost" where
  "dram_cost object = \<lparr>co_latency = 0, co_bytes_per_ms = 0\<rparr>"

definition dram_provider :: "(nat \<Rightarrow> u8) \<Rightarrow> dram \<Rightarrow> provider" where
  "dram_provider mem d =
     \<lparr>pr_id = d_id d, pr_read = dram_read mem d, pr_cost = dram_cost, pr_prefetch = default_prefetch\<rparr>"

section \<open>The contract of a provider\<close>

text \<open>What the fault path relies on: a read changes the buffer it was given and nothing of its
  length, reports no more than fits, and an error leaves the buffer alone.\<close>

locale reader =
  fixes read :: "located \<Rightarrow> nat \<Rightarrow> u8 list \<Rightarrow> nat res \<times> u8 list"
  assumes read_length: "length (snd (read object offset into)) = length into"
    and read_count: "fst (read object offset into) = Inr n \<Longrightarrow> n \<le> length into"
    and read_rest: "lo_size object < 2 ^ 32 \<Longrightarrow> fst (read object offset into) = Inr n \<Longrightarrow>
      drop n (snd (read object offset into)) = drop n into"
begin

lemma read_all:
  assumes "lo_size object < 2 ^ 32" "fst (read object offset into) = Inr n"
  shows "snd (read object offset into) = take n (snd (read object offset into)) @ drop n into"
  by (metis append_take_drop_id assms read_rest)

lemma read_none:
  "lo_size object < 2 ^ 32 \<Longrightarrow> fst (read object offset into) = Inr 0 \<Longrightarrow>
     snd (read object offset into) = into"
  using read_rest [of object offset into 0] by simp

end

lemma within_iff:
  "within base len object offset want = Inr start \<longleftrightarrow>
     start = lo_handle object + offset \<and> base \<le> start \<and> start + want \<le> base + len \<and>
     start \<le> umax 64 \<and> start + want \<le> umax 64 \<and> base + len \<le> umax 64"
  by (auto simp: within_def checked_add_def)

interpretation dram: reader "dram_read mem d" for mem d
proof
  fix object offset into n
  show "length (snd (dram_read mem d object offset into)) = length into"
    by (auto simp: dram_read_def Let_def split: sum.splits)
  show "fst (dram_read mem d object offset into) = Inr n \<Longrightarrow> n \<le> length into"
    by (auto simp: dram_read_def Let_def wrap_def split: sum.splits
        intro: le_trans [OF mod_less_eq_dividend])
  show "lo_size object < 2 ^ 32 \<Longrightarrow> fst (dram_read mem d object offset into) = Inr n \<Longrightarrow>
      drop n (snd (dram_read mem d object offset into)) = drop n into"
    by (auto simp: dram_read_def Let_def wrap_def min_def split: sum.splits if_splits)
qed

section \<open>Properties\<close>

text \<open>A read of the resident tier never leaves its window. It succeeds exactly when the
  whole range asked for lies inside, no step of the arithmetic overflowing, and then delivers
  the bytes of that range; memory outside the window has no influence on it.\<close>

theorem dram_read_window:
  assumes "lo_size object < 2 ^ 32"
  shows "(let want = min (length into) (lo_size object - offset); start = lo_handle object + offset in
      dram_read mem d object offset into =
        (if d_base d \<le> start \<and> start + want \<le> d_base d + d_length d \<and>
            start + want < 2 ^ 64 \<and> d_base d + d_length d < 2 ^ 64
         then (Inr want, map mem [start..<start + want] @ drop want into)
         else (Inl BadObject, into))) \<and>
    ((\<forall>p. d_base d \<le> p \<and> p < d_base d + d_length d \<longrightarrow> mem p = mem' p) \<longrightarrow>
       dram_read mem d object offset into = dram_read mem' d object offset into)"
proof -
  let ?want = "min (length into) (lo_size object - offset)"
  let ?start = "lo_handle object + offset"
  have w: "wrap 32 ?want = ?want" using assms by (simp add: wrap_exact)
  have err: "within b l ob off want = Inl e \<Longrightarrow> e = BadObject" for b l ob off want e
    by (auto simp: within_def split: option.splits if_splits)
  have one: "dram_read m d object offset into =
        (if d_base d \<le> ?start \<and> ?start + ?want \<le> d_base d + d_length d \<and>
            ?start + ?want < 2 ^ 64 \<and> d_base d + d_length d < 2 ^ 64
         then (Inr ?want, map m [?start..<?start + ?want] @ drop ?want into)
         else (Inl BadObject, into))" for m
  proof (cases "within (d_base d) (d_length d) object offset ?want")
    case (Inl e)
    then have "\<not> (d_base d \<le> ?start \<and> ?start + ?want \<le> d_base d + d_length d \<and>
            ?start + ?want < 2 ^ 64 \<and> d_base d + d_length d < 2 ^ 64)"
      using within_iff [of "d_base d" "d_length d" object offset ?want ?start] by auto
    then show ?thesis using Inl err [OF Inl] by (auto simp: dram_read_def Let_def)
  next
    case (Inr x)
    then have "x = ?start" "d_base d \<le> ?start" "?start + ?want \<le> d_base d + d_length d"
      "?start + ?want < 2 ^ 64" "d_base d + d_length d < 2 ^ 64" by (auto simp: within_iff)
    with Inr show ?thesis by (simp add: dram_read_def Let_def w)
  qed
  have "dram_read mem d object offset into = dram_read mem' d object offset into"
    if "\<forall>p. d_base d \<le> p \<and> p < d_base d + d_length d \<longrightarrow> mem p = mem' p"
    unfolding one [of mem] one [of mem'] using that by (auto intro!: map_cong)
  with one show ?thesis by (simp add: Let_def)
qed

lemma dram_read_window_witness:
  "dram_read (\<lambda>p. of_nat p) \<lparr>d_id = 1, d_base = 16, d_length = 8\<rparr>
     \<lparr>lo_id = 7, lo_handle = 18, lo_size = 4\<rparr> 1 [0, 0, 0, 0] = (Inr 3, [19, 20, 21, 0])"
  using dram_read_window [of "\<lparr>lo_id = 7, lo_handle = 18, lo_size = 4\<rparr>" "[0, 0, 0, 0]" 1 "\<lambda>p. of_nat p"
      "\<lparr>d_id = 1, d_base = 16, d_length = 8\<rparr>" "\<lambda>p. of_nat p"]
  by (simp add: upt_rec)

text \<open>The cost of a transfer is its latency plus the time the bytes take, as long as that
  time fits 32 bits of nanoseconds. Past 4.29 seconds the time wraps: an object that takes
  longer is priced cheaper than a smaller one.\<close>

theorem for_bytes_wraps:
  assumes "co_latency c < 2 ^ 32" "co_bytes_per_ms c \<noteq> 0"
  shows "(sz * 1000000 div co_bytes_per_ms c < 2 ^ 32 \<longrightarrow>
      for_bytes c sz = min (co_latency c + sz * 1000000 div co_bytes_per_ms c) (2 ^ 32 - 1)) \<and>
    for_bytes \<lparr>co_latency = 0, co_bytes_per_ms = 1000\<rparr> 4294968 <
      for_bytes \<lparr>co_latency = 0, co_bytes_per_ms = 1000\<rparr> 4294967"
  using assms by (simp add: for_bytes_def Let_def sat_add_def wrap_def)

lemma for_bytes_wraps_witness:
  "for_bytes \<lparr>co_latency = 100, co_bytes_per_ms = 1000\<rparr> 64 = 64100"
  using for_bytes_wraps [of "\<lparr>co_latency = 100, co_bytes_per_ms = 1000\<rparr>" 64] by simp

end
