(* ===== verification/Session.thy ===== *)
theory Session
  imports Objtab
begin

text \<open>
  crates/mlos-session: sessions in fixed slots, each with the contract it was given, the bytes
  it holds resident, and what was delivered to it so far. Creating takes the lowest free id, a
  full table refuses, and a charge that would pass the ceiling is refused before anything is
  counted.
\<close>

section \<open>Contracts and what was delivered (contract.rs)\<close>

record contract =
  c_quality_floor :: precision
  c_latency_ceiling :: nat
  c_resident_ceiling :: nat
  c_context :: nat

definition contract_none :: contract where
  "contract_none =
     \<lparr>c_quality_floor = Ternary, c_latency_ceiling = 0, c_resident_ceiling = 0, c_context = 0\<rparr>"

definition permits :: "contract \<Rightarrow> precision \<Rightarrow> bool" where
  "permits c p = (precision_u8 p \<le> precision_u8 (c_quality_floor c))"

record delivered =
  dl_coarsest :: precision
  dl_worst_period :: nat
  dl_peak_resident :: nat
  dl_deepest :: rung
  dl_recomputed :: nat

definition delivered_default :: delivered where
  "delivered_default =
     \<lparr>dl_coarsest = Fp16, dl_worst_period = 0, dl_peak_resident = 0, dl_deepest = L0,
      dl_recomputed = 0\<rparr>"

section \<open>Sessions (lib.rs)\<close>

definition MAX_SESSIONS :: nat where "MAX_SESSIONS = 16"

record session =
  s_id :: session_id
  s_contract :: contract
  s_resident :: nat
  s_delivered :: delivered
  s_rung :: rung

type_synonym sessions = "session option list"

definition sessions_empty :: "nat \<Rightarrow> sessions" where
  "sessions_empty n = replicate n None"

definition sessions_at :: "sessions \<Rightarrow> nat \<Rightarrow> session option" where
  "sessions_at ss index = (case nth_opt ss index of None \<Rightarrow> None | Some s \<Rightarrow> s)"

definition each :: "sessions \<Rightarrow> session list" where
  "each ss = List.map_filter (\<lambda>s. s) ss"

definition sessions_live :: "sessions \<Rightarrow> nat" where
  "sessions_live ss = length (filter (\<lambda>s. s \<noteq> None) ss)"

section \<open>Creating and destroying (table.rs)\<close>

definition sessions_find :: "sessions \<Rightarrow> session_id \<Rightarrow> nat option" where
  "sessions_find ss i = position (\<lambda>s. case s of None \<Rightarrow> False | Some s \<Rightarrow> s_id s = i) ss"

definition session_new :: "session_id \<Rightarrow> contract \<Rightarrow> session" where
  "session_new i c =
     \<lparr>s_id = i, s_contract = c, s_resident = 0, s_delivered = delivered_default, s_rung = L0\<rparr>"

definition adopt :: "session_id \<Rightarrow> contract \<Rightarrow> sessions \<Rightarrow> unit res \<times> sessions" where
  "adopt i c ss =
     (if i = 0 \<or> sessions_find ss i \<noteq> None then (Inl Refused, ss)
      else (case position (\<lambda>s. s = None) ss of
              None \<Rightarrow> (Inl Refused, ss)
            | Some slot \<Rightarrow> (Inr (), ss[slot := Some (session_new i c)])))"

text \<open>\<open>(1..=u16::MAX).find(..)\<close>: the lowest id from \<open>i\<close> upward that no session has.\<close>

function lowest_free :: "sessions \<Rightarrow> nat \<Rightarrow> nat option" where
  "lowest_free ss i =
     (if 65535 < i then None
      else if sessions_find ss i = None then Some i
      else lowest_free ss (i + 1))"
  by pat_completeness auto
termination by (relation "measure (\<lambda>(ss, i). 65536 - i)") auto

declare lowest_free.simps [simp del]

definition create :: "contract \<Rightarrow> sessions \<Rightarrow> session_id res \<times> sessions" where
  "create c ss =
     (case lowest_free ss 1 of
        None \<Rightarrow> (Inl Refused, ss)
      | Some i \<Rightarrow>
          (case adopt i c ss of
             (Inl e, ss') \<Rightarrow> (Inl e, ss')
           | (Inr _, ss') \<Rightarrow> (Inr i, ss')))"

definition destroy :: "session_id \<Rightarrow> sessions \<Rightarrow> session res \<times> sessions" where
  "destroy i ss =
     (case sessions_find ss i of
        None \<Rightarrow> (Inl BadObject, ss)
      | Some slot \<Rightarrow>
          (case ss ! slot of
             None \<Rightarrow> (Inl BadObject, ss[slot := None])
           | Some s \<Rightarrow> (Inr s, ss[slot := None])))"

fun adopt_each :: "session_id list \<Rightarrow> contract \<Rightarrow> sessions \<Rightarrow> nat \<times> sessions" where
  "adopt_each [] c ss = (0, ss)"
| "adopt_each (i # ids) c ss =
     (case adopt i c ss of
        (Inl _, ss') \<Rightarrow> adopt_each ids c ss'
      | (Inr _, ss') \<Rightarrow> (case adopt_each ids c ss' of (n, ss'') \<Rightarrow> (n + 1, ss'')))"

section \<open>Accounts (budget.rs, contract.rs)\<close>

definition sessions_get :: "sessions \<Rightarrow> session_id \<Rightarrow> session option" where
  "sessions_get ss i = (case sessions_find ss i of None \<Rightarrow> None | Some slot \<Rightarrow> ss ! slot)"

text \<open>\<open>get_mut\<close>, with the session rewritten through the reference; nothing when unknown.\<close>

definition sessions_update :: "session_id \<Rightarrow> (session \<Rightarrow> session) \<Rightarrow> sessions \<Rightarrow> sessions" where
  "sessions_update i f ss =
     (case sessions_find ss i of
        None \<Rightarrow> ss
      | Some slot \<Rightarrow> ss[slot := map_option f (ss ! slot)])"

definition charged :: "nat \<Rightarrow> precision \<Rightarrow> session \<Rightarrow> session" where
  "charged after p s =
     s\<lparr>s_resident := after,
       s_delivered := (s_delivered s)
         \<lparr>dl_peak_resident := max (dl_peak_resident (s_delivered s)) after,
          dl_coarsest := (if precision_u8 (dl_coarsest (s_delivered s)) < precision_u8 p
                          then p else dl_coarsest (s_delivered s))\<rparr>\<rparr>"

definition charge :: "session_id \<Rightarrow> nat \<Rightarrow> precision \<Rightarrow> sessions \<Rightarrow> unit res \<times> sessions" where
  "charge owner sz p ss =
     (case sessions_get ss owner of
        None \<Rightarrow> (Inr (), ss)
      | Some s \<Rightarrow>
          (let ceiling = c_resident_ceiling (s_contract s);
               after = s_resident s + sz
           in if ceiling \<noteq> 0 \<and> ceiling < after then (Inl Refused, ss)
              else (Inr (), sessions_update owner (charged after p) ss)))"

definition credit :: "session_id \<Rightarrow> nat \<Rightarrow> sessions \<Rightarrow> sessions" where
  "credit owner sz ss = sessions_update owner (\<lambda>s. s\<lparr>s_resident := s_resident s - sz\<rparr>) ss"

definition took :: "session_id \<Rightarrow> nat \<Rightarrow> sessions \<Rightarrow> sessions" where
  "took owner period ss =
     sessions_update owner
       (\<lambda>s. s\<lparr>s_delivered := (s_delivered s)
          \<lparr>dl_worst_period := max (dl_worst_period (s_delivered s)) period\<rparr>\<rparr>) ss"

section \<open>What the slots mean\<close>

definition sessions_inv :: "sessions \<Rightarrow> bool" where
  "sessions_inv ss \<longleftrightarrow>
     (\<forall>p < length ss. \<forall>q < length ss. \<forall>s t. ss ! p = Some s \<longrightarrow> ss ! q = Some t \<longrightarrow> s_id s = s_id t \<longrightarrow> p = q) \<and>
     (\<forall>s. Some s \<in> set ss \<longrightarrow> s_id s \<noteq> 0)"

definition within_ceiling :: "session \<Rightarrow> bool" where
  "within_ceiling s \<longleftrightarrow>
     (c_resident_ceiling (s_contract s) \<noteq> 0 \<longrightarrow> s_resident s \<le> c_resident_ceiling (s_contract s)) \<and>
     s_resident s \<le> dl_peak_resident (s_delivered s)"

definition accounts_ok :: "sessions \<Rightarrow> bool" where
  "accounts_ok ss \<longleftrightarrow> (\<forall>s. Some s \<in> set ss \<longrightarrow> within_ceiling s)"

definition worse :: "delivered \<Rightarrow> delivered \<Rightarrow> bool" where
  "worse d d' \<longleftrightarrow>
     precision_u8 (dl_coarsest d) \<le> precision_u8 (dl_coarsest d') \<and>
     dl_worst_period d \<le> dl_worst_period d' \<and> dl_peak_resident d \<le> dl_peak_resident d' \<and>
     dl_deepest d \<le> dl_deepest d' \<and> dl_recomputed d \<le> dl_recomputed d'"

lemma worse_refl [simp]: "worse d d"
  by (simp add: worse_def)

lemma worse_trans: "worse a b \<Longrightarrow> worse b c \<Longrightarrow> worse a c"
  unfolding worse_def by (meson order_trans)

lemma each_set: "s \<in> set (each ss) \<longleftrightarrow> Some s \<in> set ss"
  by (force simp: each_def List.map_filter_def)

lemma each_length: "length (each ss) = sessions_live ss"
  by (simp add: each_def sessions_live_def List.map_filter_def)

lemma sessions_find_Some:
  "sessions_find ss i = Some p \<Longrightarrow> p < length ss \<and> (\<exists>s. ss ! p = Some s \<and> s_id s = i)"
  by (auto simp: sessions_find_def dest!: position_Some split: option.splits)

lemma sessions_find_None: "sessions_find ss i = None \<longleftrightarrow> (\<forall>s. Some s \<in> set ss \<longrightarrow> s_id s \<noteq> i)"
  by (auto simp: sessions_find_def position_None split: option.splits)

lemma sessions_get_None: "sessions_get ss i = None \<longleftrightarrow> (\<forall>s. Some s \<in> set ss \<longrightarrow> s_id s \<noteq> i)"
  using sessions_find_None [of ss i] sessions_find_Some [of ss i]
  by (auto simp: sessions_get_def split: option.splits)

lemma sessions_get_mem: "sessions_get ss i = Some s \<Longrightarrow> Some s \<in> set ss \<and> s_id s = i"
  by (auto simp: sessions_get_def dest!: sessions_find_Some split: option.splits) (metis nth_mem)

lemma sessions_get_iff:
  assumes "sessions_inv ss"
  shows "sessions_get ss i = Some s \<longleftrightarrow> Some s \<in> set ss \<and> s_id s = i"
proof
  assume m: "Some s \<in> set ss \<and> s_id s = i"
  then obtain p where p: "p < length ss" "ss ! p = Some s" by (auto simp: in_set_conv_nth)
  have "sessions_get ss i \<noteq> None" using m sessions_get_None by blast
  then obtain q t where q: "sessions_find ss i = Some q" "ss ! q = Some t" "s_id t = i" "q < length ss"
    using sessions_find_Some [of ss i] by (auto simp: sessions_get_def split: option.splits)
  have "q = p" using assms p q m unfolding sessions_inv_def by metis
  with q p show "sessions_get ss i = Some s" by (simp add: sessions_get_def)
qed (rule sessions_get_mem)

lemma sessions_update_nth:
  assumes "sessions_inv ss" "p < length ss"
  shows "sessions_update i f ss ! p =
    (case ss ! p of None \<Rightarrow> None | Some s \<Rightarrow> Some (if s_id s = i then f s else s))"
proof (cases "sessions_find ss i")
  case None
  then have "s_id s \<noteq> i" if "ss ! p = Some s" for s
    using that assms(2) unfolding sessions_find_None by (metis nth_mem)
  with None show ?thesis by (simp add: sessions_update_def split: option.splits)
next
  case (Some q)
  from sessions_find_Some [OF this] obtain t where q: "q < length ss" "ss ! q = Some t" "s_id t = i" by blast
  have "s_id s = i \<longleftrightarrow> p = q" if "ss ! p = Some s" for s
    using assms q that unfolding sessions_inv_def by auto
  then show ?thesis
    using Some q assms(2) by (auto simp: sessions_update_def nth_list_update split: option.splits)
qed

lemma sessions_update_length [simp]: "length (sessions_update i f ss) = length ss"
  by (simp add: sessions_update_def split: option.splits)

lemma sessions_update_mem:
  assumes "sessions_inv ss"
  shows "Some s' \<in> set (sessions_update i f ss) \<longleftrightarrow>
    (\<exists>s. Some s \<in> set ss \<and> s' = (if s_id s = i then f s else s))"
proof -
  have "Some s' \<in> set (sessions_update i f ss) \<longleftrightarrow>
      (\<exists>p < length ss. \<exists>s. ss ! p = Some s \<and> s' = (if s_id s = i then f s else s))"
    unfolding in_set_conv_nth
    by (rule ex_cong1) (auto simp: sessions_update_nth [OF assms] split: option.splits if_splits)
  also have "\<dots> \<longleftrightarrow> (\<exists>s. Some s \<in> set ss \<and> s' = (if s_id s = i then f s else s))"
    by (auto simp: in_set_conv_nth)
  finally show ?thesis .
qed

lemma sessions_update_inv:
  assumes inv: "sessions_inv ss" and key: "\<And>s. s_id (f s) = s_id s"
  shows "sessions_inv (sessions_update i f ss)"
  unfolding sessions_inv_def
proof (intro conjI allI impI)
  fix p q s t
  assume "p < length (sessions_update i f ss)" "q < length (sessions_update i f ss)"
    and e: "sessions_update i f ss ! p = Some s" "sessions_update i f ss ! q = Some t" "s_id s = s_id t"
  then have pq: "p < length ss" "q < length ss" by simp_all
  from e pq key obtain s0 t0 where "ss ! p = Some s0" "ss ! q = Some t0" "s_id s0 = s_id t0"
    by (auto simp: sessions_update_nth [OF inv] split: option.splits if_splits)
  with pq inv show "p = q" unfolding sessions_inv_def by blast
next
  fix s assume "Some s \<in> set (sessions_update i f ss)"
  then show "s_id s \<noteq> 0" using inv key by (auto simp: sessions_update_mem [OF inv] sessions_inv_def)
qed

section \<open>The interface the manager and the ladder rely on\<close>

text \<open>Records rewritten in place, by key, the key kept.\<close>

locale keyed_records =
  fixes good :: "'t \<Rightarrow> bool"
    and key :: "'s \<Rightarrow> 'k"
    and get :: "'t \<Rightarrow> 'k \<Rightarrow> 's option"
    and update :: "'k \<Rightarrow> ('s \<Rightarrow> 's) \<Rightarrow> 't \<Rightarrow> 't"
  assumes get_key: "good t \<Longrightarrow> get t k = Some s \<Longrightarrow> key s = k"
    and update_good: "good t \<Longrightarrow> (\<And>s. key (f s) = key s) \<Longrightarrow> good (update k f t)"
    and get_update: "good t \<Longrightarrow> (\<And>s. key (f s) = key s) \<Longrightarrow>
      get (update k f t) j = (if j = k then map_option f (get t k) else get t j)"
begin

lemma update_absent: "good t \<Longrightarrow> (\<And>s. key (f s) = key s) \<Longrightarrow> get t k = None \<Longrightarrow> get (update k f t) = get t"
  by (rule ext) (simp add: get_update)

text \<open>A property of single records survives an update that keeps it.\<close>

lemma update_all:
  assumes "good t" "\<And>s. key (f s) = key s" "\<And>j s. get t j = Some s \<Longrightarrow> P s"
    "\<And>s. get t k = Some s \<Longrightarrow> P (f s)" "get (update k f t) j = Some s'"
  shows "P s'"
  using assms(3-5) by (auto simp: get_update [OF assms(1,2)] split: if_splits)

text \<open>A preorder between old and new record that every update respects relates the two states.\<close>

lemma update_rel:
  assumes "good t" "\<And>s. key (f s) = key s" "\<And>s. R s s" "\<And>s. R s (f s)" "get t j = Some s"
  shows "\<exists>s'. get (update k f t) j = Some s' \<and> R s s'"
  using assms(3-5) by (auto simp: get_update [OF assms(1,2)])

lemma updates_merge:
  "good t \<Longrightarrow> (\<And>s. key (f s) = key s) \<Longrightarrow> (\<And>s. key (g s) = key s) \<Longrightarrow>
     get (update k g (update k f t)) = get (update k (\<lambda>s. g (f s)) t)"
  by (rule ext) (simp add: get_update update_good option.map_comp comp_def)

end

interpretation book: keyed_records sessions_inv s_id sessions_get sessions_update
proof
  fix t :: sessions and k j s and f :: "session \<Rightarrow> session"
  assume inv: "sessions_inv t"
  show "sessions_get t k = Some s \<Longrightarrow> s_id s = k" using sessions_get_mem by blast
  assume key: "\<And>s. s_id (f s) = s_id s"
  show inv': "sessions_inv (sessions_update k f t)" by (rule sessions_update_inv [OF inv key])
  have "sessions_get (sessions_update k f t) j = Some s' \<longleftrightarrow>
      (if j = k then map_option f (sessions_get t k) else sessions_get t j) = Some s'" for s'
    using key by (auto simp: sessions_get_iff [OF inv'] sessions_get_iff [OF inv]
        sessions_update_mem [OF inv])
  then show "sessions_get (sessions_update k f t) j =
      (if j = k then map_option f (sessions_get t k) else sessions_get t j)"
    by (metis not_Some_eq)
qed

section \<open>Creating and destroying\<close>

lemma adopt_ok:
  assumes inv: "sessions_inv ss" and run: "adopt i c ss = (Inr u, ss')"
  shows "sessions_inv ss'" "i \<noteq> 0" "sessions_get ss i = None"
    "sessions_get ss' = (sessions_get ss)(i \<mapsto> session_new i c)" "length ss' = length ss"
    "Some s \<in> set ss' \<longleftrightarrow> Some s \<in> set ss \<or> s = session_new i c"
    "sessions_live ss' = sessions_live ss + 1"
proof -
  from run obtain slot where ne: "i \<noteq> 0" "sessions_find ss i = None"
    and pos: "position (\<lambda>s. s = None) ss = Some slot" and ss': "ss' = ss[slot := Some (session_new i c)]"
    by (auto simp: adopt_def split: if_splits option.splits)
  from position_split [OF pos] obtain us vs where sp: "ss = us @ None # vs" "length us = slot" by auto
  have ss'': "ss' = us @ Some (session_new i c) # vs"
    unfolding ss' sp(1) sp(2) [symmetric] by (rule list_update_length)
  have fresh: "s_id s \<noteq> i" if "Some s \<in> set ss" for s using ne(2) that by (simp add: sessions_find_None)
  show "i \<noteq> 0" by (rule ne)
  show none: "sessions_get ss i = None" using fresh by (simp add: sessions_get_None)
  show "length ss' = length ss" by (simp add: ss')
  show mem: "Some s \<in> set ss' \<longleftrightarrow> Some s \<in> set ss \<or> s = session_new i c" for s
    unfolding ss'' sp(1) by auto
  show "sessions_live ss' = sessions_live ss + 1"
    unfolding ss'' sp(1) by (simp add: sessions_live_def)
  have slot: "slot < length ss" "ss ! slot = None" using sp by auto
  show inv': "sessions_inv ss'"
    unfolding sessions_inv_def
  proof (intro conjI allI impI)
    fix p q s t
    assume pq: "p < length ss'" "q < length ss'" and e: "ss' ! p = Some s" "ss' ! q = Some t" "s_id s = s_id t"
    have nth: "ss' ! k = (if k = slot then Some (session_new i c) else ss ! k)" for k
      using slot by (simp add: ss')
    have "s_id s' \<noteq> i" if "k < length ss" "ss ! k = Some s'" for k s'
      using fresh that by (metis nth_mem)
    moreover have "p < length ss" "q < length ss" using pq by (simp_all add: ss')
    moreover have "s_id (session_new i c) = i" by (simp add: session_new_def)
    ultimately show "p = q"
      using e inv unfolding nth sessions_inv_def by (cases "p = slot"; cases "q = slot") auto
  next
    fix s assume "Some s \<in> set ss'"
    then show "s_id s \<noteq> 0" using inv ne(1) by (auto simp: mem sessions_inv_def session_new_def)
  qed
  have "sessions_get ss' j = Some s \<longleftrightarrow> ((sessions_get ss)(i \<mapsto> session_new i c)) j = Some s" for j s
    using fresh by (auto simp: sessions_get_iff [OF inv'] sessions_get_iff [OF inv] mem session_new_def)
  then show "sessions_get ss' = (sessions_get ss)(i \<mapsto> session_new i c)"
    by (intro ext) (metis not_Some_eq)
qed

lemma adopt_refused: "adopt i c ss = (Inl e, ss') \<Longrightarrow> ss' = ss \<and> e = Refused"
  by (auto simp: adopt_def split: if_splits option.splits)

lemma adopt_refused_iff:
  "fst (adopt i c ss) = Inl Refused \<longleftrightarrow> i = 0 \<or> sessions_get ss i \<noteq> None \<or> sessions_live ss = length ss"
proof -
  have "sessions_live ss = length ss \<longleftrightarrow> position (\<lambda>s. s = None) ss = None"
    unfolding position_None sessions_live_def
  proof (induction ss)
    case (Cons x ss)
    have "length (filter (\<lambda>s. \<exists>y. s = Some y) ss) \<noteq> Suc (length ss)"
      using length_filter_le [of "\<lambda>s. \<exists>y. s = Some y" ss] by linarith
    with Cons show ?case by auto
  qed simp
  then show ?thesis
    using sessions_find_None [of ss i] sessions_get_None [of ss i]
    by (auto simp: adopt_def split: option.splits)
qed

lemma destroy_ok:
  assumes inv: "sessions_inv ss" and run: "destroy i ss = (Inr s, ss')"
  shows "sessions_inv ss' \<and> sessions_get ss i = Some s \<and> sessions_get ss' = (sessions_get ss)(i := None) \<and>
    length ss' = length ss"
proof -
  from run obtain slot where f: "sessions_find ss i = Some slot" "ss ! slot = Some s"
    and ss': "ss' = ss[slot := None]" by (auto simp: destroy_def split: option.splits)
  from sessions_find_Some [OF f(1)] f(2) have slot: "slot < length ss" "s_id s = i" by auto
  have only: "p = slot" if "p < length ss" "ss ! p = Some t" "s_id t = i" for p t
    using inv slot f(2) that unfolding sessions_inv_def by metis
  have mem: "Some t \<in> set ss' \<longleftrightarrow> Some t \<in> set ss \<and> s_id t \<noteq> i" for t
  proof
    assume "Some t \<in> set ss'"
    then obtain p where p: "p < length ss" "p \<noteq> slot" "ss ! p = Some t"
      using slot(1) unfolding ss' in_set_conv_nth by (auto simp: nth_list_update split: if_splits)
    with only [of p t] show "Some t \<in> set ss \<and> s_id t \<noteq> i" by (metis nth_mem)
  next
    assume t: "Some t \<in> set ss \<and> s_id t \<noteq> i"
    then obtain p where p: "p < length ss" "ss ! p = Some t" by (auto simp: in_set_conv_nth)
    with t slot f(2) have "p \<noteq> slot" by auto
    with p show "Some t \<in> set ss'" unfolding ss' in_set_conv_nth by (intro exI [of _ p]) simp
  qed
  have inv': "sessions_inv ss'"
    using inv slot(1) unfolding sessions_inv_def
    by (auto simp: mem) (auto simp: ss' nth_list_update split: if_splits)
  have "sessions_get ss' j = Some t \<longleftrightarrow> ((sessions_get ss)(i := None)) j = Some t" for j t
    by (auto simp: sessions_get_iff [OF inv'] sessions_get_iff [OF inv] mem)
  then have "sessions_get ss' = (sessions_get ss)(i := None)" by (intro ext) (metis not_Some_eq)
  with inv' f show ?thesis by (simp add: sessions_get_def ss')
qed

lemma destroy_unknown: "destroy i ss = (Inl e, ss') \<Longrightarrow> ss' = ss \<and> sessions_get ss i = None \<and> e = BadObject"
  using sessions_find_Some [of ss i] by (auto simp: destroy_def sessions_get_def split: option.splits)

section \<open>Accounts\<close>

lemma charged_facts [simp]:
  "s_id (charged after p s) = s_id s" "s_contract (charged after p s) = s_contract s"
  "s_resident (charged after p s) = after" "worse (s_delivered s) (s_delivered (charged after p s))"
  by (auto simp: charged_def worse_def)

lemma charge_cases:
  assumes "sessions_inv ss"
  obtains (unknown) "sessions_get ss owner = None" "charge owner sz p ss = (Inr (), ss)"
  | (refused) s where "sessions_get ss owner = Some s" "c_resident_ceiling (s_contract s) \<noteq> 0"
      "c_resident_ceiling (s_contract s) < s_resident s + sz" "charge owner sz p ss = (Inl Refused, ss)"
  | (counted) s where "sessions_get ss owner = Some s"
      "c_resident_ceiling (s_contract s) \<noteq> 0 \<longrightarrow> s_resident s + sz \<le> c_resident_ceiling (s_contract s)"
      "charge owner sz p ss = (Inr (), sessions_update owner (charged (s_resident s + sz) p) ss)"
proof (cases "sessions_get ss owner")
  case (Some s)
  then show ?thesis
    by (cases "c_resident_ceiling (s_contract s) \<noteq> 0 \<and> c_resident_ceiling (s_contract s) < s_resident s + sz")
      (auto simp: charge_def Let_def intro: that(2) that(3) [of s])
qed (simp add: charge_def that(1))

lemma charge_good:
  assumes "sessions_inv ss"
  shows "sessions_inv (snd (charge owner sz p ss))"
  using assms by (cases rule: charge_cases [of ss owner sz p]) (simp_all add: assms book.update_good)

lemma credit_good: "sessions_inv ss \<Longrightarrow> sessions_inv (credit owner sz ss)"
  by (simp add: credit_def book.update_good)

lemma took_good: "sessions_inv ss \<Longrightarrow> sessions_inv (took owner period ss)"
  by (simp add: took_def book.update_good)

lemma accounts_ok_get:
  assumes "sessions_inv ss"
  shows "accounts_ok ss \<longleftrightarrow> (\<forall>i s. sessions_get ss i = Some s \<longrightarrow> within_ceiling s)"
  using sessions_get_iff [OF assms] by (auto simp: accounts_ok_def)

lemma charge_length [simp]: "length (snd (charge owner sz p ss)) = length ss"
  by (auto simp: charge_def Let_def split: option.splits)

lemma credit_length [simp]: "length (credit owner sz ss) = length ss"
  by (simp add: credit_def)

section \<open>A session table at work\<close>

text \<open>One step of the table: any of its operations, with any arguments and any outcome.\<close>

inductive session_step :: "sessions \<Rightarrow> sessions \<Rightarrow> bool" where
  step_create: "session_step ss (snd (create c ss))"
| step_adopt: "session_step ss (snd (adopt i c ss))"
| step_destroy: "session_step ss (snd (destroy i ss))"
| step_charge: "session_step ss (snd (charge i sz p ss))"
| step_credit: "session_step ss (credit i sz ss)"
| step_took: "session_step ss (took i period ss)"

inductive_cases session_stepE: "session_step ss ss'"

lemma adopt_step:
  assumes "sessions_inv ss" "accounts_ok ss"
  shows "sessions_inv (snd (adopt i c ss)) \<and> accounts_ok (snd (adopt i c ss)) \<and>
    length (snd (adopt i c ss)) = length ss \<and>
    (\<forall>j s s'. sessions_get ss j = Some s \<longrightarrow> sessions_get (snd (adopt i c ss)) j = Some s' \<longrightarrow> s' = s)"
proof (cases "adopt i c ss")
  case (Pair r ss')
  show ?thesis
  proof (cases r)
    case (Inl e)
    with Pair adopt_refused assms show ?thesis by fastforce
  next
    case (Inr u)
    note ok = adopt_ok [OF assms(1), of i c u ss'] 
    have run: "adopt i c ss = (Inr u, ss')" using Pair Inr by simp
    have "accounts_ok ss'"
      using assms(2) ok(6) [OF run] by (auto simp: accounts_ok_def within_ceiling_def session_new_def)
    with ok(1,3-5) [OF run] Pair show ?thesis by auto
  qed
qed

lemma create_snd: "\<exists>i. snd (create c ss) = snd (adopt i c ss) \<or> snd (create c ss) = ss"
  by (auto simp: create_def split: option.splits prod.splits sum.splits) (metis snd_conv)+

lemma update_step:
  assumes "sessions_inv ss" "accounts_ok ss" "\<And>s. s_id (f s) = s_id s"
    and "\<And>s. sessions_get ss i = Some s \<Longrightarrow> within_ceiling (f s)"
    and "\<And>s. worse (s_delivered s) (s_delivered (f s))"
  shows "sessions_inv (sessions_update i f ss) \<and> accounts_ok (sessions_update i f ss) \<and>
    (\<forall>j s s'. sessions_get ss j = Some s \<longrightarrow> sessions_get (sessions_update i f ss) j = Some s' \<longrightarrow>
       worse (s_delivered s) (s_delivered s'))"
proof -
  have inv': "sessions_inv (sessions_update i f ss)" by (rule book.update_good [OF assms(1,3)])
  have "within_ceiling s'" if "sessions_get (sessions_update i f ss) j = Some s'" for j s'
    using book.update_all [OF assms(1,3) _ _ that, of within_ceiling] assms(2,4)
    by (simp add: accounts_ok_get [OF assms(1)])
  with inv' show ?thesis
    using book.update_rel [OF assms(1,3), of "\<lambda>s t. worse (s_delivered s) (s_delivered t)"] assms(5)
    by (fastforce simp: accounts_ok_get [OF inv'])
qed

lemma session_step_keeps:
  assumes "session_step ss ss'" "sessions_inv ss" "accounts_ok ss"
  shows "sessions_inv ss' \<and> accounts_ok ss' \<and>
    (\<forall>j s s'. sessions_get ss j = Some s \<longrightarrow> sessions_get ss' j = Some s' \<longrightarrow>
       worse (s_delivered s) (s_delivered s'))"
  using assms(1)
proof cases
  case (step_create c)
  with create_snd [of c ss] adopt_step [OF assms(2,3)] assms(2,3) show ?thesis by (metis option.inject worse_refl)
next
  case (step_adopt i c)
  with adopt_step [OF assms(2,3), of i c] show ?thesis by (metis worse_refl)
next
  case (step_destroy i)
  show ?thesis
  proof (cases "destroy i ss")
    case (Pair r ss'')
    show ?thesis
    proof (cases r)
      case (Inl e)
      with Pair step_destroy destroy_unknown [of i ss e ss''] assms(2,3) show ?thesis by simp
    next
      case (Inr s)
      with Pair destroy_ok [OF assms(2), of i s ss''] step_destroy
      have d: "sessions_inv ss'" "sessions_get ss' = (sessions_get ss)(i := None)" by simp_all
      then show ?thesis
        using assms(3) by (auto simp: accounts_ok_get [OF d(1)] accounts_ok_get [OF assms(2)] split: if_splits)
    qed
  qed
next
  case (step_charge i sz p)
  from assms(2) show ?thesis
  proof (cases rule: charge_cases [of ss i sz p])
    case (counted s)
    have "within_ceiling (charged (s_resident s + sz) p t)" if "sessions_get ss i = Some t" for t
      using counted(1,2) that by (auto simp: within_ceiling_def charged_def)
    with update_step [OF assms(2,3), of "charged (s_resident s + sz) p" i] counted(3) step_charge
    show ?thesis by simp
  qed (use step_charge assms in simp_all)
next
  case (step_credit i sz)
  have "within_ceiling (t\<lparr>s_resident := s_resident t - sz\<rparr>)" if "sessions_get ss i = Some t" for t
    using assms(2,3) that by (fastforce simp: accounts_ok_get within_ceiling_def)
  with update_step [OF assms(2,3), of "\<lambda>s. s\<lparr>s_resident := s_resident s - sz\<rparr>" i] step_credit
  show ?thesis by (simp add: credit_def)
next
  case (step_took i period)
  let ?f = "\<lambda>s. s\<lparr>s_delivered := (s_delivered s)
      \<lparr>dl_worst_period := max (dl_worst_period (s_delivered s)) period\<rparr>\<rparr>"
  have "within_ceiling (?f t)" if "sessions_get ss i = Some t" for t
    using assms(2,3) that by (fastforce simp: accounts_ok_get within_ceiling_def)
  with update_step [OF assms(2,3), of ?f i] step_took show ?thesis by (simp add: took_def worse_def)
qed

section \<open>Properties\<close>

text \<open>C12: in every state a session table reaches from empty, each id names at most one live
  session and zero none, no session holds more than its ceiling or than its recorded peak; and
  no step ever improves what a surviving session was delivered.\<close>

theorem sessions_always_accounted:
  assumes "session_step\<^sup>*\<^sup>* (sessions_empty n) ss" "session_step ss ss'"
  shows "sessions_inv ss \<and> (\<forall>s. Some s \<in> set ss \<longrightarrow> within_ceiling s) \<and>
    (\<forall>j s s'. sessions_get ss j = Some s \<longrightarrow> sessions_get ss' j = Some s' \<longrightarrow>
       worse (s_delivered s) (s_delivered s'))"
proof -
  have "sessions_inv ss \<and> accounts_ok ss"
    using assms(1)
  proof (induction rule: rtranclp_induct)
    case base
    show ?case by (auto simp: sessions_inv_def accounts_ok_def sessions_empty_def)
  next
    case (step y z)
    with session_step_keeps [of y z] show ?case by blast
  qed
  with session_step_keeps [OF assms(2)] show ?thesis by (simp add: accounts_ok_def)
qed

lemma sessions_always_accounted_witness:
  "\<exists>ss. session_step\<^sup>*\<^sup>* (sessions_empty 2) ss \<and> sessions_live ss = 1 \<and> sessions_inv ss"
proof -
  let ?ss = "snd (adopt 3 contract_none (sessions_empty 2))"
  have r: "session_step\<^sup>*\<^sup>* (sessions_empty 2) ?ss" by (rule r_into_rtranclp) (rule step_adopt)
  have "sessions_live ?ss = 1"
    by (simp add: adopt_def sessions_empty_def sessions_find_def sessions_live_def numeral_2_eq_2)
  moreover have "sessions_inv ?ss"
    using sessions_always_accounted [OF r step_took [of ?ss 3 0]] by simp
  ultimately show ?thesis using r by blast
qed

lemma lowest_free_Some:
  "lowest_free ss k = Some i \<Longrightarrow> k \<le> i \<and> i \<le> 65535 \<and> sessions_find ss i = None \<and>
     (\<forall>j. k \<le> j \<and> j < i \<longrightarrow> sessions_find ss j \<noteq> None)"
proof (induction ss k rule: lowest_free.induct)
  case (1 ss k)
  show ?case
  proof (cases "sessions_find ss k = None")
    case True
    with 1(2) have "i = k" "k \<le> 65535" by (auto simp: lowest_free.simps [of ss k] split: if_splits)
    with True show ?thesis by auto
  next
    case False
    with 1(2) have k: "\<not> 65535 < k" "lowest_free ss (k + 1) = Some i"
      by (auto simp: lowest_free.simps [of ss k] split: if_splits)
    from 1(1) [OF k(1) False k(2)] have IH: "k + 1 \<le> i \<and> i \<le> 65535 \<and> sessions_find ss i = None \<and>
        (\<forall>j. k + 1 \<le> j \<and> j < i \<longrightarrow> sessions_find ss j \<noteq> None)" .
    then have "sessions_find ss j \<noteq> None" if "k \<le> j" "j < i" for j
      using that False by (cases "j = k") auto
    with IH show ?thesis by simp
  qed
qed

lemma lowest_free_None:
  "lowest_free ss k = None \<Longrightarrow> \<forall>j. k \<le> j \<and> j \<le> 65535 \<longrightarrow> sessions_find ss j \<noteq> None"
proof (induction ss k rule: lowest_free.induct)
  case (1 ss k)
  show ?case
  proof (cases "65535 < k")
    case False
    with 1(2) have k: "sessions_find ss k \<noteq> None" "lowest_free ss (k + 1) = None"
      by (auto simp: lowest_free.simps [of ss k] split: if_splits)
    from 1(1) [OF False k] have IH: "\<forall>j. k + 1 \<le> j \<and> j \<le> 65535 \<longrightarrow> sessions_find ss j \<noteq> None" .
    show ?thesis
    proof (intro allI impI)
      fix j assume "k \<le> j \<and> j \<le> 65535"
      then show "sessions_find ss j \<noteq> None" using k(1) IH by (cases "j = k") auto
    qed
  qed auto
qed

lemma ids_subset: "{i. sessions_find ss i \<noteq> None} \<subseteq> (\<lambda>s. s_id (the s)) ` set ss"
  unfolding sessions_find_None by (auto intro: rev_image_eqI)

lemma ids_bounded: "card {i. sessions_find ss i \<noteq> None} \<le> length ss"
proof -
  have "card {i. sessions_find ss i \<noteq> None} \<le> card ((\<lambda>s. s_id (the s)) ` set ss)"
    by (intro card_mono ids_subset) auto
  also have "\<dots> \<le> length ss" by (meson card_image_le card_length le_trans List.finite_set)
  finally show ?thesis .
qed

text \<open>Creating gives the lowest id from one upward that no live session has, to a session
  that holds nothing yet, and touches no other; it is refused, with nothing changed, exactly
  when every slot is taken.\<close>

theorem create_lowest_free:
  assumes "sessions_inv ss" "length ss < 65535"
  shows "case create c ss of
      (Inr i, ss') \<Rightarrow> 1 \<le> i \<and> i \<le> 65535 \<and> sessions_get ss i = None \<and>
        (\<forall>j. 1 \<le> j \<and> j < i \<longrightarrow> sessions_get ss j \<noteq> None) \<and> sessions_live ss < length ss \<and>
        sessions_get ss' = (sessions_get ss)(i \<mapsto> session_new i c) \<and> sessions_inv ss'
    | (Inl e, ss') \<Rightarrow> e = Refused \<and> ss' = ss \<and> sessions_live ss = length ss"
proof (cases "lowest_free ss 1")
  case None
  then have "{1..65535} \<subseteq> {i. sessions_find ss i \<noteq> None}" using lowest_free_None [OF None] by auto
  moreover have "finite {i. sessions_find ss i \<noteq> None}"
    by (rule finite_subset [OF ids_subset]) simp
  ultimately have "card {1..65535::nat} \<le> length ss"
    using ids_bounded [of ss] card_mono le_trans by blast
  with assms(2) show ?thesis by simp
next
  case (Some i)
  note i = lowest_free_Some [OF Some]
  have g: "sessions_find ss j = None \<longleftrightarrow> sessions_get ss j = None" for j
    using sessions_find_None [of ss j] sessions_get_None [of ss j] by blast
  show ?thesis
  proof (cases "adopt i c ss")
    case (Pair r ss')
    show ?thesis
    proof (cases r)
      case (Inl e)
      have "sessions_live ss = length ss"
        using adopt_refused_iff [of i c ss] adopt_refused [of i c ss e ss'] Pair Inl i g by auto
      then show ?thesis using Pair Inl Some adopt_refused [of i c ss e ss'] by (simp add: create_def)
    next
      case (Inr u)
      have run: "adopt i c ss = (Inr u, ss')" using Pair Inr by simp
      have "sessions_live ss \<noteq> length ss"
        using adopt_refused_iff [of i c ss] run by auto
      moreover have "sessions_live ss \<le> length ss"
        by (simp add: sessions_live_def)
      ultimately show ?thesis
        using adopt_ok(1,4) [OF assms(1) run] run Some i g by (simp add: create_def)
    qed
  qed
qed

lemma create_lowest_free_witness:
  "fst (create contract_none [Some (session_new 1 contract_none), None]) = Inr 2"
proof -
  let ?ss = "[Some (session_new 1 contract_none), None]"
  have inv: "sessions_inv ?ss"
    by (auto simp: sessions_inv_def session_new_def less_Suc_eq)
  have f: "sessions_find ?ss 1 = Some 0" "sessions_find ?ss 2 = None"
    by (simp_all add: sessions_find_def session_new_def)
  have "lowest_free ?ss 1 = (if 65535 < (1::nat) then None
      else if sessions_find ?ss 1 = None then Some 1 else lowest_free ?ss (1 + 1))"
    by (rule lowest_free.simps)
  also have "\<dots> = lowest_free ?ss 2" using f(1) by (simp add: numeral_2_eq_2)
  also have "\<dots> = (if 65535 < (2::nat) then None
      else if sessions_find ?ss 2 = None then Some 2 else lowest_free ?ss (2 + 1))"
    by (rule lowest_free.simps)
  also have "\<dots> = Some 2" using f(2) by simp
  finally have l: "lowest_free ?ss 1 = Some 2" .
  have "fst (create contract_none ?ss) = Inr 2"
    using l by (simp add: create_def adopt_def sessions_find_def session_new_def)
  with create_lowest_free [OF inv, of contract_none] show ?thesis by simp
qed

text \<open>A charge is refused exactly when the owner is known, has a ceiling, and the bytes
  would pass it, and then nothing is counted; otherwise the owner's account grows by exactly
  those bytes and no other session's record changes.\<close>

theorem charge_exact:
  assumes "sessions_inv ss"
  shows "case charge owner sz p ss of
      (Inl e, ss') \<Rightarrow> e = Refused \<and> ss' = ss \<and>
        (\<exists>s. sessions_get ss owner = Some s \<and> c_resident_ceiling (s_contract s) \<noteq> 0 \<and>
             c_resident_ceiling (s_contract s) < s_resident s + sz)
    | (Inr _, ss') \<Rightarrow> sessions_inv ss' \<and>
        (\<forall>j. map_option s_resident (sessions_get ss' j) =
             map_option (\<lambda>s. s_resident s + (if j = owner then sz else 0)) (sessions_get ss j)) \<and>
        (\<forall>j. j \<noteq> owner \<longrightarrow> sessions_get ss' j = sessions_get ss j)"
  using assms
proof (cases rule: charge_cases [of ss owner sz p])
  case (counted s)
  let ?f = "charged (s_resident s + sz) p"
  have g: "sessions_get (sessions_update owner ?f ss) j =
      (if j = owner then map_option ?f (sessions_get ss owner) else sessions_get ss j)" for j
    by (rule book.get_update [OF assms]) simp
  have "sessions_inv (sessions_update owner ?f ss)" by (rule book.update_good [OF assms]) simp
  with counted g show ?thesis by (auto simp: option.map_comp)
qed (use assms in \<open>auto simp: option.map_ident_strong\<close>)

lemma charge_exact_witness:
  "charge 1 50 Q8 [Some (session_new 1 (contract_none\<lparr>c_resident_ceiling := 40\<rparr>))] =
     (Inl Refused, [Some (session_new 1 (contract_none\<lparr>c_resident_ceiling := 40\<rparr>))])"
proof -
  let ?ss = "[Some (session_new 1 (contract_none\<lparr>c_resident_ceiling := 40\<rparr>))]"
  have inv: "sessions_inv ?ss" by (auto simp: sessions_inv_def session_new_def)
  have "fst (charge 1 50 Q8 ?ss) = Inl Refused"
    by (simp add: charge_def sessions_get_def sessions_find_def session_new_def contract_none_def Let_def)
  with charge_exact [OF inv, of 1 50 Q8] show ?thesis
    by (cases "charge 1 50 Q8 ?ss") simp
qed

end
