(* ===== verification/Admit.thy ===== *)
theory Admit
  imports Session "HOL-Library.Multiset"
begin

text \<open>
  crates/mlos-admit: whether a budget can honour one more contract beside the ones already live,
  in slots, in bytes and in latency. The lemmas show what admission is for: in any state reached
  by admitting before creating, the bytes promised fit and every latency ceiling covers the
  tokens that may run ahead of it.
\<close>

section \<open>Capacity and refusals (lib.rs, refusal.rs)\<close>

record capacity =
  cp_bytes :: nat
  cp_reserved :: nat
  cp_kv_per_token :: nat
  cp_token :: nat

definition capacity_none :: capacity where
  "capacity_none = \<lparr>cp_bytes = 0, cp_reserved = 0, cp_kv_per_token = 0, cp_token = 0\<rparr>"

text \<open>The figures of a refusal, in the source's order: \<open>Ceiling\<close> its ceiling and the need,
  \<open>Bytes\<close> the need and what is free, \<open>Latency\<close> the ceiling and the least that could be kept.\<close>

datatype refusal = Slots | Ceiling nat nat | Bytes nat nat | Latency nat nat

fun err_of_refusal :: "refusal \<Rightarrow> err" where
  "err_of_refusal r = Refused"

definition need :: "capacity \<Rightarrow> contract \<Rightarrow> nat" where
  "need cap c = sat_mul 64 (c_context c) (cp_kv_per_token cap)"

definition promised_bytes :: "capacity \<Rightarrow> sessions \<Rightarrow> nat" where
  "promised_bytes cap live = foldl (sat_add 64) 0 (map (\<lambda>s. need cap (s_contract s)) (each live))"

definition free_bytes :: "capacity \<Rightarrow> sessions \<Rightarrow> nat" where
  "free_bytes cap live = cp_bytes cap - cp_reserved cap - promised_bytes cap live"

section \<open>The latency half (latency.rs)\<close>

definition ceilings :: "sessions \<Rightarrow> nat list" where
  "ceilings live = filter (\<lambda>c. c \<noteq> 0) (map (\<lambda>s. c_latency_ceiling (s_contract s)) (each live))"

fun list_min :: "nat list \<Rightarrow> nat option" where
  "list_min [] = None"
| "list_min (x # xs) = Some (foldl min x xs)"

definition promised_latency :: "sessions \<Rightarrow> nat \<Rightarrow> nat \<times> nat" where
  "promised_latency live ceiling =
     (min (case list_min (ceilings live) of None \<Rightarrow> umax 32 | Some m \<Rightarrow> m) ceiling,
      length (ceilings live))"

definition wait :: "capacity \<Rightarrow> sessions \<Rightarrow> contract \<Rightarrow> refusal + unit" where
  "wait cap live c =
     (let token = cp_token cap; ceiling = c_latency_ceiling c in
      if token = 0 \<or> ceiling = 0 then Inr ()
      else let least = token div 4 in
        if ceiling < least then Inl (Latency ceiling least)
        else case promised_latency live ceiling of
          (tightest, ahead) \<Rightarrow>
            let least = sat_mul 32 token ahead in
            if tightest < least then Inl (Latency tightest least) else Inr ())"

definition admit :: "capacity \<Rightarrow> sessions \<Rightarrow> contract \<Rightarrow> refusal + unit" where
  "admit cap live c =
     (if length live \<le> sessions_live live then Inl Slots
      else let n = need cap c; ceiling = c_resident_ceiling c in
        if ceiling \<noteq> 0 \<and> ceiling < n then Inl (Ceiling ceiling n)
        else let free = free_bytes cap live in
          if cp_bytes cap \<noteq> 0 \<and> free < n then Inl (Bytes n free)
          else wait cap live c)"

text \<open>How many sessions like the live ones the budget admits.\<close>

definition admits :: "capacity \<Rightarrow> sessions \<Rightarrow> nat" where
  "admits cap live =
     (let promised = promised_bytes cap live; room = cp_bytes cap - cp_reserved cap in
      case checked_div (sat_mul 64 room (sessions_live live)) promised of
        Some fit \<Rightarrow>
          if cp_bytes cap \<noteq> 0 \<and> promised \<noteq> 0 then (if fit \<le> umax 32 then fit else umax 32)
          else sessions_live live
      | None \<Rightarrow> sessions_live live)"

section \<open>The contracts that are live\<close>

definition contracts :: "sessions \<Rightarrow> contract multiset" where
  "contracts ss = image_mset s_contract (mset (each ss))"

lemma each_append [simp]: "each (us @ vs) = each us @ each vs"
  by (simp add: each_def List.map_filter_def)

lemma each_simps [simp]: "each [] = []" "each (None # ss) = each ss" "each (Some s # ss) = s # each ss"
  by (simp_all add: each_def List.map_filter_def)

lemma contracts_adopt:
  assumes "adopt i c ss = (Inr u, ss')"
  shows "contracts ss' = add_mset c (contracts ss)"
proof -
  from assms obtain slot where pos: "position (\<lambda>s. s = None) ss = Some slot"
    and ss': "ss' = ss[slot := Some (session_new i c)]"
    by (auto simp: adopt_def split: if_splits option.splits)
  from position_split [OF pos] obtain us vs where sp: "ss = us @ None # vs" "length us = slot" by auto
  have "ss' = us @ Some (session_new i c) # vs"
    unfolding ss' sp(1) sp(2) [symmetric] by (rule list_update_length)
  with sp(1) show ?thesis by (simp add: contracts_def session_new_def)
qed

lemma contracts_set_nth:
  assumes "p < length ss" "ss ! p = Some s"
  shows "contracts ss = add_mset (s_contract s) (contracts (ss[p := None]))"
    and "contracts (ss[p := Some t]) = add_mset (s_contract t) (contracts (ss[p := None]))"
proof -
  obtain us vs where sp: "ss = us @ Some s # vs" "length us = p"
    using assms id_take_nth_drop [OF assms(1)] by (metis length_take less_imp_le min.absorb2)
  then have "ss[p := x] = us @ x # vs" for x by (auto simp: list_update_append)
  with sp(1) show "contracts ss = add_mset (s_contract s) (contracts (ss[p := None]))"
    "contracts (ss[p := Some t]) = add_mset (s_contract t) (contracts (ss[p := None]))"
    by (simp_all add: contracts_def)
qed

lemma contracts_update:
  assumes "\<And>s. s_contract (f s) = s_contract s"
  shows "contracts (sessions_update i f ss) = contracts ss"
proof (cases "sessions_find ss i")
  case (Some p)
  from sessions_find_Some [OF this] obtain s where p: "p < length ss" "ss ! p = Some s" by blast
  with Some contracts_set_nth(1) [OF p] contracts_set_nth(2) [OF p, of "f s"] assms
  show ?thesis by (simp add: sessions_update_def)
qed (simp add: sessions_update_def)

lemma contracts_destroy: "contracts (snd (destroy i ss)) \<subseteq># contracts ss"
proof (cases "sessions_find ss i")
  case (Some p)
  from sessions_find_Some [OF this] obtain s where "p < length ss" "ss ! p = Some s" by blast
  with Some contracts_set_nth(1) [of p ss s] show ?thesis by (simp add: destroy_def)
qed (simp add: destroy_def)

lemma contracts_charge: "contracts (snd (charge i sz p ss)) = contracts ss"
  by (auto simp: charge_def Let_def contracts_update split: option.splits)

section \<open>What admission promises\<close>

definition latency_set :: "contract multiset \<Rightarrow> nat multiset" where
  "latency_set C = filter_mset (\<lambda>c. c \<noteq> 0) (image_mset c_latency_ceiling C)"

definition honoured :: "capacity \<Rightarrow> contract multiset \<Rightarrow> bool" where
  "honoured cap C \<longleftrightarrow>
     (cp_bytes cap \<noteq> 0 \<longrightarrow>
        sum_mset (image_mset (\<lambda>c. c_context c * cp_kv_per_token cap) C) \<le> cp_bytes cap - cp_reserved cap) \<and>
     (cp_token cap \<noteq> 0 \<longrightarrow>
        (\<forall>l \<in># latency_set C. cp_token cap div 4 \<le> l \<and>
           sat_mul 32 (cp_token cap) (size (latency_set C) - 1) \<le> l))"

lemma foldl_sat_add:
  "foldl (sat_add w) a xs = (if xs = [] then a else min (a + sum_list xs) (umax w))"
proof (induction xs arbitrary: a)
  case (Cons x xs)
  then show ?case by (cases "xs = []") (auto simp: sat_add_def min_def)
qed simp

lemma foldl_min: "foldl min (x::nat) xs \<le> y \<longleftrightarrow> x \<le> y \<or> (\<exists>z \<in> set xs. z \<le> y)"
  by (induction xs arbitrary: x) (auto simp: min_le_iff_disj)

lemma foldl_min_le: "foldl min (x::nat) xs \<le> x" "z \<in> set xs \<Longrightarrow> foldl min x xs \<le> z"
  by (simp_all add: foldl_min) blast

lemma tightest_le:
  "fst (promised_latency live ceiling) \<le> ceiling"
  "l \<in> set (ceilings live) \<Longrightarrow> fst (promised_latency live ceiling) \<le> l"
  by (auto simp: promised_latency_def min_le_iff_disj foldl_min_le split: option.splits
      elim!: list_min.elims)

lemma latency_set_ceilings: "latency_set (contracts ss) = mset (ceilings ss)"
  by (simp add: latency_set_def contracts_def ceilings_def image_mset.compositionality comp_def)

lemma honoured_subset:
  assumes "honoured cap C" "D \<subseteq># C"
  shows "honoured cap D"
proof -
  have ls: "latency_set D \<subseteq># latency_set C"
    using assms(2) by (simp add: latency_set_def image_mset_subseteq_mono multiset_filter_mono)
  then have "size (latency_set D) - 1 \<le> size (latency_set C) - 1" using size_mset_mono by fastforce
  then have "sat_mul 32 (cp_token cap) (size (latency_set D) - 1) \<le>
      sat_mul 32 (cp_token cap) (size (latency_set C) - 1)" by (intro sat_mul_mono) auto
  moreover have "sum_mset (image_mset f D) \<le> sum_mset (image_mset f C)" for f :: "contract \<Rightarrow> nat"
    using assms(2) by (metis image_mset_subseteq_mono le_add1 subset_mset.add_diff_inverse sum_mset.union)
  ultimately show ?thesis
    using assms(1) mset_subset_eqD [OF ls] unfolding honoured_def by (meson le_trans)
qed

lemma admit_ok:
  assumes "admit cap ss c = Inr ()"
  shows "sessions_live ss < length ss"
    and "c_resident_ceiling c \<noteq> 0 \<longrightarrow> need cap c \<le> c_resident_ceiling c"
    and "cp_bytes cap \<noteq> 0 \<longrightarrow> need cap c \<le> free_bytes cap ss"
    and "wait cap ss c = Inr ()"
  using assms by (auto simp: admit_def Let_def split: if_splits)

lemma admit_honours:
  assumes adm: "admit cap ss c = Inr ()" and hon: "honoured cap (contracts ss)"
    and small: "cp_bytes cap < umax 64"
  shows "honoured cap (add_mset c (contracts ss))"
  unfolding honoured_def
proof (intro conjI impI)
  assume b: "cp_bytes cap \<noteq> 0"
  let ?room = "cp_bytes cap - cp_reserved cap"
  let ?exact = "\<lambda>c. c_context c * cp_kv_per_token cap"
  have sum: "sum_mset (image_mset ?exact (contracts ss)) \<le> ?room" using hon b by (simp add: honoured_def)
  have each: "?exact (s_contract s) \<le> ?room" if "s \<in> set (each ss)" for s
  proof -
    have "s_contract s \<in># contracts ss" using that by (auto simp: contracts_def)
    then obtain D where "contracts ss = add_mset (s_contract s) D" by (metis multi_member_split)
    then have "?exact (s_contract s) \<le> sum_mset (image_mset ?exact (contracts ss))" by simp
    with sum show ?thesis by linarith
  qed
  have exact: "need cap (s_contract s) = ?exact (s_contract s)" if "s \<in> set (each ss)" for s
    using each [OF that] small by (simp add: need_def sat_mul_def)
  have "map (\<lambda>s. need cap (s_contract s)) (each ss) = map (\<lambda>s. ?exact (s_contract s)) (each ss)"
    using exact by simp
  then have "sum_list (map (\<lambda>s. need cap (s_contract s)) (each ss)) =
      sum_list (map (\<lambda>s. ?exact (s_contract s)) (each ss))" by (rule arg_cong)
  also have "\<dots> = sum_mset (image_mset ?exact (contracts ss))"
    by (simp add: contracts_def image_mset.compositionality comp_def flip: sum_mset_sum_list mset_map)
  finally have "sum_list (map (\<lambda>s. need cap (s_contract s)) (each ss)) =
      sum_mset (image_mset ?exact (contracts ss))" .
  then have "promised_bytes cap ss = sum_mset (image_mset ?exact (contracts ss))"
    using sum small by (simp add: promised_bytes_def foldl_sat_add contracts_def)
  with admit_ok(3) [OF adm] b sum have n: "need cap c + sum_mset (image_mset ?exact (contracts ss)) \<le> ?room"
    by (simp add: free_bytes_def)
  then have "need cap c = ?exact c" using small by (auto simp: need_def sat_mul_def min_def split: if_splits)
  with n show "sum_mset (image_mset ?exact (add_mset c (contracts ss))) \<le> ?room" by simp
next
  assume t: "cp_token cap \<noteq> 0"
  let ?L = "latency_set (contracts ss)" and ?l = "c_latency_ceiling c"
  have old: "\<forall>l \<in># ?L. cp_token cap div 4 \<le> l \<and> sat_mul 32 (cp_token cap) (size ?L - 1) \<le> l"
    using hon t by (simp add: honoured_def)
  show "\<forall>l \<in># latency_set (add_mset c (contracts ss)). cp_token cap div 4 \<le> l \<and>
      sat_mul 32 (cp_token cap) (size (latency_set (add_mset c (contracts ss))) - 1) \<le> l"
  proof (cases "?l = 0")
    case True
    then have "latency_set (add_mset c (contracts ss)) = ?L" by (simp add: latency_set_def)
    with old show ?thesis by simp
  next
    case False
    then have L: "latency_set (add_mset c (contracts ss)) = add_mset ?l ?L" by (simp add: latency_set_def)
    have w: "cp_token cap div 4 \<le> ?l"
      "sat_mul 32 (cp_token cap) (length (ceilings ss)) \<le> fst (promised_latency ss ?l)"
      using admit_ok(4) [OF adm] t False
      by (auto simp: wait_def Let_def promised_latency_def split: if_splits prod.splits)
    have sz: "size ?L = length (ceilings ss)" by (simp add: latency_set_ceilings)
    have "sat_mul 32 (cp_token cap) (size ?L) \<le> l" if "l \<in># add_mset ?l ?L" for l
      using that w(2) tightest_le(1) [of ss ?l] tightest_le(2) [of _ ss ?l] sz by (auto simp: latency_set_ceilings intro: order_trans)
    with w(1) old L show ?thesis by auto
  qed
qed

section \<open>Sessions that were admitted\<close>

text \<open>A session table that is only created into after admission said yes.\<close>

inductive admitted_step :: "capacity \<Rightarrow> sessions \<Rightarrow> sessions \<Rightarrow> bool" for cap where
  adm_create: "admit cap ss c = Inr () \<Longrightarrow> admitted_step cap ss (snd (create c ss))"
| adm_destroy: "admitted_step cap ss (snd (destroy i ss))"
| adm_charge: "admitted_step cap ss (snd (charge i sz p ss))"
| adm_credit: "admitted_step cap ss (credit i sz ss)"
| adm_took: "admitted_step cap ss (took i period ss)"

inductive_cases admitted_stepE: "admitted_step cap ss ss'"

lemma admitted_is_step: "admitted_step cap ss ss' \<Longrightarrow> session_step ss ss'"
  by (erule admitted_stepE) (auto intro: session_step.intros)

lemma contracts_create:
  "contracts (snd (create c ss)) = contracts ss \<or>
   contracts (snd (create c ss)) = add_mset c (contracts ss)"
proof (cases "lowest_free ss 1")
  case (Some i)
  show ?thesis
  proof (cases "adopt i c ss")
    case (Pair r ss')
    with Some contracts_adopt [of i c ss _ ss'] adopt_refused [of i c ss _ ss']
    show ?thesis by (cases r) (auto simp: create_def)
  qed
qed (simp add: create_def)

lemma admitted_step_honours:
  assumes "admitted_step cap ss ss'" "honoured cap (contracts ss)" "cp_bytes cap < umax 64"
  shows "honoured cap (contracts ss')"
  using assms(1)
proof (rule admitted_stepE)
  fix c assume "ss' = snd (create c ss)" "admit cap ss c = Inr ()"
  then show ?thesis using contracts_create [of c ss] admit_honours assms(2,3) by metis
next
  fix i assume "ss' = snd (destroy i ss)"
  then show ?thesis using honoured_subset [OF assms(2) contracts_destroy] by simp
qed (use assms(2) in \<open>simp_all add: contracts_charge credit_def took_def contracts_update\<close>)

text \<open>C11: however sessions come and go, if none is created without being admitted, then the
  bytes the live contracts declared fit the budget beside what is reserved, and every declared
  latency ceiling covers a quarter token and the tokens of all other declared ones.\<close>

theorem admission_is_honoured:
  assumes "(admitted_step cap)\<^sup>*\<^sup>* (sessions_empty n) ss" "cp_bytes cap < umax 64"
  shows "honoured cap (contracts ss)"
  using assms(1)
proof (induction rule: rtranclp_induct)
  case base
  have "each (sessions_empty n) = []" by (induction n) (auto simp: sessions_empty_def)
  then show ?case by (simp add: honoured_def contracts_def latency_set_def)
next
  case (step y z)
  with admitted_step_honours assms(2) show ?case by blast
qed

lemma admission_is_honoured_witness:
  "honoured \<lparr>cp_bytes = 100, cp_reserved = 10, cp_kv_per_token = 2, cp_token = 8\<rparr>
     (contracts (snd (create \<lparr>c_quality_floor = Ternary, c_latency_ceiling = 5, c_resident_ceiling = 0,
        c_context = 40\<rparr> (sessions_empty 2))))"
proof -
  let ?cap = "\<lparr>cp_bytes = 100, cp_reserved = 10, cp_kv_per_token = 2, cp_token = 8\<rparr>"
  let ?c = "\<lparr>c_quality_floor = Ternary, c_latency_ceiling = 5, c_resident_ceiling = 0, c_context = 40\<rparr>"
  have "admit ?cap (sessions_empty 2) ?c = Inr ()"
    by (simp add: admit_def sessions_empty_def sessions_live_def need_def sat_mul_def free_bytes_def
        promised_bytes_def numeral_2_eq_2 wait_def promised_latency_def ceilings_def Let_def)
  then have "(admitted_step ?cap)\<^sup>*\<^sup>* (sessions_empty 2) (snd (create ?c (sessions_empty 2)))"
    by (intro r_into_rtranclp adm_create)
  from admission_is_honoured [OF this] show ?thesis by simp
qed

text \<open>What a refusal says is true. It names a slot shortage, a ceiling of the contract
  below its own need, more bytes needed than are unpromised, or a latency ceiling, its own or
  one already promised, below the least that could be kept; and one of these being so is what
  refuses.\<close>

theorem refusal_is_accurate:
  "case admit cap live c of
     Inl Slots \<Rightarrow> length live \<le> sessions_live live
   | Inl (Ceiling ceiling n) \<Rightarrow> ceiling = c_resident_ceiling c \<and> n = need cap c \<and> ceiling < n
   | Inl (Bytes n free) \<Rightarrow> n = need cap c \<and> free = free_bytes cap live \<and> free < n
   | Inl (Latency ceiling least) \<Rightarrow>
       ceiling < least \<and> c_latency_ceiling c \<noteq> 0 \<and> cp_token cap \<noteq> 0 \<and>
       (ceiling = c_latency_ceiling c \<and> least = cp_token cap div 4 \<or>
        ceiling = fst (promised_latency live (c_latency_ceiling c)) \<and>
        least = sat_mul 32 (cp_token cap) (length (ceilings live)))
   | Inr _ \<Rightarrow> sessions_live live < length live"
  by (auto simp: admit_def wait_def Let_def promised_latency_def split: if_splits prod.splits)

end
