(* ===== verification/Metrics.thy ===== *)
theory Metrics
  imports Objtab
begin

text \<open>
  crates/mlos-metrics: the counters the object manager keeps per object class, the report read
  from them, and the headline ratios computed from a report. Counters saturate and never wrap;
  a zero denominator answers zero.
\<close>

section \<open>Counters (lib.rs)\<close>

definition CLASSES :: nat where "CLASSES = length all_classes"

record counters =
  ct_faults :: "nat list"
  ct_fetched :: "nat list"
  ct_hits :: "nat list"
  ct_held :: "nat list"
  ct_registered :: nat

definition counters_empty :: counters where
  "counters_empty =
     \<lparr>ct_faults = replicate CLASSES 0, ct_fetched = replicate CLASSES 0,
      ct_hits = replicate CLASSES 0, ct_held = replicate CLASSES 0, ct_registered = 0\<rparr>"

definition count_fault :: "object_class \<Rightarrow> nat \<Rightarrow> counters \<Rightarrow> counters" where
  "count_fault c bytes ct =
     (let k = class_index c in
      ct\<lparr>ct_faults := (ct_faults ct)[k := sat_add 32 (ct_faults ct ! k) 1],
         ct_fetched := (ct_fetched ct)[k := sat_add 64 (ct_fetched ct ! k) bytes]\<rparr>)"

definition count_hit :: "object_class \<Rightarrow> nat \<Rightarrow> counters \<Rightarrow> counters" where
  "count_hit c bytes ct =
     (let k = class_index c in
      ct\<lparr>ct_hits := (ct_hits ct)[k := sat_add 64 (ct_hits ct ! k) bytes]\<rparr>)"

definition count_registered :: "nat \<Rightarrow> counters \<Rightarrow> counters" where
  "count_registered bytes ct = ct\<lparr>ct_registered := sat_add 64 (ct_registered ct) bytes\<rparr>"

definition sat_add_signed :: "nat \<Rightarrow> nat \<Rightarrow> int \<Rightarrow> nat" where
  "sat_add_signed w a d = (if 0 \<le> d then sat_add w a (nat d) else a - nat (- d))"

definition count_held :: "object_class \<Rightarrow> int \<Rightarrow> counters \<Rightarrow> counters" where
  "count_held c delta ct =
     (let k = class_index c in
      ct\<lparr>ct_held := (ct_held ct)[k := sat_add_signed 64 (ct_held ct ! k) delta]\<rparr>)"

section \<open>Reports (report.rs)\<close>

record report =
  rp_faults :: "nat list"
  rp_fetched :: "nat list"
  rp_hits :: "nat list"
  rp_held :: "nat list"
  rp_registered :: nat
  rp_resident :: nat

definition report_of :: "counters \<Rightarrow> report" where
  "report_of ct =
     \<lparr>rp_faults = ct_faults ct, rp_fetched = ct_fetched ct, rp_hits = ct_hits ct,
      rp_held = ct_held ct, rp_registered = ct_registered ct,
      rp_resident = foldl (sat_add 64) 0 (ct_held ct)\<rparr>"

definition residency_per_mille :: "report \<Rightarrow> nat option" where
  "residency_per_mille rp =
     (if rp_registered rp = 0 then None
      else Some (wrap 32 (sat_mul 64 (rp_resident rp) 1000 div rp_registered rp)))"

definition total_faults :: "report \<Rightarrow> nat" where
  "total_faults rp = foldl (sat_add 32) 0 (rp_faults rp)"

text \<open>\<open>max_by_key\<close> keeps the last of several largest.\<close>

fun last_max :: "('a \<times> nat) option \<Rightarrow> ('a \<times> nat) list \<Rightarrow> ('a \<times> nat) option" where
  "last_max best [] = best"
| "last_max best (x # xs) =
     last_max (case best of None \<Rightarrow> Some x | Some b \<Rightarrow> if snd b \<le> snd x then Some x else Some b) xs"

definition worst_class :: "report \<Rightarrow> (object_class \<times> nat) option" where
  "worst_class rp =
     last_max None
       (filter (\<lambda>(c, n). 0 < n) (map (\<lambda>c. (c, rp_faults rp ! class_index c)) all_classes))"

section \<open>The headline numbers (headline.rs)\<close>

record headline =
  hl_ps_per_mille :: nat
  hl_ks :: nat
  hl_ss_milli :: nat

definition headline_of :: "nat \<Rightarrow> nat \<Rightarrow> nat \<Rightarrow> nat \<Rightarrow> nat \<Rightarrow> headline" where
  "headline_of applied read kv live budget =
     (let ps = (case checked_div (sat_mul 64 applied 1000) read of Some ps \<Rightarrow> ps | None \<Rightarrow> 0);
          ss = sat_mul 64 live (1000 * 2 ^ 30)
      in \<lparr>hl_ps_per_mille = (if umax 32 < ps then umax 32 else ps),
          hl_ks = (case checked_div kv live of Some ks \<Rightarrow> ks | None \<Rightarrow> 0),
          hl_ss_milli = (case checked_div ss budget of Some ss \<Rightarrow> ss | None \<Rightarrow> 0)\<rparr>)"

definition report_headline :: "report \<Rightarrow> nat \<Rightarrow> nat \<Rightarrow> headline" where
  "report_headline rp live budget =
     (let weights = class_index WeightTile; kv = class_index KvBlock;
          read = rp_fetched rp ! weights
      in headline_of (sat_add 64 read (rp_hits rp ! weights)) read (rp_held rp ! kv) live budget)"

section \<open>Lemmas\<close>

definition counters_wf :: "counters \<Rightarrow> bool" where
  "counters_wf ct \<longleftrightarrow>
     length (ct_faults ct) = 8 \<and> length (ct_fetched ct) = 8 \<and> length (ct_hits ct) = 8 \<and>
     length (ct_held ct) = 8 \<and>
     (\<forall>n \<in> set (ct_faults ct). n \<le> umax 32) \<and>
     (\<forall>n \<in> set (ct_fetched ct) \<union> set (ct_hits ct) \<union> set (ct_held ct). n \<le> umax 64) \<and>
     ct_registered ct \<le> umax 64"

lemma set_update_all: "(\<forall>n \<in> set xs. n \<le> b) \<Longrightarrow> x \<le> b \<Longrightarrow> \<forall>n \<in> set (xs[k := x]). n \<le> (b::nat)"
  using set_update_subset_insert [of xs k x] by blast

lemma sat_add_signed_le: "a \<le> umax w \<Longrightarrow> sat_add_signed w a d \<le> umax w"
  by (auto simp: sat_add_signed_def sat_add_le intro: le_trans [OF diff_le_self])

lemma counters_wf_empty: "counters_wf counters_empty"
  by (simp add: counters_wf_def counters_empty_def CLASSES_def all_classes_def)

lemma sat_add_64: "sat_add 64 a b \<le> 18446744073709551615" and sat_add_32: "sat_add 32 a b \<le> 4294967295"
  using sat_add_le [of 64 a b] sat_add_le [of 32 a b] by simp_all

lemma counters_wf_steps:
  assumes "counters_wf ct"
  shows "counters_wf (count_fault c b ct)" "counters_wf (count_hit c b ct)"
    "counters_wf (count_registered b ct)" "counters_wf (count_held c d ct)"
proof -
  have held: "ct_held ct ! class_index c \<le> umax 64"
    using assms class_index_lt [of c] unfolding counters_wf_def by (metis UnI2 nth_mem)
  show "counters_wf (count_fault c b ct)" "counters_wf (count_hit c b ct)"
    "counters_wf (count_registered b ct)"
    using assms unfolding counters_wf_def count_fault_def count_hit_def count_registered_def Let_def
    by (auto simp: sat_add_64 sat_add_32 dest!: set_update_subset_insert [THEN subsetD])
  show "counters_wf (count_held c d ct)"
    using assms sat_add_signed_le [OF held, of d] unfolding counters_wf_def count_held_def Let_def
    by (auto dest!: set_update_subset_insert [THEN subsetD])
qed

lemma last_max_correct:
  "(case last_max best xs of
      None \<Rightarrow> best = None \<and> xs = []
    | Some m \<Rightarrow> (m \<in> set xs \<or> best = Some m) \<and> (\<forall>x \<in> set xs. snd x \<le> snd m) \<and>
        (case best of None \<Rightarrow> True | Some b \<Rightarrow> snd b \<le> snd m))"
proof (induction xs arbitrary: best)
  case Nil
  then show ?case by (cases best) auto
next
  case (Cons x xs)
  let ?b = "case best of None \<Rightarrow> Some x | Some b \<Rightarrow> if snd b \<le> snd x then Some x else Some b"
  have "?b \<noteq> None" by (auto split: option.splits)
  then obtain b where b: "?b = Some b" by blast
  from Cons.IH [of ?b] b obtain m where m: "last_max (Some b) xs = Some m"
    "m \<in> set xs \<or> b = m" "\<forall>x \<in> set xs. snd x \<le> snd m" "snd b \<le> snd m"
    by (auto split: option.splits)
  have "snd x \<le> snd b" "b = x \<or> best = Some b" "\<forall>c. best = Some c \<longrightarrow> snd c \<le> snd b"
    using b by (auto split: option.splits if_splits)
  with m b show ?case by (fastforce split: option.splits)
qed

section \<open>Properties\<close>

text \<open>With no count at the top of its range, \<open>Ps\<close> is exactly the weight bytes applied per
  thousand read, at least a thousand once anything was read (each read serves at least one
  use), and zero before; \<open>Ks\<close> shares the resident KV bytes out over the live sessions.\<close>

theorem headline_exact:
  assumes "(rp_fetched rp ! class_index WeightTile + rp_hits rp ! class_index WeightTile) * 1000 \<le> umax 64"
  shows "(let read = rp_fetched rp ! class_index WeightTile; hits = rp_hits rp ! class_index WeightTile;
              h = report_headline rp live budget
          in hl_ps_per_mille h = (if read = 0 then 0 else min ((read + hits) * 1000 div read) (umax 32)) \<and>
             (0 < read \<longrightarrow> 1000 \<le> hl_ps_per_mille h) \<and>
             hl_ks h * live \<le> rp_held rp ! class_index KvBlock \<and>
             (0 < live \<longrightarrow> rp_held rp ! class_index KvBlock < (hl_ks h + 1) * live))"
proof -
  let ?read = "rp_fetched rp ! class_index WeightTile" and ?hits = "rp_hits rp ! class_index WeightTile"
  let ?kv = "rp_held rp ! class_index KvBlock"
  have s: "sat_add 64 ?read ?hits = ?read + ?hits" proof (rule sat_add_exact)
    have "?read + ?hits \<le> (?read + ?hits) * 1000" by simp
    then show "?read + ?hits \<le> umax 64" using assms by (rule order_trans)
  qed
  have m: "sat_mul 64 (?read + ?hits) 1000 = (?read + ?hits) * 1000" using assms by (rule sat_mul_exact)
  have "1000 \<le> (?read + ?hits) * 1000 div ?read" if "0 < ?read"
  proof -
    have "?read * 1000 div ?read \<le> (?read + ?hits) * 1000 div ?read" by (rule div_le_mono) simp
    with that show ?thesis by simp
  qed
  moreover have "?kv < (?kv div live + 1) * live" if "0 < live"
    using that dividend_less_div_times [of live ?kv] by (simp add: algebra_simps)
  ultimately show ?thesis
    by (simp add: report_headline_def headline_of_def Let_def s m checked_div_def min_def)
qed

lemma headline_exact_witness:
  "hl_ps_per_mille (report_headline
     (report_of (count_hit WeightTile 300 (count_fault WeightTile 100 counters_empty))) 2 1000) = 4000"
proof -
  let ?rp = "report_of (count_hit WeightTile 300 (count_fault WeightTile 100 counters_empty))"
  have "rp_fetched ?rp ! class_index WeightTile = 100" "rp_hits ?rp ! class_index WeightTile = 300"
    by (simp_all add: report_of_def count_hit_def count_fault_def counters_empty_def CLASSES_def
        all_classes_def class_index_def Let_def sat_add_def)
  with headline_exact [of ?rp 2 1000] show ?thesis by (simp add: Let_def)
qed

text \<open>No counter ever leaves its width, whatever is counted; the class a report calls worst
  has faulted, and none has faulted more.\<close>

theorem counters_saturate:
  assumes "counters_wf ct"
  shows "counters_wf (count_fault c b ct) \<and> counters_wf (count_hit c b ct) \<and>
    counters_wf (count_registered b ct) \<and> counters_wf (count_held c d ct) \<and>
    (case worst_class (report_of ct) of
       None \<Rightarrow> \<forall>e. ct_faults ct ! class_index e = 0
     | Some (w, n) \<Rightarrow> 0 < n \<and> n = ct_faults ct ! class_index w \<and> (\<forall>e. ct_faults ct ! class_index e \<le> n))"
proof -
  let ?xs = "filter (\<lambda>(c, n). 0 < n) (map (\<lambda>c. (c, ct_faults ct ! class_index c)) all_classes)"
  have mem: "(e, n) \<in> set ?xs \<longleftrightarrow> 0 < n \<and> n = ct_faults ct ! class_index e" for e n
    by (cases e) (auto simp: all_classes_def)
  have w: "worst_class (report_of ct) = last_max None ?xs"
    by (simp add: worst_class_def report_of_def)
  have "case last_max None ?xs of
       None \<Rightarrow> \<forall>e. ct_faults ct ! class_index e = 0
     | Some (w, n) \<Rightarrow> 0 < n \<and> n = ct_faults ct ! class_index w \<and> (\<forall>e. ct_faults ct ! class_index e \<le> n)"
  proof (cases "last_max None ?xs")
    case None
    with last_max_correct [of None ?xs] have "?xs = []" by simp
    then have "\<not> 0 < ct_faults ct ! class_index e" for e
      using mem [of e "ct_faults ct ! class_index e"] by (metis empty_iff empty_set)
    with None show ?thesis by simp
  next
    case (Some m)
    obtain e n where m: "m = (e, n)" by (cases m)
    have "(m \<in> set ?xs \<or> None = Some m) \<and> (\<forall>x \<in> set ?xs. snd x \<le> snd m) \<and> True"
      using last_max_correct [of None ?xs] unfolding Some option.case .
    then have "(e, n) \<in> set ?xs" and all: "\<forall>x \<in> set ?xs. snd x \<le> n" unfolding m snd_conv by blast+
    then have en: "0 < n" "n = ct_faults ct ! class_index e" using mem by blast+
    have "ct_faults ct ! class_index f \<le> n" for f
      using all mem [of f "ct_faults ct ! class_index f"]
      by (cases "ct_faults ct ! class_index f = 0") force+
    with en Some m show ?thesis by simp
  qed
  with counters_wf_steps [OF assms] show ?thesis unfolding w by blast
qed

lemma counters_saturate_witness:
  "counters_wf (count_held KvBlock (- 5) counters_empty)"
  using counters_saturate [OF counters_wf_empty, of KvBlock 0 "- 5"] by simp

end
