(* ===== verification/Events.thy ===== *)
theory Events
  imports Objtab
begin

text \<open>
  crates/mlos-events: residency transitions recorded in a fixed ring. Recording assigns the
  sequence number and overwrites the oldest event when full, counting what it overwrote. The
  ring is shown to hold exactly the most recent events in order.
\<close>

section \<open>Events (lib.rs, event.rs)\<close>

definition CAPACITY :: nat where "CAPACITY = 256"

datatype kind = Placed | Hit | KRefused | Evicted

fun kind_name :: "kind \<Rightarrow> string" where
  "kind_name Placed = ''placed''"
| "kind_name Hit = ''hit''"
| "kind_name KRefused = ''refused''"
| "kind_name Evicted = ''evicted''"

record event =
  ev_seq :: nat
  ev_kind :: kind
  ev_object :: object_id
  ev_session :: session_id
  ev_offset :: nat
  ev_bytes :: nat
  ev_cost :: nat
  ev_tier :: tier
  ev_why :: "err option"

definition event_placed :: "object_id \<Rightarrow> session_id \<Rightarrow> object_meta \<Rightarrow> nat \<Rightarrow> nat \<Rightarrow> event" where
  "event_placed object who m cost offset =
     \<lparr>ev_seq = 0, ev_kind = Placed, ev_object = object, ev_session = who, ev_offset = offset,
      ev_bytes = m_size m, ev_cost = cost, ev_tier = m_tier m, ev_why = None\<rparr>"

definition event_refused :: "object_id \<Rightarrow> session_id \<Rightarrow> object_meta \<Rightarrow> nat \<Rightarrow> err \<Rightarrow> event" where
  "event_refused object who m cost why =
     \<lparr>ev_seq = 0, ev_kind = KRefused, ev_object = object, ev_session = who, ev_offset = 0,
      ev_bytes = 0, ev_cost = cost, ev_tier = m_tier m, ev_why = Some why\<rparr>"

definition event_evicted :: "object_id \<Rightarrow> session_id \<Rightarrow> object_meta \<Rightarrow> event" where
  "event_evicted object who m =
     \<lparr>ev_seq = 0, ev_kind = Evicted, ev_object = object, ev_session = who, ev_offset = 0,
      ev_bytes = m_size m, ev_cost = 0, ev_tier = m_home m, ev_why = None\<rparr>"

definition event_hit :: "object_id \<Rightarrow> session_id \<Rightarrow> nat \<Rightarrow> event" where
  "event_hit object who bytes =
     \<lparr>ev_seq = 0, ev_kind = Hit, ev_object = object, ev_session = who, ev_offset = 0,
      ev_bytes = bytes, ev_cost = 0, ev_tier = Warm, ev_why = None\<rparr>"

section \<open>The ring (lib.rs)\<close>

record ring =
  rg_enabled :: bool
  rg_events :: "event option list"
  rg_next :: nat
  rg_seq :: nat
  rg_dropped :: nat

definition ring_empty :: ring where
  "ring_empty =
     \<lparr>rg_enabled = True, rg_events = replicate CAPACITY None, rg_next = 0, rg_seq = 0, rg_dropped = 0\<rparr>"

definition ring_record :: "event \<Rightarrow> ring \<Rightarrow> ring" where
  "ring_record ev r =
     (if \<not> rg_enabled r then r
      else let seq = sat_add 32 (rg_seq r) 1 in
        r\<lparr>rg_dropped := (if rg_events r ! rg_next r \<noteq> None then sat_add 32 (rg_dropped r) 1
                         else rg_dropped r),
          rg_seq := seq,
          rg_events := (rg_events r)[rg_next r := Some (ev\<lparr>ev_seq := seq\<rparr>)],
          rg_next := (rg_next r + 1) mod CAPACITY\<rparr>)"

definition ring_events :: "ring \<Rightarrow> event list" where
  "ring_events r = List.map_filter (\<lambda>e. e) (drop (rg_next r) (rg_events r) @ take (rg_next r) (rg_events r))"

text \<open>What \<open>trace on\<close> and \<open>trace off\<close> do.\<close>

definition ring_switch :: "bool \<Rightarrow> ring \<Rightarrow> ring" where
  "ring_switch on r = r\<lparr>rg_enabled := on\<rparr>"

fun why_name :: "err option \<Rightarrow> string" where
  "why_name None = ''''"
| "why_name (Some BadObject) = ''bad-object''"
| "why_name (Some BadClass) = ''bad-class''"
| "why_name (Some NotResident) = ''not-resident''"
| "why_name (Some NoBudget) = ''no-budget''"
| "why_name (Some Refused) = ''refused''"
| "why_name (Some NoProvider) = ''no-provider''"
| "why_name (Some Revoked) = ''revoked''"
| "why_name (Some Denied) = ''denied''"

section \<open>The ring as the end of a list\<close>

text \<open>The slots read from the next one to be written: recording drops the first and appends.\<close>

definition rotated :: "ring \<Rightarrow> event option list" where
  "rotated r = drop (rg_next r) (rg_events r) @ take (rg_next r) (rg_events r)"

definition ring_wf :: "ring \<Rightarrow> bool" where
  "ring_wf r \<longleftrightarrow> length (rg_events r) = CAPACITY \<and> rg_next r < CAPACITY"

lemma rotated_record:
  assumes "ring_wf r" "rg_enabled r"
  shows "ring_wf (ring_record ev r)" "rg_enabled (ring_record ev r)"
    "rotated r = rg_events r ! rg_next r # tl (rotated r)"
    "rotated (ring_record ev r) = tl (rotated r) @ [Some (ev\<lparr>ev_seq := sat_add 32 (rg_seq r) 1\<rparr>)]"
proof -
  let ?x = "Some (ev\<lparr>ev_seq := sat_add 32 (rg_seq r) 1\<rparr>)" and ?n = "rg_next r" and ?es = "rg_events r"
  have n: "?n < length ?es" and len: "length ?es = CAPACITY" using assms(1) by (simp_all add: ring_wf_def)
  show "ring_wf (ring_record ev r)" "rg_enabled (ring_record ev r)"
    using assms by (simp_all add: ring_wf_def ring_record_def Let_def CAPACITY_def)
  have q: "rotated r = ?es ! ?n # drop (Suc ?n) ?es @ take ?n ?es"
    using n by (simp add: rotated_def Cons_nth_drop_Suc [symmetric])
  then show "rotated r = ?es ! ?n # tl (rotated r)" by simp
  have "rotated (ring_record ev r) = drop (Suc ?n) ?es @ take ?n ?es @ [?x]"
  proof (cases "Suc ?n = CAPACITY")
    case True
    then have "take (Suc ?n) (?es[?n := ?x]) = ?es[?n := ?x]" using len by simp
    then have "?es[?n := ?x] = take ?n ?es @ [?x]"
      using n by (metis length_list_update nth_list_update_eq take_Suc_conv_app_nth take_update_cancel order_refl)
    with True assms(2) len show ?thesis by (simp add: rotated_def ring_record_def Let_def)
  next
    case False
    then have "(Suc ?n) mod CAPACITY = Suc ?n" using n len by simp
    moreover have "take (Suc ?n) (?es[?n := ?x]) = take ?n ?es @ [?x]"
      using n by (simp add: take_Suc_conv_app_nth)
    ultimately show ?thesis using assms(2) by (simp add: rotated_def ring_record_def Let_def)
  qed
  with q show "rotated (ring_record ev r) = tl (rotated r) @ [?x]" by simp
qed

definition numbered :: "event list \<Rightarrow> event list" where
  "numbered evs = map (\<lambda>(k, ev). ev\<lparr>ev_seq := min (k + 1) (umax 32)\<rparr>) (List.enumerate 0 evs)"

lemma numbered_snoc: "numbered (evs @ [ev]) = numbered evs @ [ev\<lparr>ev_seq := min (length evs + 1) (umax 32)\<rparr>]"
  by (simp add: numbered_def enumerate_append_eq)

lemma numbered_length [simp]: "length (numbered evs) = length evs"
  by (simp add: numbered_def)

definition recorded :: "event list \<Rightarrow> ring" where
  "recorded evs = foldl (\<lambda>r ev. ring_record ev r) ring_empty evs"

lemma recorded_state:
  "ring_wf (recorded evs) \<and> rg_enabled (recorded evs) \<and> rg_seq (recorded evs) = min (length evs) (umax 32) \<and>
   rg_dropped (recorded evs) = min (length evs - CAPACITY) (umax 32) \<and>
   rotated (recorded evs) = drop (length evs) (replicate CAPACITY None @ map Some (numbered evs))"
proof (induction evs rule: rev_induct)
  case Nil
  show ?case by (simp add: recorded_def ring_wf_def ring_empty_def CAPACITY_def rotated_def numbered_def)
next
  case (snoc ev evs)
  let ?r = "recorded evs"
  let ?q = "replicate CAPACITY None @ map Some (numbered evs)"
  have wf: "ring_wf ?r" "rg_enabled ?r" and seq: "rg_seq ?r = min (length evs) (umax 32)"
    and rot: "rotated ?r = drop (length evs) ?q"
    and dr: "rg_dropped ?r = min (length evs - CAPACITY) (umax 32)" using snoc by blast+
  note rec = rotated_record(1,2) [OF wf, of ev] rotated_record(3) [OF wf] rotated_record(4) [OF wf, of ev]
  have step: "recorded (evs @ [ev]) = ring_record ev ?r" by (simp add: recorded_def)
  have seq': "sat_add 32 (rg_seq ?r) 1 = min (length evs + 1) (umax 32)"
    by (simp add: seq sat_add_def)
  have lt: "length evs < length ?q" by (simp add: CAPACITY_def)
  have "rg_events ?r ! rg_next ?r = hd (rotated ?r)" using rec(3) by (metis list.sel(1))
  also have "\<dots> = ?q ! length evs" unfolding rot by (rule hd_drop_conv_nth [OF lt])
  finally have first: "rg_events ?r ! rg_next ?r \<noteq> None \<longleftrightarrow> CAPACITY \<le> length evs"
    using lt by (auto simp: nth_append)
  have "rotated (ring_record ev ?r) = tl (drop (length evs) ?q) @ [Some (ev\<lparr>ev_seq := min (length evs + 1) (umax 32)\<rparr>)]"
    unfolding rec(4) rot seq' ..
  also have "\<dots> = drop (Suc (length evs)) (?q @ [Some (ev\<lparr>ev_seq := min (length evs + 1) (umax 32)\<rparr>)])"
  proof -
    have "tl (drop (length evs) ?q) = drop (Suc (length evs)) ?q" by (simp only: drop_Suc tl_drop)
    then show ?thesis using lt by (simp only: drop_append length_append) simp
  qed
  also have "\<dots> = drop (length (evs @ [ev])) (replicate CAPACITY None @ map Some (numbered (evs @ [ev])))"
    by (simp add: numbered_snoc)
  finally have "rotated (ring_record ev ?r) =
      drop (length (evs @ [ev])) (replicate CAPACITY None @ map Some (numbered (evs @ [ev])))" .
  moreover have "rg_dropped (ring_record ev ?r) = min (length (evs @ [ev]) - CAPACITY) (umax 32)"
    using wf(2) first dr by (auto simp: ring_record_def Let_def sat_add_def Suc_diff_le min_def)
  moreover have "rg_seq (ring_record ev ?r) = min (length (evs @ [ev])) (umax 32)"
    using wf(2) seq' by (simp add: ring_record_def Let_def)
  ultimately show ?case using rec(1,2) step by simp
qed

text \<open>C15: after any number of events the ring holds exactly the last 256 of them, oldest first,
  each with its position as sequence number, and has counted every one it overwrote (up to the
  width of the counters).\<close>

theorem ring_keeps_latest:
  "ring_events (recorded evs) = drop (length evs - 256) (numbered evs) \<and>
   rg_dropped (recorded evs) = min (length evs - 256) (umax 32)"
proof -
  have f: "List.map_filter (\<lambda>e. e) (replicate n None @ map Some xs) = xs" for n and xs :: "event list"
    by (simp add: List.map_filter_def comp_def)
  have "ring_events (recorded evs) =
      List.map_filter (\<lambda>e. e) (replicate (CAPACITY - length evs) None @
        map Some (drop (length evs - CAPACITY) (numbered evs)))"
    using recorded_state [of evs] by (simp add: ring_events_def rotated_def drop_map)
  with recorded_state [of evs] show ?thesis by (simp only: f CAPACITY_def)
qed

end
