(* ===== verification/Objman.thy ===== *)
theory Objman
  imports Arena DeclStream Policy Provider Admit Metrics Events
begin

text \<open>
  crates/mlos-objman: the model object manager. It joins the object table, the arena, the
  attached providers, the policy, the declared stream, the counters, the event ring and the
  sessions. Acquiring is a hit (a table update) or a fault: charge the owner, evict until there
  is room, place, fetch, and only then record residency. This theory holds the operations; the
  invariant and the properties are in ObjmanProofs.
\<close>

section \<open>State (lib.rs, fault.rs, lease.rs)\<close>

definition MAX_PROVIDERS :: nat where "MAX_PROVIDERS = 8"

record model_fault =
  mf_class :: object_class
  mf_fields :: fields
  mf_session :: session_id
  mf_cost :: nat

definition model_fault_new :: "object_id \<Rightarrow> session_id \<Rightarrow> nat \<Rightarrow> model_fault option" where
  "model_fault_new i who cost =
     (case object_class_of i of
        None \<Rightarrow> None
      | Some c \<Rightarrow> Some \<lparr>mf_class = c, mf_fields = object_fields i, mf_session = who, mf_cost = cost\<rparr>)"

datatype lease = Pin | Borrow | Streaming | Speculative

fun pins :: "lease \<Rightarrow> bool" where
  "pins Pin = True"
| "pins _ = False"

fun lease_counts :: "lease \<Rightarrow> bool" where
  "lease_counts Speculative = False"
| "lease_counts _ = True"

record handle =
  hd_id :: object_id
  hd_address :: nat
  hd_size :: nat

record manager =
  mg_table :: table
  mg_arena :: arena
  mg_providers :: "provider option list"
  mg_last_fault :: "model_fault option"
  mg_events :: ring
  mg_policy :: "policy option"
  mg_stream :: stream
  mg_evictions :: nat
  mg_clock :: nat
  mg_counters :: counters
  mg_sessions :: sessions
  mg_capacity :: capacity

definition manager_new :: "nat \<Rightarrow> arena \<Rightarrow> manager" where
  "manager_new n a =
     \<lparr>mg_table = table_empty n, mg_arena = a, mg_providers = replicate MAX_PROVIDERS None,
      mg_last_fault = None, mg_events = ring_empty, mg_policy = None, mg_stream = stream_empty,
      mg_evictions = 0, mg_clock = 0, mg_counters = counters_empty,
      mg_sessions = sessions_empty MAX_SESSIONS, mg_capacity = capacity_none\<rparr>"

definition attach :: "provider \<Rightarrow> manager \<Rightarrow> unit res \<times> manager" where
  "attach p M =
     (if pr_id p < length (mg_providers M)
      then (Inr (), M\<lparr>mg_providers := (mg_providers M)[pr_id p := Some p]\<rparr>)
      else (Inl NoProvider, M))"

definition register :: "object_id \<Rightarrow> object_meta \<Rightarrow> manager \<Rightarrow> unit res \<times> manager" where
  "register i m M =
     (case table_insert i m (mg_table M) of
        (False, _) \<Rightarrow> (Inl NoBudget, M)
      | (True, t) \<Rightarrow>
          (Inr (), M\<lparr>mg_table := t, mg_counters := count_registered (m_size m) (mg_counters M)\<rparr>))"

section \<open>Throwing an object out (evict.rs)\<close>

text \<open>The table as a policy sees it: every slot, those not resident answering nothing.\<close>

definition held_view :: "table \<Rightarrow> nat \<Rightarrow> residency" where
  "held_view t clock =
     \<lparr>rs_len = length t,
      rs_at = (\<lambda>index. case table_at t index of
                 Some (i, m) \<Rightarrow> if m_resident_at m \<noteq> 0 then Some (i, m) else None
               | None \<Rightarrow> None),
      rs_now = clock\<rparr>"

definition gone :: "object_meta \<Rightarrow> object_meta \<Rightarrow> object_meta" where
  "gone old m = m\<lparr>m_resident_at := 0, m_share_count := 0, m_tier := m_home old\<rparr>"

definition evict :: "object_id \<Rightarrow> manager \<Rightarrow> nat res \<times> manager" where
  "evict i M =
     (case table_get (mg_table M) i of
        None \<Rightarrow> (Inl BadObject, M)
      | Some m \<Rightarrow>
          if m_resident_at m = 0 then (Inl NotResident, M)
          else (case arena_release (m_resident_at m) (m_size m) (mg_arena M) of
                  (Inl e, a) \<Rightarrow> (Inl e, M\<lparr>mg_arena := a\<rparr>)
                | (Inr _, a) \<Rightarrow>
                    (case object_class_of i of
                       None \<Rightarrow> (Inl BadClass, M\<lparr>mg_arena := a\<rparr>)
                     | Some c \<Rightarrow>
                         let M' = M\<lparr>mg_arena := a,
                                    mg_counters := count_held c (- int (m_size m)) (mg_counters M),
                                    mg_sessions := credit (m_owner m) (m_size m) (mg_sessions M),
                                    mg_evictions := mg_evictions M + 1,
                                    mg_events := ring_record (event_evicted i (m_owner m) m) (mg_events M)\<rparr>
                         in case table_get_mut i (gone m) (mg_table M) of
                              None \<Rightarrow> (Inl BadObject, M')
                            | Some t \<Rightarrow> (Inr (m_size m), M'\<lparr>mg_table := t\<rparr>))))"

text \<open>Every eviction that succeeds takes one resident slot away, which is why making room ends
  whatever the policy answers.\<close>

definition resident_slots :: "table \<Rightarrow> nat" where
  "resident_slots t =
     length (filter (\<lambda>sl. case sl of Live _ m \<Rightarrow> m_resident_at m \<noteq> 0 | _ \<Rightarrow> False) t)"

lemma filter_update_less:
  "p < length xs \<Longrightarrow> P (xs ! p) \<Longrightarrow> \<not> P y \<Longrightarrow> length (filter P (xs[p := y])) < length (filter P xs)"
proof (induction xs arbitrary: p)
  case (Cons x xs)
  then show ?case by (cases p) auto
qed simp

lemma evict_fewer:
  assumes "evict i M = (Inr n, M')"
  shows "resident_slots (mg_table M') < resident_slots (mg_table M)"
proof -
  let ?t = "mg_table M"
  from assms obtain m t where g: "table_get ?t i = Some m" "m_resident_at m \<noteq> 0"
    and mu: "table_get_mut i (gone m) ?t = Some t" and M': "mg_table M' = t"
    by (auto simp: evict_def Let_def split: option.splits if_splits prod.splits sum.splits)
  from g(1) obtain p where p: "find_loop ?t i (probe_sequence i (length ?t)) = Some (p, m)"
    by (auto simp: table_get_def)
  then have t: "t = ?t[p := Live i (gone m m)]" using mu by (auto simp: table_get_mut_def)
  have "?t ! p = Live i m" "p < length ?t"
    using find_loop_Some [OF p] probe_sequence_set by blast+
  then show ?thesis
    unfolding M' t resident_slots_def using g(2)
    by (intro filter_update_less) (simp_all add: gone_def)
qed

function make_room :: "object_meta \<Rightarrow> manager \<Rightarrow> manager" where
  "make_room wanting M =
     (if fits (arena_occupancy (mg_arena M)) (m_size wanting) then M
      else case mg_policy M of
        None \<Rightarrow> M
      | Some p \<Rightarrow>
          (case pol_victim p (held_view (mg_table M) (mg_clock M)) wanting of
             None \<Rightarrow> M
           | Some victim \<Rightarrow>
               (case evict victim M of
                  (Inl _, M') \<Rightarrow> M'
                | (Inr _, M') \<Rightarrow> make_room wanting M')))"
  by pat_completeness auto
termination
  by (relation "measure (\<lambda>(_, M). resident_slots (mg_table M))") (auto dest!: evict_fewer [OF sym])

declare make_room.simps [simp del]

section \<open>Servicing a miss (fault.rs)\<close>

definition placed_meta :: "nat \<Rightarrow> next_use \<Rightarrow> nat \<Rightarrow> lease \<Rightarrow> object_meta \<Rightarrow> object_meta" where
  "placed_meta address wanted now l m =
     m\<lparr>m_resident_at := address, m_next_use := wanted, m_placed_tick := now, m_used_tick := now,
       m_tier := Warm, m_share_count := (if lease_counts l then 1 else 0),
       m_reuse_count := sat_add 16 (m_reuse_count m) 1\<rparr>"

definition mgr_place ::
  "object_id \<Rightarrow> located \<Rightarrow> provider \<Rightarrow> lease \<Rightarrow> next_use \<Rightarrow> manager \<Rightarrow> handle res \<times> manager" where
  "mgr_place i loc p l wanted M =
     (case arena_place (lo_size loc) (mg_arena M) of
        (Inl e, a) \<Rightarrow> (Inl e, M\<lparr>mg_arena := a\<rparr>)
      | (Inr (address, start, len), a) \<Rightarrow>
          (case pr_read p loc 0 (take len (drop start (ar_bytes a))) of
             (r, room) \<Rightarrow>
               let M1 = M\<lparr>mg_arena := arena_write start room a\<rparr> in
               case r of
                 Inl e \<Rightarrow> (Inl e, M1)
               | Inr _ \<Rightarrow>
                   (case object_class_of i of
                      None \<Rightarrow> (Inl BadClass, M1)
                    | Some c \<Rightarrow>
                        let M2 = M1\<lparr>mg_counters := count_held c (int (lo_size loc)) (mg_counters M)\<rparr> in
                        case table_get_mut i (placed_meta address wanted (mg_clock M) l) (mg_table M) of
                          None \<Rightarrow> (Inl BadObject, M2)
                        | Some t \<Rightarrow>
                            (Inr \<lparr>hd_id = i, hd_address = address, hd_size = lo_size loc\<rparr>,
                             M2\<lparr>mg_table := t\<rparr>))))"

definition mgr_admit ::
  "object_id \<Rightarrow> located \<Rightarrow> provider \<Rightarrow> lease \<Rightarrow> next_use \<Rightarrow> manager \<Rightarrow> handle res \<times> manager" where
  "mgr_admit i loc p l wanted M =
     (case table_get (mg_table M) i of
        None \<Rightarrow> (Inl BadObject, M)
      | Some m \<Rightarrow>
          (case charge (m_owner m) (m_size m) (m_precision m) (mg_sessions M) of
             (Inl e, ss) \<Rightarrow> (Inl e, M\<lparr>mg_sessions := ss\<rparr>)
           | (Inr _, ss) \<Rightarrow>
               (case mgr_place i loc p l wanted (make_room m (M\<lparr>mg_sessions := ss\<rparr>)) of
                  (Inr h, M') \<Rightarrow>
                    (case object_class_of i of
                       None \<Rightarrow> (Inl BadClass, M')
                     | Some c \<Rightarrow> (Inr h, M'\<lparr>mg_counters := count_fault c (m_size m) (mg_counters M')\<rparr>))
                | (Inl e, M') \<Rightarrow>
                    (Inl e, M'\<lparr>mg_sessions := credit (m_owner m) (m_size m) (mg_sessions M')\<rparr>))))"

definition provider_for :: "object_meta \<Rightarrow> manager \<Rightarrow> provider res" where
  "provider_for m M =
     (case nth_opt (mg_providers M) (m_provider m) of
        None \<Rightarrow> Inl NoProvider
      | Some slot \<Rightarrow> (case slot of None \<Rightarrow> Inl NoProvider | Some p \<Rightarrow> Inr p))"

definition service ::
  "object_id \<Rightarrow> lease \<Rightarrow> session_id \<Rightarrow> next_use \<Rightarrow> manager \<Rightarrow> handle res \<times> manager" where
  "service i l who wanted M =
     (case table_get (mg_table M) i of
        None \<Rightarrow> (Inl BadObject, M)
      | Some m \<Rightarrow>
          (case provider_for m M of
             Inl e \<Rightarrow> (Inl e, M)
           | Inr p \<Rightarrow>
               let loc = located_new i m; cost = for_bytes (pr_cost p loc) (m_size m) in
               case model_fault_new i who cost of
                 None \<Rightarrow> (Inl BadClass, M)
               | Some fault \<Rightarrow>
                   let base = ar_base (mg_arena M) in
                   case mgr_admit i loc p l wanted (M\<lparr>mg_last_fault := Some fault\<rparr>) of
                     (r, M') \<Rightarrow>
                       (r, M'\<lparr>mg_events := ring_record
                            (case r of
                               Inr h \<Rightarrow> event_placed i who m cost (hd_address h - base)
                             | Inl why \<Rightarrow> event_refused i who m cost why) (mg_events M')\<rparr>)))"

section \<open>Acquiring and releasing (lib.rs, lease.rs)\<close>

definition hit_meta :: "nat \<Rightarrow> next_use \<Rightarrow> lease \<Rightarrow> object_meta \<Rightarrow> object_meta" where
  "hit_meta now wanted l m =
     m\<lparr>m_share_count := sat_add 16 (m_share_count m) (if lease_counts l then 1 else 0),
       m_reuse_count := sat_add 16 (m_reuse_count m) 1, m_used_tick := now, m_next_use := wanted\<rparr>"

definition acquire :: "object_id \<Rightarrow> lease \<Rightarrow> session_id \<Rightarrow> manager \<Rightarrow> handle res \<times> manager" where
  "acquire i l who M0 =
     (let M = M0\<lparr>mg_clock := sat_add 32 (mg_clock M0) 1\<rparr>;
          wanted = next_after (mg_stream M) i in
      case table_get (mg_table M) i of
        Some m \<Rightarrow>
          if m_resident_at m \<noteq> 0 then
            (case object_class_of i of
               None \<Rightarrow> (Inl BadClass, M)
             | Some c \<Rightarrow>
                 let M1 = M\<lparr>mg_counters := count_hit c (m_size m) (mg_counters M)\<rparr> in
                 case table_get_mut i (hit_meta (mg_clock M) wanted l) (mg_table M) of
                   None \<Rightarrow> (Inl BadObject, M1)
                 | Some t \<Rightarrow>
                     (Inr \<lparr>hd_id = i, hd_address = m_resident_at m, hd_size = m_size m\<rparr>,
                      M1\<lparr>mg_table := t,
                         mg_events := ring_record (event_hit i who (m_size m)) (mg_events M)\<rparr>))
          else service i l who wanted M
      | None \<Rightarrow> service i l who wanted M)"

definition release_meta :: "lease \<Rightarrow> object_meta \<Rightarrow> object_meta" where
  "release_meta l m =
     (if lease_counts l \<and> m_resident_at m \<noteq> 0 then m\<lparr>m_share_count := m_share_count m - 1\<rparr> else m)"

definition release :: "object_id \<Rightarrow> lease \<Rightarrow> manager \<Rightarrow> unit res \<times> manager" where
  "release i l M =
     (case table_get_mut i (release_meta l) (mg_table M) of
        None \<Rightarrow> (Inl BadObject, M)
      | Some t \<Rightarrow> (Inr (), M\<lparr>mg_table := t\<rparr>))"

definition consume :: "object_id \<Rightarrow> session_id \<Rightarrow> manager \<Rightarrow> handle res \<times> manager" where
  "consume i who M =
     (case acquire i Streaming who M of
        (Inl e, M') \<Rightarrow> (Inl e, M')
      | (Inr h, M') \<Rightarrow>
          (case release i Streaming M' of
             (Inl e, M'') \<Rightarrow> (Inl e, M'')
           | (Inr _, M'') \<Rightarrow> (Inr h, M'')))"

section \<open>Sessions (session.rs)\<close>

definition create_session :: "contract \<Rightarrow> manager \<Rightarrow> (refusal + session_id) \<times> manager" where
  "create_session c M =
     (case admit (mg_capacity M) (mg_sessions M) c of
        Inl r \<Rightarrow> (Inl r, M)
      | Inr _ \<Rightarrow>
          (case create c (mg_sessions M) of
             (Inl _, ss) \<Rightarrow> (Inl Slots, M\<lparr>mg_sessions := ss\<rparr>)
           | (Inr i, ss) \<Rightarrow> (Inr i, M\<lparr>mg_sessions := ss\<rparr>)))"

text \<open>The loop of \<open>destroy_session\<close> over the slots still to visit.\<close>

fun destroy_slots :: "session_id \<Rightarrow> nat list \<Rightarrow> nat \<Rightarrow> manager \<Rightarrow> nat res \<times> manager" where
  "destroy_slots i [] evicted M = (Inr evicted, M)"
| "destroy_slots i (slot # slots) evicted M =
     (case table_at (mg_table M) slot of
        None \<Rightarrow> destroy_slots i slots evicted M
      | Some (object, m) \<Rightarrow>
          if m_owner m \<noteq> i \<or> i = 0 then destroy_slots i slots evicted M
          else if m_resident_at m \<noteq> 0 then
            (case evict object M of
               (Inl e, M') \<Rightarrow> (Inl e, M')
             | (Inr _, M') \<Rightarrow>
                 destroy_slots i slots (evicted + 1)
                   (M'\<lparr>mg_table := snd (table_remove object (mg_table M'))\<rparr>))
          else
            destroy_slots i slots evicted
              (M\<lparr>mg_table := snd (table_remove object (mg_table M))\<rparr>))"

definition destroy_session :: "session_id \<Rightarrow> manager \<Rightarrow> nat res \<times> manager" where
  "destroy_session i M =
     (case destroy_slots i [0..<length (mg_table M)] 0 M of
        (Inl e, M') \<Rightarrow> (Inl e, M')
      | (Inr evicted, M') \<Rightarrow>
          (case destroy i (mg_sessions M') of
             (Inl e, ss) \<Rightarrow> (Inl e, M'\<lparr>mg_sessions := ss\<rparr>)
           | (Inr _, ss) \<Rightarrow> (Inr evicted, M'\<lparr>mg_sessions := ss\<rparr>)))"

fun destroy_all_slots :: "nat list \<Rightarrow> nat \<Rightarrow> manager \<Rightarrow> nat \<times> manager" where
  "destroy_all_slots [] evicted M = (evicted, M)"
| "destroy_all_slots (slot # slots) evicted M =
     (case sessions_at (mg_sessions M) slot of
        None \<Rightarrow> destroy_all_slots slots evicted M
      | Some s \<Rightarrow>
          (case destroy_session (s_id s) M of
             (r, M') \<Rightarrow>
               destroy_all_slots slots (evicted + (case r of Inr n \<Rightarrow> n | Inl _ \<Rightarrow> 0)) M'))"

definition destroy_all_sessions :: "manager \<Rightarrow> nat \<times> manager" where
  "destroy_all_sessions M = destroy_all_slots [0..<MAX_SESSIONS] 0 M"

definition mgr_headline :: "manager \<Rightarrow> headline" where
  "mgr_headline M =
     report_headline (report_of (mg_counters M)) (admits (mg_capacity M) (mg_sessions M))
       (oc_capacity (arena_occupancy (mg_arena M)))"

end
