(* ===== verification/ObjmanProofs.thy ===== *)
theory ObjmanProofs
  imports Objman
begin

text \<open>
  The invariant of the object manager and the proofs that every operation keeps it: residents
  occupy disjoint aligned blocks of the arena outside its free list, every session's account is
  exactly the bytes its residents hold, and no account passes its ceiling.
\<close>

section \<open>The invariant\<close>

definition block_of :: "nat \<Rightarrow> object_meta \<Rightarrow> (nat \<times> nat) option" where
  "block_of base m = (if m_resident_at m = 0 then None else Some (m_resident_at m - base, m_size m))"

definition blocks :: "manager \<Rightarrow> object_id \<Rightarrow> (nat \<times> nat) option" where
  "blocks M i = Option.bind (table_map (mg_table M) i) (block_of (ar_base (mg_arena M)))"

definition entry_ok :: "nat \<Rightarrow> object_id \<Rightarrow> object_meta \<Rightarrow> bool" where
  "entry_ok base i m \<longleftrightarrow> 0 < m_size m \<and> m_size m + ALIGN \<le> 2 ^ 32 \<and>
     (m_resident_at m \<noteq> 0 \<longrightarrow> base \<le> m_resident_at m \<and> object_class_of i \<noteq> None)"

definition weight :: "session_id \<Rightarrow> object_meta \<Rightarrow> nat" where
  "weight s m = (if m_owner m = s \<and> m_resident_at m \<noteq> 0 then m_size m else 0)"

text \<open>The bytes the residents owned by \<open>s\<close> hold.\<close>

definition owned :: "table \<Rightarrow> session_id \<Rightarrow> nat" where
  "owned t s = (\<Sum>k \<in> dom (table_map t). weight s (the (table_map t k)))"

definition providers_ok :: "provider option list \<Rightarrow> bool" where
  "providers_ok ps \<longleftrightarrow>
     (\<forall>p. Some p \<in> set ps \<longrightarrow> (\<forall>loc off into. length (snd (pr_read p loc off into)) = length into))"

text \<open>During a fault the owner has been charged for bytes not placed yet: \<open>pend\<close>.\<close>

definition accounts :: "(session_id \<Rightarrow> nat) \<Rightarrow> manager \<Rightarrow> bool" where
  "accounts pend M \<longleftrightarrow>
     (\<forall>i s. sessions_get (mg_sessions M) i = Some s \<longrightarrow>
        s_resident s = owned (mg_table M) i + pend i \<and> within_ceiling s)"

definition mgr_inv_pending :: "(session_id \<Rightarrow> nat) \<Rightarrow> manager \<Rightarrow> bool" where
  "mgr_inv_pending pend M \<longleftrightarrow>
     table_inv (mg_table M) \<and> arena_inv (mg_arena M) \<and> sessions_inv (mg_sessions M) \<and>
     0 < ar_base (mg_arena M) \<and>
     (\<forall>i m. table_map (mg_table M) i = Some m \<longrightarrow> entry_ok (ar_base (mg_arena M)) i m) \<and>
     holds aligned (\<lambda>start. ALIGN dvd start) (length (ar_bytes (mg_arena M)))
       (free_set (mg_arena M)) (blocks M) \<and>
     providers_ok (mg_providers M) \<and> accounts pend M"

definition mgr_inv :: "manager \<Rightarrow> bool" where
  "mgr_inv M \<longleftrightarrow> mgr_inv_pending (\<lambda>_. 0) M"

text \<open>Nothing leaked: the blocks and the free bytes are the whole arena.\<close>

definition no_leak :: "manager \<Rightarrow> bool" where
  "no_leak M \<longleftrightarrow>
     covers aligned (length (ar_bytes (mg_arena M))) (free_set (mg_arena M)) (blocks M)"

lemma mgr_invD:
  assumes "mgr_inv_pending pend M"
  shows "table_inv (mg_table M)" "arena_inv (mg_arena M)" "sessions_inv (mg_sessions M)"
    "0 < ar_base (mg_arena M)"
    "\<And>i m. table_map (mg_table M) i = Some m \<Longrightarrow> entry_ok (ar_base (mg_arena M)) i m"
    "holds aligned (\<lambda>start. ALIGN dvd start) (length (ar_bytes (mg_arena M)))
       (free_set (mg_arena M)) (blocks M)"
    "providers_ok (mg_providers M)" "accounts pend M"
  using assms unfolding mgr_inv_pending_def by blast+

section \<open>Updates of one entry\<close>

lemma table_map_finite: "finite (dom (table_map t))"
  by (simp add: table_map_def finite_dom_map_of)

lemma owned_update:
  assumes "table_map t i = Some m" "table_map t' = (table_map t)(i \<mapsto> m')"
  shows "owned t' s + weight s m = owned t s + weight s m'"
proof -
  let ?D = "dom (table_map t)"
  have i: "i \<in> ?D" using assms(1) by auto
  have D: "dom (table_map t') = ?D" using assms by auto
  have rest: "(\<Sum>k \<in> ?D - {i}. weight s (the (table_map t' k))) =
      (\<Sum>k \<in> ?D - {i}. weight s (the (table_map t k)))"
    by (rule sum.cong) (simp_all add: assms(2))
  have "owned t s = weight s m + (\<Sum>k \<in> ?D - {i}. weight s (the (table_map t k)))"
    unfolding owned_def by (subst sum.remove [OF table_map_finite i]) (simp add: assms(1))
  moreover have "owned t' s = weight s m' + (\<Sum>k \<in> ?D - {i}. weight s (the (table_map t k)))"
    unfolding owned_def D by (subst sum.remove [OF table_map_finite i]) (simp add: assms(2) rest)
  ultimately show ?thesis by simp
qed

lemma owned_remove:
  assumes "table_map t i = Some m" "table_map t' = (table_map t)(i := None)"
  shows "owned t' s + weight s m = owned t s"
proof -
  let ?D = "dom (table_map t)"
  have i: "i \<in> ?D" using assms(1) by auto
  have "owned t s = weight s m + (\<Sum>k \<in> ?D - {i}. weight s (the (table_map t k)))"
    unfolding owned_def by (subst sum.remove [OF table_map_finite i]) (simp add: assms(1))
  moreover have "dom (table_map t') = ?D - {i}" using assms(2) by auto
  then have "owned t' s = (\<Sum>k \<in> ?D - {i}. weight s (the (table_map t k)))"
    unfolding owned_def by (intro sum.cong) (auto simp: assms(2))
  ultimately show ?thesis by simp
qed

lemma owned_add:
  assumes "table_map t i = None" "table_map t' = (table_map t)(i \<mapsto> m)"
  shows "owned t' s = owned t s + weight s m"
proof -
  have "dom (table_map t') = insert i (dom (table_map t))" "i \<notin> dom (table_map t)" using assms by auto
  moreover from this have "(\<Sum>k \<in> dom (table_map t). weight s (the (table_map t' k))) = owned t s"
    unfolding owned_def by (intro sum.cong) (auto simp: assms(2))
  ultimately show ?thesis by (simp add: owned_def table_map_finite assms(2))
qed

lemma blocks_update:
  assumes "table_map (mg_table M') = (table_map (mg_table M))(i \<mapsto> m)"
    and "ar_base (mg_arena M') = ar_base (mg_arena M)"
  shows "blocks M' = (blocks M)(i := block_of (ar_base (mg_arena M)) m)"
  using assms by (auto simp: blocks_def fun_eq_iff)

lemma blocks_same:
  "table_map (mg_table M') = table_map (mg_table M) \<Longrightarrow> ar_base (mg_arena M') = ar_base (mg_arena M) \<Longrightarrow>
     blocks M' = blocks M"
  by (simp add: blocks_def fun_eq_iff)

lemma holds_smaller:
  "holds span ok cap fr A \<Longrightarrow> fr' \<subseteq> fr \<Longrightarrow> holds span ok cap fr' A"
  unfolding holds_def by blast

lemma holds_drop:
  "holds span ok cap fr A \<Longrightarrow> holds span ok cap fr (A(k := None))"
  unfolding holds_def by (auto split: if_splits)

section \<open>Eviction\<close>

lemma sessions_get_credit:
  "sessions_inv ss \<Longrightarrow> sessions_get (credit owner n ss) j =
     (if j = owner then map_option (\<lambda>s. s\<lparr>s_resident := s_resident s - n\<rparr>) (sessions_get ss owner)
      else sessions_get ss j)"
  unfolding credit_def by (rule book.get_update) auto

lemma resident_block:
  assumes "mgr_inv_pending pend M" "table_map (mg_table M) i = Some m" "m_resident_at m \<noteq> 0"
  shows "blocks M i = Some (m_resident_at m - ar_base (mg_arena M), m_size m)"
    and "ar_base (mg_arena M) + (m_resident_at m - ar_base (mg_arena M)) = m_resident_at m"
  using assms(2,3) mgr_invD(5) [OF assms(1,2)] by (simp_all add: blocks_def block_of_def entry_ok_def)

lemma evict_cases:
  assumes inv: "mgr_inv_pending pend M" and run: "evict i M = (r, M')"
  obtains (failed) e where "r = Inl e" "M' = M"
      "e = BadObject \<and> table_map (mg_table M) i = None \<or>
       e = NotResident \<and> (\<exists>m. table_map (mg_table M) i = Some m \<and> m_resident_at m = 0) \<or>
       e = NoBudget \<and> length (ar_free (mg_arena M)) = HOLES"
  | (evicted) m a t c where "table_map (mg_table M) i = Some m" "m_resident_at m \<noteq> 0" "r = Inr (m_size m)"
      "arena_release (m_resident_at m) (m_size m) (mg_arena M) = (Inr (), a)"
      "object_class_of i = Some c"
      "table_get_mut i (gone m) (mg_table M) = Some t" "table_inv t"
      "table_map t = (table_map (mg_table M))(i \<mapsto> gone m m)" "length t = length (mg_table M)"
      "M' = M\<lparr>mg_arena := a, mg_counters := count_held c (- int (m_size m)) (mg_counters M),
              mg_sessions := credit (m_owner m) (m_size m) (mg_sessions M),
              mg_evictions := mg_evictions M + 1,
              mg_events := ring_record (event_evicted i (m_owner m) m) (mg_events M), mg_table := t\<rparr>"
proof -
  note I = mgr_invD [OF inv]
  have g: "table_get (mg_table M) i = table_map (mg_table M) i" by (rule table_get_map [OF I(1)])
  show ?thesis
  proof (cases "table_map (mg_table M) i")
    case None
    with run g show ?thesis by (intro failed) (auto simp: evict_def)
  next
    case (Some m)
    show ?thesis
    proof (cases "m_resident_at m = 0")
      case True
      with run g Some show ?thesis by (intro failed) (auto simp: evict_def)
    next
      case False
      have cls: "object_class_of i \<noteq> None" using I(5) [OF Some] False by (simp add: entry_ok_def)
      then obtain c where c: "object_class_of i = Some c" by blast
      show ?thesis
      proof (cases "arena_release (m_resident_at m) (m_size m) (mg_arena M)")
        case (Pair q a)
        show ?thesis
        proof (cases q)
          case (Inl e)
          have "a = mg_arena M" using arena_release_full [OF I(2)] Pair Inl by blast
          moreover have "e = NoBudget" "length (ar_free (mg_arena M)) = HOLES"
            using Pair Inl resident_block(2) [OF inv Some False]
            by (auto simp: arena_release_def checked_sub_def Let_def split: if_splits)
          ultimately show ?thesis using run g Some False Pair Inl
            by (intro failed [of NoBudget]) (auto simp: evict_def)
        next
          case (Inr u)
          obtain t where t: "table_get_mut i (gone m) (mg_table M) = Some t" "table_inv t"
            "table_map t = (table_map (mg_table M))(i \<mapsto> gone m m)"
            using tab.modify_present [OF I(1) Some] by blast
          have "length t = length (mg_table M)" by (rule table_get_mut_length [OF t(1)])
          with run g Some False Pair Inr c t show ?thesis
            by (intro evicted [of m a c t]) (simp_all add: evict_def Let_def)
        qed
      qed
    qed
  qed
qed

lemma evict_inv:
  assumes inv: "mgr_inv_pending pend M" and run: "evict i M = (r, M')"
  shows "mgr_inv_pending pend M'"
  using inv run
proof (cases rule: evict_cases)
  case failed
  with inv show ?thesis by simp
next
  case (evicted m a t c)
  note I = mgr_invD [OF inv] and b = resident_block [OF inv evicted(1,2)]
  let ?start = "m_resident_at m - ar_base (mg_arena M)"
  have "arena_release (ar_base (mg_arena M) + ?start) (m_size m) (mg_arena M) = (Inr (), a)"
    using evicted(4) b(2) by simp
  from alloc.release_holds [OF I(2,6) b(1) this]
  have a: "arena_inv a" "holds aligned (\<lambda>start. ALIGN dvd start) (length (ar_bytes a)) (free_set a) ((blocks M)(i := None))"
    "ar_base a = ar_base (mg_arena M)" by auto
  have "block_of (ar_base (mg_arena M)) (gone m m) = None" by (simp add: block_of_def gone_def)
  then have bl: "blocks M' = (blocks M)(i := None)"
    using blocks_update [of M' M i "gone m m"] evicted(8,10) a(3) by simp
  have acc: "accounts pend M'"
    unfolding accounts_def
  proof (intro allI impI)
    fix j s assume s: "sessions_get (mg_sessions M') j = Some s"
    have ow: "owned t j + weight j m = owned (mg_table M) j"
      using owned_update [OF evicted(1,8), of j] by (simp add: weight_def gone_def)
    from s obtain s0 where s0: "sessions_get (mg_sessions M) j = Some s0"
      "s = (if j = m_owner m then s0\<lparr>s_resident := s_resident s0 - m_size m\<rparr> else s0)"
      by (auto simp: evicted(10) sessions_get_credit [OF I(3)] split: if_splits)
    have "s_resident s0 = owned (mg_table M) j + pend j" "within_ceiling s0"
      using I(8) s0(1) by (auto simp: accounts_def)
    with ow s0(2) evicted(2) show "s_resident s = owned (mg_table M') j + pend j \<and> within_ceiling s"
      by (auto simp: evicted(10) weight_def within_ceiling_def split: if_splits)
  qed
  have ent: "entry_ok (ar_base (mg_arena M')) k m'" if "table_map t k = Some m'" for k m'
    using that I(5) [of k] I(5) [OF evicted(1)] a(3) evicted(8,10)
    by (auto simp: entry_ok_def gone_def split: if_splits)
  show ?thesis
    using I(4,7) evicted(7,10) a bl acc ent credit_good [OF I(3)]
    unfolding mgr_inv_pending_def by simp
qed

lemma ran_remove: "A k = Some b \<Longrightarrow> ran A = insert b (ran (A(k := None)))"
  unfolding ran_def by (auto split: if_splits) (metis option.inject)

lemma evict_no_leak:
  assumes inv: "mgr_inv_pending pend M" and run: "evict i M = (r, M')" and "no_leak M"
  shows "no_leak M'"
  using inv run
proof (cases rule: evict_cases)
  case failed
  with assms show ?thesis by simp
next
  case (evicted m a t c)
  note I = mgr_invD [OF inv] and b = resident_block [OF inv evicted(1,2)]
  let ?start = "m_resident_at m - ar_base (mg_arena M)"
  have "arena_release (ar_base (mg_arena M) + ?start) (m_size m) (mg_arena M) = (Inr (), a)"
    using evicted(4) b(2) by simp
  from alloc.release_holds [OF I(2,6) b(1) this]
  have a: "free_set a = free_set (mg_arena M) \<union> block aligned (?start, m_size m)"
    "length (ar_bytes a) = length (ar_bytes (mg_arena M))" "ar_base a = ar_base (mg_arena M)"
    by (auto simp: block_def)
  have "block_of (ar_base (mg_arena M)) (gone m m) = None" by (simp add: block_of_def gone_def)
  then have bl: "blocks M' = (blocks M)(i := None)"
    using blocks_update [of M' M i "gone m m"] evicted(8,10) a(3) by simp
  have "(\<Union>b \<in> ran (blocks M). block aligned b) =
      (\<Union>b \<in> ran (blocks M'). block aligned b) \<union> block aligned (?start, m_size m)"
    unfolding bl ran_remove [of "blocks M" i, OF b(1)] by auto
  with assms(3) a show ?thesis
    unfolding no_leak_def covers_def by (auto simp: evicted(10) Un_ac)
qed

section \<open>Making room\<close>

text \<open>What evictions can have done to a manager.\<close>

definition thinned :: "manager \<Rightarrow> manager \<Rightarrow> bool" where
  "thinned M M' \<longleftrightarrow>
     (\<forall>k. table_map (mg_table M') k = table_map (mg_table M) k \<or>
        (\<exists>m. table_map (mg_table M) k = Some m \<and> m_resident_at m \<noteq> 0 \<and>
             table_map (mg_table M') k = Some (gone m m))) \<and>
     length (mg_table M') = length (mg_table M) \<and>
     ar_base (mg_arena M') = ar_base (mg_arena M) \<and>
     ar_bytes (mg_arena M') = ar_bytes (mg_arena M) \<and>
     free_set (mg_arena M) \<subseteq> free_set (mg_arena M') \<and>
     mg_providers M' = mg_providers M \<and> mg_policy M' = mg_policy M \<and>
     mg_stream M' = mg_stream M \<and> mg_clock M' = mg_clock M \<and> mg_capacity M' = mg_capacity M \<and>
     mg_last_fault M' = mg_last_fault M"

lemma thinned_refl [simp]: "thinned M M"
  by (simp add: thinned_def)

lemma thinned_absent: "thinned M M' \<Longrightarrow> table_map (mg_table M) k = Some m \<Longrightarrow> m_resident_at m = 0 \<Longrightarrow>
    table_map (mg_table M') k = Some m"
  unfolding thinned_def by (metis option.inject)

lemma thinned_trans:
  assumes "thinned A B" "thinned B C"
  shows "thinned A C"
proof -
  have "table_map (mg_table C) k = table_map (mg_table A) k \<or>
        (\<exists>m. table_map (mg_table A) k = Some m \<and> m_resident_at m \<noteq> 0 \<and>
             table_map (mg_table C) k = Some (gone m m))" for k
  proof (cases "table_map (mg_table B) k = table_map (mg_table A) k")
    case True
    with assms(2) show ?thesis unfolding thinned_def by metis
  next
    case False
    then obtain m where m: "table_map (mg_table A) k = Some m" "m_resident_at m \<noteq> 0"
      "table_map (mg_table B) k = Some (gone m m)" using assms(1) unfolding thinned_def by metis
    have "table_map (mg_table C) k = Some (gone m m)"
      by (rule thinned_absent [OF assms(2) m(3)]) (simp add: gone_def)
    with m show ?thesis by blast
  qed
  with assms show ?thesis unfolding thinned_def by auto
qed

lemma arena_release_bytes [frame]: "ar_bytes (snd (arena_release address n a)) = ar_bytes a"
  by (auto simp: arena_release_def Let_def split: option.splits)

lemma evict_thinned:
  assumes inv: "mgr_inv_pending pend M" and run: "evict i M = (r, M')"
  shows "thinned M M'"
  using inv run
proof (cases rule: evict_cases)
  case (evicted m a t c)
  note I = mgr_invD [OF inv] and b = resident_block [OF inv evicted(1,2)]
  have "arena_release (ar_base (mg_arena M) + (m_resident_at m - ar_base (mg_arena M))) (m_size m)
      (mg_arena M) = (Inr (), a)" using evicted(4) b(2) by simp
  from alloc.release_holds [OF I(2,6) b(1) this]
  have "free_set (mg_arena M) \<subseteq> free_set a" "ar_base a = ar_base (mg_arena M)" by auto
  moreover have "ar_bytes a = ar_bytes (mg_arena M)"
    using arena_release_bytes [of "m_resident_at m" "m_size m" "mg_arena M"] evicted(4) by simp
  ultimately show ?thesis
    unfolding thinned_def using evicted(1,2,8,9,10) by simp
qed simp

text \<open>Making room is a sequence of evictions, so it keeps what every eviction keeps.\<close>

lemma make_room_keeps:
  assumes "\<And>M M' v r. P M \<Longrightarrow> evict v M = (r, M') \<Longrightarrow> P M'" "P M"
  shows "P (make_room w M)"
  using assms(2)
proof (induction w M rule: make_room.induct)
  case (1 w M)
  show ?case
  proof (cases "fits (arena_occupancy (mg_arena M)) (m_size w)")
    case True
    with 1(2) show ?thesis by (simp add: make_room.simps [of w M])
  next
    case nofit: False
    show ?thesis
    proof (cases "mg_policy M")
      case None
      with nofit 1(2) show ?thesis by (simp add: make_room.simps [of w M])
    next
      case (Some p)
      note pol = this
      show ?thesis
      proof (cases "pol_victim p (held_view (mg_table M) (mg_clock M)) w")
        case None
        with nofit pol 1(2) show ?thesis by (simp add: make_room.simps [of w M])
      next
        case (Some v)
        obtain r M1 where ev: "evict v M = (r, M1)" by (cases "evict v M")
        have P1: "P M1" by (rule assms(1) [OF 1(2) ev])
        show ?thesis
        proof (cases r)
          case (Inl e)
          with nofit pol Some ev P1 show ?thesis by (simp add: make_room.simps [of w M])
        next
          case (Inr n)
          from 1(1) [OF nofit pol Some _ Inr P1] ev Inr
          have "P (make_room w M1)" by simp
          with nofit pol Some ev Inr show ?thesis by (simp add: make_room.simps [of w M])
        qed
      qed
    qed
  qed
qed

text \<open>What it stops on: room, no policy, a policy that declines, or an eviction that is refused.\<close>

definition stuck :: "object_meta \<Rightarrow> manager \<Rightarrow> bool" where
  "stuck w M \<longleftrightarrow>
     (case mg_policy M of
        None \<Rightarrow> True
      | Some p \<Rightarrow>
          (case pol_victim p (held_view (mg_table M) (mg_clock M)) w of
             None \<Rightarrow> True
           | Some v \<Rightarrow> (case fst (evict v M) of Inl _ \<Rightarrow> True | Inr _ \<Rightarrow> False)))"

lemma make_room_stops:
  assumes "mgr_inv_pending pend M"
  shows "fits (arena_occupancy (mg_arena (make_room w M))) (m_size w) \<or> stuck w (make_room w M)"
  using assms
proof (induction w M rule: make_room.induct)
  case (1 w M)
  show ?case
  proof (cases "fits (arena_occupancy (mg_arena M)) (m_size w)")
    case True
    then show ?thesis by (simp add: make_room.simps [of w M])
  next
    case nofit: False
    show ?thesis
    proof (cases "stuck w M")
      case True
      have "make_room w M = M"
      proof (cases "mg_policy M")
        case (Some p)
        note pol = this
        show ?thesis
        proof (cases "pol_victim p (held_view (mg_table M) (mg_clock M)) w")
          case (Some v)
          obtain r M1 where ev: "evict v M = (r, M1)" by (cases "evict v M")
          with True pol Some obtain e where "r = Inl e" by (auto simp: stuck_def split: sum.splits)
          moreover from 1(2) ev this have "M1 = M" by (cases rule: evict_cases) auto
          ultimately show ?thesis using nofit pol Some ev by (simp add: make_room.simps [of w M])
        qed (simp add: make_room.simps [of w M] nofit pol)
      qed (simp add: make_room.simps [of w M] nofit)
      with True show ?thesis by simp
    next
      case False
      then obtain p v n M1 where pv: "mg_policy M = Some p"
        "pol_victim p (held_view (mg_table M) (mg_clock M)) w = Some v" "evict v M = (Inr n, M1)"
        by (auto simp: stuck_def split: option.splits sum.splits) (metis prod.collapse)
      have "mgr_inv_pending pend M1" by (rule evict_inv [OF 1(2) pv(3)])
      from 1(1) [OF nofit pv(1,2) _ refl this] pv(3)
      have "fits (arena_occupancy (mg_arena (make_room w M1))) (m_size w) \<or> stuck w (make_room w M1)" by simp
      moreover have "make_room w M = make_room w M1"
        using nofit pv by (simp add: make_room.simps [of w M])
      ultimately show ?thesis by simp
    qed
  qed
qed

lemma make_room_inv:
  assumes "mgr_inv_pending pend M"
  shows "mgr_inv_pending pend (make_room w M)" "thinned M (make_room w M)"
    "no_leak M \<Longrightarrow> no_leak (make_room w M)"
proof -
  let ?P = "\<lambda>M'. mgr_inv_pending pend M' \<and> thinned M M' \<and> (no_leak M \<longrightarrow> no_leak M')"
  have step: "?P M2" if "?P M1" "evict v M1 = (r, M2)" for M1 M2 v r
    using that evict_inv [OF _ that(2)] evict_thinned [OF _ that(2)] evict_no_leak [OF _ that(2)]
      thinned_trans by blast
  have "?P M" using assms by simp
  with step have "?P (make_room w M)" by (rule make_room_keeps [of ?P])
  then show "mgr_inv_pending pend (make_room w M)" "thinned M (make_room w M)"
    "no_leak M \<Longrightarrow> no_leak (make_room w M)" by blast+
qed

section \<open>Charging and placing\<close>

definition pending :: "object_meta \<Rightarrow> session_id \<Rightarrow> nat" where
  "pending m = (\<lambda>_. 0)(m_owner m := m_size m)"

lemma blocks_fields [simp]:
  "blocks (M\<lparr>mg_sessions := ss\<rparr>) = blocks M" "blocks (M\<lparr>mg_clock := n\<rparr>) = blocks M"
  "blocks (M\<lparr>mg_last_fault := f\<rparr>) = blocks M" "blocks (M\<lparr>mg_events := r\<rparr>) = blocks M"
  "blocks (M\<lparr>mg_counters := ct\<rparr>) = blocks M" "blocks (M\<lparr>mg_providers := ps\<rparr>) = blocks M"
  "blocks (M\<lparr>mg_policy := pol\<rparr>) = blocks M" "blocks (M\<lparr>mg_stream := st\<rparr>) = blocks M"
  "blocks (M\<lparr>mg_evictions := n\<rparr>) = blocks M" "blocks (M\<lparr>mg_capacity := cap\<rparr>) = blocks M"
  by (simp_all add: blocks_def fun_eq_iff)

lemma mgr_inv_fields [simp]:
  "mgr_inv_pending pend (M\<lparr>mg_clock := n\<rparr>) \<longleftrightarrow> mgr_inv_pending pend M"
  "mgr_inv_pending pend (M\<lparr>mg_last_fault := f\<rparr>) \<longleftrightarrow> mgr_inv_pending pend M"
  "mgr_inv_pending pend (M\<lparr>mg_events := r\<rparr>) \<longleftrightarrow> mgr_inv_pending pend M"
  "mgr_inv_pending pend (M\<lparr>mg_counters := ct\<rparr>) \<longleftrightarrow> mgr_inv_pending pend M"
  "mgr_inv_pending pend (M\<lparr>mg_policy := pol\<rparr>) \<longleftrightarrow> mgr_inv_pending pend M"
  "mgr_inv_pending pend (M\<lparr>mg_stream := st\<rparr>) \<longleftrightarrow> mgr_inv_pending pend M"
  "mgr_inv_pending pend (M\<lparr>mg_capacity := cap\<rparr>) \<longleftrightarrow> mgr_inv_pending pend M"
  by (simp_all add: mgr_inv_pending_def accounts_def)

lemma sessions_get_charge:
  assumes "sessions_inv ss" "charge owner sz p ss = (Inr u, ss')"
  shows "sessions_get ss' j = (if j = owner
      then map_option (\<lambda>s. charged (s_resident s + sz) p s) (sessions_get ss owner) else sessions_get ss j)"
  using assms(1)
proof (cases rule: charge_cases [of ss owner sz p])
  case (counted s)
  with assms(2) have "ss' = sessions_update owner (charged (s_resident s + sz) p) ss" by simp
  with counted(1) show ?thesis by (simp add: book.get_update [OF assms(1)])
qed (use assms(2) in simp_all)

lemma charge_within:
  assumes "sessions_inv ss" "charge owner sz p ss = (Inr u, ss')" "sessions_get ss owner = Some s"
  shows "within_ceiling (charged (s_resident s + sz) p s)"
  using assms(1)
proof (cases rule: charge_cases [of ss owner sz p])
  case (counted s')
  with assms(3) show ?thesis by (auto simp: within_ceiling_def charged_def)
qed (use assms(2,3) in simp_all)

lemma charge_pending:
  assumes inv: "mgr_inv M" and run: "charge (m_owner m) (m_size m) p (mg_sessions M) = (Inr u, ss)"
  shows "mgr_inv_pending (pending m) (M\<lparr>mg_sessions := ss\<rparr>)"
proof -
  note I = mgr_invD [OF inv [unfolded mgr_inv_def]]
  have "accounts (pending m) (M\<lparr>mg_sessions := ss\<rparr>)"
    using I(8) sessions_get_charge [OF I(3) run] charge_within [OF I(3) run]
    by (auto simp: accounts_def pending_def split: if_splits)
  moreover have "sessions_inv ss" using charge_good [OF I(3), of "m_owner m" "m_size m" p] run by simp
  ultimately show ?thesis using inv by (simp add: mgr_inv_def mgr_inv_pending_def)
qed

text \<open>Giving the charge back.\<close>

lemma credit_pending:
  assumes "mgr_inv_pending (pending m) M"
  shows "mgr_inv (M\<lparr>mg_sessions := credit (m_owner m) (m_size m) (mg_sessions M)\<rparr>)"
proof -
  note I = mgr_invD [OF assms]
  have "accounts (\<lambda>_. 0) (M\<lparr>mg_sessions := credit (m_owner m) (m_size m) (mg_sessions M)\<rparr>)"
    using I(8) by (fastforce simp: accounts_def pending_def sessions_get_credit [OF I(3)]
        within_ceiling_def split: if_splits)
  then show ?thesis using assms credit_good [OF I(3)] by (simp add: mgr_inv_def mgr_inv_pending_def)
qed

lemma arena_write_facts:
  assumes "start + length data \<le> length (ar_bytes a)"
  shows "length (ar_bytes (arena_write start data a)) = length (ar_bytes a)"
    "free_set (arena_write start data a) = free_set a" "ar_base (arena_write start data a) = ar_base a"
    "ar_free (arena_write start data a) = ar_free a"
    "arena_inv (arena_write start data a) = arena_inv a"
    "take (length data) (drop start (ar_bytes (arena_write start data a))) = data"
  using assms by (auto simp: arena_write_def free_set_def arena_inv_def)

lemma mgr_place_cases:
  assumes inv: "mgr_inv_pending pend M" and m: "table_map (mg_table M) i = Some m"
    and c: "object_class_of i = Some c" and p: "Some p \<in> set (mg_providers M)"
    and run: "mgr_place i (located_new i m) p l wanted M = (r, M')"
  obtains (full) "r = Inl NoBudget" "M' = M" "\<forall>h \<in> set (ar_free (mg_arena M)). h_len h < aligned (m_size m)"
  | (unread) e address start a room where "r = Inl e"
      "arena_place (m_size m) (mg_arena M) = (Inr (address, start, m_size m), a)"
      "pr_read p (located_new i m) 0 (take (m_size m) (drop start (ar_bytes (mg_arena M)))) = (Inl e, room)"
      "length room = m_size m" "M' = M\<lparr>mg_arena := arena_write start room a\<rparr>"
  | (placed) address start a room n t where
      "r = Inr \<lparr>hd_id = i, hd_address = address, hd_size = m_size m\<rparr>"
      "arena_place (m_size m) (mg_arena M) = (Inr (address, start, m_size m), a)"
      "pr_read p (located_new i m) 0 (take (m_size m) (drop start (ar_bytes (mg_arena M)))) = (Inr n, room)"
      "length room = m_size m"
      "table_inv t" "length t = length (mg_table M)"
      "table_map t = (table_map (mg_table M))(i \<mapsto> placed_meta address wanted (mg_clock M) l m)"
      "M' = M\<lparr>mg_arena := arena_write start room a,
              mg_counters := count_held c (int (m_size m)) (mg_counters M), mg_table := t\<rparr>"
proof -
  note I = mgr_invD [OF inv]
  have pos: "0 < m_size m" using I(5) [OF m] by (simp add: entry_ok_def)
  have sz: "lo_size (located_new i m) = m_size m" by (simp add: located_new_def)
  obtain q a where q: "arena_place (m_size m) (mg_arena M) = (q, a)" by (cases "arena_place (m_size m) (mg_arena M)")
  show ?thesis
  proof (cases q)
    case (Inl e)
    have "a = mg_arena M" using arena_place_refused_same [OF I(2)] q Inl by blast
    moreover have "e = NoBudget" "\<forall>h \<in> set (ar_free (mg_arena M)). h_len h < aligned (m_size m)"
      using arena_place_refused [OF I(2), of "m_size m" e] q Inl by auto
    ultimately show ?thesis using run q Inl sz by (intro full) (auto simp: mgr_place_def)
  next
    case (Inr x)
    obtain address start len where x: "x = (address, start, len)" by (cases x)
    note P = arena_place_sound [OF I(2) pos q [unfolded Inr x]]
    have bytes: "ar_bytes a = ar_bytes (mg_arena M)"
      using arena_place_frame [of "m_size m" "mg_arena M"] q by simp
    let ?into = "take (m_size m) (drop start (ar_bytes (mg_arena M)))"
    have lin: "length ?into = m_size m"
      using P(5) aligned_facts(2) [of "m_size m"] by simp
    obtain rr room where rd: "pr_read p (located_new i m) 0 ?into = (rr, room)"
      by (cases "pr_read p (located_new i m) 0 ?into")
    have lr: "length room = m_size m"
      using I(7) p lin rd unfolding providers_ok_def by (metis snd_conv)
    show ?thesis
    proof (cases rr)
      case (Inl e)
      with run q Inr x rd lr P(3) bytes sz show ?thesis
        by (intro unread [of e address start a room]) (auto simp: mgr_place_def Let_def)
    next
      case n: (Inr n)
      obtain t where t: "table_get_mut i (placed_meta address wanted (mg_clock M) l) (mg_table M) = Some t"
        "table_inv t" "table_map t = (table_map (mg_table M))(i \<mapsto> placed_meta address wanted (mg_clock M) l m)"
        using tab.modify_present [OF I(1) m] by blast
      have "length t = length (mg_table M)" by (rule table_get_mut_length [OF t(1)])
      with run q Inr x rd lr P(3) bytes sz n c t show ?thesis
        by (intro placed [of address start a n room t]) (auto simp: mgr_place_def Let_def)
    qed
  qed
qed

lemma mgr_place_inv:
  assumes inv: "mgr_inv_pending (pending m) M" and m: "table_map (mg_table M) i = Some m"
    and absent: "m_resident_at m = 0"
    and c: "object_class_of i = Some c" and p: "Some p \<in> set (mg_providers M)"
    and run: "mgr_place i (located_new i m) p l wanted M = (r, M')"
  shows "case r of Inl _ \<Rightarrow> mgr_inv_pending (pending m) M' | Inr _ \<Rightarrow> mgr_inv M'"
  using inv m c p run
proof (cases rule: mgr_place_cases)
  case full
  with inv show ?thesis by simp
next
  case (unread e address start a room)
  note I = mgr_invD [OF inv]
  have pos: "0 < m_size m" using I(5) [OF m] by (simp add: entry_ok_def)
  note P = arena_place_sound [OF I(2) pos unread(2)]
  have fr: "ar_bytes a = ar_bytes (mg_arena M)" "ar_base a = ar_base (mg_arena M)"
    using arena_place_frame [of "m_size m" "mg_arena M"] unread(2) by simp_all
  have "start + length room \<le> length (ar_bytes a)"
    using P(5) aligned_facts(2) [of "m_size m"] unread(4) fr(1) by simp
  note W = arena_write_facts [OF this]
  have "blocks M' = blocks M" by (rule blocks_same) (simp_all add: unread(5) W(3) fr(2))
  moreover have "holds aligned (\<lambda>start. ALIGN dvd start) (length (ar_bytes (mg_arena M))) (free_set a) (blocks M)"
    by (rule holds_smaller [OF I(6)]) (use P(7) in blast)
  moreover have "accounts (pending m) M'" using I(8) by (simp add: accounts_def unread(5))
  ultimately have "mgr_inv_pending (pending m) M'"
    using I P(1) W fr unfolding mgr_inv_pending_def by (simp add: unread(5))
  then show ?thesis by (simp add: unread(1))
next
  case (placed address start a room n t)
  note I = mgr_invD [OF inv]
  have pos: "0 < m_size m" using I(5) [OF m] by (simp add: entry_ok_def)
  note P = arena_place_sound [OF I(2) pos placed(2)]
  have fr: "ar_bytes a = ar_bytes (mg_arena M)" "ar_base a = ar_base (mg_arena M)"
    using arena_place_frame [of "m_size m" "mg_arena M"] placed(2) by simp_all
  have "start + length room \<le> length (ar_bytes a)"
    using P(5) aligned_facts(2) [of "m_size m"] placed(4) fr(1) by simp
  note W = arena_write_facts [OF this]
  let ?m = "placed_meta address wanted (mg_clock M) l m"
  have ad: "address \<noteq> 0" "ar_base (mg_arena M) \<le> address" using P(2) I(4) by simp_all
  have blk: "block_of (ar_base (mg_arena M)) ?m = Some (start, m_size m)"
    using ad P(2) by (simp add: block_of_def placed_meta_def)
  have bl: "blocks M' = (blocks M)(i \<mapsto> (start, m_size m))"
    using blocks_update [of M' M i ?m] placed(7) W(3) fr(2) blk by (simp add: placed(8))
  have ho: "holds aligned (\<lambda>start. ALIGN dvd start) (length (ar_bytes a)) (free_set a)
      ((blocks M)(i \<mapsto> (start, m_size m)))"
    by (rule alloc.place_holds [OF I(2) pos placed(2) I(6)])
  have acc: "accounts (\<lambda>_. 0) M'"
    unfolding accounts_def
  proof (intro allI impI)
    fix j s assume s: "sessions_get (mg_sessions M') j = Some s"
    have "owned t j + weight j m = owned (mg_table M) j + weight j ?m"
      by (rule owned_update [OF m placed(7)])
    then have "owned t j = owned (mg_table M) j + pending m j"
      using absent ad(1) by (auto simp: weight_def placed_meta_def pending_def)
    with I(8) s show "s_resident s = owned (mg_table M') j + 0 \<and> within_ceiling s"
      by (simp add: accounts_def placed(8))
  qed
  have ent: "entry_ok (ar_base a) k m'" if "table_map t k = Some m'" for k m'
    using that I(5) [of k] I(5) [OF m] ad fr(2) c placed(7)
    by (auto simp: entry_ok_def placed_meta_def split: if_splits)
  have "mgr_inv M'"
    using I placed(5) P(1) W fr bl ho acc ent
    unfolding mgr_inv_def mgr_inv_pending_def by (simp add: placed(8))
  then show ?thesis by (simp add: placed(1))
qed

section \<open>A fault\<close>

lemma mgr_admit_cases:
  assumes inv: "mgr_inv M" and m: "table_map (mg_table M) i = Some m" and c: "object_class_of i = Some c"
    and run: "mgr_admit i loc p l wanted M = (r, M')"
  obtains (ceiling) s where "r = Inl Refused" "M' = M"
      "sessions_get (mg_sessions M) (m_owner m) = Some s" "c_resident_ceiling (s_contract s) \<noteq> 0"
      "c_resident_ceiling (s_contract s) < s_resident s + m_size m"
  | (failed) ss e M2 where "charge (m_owner m) (m_size m) (m_precision m) (mg_sessions M) = (Inr (), ss)"
      "mgr_place i loc p l wanted (make_room m (M\<lparr>mg_sessions := ss\<rparr>)) = (Inl e, M2)" "r = Inl e"
      "M' = M2\<lparr>mg_sessions := credit (m_owner m) (m_size m) (mg_sessions M2)\<rparr>"
  | (served) ss h M2 where "charge (m_owner m) (m_size m) (m_precision m) (mg_sessions M) = (Inr (), ss)"
      "mgr_place i loc p l wanted (make_room m (M\<lparr>mg_sessions := ss\<rparr>)) = (Inr h, M2)" "r = Inr h"
      "M' = M2\<lparr>mg_counters := count_fault c (m_size m) (mg_counters M2)\<rparr>"
proof -
  note I = mgr_invD [OF inv [unfolded mgr_inv_def]]
  have g: "table_get (mg_table M) i = Some m" by (simp add: table_get_map [OF I(1)] m)
  obtain q ss where q: "charge (m_owner m) (m_size m) (m_precision m) (mg_sessions M) = (q, ss)"
    by (cases "charge (m_owner m) (m_size m) (m_precision m) (mg_sessions M)")
  show ?thesis
  proof (cases q)
    case (Inl e)
    from I(3) show ?thesis
    proof (cases rule: charge_cases [of "mg_sessions M" "m_owner m" "m_size m" "m_precision m"])
      case (refused s)
      with run g show ?thesis by (intro ceiling [of s]) (auto simp: mgr_admit_def)
    qed (use q Inl in simp_all)
  next
    case (Inr u)
    obtain pr M2 where pl: "mgr_place i loc p l wanted (make_room m (M\<lparr>mg_sessions := ss\<rparr>)) = (pr, M2)"
      by (cases "mgr_place i loc p l wanted (make_room m (M\<lparr>mg_sessions := ss\<rparr>))")
    show ?thesis
    proof (cases pr)
      case (Inl e)
      with run g q Inr pl show ?thesis by (intro failed [of ss e M2]) (auto simp: mgr_admit_def)
    next
      case h: (Inr h)
      with run g q Inr pl c show ?thesis by (intro served [of ss h M2]) (auto simp: mgr_admit_def)
    qed
  qed
qed

text \<open>What a fault on \<open>i\<close> can have done to the other objects.\<close>

definition others_thinned :: "object_id \<Rightarrow> manager \<Rightarrow> manager \<Rightarrow> bool" where
  "others_thinned i M M' \<longleftrightarrow>
     (\<forall>k. k \<noteq> i \<longrightarrow> table_map (mg_table M') k = table_map (mg_table M) k \<or>
        (\<exists>m. table_map (mg_table M) k = Some m \<and> m_resident_at m \<noteq> 0 \<and>
             table_map (mg_table M') k = Some (gone m m)))"

lemma mgr_admit_spec:
  assumes inv: "mgr_inv M" and m: "table_map (mg_table M) i = Some m" and absent: "m_resident_at m = 0"
    and c: "object_class_of i = Some c" and p: "Some p \<in> set (mg_providers M)"
    and run: "mgr_admit i (located_new i m) p l wanted M = (r, M')"
  shows "mgr_inv M' \<and> others_thinned i M M' \<and>
    ar_base (mg_arena M') = ar_base (mg_arena M) \<and>
    length (ar_bytes (mg_arena M')) = length (ar_bytes (mg_arena M)) \<and>
    mg_providers M' = mg_providers M \<and> length (mg_table M') = length (mg_table M) \<and>
    (case r of
       Inl _ \<Rightarrow> table_map (mg_table M') i = Some m
     | Inr h \<Rightarrow> \<exists>n before room.
         length before = m_size m \<and> pr_read p (located_new i m) 0 before = (Inr n, room) \<and>
         table_map (mg_table M') i = Some (placed_meta (hd_address h) wanted (mg_clock M) l m) \<and>
         hd_id h = i \<and> hd_size h = m_size m \<and> hd_address h \<noteq> 0 \<and>
         take (m_size m) (drop (hd_address h - ar_base (mg_arena M)) (ar_bytes (mg_arena M'))) = room)"
  using inv m c run
proof (cases rule: mgr_admit_cases)
  case ceiling
  with inv m show ?thesis by (simp add: others_thinned_def)
next
  case (failed ss e M2)
  let ?M1 = "M\<lparr>mg_sessions := ss\<rparr>"
  note I1 = charge_pending [OF inv failed(1)]
  note R = make_room_inv [OF I1, of m]
  have m1: "table_map (mg_table (make_room m ?M1)) i = Some m"
    using thinned_absent [OF R(2), of i m] m absent by simp
  have p1: "Some p \<in> set (mg_providers (make_room m ?M1))" using R(2) p by (simp add: thinned_def)
  have I2: "mgr_inv_pending (pending m) M2"
    using mgr_place_inv [OF R(1) m1 absent c p1 failed(2)] by simp
  note I3 = credit_pending [OF I2]
  from R(1) m1 c p1 failed(2)
  have M2: "mg_table M2 = mg_table (make_room m ?M1) \<and> ar_base (mg_arena M2) = ar_base (mg_arena M) \<and>
      length (ar_bytes (mg_arena M2)) = length (ar_bytes (mg_arena M)) \<and> mg_providers M2 = mg_providers M"
  proof (cases rule: mgr_place_cases)
    case (unread e address start a room)
    note J = mgr_invD [OF R(1)]
    have pos: "0 < m_size m" using J(5) [OF m1] by (simp add: entry_ok_def)
    note P = arena_place_sound [OF J(2) pos unread(2)]
    have fr: "ar_bytes a = ar_bytes (mg_arena (make_room m ?M1))" "ar_base a = ar_base (mg_arena (make_room m ?M1))"
      using arena_place_frame [of "m_size m" "mg_arena (make_room m ?M1)"] unread(2) by simp_all
    have "start + length room \<le> length (ar_bytes a)"
      using P(5) aligned_facts(2) [of "m_size m"] unread(4) fr(1) by simp
    note W = arena_write_facts [OF this]
    show ?thesis
      using W fr R(2) by (simp add: unread(5) thinned_def)
  qed (use R(2) in \<open>simp_all add: thinned_def\<close>)
  have "others_thinned i M M'"
    using R(2) by (simp add: others_thinned_def failed(4) M2 thinned_def)
  then show ?thesis using I3 M2 R(2) m1 by (simp add: failed(3,4) thinned_def)
next
  case (served ss h M2)
  let ?M1 = "M\<lparr>mg_sessions := ss\<rparr>"
  note I1 = charge_pending [OF inv served(1)]
  note R = make_room_inv [OF I1, of m]
  have m1: "table_map (mg_table (make_room m ?M1)) i = Some m"
    using thinned_absent [OF R(2), of i m] m absent by simp
  have p1: "Some p \<in> set (mg_providers (make_room m ?M1))" using R(2) p by (simp add: thinned_def)
  have I2: "mgr_inv M2"
    using mgr_place_inv [OF R(1) m1 absent c p1 served(2)] by simp
  from R(1) m1 c p1 served(2) show ?thesis
  proof (cases rule: mgr_place_cases)
    case (placed address start a room n t)
    note J = mgr_invD [OF R(1)]
    have pos: "0 < m_size m" using J(5) [OF m1] by (simp add: entry_ok_def)
    note P = arena_place_sound [OF J(2) pos placed(2)]
    have fr: "ar_bytes a = ar_bytes (mg_arena (make_room m ?M1))" "ar_base a = ar_base (mg_arena (make_room m ?M1))"
      using arena_place_frame [of "m_size m" "mg_arena (make_room m ?M1)"] placed(2) by simp_all
    have sl: "start + m_size m \<le> length (ar_bytes (mg_arena (make_room m ?M1)))"
      using P(5) aligned_facts(2) [of "m_size m"] by simp
    then have "start + length room \<le> length (ar_bytes a)" using placed(4) fr(1) by simp
    note W = arena_write_facts [OF this]
    have h: "h = \<lparr>hd_id = i, hd_address = address, hd_size = m_size m\<rparr>" using placed(1) by simp
    have base: "ar_base (mg_arena (make_room m ?M1)) = ar_base (mg_arena M)"
      "mg_clock (make_room m ?M1) = mg_clock M" using R(2) by (simp_all add: thinned_def)
    have ad: "address = ar_base (mg_arena M) + start" "address \<noteq> 0"
      using P(2) J(4) base by simp_all
    have "others_thinned i M M'"
      using R(2) placed(7) by (simp add: others_thinned_def served(4) placed(8) thinned_def)
    moreover have "mgr_inv M'" using I2 by (simp add: served(4) mgr_inv_def)
    moreover have ex: "\<exists>n before. length before = m_size m \<and> pr_read p (located_new i m) 0 before = (Inr n, room)"
      using sl placed(3)
      by (intro exI [of _ n] exI [of _ "take (m_size m) (drop start (ar_bytes (mg_arena (make_room m ?M1))))"])
        simp
    moreover have "take (m_size m) (drop start (ar_bytes (arena_write start room a))) = room"
      using W(6) placed(4) by simp
    ultimately show ?thesis
      using R(2) placed(6,7) W fr base ad
      by (simp add: served(3,4) placed(8) h thinned_def)
  qed simp_all
qed

section \<open>Acquiring, releasing, registering\<close>

text \<open>Rewriting an entry without touching its size, owner or place.\<close>

definition same_place :: "(object_meta \<Rightarrow> object_meta) \<Rightarrow> bool" where
  "same_place f \<longleftrightarrow>
     (\<forall>m. m_size (f m) = m_size m \<and> m_owner (f m) = m_owner m \<and> m_resident_at (f m) = m_resident_at m)"

lemma same_place_metas [simp]: "same_place (hit_meta now wanted l)" "same_place (release_meta l)"
  by (simp_all add: same_place_def hit_meta_def release_meta_def)

lemma get_mut_inv:
  assumes inv: "mgr_inv_pending pend M" and t: "table_get_mut i f (mg_table M) = Some t" and f: "same_place f"
  shows "mgr_inv_pending pend (M\<lparr>mg_table := t\<rparr>)" "blocks (M\<lparr>mg_table := t\<rparr>) = blocks M"
proof -
  note I = mgr_invD [OF inv]
  from tab.modify_Some [OF I(1) t] obtain m where m: "table_map (mg_table M) i = Some m"
    "table_inv t" "table_map t = (table_map (mg_table M))(i \<mapsto> f m)" by blast
  have "block_of b (f m) = block_of b m" for b using f by (simp add: same_place_def block_of_def)
  then show bl: "blocks (M\<lparr>mg_table := t\<rparr>) = blocks M"
    using m by (auto simp: blocks_def fun_eq_iff)
  have "owned t s = owned (mg_table M) s" for s
  proof -
    have "weight s (f m) = weight s m" using f by (simp add: same_place_def weight_def)
    with owned_update [OF m(1,3), of s] show ?thesis by simp
  qed
  then have "accounts pend (M\<lparr>mg_table := t\<rparr>)" using I(8) by (simp add: accounts_def)
  moreover have "entry_ok (ar_base (mg_arena M)) k m'" if "table_map t k = Some m'" for k m'
    using that m(1,3) I(5) [of k] f by (auto simp: entry_ok_def same_place_def split: if_splits)
  ultimately show "mgr_inv_pending pend (M\<lparr>mg_table := t\<rparr>)"
    using I m(2) bl unfolding mgr_inv_pending_def by simp
qed

lemma provider_for_mem: "provider_for m M = Inr p \<Longrightarrow> Some p \<in> set (mg_providers M)"
  by (auto simp: provider_for_def split: option.splits) (metis nth_mem)

lemma service_spec:
  assumes inv: "mgr_inv M" and absent: "\<forall>m. table_map (mg_table M) i = Some m \<longrightarrow> m_resident_at m = 0"
    and run: "service i l who wanted M = (r, M')"
  shows "mgr_inv M' \<and> others_thinned i M M' \<and>
    ar_base (mg_arena M') = ar_base (mg_arena M) \<and>
    length (ar_bytes (mg_arena M')) = length (ar_bytes (mg_arena M)) \<and>
    mg_providers M' = mg_providers M \<and> length (mg_table M') = length (mg_table M) \<and>
    (case r of
       Inl _ \<Rightarrow> table_map (mg_table M') i = table_map (mg_table M) i
     | Inr h \<Rightarrow> \<exists>m p n before room.
         table_map (mg_table M) i = Some m \<and> provider_for m M = Inr p \<and>
         length before = m_size m \<and> pr_read p (located_new i m) 0 before = (Inr n, room) \<and>
         table_map (mg_table M') i = Some (placed_meta (hd_address h) wanted (mg_clock M) l m) \<and>
         hd_id h = i \<and> hd_size h = m_size m \<and> hd_address h \<noteq> 0 \<and>
         take (m_size m) (drop (hd_address h - ar_base (mg_arena M)) (ar_bytes (mg_arena M'))) = room)"
proof -
  note I = mgr_invD [OF inv [unfolded mgr_inv_def]]
  have g: "table_get (mg_table M) i = table_map (mg_table M) i" by (rule table_get_map [OF I(1)])
  have none: ?thesis if "r = Inl e" "M' = M" for e
    using that inv by (simp add: others_thinned_def)
  show ?thesis
  proof (cases "table_map (mg_table M) i")
    case None
    with run g show ?thesis by (intro none [of BadObject]) (simp_all add: service_def)
  next
    case (Some m)
    show ?thesis
    proof (cases "provider_for m M")
      case (Inl e)
      with run g Some show ?thesis by (intro none [of e]) (simp_all add: service_def)
    next
      case (Inr p)
      show ?thesis
      proof (cases "object_class_of i")
        case None
        with run g Some Inr show ?thesis
          by (intro none [of BadClass]) (simp_all add: service_def model_fault_new_def Let_def)
      next
        case c: (Some c)
        obtain fault where f: "model_fault_new i who (for_bytes (pr_cost p (located_new i m)) (m_size m)) = Some fault"
          by (simp add: model_fault_new_def c)
        let ?M = "M\<lparr>mg_last_fault := Some fault\<rparr>"
        obtain q M1 where q: "mgr_admit i (located_new i m) p l wanted ?M = (q, M1)"
          by (cases "mgr_admit i (located_new i m) p l wanted ?M")
        have inv1: "mgr_inv ?M" using inv by (simp add: mgr_inv_def)
        have m1: "table_map (mg_table ?M) i = Some m" using Some by simp
        have p1: "Some p \<in> set (mg_providers ?M)" using provider_for_mem [OF Inr] by simp
        have a: "m_resident_at m = 0" using absent Some by blast
        note S = mgr_admit_spec [OF inv1 m1 a c p1 q]
        have M': "r = q" "M' = M1\<lparr>mg_events := mg_events M'\<rparr>"
          using run g Some Inr f q by (auto simp: service_def Let_def)
        have eq: "mg_table M' = mg_table M1" "mg_arena M' = mg_arena M1" "mg_providers M' = mg_providers M1"
          by (subst M'(2), simp)+
        have "mgr_inv M'" using S by (subst M'(2)) (simp add: mgr_inv_def)
        with S M'(1) Some Inr show ?thesis
          unfolding eq others_thinned_def by (auto split: sum.splits)
      qed
    qed
  qed
qed

lemma acquire_spec:
  assumes inv: "mgr_inv M" and run: "acquire i l who M = (r, M')"
  shows "mgr_inv M' \<and> others_thinned i M M' \<and>
    ar_base (mg_arena M') = ar_base (mg_arena M) \<and>
    length (ar_bytes (mg_arena M')) = length (ar_bytes (mg_arena M)) \<and>
    mg_providers M' = mg_providers M \<and> length (mg_table M') = length (mg_table M) \<and>
    (case r of
       Inl _ \<Rightarrow> table_map (mg_table M') i = table_map (mg_table M) i
     | Inr h \<Rightarrow> \<exists>m m'. table_map (mg_table M) i = Some m \<and> table_map (mg_table M') i = Some m' \<and>
         m_size m' = m_size m \<and> m_owner m' = m_owner m \<and> m_resident_at m' = hd_address h \<and>
         hd_address h \<noteq> 0 \<and> hd_id h = i \<and> hd_size h = m_size m \<and>
         (if m_resident_at m \<noteq> 0 then hd_address h = m_resident_at m \<and> mg_arena M' = mg_arena M
          else \<exists>p n before room. provider_for m M = Inr p \<and> length before = m_size m \<and>
            pr_read p (located_new i m) 0 before = (Inr n, room) \<and>
            take (m_size m) (drop (hd_address h - ar_base (mg_arena M)) (ar_bytes (mg_arena M'))) = room))"
proof -
  note I = mgr_invD [OF inv [unfolded mgr_inv_def]]
  have g: "table_get (mg_table M) i = table_map (mg_table M) i" by (rule table_get_map [OF I(1)])
  let ?now = "sat_add 32 (mg_clock M) 1" and ?w = "next_after (mg_stream M) i"
  let ?M = "M\<lparr>mg_clock := ?now\<rparr>"
  show ?thesis
  proof (cases "\<exists>m. table_map (mg_table M) i = Some m \<and> m_resident_at m \<noteq> 0")
    case True
    then obtain m where m: "table_map (mg_table M) i = Some m" "m_resident_at m \<noteq> 0" by blast
    obtain c where c: "object_class_of i = Some c" using I(5) [OF m(1)] m(2) by (auto simp: entry_ok_def)
    obtain t where t: "table_get_mut i (hit_meta ?now ?w l) (mg_table M) = Some t"
      "table_map t = (table_map (mg_table M))(i \<mapsto> hit_meta ?now ?w l m)"
      using tab.modify_present [OF I(1) m(1)] by blast
    have len: "length t = length (mg_table M)" by (rule table_get_mut_length [OF t(1)])
    have rM: "r = Inr \<lparr>hd_id = i, hd_address = m_resident_at m, hd_size = m_size m\<rparr>"
      "M' = ?M\<lparr>mg_counters := count_hit c (m_size m) (mg_counters M), mg_table := t,
              mg_events := ring_record (event_hit i who (m_size m)) (mg_events M)\<rparr>"
      using run g m c t(1) by (simp_all add: acquire_def Let_def)
    have "mgr_inv_pending (\<lambda>_. 0) (M\<lparr>mg_table := t\<rparr>)"
      using get_mut_inv [OF inv [unfolded mgr_inv_def] t(1)] by simp
    moreover have "M' = M\<lparr>mg_table := t\<rparr>\<lparr>mg_clock := ?now, mg_counters := count_hit c (m_size m) (mg_counters M),
        mg_events := ring_record (event_hit i who (m_size m)) (mg_events M)\<rparr>" by (simp add: rM(2))
    ultimately have "mgr_inv M'" by (simp add: mgr_inv_def)
    with m t(2) len show ?thesis
      by (simp add: rM others_thinned_def hit_meta_def)
  next
    case False
    have inv1: "mgr_inv ?M" using inv by (simp add: mgr_inv_def)
    have run1: "service i l who ?w ?M = (r, M')"
      using run g False by (auto simp: acquire_def Let_def split: option.splits)
    have a1: "\<forall>m. table_map (mg_table ?M) i = Some m \<longrightarrow> m_resident_at m = 0" using False by simp
    note S = service_spec [OF inv1 a1 run1]
    show ?thesis
    proof (cases r)
      case (Inl e)
      with S show ?thesis by (simp add: others_thinned_def)
    next
      case (Inr h)
      with S obtain m p n before room where x: "table_map (mg_table M) i = Some m" "provider_for m ?M = Inr p"
        "length before = m_size m" "pr_read p (located_new i m) 0 before = (Inr n, room)"
        "table_map (mg_table M') i = Some (placed_meta (hd_address h) ?w (mg_clock ?M) l m)"
        "hd_id h = i" "hd_size h = m_size m" "hd_address h \<noteq> 0"
        "take (m_size m) (drop (hd_address h - ar_base (mg_arena M)) (ar_bytes (mg_arena M'))) = room"
        by auto
      have "provider_for m M = Inr p" using x(2) by (simp add: provider_for_def)
      moreover have "m_resident_at m = 0" using False x(1) by blast
      ultimately show ?thesis using S Inr x(1,3-9)
        by (auto simp: others_thinned_def placed_meta_def)
    qed
  qed
qed

lemma release_inv:
  assumes "mgr_inv M" "release i l M = (r, M')"
  shows "mgr_inv M'" "blocks M' = blocks M" "mg_arena M' = mg_arena M"
proof -
  have "mgr_inv M' \<and> blocks M' = blocks M \<and> mg_arena M' = mg_arena M"
  proof (cases "table_get_mut i (release_meta l) (mg_table M)")
    case None
    with assms show ?thesis by (simp add: release_def)
  next
    case (Some t)
    with assms get_mut_inv [OF assms(1) [unfolded mgr_inv_def] Some] show ?thesis
      by (auto simp: release_def mgr_inv_def)
  qed
  then show "mgr_inv M'" "blocks M' = blocks M" "mg_arena M' = mg_arena M" by blast+
qed

text \<open>A registration is sound when the entry is not resident and replaces none that is.\<close>

definition registrable :: "object_id \<Rightarrow> object_meta \<Rightarrow> manager \<Rightarrow> bool" where
  "registrable i m M \<longleftrightarrow>
     0 < m_size m \<and> m_size m + ALIGN \<le> 2 ^ 32 \<and> m_resident_at m = 0 \<and> blocks M i = None"

lemma blocks_None_resident:
  "blocks M i = None \<longleftrightarrow> (\<forall>m. table_map (mg_table M) i = Some m \<longrightarrow> m_resident_at m = 0)"
  by (cases "table_map (mg_table M) i") (auto simp: blocks_def block_of_def)

lemma register_inv:
  assumes inv: "mgr_inv M" and ok: "registrable i m M" and run: "register i m M = (r, M')"
  shows "mgr_inv M'"
proof -
  note I = mgr_invD [OF inv [unfolded mgr_inv_def]]
  obtain ok' t where ins: "table_insert i m (mg_table M) = (ok', t)" by (cases "table_insert i m (mg_table M)")
  show ?thesis
  proof (cases ok')
    case False
    with run ins inv show ?thesis by (simp add: register_def)
  next
    case True
    from tab.put_true [OF I(1)] ins True have t: "table_inv t" "table_map t = (table_map (mg_table M))(i \<mapsto> m)"
      by auto
    have M': "M' = M\<lparr>mg_table := t, mg_counters := mg_counters M'\<rparr>"
      using run ins True by (auto simp: register_def)
    have old: "table_map (mg_table M) i = Some m0 \<Longrightarrow> m_resident_at m0 = 0" for m0
      using ok by (simp add: registrable_def blocks_None_resident)
    have ow: "owned t s = owned (mg_table M) s" for s
    proof (cases "table_map (mg_table M) i")
      case None
      from owned_add [OF this t(2), of s] ok show ?thesis by (simp add: weight_def registrable_def)
    next
      case (Some m0)
      from owned_update [OF Some t(2), of s] ok old [OF Some] show ?thesis
        by (simp add: weight_def registrable_def)
    qed
    have "block_of b m = None" for b using ok by (simp add: block_of_def registrable_def)
    then have bl: "blocks (M\<lparr>mg_table := t\<rparr>) = blocks M"
      using t(2) ok by (auto simp: blocks_def fun_eq_iff registrable_def)
    have ent: "entry_ok (ar_base (mg_arena M)) k m'" if "table_map t k = Some m'" for k m'
      using that t(2) I(5) [of k] ok by (auto simp: entry_ok_def registrable_def split: if_splits)
    have acc: "accounts (\<lambda>_. 0) (M\<lparr>mg_table := t\<rparr>)" using I(8) ow by (simp add: accounts_def)
    have "mgr_inv_pending (\<lambda>_. 0) (M\<lparr>mg_table := t\<rparr>)"
      using I t(1) bl ent acc unfolding mgr_inv_pending_def by simp
    then show ?thesis by (subst M') (simp add: mgr_inv_def)
  qed
qed

lemma attach_inv:
  assumes "mgr_inv M" "attach p M = (r, M')"
    and "\<forall>loc off into. length (snd (pr_read p loc off into)) = length into"
  shows "mgr_inv M'"
proof (cases "pr_id p < length (mg_providers M)")
  case True
  have "providers_ok ((mg_providers M)[pr_id p := Some p])"
    using assms(1,3) set_update_subset_insert [of "mg_providers M" "pr_id p" "Some p"]
    unfolding mgr_inv_def mgr_inv_pending_def providers_ok_def by blast
  with assms True show ?thesis
    by (auto simp: attach_def mgr_inv_def mgr_inv_pending_def accounts_def)
qed (use assms in \<open>simp add: attach_def\<close>)

lemma create_session_inv:
  assumes inv: "mgr_inv M" and run: "create_session c M = (r, M')"
    and fresh: "\<forall>i. r = Inr i \<longrightarrow> owned (mg_table M) i = 0"
  shows "mgr_inv M'"
proof (cases "admit (mg_capacity M) (mg_sessions M) c")
  case (Inl e)
  with run inv show ?thesis by (simp add: create_session_def)
next
  case (Inr u)
  note I = mgr_invD [OF inv [unfolded mgr_inv_def]]
  obtain q ss where q: "create c (mg_sessions M) = (q, ss)" by (cases "create c (mg_sessions M)")
  show ?thesis
  proof (cases q)
    case (Inl e)
    then have "ss = mg_sessions M" using q
      by (auto simp: create_def dest!: adopt_refused split: option.splits prod.splits sum.splits)
    with run Inr q Inl inv show ?thesis by (simp add: create_session_def)
  next
    case new: (Inr i)
    then obtain u' where ad: "adopt i c (mg_sessions M) = (Inr u', ss)"
      using q by (auto simp: create_def split: option.splits prod.splits sum.splits)
    note A = adopt_ok [OF I(3) ad]
    have M': "M' = M\<lparr>mg_sessions := ss\<rparr>" "r = Inr i" using run Inr q new by (simp_all add: create_session_def)
    have "accounts (\<lambda>_. 0) M'"
    proof -
      have "within_ceiling (session_new i c)" "s_resident (session_new i c) = 0"
        by (simp_all add: session_new_def within_ceiling_def)
      with I(8) A(4) fresh M' show ?thesis by (auto simp: accounts_def)
    qed
    with inv A(1) M' show ?thesis by (simp add: mgr_inv_def mgr_inv_pending_def)
  qed
qed

section \<open>Ending a session\<close>

lemma get_mut_at:
  assumes "table_inv s" "p < length s" "s ! p = Live i m"
  shows "table_get_mut i f s = Some (s[p := Live i (f m)])"
  using find_loop_iff [OF assms(1), of i p m] assms by (simp add: table_get_mut_def)

lemma remove_at:
  assumes "table_inv s" "p < length s" "s ! p = Live i m"
  shows "table_remove i s = (True, s[p := Removed])"
  using find_loop_iff [OF assms(1), of i p m] assms by (simp add: table_remove_def)

lemma remove_inv:
  assumes inv: "mgr_inv M" and p: "p < length (mg_table M)" "mg_table M ! p = Live i m"
    and absent: "m_resident_at m = 0"
  shows "mgr_inv (M\<lparr>mg_table := snd (table_remove i (mg_table M))\<rparr>)"
proof -
  note I = mgr_invD [OF inv [unfolded mgr_inv_def]]
  let ?t = "snd (table_remove i (mg_table M))"
  have m: "table_map (mg_table M) i = Some m" using p by (auto simp: table_map_Some [OF I(1)])
  have t: "table_inv ?t" "table_map ?t = (table_map (mg_table M))(i := None)"
    by (rule tab.del_good [OF I(1)], rule tab.del_lookup [OF I(1)])
  have ow: "owned ?t s = owned (mg_table M) s" for s
    using owned_remove [OF m t(2), of s] absent by (simp add: weight_def)
  have bl: "blocks (M\<lparr>mg_table := ?t\<rparr>) = blocks M"
    using t(2) m absent by (auto simp: blocks_def fun_eq_iff block_of_def)
  have "entry_ok (ar_base (mg_arena M)) k m'" if "table_map ?t k = Some m'" for k m'
    using that t(2) I(5) [of k] by (auto split: if_splits)
  with I t(1) bl ow show ?thesis
    unfolding mgr_inv_def mgr_inv_pending_def by (simp add: accounts_def)
qed

text \<open>What destroying has done so far: nothing to the entries and accounts of others, and the
  slots visited hold nothing of the session's.\<close>

definition only_owner :: "session_id \<Rightarrow> manager \<Rightarrow> manager \<Rightarrow> bool" where
  "only_owner i M M' \<longleftrightarrow>
     length (mg_table M') = length (mg_table M) \<and>
     (\<forall>q < length (mg_table M). mg_table M' ! q = mg_table M ! q \<or>
        (\<exists>k m. mg_table M ! q = Live k m \<and> m_owner m = i)) \<and>
     (\<forall>j. j \<noteq> i \<longrightarrow> sessions_get (mg_sessions M') j = sessions_get (mg_sessions M) j) \<and>
     (sessions_get (mg_sessions M') i = None \<longleftrightarrow> sessions_get (mg_sessions M) i = None)"

lemma only_owner_refl [simp]: "only_owner i M M"
  by (simp add: only_owner_def)

lemma only_owner_trans:
  assumes "only_owner i A B" "only_owner i B C"
  shows "only_owner i A C"
  using assms unfolding only_owner_def by metis

lemma evict_at:
  assumes inv: "mgr_inv M" and p: "p < length (mg_table M)" "mg_table M ! p = Live k m"
    and run: "evict k M = (Inr n, M')"
  shows "mgr_inv M'" "mg_table M' = (mg_table M)[p := Live k (gone m m)]"
    "only_owner (m_owner m) M M'" "m_resident_at (gone m m) = 0" "m_owner (gone m m) = m_owner m"
proof -
  note I = mgr_invD [OF inv [unfolded mgr_inv_def]]
  have m: "table_map (mg_table M) k = Some m" using p by (auto simp: table_map_Some [OF I(1)])
  show "mgr_inv M'" using evict_inv [OF inv [unfolded mgr_inv_def] run] by (simp add: mgr_inv_def)
  have "mg_table M' = (mg_table M)[p := Live k (gone m m)] \<and> only_owner (m_owner m) M M'"
    using inv [unfolded mgr_inv_def] run
  proof (cases rule: evict_cases)
    case (evicted m' a t c)
    have "m' = m" using evicted(1) m by simp
    with evicted(6) get_mut_at [OF I(1) p, of "gone m"] have t: "t = (mg_table M)[p := Live k (gone m m)]" by simp
    have "only_owner (m_owner m) M M'"
      using p by (auto simp: only_owner_def evicted(10) t \<open>m' = m\<close> nth_list_update
          sessions_get_credit [OF I(3)])
    with t show ?thesis by (simp add: evicted(10))
  qed simp
  then show "mg_table M' = (mg_table M)[p := Live k (gone m m)]" "only_owner (m_owner m) M M'" by blast+
qed (simp_all add: gone_def)

lemma only_owner_removed:
  assumes "p < length (mg_table M)" "mg_table M ! p = Live k m" "mg_sessions M' = mg_sessions M"
    "mg_table M' = (mg_table M)[p := Removed]"
  shows "only_owner (m_owner m) M M'"
  using assms by (auto simp: only_owner_def nth_list_update)

lemma destroy_slots_spec:
  assumes "mgr_inv M" "i \<noteq> 0" "distinct slots" "set slots \<subseteq> {..<length (mg_table M)}"
    and "destroy_slots i slots n M = (r, M')"
  shows "mgr_inv M' \<and> only_owner i M M' \<and>
    (\<forall>q < length (mg_table M). q \<notin> set slots \<longrightarrow> mg_table M' ! q = mg_table M ! q) \<and>
    (case r of Inl _ \<Rightarrow> True
     | Inr _ \<Rightarrow> \<forall>q \<in> set slots. \<forall>k m. mg_table M' ! q = Live k m \<longrightarrow> m_owner m \<noteq> i)"
  using assms
proof (induction slots arbitrary: n M)
  case Nil
  then show ?case by auto
next
  case (Cons p slots)
  have p: "p < length (mg_table M)" "p \<notin> set slots" "distinct slots"
    "set slots \<subseteq> {..<length (mg_table M)}" using Cons.prems(3,4) by auto
  text \<open>The rest of the loop, from a state that differs in slot \<open>p\<close> only.\<close>
  have rest: ?case if M1: "mgr_inv M1" "only_owner i M M1"
      "\<forall>q < length (mg_table M). q \<noteq> p \<longrightarrow> mg_table M1 ! q = mg_table M ! q"
      "\<forall>k m. mg_table M1 ! p = Live k m \<longrightarrow> m_owner m \<noteq> i"
      and run: "destroy_slots i slots n1 M1 = (r, M')" for M1 n1
  proof -
    have len: "length (mg_table M1) = length (mg_table M)" using M1(2) by (simp add: only_owner_def)
    have sub: "set slots \<subseteq> {..<length (mg_table M1)}" using p(4) len by simp
    note IH = Cons.IH [OF M1(1) Cons.prems(2) p(3) sub run]
    have "only_owner i M M'" using only_owner_trans [OF M1(2)] IH by blast
    moreover have "\<forall>q < length (mg_table M). q \<notin> set (p # slots) \<longrightarrow> mg_table M' ! q = mg_table M ! q"
      using IH M1(3) len by auto
    moreover have "mg_table M' ! p = mg_table M1 ! p" using IH p(1,2) len by auto
    ultimately show ?thesis using IH M1(4) by (auto split: sum.splits)
  qed
  show ?case
  proof (cases "mg_table M ! p")
    case Vacant
    with p have "table_at (mg_table M) p = None" by (simp add: table_at_def nth_opt_def)
    with Cons.prems(5) Vacant Cons.prems(1) show ?thesis by (intro rest [of M n]) simp_all
  next
    case Removed
    with p have "table_at (mg_table M) p = None" by (simp add: table_at_def nth_opt_def)
    with Cons.prems(5) Removed Cons.prems(1) show ?thesis by (intro rest [of M n]) simp_all
  next
    case (Live k m)
    have at: "table_at (mg_table M) p = Some (k, m)" using Live p(1) by (simp add: table_at_Some)
    note I = mgr_invD [OF Cons.prems(1) [unfolded mgr_inv_def]]
    show ?thesis
    proof (cases "m_owner m = i")
      case False
      with Cons.prems(1,5) at Live show ?thesis by (intro rest [of M n]) simp_all
    next
      case own: True
      show ?thesis
      proof (cases "m_resident_at m = 0")
        case True
        let ?M1 = "M\<lparr>mg_table := snd (table_remove k (mg_table M))\<rparr>"
        have t: "mg_table ?M1 = (mg_table M)[p := Removed]" using remove_at [OF I(1) p(1) Live] by simp
        have run: "destroy_slots i slots n ?M1 = (r, M')" using Cons.prems(2,5) at own True by simp
        show ?thesis
          using remove_inv [OF Cons.prems(1) p(1) Live True]
            only_owner_removed [OF p(1) Live _ t] own t p(1) run
          by (intro rest [of ?M1 n]) (simp_all add: nth_list_update)
      next
        case False
        obtain q M2 where ev: "evict k M = (q, M2)" by (cases "evict k M")
        show ?thesis
        proof (cases q)
          case (Inl e)
          from Cons.prems(1) [unfolded mgr_inv_def] ev Inl have "M2 = M" by (cases rule: evict_cases) auto
          with Cons.prems(2,5) at own False ev Inl have "r = Inl e" "M' = M" by auto
          with Cons.prems(1) show ?thesis by simp
        next
          case (Inr nn)
          note E = evict_at [OF Cons.prems(1) p(1) Live ev [unfolded Inr]]
          let ?M1 = "M2\<lparr>mg_table := snd (table_remove k (mg_table M2))\<rparr>"
          have p2: "p < length (mg_table M2)" "mg_table M2 ! p = Live k (gone m m)" using E(2) p(1) by simp_all
          note I2 = mgr_invD [OF E(1) [unfolded mgr_inv_def]]
          have t: "mg_table ?M1 = (mg_table M2)[p := Removed]" using remove_at [OF I2(1) p2] by simp
          have run: "destroy_slots i slots (n + 1) ?M1 = (r, M')"
            using Cons.prems(2,5) at own False ev Inr by simp
          have "only_owner i M2 ?M1" using only_owner_removed [OF p2 _ t] E(5) own by simp
          with E(3) own have "only_owner i M ?M1" using only_owner_trans by blast
          with remove_inv [OF E(1) p2 E(4)] t E(2) p(1) run show ?thesis
            by (intro rest [of ?M1 "n + 1"]) (simp_all add: nth_list_update)
        qed
      qed
    qed
  qed
qed

lemma destroy_session_spec:
  assumes inv: "mgr_inv M" and i: "i \<noteq> 0" and run: "destroy_session i M = (r, M')"
  shows "mgr_inv M' \<and>
    (\<forall>k m. table_map (mg_table M) k = Some m \<longrightarrow> m_owner m \<noteq> i \<longrightarrow> table_map (mg_table M') k = Some m) \<and>
    (\<forall>j. j \<noteq> i \<longrightarrow> sessions_get (mg_sessions M') j = sessions_get (mg_sessions M) j) \<and>
    (case r of Inl _ \<Rightarrow> True
     | Inr _ \<Rightarrow> sessions_get (mg_sessions M) i \<noteq> None \<and> sessions_get (mg_sessions M') i = None \<and>
         (\<forall>k m. table_map (mg_table M') k = Some m \<longrightarrow> m_owner m \<noteq> i))"
proof -
  obtain q M1 where q: "destroy_slots i [0..<length (mg_table M)] 0 M = (q, M1)"
    by (cases "destroy_slots i [0..<length (mg_table M)] 0 M")
  have S: "mgr_inv M1 \<and> only_owner i M M1 \<and>
    (case q of Inl _ \<Rightarrow> True
     | Inr _ \<Rightarrow> \<forall>p \<in> {..<length (mg_table M)}. \<forall>k m. mg_table M1 ! p = Live k m \<longrightarrow> m_owner m \<noteq> i)"
    using destroy_slots_spec [OF inv i _ _ q] by (simp add: atLeast0LessThan split: sum.splits)
  note I = mgr_invD [OF inv [unfolded mgr_inv_def]]
    and I1 = mgr_invD [OF conjunct1 [OF S, unfolded mgr_inv_def]]
  have keep: "table_map (mg_table M1) k = Some m"
    if "table_map (mg_table M) k = Some m" "m_owner m \<noteq> i" for k m
  proof -
    from that(1) obtain p where p: "p < length (mg_table M)" "mg_table M ! p = Live k m"
      by (auto simp: table_map_Some [OF I(1)])
    with S that(2) have "mg_table M1 ! p = Live k m" "p < length (mg_table M1)"
      unfolding only_owner_def by fastforce+
    then show ?thesis by (auto simp: table_map_Some [OF I1(1)])
  qed
  have oth: "sessions_get (mg_sessions M1) j = sessions_get (mg_sessions M) j" if "j \<noteq> i" for j
    using S that by (simp add: only_owner_def)
  show ?thesis
  proof (cases q)
    case (Inl e)
    with run q have "M' = M1" "r = Inl e" by (simp_all add: destroy_session_def)
    with S keep oth show ?thesis by simp
  next
    case (Inr n)
    have none: "m_owner m \<noteq> i" if "table_map (mg_table M1) k = Some m" for k m
    proof -
      from that obtain p where "p < length (mg_table M1)" "mg_table M1 ! p = Live k m"
        by (auto simp: table_map_Some [OF I1(1)])
      moreover from S have "length (mg_table M1) = length (mg_table M)" by (simp add: only_owner_def)
      ultimately show ?thesis using S unfolding Inr sum.case lessThan_iff Ball_def by metis
    qed
    obtain d ss where d: "destroy i (mg_sessions M1) = (d, ss)" by (cases "destroy i (mg_sessions M1)")
    show ?thesis
    proof (cases d)
      case e: (Inl e)
      then have "ss = mg_sessions M1" using destroy_unknown [of i "mg_sessions M1" e ss] d by simp
      with run q Inr d e have "M' = M1" "r = Inl e" by (simp_all add: destroy_session_def)
      with S keep oth show ?thesis by simp
    next
      case s: (Inr s)
      from destroy_ok [OF I1(3) d [unfolded s]]
      have D: "sessions_inv ss" "sessions_get (mg_sessions M1) i = Some s"
        "sessions_get ss = (sessions_get (mg_sessions M1))(i := None)" by blast+
      have M': "M' = M1\<lparr>mg_sessions := ss\<rparr>" "r = Inr n"
        using run q Inr d s by (simp_all add: destroy_session_def)
      have "accounts (\<lambda>_. 0) M'" using I1(8) D(3) by (auto simp: accounts_def M'(1))
      then have "mgr_inv M'" using S D(1) by (simp add: M'(1) mgr_inv_def mgr_inv_pending_def)
      moreover have "sessions_get (mg_sessions M) i \<noteq> None"
        using S D(2) by (auto simp: only_owner_def)
      moreover have "table_map (mg_table M') = table_map (mg_table M1)" "mg_sessions M' = ss"
        by (simp_all add: M'(1))
      moreover have "sessions_get ss i = None" "\<forall>j. j \<noteq> i \<longrightarrow> sessions_get ss j = sessions_get (mg_sessions M) j"
        using D(3) oth by simp_all
      ultimately show ?thesis
        unfolding M'(2) sum.case using keep none by (intro conjI allI impI) metis+
    qed
  qed
qed

section \<open>A manager at work\<close>

text \<open>One step of a manager, with whatever outcome. Registering, attaching and creating a session
  carry what their callers owe: a registrable entry, a provider that keeps the length of the
  buffer it is given (Rust's slices cannot change it), a new session that owns nothing yet.\<close>

inductive mgr_step :: "manager \<Rightarrow> manager \<Rightarrow> bool" where
  st_acquire: "mgr_step M (snd (acquire i l who M))"
| st_release: "mgr_step M (snd (release i l M))"
| st_consume: "mgr_step M (snd (consume i who M))"
| st_evict: "mgr_step M (snd (evict i M))"
| st_register: "registrable i m M \<Longrightarrow> mgr_step M (snd (register i m M))"
| st_attach: "\<forall>loc off into. length (snd (pr_read p loc off into)) = length into \<Longrightarrow>
    mgr_step M (snd (attach p M))"
| st_create: "\<forall>i. fst (create_session c M) = Inr i \<longrightarrow> owned (mg_table M) i = 0 \<Longrightarrow>
    mgr_step M (snd (create_session c M))"
| st_destroy: "mgr_step M (snd (destroy_session i M))"
| st_declare: "mgr_step M (M\<lparr>mg_stream := snd (stream_declare objects next (mg_stream M))\<rparr>)"
| st_advance: "mgr_step M (M\<lparr>mg_stream := stream_advance steps (mg_stream M)\<rparr>)"
| st_policy: "mgr_step M (M\<lparr>mg_policy := pol\<rparr>)"
| st_capacity: "mgr_step M (M\<lparr>mg_capacity := cap\<rparr>)"

inductive_cases mgr_stepE: "mgr_step M M'"

lemma destroy_slots_zero: "destroy_slots 0 slots n M = (Inr n, M)"
  by (induction slots) (auto split: option.splits)

lemma mgr_step_inv:
  assumes "mgr_step M M'" "mgr_inv M"
  shows "mgr_inv M'"
  using assms(1)
proof cases
  case (st_acquire i l who)
  with acquire_spec [OF assms(2), of i l who] show ?thesis by (cases "acquire i l who M") simp
next
  case (st_release i l)
  with release_inv(1) [OF assms(2), of i l] show ?thesis by (cases "release i l M") simp
next
  case (st_consume i who)
  obtain r M1 where a: "acquire i Streaming who M = (r, M1)" by (cases "acquire i Streaming who M")
  have M1: "mgr_inv M1" using acquire_spec [OF assms(2) a] by blast
  obtain q M2 where b: "release i Streaming M1 = (q, M2)" by (cases "release i Streaming M1")
  have "mgr_inv M2" by (rule release_inv(1) [OF M1 b])
  with M1 a b st_consume show ?thesis by (cases r; cases q) (simp_all add: consume_def)
next
  case (st_evict i)
  with evict_inv [OF assms(2) [unfolded mgr_inv_def], of i] show ?thesis
    by (cases "evict i M") (simp add: mgr_inv_def)
next
  case (st_register i m)
  with register_inv [OF assms(2), of i m] show ?thesis by (cases "register i m M") simp
next
  case (st_attach p)
  with attach_inv [OF assms(2), of p] show ?thesis by (cases "attach p M") simp
next
  case (st_create c)
  with create_session_inv [OF assms(2), of c] show ?thesis by (cases "create_session c M") simp
next
  case (st_destroy i)
  obtain r M1 where d: "destroy_session i M = (r, M1)" by (cases "destroy_session i M")
  show ?thesis
  proof (cases "i = 0")
    case False
    with destroy_session_spec [OF assms(2) _ d] st_destroy d show ?thesis by simp
  next
    case True
    note I = mgr_invD [OF assms(2) [unfolded mgr_inv_def]]
    have "sessions_get (mg_sessions M) 0 = None"
      using I(3) by (simp add: sessions_get_None sessions_inv_def)
    then have "destroy 0 (mg_sessions M) = (Inl BadObject, mg_sessions M)"
      using sessions_get_None [of "mg_sessions M" 0] sessions_find_None [of "mg_sessions M" 0]
      by (simp add: destroy_def)
    with True st_destroy assms(2) show ?thesis
      by (simp add: destroy_session_def destroy_slots_zero)
  qed
qed (use assms(2) in \<open>simp_all add: mgr_inv_def\<close>)

section \<open>The start\<close>

lemma arena_new_facts:
  assumes "0 < length bytes" "base + length bytes < 2 ^ 64"
  shows "arena_inv (arena_new base bytes)" "free_set (arena_new base bytes) = {..<length bytes}"
  using assms by (auto simp: arena_inv_def arena_new_def HOLES_def free_set_def hole_set_def)

definition manager_start :: "nat \<Rightarrow> nat \<Rightarrow> u8 list \<Rightarrow> manager" where
  "manager_start n base bytes = manager_new n (arena_new base bytes)"

lemma manager_start_inv:
  assumes "0 < length bytes" "0 < base" "base + length bytes < 2 ^ 64"
  shows "mgr_inv (manager_start n base bytes)" "no_leak (manager_start n base bytes)"
proof -
  let ?M = "manager_start n base bytes"
  have bl: "blocks ?M = (\<lambda>_. None)"
    by (simp add: blocks_def manager_start_def manager_new_def table_empty_map fun_eq_iff)
  have ss: "sessions_get (sessions_empty k) j = None" "sessions_inv (sessions_empty k)" for k j
    by (auto simp: sessions_get_None sessions_empty_def sessions_inv_def)
  show "mgr_inv ?M"
    using assms arena_new_facts [OF assms(1,3)] bl ss
    by (simp add: mgr_inv_def mgr_inv_pending_def manager_start_def manager_new_def table_empty_inv
        table_empty_map holds_def providers_ok_def accounts_def)
      (simp add: arena_new_def)
  show "no_leak ?M"
    unfolding no_leak_def covers_def bl
    using arena_new_facts(2) [OF assms(1,3)]
    by (simp add: manager_start_def manager_new_def) (simp add: arena_new_def)
qed

lemma mgr_reachable_inv:
  assumes "mgr_step\<^sup>*\<^sup>* (manager_start n base bytes) M"
    and "0 < length bytes" "0 < base" "base + length bytes < 2 ^ 64"
  shows "mgr_inv M"
  using assms(1)
proof (induction rule: rtranclp_induct)
  case base
  show ?case by (rule manager_start_inv(1) [OF assms(2-4)])
qed (rule mgr_step_inv)

end
