(* ===== verification/ObjmanProps.thy ===== *)
theory ObjmanProps
  imports ObjmanProofs
begin

text \<open>
  The properties of the object manager, with a small manager to apply them to: one registered
  object, one session with a ceiling, one provider.
\<close>

section \<open>A manager to state examples with\<close>

definition sample_provider :: provider where
  "sample_provider =
     \<lparr>pr_id = 1, pr_read = (\<lambda>loc off into. (Inr (length into), replicate (length into) 7)),
      pr_cost = (\<lambda>loc. \<lparr>co_latency = 100, co_bytes_per_ms = 1000\<rparr>), pr_prefetch = default_prefetch\<rparr>"

definition sample_id :: object_id where
  "sample_id = object_new KvBlock \<lparr>f_model = 1, f_layer = 0, f_tensor = 0, f_tile = 0\<rparr>"

definition sample_manager :: "nat \<Rightarrow> manager" where
  "sample_manager ceiling =
     snd (attach sample_provider
       (snd (create_session (contract_none\<lparr>c_resident_ceiling := ceiling\<rparr>)
         (snd (register sample_id sample_meta (manager_start 4 4096 (replicate 256 0)))))))"

lemma sample_create:
  "create c (sessions_empty 16) = (Inr 1, (sessions_empty 16)[0 := Some (session_new 1 c)])"
proof -
  have f: "sessions_find (sessions_empty 16) 1 = None"
    by (auto simp: sessions_find_None sessions_empty_def)
  have "lowest_free (sessions_empty 16) 1 = (if 65535 < (1::nat) then None
      else if sessions_find (sessions_empty 16) 1 = None then Some 1 else lowest_free (sessions_empty 16) (1 + 1))"
    by (rule lowest_free.simps)
  also have "\<dots> = Some 1" using f by simp
  finally have l: "lowest_free (sessions_empty 16) 1 = Some 1" .
  have p: "position (\<lambda>s. s = None) (sessions_empty 16) = Some 0"
    by (simp add: sessions_empty_def numeral_eq_Suc)
  have "adopt 1 c (sessions_empty 16) = (Inr (), (sessions_empty 16)[0 := Some (session_new 1 c)])"
    using f p by (simp add: adopt_def)
  with l show ?thesis by (simp add: create_def)
qed

lemma sample_manager_facts:
  "mgr_step\<^sup>*\<^sup>* (manager_start 4 4096 (replicate 256 0)) (sample_manager n)"
  "mgr_inv (sample_manager n)"
  "no_leak (sample_manager n)"
  "table_map (mg_table (sample_manager n)) = [sample_id \<mapsto> sample_meta]"
  "sessions_get (mg_sessions (sample_manager n)) 1 =
     Some (session_new 1 (contract_none\<lparr>c_resident_ceiling := n\<rparr>))"
  "provider_for sample_meta (sample_manager n) = Inr sample_provider"
  "mg_arena (sample_manager n) = arena_new 4096 (replicate 256 0)"
  "mg_policy (sample_manager n) = None"
  "length (mg_sessions (sample_manager n)) = MAX_SESSIONS"
proof -
  let ?c = "contract_none\<lparr>c_resident_ceiling := n\<rparr>"
  let ?M0 = "manager_start 4 4096 (replicate 256 0)"
  define M1 where "M1 = snd (register sample_id sample_meta ?M0)"
  define M2 where "M2 = snd (create_session ?c M1)"
  have S: "sample_manager n = snd (attach sample_provider M2)"
    by (simp add: sample_manager_def M1_def M2_def)
  have inv0: "mgr_inv ?M0" "no_leak ?M0" by (rule manager_start_inv; simp)+
  have t0: "table_map (mg_table ?M0) = (\<lambda>_. None)"
    by (simp add: manager_start_def manager_new_def table_empty_map)
  have reg: "registrable sample_id sample_meta ?M0"
    by (simp add: registrable_def sample_meta_def ALIGN_def blocks_def t0)
  have ins: "fst (table_insert sample_id sample_meta (mg_table ?M0))"
    using insert_loop_None [of "table_empty 4" sample_id sample_meta None "probe_sequence sample_id 4"]
    by (auto simp: manager_start_def manager_new_def table_insert_def table_empty_def probe_sequence_all
        split: option.splits dest: spec [of _ 0])
  have M1: "M1 = ?M0\<lparr>mg_table := snd (table_insert sample_id sample_meta (mg_table ?M0)),
      mg_counters := count_registered (m_size sample_meta) (mg_counters ?M0)\<rparr>"
    using ins by (auto simp: M1_def register_def split: prod.splits bool.splits)
  have t1: "table_map (mg_table M1) = [sample_id \<mapsto> sample_meta]"
    using tab.put_lookup [OF mgr_invD(1) [OF inv0(1) [unfolded mgr_inv_def]], of sample_id sample_meta] ins t0
    by (simp add: M1)
  have ss1: "mg_sessions M1 = sessions_empty 16" "mg_capacity M1 = capacity_none"
    by (simp_all add: M1 manager_start_def manager_new_def MAX_SESSIONS_def)
  have "admit capacity_none (sessions_empty 16) ?c = Inr ()"
    by (simp add: admit_def capacity_none_def need_def sat_mul_def sessions_live_def sessions_empty_def
        wait_def Let_def)
  then have cr: "create_session ?c M1 =
      (Inr 1, M1\<lparr>mg_sessions := (sessions_empty 16)[0 := Some (session_new 1 ?c)]\<rparr>)"
    using sample_create [of ?c] by (simp add: create_session_def ss1)
  have M2: "M2 = M1\<lparr>mg_sessions := (sessions_empty 16)[0 := Some (session_new 1 ?c)]\<rparr>"
    by (simp add: M2_def cr)
  have ps: "length (mg_providers M2) = 8"
    by (simp add: M2 M1 manager_start_def manager_new_def MAX_PROVIDERS_def)
  have fin: "sample_manager n = M2\<lparr>mg_providers := (mg_providers M2)[1 := Some sample_provider]\<rparr>"
    using ps by (simp add: S attach_def sample_provider_def)
  have own: "owned (mg_table M1) 1 = 0"
    unfolding owned_def t1 by (simp add: weight_def sample_meta_def)
  have "mgr_step ?M0 M1" unfolding M1_def by (rule st_register [OF reg])
  moreover have "mgr_step M1 M2" unfolding M2_def by (rule st_create) (simp add: cr own [simplified])
  moreover have "mgr_step M2 (sample_manager n)" unfolding S
    by (rule st_attach) (simp add: sample_provider_def)
  ultimately show r: "mgr_step\<^sup>*\<^sup>* ?M0 (sample_manager n)"
    by (meson converse_rtranclp_into_rtranclp r_into_rtranclp)
  show "mgr_inv (sample_manager n)" by (rule mgr_reachable_inv [OF r]) simp_all
  show "table_map (mg_table (sample_manager n)) = [sample_id \<mapsto> sample_meta]"
    by (simp add: fin M2 t1)
  show ar: "mg_arena (sample_manager n) = arena_new 4096 (replicate 256 0)"
    by (simp add: fin M2 M1 manager_start_def manager_new_def)
  show "length (mg_sessions (sample_manager n)) = MAX_SESSIONS"
    by (simp add: fin M2 sessions_empty_def MAX_SESSIONS_def)
  show "mg_policy (sample_manager n) = None"
    by (simp add: fin M2 M1 manager_start_def manager_new_def)
  have "blocks (sample_manager n) = (\<lambda>_. None)"
    by (auto simp: blocks_def fin M2 t1 block_of_def sample_meta_def fun_eq_iff)
  moreover have "free_set (arena_new 4096 (replicate 256 0)) = {..<256}"
    using arena_new_facts(2) [of "replicate 256 0" 4096] by simp
  ultimately show "no_leak (sample_manager n)"
    unfolding no_leak_def covers_def ar by (simp add: arena_new_def)
  have "sessions_get (mg_sessions (sample_manager n)) 1 = sessions_get ((sessions_empty 16)[0 := Some (session_new 1 ?c)]) 1"
    by (simp add: fin M2)
  also have "\<dots> = Some (session_new 1 ?c)"
    by (simp add: sessions_get_def sessions_find_def sessions_empty_def numeral_eq_Suc session_new_def)
  finally show "sessions_get (mg_sessions (sample_manager n)) 1 = Some (session_new 1 ?c)" .
  show "provider_for sample_meta (sample_manager n) = Inr sample_provider"
    using ps by (simp add: provider_for_def fin sample_meta_def nth_opt_def)
qed

section \<open>Properties\<close>

text \<open>C1: in every state the manager reaches, the resident objects occupy disjoint, aligned
  blocks inside the arena that the free list does not hold, and each live session's account is
  exactly the bytes its resident objects take and is within its ceiling.\<close>

theorem residents_disjoint_and_accounted:
  assumes "mgr_step\<^sup>*\<^sup>* (manager_start n base bytes) M"
    and "0 < length bytes" "0 < base" "base + length bytes < 2 ^ 64"
  shows "(\<forall>i m. table_map (mg_table M) i = Some m \<longrightarrow> m_resident_at m \<noteq> 0 \<longrightarrow>
      (\<exists>start. m_resident_at m = ar_base (mg_arena M) + start \<and> ALIGN dvd start \<and>
         start + m_size m \<le> length (ar_bytes (mg_arena M)) \<and>
         {start..<start + m_size m} \<inter> free_set (mg_arena M) = {})) \<and>
    (\<forall>i j m m'. table_map (mg_table M) i = Some m \<longrightarrow> table_map (mg_table M) j = Some m' \<longrightarrow> i \<noteq> j \<longrightarrow>
       m_resident_at m \<noteq> 0 \<longrightarrow> m_resident_at m' \<noteq> 0 \<longrightarrow>
       m_resident_at m + m_size m \<le> m_resident_at m' \<or> m_resident_at m' + m_size m' \<le> m_resident_at m) \<and>
    (\<forall>i s. sessions_get (mg_sessions M) i = Some s \<longrightarrow>
       s_resident s = owned (mg_table M) i \<and>
       (c_resident_ceiling (s_contract s) \<noteq> 0 \<longrightarrow> s_resident s \<le> c_resident_ceiling (s_contract s)))"
proof -
  let ?b = "ar_base (mg_arena M)"
  have inv: "mgr_inv_pending (\<lambda>_. 0) M" using mgr_reachable_inv [OF assms] by (simp add: mgr_inv_def)
  note I = mgr_invD [OF inv]
  have one: "blocks M i = Some (m_resident_at m - ?b, m_size m) \<and> ?b + (m_resident_at m - ?b) = m_resident_at m"
    if "table_map (mg_table M) i = Some m" "m_resident_at m \<noteq> 0" for i m
    using resident_block [OF inv that] by blast
  have A: "\<exists>start. m_resident_at m = ?b + start \<and> ALIGN dvd start \<and>
         start + m_size m \<le> length (ar_bytes (mg_arena M)) \<and>
         {start..<start + m_size m} \<inter> free_set (mg_arena M) = {}"
    if m: "table_map (mg_table M) i = Some m" "m_resident_at m \<noteq> 0" for i m
  proof -
    have h: "ALIGN dvd (m_resident_at m - ?b)" "m_resident_at m - ?b + aligned (m_size m) \<le> length (ar_bytes (mg_arena M))"
      "block aligned (m_resident_at m - ?b, m_size m) \<inter> free_set (mg_arena M) = {}"
      using I(6) one [OF m] unfolding holds_def by fastforce+
    have le: "m_size m \<le> aligned (m_size m)" by (rule aligned_facts)
    have "{m_resident_at m - ?b..<m_resident_at m - ?b + m_size m} \<subseteq> block aligned (m_resident_at m - ?b, m_size m)"
      using le by (auto simp: block_def)
    with h le one [OF m] show ?thesis by (intro exI [of _ "m_resident_at m - ?b"]) auto
  qed
  have B: "m_resident_at m + m_size m \<le> m_resident_at m' \<or> m_resident_at m' + m_size m' \<le> m_resident_at m"
    if m: "table_map (mg_table M) i = Some m" "m_resident_at m \<noteq> 0"
      and m': "table_map (mg_table M) j = Some m'" "m_resident_at m' \<noteq> 0" and ne: "i \<noteq> j" for i j m m'
  proof (rule ccontr)
    let ?s = "m_resident_at m - ?b" and ?s' = "m_resident_at m' - ?b"
    assume no: "\<not> ?thesis"
    have le: "m_size m \<le> aligned (m_size m)" "m_size m' \<le> aligned (m_size m')" by (rule aligned_facts)+
    have "max ?s ?s' \<in> block aligned (?s, m_size m)" "max ?s ?s' \<in> block aligned (?s', m_size m')"
      using no le one [OF m] one [OF m'] I(5) [OF m(1)] I(5) [OF m'(1)]
      by (auto simp: block_def entry_ok_def)
    moreover have "block aligned (?s, m_size m) \<inter> block aligned (?s', m_size m') = {}"
      using I(6) one [OF m] one [OF m'] ne unfolding holds_def by blast
    ultimately show False by blast
  qed
  have C: "s_resident s = owned (mg_table M) i \<and>
       (c_resident_ceiling (s_contract s) \<noteq> 0 \<longrightarrow> s_resident s \<le> c_resident_ceiling (s_contract s))"
    if "sessions_get (mg_sessions M) i = Some s" for i s
  proof -
    have "s_resident s = owned (mg_table M) i + 0 \<and> within_ceiling s"
      using I(8) that unfolding accounts_def by blast
    then show ?thesis unfolding within_ceiling_def add_0_right by blast
  qed
  from A B C show ?thesis by blast
qed

lemma residents_disjoint_and_accounted_witness:
  "\<exists>s. sessions_get (mg_sessions (sample_manager 40)) 1 = Some s \<and>
     s_resident s = owned (mg_table (sample_manager 40)) 1"
  using residents_disjoint_and_accounted [OF sample_manager_facts(1) [of 40]]
    sample_manager_facts(5) [of 40] by simp

text \<open>C2: an acquire that succeeds returns the address and size of an object that is then
  resident; a hit moves nothing, and a miss delivers in that place what the provider read into
  it. Of the other objects, each is as it was or was evicted to its home.\<close>

theorem acquire_delivers:
  assumes "mgr_inv M" "acquire i l who M = (Inr h, M')"
  shows "\<exists>m m'. table_map (mg_table M) i = Some m \<and> table_map (mg_table M') i = Some m' \<and>
    hd_id h = i \<and> hd_size h = m_size m \<and> hd_address h \<noteq> 0 \<and> m_resident_at m' = hd_address h \<and>
    (if m_resident_at m \<noteq> 0 then hd_address h = m_resident_at m \<and> mg_arena M' = mg_arena M
     else \<exists>p n before room. provider_for m M = Inr p \<and> length before = m_size m \<and>
       pr_read p (located_new i m) 0 before = (Inr n, room) \<and>
       take (m_size m) (drop (hd_address h - ar_base (mg_arena M)) (ar_bytes (mg_arena M'))) = room) \<and>
    (\<forall>k. k \<noteq> i \<longrightarrow> table_map (mg_table M') k = table_map (mg_table M) k \<or>
       (\<exists>mk. table_map (mg_table M) k = Some mk \<and> m_resident_at mk \<noteq> 0 \<and>
             table_map (mg_table M') k = Some (gone mk mk)))"
proof -
  note S = acquire_spec [OF assms, unfolded sum.case others_thinned_def]
  have o: "\<forall>k. k \<noteq> i \<longrightarrow> table_map (mg_table M') k = table_map (mg_table M) k \<or>
       (\<exists>mk. table_map (mg_table M) k = Some mk \<and> m_resident_at mk \<noteq> 0 \<and>
             table_map (mg_table M') k = Some (gone mk mk))" using S by blast
  from S obtain m m' where "table_map (mg_table M) i = Some m" "table_map (mg_table M') i = Some m'"
    "m_resident_at m' = hd_address h" "hd_address h \<noteq> 0" "hd_id h = i" "hd_size h = m_size m"
    "if m_resident_at m \<noteq> 0 then hd_address h = m_resident_at m \<and> mg_arena M' = mg_arena M
     else \<exists>p n before room. provider_for m M = Inr p \<and> length before = m_size m \<and>
       pr_read p (located_new i m) 0 before = (Inr n, room) \<and>
       take (m_size m) (drop (hd_address h - ar_base (mg_arena M)) (ar_bytes (mg_arena M'))) = room"
    by blast
  with o show ?thesis by (intro exI [of _ m] exI [of _ m'] conjI)
qed

lemma acquire_sample:
  "\<exists>h. fst (acquire sample_id Pin 1 (sample_manager 0)) = Inr h \<and>
     length (ar_free (mg_arena (snd (acquire sample_id Pin 1 (sample_manager 0))))) = 1"
proof -
  let ?M = "sample_manager 0"
  note F = sample_manager_facts [of 0]
  note I = mgr_invD [OF F(2) [unfolded mgr_inv_def]]
  have g: "table_get (mg_table ?M) sample_id = Some sample_meta"
    by (simp add: table_get_map [OF I(1)] F(4))
  have cls: "object_class_of sample_id = Some KvBlock" by (simp add: sample_id_def)
  have ch: "\<exists>ss. charge (m_owner sample_meta) (m_size sample_meta) (m_precision sample_meta) (mg_sessions ?M) = (Inr (), ss)"
    using F(5) by (simp add: charge_def Let_def sample_meta_def session_new_def contract_none_def)
  then obtain ss where ss: "charge (m_owner sample_meta) (m_size sample_meta) (m_precision sample_meta) (mg_sessions ?M) = (Inr (), ss)"
    by blast
  have al: "aligned 64 = 64" by (simp add: aligned_def ALIGN_def next_multiple_of_def)
  have pl: "arena_place 64 (mg_arena ?M) = (Inr (4096, 0, 64),
      arena_new 4096 (replicate 256 0)\<lparr>ar_free := [\<lparr>h_at = 64, h_len = 192\<rparr>], ar_used := 64\<rparr>)"
    by (simp add: arena_place_def al F(7) arena_new_def Let_def)
  have ft: "fits (arena_occupancy (mg_arena ?M)) (m_size sample_meta)"
    by (simp add: fits_def arena_occupancy_def arena_largest_def F(7) arena_new_def sample_meta_def
        next_multiple_of_def ALIGN_def wrap_def)
  have mr: "make_room sample_meta (?M\<lparr>mg_clock := a, mg_last_fault := b, mg_sessions := c\<rparr>) =
      ?M\<lparr>mg_clock := a, mg_last_fault := b, mg_sessions := c\<rparr>" for a b c
    using ft by (subst make_room.simps) simp
  have pf: "provider_for sample_meta (?M\<lparr>mg_clock := a\<rparr>) = Inr sample_provider" for a
    using F(6) by (simp add: provider_for_def)
  have "table_get_mut sample_id f (mg_table ?M) \<noteq> None" for f
    by (simp add: tab.modify_None [OF I(1)] F(4))
  then have "\<exists>t. table_get_mut sample_id f (mg_table ?M) = Some t" for f by blast
  then obtain t where t: "table_get_mut sample_id f (mg_table ?M) = Some (t f)" for f by metis
  have sm: "m_size sample_meta = 64" "m_resident_at sample_meta = 0" by (simp_all add: sample_meta_def)
  show ?thesis
    by (simp add: acquire_def g sm service_def pf Let_def model_fault_new_def cls mgr_admit_def ss [unfolded sm]
        mr mgr_place_def located_new_def pl t sample_provider_def arena_write_def split: prod.splits)
qed

lemma acquire_delivers_witness:
  "\<exists>h m'. fst (acquire sample_id Pin 1 (sample_manager 0)) = Inr h \<and> hd_size h = 64 \<and>
     table_map (mg_table (snd (acquire sample_id Pin 1 (sample_manager 0)))) sample_id = Some m' \<and>
     m_resident_at m' = hd_address h"
proof -
  obtain h where h: "fst (acquire sample_id Pin 1 (sample_manager 0)) = Inr h"
    using acquire_sample by blast
  then have "acquire sample_id Pin 1 (sample_manager 0) =
      (Inr h, snd (acquire sample_id Pin 1 (sample_manager 0)))" by (simp add: prod_eq_iff)
  from acquire_delivers [OF sample_manager_facts(2) this] h show ?thesis
    by (auto simp: sample_manager_facts(4) sample_meta_def)
qed

text \<open>C5: an acquire refused because the owner's ceiling would be passed evicts nothing and
  moves nothing: table, arena, sessions and counters are what they were.\<close>

theorem ceiling_refusal_moves_nothing:
  assumes "mgr_inv M" "table_map (mg_table M) i = Some m" "m_resident_at m = 0"
    and "sessions_get (mg_sessions M) (m_owner m) = Some s" "c_resident_ceiling (s_contract s) \<noteq> 0"
    and "c_resident_ceiling (s_contract s) < s_resident s + m_size m"
    and "provider_for m M = Inr p" "object_class_of i \<noteq> None"
  shows "fst (acquire i l who M) = Inl Refused \<and>
    (let M' = snd (acquire i l who M) in mg_table M' = mg_table M \<and> mg_arena M' = mg_arena M \<and>
       mg_sessions M' = mg_sessions M \<and> mg_counters M' = mg_counters M \<and> mg_evictions M' = mg_evictions M)"
proof -
  note I = mgr_invD [OF assms(1) [unfolded mgr_inv_def]]
  obtain c where c: "object_class_of i = Some c" using assms(8) by blast
  have g: "table_get (mg_table M) i = Some m" by (simp add: table_get_map [OF I(1)] assms(2))
  have ch: "charge (m_owner m) (m_size m) (m_precision m) (mg_sessions M) = (Inl Refused, mg_sessions M)"
    using assms(4-6) by (simp add: charge_def Let_def)
  have p: "provider_for m (M\<lparr>mg_clock := n\<rparr>) = Inr p" for n using assms(7) by (simp add: provider_for_def)
  show ?thesis
    using assms(3) g c ch p
    by (simp add: acquire_def service_def Let_def model_fault_new_def mgr_admit_def)
qed

lemma ceiling_refusal_moves_nothing_witness:
  "fst (acquire sample_id Pin 1 (sample_manager 40)) = Inl Refused \<and>
   mg_arena (snd (acquire sample_id Pin 1 (sample_manager 40))) = mg_arena (sample_manager 40)"
proof -
  have o: "sessions_get (mg_sessions (sample_manager 40)) (m_owner sample_meta) =
      Some (session_new 1 (contract_none\<lparr>c_resident_ceiling := 40\<rparr>))"
    using sample_manager_facts(5) by (simp add: sample_meta_def)
  have "fst (acquire sample_id Pin 1 (sample_manager 40)) = Inl Refused \<and>
    (let M' = snd (acquire sample_id Pin 1 (sample_manager 40)) in
       mg_table M' = mg_table (sample_manager 40) \<and> mg_arena M' = mg_arena (sample_manager 40) \<and>
       mg_sessions M' = mg_sessions (sample_manager 40) \<and> mg_counters M' = mg_counters (sample_manager 40) \<and>
       mg_evictions M' = mg_evictions (sample_manager 40))"
    by (rule ceiling_refusal_moves_nothing [OF sample_manager_facts(2) _ _ o _ _ sample_manager_facts(6)])
      (simp_all add: sample_manager_facts(4) sample_meta_def session_new_def contract_none_def sample_id_def)
  then show ?thesis by (simp add: Let_def)
qed

section \<open>Eviction finds room\<close>

lemma held_residents:
  assumes "table_inv t"
  shows "(i, m) \<in> residents (held_view t clock) \<longleftrightarrow> table_map t i = Some m \<and> m_resident_at m \<noteq> 0"
  by (auto simp: residents_def held_view_def table_map_Some [OF assms] table_at_Some split: option.splits if_splits)

text \<open>With a policy that declines only when nothing is resident, and nothing leaked, making room
  ends with room or with a full free list.\<close>

context eager_policy
begin

lemma room_or_full:
  assumes inv: "mgr_inv M" and leak: "no_leak M" and pol: "mg_policy M = Some p" "pol_victim p = victim"
    and sz: "0 < m_size w" "m_size w + ALIGN \<le> 2 ^ 32" "aligned (m_size w) \<le> length (ar_bytes (mg_arena M))"
  shows "fits (arena_occupancy (mg_arena (make_room w M))) (m_size w) \<or>
    length (ar_free (mg_arena (make_room w M))) = HOLES"
proof -
  let ?M = "make_room w M"
  have invp: "mgr_inv_pending (\<lambda>_. 0) M" using inv by (simp add: mgr_inv_def)
  note R = make_room_inv [OF invp, of w]
  note I = mgr_invD [OF R(1)]
  from make_room_stops [OF invp, of w] show ?thesis
  proof
    assume st: "stuck w ?M"
    have p: "mg_policy ?M = Some p" using R(2) pol(1) by (simp add: thinned_def)
    show ?thesis
    proof (cases "victim (held_view (mg_table ?M) (mg_clock ?M)) w")
      case None
      then have "residents (held_view (mg_table ?M) (mg_clock ?M)) = {}" by (simp add: declines_iff)
      then have "blocks ?M = (\<lambda>_. None)"
        using held_residents [OF I(1)] by (fastforce simp: fun_eq_iff blocks_None_resident)
      then have fr: "free_set (mg_arena ?M) = {..<length (ar_bytes (mg_arena ?M))}"
        using R(3) [OF leak] by (simp add: no_leak_def covers_def)
      have len: "length (ar_bytes (mg_arena ?M)) = length (ar_bytes (mg_arena M))"
        using R(2) by (simp add: thinned_def)
      have al: "0 < aligned (m_size w)" using aligned_facts(4) [OF sz(1)] .
      have sep: "separated (ar_free (mg_arena ?M))" using I(2) by (simp add: arena_inv_def)
      have "{0..<0 + aligned (m_size w)} \<subseteq> holes_set (ar_free (mg_arena ?M))"
      proof -
        have "holes_set (ar_free (mg_arena ?M)) = {..<length (ar_bytes (mg_arena M))}"
          using fr len by (simp only: free_set_def)
        moreover have "{0..<0 + n} \<subseteq> {..<k}" if "n \<le> k" for n k :: nat using that by auto
        ultimately show ?thesis using sz(3) by (simp only:)
      qed
      from run_in_hole [OF sep al this] obtain h where
        h: "h \<in> set (ar_free (mg_arena ?M))" "aligned (m_size w) \<le> h_len h" by auto
      then have "aligned (m_size w) \<le> arena_largest (mg_arena ?M)"
        using arena_largest_ge [OF h(1)] by linarith
      moreover have "aligned (m_size w) < 2 ^ 32" using aligned_facts(3) [of "m_size w"] sz(2) by linarith
      then have w: "wrap 32 (aligned (m_size w)) = aligned (m_size w)" by (rule wrap_exact)
      ultimately show ?thesis
        unfolding fits_def arena_occupancy_def aligned_def [symmetric] w by simp
    next
      case (Some v)
      then obtain m where "(v, m) \<in> residents (held_view (mg_table ?M) (mg_clock ?M))"
        using resident by blast
      then have m: "table_map (mg_table ?M) v = Some m" "m_resident_at m \<noteq> 0"
        by (simp_all add: held_residents [OF I(1)])
      obtain r M1 where ev: "evict v ?M = (r, M1)" by (cases "evict v ?M")
      from st p pol(2) Some ev obtain e where "r = Inl e" by (auto simp: stuck_def split: sum.splits)
      with R(1) ev m show ?thesis by (cases rule: evict_cases) auto
    qed
  qed simp
qed

end

text \<open>C3: under FIFO, LRU or next-use, with no bytes leaked, making room for any object that
  fits the whole arena ends, and leaves room for it unless the free list has no slot left to
  record another hole.\<close>

theorem eviction_finds_room:
  assumes "mgr_inv M" "no_leak M"
    and "mg_policy M = Some (oldest_policy ol) \<or> mg_policy M = Some NEXT_USE"
    and "0 < m_size w" "m_size w + ALIGN \<le> 2 ^ 32" "aligned (m_size w) \<le> length (ar_bytes (mg_arena M))"
  shows "fits (arena_occupancy (mg_arena (make_room w M))) (m_size w) \<or>
    length (ar_free (mg_arena (make_room w M))) = HOLES"
  using assms(3)
proof
  assume "mg_policy M = Some (oldest_policy ol)"
  then show ?thesis
    by (rule oldest.room_or_full [OF assms(1,2) _ _ assms(4-6)]) (simp add: oldest_policy_def)
next
  assume "mg_policy M = Some NEXT_USE"
  then show ?thesis
    by (rule next_use.room_or_full [OF assms(1,2) _ _ assms(4-6)]) (simp add: NEXT_USE_def)
qed

lemma eviction_finds_room_witness:
  "\<exists>M. mg_policy M = Some (oldest_policy LRU) \<and>
    (fits (arena_occupancy (mg_arena (make_room sample_meta M))) 64 \<or>
     length (ar_free (mg_arena (make_room sample_meta M))) = HOLES)"
proof -
  let ?M = "sample_manager 0\<lparr>mg_policy := Some (oldest_policy LRU)\<rparr>"
  have "mgr_inv ?M" "no_leak ?M" using sample_manager_facts(2,3) [of 0] by (simp_all add: mgr_inv_def no_leak_def)
  from eviction_finds_room [OF this, of LRU sample_meta] show ?thesis
    by (intro exI [of _ ?M])
      (simp add: sample_meta_def ALIGN_def aligned_def next_multiple_of_def sample_manager_facts(7) arena_new_def)
qed

section \<open>Leases, sessions and leaks\<close>

text \<open>C4: destroying a session that succeeds leaves no object of its own in the table, resident
  or not, and no record of it; objects of other owners and the other sessions' records are
  untouched, also when it fails.\<close>

theorem destroyed_session_leaves_nothing:
  assumes "mgr_inv M" "i \<noteq> 0" "destroy_session i M = (r, M')"
  shows "(\<forall>k m. table_map (mg_table M) k = Some m \<longrightarrow> m_owner m \<noteq> i \<longrightarrow> table_map (mg_table M') k = Some m) \<and>
    (\<forall>j. j \<noteq> i \<longrightarrow> sessions_get (mg_sessions M') j = sessions_get (mg_sessions M) j) \<and>
    (\<forall>n. r = Inr n \<longrightarrow> sessions_get (mg_sessions M') i = None \<and>
       (\<forall>k m. table_map (mg_table M') k = Some m \<longrightarrow> m_owner m \<noteq> i))"
  using destroy_session_spec [OF assms] by (auto split: sum.splits)

lemma destroyed_session_leaves_nothing_witness:
  "sessions_get (mg_sessions (snd (destroy_session 2 (sample_manager 0)))) 1 =
     Some (session_new 1 contract_none)"
proof -
  have "destroy_session 2 (sample_manager 0) =
      (fst (destroy_session 2 (sample_manager 0)), snd (destroy_session 2 (sample_manager 0)))" by simp
  from destroyed_session_leaves_nothing [OF sample_manager_facts(2) _ this]
  show ?thesis using sample_manager_facts(5) [of 0] by (simp add: contract_none_def)
qed

text \<open>No lease keeps an object resident: whatever the lease an acquire was made under, a pin
  included, evicting the object right after it succeeds whenever the free list has a slot.\<close>

theorem no_lease_pins:
  assumes "mgr_inv M" "acquire i l who M = (Inr h, M')" "length (ar_free (mg_arena M')) < HOLES"
  shows "fst (evict i M') = Inr (hd_size h) \<and>
    (\<exists>m. table_map (mg_table (snd (evict i M'))) i = Some m \<and> m_resident_at m = 0 \<and> m_share_count m = 0)"
proof -
  note S = acquire_spec [OF assms(1,2), unfolded sum.case]
  have inv: "mgr_inv_pending (\<lambda>_. 0) M'" using S by (simp add: mgr_inv_def)
  from S obtain m where m: "table_map (mg_table M') i = Some m" "m_resident_at m \<noteq> 0" "m_size m = hd_size h"
    by auto
  obtain r M2 where ev: "evict i M' = (r, M2)" by (cases "evict i M'")
  from inv ev show ?thesis
  proof (cases rule: evict_cases)
    case failed
    with m assms(3) show ?thesis by auto
  next
    case (evicted m' a t c)
    with m ev show ?thesis by (simp add: gone_def)
  qed
qed

lemma no_lease_pins_witness:
  "fst (evict sample_id (snd (acquire sample_id Pin 1 (sample_manager 0)))) = Inr 64"
proof -
  obtain h where h: "fst (acquire sample_id Pin 1 (sample_manager 0)) = Inr h"
    "length (ar_free (mg_arena (snd (acquire sample_id Pin 1 (sample_manager 0))))) = 1"
    using acquire_sample by blast
  then have a: "acquire sample_id Pin 1 (sample_manager 0) =
      (Inr h, snd (acquire sample_id Pin 1 (sample_manager 0)))" by (simp add: prod_eq_iff)
  from no_lease_pins [OF sample_manager_facts(2) this] h(2)
  have "fst (evict sample_id (snd (acquire sample_id Pin 1 (sample_manager 0)))) = Inr (hd_size h)"
    by (simp add: HOLES_def)
  moreover have "hd_size h = 64"
    using acquire_spec [OF sample_manager_facts(2) a, unfolded sum.case]
    by (auto simp: sample_manager_facts(4) sample_meta_def)
  ultimately show ?thesis by simp
qed

text \<open>A block that is neither free nor some resident's makes a leak.\<close>

lemma leaked_block:
  assumes "x < length (ar_bytes (mg_arena M))" "x \<notin> free_set (mg_arena M)"
    and "\<And>k b. blocks M k = Some b \<Longrightarrow> x \<notin> block aligned b"
  shows "\<not> no_leak M"
proof
  assume "no_leak M"
  then have "x \<in> free_set (mg_arena M) \<union> (\<Union>b \<in> ran (blocks M). block aligned b)"
    using assms(1) unfolding no_leak_def covers_def by blast
  with assms(2,3) show False by (auto simp: ran_def)
qed

text \<open>C40: a provider that fails after the arena gave out the block leaves the block allocated
  with no object in it: the bytes are neither free nor any resident's.\<close>

theorem failed_read_leaks:
  assumes "mgr_inv_pending pend M" "table_map (mg_table M) i = Some m" "object_class_of i = Some c"
    and "Some p \<in> set (mg_providers M)" "mgr_place i (located_new i m) p l wanted M = (Inl e, M')"
    and "\<exists>h \<in> set (ar_free (mg_arena M)). aligned (m_size m) \<le> h_len h"
  shows "\<not> no_leak M'"
  using assms(1-5)
proof (cases rule: mgr_place_cases)
  case full
  with assms(6) show ?thesis by fastforce
next
  case (unread e' address start a room)
  note I = mgr_invD [OF assms(1)]
  have pos: "0 < m_size m" using I(5) [OF assms(2)] by (simp add: entry_ok_def)
  note P = arena_place_sound [OF I(2) pos unread(2)]
  have fr: "ar_bytes a = ar_bytes (mg_arena M)" "ar_base a = ar_base (mg_arena M)"
    using arena_place_frame [of "m_size m" "mg_arena M"] unread(2) by simp_all
  have "start + length room \<le> length (ar_bytes a)"
    using P(5) aligned_facts(2) [of "m_size m"] unread(4) fr(1) by simp
  note W = arena_write_facts [OF this]
  have al: "0 < aligned (m_size m)" using pos aligned_facts(4) by blast
  have bl: "blocks M' = blocks M" by (rule blocks_same) (simp_all add: unread(5) W(3) fr(2))
  show ?thesis
  proof (rule leaked_block [of start])
    show "start < length (ar_bytes (mg_arena M'))" using P(5) al W(1) fr(1) by (simp add: unread(5))
    show "start \<notin> free_set (mg_arena M')" using P(7) al W(2) by (simp add: unread(5))
    fix k b assume "blocks M' k = Some b"
    then have "block aligned b \<inter> free_set (mg_arena M) = {}"
      using I(6) unfolding bl holds_def by blast
    moreover have "start \<in> free_set (mg_arena M)" using P(6) al by auto
    ultimately show "start \<notin> block aligned b" by blast
  qed
qed simp

lemma failed_read_leaks_witness:
  "\<exists>M' p. fst (mgr_place sample_id (located_new sample_id sample_meta) p Pin Never
       (sample_manager 0\<lparr>mg_providers := [Some p]\<rparr>)) = Inl NotResident \<and>
     \<not> no_leak (snd (mgr_place sample_id (located_new sample_id sample_meta) p Pin Never
       (sample_manager 0\<lparr>mg_providers := [Some p]\<rparr>)))"
proof -
  let ?p = "sample_provider\<lparr>pr_read := (\<lambda>loc off into. (Inl NotResident, into))\<rparr>"
  let ?M = "sample_manager 0\<lparr>mg_providers := [Some ?p]\<rparr>"
  have inv: "mgr_inv_pending (\<lambda>_. 0) ?M"
    using sample_manager_facts(2) [of 0]
    by (simp add: mgr_inv_def mgr_inv_pending_def providers_ok_def accounts_def)
  have al: "aligned 64 = 64" by (simp add: aligned_def ALIGN_def next_multiple_of_def)
  have pl: "arena_place 64 (mg_arena ?M) = (Inr (4096, 0, 64),
      arena_new 4096 (replicate 256 0)\<lparr>ar_free := [\<lparr>h_at = 64, h_len = 192\<rparr>], ar_used := 64\<rparr>)"
    by (simp add: arena_place_def al sample_manager_facts(7) arena_new_def Let_def)
  let ?run = "mgr_place sample_id (located_new sample_id sample_meta) ?p Pin Never ?M"
  have r: "fst ?run = Inl NotResident"
    using pl by (simp add: mgr_place_def located_new_def sample_meta_def)
  then have "?run = (Inl NotResident, snd ?run)" by (simp add: prod_eq_iff)
  from failed_read_leaks [OF inv _ _ _ this, of KvBlock] have "\<not> no_leak (snd ?run)"
    by (simp add: sample_manager_facts(4,7) arena_new_def al sample_meta_def sample_id_def)
  with r show ?thesis by blast
qed

text \<open>Registering again an object that is resident succeeds, drops its residency without
  releasing its block, and so loses the block.\<close>

theorem reregistering_resident_leaks:
  assumes "mgr_inv M" "table_map (mg_table M) i = Some m0" "m_resident_at m0 \<noteq> 0" "m_resident_at m = 0"
  shows "fst (register i m M) = Inr () \<and> \<not> no_leak (snd (register i m M))"
proof -
  have inv: "mgr_inv_pending (\<lambda>_. 0) M" using assms(1) by (simp add: mgr_inv_def)
  note I = mgr_invD [OF inv] and b = resident_block [OF inv assms(2,3)]
  let ?s = "m_resident_at m0 - ar_base (mg_arena M)"
  have "fst (table_insert i m (mg_table M))" using tab.put_present [OF I(1)] assms(2) by simp
  then obtain t where ins: "table_insert i m (mg_table M) = (True, t)"
    by (cases "table_insert i m (mg_table M)") auto
  have t: "table_map t = (table_map (mg_table M))(i \<mapsto> m)" using tab.put_true [OF I(1) ins] by blast
  have reg: "register i m M = (Inr (), M\<lparr>mg_table := t, mg_counters := count_registered (m_size m) (mg_counters M)\<rparr>)"
    using ins by (simp add: register_def)
  let ?M = "M\<lparr>mg_table := t, mg_counters := count_registered (m_size m) (mg_counters M)\<rparr>"
  have bl: "blocks ?M = (blocks M)(i := None)"
    using blocks_update [of ?M M i m] t assms(4) by (simp add: block_of_def)
  have al: "0 < aligned (m_size m0)" using I(5) [OF assms(2)] aligned_facts(4) by (simp add: entry_ok_def)
  have in0: "?s \<in> block aligned (?s, m_size m0)" using al by (simp add: block_def)
  have h: "?s + aligned (m_size m0) \<le> length (ar_bytes (mg_arena M))"
    "block aligned (?s, m_size m0) \<inter> free_set (mg_arena M) = {}"
    using I(6) b(1) unfolding holds_def by fastforce+
  have "\<not> no_leak ?M"
  proof (rule leaked_block [of ?s])
    show "?s < length (ar_bytes (mg_arena ?M))" using h(1) al by simp
    show "?s \<notin> free_set (mg_arena ?M)" using h(2) in0 by auto
    fix k b' assume "blocks ?M k = Some b'"
    then have "k \<noteq> i" "blocks M k = Some b'" unfolding bl by (auto split: if_splits)
    then have "block aligned b' \<inter> block aligned (?s, m_size m0) = {}"
      using I(6) b(1) unfolding holds_def by blast
    with in0 show "?s \<notin> block aligned b'" by blast
  qed
  with reg show ?thesis by simp
qed

lemma reregistering_resident_leaks_witness:
  "\<not> no_leak (snd (register sample_id sample_meta (snd (acquire sample_id Pin 1 (sample_manager 0)))))"
proof -
  obtain h where h: "fst (acquire sample_id Pin 1 (sample_manager 0)) = Inr h" using acquire_sample by blast
  then have a: "acquire sample_id Pin 1 (sample_manager 0) =
      (Inr h, snd (acquire sample_id Pin 1 (sample_manager 0)))" by (simp add: prod_eq_iff)
  note S = acquire_spec [OF sample_manager_facts(2) a, unfolded sum.case]
  then obtain m where "table_map (mg_table (snd (acquire sample_id Pin 1 (sample_manager 0)))) sample_id = Some m"
    "m_resident_at m \<noteq> 0" by auto
  from reregistering_resident_leaks [OF _ this, of sample_meta] S show ?thesis
    by (simp add: sample_meta_def)
qed

end
