(* ===== verification/Synth.thy ===== *)
theory Synth
  imports Provider
begin

text \<open>
  crates/mlos-synth and crates/mlos-virtio-blk: the synthetic model's object ids and records,
  the tiers that only charge, and the disk its weights are read from. The block device is an
  argument: what it answers to a request for a sector is a status byte and 512 bytes of data.
\<close>

section \<open>The model (model.rs, kv.rs)\<close>

definition LAYERS :: nat where "LAYERS = 8"
definition TILES :: nat where "TILES = 16"
definition TILE_BYTES :: nat where "TILE_BYTES = 1024"
definition ACTIVATION_BYTES :: nat where "ACTIVATION_BYTES = 2048"
definition MODEL :: nat where "MODEL = 1"
definition KV_BYTES :: nat where "KV_BYTES = 256"

definition tile :: "u16 \<Rightarrow> u16 \<Rightarrow> object_id" where
  "tile layer tensor =
     object_new WeightTile \<lparr>f_model = of_nat MODEL, f_layer = layer, f_tensor = tensor, f_tile = 0\<rparr>"

definition activation :: "u16 \<Rightarrow> object_id" where
  "activation layer =
     object_new Activation \<lparr>f_model = of_nat MODEL, f_layer = layer, f_tensor = 0, f_tile = 0\<rparr>"

definition weights :: object_meta where
  "weights =
     \<lparr>m_size = TILE_BYTES, m_precision = Q4, m_tier = Cold, m_home = Cold, m_provider = 2,
      m_handle = 0, m_resident_at = 0, m_next_use = Never, m_reuse_count = 0, m_placed_tick = 0,
      m_used_tick = 0, m_reload_cost = 4000000, m_recompute_cost = IMPOSSIBLE, m_share_count = 0,
      m_mutability = Immutable, m_owner = 0\<rparr>"

definition activations :: object_meta where
  "activations =
     \<lparr>m_size = ACTIVATION_BYTES, m_precision = Fp16, m_tier = Archive, m_home = Archive,
      m_provider = 3, m_handle = 0, m_resident_at = 0, m_next_use = Never, m_reuse_count = 0,
      m_placed_tick = 0, m_used_tick = 0, m_reload_cost = IMPOSSIBLE, m_recompute_cost = 70000,
      m_share_count = 0, m_mutability = Mutable, m_owner = 0\<rparr>"

definition kv_block :: "u16 \<Rightarrow> u16 \<Rightarrow> u16 \<Rightarrow> object_id" where
  "kv_block session layer pos =
     object_new KvBlock \<lparr>f_model = session, f_layer = layer, f_tensor = pos, f_tile = 0\<rparr>"

definition kv_meta :: "session_id \<Rightarrow> object_meta" where
  "kv_meta session =
     \<lparr>m_size = KV_BYTES, m_precision = Fp16, m_tier = Warm, m_home = Warm, m_provider = 3,
      m_handle = 0, m_resident_at = 0, m_next_use = Never, m_reuse_count = 0, m_placed_tick = 0,
      m_used_tick = 0, m_reload_cost = 400000, m_recompute_cost = 2000000, m_share_count = 0,
      m_mutability = Mutable, m_owner = session\<rparr>"

section \<open>Tiers that only charge (tiers.rs)\<close>

record charging_tier =
  ti_id :: provider_id
  ti_cost :: cost

definition BACKING :: charging_tier where
  "BACKING = \<lparr>ti_id = 2, ti_cost = \<lparr>co_latency = 3000000, co_bytes_per_ms = 1000000\<rparr>\<rparr>"

definition RECOMPUTE :: charging_tier where
  "RECOMPUTE = \<lparr>ti_id = 3, ti_cost = \<lparr>co_latency = 20000, co_bytes_per_ms = 40000\<rparr>\<rparr>"

definition tier_read :: "located \<Rightarrow> nat \<Rightarrow> u8 list \<Rightarrow> nat res \<times> u8 list" where
  "tier_read object offset into =
     (let fields = object_fields (lo_id object) in
      (Inr (wrap 32 (length into)),
       replicate (length into) (ucast (f_layer fields) XOR ucast (f_tensor fields))))"

definition tier_provider :: "charging_tier \<Rightarrow> provider" where
  "tier_provider t =
     \<lparr>pr_id = ti_id t, pr_read = tier_read, pr_cost = (\<lambda>_. ti_cost t), pr_prefetch = default_prefetch\<rparr>"

section \<open>The block device (mlos-virtio-blk)\<close>

definition SECTOR :: nat where "SECTOR = 512"

datatype status = StatusOk | StatusError | StatusUnsupported

definition status_from_u8 :: "u8 \<Rightarrow> status" where
  "status_from_u8 v =
     (if v = 0 then StatusOk else if v = 2 then StatusUnsupported else StatusError)"

text \<open>What the device answers for a sector: the status byte it leaves, and the byte at each
  index of the 512-byte data buffer.\<close>

type_synonym device = "nat \<Rightarrow> u8 \<times> (nat \<Rightarrow> u8)"

definition read_sector :: "device \<Rightarrow> nat \<Rightarrow> u8 list \<Rightarrow> unit res \<times> u8 list" where
  "read_sector dev sector into =
     (if length into \<noteq> SECTOR then (Inl BadObject, into)
      else case status_from_u8 (fst (dev sector)) of
             StatusOk \<Rightarrow> (Inr (), map (snd (dev sector)) [0..<SECTOR])
           | _ \<Rightarrow> (Inl NoProvider, into))"

text \<open>The loop of \<open>read_at\<close>: \<open>count\<close> bytes are in \<open>into\<close> already.\<close>

function read_loop :: "device \<Rightarrow> nat \<Rightarrow> nat \<Rightarrow> u8 list \<Rightarrow> u8 list \<Rightarrow> nat res \<times> u8 list" where
  "read_loop dev sector count scratch into =
     (if count < length into then
        (case read_sector dev sector scratch of
           (Inl e, _) \<Rightarrow> (Inl e, into)
         | (Inr _, scratch') \<Rightarrow>
             (let n = min (length into - count) SECTOR in
              read_loop dev (sector + 1) (count + n) scratch'
                (take count into @ take n scratch' @ drop (count + n) into)))
      else (Inr (wrap 32 count), into))"
  by pat_completeness auto
termination
  by (relation "measure (\<lambda>(_, _, count, _, into). length into - count)")
    (auto simp: SECTOR_def read_sector_def split: if_splits status.splits)

declare read_loop.simps [simp del]

definition read_at :: "device \<Rightarrow> nat \<Rightarrow> u8 list \<Rightarrow> nat res \<times> u8 list" where
  "read_at dev offset into =
     (if offset mod SECTOR \<noteq> 0 then (Inl BadObject, into)
      else read_loop dev (offset div SECTOR) 0 (replicate SECTOR 0) into)"

section \<open>The disk (disk.rs)\<close>

definition DISK :: provider_id where "DISK = 4"

definition TRACE_AT :: nat where "TRACE_AT = LAYERS * TILES * TILE_BYTES div SECTOR"

definition sector_of :: "object_id \<Rightarrow> nat" where
  "sector_of i =
     (let fields = object_fields i in
      (unat (f_layer fields) * TILES + unat (f_tensor fields)) * (TILE_BYTES div SECTOR))"

definition disk_read :: "device \<Rightarrow> located \<Rightarrow> nat \<Rightarrow> u8 list \<Rightarrow> nat res \<times> u8 list" where
  "disk_read dev object offset into =
     (let at = sector_of (lo_id object) * SECTOR + offset;
          want = min (length into) (lo_size object)
      in case read_at dev at (take want into) of
           (Inl e, part) \<Rightarrow> (Inl NoProvider, part @ drop want into)
         | (Inr n, part) \<Rightarrow> (Inr n, part @ drop want into))"

definition disk_cost :: "located \<Rightarrow> cost" where
  "disk_cost object = \<lparr>co_latency = 3000000, co_bytes_per_ms = 1000000\<rparr>"

definition disk_provider :: "device \<Rightarrow> provider" where
  "disk_provider dev =
     \<lparr>pr_id = DISK, pr_read = disk_read dev, pr_cost = disk_cost, pr_prefetch = default_prefetch\<rparr>"

section \<open>What a read delivers\<close>

text \<open>The byte at an offset of the whole disk.\<close>

definition disk_byte :: "device \<Rightarrow> nat \<Rightarrow> u8" where
  "disk_byte dev p = snd (dev (p div SECTOR)) (p mod SECTOR)"

definition sector_good :: "device \<Rightarrow> nat \<Rightarrow> bool" where
  "sector_good dev s = (fst (dev s) = 0)"

lemma SECTOR_pos [simp]: "0 < SECTOR"
  by (simp add: SECTOR_def)

lemma status_ok: "status_from_u8 v = StatusOk \<longleftrightarrow> v = 0"
  by (simp add: status_from_u8_def)

lemma read_sector_eq:
  "length into = SECTOR \<Longrightarrow> read_sector dev s into =
     (if sector_good dev s then (Inr (), map (snd (dev s)) [0..<SECTOR]) else (Inl NoProvider, into))"
  using status_ok [of "fst (dev s)"]
  by (auto simp: read_sector_def sector_good_def split: status.splits)

lemma sector_bytes:
  "n \<le> SECTOR \<Longrightarrow> map (disk_byte dev) [s * SECTOR..<s * SECTOR + n] = take n (map (snd (dev s)) [0..<SECTOR])"
  by (rule nth_equalityI) (auto simp: disk_byte_def)

lemma read_loop_ok:
  "length scratch = SECTOR \<Longrightarrow> count \<le> length into \<Longrightarrow>
   \<forall>s. sector \<le> s \<and> s * SECTOR < sector * SECTOR + (length into - count) \<longrightarrow> sector_good dev s \<Longrightarrow>
   read_loop dev sector count scratch into =
     (Inr (wrap 32 (length into)),
      take count into @ map (disk_byte dev) [sector * SECTOR..<sector * SECTOR + (length into - count)])"
proof (induction dev sector count scratch into rule: read_loop.induct)
  case (1 dev sector count scratch into)
  show ?case
  proof (cases "count < length into")
    case True
    define n where "n = min (length into - count) SECTOR"
    define scratch' where "scratch' = map (snd (dev sector)) [0..<SECTOR]"
    define into' where "into' = take count into @ take n scratch' @ drop (count + n) into"
    have good: "sector_good dev sector" using 1(4) True by simp
    have rs: "read_sector dev sector scratch = (Inr (), scratch')"
      using good by (simp add: read_sector_eq [OF 1(2)] scratch'_def)
    have n: "n \<le> SECTOR" "n \<le> length into - count" "0 < n" using True by (auto simp: n_def)
    have l: "length scratch' = SECTOR" "length into' = length into"
      using n True by (auto simp: scratch'_def into'_def)
    have rest: "(sector + 1) * SECTOR + (length into' - (count + n)) =
        sector * SECTOR + (length into - count) \<or> length into' = count + n"
      using n l True by (auto simp: n_def min_def)
    have g: "\<forall>s. sector + 1 \<le> s \<and> s * SECTOR < (sector + 1) * SECTOR + (length into' - (count + n)) \<longrightarrow> sector_good dev s"
    proof (intro allI impI)
      fix s assume s: "sector + 1 \<le> s \<and> s * SECTOR < (sector + 1) * SECTOR + (length into' - (count + n))"
      show "sector_good dev s"
      proof (cases "length into' = count + n")
        case True
        with s have "s * SECTOR < (sector + 1) * SECTOR" by simp
        with s show ?thesis by (simp only: mult_less_cancel2) simp
      next
        case False
        with rest s have "sector \<le> s \<and> s * SECTOR < sector * SECTOR + (length into - count)" by simp
        with 1(4) show ?thesis by blast
      qed
    qed
    have IH: "read_loop dev (sector + 1) (count + n) scratch' into' =
        (Inr (wrap 32 (length into')), take (count + n) into' @
          map (disk_byte dev) [(sector + 1) * SECTOR..<(sector + 1) * SECTOR + (length into' - (count + n))])"
      using 1(1) [OF True rs [symmetric] refl n_def, folded into'_def] l n g by simp
    have t: "take (count + n) into' = take count into @ map (disk_byte dev) [sector * SECTOR..<sector * SECTOR + n]"
      using True n l by (simp add: into'_def sector_bytes scratch'_def)
    have "map (disk_byte dev) [sector * SECTOR..<sector * SECTOR + n] @
        map (disk_byte dev) [(sector + 1) * SECTOR..<(sector + 1) * SECTOR + (length into' - (count + n))] =
        map (disk_byte dev) [sector * SECTOR..<sector * SECTOR + (length into - count)]"
    proof (cases "length into' = count + n")
      case True
      then show ?thesis using l by (simp add: n_def min_def split: if_splits)
    next
      case False
      then have "n = SECTOR" using l n by (auto simp: n_def min_def split: if_splits)
      moreover have "sector * SECTOR + (length into - count) = (sector + 1) * SECTOR + (length into' - (count + n))"
        using rest False by simp
      ultimately show ?thesis
        using upt_add_eq_append [of "sector * SECTOR" "(sector + 1) * SECTOR" "length into' - (count + n)"]
        by (simp add: ac_simps flip: map_append)
    qed
    with IH t l have "read_loop dev (sector + 1) (count + n) scratch' into' =
        (Inr (wrap 32 (length into)), take count into @
          map (disk_byte dev) [sector * SECTOR..<sector * SECTOR + (length into - count)])" by simp
    then show ?thesis
      using True rs by (subst read_loop.simps) (simp add: n_def into'_def Let_def)
  next
    case False
    with 1(3) show ?thesis by (subst read_loop.simps) simp
  qed
qed

lemma read_loop_keeps:
  "length scratch = SECTOR \<Longrightarrow> read_loop dev sector count scratch into = (r, out) \<Longrightarrow>
     length out = length into \<and>
     (case r of Inl e \<Rightarrow> e = NoProvider \<and>
          (\<exists>s \<ge> sector. s * SECTOR < sector * SECTOR + (length into - count) \<and> \<not> sector_good dev s)
      | Inr m \<Rightarrow> (count \<le> length into \<longrightarrow> m = wrap 32 (length into)) \<and>
          (\<forall>s \<ge> sector. s * SECTOR < sector * SECTOR + (length into - count) \<longrightarrow> sector_good dev s))"
proof (induction dev sector count scratch into arbitrary: r out rule: read_loop.induct)
  case (1 dev sector count scratch into)
  show ?case
  proof (cases "count < length into \<and> sector_good dev sector")
    case True
    define n where "n = min (length into - count) SECTOR"
    define scratch' where "scratch' = map (snd (dev sector)) [0..<SECTOR]"
    define into' where "into' = take count into @ take n scratch' @ drop (count + n) into"
    have rs: "read_sector dev sector scratch = (Inr (), scratch')"
      using True by (simp add: read_sector_eq [OF 1(2)] scratch'_def)
    have l: "length scratch' = SECTOR" "length into' = length into" "n \<le> SECTOR" "count + n \<le> length into"
      using True by (auto simp: scratch'_def into'_def n_def)
    have run: "read_loop dev (sector + 1) (count + n) scratch' into' = (r, out)"
      using 1(3) True rs by (subst (asm) (1) read_loop.simps) (simp add: n_def into'_def Let_def)
    have IH: "length out = length into' \<and>
      (case r of Inl e \<Rightarrow> e = NoProvider \<and>
          (\<exists>s \<ge> sector + 1. s * SECTOR < (sector + 1) * SECTOR + (length into' - (count + n)) \<and> \<not> sector_good dev s)
      | Inr m \<Rightarrow> (count + n \<le> length into' \<longrightarrow> m = wrap 32 (length into')) \<and>
          (\<forall>s \<ge> sector + 1. s * SECTOR < (sector + 1) * SECTOR + (length into' - (count + n)) \<longrightarrow> sector_good dev s))"
      using 1(1) [OF conjunct1 [OF True] rs [symmetric] refl n_def, folded into'_def] l(1) run by blast
    have near: "s * SECTOR < sector * SECTOR + (length into - count) \<longleftrightarrow>
        s * SECTOR < (sector + 1) * SECTOR + (length into' - (count + n))"
      if "sector + 1 \<le> s" for s
    proof (cases "length into' = count + n")
      case True
      then have "length into - count \<le> SECTOR" using l by simp
      moreover have "(sector + 1) * SECTOR \<le> s * SECTOR" using that by (rule mult_le_mono1)
      ultimately show ?thesis using True l by simp
    next
      case False
      then have "n = SECTOR" using l by (auto simp: n_def min_def split: if_splits)
      with that l show ?thesis by simp
    qed
    show ?thesis
    proof (cases r)
      case (Inl e)
      with IH near l show ?thesis by (auto dest: Suc_leD)
    next
      case (Inr m)
      have "sector_good dev s" if "sector \<le> s" "s * SECTOR < sector * SECTOR + (length into - count)" for s
      proof (cases "s = sector")
        case True
        then show ?thesis using \<open>count < length into \<and> sector_good dev sector\<close> by simp
      next
        case False
        then have s: "sector + 1 \<le> s" using that by simp
        then show ?thesis using IH that near [OF s] Inr by simp
      qed
      then show ?thesis using Inr IH l by simp
    qed
  next
    case False
    have neg: "\<not> (count < length into) \<Longrightarrow> r = Inr (wrap 32 count) \<and> out = into"
      using 1(3) by (subst (asm) (1) read_loop.simps) simp
    have bad: "count < length into \<Longrightarrow> r = Inl NoProvider \<and> out = into"
      using 1(3) False by (subst (asm) (1) read_loop.simps) (simp add: read_sector_eq [OF 1(2)])
    show ?thesis
    proof (cases "count < length into")
      case True
      with False bad show ?thesis by (auto intro!: exI [of _ sector])
    next
      case f: False
      with neg show ?thesis by simp
    qed
  qed
qed

lemma read_at_ok:
  assumes "at mod SECTOR = 0"
    "\<forall>s. at \<le> s * SECTOR \<and> s * SECTOR < at + length into \<longrightarrow> sector_good dev s"
  shows "read_at dev at into = (Inr (wrap 32 (length into)), map (disk_byte dev) [at..<at + length into])"
proof -
  have at: "at div SECTOR * SECTOR = at" using assms(1) by auto
  have "\<forall>s. at div SECTOR \<le> s \<and> s * SECTOR < at div SECTOR * SECTOR + (length into - 0) \<longrightarrow> sector_good dev s"
    using assms(2) at by (metis diff_zero mult_le_mono1)
  from read_loop_ok [OF _ _ this, of "replicate SECTOR 0"] show ?thesis
    using assms(1) at by (simp add: read_at_def)
qed

lemma read_at_bad:
  assumes "at mod SECTOR = 0" "at \<le> s * SECTOR" "s * SECTOR < at + length into" "\<not> sector_good dev s"
  shows "fst (read_at dev at into) = Inl NoProvider"
proof -
  obtain r out where run: "read_at dev at into = (r, out)" by fastforce
  have at: "at div SECTOR * SECTOR = at" using assms(1) by auto
  have "read_loop dev (at div SECTOR) 0 (replicate SECTOR 0) into = (r, out)"
    using run assms(1) by (simp add: read_at_def)
  note K = read_loop_keeps [OF _ this, simplified, unfolded at]
  have "at div SECTOR \<le> s" using assms(2) at SECTOR_pos by (metis mult_le_cancel2 neq0_conv)
  with K assms(3,4) run show ?thesis by (cases r) auto
qed

lemma read_at_length: "length (snd (read_at dev at into)) = length into"
  using read_loop_keeps [of "replicate SECTOR 0" dev "at div SECTOR" 0 into]
  by (cases "read_loop dev (at div SECTOR) 0 (replicate SECTOR 0) into") (auto simp: read_at_def)

lemma read_at_count: "fst (read_at dev at into) = Inr n \<Longrightarrow> n = wrap 32 (length into)"
  using read_loop_keeps [of "replicate SECTOR 0" dev "at div SECTOR" 0 into]
  by (cases "read_loop dev (at div SECTOR) 0 (replicate SECTOR 0) into")
    (auto simp: read_at_def split: if_splits)

text \<open>The disk keeps the contract the fault path relies on.\<close>

interpretation disk: reader "disk_read dev" for dev
proof
  fix object :: located and offset n and into :: "u8 list"
  let ?want = "min (length into) (lo_size object)"
  have l: "length (snd (read_at dev at (take ?want into))) = ?want" for at
    by (simp add: read_at_length)
  show "length (snd (disk_read dev object offset into)) = length into"
    using l [of "sector_of (lo_id object) * SECTOR + offset"]
    by (auto simp: disk_read_def Let_def split: prod.splits sum.splits)
  have c: "fst (disk_read dev object offset into) = Inr n \<Longrightarrow> n = wrap 32 ?want"
    using read_at_count [of dev "sector_of (lo_id object) * SECTOR + offset" "take ?want into" n]
    by (auto simp: disk_read_def Let_def split: prod.splits sum.splits)
  show "fst (disk_read dev object offset into) = Inr n \<Longrightarrow> n \<le> length into"
    using c by (auto simp: wrap_def intro: le_trans [OF mod_less_eq_dividend])
  assume size: "lo_size object < 2 ^ 32" and ok: "fst (disk_read dev object offset into) = Inr n"
  have n: "n = ?want" using c [OF ok] size by (simp add: wrap_def min_def)
  show "drop n (snd (disk_read dev object offset into)) = drop n into"
    using l [of "sector_of (lo_id object) * SECTOR + offset"] n
    by (auto simp: disk_read_def Let_def split: prod.splits sum.splits)
qed

lemma object_fields_new [simp]: "object_fields (object_new c f) = f"
  by (simp add: object_fields_def object_new_slices)

lemma tile_offset:
  "sector_of (tile layer tensor) * SECTOR = (unat layer * TILES + unat tensor) * TILE_BYTES"
  by (simp add: sector_of_def tile_def TILE_BYTES_def SECTOR_def)

section \<open>Properties\<close>

text \<open>C21: a sector-aligned read of the disk delivers exactly the bytes the device holds from
  the object's first sector on, when the device serves every sector of the range, and fails
  with \<open>NoProvider\<close> when it refuses one. The count asked for is bounded by the object's size and
  not by what is left of it past the offset, so a read with an offset runs into the next object.\<close>

theorem disk_read_exact:
  assumes "lo_size object < 2 ^ 32" "offset mod SECTOR = 0"
  shows "(let start = sector_of (lo_id object) * SECTOR + offset;
       want = min (length into) (lo_size object);
       asked = (\<lambda>s. start \<le> s * SECTOR \<and> s * SECTOR < start + want)
     in if \<forall>s. asked s \<longrightarrow> fst (dev s) = 0
        then disk_read dev object offset into =
          (Inr want, map (disk_byte dev) [start..<start + want] @ drop want into)
        else fst (disk_read dev object offset into) = Inl NoProvider)"
proof -
  define start where "start = sector_of (lo_id object) * SECTOR + offset"
  define want where "want = min (length into) (lo_size object)"
  have s: "start mod SECTOR = 0" using assms(2) by (simp add: start_def)
  have l: "length (take want into) = want" by (simp add: want_def)
  have w: "wrap 32 want = want" using assms(1) by (simp add: want_def wrap_def min_def)
  have ok: "disk_read dev object offset into =
      (Inr want, map (disk_byte dev) [start..<start + want] @ drop want into)"
    if "\<forall>s. start \<le> s * SECTOR \<and> s * SECTOR < start + want \<longrightarrow> fst (dev s) = 0"
    using read_at_ok [OF s, of "take want into" dev] that l w
    by (simp add: disk_read_def Let_def start_def [symmetric] want_def [symmetric] sector_good_def)
  have bad: "fst (disk_read dev object offset into) = Inl NoProvider"
    if "start \<le> s * SECTOR" "s * SECTOR < start + want" "fst (dev s) \<noteq> 0" for s
    using read_at_bad [OF s that(1), of "take want into" dev] that l
    by (auto simp: disk_read_def Let_def start_def [symmetric] want_def [symmetric] sector_good_def
        split: prod.splits)
  show ?thesis
    unfolding Let_def start_def [symmetric] want_def [symmetric] using ok bad by auto
qed

lemma disk_read_exact_witness:
  "disk_read (\<lambda>s. (0, \<lambda>k. of_nat (s + k)))
     \<lparr>lo_id = tile 0 1, lo_handle = 0, lo_size = 1024\<rparr> 512 [0, 0] = (Inr 2, [3, 4])"
proof -
  have "sector_of (tile 0 1) * SECTOR = 1024"
    unfolding tile_offset by (simp add: TILES_def TILE_BYTES_def)
  then show ?thesis
    using disk_read_exact [of "\<lparr>lo_id = tile 0 1, lo_handle = 0, lo_size = 1024\<rparr>" 512 "[0, 0]"
        "\<lambda>s. (0, \<lambda>k. of_nat (s + k))"]
    by (simp add: SECTOR_def Let_def disk_byte_def upt_rec)
qed

text \<open>The disk layout gives every weight tile of the model its own 1024 bytes, from a
  sector boundary, no two overlapping, all of them below the sector the trace starts at.\<close>

theorem tiles_on_disk_disjoint:
  assumes "unat layer < LAYERS" "unat tensor < TILES" "unat layer' < LAYERS" "unat tensor' < TILES"
    and "(layer, tensor) \<noteq> (layer', tensor')"
  shows "(let a = sector_of (tile layer tensor) * SECTOR; b = sector_of (tile layer' tensor') * SECTOR in
     (a + TILE_BYTES \<le> b \<or> b + TILE_BYTES \<le> a) \<and> a + TILE_BYTES \<le> TRACE_AT * SECTOR)"
proof -
  define i where "i = unat layer * 16 + unat tensor"
  define j where "j = unat layer' * 16 + unat tensor'"
  have t: "unat tensor < 16" "unat tensor' < 16" "unat layer < 8"
    using assms by (simp_all add: TILES_def LAYERS_def)
  have "i \<noteq> j"
  proof
    assume "i = j"
    then have "i div 16 = j div 16" "i mod 16 = j mod 16" by simp_all
    then have "unat layer = unat layer'" "unat tensor = unat tensor'"
      using t by (simp_all add: i_def j_def)
    then have "layer = layer'" "tensor = tensor'" by (simp_all add: word_unat_eq_iff)
    with assms(5) show False by simp
  qed
  moreover have "i < 128" using t by (simp add: i_def)
  ultimately show ?thesis
    unfolding Let_def tile_offset by (auto simp: TILES_def TILE_BYTES_def TRACE_AT_def LAYERS_def
        SECTOR_def i_def j_def)
qed

lemma tiles_on_disk_disjoint_witness:
  "sector_of (tile 0 1) * SECTOR + TILE_BYTES \<le> sector_of (tile 1 0) * SECTOR \<or>
   sector_of (tile 1 0) * SECTOR + TILE_BYTES \<le> sector_of (tile 0 1) * SECTOR"
  using tiles_on_disk_disjoint [of 0 1 1 0] by (simp add: LAYERS_def TILES_def Let_def)

end
