(* ===== verification/Ladder.thy ===== *)
theory Ladder
  imports Synth Objman
begin

text \<open>
  crates/mlos-ladder: what each rung of the degradation ladder makes of every block of a
  session's cache, what a rung needs and costs, the walk that picks the next move, and the
  squeeze that applies it to a manager until the live sessions fit or nothing more can be given
  up. Sums saturate where the source's do; products and counters that the source leaves
  unchecked are wrapped at their width.
\<close>

section \<open>What one block becomes (fate.rs)\<close>

datatype fate = Keep precision | Summary | Dropped

fun fate_precision :: "fate \<Rightarrow> precision option" where
  "fate_precision (Keep p) = Some p"
| "fate_precision Summary = Some Q4"
| "fate_precision Dropped = None"

fun fate_bits :: "precision option \<Rightarrow> nat" where
  "fate_bits None = 0"
| "fate_bits (Some Fp16) = 16"
| "fate_bits (Some Bf16) = 16"
| "fate_bits (Some Q8) = 8"
| "fate_bits (Some Q4) = 4"
| "fate_bits (Some Q3) = 3"
| "fate_bits (Some Ternary) = 2"

definition fate_bytes :: "fate \<Rightarrow> nat \<Rightarrow> nat" where
  "fate_bytes f full = wrap 64 (full * fate_bits (fate_precision f)) div 16"

record shape =
  sh_per_block :: nat
  sh_hot :: nat

definition shape_fate :: "shape \<Rightarrow> rung \<Rightarrow> nat \<Rightarrow> nat \<Rightarrow> fate" where
  "shape_fate sh r at blocks =
     (let cold = blocks - sh_hot sh;
          span = (if 2 \<le> cold div 2 then cold div 2 else 0);
          cut = (cold - span) - (cold - span) div 2
      in if cold \<le> at then Keep Fp16
         else case r of
           L0 \<Rightarrow> Keep Fp16
         | L1 \<Rightarrow> Keep Q8
         | L2 \<Rightarrow> Keep Q4
         | L3 \<Rightarrow> if at = 0 \<and> span \<noteq> 0 then Summary else if at < span then Dropped else Keep Q4
         | L4 \<Rightarrow> if at = 0 \<and> span \<noteq> 0 then Summary else if at < span then Dropped
                else if at < span + cut then Dropped else Keep Q4
         | _ \<Rightarrow> Dropped)"

definition shape_reads :: "shape \<Rightarrow> rung \<Rightarrow> rung \<Rightarrow> nat \<Rightarrow> nat \<Rightarrow> bool" where
  "shape_reads sh source to at blocks =
     (case (shape_fate sh source at blocks, shape_fate sh to at blocks) of
        (Dropped, _) \<Rightarrow> False
      | (Keep a, Keep b) \<Rightarrow> precision_u8 a \<noteq> precision_u8 b
      | (Summary, Summary) \<Rightarrow> False
      | (_, Dropped) \<Rightarrow>
          rung_u8 source < rung_u8 L3 \<and> rung_u8 to < rung_u8 L5 \<and>
          shape_fate sh L3 at blocks = Dropped
      | _ \<Rightarrow> True)"

section \<open>What a context needs and costs (lib.rs)\<close>

definition shape_per :: "shape \<Rightarrow> nat" where
  "shape_per sh = (if sh_per_block sh = 0 then 1 else sh_per_block sh)"

definition shape_blocks :: "shape \<Rightarrow> nat \<Rightarrow> nat" where
  "shape_blocks sh context = div_ceil context (shape_per sh)"

definition shape_full :: "shape \<Rightarrow> nat \<Rightarrow> nat \<Rightarrow> nat \<Rightarrow> nat" where
  "shape_full sh at context kv =
     (let per = shape_per sh;
          start = sat_mul 32 at per;
          tokens = context - start
      in wrap 64 ((if tokens < per then tokens else per) * kv))"

definition shape_need :: "shape \<Rightarrow> rung \<Rightarrow> nat \<Rightarrow> nat \<Rightarrow> nat" where
  "shape_need sh r context kv =
     (let blocks = shape_blocks sh context in
      foldl (sat_add 64) 0
        (map (\<lambda>at. fate_bytes (shape_fate sh r at blocks) (shape_full sh at context kv)) [0..<blocks]))"

definition shape_cost :: "shape \<Rightarrow> rung \<Rightarrow> rung \<Rightarrow> nat \<Rightarrow> nat \<Rightarrow> nat" where
  "shape_cost sh source to context kv =
     (let blocks = shape_blocks sh context in
      foldl (sat_add 64) 0
        (map (\<lambda>at. fate_bytes (shape_fate sh source at blocks) (shape_full sh at context kv))
          (filter (\<lambda>at. shape_reads sh source to at blocks) [0..<blocks])))"

section \<open>The walk (walk.rs)\<close>

datatype move = Fits | Deepen rung | Terminate session_id | Exhausted

definition movable :: "session \<Rightarrow> rung \<Rightarrow> bool" where
  "movable s r =
     (c_context (s_contract s) \<noteq> 0 \<and> s_rung s < r \<and> r \<le> L5 \<and> permits (s_contract s) (quality r))"

text \<open>What the live sessions hold on their rungs.\<close>

definition ladder_demand :: "capacity \<Rightarrow> shape \<Rightarrow> sessions \<Rightarrow> nat" where
  "ladder_demand cap sh live =
     foldl (sat_add 64) 0
       (map (\<lambda>s. shape_need sh (s_rung s) (c_context (s_contract s)) (cp_kv_per_token cap)) (each live))"

definition ladder_fits :: "capacity \<Rightarrow> shape \<Rightarrow> sessions \<Rightarrow> bool" where
  "ladder_fits cap sh live =
     (cp_bytes cap = 0 \<or> ladder_demand cap sh live \<le> cp_bytes cap - cp_reserved cap)"

definition deeper_of :: "session \<Rightarrow> rung option" where
  "deeper_of s = (case deeper (s_rung s) of None \<Rightarrow> None | Some r \<Rightarrow> if movable s r then Some r else None)"

text \<open>\<open>Iterator::min\<close> and \<open>Iterator::max\<close>.\<close>

fun opt_min :: "'a::linorder list \<Rightarrow> 'a option" where
  "opt_min [] = None"
| "opt_min (x # xs) = Some (foldl min x xs)"

fun opt_max :: "'a::linorder list \<Rightarrow> 'a option" where
  "opt_max [] = None"
| "opt_max (x # xs) = Some (foldl max x xs)"

definition next_move :: "capacity \<Rightarrow> shape \<Rightarrow> sessions \<Rightarrow> move" where
  "next_move cap sh live =
     (if ladder_fits cap sh live then Fits
      else case opt_min (List.map_filter deeper_of (each live)) of
             Some r \<Rightarrow> Deepen r
           | None \<Rightarrow>
               (case opt_max (map s_id (filter (\<lambda>s. c_context (s_contract s) \<noteq> 0) (each live))) of
                  Some i \<Rightarrow> Terminate i
                | None \<Rightarrow> Exhausted))"

text \<open>The prefill of \<open>arrive\<close>: the blocks still to place, as pairs of block and layer in the
  order of the two nested loops. The first one that is refused ends it.\<close>

definition block_meta :: "shape \<Rightarrow> nat \<Rightarrow> session_id \<Rightarrow> object_meta \<Rightarrow> nat \<Rightarrow> object_meta" where
  "block_meta sh context i template at =
     (let full = shape_full sh at context (m_size template) in
      template\<lparr>m_owner := i, m_size := (if full \<le> umax 32 then full else umax 32)\<rparr>)"

fun prefill ::
  "(nat \<Rightarrow> object_meta) \<Rightarrow> session_id \<Rightarrow> (nat \<times> nat) list \<Rightarrow> nat \<Rightarrow> manager \<Rightarrow> nat \<times> manager" where
  "prefill meta i [] placed M = (placed, M)"
| "prefill meta i ((at, layer) # rest) placed M =
     (let object = kv_block (of_nat i) (of_nat layer) (of_nat at) in
      case register object (meta at) M of
        (Inl _, M') \<Rightarrow> (placed, M')
      | (Inr _, M') \<Rightarrow>
          (case consume object i M' of
             (Inl _, M'') \<Rightarrow> (placed, M'')
           | (Inr _, M'') \<Rightarrow> prefill meta i rest (wrap 32 (placed + 1)) M''))"

definition arrive ::
  "shape \<Rightarrow> contract \<Rightarrow> nat \<times> object_meta \<Rightarrow> manager \<Rightarrow> (refusal + session_id \<times> nat) \<times> manager" where
  "arrive sh c lt M =
     (case lt of (layers, template) \<Rightarrow>
       (case create_session c M of
          (Inl r, M') \<Rightarrow> (Inl r, M')
        | (Inr i, M') \<Rightarrow>
            (let context = c_context c;
                 todo = concat (map (\<lambda>at. map (\<lambda>layer. (at, layer)) [0..<layers])
                          [0..<shape_blocks sh context])
             in case prefill (block_meta sh context i template) i todo 0 M' of
                  (placed, M'') \<Rightarrow> (Inr (i, placed), M''))))"

section \<open>Applying it to a manager (squeeze.rs)\<close>

record squeezed =
  sq_reached :: rung
  sq_recomputed :: nat
  sq_terminated :: nat
  sq_fits :: bool

definition squeezed_default :: squeezed where
  "squeezed_default = \<lparr>sq_reached = L0, sq_recomputed = 0, sq_terminated = 0, sq_fits = False\<rparr>"

text \<open>The size a block of record \<open>m\<close> has once it is rewritten to a fate that keeps it.\<close>

definition rewritten_size :: "fate \<Rightarrow> object_meta \<Rightarrow> nat" where
  "rewritten_size f m =
     (let full = 16 * m_size m div max (fate_bytes (Keep (m_precision m)) 16) 1;
          bytes = fate_bytes f full
      in if bytes \<le> umax 32 then min bytes (m_size m) else m_size m)"

definition rewrite :: "object_id \<Rightarrow> fate \<Rightarrow> manager \<Rightarrow> unit res \<times> manager" where
  "rewrite object f M =
     (case table_get (mg_table M) object of
        None \<Rightarrow> (Inl BadObject, M)
      | Some m \<Rightarrow>
          (case fate_precision f of
             None \<Rightarrow>
               (case (if m_resident_at m = 0 then (Inr 0, M) else evict object M) of
                  (Inl e, M') \<Rightarrow> (Inl e, M')
                | (Inr _, M') \<Rightarrow> (Inr (), M'\<lparr>mg_table := snd (table_remove object (mg_table M'))\<rparr>))
           | Some p \<Rightarrow>
               (let sz = rewritten_size f m;
                    old = wrap 32 (next_multiple_of ALIGN (m_size m));
                    new = wrap 32 (next_multiple_of ALIGN sz);
                    freed = (if m_resident_at m \<noteq> 0 \<and> new < old
                             then (case arena_release (wrap 64 (m_resident_at m + new)) (old - new) (mg_arena M) of
                                     (Inl e, a) \<Rightarrow> (Inl e, M\<lparr>mg_arena := a\<rparr>)
                                   | (Inr _, a) \<Rightarrow>
                                       (Inr (), M\<lparr>mg_arena := a,
                                          mg_counters := count_held KvBlock (- int (m_size m - sz)) (mg_counters M),
                                          mg_sessions := credit (m_owner m) (m_size m - sz) (mg_sessions M)\<rparr>))
                             else (Inr (), M))
                in case freed of
                     (Inl e, M') \<Rightarrow> (Inl e, M')
                   | (Inr _, M') \<Rightarrow>
                       (case table_get_mut object (\<lambda>m. m\<lparr>m_size := sz, m_precision := p\<rparr>) (mg_table M') of
                          None \<Rightarrow> (Inl BadObject, M')
                        | Some t \<Rightarrow> (Inr (), M'\<lparr>mg_table := t\<rparr>)))))"

text \<open>The loop of \<open>step\<close> over the table's slots still to visit.\<close>

fun step_slots :: "shape \<Rightarrow> session \<Rightarrow> rung \<Rightarrow> nat list \<Rightarrow> precision \<Rightarrow> manager \<Rightarrow> precision \<times> manager" where
  "step_slots sh s to [] coarsest M = (coarsest, M)"
| "step_slots sh s to (slot # slots) coarsest M =
     (case table_at (mg_table M) slot of
        None \<Rightarrow> step_slots sh s to slots coarsest M
      | Some (object, m) \<Rightarrow>
          if m_owner m = s_id s \<and> object_class_of object = Some KvBlock then
            (let f = shape_fate sh to (unat (f_tensor (object_fields object)))
                       (shape_blocks sh (c_context (s_contract s)))
             in case rewrite object f M of
                  (r, M') \<Rightarrow>
                    step_slots sh s to slots
                      (case (r, fate_precision f) of
                         (Inr _, Some p) \<Rightarrow> if precision_u8 coarsest < precision_u8 p then p else coarsest
                       | _ \<Rightarrow> coarsest) M')
          else step_slots sh s to slots coarsest M)"

definition stepped :: "rung \<Rightarrow> precision \<Rightarrow> nat \<Rightarrow> session \<Rightarrow> session" where
  "stepped to coarsest read s =
     s\<lparr>s_rung := to,
       s_delivered := (s_delivered s)
         \<lparr>dl_coarsest := coarsest, dl_deepest := max (dl_deepest (s_delivered s)) to,
          dl_recomputed := sat_add 64 (dl_recomputed (s_delivered s)) read\<rparr>\<rparr>"

definition ladder_step :: "shape \<Rightarrow> session \<Rightarrow> rung \<Rightarrow> manager \<Rightarrow> nat \<times> manager" where
  "ladder_step sh s to M =
     (case step_slots sh s to [0..<length (mg_table M)] (dl_coarsest (s_delivered s)) M of
        (coarsest, M') \<Rightarrow>
          (let read = shape_cost sh (s_rung s) to (c_context (s_contract s)) (cp_kv_per_token (mg_capacity M'))
           in (read, M'\<lparr>mg_sessions := sessions_update (s_id s) (stepped to coarsest read) (mg_sessions M')\<rparr>)))"

fun deepen_slots :: "shape \<Rightarrow> rung \<Rightarrow> nat list \<Rightarrow> nat \<Rightarrow> manager \<Rightarrow> nat \<times> manager" where
  "deepen_slots sh r [] read M = (read, M)"
| "deepen_slots sh r (slot # slots) read M =
     (case sessions_at (mg_sessions M) slot of
        None \<Rightarrow> deepen_slots sh r slots read M
      | Some s \<Rightarrow>
          if movable s r then
            (case ladder_step sh s r M of
               (n, M') \<Rightarrow> deepen_slots sh r slots (wrap 64 (read + n)) M')
          else deepen_slots sh r slots read M)"

definition deepen :: "shape \<Rightarrow> rung \<Rightarrow> manager \<Rightarrow> nat \<times> manager" where
  "deepen sh r M = deepen_slots sh r [0..<MAX_SESSIONS] 0 M"

text \<open>The loop of \<open>squeeze\<close>, which ends when the sessions fit or rung L6 is reached; \<open>None\<close>
  is a loop that never ends.\<close>

partial_function (option) squeeze_loop :: "shape \<Rightarrow> squeezed \<Rightarrow> manager \<Rightarrow> (squeezed \<times> manager) option" where
  "squeeze_loop sh acc M =
     (case next_move (mg_capacity M) sh (mg_sessions M) of
        Fits \<Rightarrow> Some (acc\<lparr>sq_fits := True\<rparr>, M)
      | Exhausted \<Rightarrow> Some (acc\<lparr>sq_reached := max (sq_reached acc) L6\<rparr>, M)
      | Deepen r \<Rightarrow>
          (let nM = deepen sh r M;
               acc' = acc\<lparr>sq_recomputed := wrap 64 (sq_recomputed acc + fst nM),
                          sq_reached := max (sq_reached acc) r\<rparr>
           in if r = L6 then Some (acc', snd nM) else squeeze_loop sh acc' (snd nM))
      | Terminate i \<Rightarrow>
          (let rM = destroy_session i M;
               ended = (case fst rM of Inl _ \<Rightarrow> False | Inr _ \<Rightarrow> True);
               reached = (if ended then L7 else L6);
               acc' = acc\<lparr>sq_terminated := wrap 32 (sq_terminated acc + (if ended then 1 else 0)),
                          sq_reached := max (sq_reached acc) reached\<rparr>
           in if reached = L6 then Some (acc', snd rM) else squeeze_loop sh acc' (snd rM)))"

definition squeeze :: "shape \<Rightarrow> nat \<Rightarrow> manager \<Rightarrow> (squeezed \<times> manager) option" where
  "squeeze sh bytes M =
     squeeze_loop sh squeezed_default (M\<lparr>mg_capacity := (mg_capacity M)\<lparr>cp_bytes := bytes\<rparr>\<rparr>)"

declare squeeze_loop.simps [code]

end
