(* ===== verification/LadderProofs.thy ===== *)
theory LadderProofs
  imports Ladder ObjmanProofs
begin

text \<open>
  The ladder's own laws (what a rung keeps, needs and costs) and the walk over the sessions: a
  session's id and contract never change, its rung only deepens and only as far as its floor
  permits, and the squeeze ends because every turn spends a rung or a session.
\<close>

section \<open>Fates\<close>

abbreviation bits_of :: "fate \<Rightarrow> nat" where
  "bits_of f \<equiv> fate_bits (fate_precision f)"

lemma fate_hot: "n - sh_hot sh \<le> at \<Longrightarrow> shape_fate sh r at n = Keep Fp16"
  by (simp add: shape_fate_def)

text \<open>A fate depends on four comparisons only: hot, first of the span, in the span, cut.\<close>

definition fate_cases :: "bool \<Rightarrow> bool \<Rightarrow> bool \<Rightarrow> bool \<Rightarrow> rung \<Rightarrow> fate" where
  "fate_cases hot first inside chopped r =
     (if hot then Keep Fp16
      else case r of
        L0 \<Rightarrow> Keep Fp16 | L1 \<Rightarrow> Keep Q8 | L2 \<Rightarrow> Keep Q4
      | L3 \<Rightarrow> if first then Summary else if inside then Dropped else Keep Q4
      | L4 \<Rightarrow> if first then Summary else if inside then Dropped else if chopped then Dropped else Keep Q4
      | _ \<Rightarrow> Dropped)"

lemma fate_by_cases: "\<exists>hot first inside chopped. \<forall>r. shape_fate sh r at n = fate_cases hot first inside chopped r"
  unfolding shape_fate_def fate_cases_def Let_def by blast

lemma fate_dropped_deeper:
  assumes "r \<le> r'" "shape_fate sh r at n = Dropped"
  shows "shape_fate sh r' at n = Dropped"
proof -
  obtain hot first inside chopped where "\<And>r. shape_fate sh r at n = fate_cases hot first inside chopped r"
    using fate_by_cases by blast
  then show ?thesis
    using assms by (cases r; cases r') (auto simp: fate_cases_def less_eq_rung_def split: if_splits)
qed

lemma fate_bits_deeper:
  assumes "r \<le> r'"
  shows "bits_of (shape_fate sh r' at n) \<le> bits_of (shape_fate sh r at n)"
proof -
  obtain hot first inside chopped where "\<And>r. shape_fate sh r at n = fate_cases hot first inside chopped r"
    using fate_by_cases by blast
  then show ?thesis
    using assms by (cases r; cases r') (simp_all add: fate_cases_def less_eq_rung_def)
qed

lemma fate_bits_le: "bits_of f \<le> 16"
  by (rule fate_bits.cases [of "fate_precision f"]) simp_all

lemma fate_bytes_exact: "full * 16 < 2 ^ 64 \<Longrightarrow> fate_bytes f full = full * bits_of f div 16"
proof -
  assume f: "full * 16 < 2 ^ 64"
  have "full * bits_of f \<le> full * 16" by (rule mult_le_mono2) (rule fate_bits_le)
  then have "full * bits_of f < 2 ^ 64" using f by linarith
  then show ?thesis unfolding fate_bytes_def by (simp only: wrap_exact)
qed

lemma fate_bytes_mono:
  "full * 16 < 2 ^ 64 \<Longrightarrow> bits_of f \<le> bits_of g \<Longrightarrow> fate_bytes f full \<le> fate_bytes g full"
  by (simp add: fate_bytes_exact div_le_mono)

section \<open>Needs\<close>

lemma shape_per_pos [simp]: "0 < shape_per sh"
  by (simp add: shape_per_def)

lemma div_ceil_ge: "0 < b \<Longrightarrow> a \<le> div_ceil a b * b"
proof -
  assume b: "0 < b"
  have "a = a div b * b + a mod b" by simp
  moreover have "a mod b \<le> b" using b by (simp add: less_imp_le)
  ultimately show ?thesis
  proof (cases "a mod b = 0")
    case False
    then have "div_ceil a b * b = a div b * b + b" by (simp add: div_ceil_def)
    with \<open>a = a div b * b + a mod b\<close> \<open>a mod b \<le> b\<close> show ?thesis by linarith
  qed (simp add: div_ceil_def)
qed

lemma div_ceil_last: "at < div_ceil a b \<Longrightarrow> 0 < b \<Longrightarrow> at * b < a"
proof -
  assume at: "at < div_ceil a b" and b: "0 < b"
  have "a div b * b \<le> a" by simp
  show ?thesis
  proof (cases "a mod b = 0")
    case True
    then have "at < a div b" using at by (simp add: div_ceil_def)
    then have "at * b < a div b * b" using b by simp
    with \<open>a div b * b \<le> a\<close> show ?thesis by linarith
  next
    case False
    then have "at * b \<le> a div b * b" using at by (simp add: div_ceil_def)
    moreover have "a div b * b < a"
      using False div_mult_mod_eq [of a b] by linarith
    ultimately show ?thesis by linarith
  qed
qed

lemma shape_full_eq:
  assumes "at < shape_blocks sh context" "context < 2 ^ 32" "context * kv < 2 ^ 64"
  shows "shape_full sh at context kv = min (shape_per sh) (context - at * shape_per sh) * kv"
    and "shape_full sh at context kv \<le> context * kv"
proof -
  have "at * shape_per sh < context"
    using assms(1) by (simp add: shape_blocks_def div_ceil_last)
  then have s: "sat_mul 32 at (shape_per sh) = at * shape_per sh"
    using assms(2) by (intro sat_mul_exact) simp
  have le: "min (shape_per sh) (context - at * shape_per sh) * kv \<le> context * kv"
    by (rule mult_le_mono1) (rule min.coboundedI2, simp)
  with assms(3) have "wrap 64 (min (shape_per sh) (context - at * shape_per sh) * kv) =
      min (shape_per sh) (context - at * shape_per sh) * kv"
    by (intro wrap_exact) linarith
  then show "shape_full sh at context kv = min (shape_per sh) (context - at * shape_per sh) * kv"
    by (simp add: shape_full_def s Let_def min_def not_less split: if_splits)
  with le show "shape_full sh at context kv \<le> context * kv" by simp
qed

lemma blocks_total: "(\<Sum>at < n. min per (context - at * per)) = min (n * per) (context :: nat)"
  by (induction n) (auto simp: min_def)

lemma shape_need_sum:
  "shape_need sh r context kv =
     min (\<Sum>at < shape_blocks sh context.
       fate_bytes (shape_fate sh r at (shape_blocks sh context)) (shape_full sh at context kv)) (umax 64)"
  by (simp add: shape_need_def Let_def foldl_sat_add interv_sum_list_conv_sum_set_nat atLeast0LessThan)

lemma need_L0:
  assumes "context < 2 ^ 32" "context * kv * 16 < 2 ^ 64"
  shows "shape_need sh L0 context kv = context * kv"
proof -
  let ?n = "shape_blocks sh context" and ?p = "shape_per sh"
  have c: "context * kv < 2 ^ 64" using assms(2) by simp
  have "fate_bytes (shape_fate sh L0 at ?n) (shape_full sh at context kv) = min ?p (context - at * ?p) * kv"
    if "at < ?n" for at
  proof -
    note f = shape_full_eq [OF that assms(1) c]
    have "shape_fate sh L0 at ?n = Keep Fp16" by (simp add: shape_fate_def Let_def)
    moreover have "shape_full sh at context kv * 16 < 2 ^ 64" using f(2) assms(2) by simp
    ultimately show ?thesis using f(1) by (simp add: fate_bytes_exact)
  qed
  then have "(\<Sum>at < ?n. fate_bytes (shape_fate sh L0 at ?n) (shape_full sh at context kv)) =
      (\<Sum>at < ?n. min ?p (context - at * ?p)) * kv"
    by (simp add: sum_distrib_right)
  also have "\<dots> = context * kv"
    using div_ceil_ge [of ?p "context"] by (simp add: blocks_total shape_blocks_def min_absorb2)
  finally show ?thesis using c by (simp add: shape_need_sum)
qed

lemma need_deeper:
  assumes "context < 2 ^ 32" "context * kv * 16 < 2 ^ 64" "r \<le> r'"
  shows "shape_need sh r' context kv \<le> shape_need sh r context kv"
  unfolding shape_need_sum
proof (intro min.mono order_refl sum_mono)
  fix at assume "at \<in> {..<shape_blocks sh context}"
  then have "shape_full sh at context kv * 16 < 2 ^ 64"
    using shape_full_eq(2) [of at sh "context" kv] assms by fastforce
  then show "fate_bytes (shape_fate sh r' at (shape_blocks sh context)) (shape_full sh at context kv)
      \<le> fate_bytes (shape_fate sh r at (shape_blocks sh context)) (shape_full sh at context kv)"
    by (rule fate_bytes_mono) (rule fate_bits_deeper [OF assms(3)])
qed

lemma cost_le_need: "shape_cost sh source to context kv \<le> shape_need sh source context kv"
proof -
  have sub: "sum_list (map f (filter P xs)) \<le> sum_list (map f xs)" for f :: "nat \<Rightarrow> nat" and P xs
    by (induction xs) auto
  have total: "foldl (sat_add 64) 0 xs = min (sum_list xs) (umax 64)" for xs
    by (simp add: foldl_sat_add)
  show ?thesis
    unfolding shape_cost_def shape_need_def Let_def total by (intro min.mono sub order_refl)
qed

section \<open>What the walk sees of a session\<close>

text \<open>The walk reads each session's id, contract and rung; nothing else of a session decides a
  move, and only \<open>ladder_step\<close> and \<open>destroy\<close> change these three.\<close>

lemma update_nth: "j < length v \<Longrightarrow> v[k := x] ! j = (if k = j then x else v ! j)"
  by (cases "k = j") auto

type_synonym seen_session = "(session_id \<times> contract \<times> rung) option"

definition view :: "sessions \<Rightarrow> seen_session list" where
  "view ss = map (map_option (\<lambda>s. (s_id s, s_contract s, s_rung s))) ss"

lemma view_length [simp]: "length (view ss) = length ss"
  by (simp add: view_def)

lemma view_nth: "k < length ss \<Longrightarrow> view ss ! k = map_option (\<lambda>s. (s_id s, s_contract s, s_rung s)) (ss ! k)"
  by (simp add: view_def)

lemma view_Nil_Cons [simp]:
  "view [] = []" "view (x # ss) = map_option (\<lambda>s. (s_id s, s_contract s, s_rung s)) x # view ss"
  by (simp_all add: view_def)

lemma view_update: "view (ss[k := x]) = (view ss)[k := map_option (\<lambda>s. (s_id s, s_contract s, s_rung s)) x]"
  by (simp add: view_def map_update)

definition view_find :: "session_id \<Rightarrow> seen_session list \<Rightarrow> nat option" where
  "view_find i v = position (\<lambda>x. case x of None \<Rightarrow> False | Some t \<Rightarrow> fst t = i) v"

lemma sessions_find_view: "sessions_find ss i = view_find i (view ss)"
  unfolding sessions_find_def view_find_def
  by (induction ss) (auto split: option.splits)

definition view_inv :: "seen_session list \<Rightarrow> bool" where
  "view_inv v \<longleftrightarrow>
     (\<forall>p < length v. \<forall>q < length v. \<forall>s t. v ! p = Some s \<longrightarrow> v ! q = Some t \<longrightarrow> fst s = fst t \<longrightarrow> p = q) \<and>
     (\<forall>s. Some s \<in> set v \<longrightarrow> fst s \<noteq> 0)"

lemma view_set: "Some t \<in> set (view ss) \<longleftrightarrow> (\<exists>s. Some s \<in> set ss \<and> t = (s_id s, s_contract s, s_rung s))"
proof (induction ss)
  case (Cons x ss)
  then show ?case by (cases x) auto
qed simp

lemma sessions_inv_view: "sessions_inv ss \<longleftrightarrow> view_inv (view ss)"
  unfolding sessions_inv_def view_inv_def
  by (intro arg_cong2 [of _ _ _ _ "(\<and>)"] iffI allI impI; fastforce simp: view_set view_nth)

lemma view_find_nth:
  assumes "view_inv v" "k < length v" "v ! k = Some t"
  shows "view_find (fst t) v = Some k"
proof -
  have "view_find (fst t) v \<noteq> None"
    using assms(2,3) unfolding view_find_def position_None by (force simp: in_set_conv_nth)
  then obtain j where j: "view_find (fst t) v = Some j" by blast
  from position_Some [OF this [unfolded view_find_def]]
  have "j < length v" "\<exists>u. v ! j = Some u \<and> fst u = fst t" by (auto split: option.splits)
  with assms have "j = k" unfolding view_inv_def by metis
  with j show ?thesis by simp
qed

text \<open>Two managers the walk cannot tell apart.\<close>

definition same_view :: "manager \<Rightarrow> manager \<Rightarrow> bool" where
  "same_view M M' \<longleftrightarrow> view (mg_sessions M') = view (mg_sessions M) \<and> mg_capacity M' = mg_capacity M"

lemma same_view_refl [simp]: "same_view M M"
  by (simp add: same_view_def)

lemma same_view_trans: "same_view M M1 \<Longrightarrow> same_view M1 M2 \<Longrightarrow> same_view M M2"
  by (simp add: same_view_def)

lemma view_credit [simp]: "view (credit i n ss) = view ss"
  using sessions_find_Some [of ss i]
  by (auto simp: credit_def sessions_update_def view_update list_update_id split: option.splits
      intro!: nth_equalityI) (auto simp: update_nth view_nth)

lemma evict_same_view: "same_view M (snd (evict i M))"
  by (auto simp: same_view_def evict_def Let_def split: option.splits sum.splits prod.splits)

lemma rewrite_same_view: "same_view M (snd (rewrite i f M))"
  using evict_same_view [of M i]
  by (auto simp: same_view_def rewrite_def Let_def split: option.splits sum.splits prod.splits if_splits)

lemma step_slots_same_view: "same_view M (snd (step_slots sh s to slots c M))"
proof (induction slots arbitrary: c M)
  case (Cons slot slots)
  have "same_view M (snd (step_slots sh s to slots c' (snd (rewrite i f M))))" for i f c'
    using same_view_trans [OF rewrite_same_view Cons.IH] .
  then show ?case
    using Cons.IH by (auto simp: Let_def split: option.splits prod.splits) (metis snd_conv)+
qed simp

lemma destroy_slots_same_view: "same_view M (snd (destroy_slots i slots n M))"
proof (induction slots arbitrary: n M)
  case (Cons slot slots)
  have drop: "same_view M (snd (destroy_slots i slots n' (M1\<lparr>mg_table := t\<rparr>)))" if "same_view M M1" for n' M1 t
    using same_view_trans [OF _ Cons.IH [of "M1\<lparr>mg_table := t\<rparr>"]] that by (simp add: same_view_def)
  show ?case
    using Cons.IH drop [OF same_view_refl] drop [OF evict_same_view] evict_same_view [of M]
    by (auto split: option.splits prod.splits sum.splits) (metis snd_conv)+
qed simp

section \<open>One step, one rung\<close>

definition moves :: "contract \<Rightarrow> rung \<Rightarrow> rung \<Rightarrow> bool" where
  "moves c g r \<longleftrightarrow> c_context c \<noteq> 0 \<and> g < r \<and> r \<le> L5 \<and> permits c (quality r)"

lemma movable_moves: "movable s r = moves (s_contract s) (s_rung s) r"
  by (simp add: movable_def moves_def)

definition lowered :: "rung \<Rightarrow> seen_session \<Rightarrow> seen_session" where
  "lowered r = map_option (\<lambda>(i, c, g). (i, c, if moves c g r then r else g))"

lemma lowered_simps [simp]:
  "lowered r None = None"
  "lowered r (Some (i, c, g)) = Some (i, c, if moves c g r then r else g)"
  by (simp_all add: lowered_def)

lemma lowered_lowered [simp]: "lowered r (lowered r x) = lowered r x"
  by (cases x) (auto simp: lowered_def moves_def)

lemma sessions_at_Some: "sessions_at ss k = Some s \<longleftrightarrow> k < length ss \<and> ss ! k = Some s"
  by (auto simp: sessions_at_def nth_opt_def)

lemma sessions_at_None: "sessions_at ss k = None \<longleftrightarrow> (k < length ss \<longrightarrow> ss ! k = None)"
  by (auto simp: sessions_at_def nth_opt_def split: option.splits)

lemma ladder_step_view:
  assumes inv: "sessions_inv (mg_sessions M)" and at: "sessions_at (mg_sessions M) k = Some s"
  shows "view (mg_sessions (snd (ladder_step sh s r M))) =
      (view (mg_sessions M))[k := Some (s_id s, s_contract s, r)]"
    and "mg_capacity (snd (ladder_step sh s r M)) = mg_capacity M"
proof -
  obtain c M' where run: "step_slots sh s r [0..<length (mg_table M)] (dl_coarsest (s_delivered s)) M = (c, M')"
    by fastforce
  have same: "same_view M M'" using step_slots_same_view run by (metis snd_conv)
  have k: "k < length (mg_sessions M)" "mg_sessions M ! k = Some s"
    using at by (simp_all add: sessions_at_Some)
  have len: "length (mg_sessions M') = length (mg_sessions M)"
    using same unfolding same_view_def by (metis view_length)
  have v: "view (mg_sessions M') ! k = Some (s_id s, s_contract s, s_rung s)"
    using same k by (simp add: same_view_def view_nth)
  have "view_find (s_id s) (view (mg_sessions M')) = Some k"
    using view_find_nth [of "view (mg_sessions M')" k] v k inv same len
    by (simp add: sessions_inv_view same_view_def)
  then have f: "sessions_find (mg_sessions M') (s_id s) = Some k" by (simp add: sessions_find_view)
  obtain s' where s': "mg_sessions M' ! k = Some s'" "s_id s' = s_id s" "s_contract s' = s_contract s"
    using v k len by (auto simp: view_nth map_option_case split: option.splits)
  show "view (mg_sessions (snd (ladder_step sh s r M))) =
      (view (mg_sessions M))[k := Some (s_id s, s_contract s, r)]"
    using same s' by (simp add: ladder_step_def run Let_def sessions_update_def f view_update same_view_def stepped_def)
  show "mg_capacity (snd (ladder_step sh s r M)) = mg_capacity M"
    using same by (simp add: ladder_step_def run Let_def same_view_def)
qed

lemma view_inv_ids:
  assumes "view_inv v" "length v' = length v" "\<And>k. k < length v \<Longrightarrow> map_option fst (v' ! k) = map_option fst (v ! k)"
  shows "view_inv v'"
proof -
  have id: "\<exists>t. v ! k = Some t \<and> fst t = fst s" if "k < length v" "v' ! k = Some s" for k s
    using assms(3) [OF that(1)] that(2) by (cases "v ! k") auto
  show ?thesis
    unfolding view_inv_def
  proof (intro conjI allI impI)
    fix p q s t
    assume "p < length v'" "q < length v'" "v' ! p = Some s" "v' ! q = Some t" "fst s = fst t"
    then show "p = q" using id [of p s] id [of q t] assms(1,2) unfolding view_inv_def by auto
  next
    fix s assume "Some s \<in> set v'"
    then obtain k where "k < length v" "v' ! k = Some s" using assms(2) by (auto simp: in_set_conv_nth)
    then show "fst s \<noteq> 0" using id assms(1) unfolding view_inv_def by (metis nth_mem)
  qed
qed

lemma lowered_id [simp]: "map_option fst (lowered r x) = map_option fst x"
  by (cases x) (auto simp: lowered_def)

lemma view_inv_lowered: "view_inv v \<Longrightarrow> view_inv (v[k := lowered r (v ! k)])"
  by (rule view_inv_ids [of v]) (simp_all add: update_nth)

lemma deepen_slots_view:
  assumes "sessions_inv (mg_sessions M)"
  shows "length (mg_sessions (snd (deepen_slots sh r slots n M))) = length (mg_sessions M)"
    and "k < length (mg_sessions M) \<Longrightarrow> view (mg_sessions (snd (deepen_slots sh r slots n M))) ! k =
      (if k \<in> set slots then lowered r (view (mg_sessions M) ! k) else view (mg_sessions M) ! k)"
    and "mg_capacity (snd (deepen_slots sh r slots n M)) = mg_capacity M"
proof -
  have "length (mg_sessions (snd (deepen_slots sh r slots n M))) = length (mg_sessions M) \<and>
    (\<forall>k < length (mg_sessions M). view (mg_sessions (snd (deepen_slots sh r slots n M))) ! k =
      (if k \<in> set slots then lowered r (view (mg_sessions M) ! k) else view (mg_sessions M) ! k)) \<and>
    mg_capacity (snd (deepen_slots sh r slots n M)) = mg_capacity M"
    using assms
  proof (induction slots arbitrary: n M)
    case (Cons slot slots)
    let ?v = "view (mg_sessions M)"
    show ?case
    proof (cases "\<exists>s. sessions_at (mg_sessions M) slot = Some s \<and> movable s r")
      case True
      then obtain s where s: "sessions_at (mg_sessions M) slot = Some s" "movable s r" by blast
      define M1 where "M1 = snd (ladder_step sh s r M)"
      note V = ladder_step_view [OF Cons.prems s(1), of sh r, folded M1_def]
      have k: "slot < length (mg_sessions M)" "mg_sessions M ! slot = Some s"
        using s by (simp_all add: sessions_at_Some)
      have v1: "view (mg_sessions M1) = ?v[slot := lowered r (?v ! slot)]"
        using V(1) k s(2) by (simp add: movable_moves view_nth)
      then have len: "length (mg_sessions M1) = length (mg_sessions M)" by (metis view_length length_list_update)
      have "sessions_inv (mg_sessions M1)"
        unfolding sessions_inv_view v1
        by (rule view_inv_lowered [OF Cons.prems [unfolded sessions_inv_view]])
      note IH = Cons.IH [OF this, of "wrap 64 (n + fst (ladder_step sh s r M))"]
      have "deepen_slots sh r (slot # slots) n M =
          deepen_slots sh r slots (wrap 64 (n + fst (ladder_step sh s r M))) M1"
        using s by (simp add: M1_def split: prod.splits)
      then show ?thesis using IH v1 len V(2) by (auto simp: update_nth)
    next
      case False
      then have go: "deepen_slots sh r (slot # slots) n M = deepen_slots sh r slots n M"
        by (auto split: option.splits)
      have "lowered r (?v ! slot) = ?v ! slot" if "slot < length (mg_sessions M)"
      proof (cases "mg_sessions M ! slot")
        case (Some s)
        then have "\<not> movable s r" using False that by (auto simp: sessions_at_Some)
        then show ?thesis using Some that by (simp add: movable_moves view_nth)
      qed (use that in \<open>simp add: view_nth\<close>)
      then show ?thesis using Cons.IH [OF Cons.prems, of n] go by auto
    qed
  qed simp
  then show "length (mg_sessions (snd (deepen_slots sh r slots n M))) = length (mg_sessions M)"
    "k < length (mg_sessions M) \<Longrightarrow> view (mg_sessions (snd (deepen_slots sh r slots n M))) ! k =
      (if k \<in> set slots then lowered r (view (mg_sessions M) ! k) else view (mg_sessions M) ! k)"
    "mg_capacity (snd (deepen_slots sh r slots n M)) = mg_capacity M"
    by blast+
qed

lemma deepen_view:
  assumes "sessions_inv (mg_sessions M)" "length (mg_sessions M) \<le> MAX_SESSIONS"
  shows "view (mg_sessions (snd (deepen sh r M))) = map (lowered r) (view (mg_sessions M))"
    and "mg_capacity (snd (deepen sh r M)) = mg_capacity M"
proof -
  note V = deepen_slots_view [OF assms(1), where sh = sh and r = r and slots = "[0..<MAX_SESSIONS]" and n = 0,
      folded deepen_def]
  show "view (mg_sessions (snd (deepen sh r M))) = map (lowered r) (view (mg_sessions M))"
    by (rule nth_equalityI) (use V(1,2) assms(2) in auto)
  show "mg_capacity (snd (deepen sh r M)) = mg_capacity M" by (rule V(3))
qed

lemma destroy_session_view:
  assumes inv: "sessions_inv (mg_sessions M)"
  shows "case fst (destroy_session i M) of
      Inl _ \<Rightarrow> same_view M (snd (destroy_session i M))
    | Inr _ \<Rightarrow> \<exists>k c g. k < length (mg_sessions M) \<and> view (mg_sessions M) ! k = Some (i, c, g) \<and>
        view (mg_sessions (snd (destroy_session i M))) = (view (mg_sessions M))[k := None] \<and>
        mg_capacity (snd (destroy_session i M)) = mg_capacity M"
proof -
  obtain r M1 where run: "destroy_slots i [0..<length (mg_table M)] 0 M = (r, M1)" by fastforce
  have same: "same_view M M1" using destroy_slots_same_view run by (metis snd_conv)
  show ?thesis
  proof (cases r)
    case (Inl e)
    then show ?thesis using run same by (simp add: destroy_session_def)
  next
    case (Inr n)
    show ?thesis
    proof (cases "sessions_find (mg_sessions M1) i")
      case None
      then show ?thesis using run same Inr by (simp add: destroy_session_def destroy_def same_view_def)
    next
      case (Some k)
      from sessions_find_Some [OF this] obtain s
        where k: "k < length (mg_sessions M1)" "mg_sessions M1 ! k = Some s" "s_id s = i" by blast
      have len: "length (mg_sessions M1) = length (mg_sessions M)"
        using same unfolding same_view_def by (metis view_length)
      have v: "view (mg_sessions M) ! k = Some (i, s_contract s, s_rung s)"
        using same k view_nth [OF k(1)] by (simp add: same_view_def)
      show ?thesis
        using run same Inr Some k v len
        by (auto simp: destroy_session_def destroy_def same_view_def view_update)
    qed
  qed
qed

section \<open>The whole walk\<close>

lemma opt_min_Some: "opt_min xs = Some m \<Longrightarrow> m \<in> set xs \<and> (\<forall>x \<in> set xs. m \<le> x)"
proof -
  have "foldl min a ys \<in> set (a # ys) \<and> (\<forall>x \<in> set (a # ys). foldl min a ys \<le> x)" for a and ys :: "'a list"
    by (induction ys arbitrary: a) (auto simp: min_def, (metis order_trans linear)+)
  then show "opt_min xs = Some m \<Longrightarrow> ?thesis" by (cases xs) auto
qed

lemma opt_max_Some: "opt_max xs = Some m \<Longrightarrow> m \<in> set xs \<and> (\<forall>x \<in> set xs. x \<le> m)"
proof -
  have "foldl max a ys \<in> set (a # ys) \<and> (\<forall>x \<in> set (a # ys). x \<le> foldl max a ys)" for a and ys :: "'a list"
    by (induction ys arbitrary: a) (auto simp: max_def, (metis order_trans linear)+)
  then show "opt_max xs = Some m \<Longrightarrow> ?thesis" by (cases xs) auto
qed

lemma opt_min_None [simp]: "opt_min xs = None \<longleftrightarrow> xs = []"
  by (cases xs) simp_all

lemma opt_max_None [simp]: "opt_max xs = None \<longleftrightarrow> xs = []"
  by (cases xs) simp_all

lemma each_view: "map (\<lambda>s. (s_id s, s_contract s, s_rung s)) (each ss) = List.map_filter (\<lambda>x. x) (view ss)"
proof (induction ss)
  case (Cons x ss)
  then show ?case by (cases x) (simp_all add: List.map_filter_def)
qed (simp add: List.map_filter_def)

lemma same_view_fits:
  assumes "same_view M M'"
  shows "ladder_fits (mg_capacity M') sh (mg_sessions M') = ladder_fits (mg_capacity M) sh (mg_sessions M)"
proof -
  have "ladder_demand cap sh ss = foldl (sat_add 64) 0
      (map (\<lambda>(i, c, g). shape_need sh g (c_context c) (cp_kv_per_token cap)) (List.map_filter (\<lambda>x. x) (view ss)))" for cap ss
    by (simp add: ladder_demand_def comp_def flip: each_view)
  with assms show ?thesis by (simp add: ladder_fits_def same_view_def)
qed

definition no_deeper :: "seen_session list \<Rightarrow> bool" where
  "no_deeper v \<longleftrightarrow> (\<forall>i c g r. Some (i, c, g) \<in> set v \<longrightarrow> deeper g = Some r \<longrightarrow> \<not> moves c g r)"

lemma deeper_of_moves: "deeper_of s = Some r \<longleftrightarrow> deeper (s_rung s) = Some r \<and> moves (s_contract s) (s_rung s) r"
  by (auto simp: deeper_of_def movable_moves split: option.splits if_splits)

lemma no_deeper_iff: "no_deeper (view ss) \<longleftrightarrow> List.map_filter deeper_of (each ss) = []"
proof -
  have "List.map_filter deeper_of (each ss) = [] \<longleftrightarrow> (\<forall>s \<in> set (each ss). deeper_of s = None)"
    by (auto simp: List.map_filter_def filter_empty_conv)
  also have "\<dots> \<longleftrightarrow> (\<forall>s. Some s \<in> set ss \<longrightarrow> (\<forall>r. deeper_of s \<noteq> Some r))"
    by (auto simp: each_set)
  also have "\<dots> \<longleftrightarrow> no_deeper (view ss)"
    unfolding no_deeper_def deeper_of_moves by (auto simp: view_set)
  finally show ?thesis by simp
qed

definition effort :: "seen_session \<Rightarrow> nat" where
  "effort x = (case x of None \<Rightarrow> 0 | Some (i, c, g) \<Rightarrow> 8 - rung_u8 g)"

definition spare :: "seen_session list \<Rightarrow> nat" where
  "spare v = sum_list (map effort v)"

lemma rung_u8_lt [simp]: "rung_u8 g < 8"
  by (cases g) simp_all

lemma effort_lowered: "effort (lowered r x) \<le> effort x"
  by (cases x) (auto simp: effort_def lowered_def moves_def less_rung_def)

lemma spare_lowered:
  assumes "Some (i, c, g) \<in> set v" "moves c g r"
  shows "spare (map (lowered r) v) < spare v"
proof -
  have less: "effort (lowered r (Some (i, c, g))) < effort (Some (i, c, g))"
    using assms(2) rung_u8_lt [of r]
    by (auto simp: effort_def moves_def less_rung_def intro: diff_less_mono2)
  have le: "spare (map (lowered r) us) \<le> spare us" for us
    by (induction us) (auto simp: spare_def intro: add_mono effort_lowered)
  obtain us ys where "v = us @ Some (i, c, g) # ys" using assms(1) by (meson split_list)
  then show ?thesis
    using less le [of us] le [of ys] by (simp add: spare_def)
qed

lemma spare_none: "k < length v \<Longrightarrow> v ! k = Some t \<Longrightarrow> spare (v[k := None]) < spare v"
proof (induction v arbitrary: k)
  case (Cons x v)
  then show ?case
    by (cases k) (auto simp: spare_def effort_def rung_u8_lt split: prod.splits intro: add_mono)
qed simp

text \<open>What the walk may have done to the sessions between two states.\<close>

definition kept :: "seen_session \<Rightarrow> seen_session \<Rightarrow> bool" where
  "kept x x' \<longleftrightarrow>
     (case x' of
        None \<Rightarrow> (case x of None \<Rightarrow> True | Some (i, c, g) \<Rightarrow> c_context c \<noteq> 0)
      | Some (i, c, g') \<Rightarrow>
          \<exists>g. x = Some (i, c, g) \<and> g \<le> g' \<and> (g' = g \<or> g' \<le> L5 \<and> permits c (quality g')))"

definition walked :: "seen_session list \<Rightarrow> seen_session list \<Rightarrow> bool" where
  "walked v v' \<longleftrightarrow> length v' = length v \<and> (\<forall>k < length v. kept (v ! k) (v' ! k)) \<and>
     (\<forall>p < length v. \<forall>q < length v. \<forall>i c g j d h. v ! p = Some (i, c, g) \<longrightarrow> v' ! p = None \<longrightarrow>
        v' ! q = Some (j, d, h) \<longrightarrow> c_context d \<noteq> 0 \<longrightarrow> j < i)"

lemma kept_refl [simp]: "kept x x"
  by (auto simp: kept_def split: option.splits)

lemma kept_to: "kept x (Some (i, c, g')) \<Longrightarrow> \<exists>g. x = Some (i, c, g) \<and> g \<le> g' \<and> (g' = g \<or> g' \<le> L5 \<and> permits c (quality g'))"
  by (simp add: kept_def)

lemma kept_source: "kept (Some (i, c, g)) y \<Longrightarrow> y \<noteq> None \<Longrightarrow> \<exists>g'. y = Some (i, c, g')"
  by (auto simp: kept_def split: option.splits)

lemma kept_trans:
  assumes xy: "kept x y" and yz: "kept y z"
  shows "kept x z"
proof (cases z)
  case None
  show ?thesis
  proof (cases x)
    case (Some t)
    obtain i c g where x: "x = Some (i, c, g)" using Some by (cases t) auto
    have "c_context c \<noteq> 0"
    proof (cases y)
      case None
      with xy x show ?thesis by (simp add: kept_def)
    next
      case (Some u)
      then obtain g' where "y = Some (i, c, g')" using xy x kept_source by blast
      with yz \<open>z = None\<close> show ?thesis by (simp add: kept_def)
    qed
    with x \<open>z = None\<close> show ?thesis by (simp add: kept_def)
  qed (simp add: kept_def \<open>z = None\<close>)
next
  case (Some t)
  obtain i c h where z: "z = Some (i, c, h)" using Some by (cases t) auto
  from kept_to [OF yz [unfolded z]] obtain g' where y: "y = Some (i, c, g')" "g' \<le> h"
    "h = g' \<or> h \<le> L5 \<and> permits c (quality h)" by blast
  from kept_to [OF xy [unfolded y(1)]] obtain g where x: "x = Some (i, c, g)" "g \<le> g'"
    "g' = g \<or> g' \<le> L5 \<and> permits c (quality g')" by blast
  have "g \<le> h" using x(2) y(2) by (rule order_trans)
  moreover have "h = g \<or> h \<le> L5 \<and> permits c (quality h)" using x(3) y(3) by metis
  ultimately show ?thesis by (simp add: kept_def x(1) z)
qed

lemma walkedD:
  assumes "walked v v'"
  shows "length v' = length v"
    and "k < length v \<Longrightarrow> kept (v ! k) (v' ! k)"
    and "p < length v \<Longrightarrow> q < length v \<Longrightarrow> v ! p = Some (i, c, g) \<Longrightarrow> v' ! p = None \<Longrightarrow>
      v' ! q = Some (j, d, h) \<Longrightarrow> c_context d \<noteq> 0 \<Longrightarrow> j < i"
  using assms unfolding walked_def by blast+

lemma walked_refl [simp]: "walked v v"
  by (auto simp: walked_def)

lemma walked_trans:
  assumes "walked v v1" "walked v1 v2"
  shows "walked v v2"
  unfolding walked_def
proof (intro conjI allI impI)
  have len: "length v1 = length v" by (rule walkedD(1) [OF assms(1)])
  show "length v2 = length v" using walkedD(1) [OF assms(2)] len by (rule trans)
  have k1: "kept (v ! k) (v1 ! k)" "kept (v1 ! k) (v2 ! k)" if "k < length v" for k
    using walkedD(2) [OF assms(1) that] walkedD(2) [OF assms(2)] that len by simp_all
  show "kept (v ! k) (v2 ! k)" if "k < length v" for k
    using k1 [OF that] by (rule kept_trans)
  fix p q i c g j d h
  assume pq: "p < length v" "q < length v"
    and e: "v ! p = Some (i, c, g)" "v2 ! p = None" "v2 ! q = Some (j, d, h)" "c_context d \<noteq> 0"
  have q1: "\<exists>h. v1 ! q = Some (j, d, h)"
    using k1(2) [OF pq(2)] e(3) kept_to by metis
  show "j < i"
  proof (cases "v1 ! p")
    case None
    with pq e(1,4) q1 show ?thesis using walkedD(3) [OF assms(1)] by blast
  next
    case (Some t)
    obtain g' where p1: "v1 ! p = Some (i, c, g')"
      using k1(1) [OF pq(1)] e(1) Some kept_source [of i c g "v1 ! p"] by auto
    show ?thesis
      by (rule walkedD(3) [OF assms(2), of p q i c g' j d h]) (use pq len p1 e in simp_all)
  qed
qed

lemma walked_lowered: "walked v (map (lowered r) v)"
proof -
  have "kept x (lowered r x)" for x
  proof (cases x)
    case (Some t)
    then show ?thesis by (cases t) (auto simp: kept_def moves_def)
  qed simp
  moreover have "lowered r x = None \<longleftrightarrow> x = None" for x by (simp add: lowered_def)
  ultimately show ?thesis by (auto simp: walked_def)
qed

lemma walked_terminate:
  assumes "view_inv v" "k < length v" "v ! k = Some (i, c, g)" "c_context c \<noteq> 0"
    and top: "\<And>j d h. Some (j, d, h) \<in> set v \<Longrightarrow> c_context d \<noteq> 0 \<Longrightarrow> j \<le> i"
  shows "walked v (v[k := None])"
  unfolding walked_def
proof (intro conjI allI impI)
  show "kept (v ! j) (v[k := None] ! j)" if "j < length v" for j
  proof (cases "j = k")
    case True
    then show ?thesis using that assms(3,4) by (simp add: kept_def)
  qed (use that in \<open>simp add: update_nth\<close>)
  fix p q i' c' g' j d h
  assume e: "p < length v" "q < length v" "v ! p = Some (i', c', g')" "v[k := None] ! p = None"
    "v[k := None] ! q = Some (j, d, h)" "c_context d \<noteq> 0"
  have p: "p = k" "i' = i" using e assms(3) by (auto simp: update_nth split: if_splits)
  have q: "q \<noteq> k" "v ! q = Some (j, d, h)" using e by (auto simp: update_nth split: if_splits)
  have "j \<le> i" using q(2) e(2,6) top by (metis nth_mem)
  moreover have "j \<noteq> i" using q e(2) assms(1-3) unfolding view_inv_def by (metis fst_conv)
  ultimately show "j < i'" using p by simp
qed simp

lemma view_inv_none:
  assumes "view_inv v"
  shows "view_inv (v[k := None])"
proof -
  have old: "v ! p = Some t \<and> p < length v" if "v[k := None] ! p = Some t" "p < length v" for p t
    using that by (auto simp: update_nth split: if_splits)
  show ?thesis
    unfolding view_inv_def
  proof (intro conjI allI impI)
    fix p q s t
    assume "p < length (v[k := None])" "q < length (v[k := None])"
      "v[k := None] ! p = Some s" "v[k := None] ! q = Some t" "fst s = fst t"
    then have "p < length v" "q < length v" "v ! p = Some s" "v ! q = Some t" "fst s = fst t"
      using old [of p s] old [of q t] by simp_all
    then show "p = q" using assms unfolding view_inv_def by blast
  next
    fix s assume "Some s \<in> set (v[k := None])"
    then obtain p where "p < length v" "v[k := None] ! p = Some s" by (auto simp: in_set_conv_nth)
    then show "fst s \<noteq> 0" using old assms unfolding view_inv_def by (metis nth_mem)
  qed
qed

lemma next_move_cases:
  "(next_move cap sh ss = Fits \<and> ladder_fits cap sh ss) \<or>
   (\<exists>r i c g. next_move cap sh ss = Deepen r \<and> Some (i, c, g) \<in> set (view ss) \<and> moves c g r \<and> r \<le> L5) \<or>
   (\<not> ladder_fits cap sh ss \<and> no_deeper (view ss) \<and>
      (next_move cap sh ss = Exhausted \<or>
       (\<exists>i c g. next_move cap sh ss = Terminate i \<and> Some (i, c, g) \<in> set (view ss) \<and> c_context c \<noteq> 0 \<and>
          (\<forall>j d h. Some (j, d, h) \<in> set (view ss) \<longrightarrow> c_context d \<noteq> 0 \<longrightarrow> j \<le> i))))"
proof (cases "ladder_fits cap sh ss")
  case True
  then show ?thesis by (simp add: next_move_def)
next
  case nofit: False
  show ?thesis
  proof (cases "opt_min (List.map_filter deeper_of (each ss))")
    case (Some r)
    have "r \<in> set (List.map_filter deeper_of (each ss))" using opt_min_Some [OF Some] by blast
    then obtain s where s: "Some s \<in> set ss" "deeper_of s = Some r"
      by (auto simp: List.map_filter_def each_set)
    then have "Some (s_id s, s_contract s, s_rung s) \<in> set (view ss)" "moves (s_contract s) (s_rung s) r"
      by (auto simp: view_set deeper_of_moves)
    moreover have "next_move cap sh ss = Deepen r" using nofit Some by (simp add: next_move_def)
    ultimately show ?thesis unfolding moves_def by blast
  next
    case None
    then have nd: "no_deeper (view ss)" by (simp add: no_deeper_iff)
    let ?ids = "map s_id (filter (\<lambda>s. c_context (s_contract s) \<noteq> 0) (each ss))"
    show ?thesis
    proof (cases "opt_max ?ids")
      case N: None
      then show ?thesis using nofit None nd by (simp add: next_move_def)
    next
      case (Some i)
      from opt_max_Some [OF this] have i: "i \<in> set ?ids" "\<forall>x \<in> set ?ids. x \<le> i" by blast+
      from i(1) obtain s where s: "Some s \<in> set ss" "s_id s = i" "c_context (s_contract s) \<noteq> 0"
        by (auto simp: each_set)
      have "j \<le> i" if "Some (j, d, h) \<in> set (view ss)" "c_context d \<noteq> 0" for j d h
      proof -
        from that obtain t where "Some t \<in> set ss" "j = s_id t" "d = s_contract t" by (auto simp: view_set)
        with that(2) have "j \<in> set ?ids" by (auto simp: each_set)
        with i(2) show ?thesis by blast
      qed
      moreover have "next_move cap sh ss = Terminate i" using nofit None Some by (simp add: next_move_def)
      moreover have "Some (i, s_contract s, s_rung s) \<in> set (view ss)" using s by (auto simp: view_set)
      ultimately show ?thesis using nofit nd s(3) by blast
    qed
  qed
qed

text \<open>One turn of the loop that goes round again: what it hands to the next.\<close>

definition onward :: "shape \<Rightarrow> squeezed \<Rightarrow> manager \<Rightarrow> squeezed \<Rightarrow> manager \<Rightarrow> bool" where
  "onward sh acc M acc' M' \<longleftrightarrow>
     squeeze_loop sh acc M = squeeze_loop sh acc' M' \<and> \<not> sq_fits acc' \<and>
     mg_capacity M' = mg_capacity M \<and> walked (view (mg_sessions M)) (view (mg_sessions M')) \<and>
     sessions_inv (mg_sessions M') \<and> spare (view (mg_sessions M')) < spare (view (mg_sessions M))"

lemma deepen_onward:
  assumes inv: "sessions_inv (mg_sessions M)" and len: "length (mg_sessions M) \<le> MAX_SESSIONS"
    and acc: "\<not> sq_fits acc" and move: "next_move (mg_capacity M) sh (mg_sessions M) = Deepen r"
    and s: "Some (i, c, g) \<in> set (view (mg_sessions M))" "moves c g r" "r \<le> L5"
  shows "onward sh acc M (acc\<lparr>sq_recomputed := wrap 64 (sq_recomputed acc + fst (deepen sh r M)),
      sq_reached := max (sq_reached acc) r\<rparr>) (snd (deepen sh r M))"
proof -
  have r: "r \<noteq> L6" using s(3) by (auto simp: less_eq_rung_def)
  note V = deepen_view [OF inv len, of sh r]
  have "view_inv (map (lowered r) (view (mg_sessions M)))"
    by (rule view_inv_ids [OF inv [unfolded sessions_inv_view]]) simp_all
  moreover have "squeeze_loop sh acc M = squeeze_loop sh
      (acc\<lparr>sq_recomputed := wrap 64 (sq_recomputed acc + fst (deepen sh r M)),
           sq_reached := max (sq_reached acc) r\<rparr>) (snd (deepen sh r M))"
    using move r by (subst squeeze_loop.simps) (simp add: Let_def)
  ultimately show ?thesis
    unfolding onward_def sessions_inv_view V
    using acc walked_lowered spare_lowered [OF s(1,2)] by simp
qed

lemma terminate_turn:
  assumes inv: "sessions_inv (mg_sessions M)" and acc: "\<not> sq_fits acc"
    and move: "next_move (mg_capacity M) sh (mg_sessions M) = Terminate i"
    and i: "Some (i, c, g) \<in> set (view (mg_sessions M))" "c_context c \<noteq> 0"
      "\<forall>j d h. Some (j, d, h) \<in> set (view (mg_sessions M)) \<longrightarrow> c_context d \<noteq> 0 \<longrightarrow> j \<le> i"
  shows "case fst (destroy_session i M) of
      Inl _ \<Rightarrow> same_view M (snd (destroy_session i M)) \<and>
        (\<exists>r. squeeze_loop sh acc M = Some (r, snd (destroy_session i M)) \<and> \<not> sq_fits r)
    | Inr _ \<Rightarrow> onward sh acc M (acc\<lparr>sq_terminated := wrap 32 (sq_terminated acc + 1),
        sq_reached := max (sq_reached acc) L7\<rparr>) (snd (destroy_session i M))"
proof (cases "fst (destroy_session i M)")
  case (Inl e)
  have "\<exists>r. squeeze_loop sh acc M = Some (r, snd (destroy_session i M)) \<and> \<not> sq_fits r"
    using move Inl acc by (subst squeeze_loop.simps) (simp add: Let_def)
  with destroy_session_view [OF inv, of i] Inl show ?thesis by simp
next
  case (Inr n)
  let ?v = "view (mg_sessions M)"
  note vi = inv [unfolded sessions_inv_view]
  from destroy_session_view [OF inv, of i] Inr obtain k c' g'
    where k: "k < length (mg_sessions M)" "?v ! k = Some (i, c', g')"
      and v: "view (mg_sessions (snd (destroy_session i M))) = ?v[k := None]"
      and cap: "mg_capacity (snd (destroy_session i M)) = mg_capacity M" by auto
  obtain q where q: "q < length ?v" "?v ! q = Some (i, c, g)" using i(1) by (auto simp: in_set_conv_nth)
  with k vi have "q = k" unfolding view_inv_def by (metis fst_conv view_length)
  with q k have "c' = c" by simp
  then have "walked ?v (?v[k := None])"
    using walked_terminate [OF vi _ k(2)] k(1) i(2,3) by auto
  moreover have "squeeze_loop sh acc M = squeeze_loop sh (acc\<lparr>sq_terminated := wrap 32 (sq_terminated acc + 1),
        sq_reached := max (sq_reached acc) L7\<rparr>) (snd (destroy_session i M))"
    using move Inr by (subst squeeze_loop.simps) (simp add: Let_def)
  ultimately show ?thesis
    using Inr acc cap k view_inv_none [OF vi] spare_none [of k ?v]
    by (simp add: onward_def sessions_inv_view v)
qed

lemma squeeze_loop_spec:
  "sessions_inv (mg_sessions M) \<Longrightarrow> length (mg_sessions M) \<le> MAX_SESSIONS \<Longrightarrow> \<not> sq_fits acc \<Longrightarrow>
   \<exists>r M'. squeeze_loop sh acc M = Some (r, M') \<and> mg_capacity M' = mg_capacity M \<and>
     walked (view (mg_sessions M)) (view (mg_sessions M')) \<and>
     sq_fits r = ladder_fits (mg_capacity M') sh (mg_sessions M') \<and>
     (sq_fits r \<or> no_deeper (view (mg_sessions M')))"
proof (induction "spare (view (mg_sessions M))" arbitrary: acc M rule: less_induct)
  case less
  have again: ?case if on: "onward sh acc M acc' M1" for acc' M1
  proof -
    have "length (mg_sessions M1) \<le> MAX_SESSIONS"
      using less.prems(2) on walkedD(1) [of "view (mg_sessions M)" "view (mg_sessions M1)"]
      unfolding onward_def by simp
    from less.hyps [OF _ _ this, of acc'] on
    obtain r M' where "squeeze_loop sh acc' M1 = Some (r, M')" "mg_capacity M' = mg_capacity M1"
      "walked (view (mg_sessions M1)) (view (mg_sessions M'))"
      "sq_fits r = ladder_fits (mg_capacity M') sh (mg_sessions M')"
      "sq_fits r \<or> no_deeper (view (mg_sessions M'))" unfolding onward_def by blast
    with on walked_trans [of "view (mg_sessions M)" "view (mg_sessions M1)"] show ?thesis
      unfolding onward_def by auto
  qed
  consider (fits) "next_move (mg_capacity M) sh (mg_sessions M) = Fits" "ladder_fits (mg_capacity M) sh (mg_sessions M)"
    | (deepen) r i c g where "next_move (mg_capacity M) sh (mg_sessions M) = Deepen r"
        "Some (i, c, g) \<in> set (view (mg_sessions M))" "moves c g r" "r \<le> L5"
    | (exhausted) "next_move (mg_capacity M) sh (mg_sessions M) = Exhausted"
        "\<not> ladder_fits (mg_capacity M) sh (mg_sessions M)" "no_deeper (view (mg_sessions M))"
    | (terminate) i c g where "next_move (mg_capacity M) sh (mg_sessions M) = Terminate i"
        "\<not> ladder_fits (mg_capacity M) sh (mg_sessions M)" "no_deeper (view (mg_sessions M))"
        "Some (i, c, g) \<in> set (view (mg_sessions M))" "c_context c \<noteq> 0"
        "\<forall>j d h. Some (j, d, h) \<in> set (view (mg_sessions M)) \<longrightarrow> c_context d \<noteq> 0 \<longrightarrow> j \<le> i"
    using next_move_cases [of "mg_capacity M" sh "mg_sessions M"] by blast
  then show ?case
  proof cases
    case fits
    then show ?thesis by (subst squeeze_loop.simps) simp
  next
    case exhausted
    then show ?thesis using less.prems(3) by (subst squeeze_loop.simps) simp
  next
    case (deepen r i c g)
    from deepen_onward [OF less.prems deepen] show ?thesis by (rule again)
  next
    case (terminate i c g)
    note T = terminate_turn [OF less.prems(1,3) terminate(1,4-6)]
    show ?thesis
    proof (cases "fst (destroy_session i M)")
      case (Inl e)
      with T have same: "same_view M (snd (destroy_session i M))" by simp
      with T Inl terminate(2,3) same_view_fits [OF same, of sh] show ?thesis by (auto simp: same_view_def)
    next
      case (Inr n)
      with T show ?thesis by (auto intro: again)
    qed
  qed
qed

lemma walked_inv: "walked v v' \<Longrightarrow> view_inv v \<Longrightarrow> view_inv v'"
proof -
  assume w: "walked v v'" and inv: "view_inv v"
  have old: "\<exists>t. v ! p = Some t \<and> fst t = fst s" if "p < length v" "v' ! p = Some s" for p s
    using walkedD(2) [OF w that(1)] that(2) by (cases s) (auto dest: kept_to)
  show "view_inv v'"
    unfolding view_inv_def walkedD(1) [OF w]
  proof (intro conjI allI impI)
    fix p q s t
    assume "p < length v" "q < length v" "v' ! p = Some s" "v' ! q = Some t" "fst s = fst t"
    then show "p = q" using old [of p s] old [of q t] inv unfolding view_inv_def by auto
  next
    fix s assume "Some s \<in> set v'"
    then obtain p where "p < length v" "v' ! p = Some s"
      using walkedD(1) [OF w] by (auto simp: in_set_conv_nth)
    with old inv show "fst s \<noteq> 0" unfolding view_inv_def by (metis nth_mem)
  qed
qed

end
