(* ===== verification/LadderProps.thy ===== *)
theory LadderProps
  imports LadderProofs ObjmanProps
begin

text \<open>
  Rewriting a block in place keeps the manager's invariant, and the properties of the ladder:
  what the rungs mean, what they free, that the squeeze ends and what it may do to a session.
\<close>

section \<open>Giving back the tail of a block\<close>

context allocator begin

lemma shrink_holds:
  assumes "good a" "holds span start_ok (cap a) (free a) A" "A k = Some (start, n)"
    and "0 < n'" "span n' < span n" "start_ok (start + span n')"
    and tail: "span (span n - span n') = span n - span n'"
    and run: "release (base a + (start + span n')) (span n - span n') a = (Inr (), a')"
  shows "good a' \<and> holds span start_ok (cap a') (free a') (A(k \<mapsto> (start, n'))) \<and>
    free a' = free a \<union> {start + span n'..<start + span n} \<and> cap a' = cap a \<and> base a' = base a"
proof -
  have b: "start_ok start" "start + span n \<le> cap a" "{start..<start + span n} \<inter> free a = {}"
    using assms(2,3) unfolding holds_def block_def by fastforce+
  have sub: "start + span n' + (span n - span n') = start + span n" using assms(5) by simp
  have part: "{start + span n'..<start + span n} \<subseteq> {start..<start + span n}"
    "{start..<start + span n'} \<subseteq> {start..<start + span n}" using assms(5) by auto
  have tail_free: "{start + span n'..<start + span n' + span (span n - span n')} \<inter> free a = {}"
    using b(3) part(1) unfolding tail sub by blast
  have r: "good a' \<and> free a' = free a \<union> {start + span n'..<start + span n} \<and> cap a' = cap a \<and> base a' = base a"
    using release_ok [OF assms(1) _ assms(6) _ tail_free run] assms(5) b(2) unfolding tail sub by simp
  have old: "0 < snd b \<and> start_ok (fst b) \<and> fst b + span (snd b) \<le> cap a \<and> block span b \<inter> free a = {}"
    if "A k' = Some b" for k' b
    using assms(2) that unfolding holds_def by blast
  have apart: "block span b \<inter> {start..<start + span n} = {}" if "A k' = Some b" "k' \<noteq> k" for k' b
  proof -
    have "block span b \<inter> block span (start, n) = {}" using assms(2,3) that unfolding holds_def by blast
    then show ?thesis by (simp add: block_def)
  qed
  have "holds span start_ok (cap a') (free a') (A(k \<mapsto> (start, n')))"
    unfolding holds_def
  proof (intro conjI allI impI)
    fix k' b assume k': "(A(k \<mapsto> (start, n'))) k' = Some b"
    show "0 < snd b" "start_ok (fst b)" "fst b + span (snd b) \<le> cap a'"
      using k' old [of k' b] assms(4,5) b r by (auto split: if_splits)
    show "block span b \<inter> free a' = {}"
    proof (cases "k' = k")
      case True
      have "{start..<start + span n'} \<inter> free a = {}" using b(3) part(2) by blast
      with True show ?thesis using k' r by (auto simp: block_def)
    next
      case False
      then have "A k' = Some b" using k' by simp
      then show ?thesis using old [of k' b] apart [of k' b] False r part(1) by blast
    qed
  next
    fix k1 k2 b b'
    assume e: "(A(k \<mapsto> (start, n'))) k1 = Some b" "(A(k \<mapsto> (start, n'))) k2 = Some b'" "k1 \<noteq> k2"
    have small: "block span (start, n') \<subseteq> {start..<start + span n}" using part(2) by (simp add: block_def)
    show "block span b \<inter> block span b' = {}"
    proof (cases "k1 = k \<or> k2 = k")
      case True
      then have "b = (start, n') \<and> block span b' \<inter> {start..<start + span n} = {} \<or>
          b' = (start, n') \<and> block span b \<inter> {start..<start + span n} = {}"
        using e apart [of k1 b] apart [of k2 b'] by (auto split: if_splits)
      then show ?thesis using small by blast
    next
      case False
      then have "A k1 = Some b" "A k2 = Some b'" using e by auto
      then show ?thesis using assms(2) e(3) unfolding holds_def by blast
    qed
  qed
  with r show ?thesis by simp
qed

end

lemma aligned_dvd: "ALIGN dvd n \<Longrightarrow> aligned n = n"
  by (simp add: aligned_def next_multiple_of_def dvd_eq_mod_eq_0)

lemma aligned_minus: "aligned (aligned n - aligned n') = aligned n - aligned n'"
  by (rule aligned_dvd) (intro dvd_diff_nat aligned_facts)

lemma aligned_mono: "n' \<le> n \<Longrightarrow> aligned n' \<le> aligned n"
  unfolding aligned_def by (rule next_multiple_of_mono) (simp_all add: ALIGN_def)

lemma aligned_wrap: "n + ALIGN \<le> 2 ^ 32 \<Longrightarrow> wrap 32 (next_multiple_of ALIGN n) = aligned n"
  using aligned_facts(3) [of n] by (simp add: wrap_exact aligned_def)

section \<open>Rewriting a block\<close>

definition rewritten :: "nat \<Rightarrow> precision \<Rightarrow> object_meta \<Rightarrow> object_meta" where
  "rewritten sz p m = m\<lparr>m_size := sz, m_precision := p\<rparr>"

text \<open>The bytes an owner stays charged for although its block shrank: those that shrank within
  one alignment unit.\<close>

definition drift :: "nat \<Rightarrow> object_meta \<Rightarrow> session_id \<Rightarrow> nat" where
  "drift sz m j =
     (if j = m_owner m \<and> m_resident_at m \<noteq> 0 \<and> aligned sz = aligned (m_size m) then m_size m - sz else 0)"

lemma rewritten_size_le: "rewritten_size f m \<le> m_size m"
  by (simp add: rewritten_size_def Let_def)

lemma rewrite_inv:
  assumes inv: "mgr_inv_pending pend M" and m: "table_map (mg_table M) i = Some m"
    and p: "fate_precision f = Some p" and pos: "0 < rewritten_size f m"
    and run: "rewrite i f M = (r, M')"
  obtains (refused) "r = Inl NoBudget" "M' = M" "m_resident_at m \<noteq> 0" "length (ar_free (mg_arena M)) = HOLES"
  | (shrunk) "r = Inr ()" "mgr_inv_pending (\<lambda>j. pend j + drift (rewritten_size f m) m j) M'"
      "table_map (mg_table M') = (table_map (mg_table M))(i \<mapsto> rewritten (rewritten_size f m) p m)"
      "ar_base (mg_arena M') = ar_base (mg_arena M)" "ar_bytes (mg_arena M') = ar_bytes (mg_arena M)"
      "m_resident_at m = 0 \<longrightarrow> mg_arena M' = mg_arena M"
      "m_resident_at m \<noteq> 0 \<longrightarrow> free_set (mg_arena M') = free_set (mg_arena M) \<union>
        {m_resident_at m - ar_base (mg_arena M) + aligned (rewritten_size f m)..<
         m_resident_at m - ar_base (mg_arena M) + aligned (m_size m)}"
proof -
  note I = mgr_invD [OF inv]
  define sz where "sz = rewritten_size f m"
  define b where "b = ar_base (mg_arena M)"
  have sz: "0 < sz" "sz \<le> m_size m" using pos rewritten_size_le by (simp_all add: sz_def)
  have eok: "entry_ok b i m" using I(5) [OF m] by (simp add: b_def)
  have wr: "wrap 32 (next_multiple_of ALIGN (m_size m)) = aligned (m_size m)"
    "wrap 32 (next_multiple_of ALIGN sz) = aligned sz"
    using eok sz by (simp_all add: aligned_wrap entry_ok_def)
  have g: "table_get (mg_table M) i = Some m" using table_get_map [OF I(1)] m by simp
  obtain t where t: "table_get_mut i (\<lambda>m. m\<lparr>m_size := sz, m_precision := p\<rparr>) (mg_table M) = Some t"
    "table_inv t" "table_map t = (table_map (mg_table M))(i \<mapsto> rewritten sz p m)"
    using tab.modify_present [OF I(1) m] by (metis rewritten_def)
  have ent: "entry_ok b k m'" if "table_map t k = Some m'" for k m'
    using that I(5) [of k] eok sz t(3) by (auto simp: entry_ok_def rewritten_def b_def split: if_splits)
  have ow: "owned t j + (if m_owner m = j \<and> m_resident_at m \<noteq> 0 then m_size m else 0) =
      owned (mg_table M) j + (if m_owner m = j \<and> m_resident_at m \<noteq> 0 then sz else 0)" for j
    using owned_update [OF m t(3), of j] by (simp add: weight_def rewritten_def)
  show thesis
  proof (cases "m_resident_at m \<noteq> 0 \<and> aligned sz < aligned (m_size m)")
    case False
    then have same: "aligned sz = aligned (m_size m) \<or> m_resident_at m = 0" using aligned_mono [OF sz(2)] by auto
    have M': "r = Inr ()" "M' = M\<lparr>mg_table := t\<rparr>"
      using run g p t(1) False by (auto simp: rewrite_def Let_def wr simp flip: sz_def)
    have bl: "holds aligned (\<lambda>start. ALIGN dvd start) (length (ar_bytes (mg_arena M))) (free_set (mg_arena M))
        (blocks (M\<lparr>mg_table := t\<rparr>))"
    proof (cases "m_resident_at m = 0")
      case True
      then have "blocks (M\<lparr>mg_table := t\<rparr>) = blocks M"
        using m t(3) by (auto simp: blocks_def fun_eq_iff block_of_def rewritten_def)
      then show ?thesis using I(6) by simp
    next
      case False
      then have al: "aligned sz = aligned (m_size m)" using same by simp
      have "blocks (M\<lparr>mg_table := t\<rparr>) = (blocks M)(i \<mapsto> (m_resident_at m - b, sz))"
        using blocks_update [of "M\<lparr>mg_table := t\<rparr>" M i] t(3) False
        by (simp add: block_of_def rewritten_def b_def)
      moreover have "blocks M i = Some (m_resident_at m - b, m_size m)"
        using resident_block(1) [OF inv m False] by (simp add: b_def)
      ultimately show ?thesis
        using I(6) al sz(1) by (auto simp: holds_def block_def split: if_splits)
    qed
    have "accounts (\<lambda>j. pend j + drift sz m j) (M\<lparr>mg_table := t\<rparr>)"
      unfolding accounts_def
    proof (intro allI impI)
      fix j s assume "sessions_get (mg_sessions (M\<lparr>mg_table := t\<rparr>)) j = Some s"
      then have "s_resident s = owned (mg_table M) j + pend j" "within_ceiling s"
        using I(8) by (auto simp: accounts_def)
      with ow [of j] sz(2) same
      show "s_resident s = owned (mg_table (M\<lparr>mg_table := t\<rparr>)) j + (pend j + drift sz m j) \<and> within_ceiling s"
        by (auto simp: drift_def split: if_splits)
    qed
    with bl have "mgr_inv_pending (\<lambda>j. pend j + drift sz m j) (M\<lparr>mg_table := t\<rparr>)"
      using I t(2) ent unfolding mgr_inv_pending_def by (simp add: b_def)
    then show thesis
      using M' t(3) same by (intro shrunk) (auto simp: sz_def)
  next
    case True
    then have res: "m_resident_at m \<noteq> 0" and less: "aligned sz < aligned (m_size m)" by simp_all
    note B = resident_block [OF inv m res]
    let ?start = "m_resident_at m - b"
    have st: "ALIGN dvd ?start" using I(6) B(1) unfolding holds_def by (fastforce simp: b_def)
    have "?start + aligned (m_size m) \<le> length (ar_bytes (mg_arena M))" 
      using I(6) B(1) unfolding holds_def by (fastforce simp: b_def)
    moreover have "ar_base (mg_arena M) + length (ar_bytes (mg_arena M)) < 2 ^ 64"
      using I(2) by (simp add: arena_inv_def)
    ultimately have fit: "m_resident_at m + aligned (m_size m) < 2 ^ 64"
      using B(2) unfolding b_def by linarith
    have at: "wrap 64 (m_resident_at m + aligned sz) = b + (?start + aligned sz)"
      using fit less B(2) by (simp add: wrap_exact b_def)
    obtain q a where rel: "arena_release (b + (?start + aligned sz)) (aligned (m_size m) - aligned sz) (mg_arena M) = (q, a)"
      by fastforce
    show thesis
    proof (cases q)
      case (Inl e)
      have a: "a = mg_arena M" using arena_release_full [OF I(2)] rel Inl by blast
      have e: "e = NoBudget" "length (ar_free (mg_arena M)) = HOLES"
        using rel Inl by (auto simp: arena_release_def checked_sub_def Let_def b_def split: if_splits)
      have "r = Inl NoBudget" "M' = M"
        using run g p less res rel Inl a e(1) by (auto simp: rewrite_def Let_def wr at simp flip: sz_def)
      with res e(2) show thesis by (intro refused)
    next
      case (Inr u)
      let ?M1 = "M\<lparr>mg_arena := a, mg_counters := count_held KvBlock (- int (m_size m - sz)) (mg_counters M),
                    mg_sessions := credit (m_owner m) (m_size m - sz) (mg_sessions M), mg_table := t\<rparr>"
      have M': "r = Inr ()" "M' = ?M1"
        using run g p t(1) less res rel Inr by (auto simp: rewrite_def Let_def wr at simp flip: sz_def)
      have A: "arena_inv a \<and> holds aligned (\<lambda>start. ALIGN dvd start) (length (ar_bytes a)) (free_set a)
            ((blocks M)(i \<mapsto> (?start, sz))) \<and>
          free_set a = free_set (mg_arena M) \<union> {?start + aligned sz..<?start + aligned (m_size m)} \<and>
          length (ar_bytes a) = length (ar_bytes (mg_arena M)) \<and> ar_base a = ar_base (mg_arena M)"
        by (rule alloc.shrink_holds [OF I(2,6)])
          (use B(1) sz less st rel Inr aligned_minus in
            \<open>simp_all add: b_def dvd_add aligned_facts(1)\<close>)
      have bytes: "ar_bytes a = ar_bytes (mg_arena M)" using arena_release_bytes rel by (metis snd_conv)
      have bl: "blocks ?M1 = (blocks M)(i \<mapsto> (?start, sz))"
        using blocks_update [of ?M1 M i] t(3) res A by (simp add: block_of_def rewritten_def b_def)
      have "accounts (\<lambda>j. pend j + drift sz m j) ?M1"
        unfolding accounts_def
      proof (intro allI impI)
        fix j s assume "sessions_get (mg_sessions ?M1) j = Some s"
        then obtain s0 where s0: "sessions_get (mg_sessions M) j = Some s0"
          "s = (if j = m_owner m then s0\<lparr>s_resident := s_resident s0 - (m_size m - sz)\<rparr> else s0)"
          by (auto simp: sessions_get_credit [OF I(3)] split: if_splits)
        then have "s_resident s0 = owned (mg_table M) j + pend j" "within_ceiling s0"
          using I(8) by (auto simp: accounts_def)
        with s0(2) ow [of j] sz(2) less res
        show "s_resident s = owned (mg_table ?M1) j + (pend j + drift sz m j) \<and> within_ceiling s"
          by (auto simp: drift_def within_ceiling_def split: if_splits)
      qed
      moreover have "holds aligned (\<lambda>start. ALIGN dvd start) (length (ar_bytes (mg_arena ?M1)))
          (free_set (mg_arena ?M1)) (blocks ?M1)"
        unfolding bl using conjunct1 [OF conjunct2 [OF A]] by simp
      moreover have "arena_inv a" "ar_base a = ar_base (mg_arena M)" using A by blast+
      ultimately have "mgr_inv_pending (\<lambda>j. pend j + drift sz m j) ?M1"
        using I t(2) ent credit_good [OF I(3)] unfolding mgr_inv_pending_def by (simp add: b_def)
      then show thesis
        using M' t(3) A bytes res by (intro shrunk) (auto simp: sz_def b_def)
    qed
  qed
qed

section \<open>Properties\<close>

text \<open>C16: a squeeze always ends. It ends saying that the live sessions fit exactly when what
  they hold on their rungs is within the budget less the reserve (a budget of zero fits
  anything), and when it ends without fitting, no live session could have gone a rung deeper.\<close>

theorem squeeze_ends:
  assumes "sessions_inv (mg_sessions M)" "length (mg_sessions M) \<le> MAX_SESSIONS"
  shows "\<exists>r M'. squeeze sh bytes M = Some (r, M') \<and> mg_capacity M' = (mg_capacity M)\<lparr>cp_bytes := bytes\<rparr> \<and>
    (sq_fits r \<longleftrightarrow> bytes = 0 \<or>
       ladder_demand (mg_capacity M') sh (mg_sessions M') \<le> bytes - cp_reserved (mg_capacity M)) \<and>
    (\<not> sq_fits r \<longrightarrow> (\<forall>s r. Some s \<in> set (mg_sessions M') \<longrightarrow> deeper (s_rung s) = Some r \<longrightarrow> \<not> movable s r))"
proof -
  let ?M = "M\<lparr>mg_capacity := (mg_capacity M)\<lparr>cp_bytes := bytes\<rparr>\<rparr>"
  obtain r M' where run: "squeeze_loop sh squeezed_default ?M = Some (r, M')"
    and cap: "mg_capacity M' = (mg_capacity M)\<lparr>cp_bytes := bytes\<rparr>"
    and fits: "sq_fits r = ladder_fits (mg_capacity M') sh (mg_sessions M')"
    and stuck: "sq_fits r \<or> no_deeper (view (mg_sessions M'))"
    using squeeze_loop_spec [of ?M squeezed_default sh] assms by (auto simp: squeezed_default_def)
  have "\<not> movable s g" if "\<not> sq_fits r" "Some s \<in> set (mg_sessions M')" "deeper (s_rung s) = Some g" for s g
  proof -
    have "Some (s_id s, s_contract s, s_rung s) \<in> set (view (mg_sessions M'))"
      using that(2) by (auto simp: view_set)
    then show ?thesis using stuck that(1,3) unfolding no_deeper_def movable_moves by blast
  qed
  with run cap fits show ?thesis by (auto simp: squeeze_def ladder_fits_def)
qed

lemma squeeze_ends_witness:
  "\<exists>r M'. squeeze \<lparr>sh_per_block = 16, sh_hot = 2\<rparr> 0 (sample_manager 0) = Some (r, M') \<and> sq_fits r"
proof -
  have "length (mg_sessions (sample_manager 0)) \<le> MAX_SESSIONS"
    by (simp add: sample_manager_facts(9))
  with squeeze_ends [of "sample_manager 0" "\<lparr>sh_per_block = 16, sh_hot = 2\<rparr>" 0]
    sample_manager_facts(2) [of 0] show ?thesis
    by (auto simp: mgr_inv_def mgr_inv_pending_def)
qed

text \<open>C17: what a squeeze may do to the sessions. Nobody new appears; whoever is still live kept
  its contract, is on the rung it was on or a deeper one, and if deeper then one its quality
  floor permits and no deeper than L5. Only sessions that declared a context are terminated, and
  each of them had a higher id than every such session that survived.\<close>

theorem squeeze_keeps_promises:
  assumes "sessions_inv (mg_sessions M)" "length (mg_sessions M) \<le> MAX_SESSIONS"
    and "squeeze sh bytes M = Some (r, M')"
  shows "(\<forall>i s'. sessions_get (mg_sessions M') i = Some s' \<longrightarrow>
       (\<exists>s. sessions_get (mg_sessions M) i = Some s \<and> s_contract s' = s_contract s \<and>
          (s_rung s' = s_rung s \<or>
           s_rung s < s_rung s' \<and> s_rung s' \<le> L5 \<and> permits (s_contract s) (quality (s_rung s'))))) \<and>
    (\<forall>i s. sessions_get (mg_sessions M) i = Some s \<longrightarrow> sessions_get (mg_sessions M') i = None \<longrightarrow>
       c_context (s_contract s) \<noteq> 0 \<and>
       (\<forall>j t. sessions_get (mg_sessions M') j = Some t \<longrightarrow> c_context (s_contract t) \<noteq> 0 \<longrightarrow> j < i))"
proof -
  let ?v = "view (mg_sessions M)" and ?v' = "view (mg_sessions M')"
  have w: "walked ?v ?v'"
    using squeeze_loop_spec [of "M\<lparr>mg_capacity := (mg_capacity M)\<lparr>cp_bytes := bytes\<rparr>\<rparr>" squeezed_default sh] assms
    by (auto simp: squeezed_default_def squeeze_def)
  have inv': "sessions_inv (mg_sessions M')"
    using walked_inv [OF w] assms(1) by (simp add: sessions_inv_view)
  have at: "\<exists>k < length ?v. ?v' ! k = Some (i, s_contract s, s_rung s)"
    if "sessions_get (mg_sessions M') i = Some s" for i s
  proof -
    have "Some (i, s_contract s, s_rung s) \<in> set ?v'"
      using that by (auto simp: sessions_get_iff [OF inv'] view_set)
    then show ?thesis using walkedD(1) [OF w] by (simp only: in_set_conv_nth)
  qed
  have get: "\<exists>s. sessions_get (mg_sessions M) i = Some s \<and> s_contract s = c \<and> s_rung s = g"
    if "?v ! k = Some (i, c, g)" "k < length ?v" for k i c g
  proof -
    have "Some (i, c, g) \<in> set ?v" using that by (metis nth_mem)
    then show ?thesis by (auto simp: sessions_get_iff [OF assms(1)] view_set)
  qed
  have A: "\<exists>s. sessions_get (mg_sessions M) i = Some s \<and> s_contract s' = s_contract s \<and>
      (s_rung s' = s_rung s \<or>
       s_rung s < s_rung s' \<and> s_rung s' \<le> L5 \<and> permits (s_contract s) (quality (s_rung s')))"
    if s': "sessions_get (mg_sessions M') i = Some s'" for i s'
  proof -
    from at [OF s'] obtain k where k: "k < length ?v" "?v' ! k = Some (i, s_contract s', s_rung s')" by blast
    from kept_to [OF walkedD(2) [OF w k(1), unfolded k(2)]] obtain g
      where g: "?v ! k = Some (i, s_contract s', g)" "g \<le> s_rung s'"
        "s_rung s' = g \<or> s_rung s' \<le> L5 \<and> permits (s_contract s') (quality (s_rung s'))" by blast
    from get [OF g(1) k(1)] obtain s where "sessions_get (mg_sessions M) i = Some s" "s_contract s = s_contract s'"
      "s_rung s = g" by blast
    with g(2,3) show ?thesis by (intro exI [of _ s]) (auto simp: le_less)
  qed
  have B: "c_context (s_contract s) \<noteq> 0 \<and>
      (\<forall>j t. sessions_get (mg_sessions M') j = Some t \<longrightarrow> c_context (s_contract t) \<noteq> 0 \<longrightarrow> j < i)"
    if s: "sessions_get (mg_sessions M) i = Some s" and none: "sessions_get (mg_sessions M') i = None" for i s
  proof -
    have "Some (i, s_contract s, s_rung s) \<in> set ?v"
      using s by (auto simp: sessions_get_iff [OF assms(1)] view_set)
    then obtain k where k: "k < length ?v" "?v ! k = Some (i, s_contract s, s_rung s)"
      by (auto simp: in_set_conv_nth)
    have gone: "?v' ! k = None"
    proof (rule ccontr)
      assume "?v' ! k \<noteq> None"
      then obtain g' where "?v' ! k = Some (i, s_contract s, g')"
        using kept_source walkedD(2) [OF w k(1)] k(2) by metis
      then have "Some (i, s_contract s, g') \<in> set ?v'" using k(1) walkedD(1) [OF w] by (metis nth_mem)
      then show False using none by (auto simp: sessions_get_None view_set)
    qed
    have "c_context (s_contract s) \<noteq> 0"
      using walkedD(2) [OF w k(1)] k(2) gone by (simp add: kept_def)
    moreover have "j < i" if "sessions_get (mg_sessions M') j = Some t" "c_context (s_contract t) \<noteq> 0" for j t
      using at [OF that(1)] walkedD(3) [OF w k(1) _ k(2) gone _ that(2)] by blast
    ultimately show ?thesis by blast
  qed
  show ?thesis using A B by blast
qed

lemma squeeze_keeps_promises_witness:
  "\<exists>r M'. squeeze \<lparr>sh_per_block = 16, sh_hot = 2\<rparr> 1 (sample_manager 0) = Some (r, M') \<and>
     sessions_get (mg_sessions M') 1 \<noteq> None"
proof -
  let ?sh = "\<lparr>sh_per_block = 16, sh_hot = 2\<rparr>" and ?M = "sample_manager 0"
  have h: "sessions_inv (mg_sessions ?M)" "length (mg_sessions ?M) \<le> MAX_SESSIONS"
    using sample_manager_facts(2,9) [of 0] by (auto simp: mgr_inv_def mgr_inv_pending_def)
  obtain r M' where run: "squeeze ?sh 1 ?M = Some (r, M')"
    using squeeze_loop_spec [of "?M\<lparr>mg_capacity := (mg_capacity ?M)\<lparr>cp_bytes := 1\<rparr>\<rparr>" squeezed_default ?sh] h
    by (auto simp: squeezed_default_def squeeze_def)
  let ?s = "session_new 1 (contract_none\<lparr>c_resident_ceiling := 0\<rparr>)"
  have "sessions_get (mg_sessions M') 1 = None \<longrightarrow> c_context (s_contract ?s) \<noteq> 0"
    using squeeze_keeps_promises [OF h run] sample_manager_facts(5) [of 0] by blast
  then have "sessions_get (mg_sessions M') 1 \<noteq> None"
    by (simp add: session_new_def contract_none_def)
  with run show ?thesis by blast
qed

text \<open>C18: rewriting a block to a fate that keeps it happens in place: the record gets the new
  size and precision, no other record changes, the arena gets back exactly the aligned tail of
  the block, residents stay disjoint, and the only refusal is a full free list, which changes
  nothing. The owner is credited the difference only when the aligned size shrinks: a resident
  block that shrinks within one unit of alignment leaves its owner charged for bytes it no
  longer holds.\<close>

theorem rewrite_in_place:
  assumes "mgr_inv M" "table_map (mg_table M) i = Some m" "fate_precision f = Some p"
    and "0 < rewritten_size f m" "rewrite i f M = (r, M')"
  shows "r = Inl NoBudget \<and> M' = M \<and> m_resident_at m \<noteq> 0 \<and> length (ar_free (mg_arena M)) = HOLES \<or>
    r = Inr () \<and>
    table_map (mg_table M') = (table_map (mg_table M))(i \<mapsto> m\<lparr>m_size := rewritten_size f m, m_precision := p\<rparr>) \<and>
    ar_bytes (mg_arena M') = ar_bytes (mg_arena M) \<and>
    free_set (mg_arena M') = free_set (mg_arena M) \<union>
      (if m_resident_at m = 0 then {}
       else {m_resident_at m - ar_base (mg_arena M) + aligned (rewritten_size f m)..<
             m_resident_at m - ar_base (mg_arena M) + aligned (m_size m)}) \<and>
    holds aligned (\<lambda>start. ALIGN dvd start) (length (ar_bytes (mg_arena M'))) (free_set (mg_arena M')) (blocks M') \<and>
    (\<forall>j s. sessions_get (mg_sessions M') j = Some s \<longrightarrow>
       s_resident s = owned (mg_table M') j +
         (if j = m_owner m \<and> m_resident_at m \<noteq> 0 \<and> aligned (rewritten_size f m) = aligned (m_size m)
          then m_size m - rewritten_size f m else 0))"
  using assms(1) [unfolded mgr_inv_def] assms(2-)
proof (cases rule: rewrite_inv)
  case refused
  then show ?thesis by simp
next
  case shrunk
  note J = mgr_invD [OF shrunk(2)]
  have "s_resident s = owned (mg_table M') j +
         (if j = m_owner m \<and> m_resident_at m \<noteq> 0 \<and> aligned (rewritten_size f m) = aligned (m_size m)
          then m_size m - rewritten_size f m else 0)" if "sessions_get (mg_sessions M') j = Some s" for j s
    using J(8) that by (simp add: accounts_def drift_def)
  then show ?thesis using shrunk J(6) by (simp add: rewritten_def)
qed

lemma rewrite_in_place_witness:
  "\<exists>M'. rewrite sample_id (Keep Q8) (sample_manager 0) = (Inr (), M') \<and>
     table_map (mg_table M') sample_id = Some (sample_meta\<lparr>m_size := 32, m_precision := Q8\<rparr>)"
proof -
  have sz: "rewritten_size (Keep Q8) sample_meta = 32"
    by (simp add: rewritten_size_def Let_def fate_bytes_def wrap_def sample_meta_def)
  obtain r M' where run: "rewrite sample_id (Keep Q8) (sample_manager 0) = (r, M')" by fastforce
  have "m_resident_at sample_meta = 0" by (simp add: sample_meta_def)
  with rewrite_in_place [OF sample_manager_facts(2) _ _ _ run, of sample_meta Q8]
    sample_manager_facts(4) [of 0] sz run
  show ?thesis by auto
qed

text \<open>What the rungs mean for memory. On L0 a context needs exactly its declared bytes, the
  figure admission charged, a partial last block included; a deeper rung never needs more than a
  shallower one; and moving between rungs never reads more than the context held before.\<close>

theorem rungs_need_less:
  assumes "context < 2 ^ 32" "context * kv * 16 < 2 ^ 64"
  shows "shape_need sh L0 context kv = context * kv \<and>
    (\<forall>r r'. r \<le> r' \<longrightarrow> shape_need sh r' context kv \<le> shape_need sh r context kv) \<and>
    (\<forall>r r'. shape_cost sh r r' context kv \<le> shape_need sh r context kv)"
  using need_L0 [OF assms] need_deeper [OF assms] cost_le_need by blast

lemma rungs_need_less_witness:
  "shape_need \<lparr>sh_per_block = 16, sh_hot = 8\<rparr> L0 2048 24576 = 50331648"
  using rungs_need_less [of 2048 24576 "\<lparr>sh_per_block = 16, sh_hot = 8\<rparr>"] by simp

text \<open>One block on its way down the rungs. The newest blocks are full precision on every
  rung, L5 and the rungs below it included; a block a rung drops stays dropped on every deeper
  one; and a deeper rung never keeps more bits of a block.\<close>

theorem fates_only_coarsen:
  assumes "r \<le> r'"
  shows "(n - sh_hot sh \<le> at \<longrightarrow> shape_fate sh r at n = Keep Fp16) \<and>
    (shape_fate sh r at n = Dropped \<longrightarrow> shape_fate sh r' at n = Dropped) \<and>
    fate_bits (fate_precision (shape_fate sh r' at n)) \<le> fate_bits (fate_precision (shape_fate sh r at n))"
  using fate_hot fate_dropped_deeper [OF assms] fate_bits_deeper [OF assms] by blast

lemma fates_only_coarsen_witness:
  "shape_fate \<lparr>sh_per_block = 16, sh_hot = 2\<rparr> L5 1 12 = Dropped"
proof -
  have "shape_fate \<lparr>sh_per_block = 16, sh_hot = 2\<rparr> L3 1 12 = Dropped" by (simp add: shape_fate_def Let_def)
  moreover have "L3 \<le> L5" by (simp add: less_eq_rung_def)
  ultimately show ?thesis using fates_only_coarsen [of L3 L5 12 "\<lparr>sh_per_block = 16, sh_hot = 2\<rparr>" 1] by simp
qed

text \<open>The prefill numbers a block by the low sixteen bits of its position, so in a context of more
  than 65536 blocks the ids come round again.\<close>

lemma prefill_ids_repeat: "kv_block s l (of_nat at) = kv_block s l (of_nat (at + 65536))"
proof -
  have "(of_nat (at + 65536) :: u16) = of_nat at" by simp
  then show ?thesis by (simp only:)
qed

lemma kv_block_inject: "kv_block s l p = kv_block s' l' p' \<longleftrightarrow> s = s' \<and> l = l' \<and> p = p'"
proof
  assume "kv_block s l p = kv_block s' l' p'"
  then have "object_fields (kv_block s l p) = object_fields (kv_block s' l' p')" by simp
  then show "s = s' \<and> l = l' \<and> p = p'" by (simp add: kv_block_def)
qed simp

end
