(* ===== verification/Queue.thy ===== *)
theory Queue
  imports Prelude
begin

text \<open>
  crates/mlos-queue: the byte queue from an interrupt handler to the loop it interrupts. A ring of
  64 slots with a head only the producer moves and a tail only the consumer moves. The handler
  runs to completion on the loop's core, so a push is one step, while a pop may be interrupted
  between each of its loads and its store; the step relation has those steps, and the lemmas show
  that the bytes come out in the order they were accepted whatever the interleaving.
\<close>

section \<open>The queue (lib.rs)\<close>

definition QUEUE_CAPACITY :: nat where "QUEUE_CAPACITY = 64"

record queue =
  q_buffer :: "u8 list"
  q_head :: nat
  q_tail :: nat

definition queue_start :: queue where
  "queue_start = \<lparr>q_buffer = replicate QUEUE_CAPACITY 0, q_head = 0, q_tail = 0\<rparr>"

definition queue_push :: "u8 \<Rightarrow> queue \<Rightarrow> bool \<times> queue" where
  "queue_push byte q =
     (let head = q_head q; next_head = (head + 1) mod QUEUE_CAPACITY in
      if next_head = q_tail q then (False, q)
      else (True, q\<lparr>q_buffer := (q_buffer q)[head := byte], q_head := next_head\<rparr>))"

definition queue_pop :: "queue \<Rightarrow> u8 option \<times> queue" where
  "queue_pop q =
     (let tail = q_tail q in
      if tail = q_head q then (None, q)
      else (Some (q_buffer q ! tail), q\<lparr>q_tail := (tail + 1) mod QUEUE_CAPACITY\<rparr>))"

section \<open>The pop as the interrupt sees it\<close>

text \<open>Where the consumer is: outside, past the emptiness check with its tail in hand, or with the
  byte in hand and the tail not yet stored. The two lists record what the handler was told is in
  the queue and what the loop has taken.\<close>

datatype consumer = Outside | Loaded nat | Holding nat u8

record wire =
  w_queue :: queue
  w_consumer :: consumer
  w_accepted :: "u8 list"
  w_taken :: "u8 list"

definition wire_start :: wire where
  "wire_start = \<lparr>w_queue = queue_start, w_consumer = Outside, w_accepted = [], w_taken = []\<rparr>"

inductive wire_step :: "wire \<Rightarrow> wire \<Rightarrow> bool" where
  push: "queue_push byte (w_queue w) = (ok, q) \<Longrightarrow>
    wire_step w (w\<lparr>w_queue := q, w_accepted := w_accepted w @ (if ok then [byte] else [])\<rparr>)"
| load: "w_consumer w = Outside \<Longrightarrow> q_tail (w_queue w) \<noteq> q_head (w_queue w) \<Longrightarrow>
    wire_step w (w\<lparr>w_consumer := Loaded (q_tail (w_queue w))\<rparr>)"
| read: "w_consumer w = Loaded tail \<Longrightarrow>
    wire_step w (w\<lparr>w_consumer := Holding tail (q_buffer (w_queue w) ! tail)\<rparr>)"
| store: "w_consumer w = Holding tail byte \<Longrightarrow>
    wire_step w (w\<lparr>w_queue := (w_queue w)\<lparr>q_tail := (tail + 1) mod QUEUE_CAPACITY\<rparr>,
                  w_consumer := Outside, w_taken := w_taken w @ [byte]\<rparr>)"

inductive_cases wire_stepE: "wire_step w w'"

section \<open>The queue as a list\<close>

definition queue_inv :: "queue \<Rightarrow> bool" where
  "queue_inv q \<longleftrightarrow> length (q_buffer q) = QUEUE_CAPACITY \<and> q_head q < QUEUE_CAPACITY \<and> q_tail q < QUEUE_CAPACITY"

definition queue_count :: "queue \<Rightarrow> nat" where
  "queue_count q = (q_head q + QUEUE_CAPACITY - q_tail q) mod QUEUE_CAPACITY"

definition queue_list :: "queue \<Rightarrow> u8 list" where
  "queue_list q = map (\<lambda>i. q_buffer q ! ((q_tail q + i) mod QUEUE_CAPACITY)) [0..<queue_count q]"

lemma queue_list_length [simp]: "length (queue_list q) = queue_count q"
  by (simp add: queue_list_def)

lemma queue_count_cases:
  assumes "queue_inv q"
  shows "queue_count q = (if q_tail q \<le> q_head q then q_head q - q_tail q else q_head q + 64 - q_tail q)"
  using assms by (auto simp: queue_count_def queue_inv_def QUEUE_CAPACITY_def mod_if)

lemma queue_count_lt [simp]: "queue_count q < QUEUE_CAPACITY"
  by (simp add: queue_count_def QUEUE_CAPACITY_def)

lemma queue_list_empty: "queue_inv q \<Longrightarrow> queue_list q = [] \<longleftrightarrow> q_tail q = q_head q"
  by (auto simp: queue_list_def queue_count_cases) (auto simp: queue_inv_def QUEUE_CAPACITY_def)

lemma push_full:
  assumes "queue_inv q"
  shows "(q_head q + 1) mod QUEUE_CAPACITY = q_tail q \<longleftrightarrow> queue_count q = 63"
  using assms queue_count_cases [OF assms] by (auto simp: queue_inv_def QUEUE_CAPACITY_def mod_if)

lemma queue_push_spec:
  assumes "queue_inv q" "queue_push byte q = (ok, q')"
  shows "queue_inv q'" "q_tail q' = q_tail q" "ok \<longleftrightarrow> length (queue_list q) < 63"
    "queue_list q' = queue_list q @ (if ok then [byte] else [])"
    "\<forall>i. i \<noteq> q_head q \<longrightarrow> q_buffer q' ! i = q_buffer q ! i"
proof -
  let ?C = QUEUE_CAPACITY
  note inv = assms(1) [unfolded queue_inv_def]
  have lt: "queue_count q < 64" using queue_count_lt [of q] by (simp add: QUEUE_CAPACITY_def)
  show ok: "ok \<longleftrightarrow> length (queue_list q) < 63"
    using assms(2) push_full [OF assms(1)] lt by (auto simp: queue_push_def Let_def split: if_splits)
  have q': "q' = (if ok then q\<lparr>q_buffer := (q_buffer q)[q_head q := byte], q_head := (q_head q + 1) mod ?C\<rparr> else q)"
    using assms(2) by (auto simp: queue_push_def Let_def split: if_splits)
  show inv': "queue_inv q'" using inv by (simp add: q' queue_inv_def QUEUE_CAPACITY_def)
  show "q_tail q' = q_tail q" "\<forall>i. i \<noteq> q_head q \<longrightarrow> q_buffer q' ! i = q_buffer q ! i" by (simp_all add: q')
  show "queue_list q' = queue_list q @ (if ok then [byte] else [])"
  proof (cases ok)
    case True
    then have small: "queue_count q < 63" using ok by simp
    have count: "queue_count q' = Suc (queue_count q)"
      using small inv queue_count_cases [OF assms(1)] queue_count_cases [OF inv'] True
      by (auto simp: q' QUEUE_CAPACITY_def mod_if)
    have last: "(q_tail q + queue_count q) mod ?C = q_head q"
      using inv queue_count_cases [OF assms(1)] by (auto simp: QUEUE_CAPACITY_def mod_if)
    have other: "(q_tail q + i) mod ?C \<noteq> q_head q" if "i < queue_count q" for i
      using that small inv queue_count_cases [OF assms(1)]
      by (auto simp: QUEUE_CAPACITY_def mod_if split: if_splits)
    have "queue_list q' = map (\<lambda>i. q_buffer q' ! ((q_tail q + i) mod ?C)) [0..<queue_count q] @
        [q_buffer q' ! ((q_tail q + queue_count q) mod ?C)]"
      using True by (simp add: queue_list_def count) (simp add: q')
    also have "\<dots> = queue_list q @ [byte]"
    proof -
      have "(q_buffer q)[q_head q := byte] ! ((q_tail q + i) mod ?C) = q_buffer q ! ((q_tail q + i) mod ?C)"
        if "i < queue_count q" for i
        using other [OF that, symmetric] by (rule nth_list_update_neq)
      then show ?thesis using True last inv by (simp add: queue_list_def q')
    qed
    finally show ?thesis using True by simp
  qed (simp add: q')
qed

lemma queue_take_spec:
  assumes "queue_inv q" "q_tail q \<noteq> q_head q"
  shows "queue_list q = q_buffer q ! q_tail q # queue_list (q\<lparr>q_tail := (q_tail q + 1) mod QUEUE_CAPACITY\<rparr>)"
    and "queue_inv (q\<lparr>q_tail := (q_tail q + 1) mod QUEUE_CAPACITY\<rparr>)"
proof -
  let ?q = "q\<lparr>q_tail := (q_tail q + 1) mod QUEUE_CAPACITY\<rparr>"
  note inv = assms(1) [unfolded queue_inv_def]
  show inv': "queue_inv ?q" using inv by (simp add: queue_inv_def QUEUE_CAPACITY_def)
  have count: "queue_count q = Suc (queue_count ?q)"
    using inv assms(2) queue_count_cases [OF assms(1)] queue_count_cases [OF inv']
    by (auto simp: QUEUE_CAPACITY_def mod_if split: if_splits)
  have "[0..<queue_count q] = 0 # map Suc [0..<queue_count ?q]"
    by (simp add: count map_Suc_upt upt_conv_Cons del: upt_Suc)
  then show "queue_list q = q_buffer q ! q_tail q # queue_list ?q"
    using inv by (simp add: queue_list_def comp_def mod_Suc_eq mod_add_left_eq)
qed

lemma queue_pop_spec:
  assumes "queue_inv q"
  shows "queue_pop q = (case queue_list q of [] \<Rightarrow> (None, q)
      | b # bs \<Rightarrow> (Some b, q\<lparr>q_tail := (q_tail q + 1) mod QUEUE_CAPACITY\<rparr>))"
  using queue_list_empty [OF assms] queue_take_spec(1) [OF assms]
  by (auto simp: queue_pop_def Let_def split: list.splits)

section \<open>Interleaving\<close>

definition wire_inv :: "wire \<Rightarrow> bool" where
  "wire_inv w \<longleftrightarrow> queue_inv (w_queue w) \<and> w_accepted w = w_taken w @ queue_list (w_queue w) \<and>
     (case w_consumer w of
        Outside \<Rightarrow> True
      | Loaded tail \<Rightarrow> tail = q_tail (w_queue w) \<and> queue_list (w_queue w) \<noteq> []
      | Holding tail byte \<Rightarrow>
          tail = q_tail (w_queue w) \<and> queue_list (w_queue w) \<noteq> [] \<and> byte = hd (queue_list (w_queue w)))"

lemma wire_start_inv: "wire_inv wire_start"
  by (simp add: wire_inv_def wire_start_def queue_inv_def queue_start_def queue_list_def queue_count_def
      QUEUE_CAPACITY_def)

lemma wire_step_inv: "wire_step w w' \<Longrightarrow> wire_inv w \<Longrightarrow> wire_inv w'"
proof (induction rule: wire_step.induct)
  case (push byte w ok q)
  then have inv: "queue_inv (w_queue w)" by (simp add: wire_inv_def)
  note P = queue_push_spec [OF inv push.hyps]
  show ?case using push.prems P(1,2,4) by (auto simp: wire_inv_def split: consumer.splits)
next
  case (load w)
  then show ?case using queue_list_empty by (auto simp: wire_inv_def)
next
  case (read w tail)
  then have "queue_inv (w_queue w)" "tail = q_tail (w_queue w)" "queue_list (w_queue w) \<noteq> []"
    by (simp_all add: wire_inv_def)
  with read.prems queue_take_spec(1) [of "w_queue w"] queue_list_empty [of "w_queue w"]
  show ?case by (simp add: wire_inv_def read.hyps)
next
  case (store w tail byte)
  then have "queue_inv (w_queue w)" "tail = q_tail (w_queue w)" "queue_list (w_queue w) \<noteq> []"
    "byte = hd (queue_list (w_queue w))"
    by (simp_all add: wire_inv_def)
  with store.prems queue_take_spec [of "w_queue w"] queue_list_empty [of "w_queue w"]
  show ?case by (simp add: wire_inv_def)
qed

section \<open>Properties\<close>

text \<open>C26: the queue is a bounded first-in first-out queue under every interleaving of pushes with
  the three steps of a pop: what was accepted is what was taken, in order, followed by what the
  ring holds; it never holds more than 63 bytes; a push is refused exactly when it holds 63; and
  the byte the consumer has read is the oldest one, whatever the handler pushed meanwhile.\<close>

theorem queue_is_fifo:
  assumes "wire_step\<^sup>*\<^sup>* wire_start w"
  shows "w_accepted w = w_taken w @ queue_list (w_queue w) \<and> length (queue_list (w_queue w)) \<le> 63 \<and>
    (fst (queue_push byte (w_queue w)) \<longleftrightarrow> length (queue_list (w_queue w)) < 63) \<and>
    (\<forall>tail b. w_consumer w = Holding tail b \<longrightarrow> (\<exists>bs. queue_list (w_queue w) = b # bs)) \<and>
    fst (queue_pop (w_queue w)) = (case queue_list (w_queue w) of [] \<Rightarrow> None | b # bs \<Rightarrow> Some b)"
proof -
  have inv: "wire_inv w"
    using assms by (induction rule: rtranclp_induct) (auto intro: wire_start_inv wire_step_inv)
  then have q: "queue_inv (w_queue w)" by (simp add: wire_inv_def)
  obtain ok q' where push: "queue_push byte (w_queue w) = (ok, q')" by fastforce
  have "length (queue_list (w_queue w)) \<le> 63"
    using queue_count_lt [of "w_queue w"] by (simp add: QUEUE_CAPACITY_def)
  moreover have "\<exists>bs. queue_list (w_queue w) = b # bs" if "w_consumer w = Holding tail b" for tail b
    using inv that by (cases "queue_list (w_queue w)") (auto simp: wire_inv_def)
  moreover have "fst (queue_pop (w_queue w)) = (case queue_list (w_queue w) of [] \<Rightarrow> None | b # bs \<Rightarrow> Some b)"
    by (simp add: queue_pop_spec [OF q] split: list.splits)
  ultimately show ?thesis
    using inv queue_push_spec(3) [OF q push] push by (auto simp: wire_inv_def)
qed

lemma queue_is_fifo_witness:
  "\<exists>w. wire_step\<^sup>*\<^sup>* wire_start w \<and> w_accepted w = [7] \<and> queue_list (w_queue w) = [7]"
proof -
  obtain ok q where push: "queue_push 7 (w_queue wire_start) = (ok, q)" by fastforce
  have "ok" using push by (simp add: wire_start_def queue_start_def queue_push_def QUEUE_CAPACITY_def split: if_splits)
  then have "wire_step wire_start (wire_start\<lparr>w_queue := q, w_accepted := [7]\<rparr>)"
    using wire_step.push [OF push] by (simp add: wire_start_def)
  then have reach: "wire_step\<^sup>*\<^sup>* wire_start (wire_start\<lparr>w_queue := q, w_accepted := [7]\<rparr>)" by (rule r_into_rtranclp)
  from queue_is_fifo [OF reach, of 0] have "queue_list q = [7]" by (simp add: wire_start_def)
  with reach show ?thesis by (intro exI [of _ "wire_start\<lparr>w_queue := q, w_accepted := [7]\<rparr>"]) simp
qed

end
