(* ===== verification/Text.thy ===== *)
theory Text
  imports Prelude
begin

text \<open>
  The string operations of Rust's standard library the text formats use, over ASCII text as
  character lists: lines, trimming, prefixes, splitting at a space, decimal and hexadecimal
  numbers both ways.
\<close>

section \<open>Lines and spaces\<close>

definition newline :: char where "newline = CHR 0x0A"
definition carriage :: char where "carriage = CHR 0x0D"

text \<open>\<open>char::is_whitespace\<close> on ASCII.\<close>

definition is_space :: "char \<Rightarrow> bool" where
  "is_space c = (c \<in> {CHR 0x20, CHR 0x09, CHR 0x0A, CHR 0x0B, CHR 0x0C, CHR 0x0D})"

definition trim_start :: "string \<Rightarrow> string" where
  "trim_start s = dropWhile is_space s"

definition trim_end :: "string \<Rightarrow> string" where
  "trim_end s = rev (dropWhile is_space (rev s))"

definition trim :: "string \<Rightarrow> string" where
  "trim s = trim_end (trim_start s)"

text \<open>\<open>str::lines\<close>: split after every newline, which goes with one carriage return before it; what
  follows the last newline is a line of its own if it is not empty.\<close>

definition strip_carriage :: "string \<Rightarrow> string" where
  "strip_carriage s = (if s \<noteq> [] \<and> last s = carriage then butlast s else s)"

fun lines_from :: "string \<Rightarrow> string \<Rightarrow> string list" where
  "lines_from cur [] = (if cur = [] then [] else [cur])"
| "lines_from cur (c # cs) =
     (if c = newline then strip_carriage cur # lines_from [] cs else lines_from (cur @ [c]) cs)"

definition text_lines :: "string \<Rightarrow> string list" where
  "text_lines s = lines_from [] s"

fun strip_prefix :: "string \<Rightarrow> string \<Rightarrow> string option" where
  "strip_prefix [] s = Some s"
| "strip_prefix (p # ps) [] = None"
| "strip_prefix (p # ps) (c # cs) = (if p = c then strip_prefix ps cs else None)"

definition starts_with :: "string \<Rightarrow> string \<Rightarrow> bool" where
  "starts_with s p = (strip_prefix p s \<noteq> None)"

text \<open>\<open>split_once\<close> at a character.\<close>

fun split_once :: "char \<Rightarrow> string \<Rightarrow> (string \<times> string) option" where
  "split_once d [] = None"
| "split_once d (c # cs) =
     (if c = d then Some ([], cs)
      else case split_once d cs of None \<Rightarrow> None | Some (a, b) \<Rightarrow> Some (c # a, b))"

text \<open>\<open>s.split(key)\<close>: what follows the first occurrence of the key, and what precedes it.\<close>

fun after_sub :: "string \<Rightarrow> string \<Rightarrow> string option" where
  "after_sub key s =
     (case strip_prefix key s of
        Some r \<Rightarrow> Some r
      | None \<Rightarrow> (case s of [] \<Rightarrow> None | c # cs \<Rightarrow> after_sub key cs))"

fun before_sub :: "string \<Rightarrow> string \<Rightarrow> string" where
  "before_sub key s =
     (case strip_prefix key s of
        Some r \<Rightarrow> []
      | None \<Rightarrow> (case s of [] \<Rightarrow> [] | c # cs \<Rightarrow> c # before_sub key cs))"

declare after_sub.simps [simp del] before_sub.simps [simp del]

section \<open>Numbers\<close>

definition digit_of :: "nat \<Rightarrow> char \<Rightarrow> nat option" where
  "digit_of radix c =
     (let v = of_char c :: nat;
          d = (if 48 \<le> v \<and> v \<le> 57 then v - 48
               else if 97 \<le> v \<and> v \<le> 122 then v - 87
               else if 65 \<le> v \<and> v \<le> 90 then v - 55 else radix)
      in if d < radix then Some d else None)"

text \<open>\<open>from_str_radix\<close> and \<open>parse\<close> for an unsigned type whose largest value is \<open>largest\<close>.\<close>

fun digits_value :: "nat \<Rightarrow> nat \<Rightarrow> nat \<Rightarrow> string \<Rightarrow> nat option" where
  "digits_value radix largest acc [] = Some acc"
| "digits_value radix largest acc (c # cs) =
     (case digit_of radix c of
        None \<Rightarrow> None
      | Some d \<Rightarrow> if acc * radix + d \<le> largest then digits_value radix largest (acc * radix + d) cs else None)"

definition parse_uint :: "nat \<Rightarrow> nat \<Rightarrow> string \<Rightarrow> nat option" where
  "parse_uint radix largest s =
     (let ds = (case s of [] \<Rightarrow> [] | c # cs \<Rightarrow> if c = CHR ''+'' then cs else s) in
      if ds = [] then None else digits_value radix largest 0 ds)"

definition digit_char :: "nat \<Rightarrow> char" where
  "digit_char d = (if d < 10 then char_of (48 + d) else char_of (87 + d))"

function decimal :: "nat \<Rightarrow> string" where
  "decimal n = (if n < 10 then [digit_char n] else decimal (n div 10) @ [digit_char (n mod 10)])"
  by pat_completeness auto
termination by (relation "measure (\<lambda>n. n)") auto

declare decimal.simps [simp del]

text \<open>\<open>{:016x}\<close> of a 64-bit value.\<close>

fun hex_digits :: "nat \<Rightarrow> nat \<Rightarrow> string" where
  "hex_digits 0 n = []"
| "hex_digits (Suc k) n = hex_digits k (n div 16) @ [digit_char (n mod 16)]"

section \<open>Round trips\<close>

lemma digit_of_char [simp]: "d < radix \<Longrightarrow> radix \<le> 16 \<Longrightarrow> digit_of radix (digit_char d) = Some d"
  by (simp add: digit_of_def digit_char_def Let_def)

lemma digits_value_append:
  "digits_value radix largest acc (xs @ ys) =
     (case digits_value radix largest acc xs of None \<Rightarrow> None | Some v \<Rightarrow> digits_value radix largest v ys)"
  by (induction xs arbitrary: acc) (auto split: option.splits)

lemma digits_value_decimal: "n \<le> largest \<Longrightarrow> digits_value 10 largest 0 (decimal n) = Some n"
proof (induction n rule: decimal.induct)
  case (1 n)
  show ?case
  proof (cases "n < 10")
    case True
    then show ?thesis using 1(2) by (simp add: decimal.simps [of n])
  next
    case False
    have "n div 10 \<le> largest" using 1(2) by (meson div_le_dividend order_trans)
    then have "digits_value 10 largest 0 (decimal (n div 10)) = Some (n div 10)" using 1(1) False by simp
    moreover have "n div 10 * 10 + n mod 10 = n" by simp
    ultimately show ?thesis
      using False 1(2) by (simp add: decimal.simps [of n] digits_value_append)
  qed
qed

lemma digits_value_hex: "n < 16 ^ k \<Longrightarrow> n \<le> largest \<Longrightarrow> digits_value 16 largest 0 (hex_digits k n) = Some n"
proof (induction k arbitrary: n)
  case (Suc k)
  have "n div 16 < 16 ^ k" using Suc.prems(1) by (simp add: less_mult_imp_div_less)
  moreover have "n div 16 \<le> largest" using Suc.prems(2) by (meson div_le_dividend order_trans)
  moreover have "n div 16 * 16 + n mod 16 = n" by simp
  ultimately show ?case using Suc by (simp add: digits_value_append)
qed simp

definition is_alnum :: "char \<Rightarrow> bool" where
  "is_alnum c \<longleftrightarrow> (48 \<le> (of_char c :: nat) \<and> (of_char c :: nat) \<le> 57) \<or>
     (97 \<le> (of_char c :: nat) \<and> (of_char c :: nat) \<le> 122)"

lemma digit_char_alnum: "d < 16 \<Longrightarrow> is_alnum (digit_char d)"
  by (simp add: is_alnum_def digit_char_def)

lemma alnum_plain:
  "is_alnum c \<Longrightarrow> \<not> is_space c \<and> c \<noteq> newline \<and> c \<noteq> carriage \<and> c \<noteq> CHR ''+'' \<and> c \<noteq> CHR '' '' \<and> c \<noteq> CHR ''#''"
  by (auto simp: is_alnum_def is_space_def newline_def carriage_def)

lemma decimal_alnum: "decimal n \<noteq> [] \<and> (\<forall>c \<in> set (decimal n). is_alnum c)"
proof (induction n rule: decimal.induct)
  case (1 n)
  show ?case
  proof (cases "n < 10")
    case False
    then show ?thesis using 1 by (simp add: decimal.simps [of n] digit_char_alnum)
  qed (simp add: decimal.simps [of n] digit_char_alnum)
qed

lemma hex_digits_alnum: "length (hex_digits k n) = k \<and> (\<forall>c \<in> set (hex_digits k n). is_alnum c)"
  by (induction k arbitrary: n) (auto simp: digit_char_alnum)

lemma parse_plain:
  assumes "ds \<noteq> []" "\<forall>c \<in> set ds. is_alnum c" "digits_value radix largest 0 ds = Some n"
  shows "parse_uint radix largest ds = Some n"
proof -
  obtain c cs where ds: "ds = c # cs" using assms(1) by (cases ds) auto
  have "c \<noteq> CHR ''+''" using assms(2) alnum_plain [of c] by (simp add: ds)
  then show ?thesis using assms(3) by (simp only: parse_uint_def ds Let_def list.case if_False list.distinct)
qed

lemma parse_decimal: "n \<le> largest \<Longrightarrow> parse_uint 10 largest (decimal n) = Some n"
  using decimal_alnum by (intro parse_plain digits_value_decimal) auto

lemma parse_hex: "0 < k \<Longrightarrow> n < 16 ^ k \<Longrightarrow> n \<le> largest \<Longrightarrow> parse_uint 16 largest (hex_digits k n) = Some n"
  using hex_digits_alnum [of k n] by (intro parse_plain digits_value_hex) auto

lemma lines_from_line:
  "newline \<notin> set s \<Longrightarrow> lines_from cur (s @ newline # rest) = strip_carriage (cur @ s) # lines_from [] rest"
  by (induction s arbitrary: cur) auto

lemma text_lines_line:
  "newline \<notin> set s \<Longrightarrow> text_lines (s @ newline # rest) = strip_carriage s # text_lines rest"
  by (simp add: text_lines_def lines_from_line)

lemma text_lines_Nil [simp]: "text_lines [] = []"
  by (simp add: text_lines_def)

lemma strip_prefix_append [simp]: "strip_prefix p (p @ s) = Some s"
  by (induction p) auto

lemma split_once_append: "d \<notin> set a \<Longrightarrow> split_once d (a @ d # b) = Some (a, b)"
  by (induction a) auto

lemma trim_plain: "s = [] \<or> \<not> is_space (hd s) \<and> \<not> is_space (last s) \<Longrightarrow> trim s = s"
proof (cases s rule: rev_cases)
  case (snoc xs c)
  assume "s = [] \<or> \<not> is_space (hd s) \<and> \<not> is_space (last s)"
  with snoc show ?thesis by (cases xs) (auto simp: trim_def trim_start_def trim_end_def)
qed (simp add: trim_def trim_start_def trim_end_def)

lemma trim_space: "is_space c \<Longrightarrow> trim (c # s) = trim s"
  by (simp add: trim_def trim_start_def)

lemma strip_carriage_plain: "s = [] \<or> \<not> is_space (last s) \<Longrightarrow> strip_carriage s = s"
  by (auto simp: strip_carriage_def carriage_def is_space_def)

end
