(* ===== verification/Trace.thy ===== *)
theory Trace
  imports Text Objtab
begin

text \<open>
  crates/mlos-trace: what a workload asked for, in order, written as text with a header that
  names the model and the count, parsed back into a buffer of the caller's, and recovered from
  a recorded event stream.
\<close>

section \<open>Traces (lib.rs)\<close>

definition TRACE_VERSION :: nat where "TRACE_VERSION = 1"
definition MAGIC :: string where "MAGIC = ''mlos-trace''"

record access =
  ac_session :: session_id
  ac_object :: object_id

record trace_header =
  th_model :: string
  th_source :: string

record trace =
  tr_header :: trace_header
  tr_accesses :: "access list"

section \<open>Writing (write.rs)\<close>

definition access_line :: "access \<Rightarrow> string" where
  "access_line a = decimal (ac_session a) @ '' '' @ hex_digits 16 (unat (ac_object a)) @ [newline]"

definition trace_render :: "trace_header \<Rightarrow> access list \<Rightarrow> string" where
  "trace_render h as =
     MAGIC @ '' '' @ decimal TRACE_VERSION @ [newline] @
     ''model '' @ th_model h @ [newline] @
     ''source '' @ th_source h @ [newline] @
     ''accesses '' @ decimal (length as) @ [newline] @
     concat (map access_line as)"

section \<open>Reading (read.rs)\<close>

datatype trace_error = NotATrace | BadHeader | BadAccess | TooMany | TooFew

definition read_access :: "string \<Rightarrow> trace_error + access" where
  "read_access line =
     (case split_once CHR '' '' (trim line) of
        None \<Rightarrow> Inl BadAccess
      | Some (session, object) \<Rightarrow>
          (case parse_uint 10 (umax 16) session of
             None \<Rightarrow> Inl BadAccess
           | Some s \<Rightarrow>
               (case parse_uint 16 (umax 64) (trim object) of
                  None \<Rightarrow> Inl BadAccess
                | Some i \<Rightarrow> Inr \<lparr>ac_session = s, ac_object = of_nat i\<rparr>)))"

definition header_field :: "string option \<Rightarrow> string \<Rightarrow> trace_error + string" where
  "header_field line key =
     (case line of
        None \<Rightarrow> Inl BadHeader
      | Some l \<Rightarrow> (case strip_prefix key l of None \<Rightarrow> Inl BadHeader | Some v \<Rightarrow> Inr (trim v)))"

text \<open>The header and the lines left after it.\<close>

definition trace_head :: "string list \<Rightarrow> trace_error + (string \<times> string \<times> nat) \<times> string list" where
  "trace_head ls =
     (case ls of
        [] \<Rightarrow> Inl NotATrace
      | magic # ls1 \<Rightarrow>
          (case strip_prefix MAGIC magic of
             None \<Rightarrow> Inl NotATrace
           | Some version \<Rightarrow>
               if parse_uint 10 (umax 32) (trim version) \<noteq> Some TRACE_VERSION then Inl NotATrace
               else (case header_field (nth_opt ls1 0) ''model'' of
                       Inl e \<Rightarrow> Inl e
                     | Inr model \<Rightarrow>
                         (case header_field (nth_opt ls1 1) ''source'' of
                            Inl e \<Rightarrow> Inl e
                          | Inr source \<Rightarrow>
                              (case header_field (nth_opt ls1 2) ''accesses'' of
                                 Inl e \<Rightarrow> Inl e
                               | Inr count \<Rightarrow>
                                   (case parse_uint 10 (umax 64) count of
                                      None \<Rightarrow> Inl BadHeader
                                    | Some n \<Rightarrow> Inr ((model, source, n), drop 3 ls1)))))))"

text \<open>The loop over the lines, given how many the caller's buffer has room for; a line that does
  not parse is reported before a buffer that is full.\<close>

fun fill_accesses :: "(string \<Rightarrow> trace_error + access) \<Rightarrow> nat \<Rightarrow> string list \<Rightarrow> access list \<Rightarrow> trace_error + access list" where
  "fill_accesses one room [] done_so_far = Inr done_so_far"
| "fill_accesses one room (l # ls) done_so_far =
     (case one l of
        Inl e \<Rightarrow> Inl e
      | Inr a \<Rightarrow>
          if length done_so_far < room then fill_accesses one room ls (done_so_far @ [a])
          else Inl TooMany)"

definition trace_parse :: "string \<Rightarrow> nat \<Rightarrow> trace_error + trace" where
  "trace_parse s room =
     (case trace_head (filter (\<lambda>l. \<not> starts_with l ''#'') (text_lines s)) of
        Inl e \<Rightarrow> Inl e
      | Inr ((model, source, count), ls) \<Rightarrow>
          if room < count then Inl TooMany
          else (case fill_accesses read_access room (take count ls) [] of
                  Inl e \<Rightarrow> Inl e
                | Inr as \<Rightarrow>
                    if length as \<noteq> count then Inl TooFew
                    else Inr \<lparr>tr_header = \<lparr>th_model = model, th_source = source\<rparr>, tr_accesses = as\<rparr>))"

section \<open>From events (derive.rs)\<close>

definition contains :: "string \<Rightarrow> string \<Rightarrow> bool" where
  "contains s key = (after_sub key s \<noteq> None)"

definition json_field :: "string \<Rightarrow> string \<Rightarrow> trace_error + nat" where
  "json_field line key =
     (case after_sub key line of
        None \<Rightarrow> Inl BadAccess
      | Some r \<Rightarrow>
          (let value = dropWhile (\<lambda>c. c \<in> {CHR '':'', CHR '' '', CHR 0x22}) (before_sub key r);
               number = takeWhile (\<lambda>c. c \<notin> {CHR 0x22, CHR '','', CHR ''}''}) value
           in case parse_uint 10 (umax 64) (trim number) of
                None \<Rightarrow> Inl BadAccess
              | Some n \<Rightarrow> Inr n))"

definition quoted :: "string \<Rightarrow> string" where
  "quoted s = CHR 0x22 # s @ [CHR 0x22]"

definition ACQUIRES :: "string list" where
  "ACQUIRES = [quoted ''placed'', quoted ''hit'', quoted ''refused'']"

definition event_dropped :: "string \<Rightarrow> trace_error + bool" where
  "event_dropped line =
     (if \<not> contains line (quoted ''dropped'') then Inr False
      else case json_field line (quoted ''bytes'' @ '':'') of
             Inl e \<Rightarrow> Inl e
           | Inr n \<Rightarrow> if n = 0 then Inr True else Inl TooFew)"

definition event_access :: "string \<Rightarrow> trace_error + access" where
  "event_access line =
     (case json_field line (quoted ''session'' @ '':'') of
        Inl e \<Rightarrow> Inl e
      | Inr s \<Rightarrow>
          if umax 16 < s then Inl BadAccess
          else (case json_field line (quoted ''object'' @ '':'') of
                  Inl e \<Rightarrow> Inl e
                | Inr i \<Rightarrow> Inr \<lparr>ac_session = s, ac_object = of_nat i\<rparr>))"

fun derive_lines :: "nat \<Rightarrow> string list \<Rightarrow> access list \<Rightarrow> trace_error + access list" where
  "derive_lines room [] done_so_far = Inr done_so_far"
| "derive_lines room (l # ls) done_so_far =
     (case event_dropped l of
        Inl e \<Rightarrow> Inl e
      | Inr True \<Rightarrow> derive_lines room ls done_so_far
      | Inr False \<Rightarrow>
          if \<not> list_ex (contains l) ACQUIRES then derive_lines room ls done_so_far
          else (case event_access l of
                  Inl e \<Rightarrow> Inl e
                | Inr a \<Rightarrow>
                    if length done_so_far < room then derive_lines room ls (done_so_far @ [a])
                    else Inl TooMany))"

definition trace_from_events :: "string \<Rightarrow> nat \<Rightarrow> trace_error + access list" where
  "trace_from_events s room = derive_lines room (text_lines s) []"

section \<open>Reading back what was written\<close>

definition header_ok :: "string \<Rightarrow> bool" where
  "header_ok s \<longleftrightarrow> newline \<notin> set s \<and> (s = [] \<or> \<not> is_space (hd s) \<and> \<not> is_space (last s))"

lemma alnum_ends:
  assumes "\<forall>c \<in> set s. is_alnum c"
  shows "s = [] \<or> \<not> is_space (hd s) \<and> \<not> is_space (last s)"
  using assms alnum_plain [of "hd s"] alnum_plain [of "last s"] by (cases "s = []") auto

lemma alnum_not_in:
  assumes "\<forall>c \<in> set s. is_alnum c"
  shows "newline \<notin> set s" "CHR '' '' \<notin> set s" "carriage \<notin> set s"
  using assms alnum_plain by blast+

lemma strip_carriage_id: "s = [] \<or> last s \<noteq> carriage \<Longrightarrow> strip_carriage s = s"
  by (auto simp: strip_carriage_def)

lemma header_line:
  assumes "newline \<notin> set s" "s = [] \<or> last s \<noteq> carriage"
  shows "text_lines (s @ newline # rest) = s # text_lines rest"
  using assms by (simp add: text_lines_line strip_carriage_id)

lemma read_access_line:
  assumes "ac_session a \<le> umax 16"
  shows "text_lines (access_line a @ rest) = butlast (access_line a) # text_lines rest"
    and "\<not> starts_with (butlast (access_line a)) ''#''"
    and "read_access (butlast (access_line a)) = Inr a"
proof -
  let ?d = "decimal (ac_session a)" and ?h = "hex_digits 16 (unat (ac_object a))"
  have d: "?d \<noteq> []" "\<forall>c \<in> set ?d. is_alnum c" using decimal_alnum by blast+
  have h: "length ?h = 16" "\<forall>c \<in> set ?h. is_alnum c" using hex_digits_alnum by blast+
  then have h0: "?h \<noteq> []" by auto
  have b: "butlast (access_line a) = ?d @ CHR '' '' # ?h" by (simp add: access_line_def butlast_append)
  have nl: "newline \<notin> set (?d @ CHR '' '' # ?h)"
    using alnum_not_in(1) [OF d(2)] alnum_not_in(1) [OF h(2)] by (simp add: newline_def)
  have last: "last (?d @ CHR '' '' # ?h) \<noteq> carriage"
  proof -
    have "last (?d @ CHR '' '' # ?h) = last ?h" using h0 by simp
    then show ?thesis using last_in_set [OF h0] alnum_not_in(3) [OF h(2)] by metis
  qed
  have eq: "access_line a @ rest = (?d @ CHR '' '' # ?h) @ newline # rest" by (simp add: access_line_def)
  show "text_lines (access_line a @ rest) = butlast (access_line a) # text_lines rest"
    unfolding b eq by (rule header_line) (use nl last in blast)+
  obtain c cs where dc: "?d = c # cs" using d(1) by (cases ?d) auto
  then have "is_alnum c" using d(2) by simp
  then show "\<not> starts_with (butlast (access_line a)) ''#''"
    using alnum_plain [of c] by (auto simp: b dc starts_with_def)
  have "hd ?h \<in> set ?h" "last ?h \<in> set ?h" "hd ?d \<in> set ?d" using h0 d(1) by simp_all
  then have ends: "\<not> is_space (hd ?d)" "\<not> is_space (last ?h)" "\<not> is_space (hd ?h)"
    using d(2) h(2) alnum_plain by blast+
  have t: "trim (?d @ CHR '' '' # ?h) = ?d @ CHR '' '' # ?h"
    by (rule trim_plain) (use ends d(1) h0 in \<open>simp add: last_append\<close>)
  have th: "trim ?h = ?h" using alnum_ends [OF h(2)] by (rule trim_plain)
  have small: "unat (ac_object a) < 16 ^ 16" "unat (ac_object a) \<le> umax 64"
    using unsigned_less [of "ac_object a", where ?'a = nat] by simp_all
  show "read_access (butlast (access_line a)) = Inr a"
    using split_once_append [OF alnum_not_in(2) [OF d(2)], of ?h] parse_decimal [OF assms]
      parse_hex [of 16, OF _ small]
    by (simp add: read_access_def b t th)
qed

lemma text_lines_accesses:
  assumes "\<forall>a \<in> set as. ac_session a \<le> umax 16"
  shows "text_lines (concat (map access_line as)) = map (\<lambda>a. butlast (access_line a)) as"
  using assms by (induction as) (simp_all add: read_access_line(1))

lemma fill_accesses_all:
  assumes "\<forall>a \<in> set as. one (f a) = Inr a" "length acc + length as \<le> room"
  shows "fill_accesses one room (map f as) acc = Inr (acc @ as)"
  using assms by (induction as arbitrary: acc) auto

lemma trace_head_ok:
  assumes "strip_prefix MAGIC l0 = Some v" "parse_uint 10 (umax 32) (trim v) = Some TRACE_VERSION"
    "header_field (Some l1) ''model'' = Inr m" "header_field (Some l2) ''source'' = Inr src"
    "header_field (Some l3) ''accesses'' = Inr c" "parse_uint 10 (umax 64) c = Some n"
  shows "trace_head (l0 # l1 # l2 # l3 # ls) = Inr ((m, src, n), ls)"
  using assms by (simp add: trace_head_def nth_opt_def)

section \<open>Properties\<close>

lemma parse_render:
  assumes "header_ok (th_model h)" "header_ok (th_source h)" "\<forall>a \<in> set as. ac_session a \<le> umax 16"
    and "length as \<le> umax 64"
  shows "trace_parse (trace_render h as) room =
    (if length as \<le> room then Inr \<lparr>tr_header = h, tr_accesses = as\<rparr> else Inl TooMany)"
proof -
  let ?n = "decimal (length as)" and ?v = "decimal TRACE_VERSION"
  have n: "\<forall>c \<in> set ?n. is_alnum c" "?n \<noteq> []" and v: "\<forall>c \<in> set ?v. is_alnum c" "?v \<noteq> []"
    using decimal_alnum by blast+
  have spc: "newline \<noteq> CHR '' ''" "carriage \<noteq> CHR '' ''" by (simp_all add: newline_def carriage_def)
  have hd: "newline \<notin> set s \<and> (s = [] \<or> last s \<noteq> carriage)" if "header_ok s" for s
    using that by (auto simp: header_ok_def carriage_def is_space_def)
  have field: "text_lines ((key @ '' '' @ s) @ newline # rest) = (key @ '' '' @ s) # text_lines rest"
    if "newline \<notin> set key" "newline \<notin> set s" "s = [] \<or> last s \<noteq> carriage" for key s rest
    by (rule header_line) (use that spc in \<open>auto simp: last_append\<close>)
  have keys: "newline \<notin> set MAGIC" "newline \<notin> set ''model''" "newline \<notin> set ''source''" "newline \<notin> set ''accesses''"
    by (simp_all add: MAGIC_def newline_def)
  have num: "newline \<notin> set ?n" "?n = [] \<or> last ?n \<noteq> carriage" "newline \<notin> set ?v" "?v = [] \<or> last ?v \<noteq> carriage"
    using alnum_not_in [OF n(1)] alnum_not_in [OF v(1)] n(2) v(2) by (auto dest: last_in_set)
  have "trace_render h as = (MAGIC @ '' '' @ ?v) @ newline # (''model'' @ '' '' @ th_model h) @ newline #
      (''source'' @ '' '' @ th_source h) @ newline # (''accesses'' @ '' '' @ ?n) @ newline # concat (map access_line as)"
    by (simp add: trace_render_def)
  then have lines: "text_lines (trace_render h as) = [MAGIC @ '' '' @ ?v, ''model'' @ '' '' @ th_model h,
      ''source'' @ '' '' @ th_source h, ''accesses'' @ '' '' @ ?n] @ map (\<lambda>a. butlast (access_line a)) as"
    (is "_ = ?head @ ?rest")
    using field [OF keys(1) num(3,4)] field [OF keys(2), of "th_model h"] field [OF keys(3), of "th_source h"]
      field [OF keys(4) num(1,2)] hd [OF assms(1)] hd [OF assms(2)] text_lines_accesses [OF assms(3)]
    by (simp only: append.simps append_assoc) simp
  have acc: "filter (\<lambda>l. \<not> starts_with l ''#'') (map (\<lambda>a. butlast (access_line a)) as) =
      map (\<lambda>a. butlast (access_line a)) as"
    using assms(3) read_access_line(2) by (auto simp: filter_id_conv)
  have tv: "trim ('' '' @ s) = s" if "s = [] \<or> \<not> is_space (hd s) \<and> \<not> is_space (last s)" for s
    using trim_plain [OF that] by (simp add: trim_space is_space_def)
  have pv: "parse_uint 10 (umax 32) (trim ('' '' @ ?v)) = Some TRACE_VERSION"
    unfolding tv [OF alnum_ends [OF v(1)]] by (rule parse_decimal) (simp add: TRACE_VERSION_def)
  have hf: "header_field (Some (key @ '' '' @ s)) key = Inr s"
    if "s = [] \<or> \<not> is_space (hd s) \<and> \<not> is_space (last s)" for key s
    unfolding header_field_def by (simp only: option.case strip_prefix_append tv [OF that])
  have pn: "parse_uint 10 (umax 64) ?n = Some (length as)" by (rule parse_decimal [OF assms(4)])
  have head: "trace_head ((MAGIC @ '' '' @ ?v) # (''model'' @ '' '' @ th_model h) #
      (''source'' @ '' '' @ th_source h) # (''accesses'' @ '' '' @ ?n) # ls) =
      Inr ((th_model h, th_source h, length as), ls)" for ls
    by (rule trace_head_ok [OF strip_prefix_append pv hf hf hf pn])
      (use assms(1,2) alnum_ends [OF n(1)] in \<open>simp_all add: header_ok_def\<close>)
  have start: "\<not> starts_with (MAGIC @ s) ''#''" "\<not> starts_with (''model'' @ s) ''#''"
    "\<not> starts_with (''source'' @ s) ''#''" "\<not> starts_with (''accesses'' @ s) ''#''" for s
    by (simp_all add: starts_with_def MAGIC_def)
  have "fill_accesses read_access room (map (\<lambda>a. butlast (access_line a)) as) [] = Inr as" if "length as \<le> room"
    using fill_accesses_all [of as read_access "\<lambda>a. butlast (access_line a)" "[]" room] that
      assms(3) read_access_line(3) by simp
  moreover have "filter (\<lambda>l. \<not> starts_with l ''#'') ?head = ?head"
    using start by (simp only: filter.simps if_True simp_thms)
  ultimately show ?thesis
    unfolding trace_parse_def lines filter_append acc using head [of ?rest] by (simp del: append_assoc)
qed

text \<open>C38: a trace written and parsed back is the same header and the same accesses in the same
  order, whenever the caller's buffer has room for them, for every header whose fields have no
  newline and no space at either end; with less room the parser says so.\<close>

theorem trace_roundtrip:
  assumes "header_ok (th_model h)" "header_ok (th_source h)" "\<forall>a \<in> set as. ac_session a \<le> umax 16"
    and "length as \<le> umax 64"
  shows "trace_parse (trace_render h as) room =
    (if length as \<le> room then Inr \<lparr>tr_header = h, tr_accesses = as\<rparr> else Inl TooMany)"
  by (rule parse_render [OF assms])

lemma trace_roundtrip_witness:
  "trace_parse (trace_render \<lparr>th_model = ''synth-8x16'', th_source = ''lab''\<rparr> [\<lparr>ac_session = 1, ac_object = 7\<rparr>]) 4 =
     Inr \<lparr>tr_header = \<lparr>th_model = ''synth-8x16'', th_source = ''lab''\<rparr>,
          tr_accesses = [\<lparr>ac_session = 1, ac_object = 7\<rparr>]\<rparr>"
  using trace_roundtrip [of "\<lparr>th_model = ''synth-8x16'', th_source = ''lab''\<rparr>" "[\<lparr>ac_session = 1, ac_object = 7\<rparr>]" 4]
  by (simp add: header_ok_def newline_def is_space_def)

end
