(* ===== verification/Sched.thy ===== *)
theory Sched
  imports Trace "HOL-Library.Product_Lexorder" "HOL-Library.Multiset"
begin

text \<open>
  crates/mlos-sched: whose turn it is. A schedule sees the position, the wait and the next object
  of every session and names the one to serve next; the lanes hold a cursor for each session's
  stream, and merging runs a schedule over the lanes until nobody is left. The locale states
  what a schedule owes the merge; both schedules of the crate are instances.
\<close>

section \<open>What a schedule sees (lib.rs)\<close>

record at =
  at_token :: nat
  at_index :: nat
  at_waited :: nat
  at_ceiling :: nat

record waiting =
  wt_sessions :: nat
  wt_at :: "nat \<Rightarrow> at option"
  wt_next_of :: "nat \<Rightarrow> object_id option"

text \<open>A schedule is its state and what \<open>pick\<close> answers and leaves.\<close>

type_synonym 's schedule = "'s \<Rightarrow> waiting \<Rightarrow> nat option \<times> 's"

section \<open>Process-major (process.rs)\<close>

record process_major =
  pm_current :: nat
  pm_started :: bool

definition process_major_default :: process_major where
  "process_major_default = \<lparr>pm_current = 0, pm_started = False\<rparr>"

definition process_pick :: "process_major schedule" where
  "process_pick st w =
     (let count = wt_sessions w;
          go = (case wt_at w (pm_current st) of
                  None \<Rightarrow> False | Some a \<Rightarrow> at_index a \<noteq> 0 \<or> \<not> pm_started st)
      in if go then (Some (pm_current st), st\<lparr>pm_started := True\<rparr>)
         else case List.find (\<lambda>s. wt_at w s \<noteq> None)
                     (map (\<lambda>step. (pm_current st + step) mod max count 1) [1..<count + 1]) of
                None \<Rightarrow> (None, st)
              | Some s \<Rightarrow> (Some s, \<lparr>pm_current = s, pm_started = True\<rparr>))"

section \<open>Parameter-major (parameter.rs)\<close>

definition is_overdue :: "at \<Rightarrow> bool" where
  "is_overdue a = (at_ceiling a \<noteq> 0 \<and> at_ceiling a \<le> at_waited a)"

definition overdue :: "waiting \<Rightarrow> nat option" where
  "overdue w =
     List.find (\<lambda>s. case wt_at w s of None \<Rightarrow> False | Some a \<Rightarrow> is_overdue a) [0..<wt_sessions w]"

definition shared :: "waiting \<Rightarrow> nat \<Rightarrow> nat" where
  "shared w session =
     (case wt_next_of w session of
        None \<Rightarrow> 0
      | Some object \<Rightarrow> length (filter (\<lambda>t. wt_next_of w t = Some object) [0..<wt_sessions w]))"

text \<open>\<open>Iterator::min_by_key\<close> keeps the first of equal minima.\<close>

fun min_by_key :: "('a \<Rightarrow> 'k::linorder) \<Rightarrow> 'a list \<Rightarrow> 'a option" where
  "min_by_key key [] = None"
| "min_by_key key (x # xs) = Some (foldl (\<lambda>best y. if key y < key best then y else best) x xs)"

definition turn_key :: "waiting \<Rightarrow> nat \<times> at \<Rightarrow> nat \<times> nat \<times> nat \<times> nat" where
  "turn_key w = (\<lambda>(s, a). (at_token a, at_index a, umax 64 - shared w s, s))"

definition parameter_pick :: "unit schedule" where
  "parameter_pick st w =
     (case overdue w of
        Some late \<Rightarrow> (Some late, st)
      | None \<Rightarrow>
          (map_option fst
             (min_by_key (turn_key w)
               (List.map_filter (\<lambda>s. map_option (\<lambda>a. (s, a)) (wt_at w s)) [0..<wt_sessions w])), st))"

section \<open>Lanes (lanes.rs)\<close>

record lane =
  ln_session :: session_id
  ln_ceiling :: nat
  ln_tokens :: "object_id list list"

record lanes =
  la_lanes :: "lane list"
  la_cursors :: "(nat \<times> nat) list"
  la_due :: "nat list"
  la_clock :: nat

definition lanes_over :: "lane list \<Rightarrow> lanes" where
  "lanes_over ls =
     \<lparr>la_lanes = ls, la_cursors = replicate (length ls) (0, 0), la_due = replicate (length ls) 0,
      la_clock = 0\<rparr>"

definition lanes_at :: "lanes \<Rightarrow> nat \<Rightarrow> at option" where
  "lanes_at L s =
     (case nth_opt (la_cursors L) s of
        None \<Rightarrow> None
      | Some (token, index) \<Rightarrow>
          (case nth_opt (la_lanes L) s of
             None \<Rightarrow> None
           | Some l \<Rightarrow>
               if token < length (ln_tokens l)
               then Some \<lparr>at_token = token, at_index = index,
                          at_waited = wrap_sub 32 (wrap_sub 32 (la_clock L) (la_due L ! s)) index,
                          at_ceiling = ln_ceiling l\<rparr>
               else None))"

definition lanes_next_of :: "lanes \<Rightarrow> nat \<Rightarrow> object_id option" where
  "lanes_next_of L s =
     (case lanes_at L s of
        None \<Rightarrow> None
      | Some a \<Rightarrow>
          (case nth_opt (ln_tokens (la_lanes L ! s)) (at_token a) of
             None \<Rightarrow> None
           | Some token \<Rightarrow> nth_opt token (at_index a)))"

definition lanes_view :: "lanes \<Rightarrow> waiting" where
  "lanes_view L =
     \<lparr>wt_sessions = length (la_lanes L), wt_at = lanes_at L, wt_next_of = lanes_next_of L\<rparr>"

definition lanes_advance :: "nat \<Rightarrow> lanes \<Rightarrow> nat option \<times> lanes" where
  "lanes_advance s L =
     (let clock = wrap 32 (la_clock L + 1);
          token = fst (la_cursors L ! s); index = snd (la_cursors L ! s);
          ended = wrap 32 (length (ln_tokens (la_lanes L ! s) ! token)) \<le> wrap 32 (index + 1);
          L1 = L\<lparr>la_clock := clock,
                 la_cursors := (la_cursors L)[s := if ended then (wrap 32 (token + 1), 0)
                                                  else (token, wrap 32 (index + 1))]\<rparr>
      in if \<not> ended then (None, L1)
         else (Some (wrap_sub 32 clock (la_due L ! s)), L1\<lparr>la_due := (la_due L)[s := clock]\<rparr>))"

section \<open>Merging (merge.rs)\<close>

text \<open>The loop runs until the schedule names nobody or a session with nothing next; \<open>None\<close> is a
  loop that never ends.\<close>

partial_function (option) merge_loop ::
  "'s schedule \<Rightarrow> 's \<Rightarrow> lanes \<Rightarrow> access list \<Rightarrow> nat list \<Rightarrow> (access list \<times> nat list) option" where
  "merge_loop pick st L out worst =
     (let p = pick st (lanes_view L) in
      case fst p of
        None \<Rightarrow> Some (out, worst)
      | Some s \<Rightarrow>
          (case lanes_next_of L s of
             None \<Rightarrow> Some (out, worst)
           | Some object \<Rightarrow>
               (let a = lanes_advance s L;
                    out' = out @ [\<lparr>ac_session = ln_session (la_lanes L ! s), ac_object = object\<rparr>]
                in merge_loop pick (snd p) (snd a) out'
                     (case fst a of
                        None \<Rightarrow> worst
                      | Some period \<Rightarrow> worst[s := max (worst ! s) period]))))"

definition merge_timed :: "'s schedule \<Rightarrow> 's \<Rightarrow> lane list \<Rightarrow> (access list \<times> nat list) option" where
  "merge_timed pick st ls = merge_loop pick st (lanes_over ls) [] (replicate (length ls) 0)"

definition merge_lanes :: "'s schedule \<Rightarrow> 's \<Rightarrow> lane list \<Rightarrow> access list option" where
  "merge_lanes pick st ls = map_option fst (merge_timed pick st ls)"

section \<open>What a schedule owes the merge\<close>

definition live_at :: "waiting \<Rightarrow> nat \<Rightarrow> bool" where
  "live_at w s \<longleftrightarrow> wt_at w s \<noteq> None"

definition well_seen :: "waiting \<Rightarrow> bool" where
  "well_seen w \<longleftrightarrow> (\<forall>s. live_at w s \<longrightarrow> s < wt_sessions w)"

text \<open>What is left of a lane's stream past its cursor.\<close>

definition lane_rest :: "lanes \<Rightarrow> nat \<Rightarrow> object_id list" where
  "lane_rest L s = drop (snd (la_cursors L ! s)) (concat (drop (fst (la_cursors L ! s)) (ln_tokens (la_lanes L ! s))))"

definition lane_ok :: "lane \<Rightarrow> bool" where
  "lane_ok l \<longleftrightarrow> length (ln_tokens l) < 2 ^ 32 \<and> (\<forall>t \<in> set (ln_tokens l). t \<noteq> [] \<and> length t < 2 ^ 32)"

definition lanes_ok :: "lanes \<Rightarrow> bool" where
  "lanes_ok L \<longleftrightarrow>
     length (la_cursors L) = length (la_lanes L) \<and> length (la_due L) = length (la_lanes L) \<and>
     (\<forall>l \<in> set (la_lanes L). lane_ok l) \<and>
     (\<forall>s < length (la_lanes L). \<forall>token index. la_cursors L ! s = (token, index) \<longrightarrow>
        (if token < length (ln_tokens (la_lanes L ! s)) then index < length (ln_tokens (la_lanes L ! s) ! token)
         else token = length (ln_tokens (la_lanes L ! s)) \<and> index = 0))"

lemma concat_drop_nth: "t < length ts \<Longrightarrow> concat (drop t ts) = ts ! t @ concat (drop (Suc t) ts)"
  by (metis Cons_nth_drop_Suc concat.simps(2))

lemma lanes_at_live:
  assumes "lanes_ok L"
  shows "lanes_at L s \<noteq> None \<longleftrightarrow> s < length (la_lanes L) \<and> lane_rest L s \<noteq> []"
proof (cases "s < length (la_lanes L)")
  case True
  obtain token index where c: "la_cursors L ! s = (token, index)" by fastforce
  let ?ts = "ln_tokens (la_lanes L ! s)"
  have len: "length (la_cursors L) = length (la_lanes L)" using assms by (simp add: lanes_ok_def)
  have at: "lanes_at L s \<noteq> None \<longleftrightarrow> token < length ?ts"
    using True len by (simp add: lanes_at_def nth_opt_def c)
  have "lane_rest L s \<noteq> [] \<longleftrightarrow> token < length ?ts"
  proof (cases "token < length ?ts")
    case t: True
    then have "index < length (?ts ! token)" using assms True c unfolding lanes_ok_def by metis
    with t show ?thesis by (simp add: lane_rest_def c concat_drop_nth)
  next
    case False
    then show ?thesis by (simp add: lane_rest_def c)
  qed
  with at True show ?thesis by simp
next
  case False
  then show ?thesis by (auto simp: lanes_at_def nth_opt_def split: option.splits)
qed

lemma lanes_view_seen: "lanes_ok L \<Longrightarrow> well_seen (lanes_view L)"
  using lanes_at_live by (auto simp: well_seen_def live_at_def lanes_view_def)

lemma advance_rest:
  assumes ok: "lanes_ok L" and s: "s < length (la_lanes L)" "lane_rest L s \<noteq> []"
  shows "lanes_next_of L s = Some (hd (lane_rest L s))"
    and "lanes_ok (snd (lanes_advance s L))"
    and "la_lanes (snd (lanes_advance s L)) = la_lanes L"
    and "lane_rest (snd (lanes_advance s L)) k = (if k = s then tl (lane_rest L s) else lane_rest L k)"
proof -
  obtain token index where c: "la_cursors L ! s = (token, index)" by fastforce
  let ?ts = "ln_tokens (la_lanes L ! s)"
  have len: "length (la_cursors L) = length (la_lanes L)" using ok by (simp add: lanes_ok_def)
  have t: "token < length ?ts" using s(2) by (auto simp: lane_rest_def c not_le intro: ccontr)
  have i: "index < length (?ts ! token)" using ok s(1) t c unfolding lanes_ok_def by metis
  have lok: "lane_ok (la_lanes L ! s)" using ok s(1) by (simp add: lanes_ok_def)
  have small: "length ?ts < 2 ^ 32" "length (?ts ! token) < 2 ^ 32"
    using lok t by (auto simp: lane_ok_def)
  have rest: "lane_rest L s = drop index (?ts ! token) @ concat (drop (Suc token) ?ts)"
    using t i by (simp add: lane_rest_def c concat_drop_nth)
  show "lanes_next_of L s = Some (hd (lane_rest L s))"
    using t i s(1) len by (simp add: lanes_next_of_def lanes_at_def nth_opt_def c rest hd_drop_conv_nth)
  have w: "wrap 32 (length (?ts ! token)) = length (?ts ! token)" "wrap 32 (Suc index) = Suc index"
    "wrap 32 (Suc token) = Suc token"
    using small i t by (simp_all add: wrap_exact)
  define c' where "c' = (if length (?ts ! token) \<le> index + 1 then (token + 1, 0) else (token, index + 1))"
  have adv: "la_cursors (snd (lanes_advance s L)) = (la_cursors L)[s := c']"
    "la_lanes (snd (lanes_advance s L)) = la_lanes L"
    "length (la_due (snd (lanes_advance s L))) = length (la_due L)"
    using c by (simp_all add: lanes_advance_def Let_def w c'_def)
  show "la_lanes (snd (lanes_advance s L)) = la_lanes L" by (rule adv(2))
  have nonempty: "?ts ! Suc token \<noteq> []" if "Suc token < length ?ts"
    using lok that by (auto simp: lane_ok_def)
  have new: "if fst c' < length ?ts then snd c' < length (?ts ! fst c')
      else fst c' = length ?ts \<and> snd c' = 0"
    using t i nonempty by (auto simp: c'_def)
  show "lanes_ok (snd (lanes_advance s L))"
    unfolding lanes_ok_def adv
  proof (intro conjI allI impI)
    fix k token' index' assume k: "k < length (la_lanes L)" "(la_cursors L)[s := c'] ! k = (token', index')"
    show "if token' < length (ln_tokens (la_lanes L ! k)) then index' < length (ln_tokens (la_lanes L ! k) ! token')
        else token' = length (ln_tokens (la_lanes L ! k)) \<and> index' = 0"
    proof (cases "k = s")
      case True
      then show ?thesis using k new len by (metis fst_conv nth_list_update_eq snd_conv)
    next
      case False
      then show ?thesis using k ok unfolding lanes_ok_def by (metis nth_list_update_neq)
    qed
  qed (use ok in \<open>auto simp: lanes_ok_def\<close>)
  have tail: "drop (snd c') (concat (drop (fst c') ?ts)) = tl (lane_rest L s)"
  proof (cases "length (?ts ! token) \<le> index + 1")
    case True
    then have "drop index (?ts ! token) = [?ts ! token ! index]"
      using i by (metis Suc_eq_plus1 Cons_nth_drop_Suc drop_all)
    then show ?thesis using True by (simp add: c'_def rest)
  next
    case False
    then show ?thesis using t i by (simp add: c'_def rest concat_drop_nth tl_append2 drop_Suc tl_drop)
  qed
  show "lane_rest (snd (lanes_advance s L)) k = (if k = s then tl (lane_rest L s) else lane_rest L k)"
    using tail s(1) len by (simp add: lane_rest_def adv)
qed

text \<open>A schedule names a live session as long as there is one. Everything the merge promises
  follows from that.\<close>

locale scheduler =
  fixes pick :: "'s schedule"
  assumes pick_live: "well_seen w \<Longrightarrow> fst (pick st w) = Some s \<Longrightarrow> live_at w s"
    and pick_none: "fst (pick st w) = None \<Longrightarrow> s < wt_sessions w \<Longrightarrow> \<not> live_at w s"
begin

lemma pick_exists: "live_at w s \<Longrightarrow> s < wt_sessions w \<Longrightarrow> fst (pick st w) \<noteq> None"
  using pick_none by blast

lemma merge_serves:
  "lanes_ok L \<Longrightarrow> distinct (map ln_session (la_lanes L)) \<Longrightarrow>
   \<exists>more worst'. merge_loop pick st L out worst = Some (out @ more, worst') \<and>
     (\<forall>k < length (la_lanes L).
        map ac_object (filter (\<lambda>a. ac_session a = ln_session (la_lanes L ! k)) more) = lane_rest L k) \<and>
     length more = (\<Sum>k < length (la_lanes L). length (lane_rest L k))"
proof (induction "\<Sum>k < length (la_lanes L). length (lane_rest L k)" arbitrary: L st out worst rule: less_induct)
  case less
  let ?n = "length (la_lanes L)"
  note seen = lanes_view_seen [OF less.prems(1)]
  show ?case
  proof (cases "fst (pick st (lanes_view L))")
    case None
    then have "lane_rest L k = []" if "k < ?n" for k
      using pick_none [OF None, of k] that lanes_at_live [OF less.prems(1), of k]
      by (simp add: live_at_def lanes_view_def)
    then show ?thesis
      using None by (subst merge_loop.simps) (simp add: Let_def)
  next
    case (Some s)
    have "live_at (lanes_view L) s" by (rule pick_live [OF seen Some])
    then have s: "s < ?n" "lane_rest L s \<noteq> []"
      using lanes_at_live [OF less.prems(1), of s] by (simp_all add: live_at_def lanes_view_def)
    note A = advance_rest [OF less.prems(1) s]
    let ?L = "snd (lanes_advance s L)"
    let ?a = "\<lparr>ac_session = ln_session (la_lanes L ! s), ac_object = hd (lane_rest L s)\<rparr>"
    have step: "(\<Sum>k < ?n. length (lane_rest L k)) = Suc (\<Sum>k < ?n. length (lane_rest ?L k))"
    proof -
      have "(\<Sum>k < ?n. length (lane_rest L k)) = length (lane_rest L s) + (\<Sum>k \<in> {..<?n} - {s}. length (lane_rest L k))"
        using s(1) by (simp add: sum.remove)
      moreover have "(\<Sum>k < ?n. length (lane_rest ?L k)) = length (lane_rest L s) - 1 + (\<Sum>k \<in> {..<?n} - {s}. length (lane_rest L k))"
        using s(1) by (subst sum.remove [of _ s]) (simp_all add: A(4))
      ultimately show ?thesis using s(2) by (cases "lane_rest L s") simp_all
    qed
    define worst1 where "worst1 = (case fst (lanes_advance s L) of None \<Rightarrow> worst
        | Some period \<Rightarrow> worst[s := max (worst ! s) period])"
    have run: "merge_loop pick st L out worst =
        merge_loop pick (snd (pick st (lanes_view L))) ?L (out @ [?a]) worst1"
      using Some A(1) unfolding worst1_def by (subst merge_loop.simps) (simp add: Let_def)
    have "(\<Sum>k < length (la_lanes ?L). length (lane_rest ?L k)) < (\<Sum>k < ?n. length (lane_rest L k))"
      using step by (simp add: A(3))
    from less.hyps [OF this A(2), of "snd (pick st (lanes_view L))" "out @ [?a]" worst1] less.prems(2)
    obtain more worst' where more: "merge_loop pick st L out worst = Some (out @ ?a # more, worst')"
      "\<And>k. k < ?n \<Longrightarrow> map ac_object (filter (\<lambda>a. ac_session a = ln_session (la_lanes L ! k)) more) = lane_rest ?L k"
      "length more = (\<Sum>k < ?n. length (lane_rest ?L k))"
      by (auto simp: A(3) run)
    have "map ac_object (filter (\<lambda>a. ac_session a = ln_session (la_lanes L ! k)) (?a # more)) = lane_rest L k"
      if k: "k < ?n" for k
    proof -
      have "ln_session (la_lanes L ! s) = ln_session (la_lanes L ! k) \<longleftrightarrow> k = s"
        using less.prems(2) k s(1) by (auto simp: distinct_conv_nth)
      then show ?thesis using more(2) [OF k] A(4) [of k] s(2) by auto
    qed
    then show ?thesis using more(1,3) step by (intro exI [of _ "?a # more"]) simp
  qed
qed

end

lemma lanes_over_ok: "\<forall>l \<in> set ls. lane_ok l \<Longrightarrow> lanes_ok (lanes_over ls)"
proof -
  assume ok: "\<forall>l \<in> set ls. lane_ok l"
  have "ln_tokens (ls ! s) ! 0 \<noteq> []" if "s < length ls" "ln_tokens (ls ! s) \<noteq> []" for s
  proof -
    have "ln_tokens (ls ! s) ! 0 \<in> set (ln_tokens (ls ! s))" using that(2) by simp
    then show ?thesis using ok that(1) unfolding lane_ok_def by (metis nth_mem)
  qed
  with ok show ?thesis by (simp add: lanes_ok_def lanes_over_def)
qed

lemma lanes_over_rest: "k < length ls \<Longrightarrow> lane_rest (lanes_over ls) k = concat (ln_tokens (ls ! k))"
  by (simp add: lane_rest_def lanes_over_def)

lemma find_Some: "List.find P xs = Some x \<Longrightarrow> x \<in> set xs \<and> P x"
  by (auto simp: find_Some_iff in_set_conv_nth)

lemma mod_reaches:
  assumes "s < (n :: nat)"
  shows "\<exists>step. 1 \<le> step \<and> step \<le> n \<and> (c + step) mod n = s"
proof -
  have n: "0 < n" using assms by simp
  define step where "step = (if c mod n < s then s - c mod n else n + s - c mod n)"
  have b: "c mod n < n" using n by simp
  have "(c mod n + step) mod n = s"
  proof (cases "c mod n < s")
    case True
    then show ?thesis using assms by (simp add: step_def)
  next
    case False
    then have "c mod n + step = n + s" using b by (simp add: step_def)
    then show ?thesis using assms by simp
  qed
  moreover have "1 \<le> step" "step \<le> n"
    using b assms unfolding step_def by (cases "c mod n < s"; simp; linarith)+
  ultimately show ?thesis by (metis mod_add_left_eq)
qed

interpretation process: scheduler process_pick
proof
  fix w st s
  show "live_at w s" if seen: "well_seen w" and pick: "fst (process_pick st w) = Some s"
    using pick find_Some [of "\<lambda>s. wt_at w s \<noteq> None" _ s]
    by (auto simp: process_pick_def Let_def live_at_def split: if_splits option.splits)
  show "\<not> live_at w s" if none: "fst (process_pick st w) = None" and s: "s < wt_sessions w"
  proof -
    from none have "List.find (\<lambda>s. wt_at w s \<noteq> None)
        (map (\<lambda>step. (pm_current st + step) mod max (wt_sessions w) 1) [1..<wt_sessions w + 1]) = None"
      by (auto simp: process_pick_def Let_def split: if_splits option.splits)
    then have all: "\<forall>step \<in> {1..<wt_sessions w + 1}. wt_at w ((pm_current st + step) mod max (wt_sessions w) 1) = None"
      unfolding find_None_iff by (simp only: set_map set_upt) blast
    from mod_reaches [OF s, of "pm_current st"] obtain step
      where "1 \<le> step" "step \<le> wt_sessions w" "(pm_current st + step) mod wt_sessions w = s" by blast
    moreover have "max (wt_sessions w) 1 = wt_sessions w" using s by simp
    ultimately have "wt_at w s = None" using all by (metis atLeastLessThan_iff less_add_one order_le_less_trans)
    then show ?thesis by (simp add: live_at_def)
  qed
qed

lemma min_by_key_Some:
  "min_by_key key xs = Some x \<Longrightarrow> x \<in> set xs \<and> (\<forall>y \<in> set xs. key x \<le> key y)"
proof -
  have "foldl (\<lambda>best y. if key y < key best then y else best) a ys \<in> set (a # ys) \<and>
      (\<forall>y \<in> set (a # ys). key (foldl (\<lambda>best y. if key y < key best then y else best) a ys) \<le> key y)"
    for a and ys :: "'a list"
  proof (induction ys arbitrary: a)
    case (Cons y ys)
    show ?case using Cons [of y] Cons [of a] by (auto simp: not_less intro: order_trans less_imp_le)
  qed simp
  then show "min_by_key key xs = Some x \<Longrightarrow> ?thesis" by (cases xs) auto
qed

lemma min_by_key_None [simp]: "min_by_key key xs = None \<longleftrightarrow> xs = []"
  by (cases xs) simp_all

lemma live_list: "(s, a) \<in> set (List.map_filter (\<lambda>s. map_option (\<lambda>a. (s, a)) (wt_at w s)) [0..<wt_sessions w]) \<longleftrightarrow>
    s < wt_sessions w \<and> wt_at w s = Some a"
  by (force simp: List.map_filter_def)

lemma overdue_Some: "overdue w = Some s \<Longrightarrow> s < wt_sessions w \<and> (\<exists>a. wt_at w s = Some a \<and> is_overdue a)"
  by (auto simp: overdue_def dest!: find_Some split: option.splits)

interpretation parameter: scheduler parameter_pick
proof
  fix w st s
  show "live_at w s" if "well_seen w" and pick: "fst (parameter_pick st w) = Some s"
  proof (cases "overdue w")
    case None
    with pick obtain a where "min_by_key (turn_key w)
        (List.map_filter (\<lambda>s. map_option (\<lambda>a. (s, a)) (wt_at w s)) [0..<wt_sessions w]) = Some (s, a)"
      by (auto simp: parameter_pick_def)
    from min_by_key_Some [OF this] show ?thesis by (auto simp: live_list live_at_def)
  next
    case (Some t)
    with pick overdue_Some [OF Some] show ?thesis by (auto simp: parameter_pick_def live_at_def)
  qed
  show "\<not> live_at w s" if none: "fst (parameter_pick st w) = None" and s: "s < wt_sessions w"
  proof -
    have "List.map_filter (\<lambda>s. map_option (\<lambda>a. (s, a)) (wt_at w s)) [0..<wt_sessions w] = []"
      using none by (auto simp: parameter_pick_def split: option.splits)
    then show ?thesis using live_list [of s _ w] s by (auto simp: live_at_def)
  qed
qed

section \<open>Properties\<close>

lemma merge_served:
  assumes "scheduler pick" "\<forall>l \<in> set ls. lane_ok l" "distinct (map ln_session ls)"
  shows "\<exists>out worst. merge_timed pick st ls = Some (out, worst) \<and>
    (\<forall>k < length ls. map ac_object (filter (\<lambda>a. ac_session a = ln_session (ls ! k)) out) =
       concat (ln_tokens (ls ! k))) \<and>
    length out = (\<Sum>k < length ls. length (concat (ln_tokens (ls ! k))))"
proof -
  have L: "la_lanes (lanes_over ls) = ls" by (simp add: lanes_over_def)
  from scheduler.merge_serves [OF assms(1) lanes_over_ok [OF assms(2)], unfolded L, OF assms(3),
      of st "[]" "replicate (length ls) 0"]
  show ?thesis unfolding merge_timed_def by (auto simp: lanes_over_rest simp del: length_concat)
qed

lemma stuck_at_empty:
  "merge_timed parameter_pick () [\<lparr>ln_session = 1, ln_ceiling = 0, ln_tokens = [[], [7]]\<rparr>] = Some ([], [0])"
  unfolding merge_timed_def
  by (subst merge_loop.simps)
    (simp add: lanes_over_def lanes_view_def parameter_pick_def overdue_def lanes_at_def nth_opt_def
      is_overdue_def List.map_filter_def lanes_next_of_def Let_def)

text \<open>C23: merging ends under either schedule, whatever state it starts in, and serves every
  access of every session exactly once, in the order of its own stream, when no token is empty.
  An empty token ends the merge where it stands: what follows it, and every other session's
  stream, is dropped.\<close>

theorem merge_serves_everyone:
  assumes "\<forall>l \<in> set ls. lane_ok l" "distinct (map ln_session ls)"
  shows "(\<exists>out worst. merge_timed parameter_pick () ls = Some (out, worst) \<and>
      (\<forall>k < length ls. map ac_object (filter (\<lambda>a. ac_session a = ln_session (ls ! k)) out) =
         concat (ln_tokens (ls ! k))) \<and>
      length out = (\<Sum>k < length ls. length (concat (ln_tokens (ls ! k))))) \<and>
    (\<exists>out worst. merge_timed process_pick st ls = Some (out, worst) \<and>
      (\<forall>k < length ls. map ac_object (filter (\<lambda>a. ac_session a = ln_session (ls ! k)) out) =
         concat (ln_tokens (ls ! k))) \<and>
      length out = (\<Sum>k < length ls. length (concat (ln_tokens (ls ! k))))) \<and>
    merge_timed parameter_pick () [\<lparr>ln_session = 1, ln_ceiling = 0, ln_tokens = [[], [7]]\<rparr>] = Some ([], [0])"
  using merge_served [OF parameter.scheduler_axioms assms, of "()"]
    merge_served [OF process.scheduler_axioms assms, of st] stuck_at_empty by blast

lemma merge_serves_everyone_witness:
  "\<exists>out worst. merge_timed process_pick process_major_default
      [\<lparr>ln_session = 1, ln_ceiling = 0, ln_tokens = [[7, 8], [9]]\<rparr>,
       \<lparr>ln_session = 2, ln_ceiling = 0, ln_tokens = [[7]]\<rparr>] = Some (out, worst) \<and> length out = 4"
  using merge_serves_everyone [of "[\<lparr>ln_session = 1, ln_ceiling = 0, ln_tokens = [[7, 8], [9]]\<rparr>,
       \<lparr>ln_session = 2, ln_ceiling = 0, ln_tokens = [[7]]\<rparr>]" process_major_default]
  by (auto simp: lane_ok_def)

text \<open>Whom parameter-major serves. A session that has waited its ceiling out comes first, the
  lowest such. Otherwise it is a live session on the lowest token, the furthest behind in it;
  among those, one whose next object the most sessions want, and of these the lowest.\<close>

theorem parameter_major_turn:
  assumes "wt_sessions w < 2 ^ 64" "fst (parameter_pick st w) = Some s"
  shows "\<exists>a. wt_at w s = Some a \<and>
    (is_overdue a \<and> (\<forall>t b. t < s \<longrightarrow> wt_at w t = Some b \<longrightarrow> \<not> is_overdue b) \<or>
     (\<forall>t b. t < wt_sessions w \<longrightarrow> wt_at w t = Some b \<longrightarrow> \<not> is_overdue b \<and>
        (at_token a < at_token b \<or> at_token a = at_token b \<and>
          (at_index a < at_index b \<or> at_index a = at_index b \<and>
            (shared w t < shared w s \<or> shared w t = shared w s \<and> s \<le> t)))))"
proof (cases "overdue w")
  case (Some late)
  then have "late = s" using assms(2) by (simp add: parameter_pick_def)
  with Some overdue_Some [OF Some] show ?thesis
    by (fastforce simp: overdue_def find_Some_iff)
next
  case None
  let ?xs = "List.map_filter (\<lambda>s. map_option (\<lambda>a. (s, a)) (wt_at w s)) [0..<wt_sessions w]"
  from None assms(2) obtain a where min: "min_by_key (turn_key w) ?xs = Some (s, a)"
    by (auto simp: parameter_pick_def)
  note M = min_by_key_Some [OF min]
  have s: "wt_at w s = Some a" using M live_list by blast
  have few: "shared w t \<le> umax 64" for t
  proof -
    have "shared w t \<le> wt_sessions w"
      unfolding shared_def by (auto split: option.splits intro: order_trans [OF length_filter_le])
    then show ?thesis using assms(1) by simp
  qed
  have "\<not> is_overdue b \<and>
        (at_token a < at_token b \<or> at_token a = at_token b \<and>
          (at_index a < at_index b \<or> at_index a = at_index b \<and>
            (shared w t < shared w s \<or> shared w t = shared w s \<and> s \<le> t)))"
    if t: "t < wt_sessions w" "wt_at w t = Some b" for t b
  proof -
    have "\<not> is_overdue b" using None t by (auto simp: overdue_def find_None_iff)
    moreover have "turn_key w (s, a) \<le> turn_key w (t, b)" using M live_list [of t b w] t by blast
    ultimately show ?thesis using few [of s] few [of t] by (auto simp: turn_key_def)
  qed
  with s show ?thesis by blast
qed

lemma parameter_major_turn_witness:
  "\<exists>a. wt_at (lanes_view (lanes_over [\<lparr>ln_session = 1, ln_ceiling = 0, ln_tokens = [[7, 8]]\<rparr>])) 0 = Some a"
proof -
  let ?w = "lanes_view (lanes_over [\<lparr>ln_session = 1, ln_ceiling = 0, ln_tokens = [[7, 8]]\<rparr>])"
  have "fst (parameter_pick () ?w) = Some 0"
    by (simp add: lanes_over_def lanes_view_def parameter_pick_def overdue_def lanes_at_def nth_opt_def
        is_overdue_def List.map_filter_def)
  moreover have "wt_sessions ?w < 2 ^ 64" by (simp add: lanes_view_def lanes_over_def)
  ultimately show ?thesis using parameter_major_turn [of ?w "()" 0] by blast
qed

text \<open>Whom process-major serves. A session in the middle of a token, or just chosen, goes on;
  at the end of a token the turn passes round to the first session after it that is still live.\<close>

theorem process_major_turn:
  assumes "fst (process_pick st w) = Some s"
  shows "pm_current (snd (process_pick st w)) = s \<and> pm_started (snd (process_pick st w)) \<and>
    (if \<exists>a. wt_at w (pm_current st) = Some a \<and> (at_index a \<noteq> 0 \<or> \<not> pm_started st)
     then s = pm_current st
     else wt_at w s \<noteq> None \<and> (\<exists>k. 1 \<le> k \<and> k \<le> wt_sessions w \<and> s = (pm_current st + k) mod wt_sessions w \<and>
       (\<forall>j. 1 \<le> j \<and> j < k \<longrightarrow> wt_at w ((pm_current st + j) mod wt_sessions w) = None)))"
proof (cases "\<exists>a. wt_at w (pm_current st) = Some a \<and> (at_index a \<noteq> 0 \<or> \<not> pm_started st)")
  case True
  then show ?thesis using assms by (auto simp: process_pick_def Let_def)
next
  case False
  then have go: "(case wt_at w (pm_current st) of None \<Rightarrow> False | Some a \<Rightarrow> at_index a \<noteq> 0 \<or> \<not> pm_started st) = False"
    by (auto split: option.splits)
  let ?ys = "map (\<lambda>step. (pm_current st + step) mod max (wt_sessions w) 1) [1..<wt_sessions w + 1]"
  have pp: "process_pick st w = (case List.find (\<lambda>s. wt_at w s \<noteq> None) ?ys of
      None \<Rightarrow> (None, st) | Some s \<Rightarrow> (Some s, \<lparr>pm_current = s, pm_started = True\<rparr>))"
    unfolding process_pick_def Let_def go by (rule if_False)
  obtain s' where f': "List.find (\<lambda>s. wt_at w s \<noteq> None) ?ys = Some s'"
    using assms unfolding pp by (cases "List.find (\<lambda>s. wt_at w s \<noteq> None) ?ys") (simp_all only: option.case fst_conv option.distinct)
  with assms have "s' = s" unfolding pp by (simp only: option.case fst_conv option.inject)
  with f' have f: "List.find (\<lambda>s. wt_at w s \<noteq> None) ?ys = Some s" by simp
  then have post: "snd (process_pick st w) = \<lparr>pm_current = s, pm_started = True\<rparr>"
    unfolding pp by (simp only: option.case snd_conv)
  from f obtain i where i: "i < length ?ys" "wt_at w (?ys ! i) \<noteq> None" "s = ?ys ! i"
    "\<forall>j < i. wt_at w (?ys ! j) = None" by (auto simp: find_Some_iff)
  have m: "max (wt_sessions w) 1 = wt_sessions w" using i(1) by (simp del: upt_Suc)
  have nth: "?ys ! j = (pm_current st + (j + 1)) mod wt_sessions w" if "j < length ?ys" for j
    using that m by (simp del: upt_Suc)
  have "wt_at w ((pm_current st + j) mod wt_sessions w) = None" if "1 \<le> j" "j < i + 1" for j
  proof -
    have "wt_at w (?ys ! (j - 1)) = None" using i(4) that by simp
    then show ?thesis using nth [of "j - 1"] i(1) that by simp
  qed
  moreover have "s = (pm_current st + (i + 1)) mod wt_sessions w" using nth i(1,3) by simp
  moreover have "i + 1 \<le> wt_sessions w" using i(1) by (simp del: upt_Suc)
  moreover have "wt_at w s \<noteq> None" using i(2,3) by simp
  ultimately have "wt_at w s \<noteq> None \<and> (\<exists>k. 1 \<le> k \<and> k \<le> wt_sessions w \<and> s = (pm_current st + k) mod wt_sessions w \<and>
       (\<forall>j. 1 \<le> j \<and> j < k \<longrightarrow> wt_at w ((pm_current st + j) mod wt_sessions w) = None))"
    by (intro conjI exI [of _ "i + 1"]) (assumption | simp)+
  with False post show ?thesis by auto
qed

lemma process_major_turn_witness:
  "wt_at (lanes_view (lanes_over [\<lparr>ln_session = 1, ln_ceiling = 0, ln_tokens = [[7, 8]]\<rparr>])) 0 \<noteq> None"
proof -
  let ?w = "lanes_view (lanes_over [\<lparr>ln_session = 1, ln_ceiling = 0, ln_tokens = [[7, 8]]\<rparr>])"
  let ?st = "\<lparr>pm_current = 0, pm_started = True\<rparr>"
  have at: "wt_at ?w 0 = Some \<lparr>at_token = 0, at_index = 0, at_waited = 0, at_ceiling = 0\<rparr>"
    by (simp add: lanes_view_def lanes_over_def lanes_at_def nth_opt_def wrap_sub_def)
  have "fst (process_pick ?st ?w) = Some 0"
    by (simp add: process_pick_def Let_def at) (simp add: lanes_view_def lanes_over_def lanes_at_def nth_opt_def)
  from process_major_turn [OF this] at show ?thesis by simp
qed

end
