(* ===== verification/Spaces.thy ===== *)
theory Spaces
  imports Text Objtab
begin

text \<open>
  crates/mlos-spaces: the words and the region ids both layout documents use. A region id packs
  space, class, layer, tensor and tile into 31 bits; an object that does not fit is refused, so
  no two objects share an id and no structural region takes an object's.
\<close>

unbundle bit_operations_syntax

section \<open>Spaces (lib.rs)\<close>

datatype space = SpaceDisk | SpaceDram | SpaceSysram

fun space_u32 :: "space \<Rightarrow> u32" where
  "space_u32 SpaceDisk = 1"
| "space_u32 SpaceDram = 2"
| "space_u32 SpaceSysram = 3"

fun space_key :: "space \<Rightarrow> string" where
  "space_key SpaceDisk = ''disk''"
| "space_key SpaceDram = ''dram''"
| "space_key SpaceSysram = ''sysram''"

text \<open>The \<open>n\<close>th id the iterator of structural ids yields.\<close>

definition structural_id :: "space \<Rightarrow> nat \<Rightarrow> u32" where
  "structural_id w n = push_bit 28 (space_u32 w) + of_nat n"

section \<open>Region ids (ids.rs)\<close>

definition region_object :: "space \<Rightarrow> object_id \<Rightarrow> u32 option" where
  "region_object place i =
     (case object_class_of i of
        None \<Rightarrow> None
      | Some c \<Rightarrow>
          (let f = object_fields i in
           if f_model f \<noteq> 1 \<or> 0xff < f_layer f \<or> 0xff < f_tensor f then None
           else Some (push_bit 28 (space_u32 place) OR push_bit 24 (ucast (class_u8 c))
                  OR push_bit 16 (ucast (f_layer f)) OR push_bit 8 (ucast (f_tensor f))
                  OR ucast (f_tile f))))"

section \<open>Words (vocab.rs)\<close>

fun class_kind :: "object_class \<Rightarrow> string" where
  "class_kind WeightTile = ''weight-tile''"
| "class_kind Scale = ''scale''"
| "class_kind Expert = ''expert''"
| "class_kind KvBlock = ''kv-block''"
| "class_kind Activation = ''activation''"
| "class_kind EmbedBlock = ''embed-block''"
| "class_kind RagBlock = ''rag-block''"
| "class_kind Adapter = ''adapter''"

fun tier_name :: "tier \<Rightarrow> string" where
  "tier_name Hot = ''hot''"
| "tier_name Warm = ''warm''"
| "tier_name Cold = ''cold''"
| "tier_name Stream = ''stream''"
| "tier_name Archive = ''archive''"

definition state_name :: "object_meta \<Rightarrow> string" where
  "state_name m =
     (if m_resident_at m = 0 then (if m_reuse_count m = 0 then ''never'' else ''evicted'')
      else ''resident'')"

fun next_use_text :: "next_use \<Rightarrow> string" where
  "next_use_text Never = ''never''"
| "next_use_text (At tick) = ''at '' @ decimal tick"
| "next_use_text (Probability chance) = ''probability '' @ decimal chance"

section \<open>Ids are apart\<close>

definition packed :: "4 word \<Rightarrow> 4 word \<Rightarrow> u8 \<Rightarrow> u8 \<Rightarrow> u8 \<Rightarrow> u32" where
  "packed p c l t u = push_bit 28 (ucast p) OR push_bit 24 (ucast c) OR push_bit 16 (ucast l)
     OR push_bit 8 (ucast t) OR ucast u"

lemma packed_slices:
  "ucast (drop_bit 28 (packed p c l t u)) = p"
  "ucast (drop_bit 24 (packed p c l t u)) = c"
  "ucast (drop_bit 16 (packed p c l t u)) = l"
  "ucast (drop_bit 8 (packed p c l t u)) = t"
  "ucast (packed p c l t u) = u"
  unfolding packed_def
  by (rule bit_word_eqI; auto simp: bit_simps dest: bit_imp_le_length)+

lemma packed_inject:
  "packed p c l t u = packed p' c' l' t' u' \<longleftrightarrow> p = p' \<and> c = c' \<and> l = l' \<and> t = t' \<and> u = u'"
  by (metis packed_slices)

lemma narrow_u16:
  assumes "\<not> 0xff < (x :: u16)"
  shows "ucast x = (ucast (ucast x :: u8) :: u32)"
proof -
  have "unat x \<le> unat (0xff :: u16)" using assms by (simp only: word_le_nat_alt not_less)
  then have x: "unat x < 256" by simp
  have "unat (ucast (ucast x :: u8) :: u32) = unat x"
    using x by (simp add: unat_mod_distrib unsigned_ucast_eq take_bit_eq_mod)
  moreover have "unat (ucast x :: u32) = unat x"
    using x by (simp only: unsigned_ucast_eq) (simp add: take_bit_eq_mod)
  ultimately show ?thesis by (simp add: word_unat_eq_iff)
qed

lemma narrow_eq:
  assumes "\<not> 0xff < (x :: u16)" "\<not> 0xff < y" "(ucast x :: u8) = ucast y"
  shows "x = y"
proof -
  have "(ucast x :: u32) = ucast y" using assms by (simp add: narrow_u16)
  then have "unat (ucast x :: u32) = unat (ucast y :: u32)" by simp
  then have "unat x = unat y"
    using unsigned_less [of x, where ?'a = nat] unsigned_less [of y, where ?'a = nat]
    by (simp add: unsigned_ucast_eq take_bit_eq_mod)
  then show ?thesis by (simp add: word_unat_eq_iff)
qed

fun space_nibble :: "space \<Rightarrow> 4 word" where
  "space_nibble SpaceDisk = 1" | "space_nibble SpaceDram = 2" | "space_nibble SpaceSysram = 3"

lemma space_nibble: "ucast (space_nibble w) = space_u32 w" "space_nibble w = space_nibble w' \<longleftrightarrow> w = w'"
  by (cases w; simp) (cases w; cases w'; simp)

fun class_nibble :: "object_class \<Rightarrow> 4 word" where
  "class_nibble WeightTile = 1" | "class_nibble Scale = 2" | "class_nibble Expert = 3"
| "class_nibble KvBlock = 4" | "class_nibble Activation = 5" | "class_nibble EmbedBlock = 6"
| "class_nibble RagBlock = 7" | "class_nibble Adapter = 8"

lemma class_nibble: "ucast (class_nibble c) = (ucast (class_u8 c) :: u32)" "class_nibble c = class_nibble d \<longleftrightarrow> c = d"
  by (cases c; simp) (cases c; cases d; simp)

lemma region_packed:
  "region_object w i = Some r \<longleftrightarrow>
     (\<exists>c. object_class_of i = Some c \<and> f_model (object_fields i) = 1 \<and>
        \<not> 0xff < f_layer (object_fields i) \<and> \<not> 0xff < f_tensor (object_fields i) \<and>
        r = packed (space_nibble w) (class_nibble c) (ucast (f_layer (object_fields i)))
              (ucast (f_tensor (object_fields i))) (f_tile (object_fields i)))"
proof (cases "object_class_of i")
  case (Some c)
  have "push_bit 16 (ucast (f_layer (object_fields i))) = push_bit 16 (ucast (ucast (f_layer (object_fields i)) :: u8) :: u32)"
    if "\<not> 0xff < f_layer (object_fields i)" using narrow_u16 [OF that] by simp
  moreover have "push_bit 8 (ucast (f_tensor (object_fields i))) = push_bit 8 (ucast (ucast (f_tensor (object_fields i)) :: u8) :: u32)"
    if "\<not> 0xff < f_tensor (object_fields i)" using narrow_u16 [OF that] by simp
  ultimately show ?thesis
    using Some by (auto simp: region_object_def packed_def space_nibble(1) class_nibble(1) Let_def)
qed (simp add: region_object_def)

lemma object_id_fields:
  assumes "object_class_of i = Some c" "object_class_of j = Some c" "object_fields i = object_fields j"
  shows "i = j"
proof -
  have slices: "ucast (drop_bit CLASS_SHIFT i) = (ucast (drop_bit CLASS_SHIFT j) :: u8)"
    "ucast (drop_bit MODEL_SHIFT i) = (ucast (drop_bit MODEL_SHIFT j) :: u16)"
    "ucast (drop_bit LAYER_SHIFT i) = (ucast (drop_bit LAYER_SHIFT j) :: u16)"
    "ucast (drop_bit TENSOR_SHIFT i) = (ucast (drop_bit TENSOR_SHIFT j) :: u16)"
    "ucast i = (ucast j :: u8)"
    using assms by (auto simp: object_class_of_def object_fields_def class_from_u8_Some)
  show ?thesis
  proof (rule bit_word_eqI)
    fix n assume n: "n < LENGTH(64)"
    have b: "bit (ucast (drop_bit s i) :: 'a::len word) k = bit (ucast (drop_bit s j) :: 'a word) k"
      if "(ucast (drop_bit s i) :: 'a word) = ucast (drop_bit s j)" for s k using that by simp
    consider "56 \<le> n" | "40 \<le> n" "n < 56" | "24 \<le> n" "n < 40" | "8 \<le> n" "n < 24" | "n < 8" by linarith
    then show "bit i n = bit j n"
    proof cases
      case 1
      have "bit (ucast (drop_bit CLASS_SHIFT i) :: u8) (n - 56) = bit (ucast (drop_bit CLASS_SHIFT j) :: u8) (n - 56)"
        using slices(1) by simp
      then show ?thesis using 1 n by (simp add: bit_simps shift_defs less_diff_conv2)
    next
      case 2
      have "bit (ucast (drop_bit MODEL_SHIFT i) :: u16) (n - 40) = bit (ucast (drop_bit MODEL_SHIFT j) :: u16) (n - 40)"
        using slices(2) by simp
      then show ?thesis using 2 n by (simp add: bit_simps shift_defs less_diff_conv2)
    next
      case 3
      have "bit (ucast (drop_bit LAYER_SHIFT i) :: u16) (n - 24) = bit (ucast (drop_bit LAYER_SHIFT j) :: u16) (n - 24)"
        using slices(3) by simp
      then show ?thesis using 3 n by (simp add: bit_simps shift_defs less_diff_conv2)
    next
      case 4
      have "bit (ucast (drop_bit TENSOR_SHIFT i) :: u16) (n - 8) = bit (ucast (drop_bit TENSOR_SHIFT j) :: u16) (n - 8)"
        using slices(4) by simp
      then show ?thesis using 4 n by (simp add: bit_simps shift_defs less_diff_conv2)
    next
      case 5
      have "bit (ucast i :: u8) n = bit (ucast j :: u8) n" using slices(5) by simp
      then show ?thesis using 5 by (simp add: bit_simps)
    qed
  qed
qed

lemma region_ids_inject:
  assumes "region_object w i = Some r" "region_object v j = Some r"
  shows "v = w \<and> j = i"
proof -
  obtain c where c: "object_class_of i = Some c" "f_model (object_fields i) = 1"
    "\<not> 0xff < f_layer (object_fields i)" "\<not> 0xff < f_tensor (object_fields i)"
    and r: "r = packed (space_nibble w) (class_nibble c) (ucast (f_layer (object_fields i)))
              (ucast (f_tensor (object_fields i))) (f_tile (object_fields i))"
    using assms(1) unfolding region_packed by blast
  obtain d where d: "object_class_of j = Some d" "f_model (object_fields j) = 1"
    "\<not> 0xff < f_layer (object_fields j)" "\<not> 0xff < f_tensor (object_fields j)"
    and r': "r = packed (space_nibble v) (class_nibble d) (ucast (f_layer (object_fields j)))
              (ucast (f_tensor (object_fields j))) (f_tile (object_fields j))"
    using assms(2) unfolding region_packed by blast
  from r r' have e: "v = w" "d = c" "f_tile (object_fields j) = f_tile (object_fields i)"
    "(ucast (f_layer (object_fields j)) :: u8) = ucast (f_layer (object_fields i))"
    "(ucast (f_tensor (object_fields j)) :: u8) = ucast (f_tensor (object_fields i))"
    by (simp_all add: packed_inject space_nibble(2) class_nibble(2))
  have "object_fields j = object_fields i"
    using e c d narrow_eq by (intro fields.equality) auto
  then show ?thesis using e c d object_id_fields [of j c i] by simp
qed

lemma region_id_31: "region_object w i = Some r \<Longrightarrow> \<not> bit r 31"
proof -
  assume "region_object w i = Some r"
  then obtain c l t u where r: "r = packed (space_nibble w) c l t u" unfolding region_packed by blast
  have "bit (ucast (drop_bit 28 r) :: 4 word) 3 = bit (space_nibble w) 3" by (simp add: r packed_slices(1))
  moreover have "\<not> bit (space_nibble w) 3" by (cases w) (simp_all add: bit_simps)
  ultimately show ?thesis by (simp add: bit_simps)
qed

lemma structural_not_object:
  assumes "region_object w i = Some r" and n: "n < 2 ^ 24"
  shows "structural_id v n \<noteq> r"
proof
  assume e: "structural_id v n = r"
  obtain c l t u where r: "r = packed (space_nibble w) (class_nibble c) l t u"
    using assms(1) unfolding region_packed by blast
  have "unat (word_of_nat n :: u32) = n" using n by (simp add: unat_of_nat)
  then obtain k where "unat (structural_id v n) = 16777216 * (16 * k) + n"
    using n by (cases v)
      (fastforce simp: structural_id_def unat_word_ariths intro: that [of 1] that [of 2] that [of 3])+
  then have "unat (structural_id v n) div 16777216 = 16 * k" using n by simp
  then have "unat (drop_bit 24 (structural_id v n)) mod 16 = 0"
    by (simp add: unat_drop_bit_eq drop_bit_eq_div unat_div_distrib)
  moreover have "unat (drop_bit 24 r) mod 16 = unat (class_nibble c)"
  proof -
    have "unat (ucast (drop_bit 24 r) :: 4 word) = unat (class_nibble c)" by (simp add: r packed_slices(2))
    then show ?thesis by (simp add: unsigned_ucast_eq take_bit_eq_mod)
  qed
  moreover have "unat (class_nibble c) \<noteq> 0" by (cases c) simp_all
  ultimately show False using e by simp
qed

section \<open>Properties\<close>

text \<open>A region id names one object in one space: two objects that have ids in two spaces have
  the same id only if both space and object are the same. An object's id fits 31 bits, and the
  structural ids of a space, as long as fewer than 2^24 are issued, are no object's.\<close>

theorem region_ids_unique:
  assumes "region_object w i = Some r"
  shows "(\<forall>v j. region_object v j = Some r \<longrightarrow> v = w \<and> j = i) \<and> \<not> bit r 31 \<and>
    (\<forall>v n. n < 2 ^ 24 \<longrightarrow> structural_id v n \<noteq> r)"
  using region_ids_inject [OF assms] region_id_31 [OF assms] structural_not_object [OF assms] by blast

lemma region_ids_unique_witness:
  "region_object SpaceDisk (object_new WeightTile \<lparr>f_model = 1, f_layer = 2, f_tensor = 3, f_tile = 0\<rparr>) \<noteq>
   region_object SpaceDram (object_new WeightTile \<lparr>f_model = 1, f_layer = 2, f_tensor = 3, f_tile = 0\<rparr>)"
proof -
  let ?i = "object_new WeightTile \<lparr>f_model = 1, f_layer = 2, f_tensor = 3, f_tile = 0\<rparr>"
  have c: "object_class_of ?i = Some WeightTile" by (rule object_class_of_new)
  have f: "object_fields ?i = \<lparr>f_model = 1, f_layer = 2, f_tensor = 3, f_tile = 0\<rparr>"
    by (simp only: object_fields_def object_new_slices fields.simps)
  have "\<exists>r. region_object SpaceDram ?i = Some r"
    unfolding region_object_def c f by simp
  then obtain r where r: "region_object SpaceDram ?i = Some r" by blast
  with region_ids_unique [OF this] show ?thesis unfolding r by fastforce
qed

end
