(* ===== verification/Sim.thy ===== *)
theory Sim
  imports Trace DeclStream Policy Arena Session Metrics
begin

text \<open>
  crates/mlos-sim: a trace replayed against a policy under a byte budget. The resident set is a
  vector the policy scans, with a hash map of positions beside it, over the kernel's own arena;
  the future is the kernel's chain over the whole trace. A panic of the source (an index out of
  range, an \<open>expect\<close>) is the value \<open>None\<close>, so that a theorem that a replay returns says it does
  not panic.
\<close>

section \<open>Foresight (foresight.rs)\<close>

definition foresight_read :: "access list \<Rightarrow> nat list option" where
  "foresight_read as =
     (let objects = map ac_object as in
      case chain objects (replicate (length objects) NEVER) (length objects) of
        (Inl e, next) \<Rightarrow> None
      | (Inr _, next) \<Rightarrow> Some next)"

definition foresight_after :: "nat list \<Rightarrow> nat \<Rightarrow> nat option" where
  "foresight_after next tick =
     (case checked_sub tick 1 of
        None \<Rightarrow> None
      | Some k \<Rightarrow>
          (case nth_opt next k of
             None \<Rightarrow> None
           | Some p \<Rightarrow> if p = NEVER then None else Some p))"

definition wanted_at :: "nat list \<Rightarrow> nat \<Rightarrow> next_use" where
  "wanted_at next tick =
     (case foresight_after next tick of Some p \<Rightarrow> At (wrap 32 (p + 1)) | None \<Rightarrow> Never)"

section \<open>The resident set (resident.rs, view.rs)\<close>

record resident =
  re_held :: "(object_id \<times> object_meta) list"
  re_index :: "object_id \<Rightarrow> nat option"
  re_arena :: arena
  re_cursor :: nat

definition resident_new :: "arena \<Rightarrow> resident" where
  "resident_new a = \<lparr>re_held = [], re_index = Map.empty, re_arena = a, re_cursor = 0\<rparr>"

definition touched_meta :: "nat \<Rightarrow> next_use \<Rightarrow> object_meta \<Rightarrow> object_meta" where
  "touched_meta now next m =
     m\<lparr>m_used_tick := now, m_reuse_count := sat_add 16 (m_reuse_count m) 1, m_next_use := next\<rparr>"

definition resident_touch :: "object_id \<Rightarrow> nat \<Rightarrow> next_use \<Rightarrow> resident \<Rightarrow> bool \<times> resident" where
  "resident_touch i now next r =
     (let r' = r\<lparr>re_cursor := now\<rparr> in
      case re_index r i of
        None \<Rightarrow> (False, r')
      | Some k \<Rightarrow>
          (case nth_opt (re_held r) k of
             None \<Rightarrow> (False, r')
           | Some (j, m) \<Rightarrow> (True, r'\<lparr>re_held := (re_held r)[k := (j, touched_meta now next m)]\<rparr>)))"

definition inserted_meta :: "nat \<Rightarrow> nat \<Rightarrow> next_use \<Rightarrow> object_meta \<Rightarrow> object_meta" where
  "inserted_meta address now next m =
     m\<lparr>m_resident_at := address, m_placed_tick := now, m_used_tick := now, m_next_use := next,
       m_reuse_count := sat_add 16 (m_reuse_count m) 1\<rparr>"

definition resident_insert ::
  "object_id \<Rightarrow> object_meta \<Rightarrow> nat \<Rightarrow> next_use \<Rightarrow> resident \<Rightarrow> unit res \<times> resident" where
  "resident_insert i m now next r =
     (case arena_place (m_size m) (re_arena r) of
        (Inl e, a) \<Rightarrow> (Inl e, r\<lparr>re_cursor := now, re_arena := a\<rparr>)
      | (Inr (address, _, _), a) \<Rightarrow>
          (Inr (),
           r\<lparr>re_cursor := now, re_arena := a,
             re_index := (re_index r)(i \<mapsto> length (re_held r)),
             re_held := re_held r @ [(i, inserted_meta address now next m)]\<rparr>))"

definition swap_remove :: "nat \<Rightarrow> 'a list \<Rightarrow> 'a list" where
  "swap_remove k xs = butlast (xs[k := last xs])"

text \<open>\<open>self.held[at]\<close> panics when the map names a position the vector does not have.\<close>

definition resident_remove :: "object_id \<Rightarrow> resident \<Rightarrow> (nat res \<times> resident) option" where
  "resident_remove i r =
     (case re_index r i of
        None \<Rightarrow> Some (Inl BadObject, r)
      | Some k \<Rightarrow>
          (case nth_opt (re_held r) k of
             None \<Rightarrow> None
           | Some (_, m) \<Rightarrow>
               (case arena_release (m_resident_at m) (m_size m) (re_arena r) of
                  (Inl e, a) \<Rightarrow> Some (Inl e, r\<lparr>re_arena := a\<rparr>)
                | (Inr _, a) \<Rightarrow>
                    (let held = swap_remove k (re_held r);
                         index = (re_index r)(i := None) in
                     Some (Inr (m_size m),
                           r\<lparr>re_arena := a, re_held := held,
                             re_index := (case nth_opt held k of
                                            None \<Rightarrow> index
                                          | Some (moved, _) \<Rightarrow> index(moved \<mapsto> k))\<rparr>)))))"

definition held_of :: "object_class \<Rightarrow> resident \<Rightarrow> nat" where
  "held_of c r =
     sum_list (map (\<lambda>(_, m). m_size m) (filter (\<lambda>(i, _). object_class_of i = Some c) (re_held r)))"

definition resident_view :: "resident \<Rightarrow> residency" where
  "resident_view r =
     \<lparr>rs_len = length (re_held r), rs_at = nth_opt (re_held r), rs_now = re_cursor r\<rparr>"

section \<open>What a replay counts (outcome.rs)\<close>

record outcome =
  ou_hits :: nat
  ou_reads :: nat
  ou_bytes :: nat
  ou_evicted :: nat
  ou_refused :: nat
  ou_cost :: nat
  ou_mismatched :: nat
  ou_sessions :: nat
  ou_weights_applied :: nat
  ou_weights_read :: nat
  ou_kv_resident :: nat

definition outcome_default :: outcome where
  "outcome_default =
     \<lparr>ou_hits = 0, ou_reads = 0, ou_bytes = 0, ou_evicted = 0, ou_refused = 0, ou_cost = 0,
      ou_mismatched = 0, ou_sessions = 0, ou_weights_applied = 0, ou_weights_read = 0,
      ou_kv_resident = 0\<rparr>"

text \<open>\<open>+=\<close> on a \<open>u64\<close>.\<close>

definition add_u64 :: "nat \<Rightarrow> nat \<Rightarrow> nat" where
  "add_u64 a b = wrap 64 (a + b)"

definition hit_per_mille :: "outcome \<Rightarrow> nat" where
  "hit_per_mille out =
     (let asked = add_u64 (add_u64 (ou_hits out) (ou_reads out)) (ou_refused out) in
      if asked = 0 then 0 else wrap 64 (ou_hits out * 1000) div asked)"

definition outcome_headline :: "outcome \<Rightarrow> nat \<Rightarrow> headline" where
  "outcome_headline out budget =
     (let sessions = (if umax 32 < ou_sessions out then umax 32 else ou_sessions out) in
      headline_of (ou_weights_applied out) (ou_weights_read out) (ou_kv_resident out) sessions budget)"

section \<open>One replay (run.rs)\<close>

text \<open>What does not change across a replay: the model, a parameter of the simulator (where sizes
  and costs come from), the policy and the foresight.\<close>

record run =
  ru_model :: "object_id \<Rightarrow> object_meta option"
  ru_policy :: policy
  ru_seen :: "nat list"

lemma resident_remove_shorter:
  assumes "resident_remove i r = Some (Inr n, r')"
  shows "length (re_held r') < length (re_held r)"
  using assms
  by (auto simp: resident_remove_def swap_remove_def Let_def nth_opt_def
      split: option.splits sum.splits prod.splits if_splits)

function sim_make_room :: "run \<Rightarrow> object_meta \<Rightarrow> resident \<Rightarrow> outcome \<Rightarrow> (resident \<times> outcome) option" where
  "sim_make_room ru wanting r out =
     (if fits (arena_occupancy (re_arena r)) (m_size wanting) then Some (r, out)
      else case pol_victim (ru_policy ru) (resident_view r) wanting of
        None \<Rightarrow> Some (r, out)
      | Some victim \<Rightarrow>
          (case resident_remove victim r of
             None \<Rightarrow> None
           | Some (Inl e, r') \<Rightarrow> Some (r', out)
           | Some (Inr _, r') \<Rightarrow>
               sim_make_room ru wanting r' (out\<lparr>ou_evicted := add_u64 (ou_evicted out) 1\<rparr>)))"
  by pat_completeness auto
termination
  by (relation "measure (\<lambda>(_, _, r, _). length (re_held r))") (auto dest: resident_remove_shorter)

declare sim_make_room.simps [simp del]

definition is_weight :: "object_id \<Rightarrow> bool" where
  "is_weight i \<longleftrightarrow> object_class_of i = Some WeightTile"

definition read_counts :: "object_id \<Rightarrow> object_meta \<Rightarrow> outcome \<Rightarrow> outcome" where
  "read_counts i m out =
     (let out = out\<lparr>ou_reads := add_u64 (ou_reads out) 1, ou_bytes := add_u64 (ou_bytes out) (m_size m),
                    ou_cost := add_u64 (ou_cost out) (m_reload_cost m)\<rparr> in
      if is_weight i
      then out\<lparr>ou_weights_applied := add_u64 (ou_weights_applied out) (m_size m),
               ou_weights_read := add_u64 (ou_weights_read out) (m_size m)\<rparr>
      else out)"

definition sim_fetch ::
  "run \<Rightarrow> object_id \<Rightarrow> object_meta \<Rightarrow> nat \<Rightarrow> next_use \<Rightarrow> resident \<Rightarrow> outcome \<Rightarrow> (resident \<times> outcome) option" where
  "sim_fetch ru i m now next r out =
     (case sim_make_room ru m r out of
        None \<Rightarrow> None
      | Some (r, out) \<Rightarrow>
          (case resident_insert i m now next r of
             (Inl e, r) \<Rightarrow> Some (r, out\<lparr>ou_refused := add_u64 (ou_refused out) 1\<rparr>)
           | (Inr _, r) \<Rightarrow> Some (r, read_counts i m out)))"

definition sim_step :: "run \<Rightarrow> object_id \<Rightarrow> nat \<Rightarrow> resident \<Rightarrow> outcome \<Rightarrow> (resident \<times> outcome) option" where
  "sim_step ru i now r out =
     (case ru_model ru i of
        None \<Rightarrow> Some (r, out\<lparr>ou_mismatched := add_u64 (ou_mismatched out) 1\<rparr>)
      | Some m \<Rightarrow>
          (let next = wanted_at (ru_seen ru) now in
           case resident_touch i now next r of
             (True, r) \<Rightarrow>
               Some (r, out\<lparr>ou_hits := add_u64 (ou_hits out) 1,
                            ou_weights_applied :=
                              add_u64 (ou_weights_applied out) (m_size m * (if is_weight i then 1 else 0))\<rparr>)
           | (False, r) \<Rightarrow> sim_fetch ru i m now next r out))"

section \<open>Replaying (lib.rs)\<close>

fun replay_loop :: "run \<Rightarrow> nat \<Rightarrow> access list \<Rightarrow> resident \<Rightarrow> outcome \<Rightarrow> (resident \<times> outcome) option" where
  "replay_loop ru k [] r out = Some (r, out)"
| "replay_loop ru k (a # as) r out =
     (case sim_step ru (ac_object a) (wrap 32 (wrap 32 k + 1)) r out of
        None \<Rightarrow> None
      | Some (r, out) \<Rightarrow> replay_loop ru (k + 1) as r out)"

text \<open>\<open>base\<close> is the address the allocator gave the budget's buffer.\<close>

definition replay_ends ::
  "nat \<Rightarrow> access list \<Rightarrow> (object_id \<Rightarrow> object_meta option) \<Rightarrow> nat \<Rightarrow> policy \<Rightarrow> (resident \<times> outcome) option" where
  "replay_ends base as model budget policy =
     (case foresight_read as of
        None \<Rightarrow> None
      | Some seen \<Rightarrow>
          (let ru = \<lparr>ru_model = model, ru_policy = policy, ru_seen = seen\<rparr>;
               r = resident_new (arena_new base (replicate budget 0));
               named = fst (adopt_each (map ac_session as) contract_none (sessions_empty MAX_SESSIONS)) in
           replay_loop ru 0 as r (outcome_default\<lparr>ou_sessions := named\<rparr>)))"

definition replay ::
  "nat \<Rightarrow> trace \<Rightarrow> (object_id \<Rightarrow> object_meta option) \<Rightarrow> nat \<Rightarrow> policy \<Rightarrow> outcome option" where
  "replay base tr model budget policy =
     map_option (\<lambda>(r, out). out\<lparr>ou_kv_resident := held_of KvBlock r\<rparr>)
       (replay_ends base (tr_accesses tr) model budget policy)"

definition sim_compare ::
  "nat \<Rightarrow> trace \<Rightarrow> (object_id \<Rightarrow> object_meta option) \<Rightarrow> nat \<Rightarrow> policy list \<Rightarrow> (string \<times> outcome) list option" where
  "sim_compare base tr model budget policies =
     those (map (\<lambda>p. map_option (\<lambda>out. (pol_name p, out)) (replay base tr model budget p)) policies)"

end
