(* ===== verification/SimProofs.thy ===== *)
theory SimProofs
  imports Sim ObjmanProofs
begin

text \<open>
  The simulator's resident set keeps its hash map of positions exact through swap removals and
  its objects apart in the arena, so no index panics; every counter stays below its width for a
  trace shorter than 2^32, so the counts of a replay are exact.
\<close>

section \<open>The vector and its map of positions\<close>

definition index_ok :: "('k \<times> 'v) list \<Rightarrow> ('k \<Rightarrow> nat option) \<Rightarrow> bool" where
  "index_ok held index \<longleftrightarrow> (\<forall>i k. index i = Some k \<longleftrightarrow> k < length held \<and> fst (held ! k) = i)"

lemma index_okD: "index_ok held index \<Longrightarrow> index i = Some k \<longleftrightarrow> k < length held \<and> fst (held ! k) = i"
  by (simp add: index_ok_def)

lemma index_ok_unique:
  "index_ok held index \<Longrightarrow> p < length held \<Longrightarrow> q < length held \<Longrightarrow> fst (held ! p) = fst (held ! q) \<Longrightarrow> p = q"
  using index_okD [of held index "fst (held ! p)" p] index_okD [of held index "fst (held ! p)" q] by simp

lemma index_ok_distinct: "index_ok held index \<Longrightarrow> distinct (map fst held)"
  unfolding distinct_conv_nth using index_ok_unique by (metis length_map nth_map)

lemma index_ok_None: "index_ok held index \<Longrightarrow> index i = None \<longleftrightarrow> i \<notin> fst ` set held"
proof -
  assume ok: "index_ok held index"
  have "i \<in> fst ` set held \<longleftrightarrow> (\<exists>k < length held. fst (held ! k) = i)"
    by (metis (no_types, lifting) image_iff in_set_conv_nth)
  also have "\<dots> \<longleftrightarrow> (\<exists>k. index i = Some k)" using index_okD [OF ok] by blast
  finally show ?thesis by auto
qed

lemma index_ok_empty [simp]: "index_ok [] Map.empty"
  by (simp add: index_ok_def)

lemma index_ok_push:
  assumes "index_ok held index" "index i = None"
  shows "index_ok (held @ [(i, m)]) (index(i \<mapsto> length held))"
proof -
  have "fst (held ! k) \<noteq> i" if "k < length held" for k
    using index_okD [OF assms(1), of i k] assms(2) that by simp
  then show ?thesis using assms by (auto simp: index_ok_def nth_append)
qed

lemma index_ok_write:
  assumes "index_ok held index" "k < length held" "fst x = fst (held ! k)"
  shows "index_ok (held[k := x]) index"
  using assms by (auto simp: index_ok_def nth_list_update)

lemma swap_remove_length [simp]: "k < length xs \<Longrightarrow> length (swap_remove k xs) = length xs - 1"
  by (simp add: swap_remove_def)

lemma swap_remove_nth:
  assumes "k < length xs" "j < length xs - 1"
  shows "swap_remove k xs ! j = (if j = k then last xs else xs ! j)"
  using assms by (simp add: swap_remove_def nth_butlast nth_list_update)

lemma index_ok_swap_remove:
  assumes ok: "index_ok held index" and k: "index i = Some k"
  shows "index_ok (swap_remove k held)
    (case nth_opt (swap_remove k held) k of
       None \<Rightarrow> index(i := None) | Some (moved, _) \<Rightarrow> (index(i := None))(moved \<mapsto> k))"
proof -
  have kl: "k < length held" "fst (held ! k) = i" using ok k by (auto simp: index_ok_def)
  let ?n = "length held - 1"
  have lst: "last held = held ! ?n" using kl by (subst last_conv_nth) auto
  have ix: "index j = Some p \<longleftrightarrow> p < length held \<and> fst (held ! p) = j" for j p
    using ok by (simp add: index_ok_def)
  show ?thesis
  proof (cases "k = ?n")
    case True
    then have none: "nth_opt (swap_remove k held) k = None" using kl by (simp add: nth_opt_def)
    have "(index(i := None)) j = Some p \<longleftrightarrow> p < ?n \<and> fst (swap_remove k held ! p) = j" for j p
    proof (cases "p < ?n")
      case lt: True
      then have "swap_remove k held ! p = held ! p" "index i \<noteq> Some p" using kl True k by (simp_all add: swap_remove_nth)
      with lt kl ix [of j p] show ?thesis by auto
    next
      case False
      then have "index j = Some p \<Longrightarrow> p = ?n" using ix [of j p] kl by linarith
      moreover have "index j = Some ?n \<Longrightarrow> j = i" using ix [of j ?n] kl True by simp
      ultimately show ?thesis using False by auto
    qed
    then show ?thesis unfolding none option.case using kl by (simp add: index_ok_def)
  next
    case False
    with kl have lt: "k < ?n" by simp
    obtain moved m where mv: "last held = (moved, m)" by (cases "last held")
    have some: "nth_opt (swap_remove k held) k = Some (moved, m)"
      using lt kl by (simp add: swap_remove_nth mv)
    have im: "index moved = Some ?n" unfolding ix using kl mv lst by auto
    with k lt have ne: "moved \<noteq> i" by auto
    have "((index(i := None))(moved \<mapsto> k)) j = Some p \<longleftrightarrow> p < ?n \<and> fst (swap_remove k held ! p) = j" for j p
    proof (cases "p = k")
      case True
      then show ?thesis using lt kl k ix [of j k] ne by (auto simp: swap_remove_nth mv)
    next
      case False
      have "p < ?n \<and> fst (held ! p) = j \<longleftrightarrow> j \<noteq> moved \<and> j \<noteq> i \<and> index j = Some p"
      proof -
        have "p < ?n \<longleftrightarrow> p < length held \<and> p \<noteq> ?n" by linarith
        moreover have "index j = Some p \<Longrightarrow> j = moved \<Longrightarrow> p = ?n" using im by simp
        moreover have "index j = Some p \<Longrightarrow> p = ?n \<Longrightarrow> j = moved"
          using ix [of j p] im [unfolded ix] by blast
        moreover have "index j = Some p \<Longrightarrow> j \<noteq> i" using k False by auto
        ultimately show ?thesis using ix [of j p] by blast
      qed
      with False kl show ?thesis by (auto simp: swap_remove_nth)
    qed
    then show ?thesis unfolding some option.case prod.case using kl by (simp add: index_ok_def)
  qed
qed

lemma map_of_iff_index:
  "index_ok held index \<Longrightarrow> map_of held i = Some m \<longleftrightarrow> (\<exists>k < length held. held ! k = (i, m))"
  by (simp add: index_ok_distinct map_of_eq_Some_iff in_set_conv_nth)

lemma map_of_push: "i \<notin> fst ` set held \<Longrightarrow> map_of (held @ [(i, m)]) = (map_of held)(i \<mapsto> m)"
proof (induction held)
  case (Cons x xs)
  then show ?case by (cases x) (auto simp: fun_upd_twist)
qed simp

lemma map_of_write:
  assumes "index_ok held index" "k < length held" "held ! k = (i, m)"
  shows "map_of (held[k := (i, m')]) = (map_of held)(i \<mapsto> m')"
proof -
  have ok': "index_ok (held[k := (i, m')]) index" using assms by (intro index_ok_write) auto
  have "fst (held ! p) = i \<Longrightarrow> p < length held \<Longrightarrow> p = k" for p
    using index_ok_unique [OF assms(1), of p k] assms(2,3) by simp
  then have "map_of (held[k := (i, m')]) j = Some x \<longleftrightarrow> ((map_of held)(i \<mapsto> m')) j = Some x" for j x
    unfolding map_of_iff_index [OF ok'] fun_upd_apply
    using assms(2,3) map_of_iff_index [OF assms(1), of j x]
    by (auto simp: nth_list_update) (metis fst_conv)+
  then show ?thesis by (intro ext) (metis option.exhaust)
qed

lemma map_of_swap_remove:
  assumes ok: "index_ok held index" and k: "index i = Some k"
  shows "map_of (swap_remove k held) = (map_of held)(i := None)"
proof -
  note ok' = index_ok_swap_remove [OF ok k]
  have kl: "k < length held" "fst (held ! k) = i" using ok k by (auto simp: index_ok_def)
  have lst: "last held = held ! (length held - 1)" using kl by (subst last_conv_nth) auto
  have uniq: "fst (held ! p) = i \<Longrightarrow> p < length held \<Longrightarrow> p = k" for p
    using index_ok_unique [OF ok, of p k] kl by simp
  have "(\<exists>p < length held - 1. swap_remove k held ! p = (j, x)) \<longleftrightarrow> j \<noteq> i \<and> (\<exists>p < length held. held ! p = (j, x))"
    (is "?L = ?R") for j x
  proof
    assume ?L
    then obtain p where p: "p < length held - 1" "swap_remove k held ! p = (j, x)" by blast
    show ?R
    proof (cases "p = k")
      case True
      with p kl have "held ! (length held - 1) = (j, x)" by (simp add: swap_remove_nth lst)
      moreover have "length held - 1 < length held" "length held - 1 \<noteq> k" using p True by auto
      ultimately show ?thesis using uniq [of "length held - 1"] by force
    next
      case False
      with p kl have "held ! p = (j, x)" "p < length held" by (simp_all add: swap_remove_nth)
      with False uniq [of p] show ?thesis by force
    qed
  next
    assume ?R
    then obtain p where p: "j \<noteq> i" "p < length held" "held ! p = (j, x)" by blast
    then have "p \<noteq> k" using kl by auto
    show ?L
    proof (cases "p = length held - 1")
      case True
      with p kl \<open>p \<noteq> k\<close> show ?thesis by (intro exI [of _ k]) (auto simp: swap_remove_nth lst)
    next
      case False
      with p kl \<open>p \<noteq> k\<close> show ?thesis by (intro exI [of _ p]) (auto simp: swap_remove_nth)
    qed
  qed
  then have "map_of (swap_remove k held) j = Some x \<longleftrightarrow> ((map_of held)(i := None)) j = Some x" for j x
    unfolding map_of_iff_index [OF ok'] fun_upd_apply
    using map_of_iff_index [OF ok, of j x] kl by auto
  then show ?thesis by (intro ext) (metis option.exhaust)
qed


section \<open>The invariant of the resident set\<close>

definition sim_blocks :: "resident \<Rightarrow> object_id \<Rightarrow> (nat \<times> nat) option" where
  "sim_blocks r i =
     map_option (\<lambda>m. (m_resident_at m - ar_base (re_arena r), m_size m)) (map_of (re_held r) i)"

definition resident_inv :: "resident \<Rightarrow> bool" where
  "resident_inv r \<longleftrightarrow>
     arena_inv (re_arena r) \<and> index_ok (re_held r) (re_index r) \<and>
     (\<forall>(i, m) \<in> set (re_held r). 0 < m_size m \<and> m_size m \<le> umax 32 \<and> ar_base (re_arena r) \<le> m_resident_at m) \<and>
     holds aligned (\<lambda>start. ALIGN dvd start) (length (ar_bytes (re_arena r))) (free_set (re_arena r)) (sim_blocks r) \<and>
     covers aligned (length (ar_bytes (re_arena r))) (free_set (re_arena r)) (sim_blocks r)"

lemma resident_invD:
  assumes "resident_inv r"
  shows "arena_inv (re_arena r)" "index_ok (re_held r) (re_index r)"
    "(i, m) \<in> set (re_held r) \<Longrightarrow> 0 < m_size m \<and> m_size m \<le> umax 32 \<and> ar_base (re_arena r) \<le> m_resident_at m"
    "holds aligned (\<lambda>start. ALIGN dvd start) (length (ar_bytes (re_arena r))) (free_set (re_arena r)) (sim_blocks r)"
    "covers aligned (length (ar_bytes (re_arena r))) (free_set (re_arena r)) (sim_blocks r)"
  using assms unfolding resident_inv_def by blast+

lemma resident_inv_cursor [simp]: "resident_inv (r\<lparr>re_cursor := now\<rparr>) = resident_inv r"
proof -
  have "sim_blocks (r\<lparr>re_cursor := now\<rparr>) = sim_blocks r" by (rule ext) (simp add: sim_blocks_def)
  then show ?thesis by (simp add: resident_inv_def)
qed

lemma touched_meta_simps [simp]:
  "m_size (touched_meta now next m) = m_size m" "m_resident_at (touched_meta now next m) = m_resident_at m"
  by (simp_all add: touched_meta_def)

lemma inserted_meta_simps [simp]:
  "m_size (inserted_meta a now next m) = m_size m" "m_resident_at (inserted_meta a now next m) = a"
  by (simp_all add: inserted_meta_def)

lemma resident_touch_spec:
  assumes "resident_inv r" "resident_touch i now next r = (hit, r')"
  shows "resident_inv r'" "hit \<longleftrightarrow> re_index r i \<noteq> None" "length (re_held r') = length (re_held r)"
    "re_arena r' = re_arena r" "re_index r' = re_index r"
proof -
  note I = resident_invD [OF assms(1)]
  have "resident_inv r' \<and> (hit \<longleftrightarrow> re_index r i \<noteq> None) \<and> length (re_held r') = length (re_held r) \<and>
    re_arena r' = re_arena r \<and> re_index r' = re_index r"
  proof (cases "re_index r i")
    case None
    then show ?thesis using assms by (auto simp: resident_touch_def)
  next
    case (Some k)
    then have k: "k < length (re_held r)" "fst (re_held r ! k) = i" using index_okD [OF I(2)] by auto
    then obtain m where m: "re_held r ! k = (i, m)" by (cases "re_held r ! k") auto
    have r': "hit" "r' = r\<lparr>re_cursor := now, re_held := (re_held r)[k := (i, touched_meta now next m)]\<rparr>"
      using assms(2) Some k m by (auto simp: resident_touch_def nth_opt_def)
    have mo: "map_of (re_held r) i = Some m" using map_of_iff_index [OF I(2)] k m by blast
    have bl: "sim_blocks r' = sim_blocks r"
      by (rule ext) (simp add: r' sim_blocks_def map_of_write [OF I(2) k(1) m] mo)
    have "(i, m) \<in> set (re_held r)" using k m by (metis nth_mem)
    then have "\<forall>(j, x) \<in> set (re_held r'). 0 < m_size x \<and> m_size x \<le> umax 32 \<and> ar_base (re_arena r) \<le> m_resident_at x"
      using I(3) by (auto simp: r' dest!: set_update_subset_insert [THEN subsetD])
    then show ?thesis
      using I(1,2,4,5) bl Some r' k m by (auto simp: resident_inv_def intro: index_ok_write)
  qed
  then show "resident_inv r'" "hit \<longleftrightarrow> re_index r i \<noteq> None" "length (re_held r') = length (re_held r)"
    "re_arena r' = re_arena r" "re_index r' = re_index r" by blast+
qed

lemma resident_insert_spec:
  assumes inv: "resident_inv r" and new: "re_index r i = None" and m: "0 < m_size m" "m_size m \<le> umax 32"
    and run: "resident_insert i m now next r = (res, r')"
  shows "resident_inv r'"
    and "case res of Inl _ \<Rightarrow> re_held r' = re_held r | Inr _ \<Rightarrow> length (re_held r') = length (re_held r) + 1"
    and "length (ar_bytes (re_arena r')) = length (ar_bytes (re_arena r))"
proof -
  note I = resident_invD [OF inv]
  have "resident_inv r' \<and> (case res of Inl _ \<Rightarrow> re_held r' = re_held r
      | Inr _ \<Rightarrow> length (re_held r') = length (re_held r) + 1) \<and>
    length (ar_bytes (re_arena r')) = length (ar_bytes (re_arena r))"
  proof (cases "arena_place (m_size m) (re_arena r)")
    case (Pair x a)
    show ?thesis
    proof (cases x)
      case (Inl e)
      with Pair have "a = re_arena r" using arena_place_refused_same [OF I(1)] by blast
      with Pair Inl run have "res = Inl e" "r' = r\<lparr>re_cursor := now\<rparr>" by (auto simp: resident_insert_def)
      with inv show ?thesis by simp
    next
      case (Inr t)
      obtain address start len where t: "t = (address, start, len)" by (cases t)
      note p = alloc.place_ok [OF I(1) m(1) Pair [unfolded Inr t]]
      have r': "res = Inr ()" "re_arena r' = a" "re_index r' = (re_index r)(i \<mapsto> length (re_held r))"
        "re_held r' = re_held r @ [(i, inserted_meta address now next m)]"
        using run Pair Inr t by (auto simp: resident_insert_def)
      have notin: "i \<notin> fst ` set (re_held r)" using index_ok_None [OF I(2)] new by blast
      have bl: "sim_blocks r' = (sim_blocks r)(i \<mapsto> (start, m_size m))"
        by (rule ext) (use p in \<open>simp add: sim_blocks_def r' map_of_push [OF notin] del: map_of_append\<close>)
      have none: "sim_blocks r i = None"
        using notin by (simp add: sim_blocks_def map_of_eq_None_iff)
      have ho: "holds aligned (\<lambda>start. ALIGN dvd start) (length (ar_bytes a)) (free_set a) (sim_blocks r')"
        unfolding bl by (rule alloc.place_holds [OF I(1) m(1) Pair [unfolded Inr t] I(4)])
      have co: "covers aligned (length (ar_bytes a)) (free_set a) (sim_blocks r')"
        using I(5) p none by (auto simp: covers_def bl block_def ran_map_upd)
      have "\<forall>(j, x) \<in> set (re_held r'). 0 < m_size x \<and> m_size x \<le> umax 32 \<and> ar_base a \<le> m_resident_at x"
        using I(3) p m by (auto simp: r')
      then show ?thesis
        using p ho co index_ok_push [OF I(2) new] by (simp add: resident_inv_def r')
    qed
  qed
  then show "resident_inv r'"
    and "case res of Inl _ \<Rightarrow> re_held r' = re_held r | Inr _ \<Rightarrow> length (re_held r') = length (re_held r) + 1"
    and "length (ar_bytes (re_arena r')) = length (ar_bytes (re_arena r))" by blast+
qed

lemma resident_remove_spec:
  assumes inv: "resident_inv r"
  obtains (kept) e where "resident_remove i r = Some (Inl e, r)"
  | (removed) n r' where "resident_remove i r = Some (Inr n, r')" "resident_inv r'"
      "length (re_held r) = length (re_held r') + 1" "re_index r' i = None"
      "\<forall>j. re_index r j = None \<longrightarrow> re_index r' j = None"
      "length (ar_bytes (re_arena r')) = length (ar_bytes (re_arena r))"
proof (cases "re_index r i")
  case None
  then show ?thesis by (intro kept) (simp add: resident_remove_def)
next
  case (Some k)
  note I = resident_invD [OF inv]
  from Some have k: "k < length (re_held r)" "fst (re_held r ! k) = i" using index_okD [OF I(2)] by auto
  then obtain m where m: "re_held r ! k = (i, m)" by (cases "re_held r ! k") auto
  have mem: "(i, m) \<in> set (re_held r)" using k m by (metis nth_mem)
  have mo: "map_of (re_held r) i = Some m" using map_of_iff_index [OF I(2)] k m by blast
  let ?a = "re_arena r"
  show ?thesis
  proof (cases "arena_release (m_resident_at m) (m_size m) ?a")
    case (Pair x a)
    show ?thesis
    proof (cases x)
      case (Inl e)
      with Pair have "a = ?a" using arena_release_full [OF I(1)] by blast
      with Pair Inl Some k m show ?thesis by (intro kept [of e]) (simp add: resident_remove_def nth_opt_def)
    next
      case (Inr u)
      have b: "sim_blocks r i = Some (m_resident_at m - ar_base ?a, m_size m)" by (simp add: sim_blocks_def mo)
      have "arena_release (ar_base ?a + (m_resident_at m - ar_base ?a)) (m_size m) ?a = (Inr (), a)"
        using Pair Inr I(3) [OF mem] by simp
      note R = alloc.release_holds [OF I(1,4) b this]
      let ?held = "swap_remove k (re_held r)" and ?index = "(re_index r)(i := None)"
      define r' where "r' = r\<lparr>re_arena := a, re_held := ?held,
        re_index := (case nth_opt ?held k of None \<Rightarrow> ?index | Some (moved, _) \<Rightarrow> ?index(moved \<mapsto> k))\<rparr>"
      have run: "resident_remove i r = Some (Inr (m_size m), r')"
        using Pair Inr Some k m by (simp add: resident_remove_def nth_opt_def r'_def Let_def)
      note ok = index_ok_swap_remove [OF I(2) Some] and mp = map_of_swap_remove [OF I(2) Some]
      have bl: "sim_blocks r' = (sim_blocks r)(i := None)"
        by (rule ext) (use R in \<open>simp add: sim_blocks_def r'_def mp\<close>)
      have ne: "re_held r \<noteq> []" using k by auto
      have sub: "set ?held \<subseteq> set (re_held r)"
      proof
        fix y assume "y \<in> set ?held"
        then obtain p where "p < length ?held" "?held ! p = y" by (auto simp: in_set_conv_nth)
        then show "y \<in> set (re_held r)"
          using k last_in_set [OF ne] by (cases "p = k") (auto simp: swap_remove_nth simp del: last_in_set)
      qed
      have dis: "block aligned (m_resident_at m - ar_base ?a, m_size m) \<subseteq> {..<length (ar_bytes ?a)}"
        using I(4) b unfolding holds_def block_def by fastforce
      have co: "covers aligned (length (ar_bytes a)) (free_set a) (sim_blocks r')"
        using I(5) R ran_remove [of "sim_blocks r", OF b] unfolding covers_def bl by (auto simp: block_def)
      have "\<forall>(j, x) \<in> set (re_held r'). 0 < m_size x \<and> m_size x \<le> umax 32 \<and> ar_base a \<le> m_resident_at x"
        using I(3) R sub by (auto simp: r'_def)
      moreover have f: "re_arena r' = a" "index_ok (re_held r') (re_index r')" using ok by (simp_all add: r'_def)
      moreover have "holds aligned (\<lambda>start. ALIGN dvd start) (length (ar_bytes a)) (free_set a) (sim_blocks r')"
        unfolding bl using R by blast
      ultimately have inv': "resident_inv r'"
        unfolding resident_inv_def f(1) using R co f(2) by blast
      have keys: "re_index r' j = None \<longleftrightarrow> map_of (re_held r') j = None" "re_index r j = None \<longleftrightarrow> map_of (re_held r) j = None" for j
        using index_ok_None [OF resident_invD(2) [OF inv'], of j] index_ok_None [OF I(2), of j]
        by (simp_all add: map_of_eq_None_iff)
      have gone: "re_index r' i = None" "\<forall>j. re_index r j = None \<longrightarrow> re_index r' j = None"
        unfolding keys by (simp_all add: r'_def mp)
      have "length (re_held r) = length (re_held r') + 1" using k by (simp add: r'_def)
      moreover have "length (ar_bytes (re_arena r')) = length (ar_bytes (re_arena r))" using R f by simp
      ultimately show ?thesis using removed run inv' gone by blast
    qed
  qed
qed


section \<open>Counting\<close>

text \<open>What the outcome says after \<open>k\<close> accesses.\<close>

definition counted :: "nat \<Rightarrow> resident \<Rightarrow> outcome \<Rightarrow> bool" where
  "counted k r out \<longleftrightarrow>
     ou_hits out + ou_reads out + ou_refused out + ou_mismatched out = k \<and>
     ou_reads out = ou_evicted out + length (re_held r) \<and>
     ou_bytes out \<le> k * umax 32 \<and> ou_weights_applied out \<le> k * umax 32 \<and>
     ou_weights_read out \<le> ou_bytes out \<and> ou_weights_read out \<le> ou_weights_applied out"

definition model_ok :: "(object_id \<Rightarrow> object_meta option) \<Rightarrow> bool" where
  "model_ok model \<longleftrightarrow> (\<forall>i m. model i = Some m \<longrightarrow> 0 < m_size m \<and> m_size m \<le> umax 32)"

lemma add_u64_exact: "a + b < 2 ^ 64 \<Longrightarrow> add_u64 a b = a + b"
  by (simp add: add_u64_def wrap_exact)

lemma add_u64_size:
  assumes "a \<le> k * umax 32" "b \<le> umax 32" "k < 2 ^ 32"
  shows "add_u64 a b = a + b" "a + b \<le> (k + 1) * umax 32"
proof -
  have "k * umax 32 \<le> (2 ^ 32 - 1) * umax 32" using assms(3) by (intro mult_le_mono1) simp
  with assms show "add_u64 a b = a + b" by (intro add_u64_exact) simp
  show "a + b \<le> (k + 1) * umax 32" using assms(1,2) by simp
qed

lemma add_u64_one: "a < 4294967296 \<Longrightarrow> add_u64 a (Suc 0) = Suc a"
  using add_u64_exact [of a 1] by simp

text \<open>Making room always returns: the objects it evicts are counted, nothing else changes.\<close>

lemma sim_make_room_spec:
  assumes "resident_inv r" "counted k r out" "k < 2 ^ 32"
  shows "\<exists>r' out'. sim_make_room ru w r out = Some (r', out') \<and> resident_inv r' \<and> counted k r' out' \<and>
    (\<forall>j. re_index r j = None \<longrightarrow> re_index r' j = None) \<and> ou_sessions out' = ou_sessions out \<and>
    length (ar_bytes (re_arena r')) = length (ar_bytes (re_arena r))"
  using assms
proof (induction ru w r out rule: sim_make_room.induct)
  case (1 ru w r out)
  show ?case
  proof (cases "fits (arena_occupancy (re_arena r)) (m_size w)")
    case True
    then show ?thesis using 1(2-4) by (simp add: sim_make_room.simps [of ru w r out])
  next
    case False
    show ?thesis
    proof (cases "pol_victim (ru_policy ru) (resident_view r) w")
      case None
      then show ?thesis using 1(2-4) False by (simp add: sim_make_room.simps [of ru w r out])
    next
      case (Some victim)
      from 1(2) show ?thesis
      proof (cases rule: resident_remove_spec [of r victim])
        case (kept e)
        then show ?thesis using 1(2-4) False Some by (simp add: sim_make_room.simps [of ru w r out])
      next
        case (removed n r')
        let ?out = "out\<lparr>ou_evicted := add_u64 (ou_evicted out) 1\<rparr>"
        have "ou_evicted out \<le> k" using 1(3) by (simp add: counted_def)
        then have "counted k r' ?out"
          using 1(3,4) removed(3) by (simp add: counted_def add_u64_one)
        from 1(1) [OF False Some removed(1) refl refl removed(2) this 1(4)]
        show ?thesis using False Some removed by (auto simp: sim_make_room.simps [of ru w r out])
      qed
    qed
  qed
qed

lemma read_counts_counted:
  assumes "counted k r out" "k < 2 ^ 32" "m_size m \<le> umax 32" "length (re_held r') = length (re_held r) + 1"
  shows "counted (k + 1) r' (read_counts i m out)"
proof -
  have c: "ou_reads out \<le> k" "ou_bytes out \<le> k * umax 32" "ou_weights_applied out \<le> k * umax 32"
    "ou_weights_read out \<le> k * umax 32"
    using assms(1) by (auto simp: counted_def)
  have "ou_reads out < 4294967296" using c(1) assms(2) by simp
  from add_u64_one [OF this] show ?thesis
    using assms(1,4) add_u64_size [OF c(2) assms(3,2)]
      add_u64_size [OF c(3) assms(3,2)] add_u64_size [OF c(4) assms(3,2)]
    by (simp add: read_counts_def counted_def Let_def del: umax_32)
qed

lemma read_counts_sessions [simp]: "ou_sessions (read_counts i m out) = ou_sessions out"
  by (simp add: read_counts_def Let_def)

lemma sim_step_spec:
  assumes inv: "resident_inv r" and c: "counted k r out" and k: "k < 2 ^ 32" and ok: "model_ok (ru_model ru)"
  shows "\<exists>r' out'. sim_step ru i now r out = Some (r', out') \<and> resident_inv r' \<and> counted (k + 1) r' out' \<and>
    ou_sessions out' = ou_sessions out \<and> length (ar_bytes (re_arena r')) = length (ar_bytes (re_arena r))"
proof (cases "ru_model ru i")
  case None
  have "ou_mismatched out \<le> k" using c by (simp add: counted_def)
  with None inv c k show ?thesis by (auto simp: sim_step_def counted_def add_u64_one)
next
  case (Some m)
  then have m: "0 < m_size m" "m_size m \<le> umax 32" using ok by (auto simp: model_ok_def)
  obtain hit r1 where t: "resident_touch i now (wanted_at (ru_seen ru) now) r = (hit, r1)" by fastforce
  note T = resident_touch_spec [OF inv t]
  show ?thesis
  proof (cases hit)
    case True
    have "ou_hits out \<le> k" "ou_weights_applied out \<le> k * umax 32" using c by (auto simp: counted_def)
    moreover have "m_size m * (if is_weight i then 1 else 0) \<le> umax 32" using m by simp
    ultimately have "counted (k + 1) r1 (out\<lparr>ou_hits := add_u64 (ou_hits out) 1,
        ou_weights_applied := add_u64 (ou_weights_applied out) (m_size m * (if is_weight i then 1 else 0))\<rparr>)"
      using c k T(3) add_u64_size [of "ou_weights_applied out" k "m_size m * (if is_weight i then 1 else 0)"]
      by (simp add: counted_def add_u64_one del: umax_32)
    with Some t True T show ?thesis by (simp add: sim_step_def)
  next
    case False
    with T have none: "re_index r1 i = None" by simp
    have "counted k r1 out" using c T(3) by (simp add: counted_def)
    from sim_make_room_spec [OF T(1) this k, of ru m] none obtain r2 out2 where
      mr: "sim_make_room ru m r1 out = Some (r2, out2)" "resident_inv r2" "counted k r2 out2"
        "re_index r2 i = None" "ou_sessions out2 = ou_sessions out"
        "length (ar_bytes (re_arena r2)) = length (ar_bytes (re_arena r1))" by blast
    obtain res r3 where ins: "resident_insert i m now (wanted_at (ru_seen ru) now) r2 = (res, r3)" by fastforce
    note N = resident_insert_spec [OF mr(2,4) m ins]
    show ?thesis
    proof (cases res)
      case (Inl e)
      have "ou_refused out2 \<le> k" using mr(3) by (simp add: counted_def)
      then have "counted (k + 1) r3 (out2\<lparr>ou_refused := add_u64 (ou_refused out2) 1\<rparr>)"
        using mr(3) k N(2) Inl by (simp add: counted_def add_u64_one)
      then show ?thesis
        using Some t False mr ins Inl N T by (simp add: sim_step_def sim_fetch_def)
    next
      case (Inr u)
      have "counted (k + 1) r3 (read_counts i m out2)"
        by (rule read_counts_counted [OF mr(3) k m(2)]) (use N(2) Inr in simp)
      then show ?thesis
        using Some t False mr ins Inr N T by (simp add: sim_step_def sim_fetch_def)
    qed
  qed
qed

lemma replay_loop_spec:
  assumes "resident_inv r" "counted k r out" "k + length as < 2 ^ 32" "model_ok (ru_model ru)"
  shows "\<exists>r' out'. replay_loop ru k as r out = Some (r', out') \<and> resident_inv r' \<and>
    counted (k + length as) r' out' \<and> ou_sessions out' = ou_sessions out \<and>
    length (ar_bytes (re_arena r')) = length (ar_bytes (re_arena r))"
  using assms(1-3)
proof (induction as arbitrary: k r out)
  case (Cons a as)
  then have "k < 2 ^ 32" by simp
  from sim_step_spec [OF Cons.prems(1,2) this assms(4)] obtain r1 out1 where
    s: "sim_step ru (ac_object a) (wrap 32 (wrap 32 k + 1)) r out = Some (r1, out1)" "resident_inv r1"
      "counted (k + 1) r1 out1" "ou_sessions out1 = ou_sessions out"
      "length (ar_bytes (re_arena r1)) = length (ar_bytes (re_arena r))" by blast
  from Cons.IH [OF s(2,3)] Cons.prems(3) s(1,4,5) show ?case by auto
qed simp


section \<open>What is held fits the budget\<close>

lemma held_within:
  assumes inv: "resident_inv r"
  shows "sum_list (map (\<lambda>(i, m). m_size m) (re_held r)) \<le> length (ar_bytes (re_arena r))"
proof -
  note I = resident_invD [OF inv]
  note d = index_ok_distinct [OF I(2)]
  let ?b = "\<lambda>(i, m). block aligned (m_resident_at m - ar_base (re_arena r), m_size m)"
  have blk: "sim_blocks r (fst e) = Some (m_resident_at (snd e) - ar_base (re_arena r), m_size (snd e))"
    if "e \<in> set (re_held r)" for e
    using map_of_is_SomeI [OF d, of "fst e" "snd e"] that by (simp add: sim_blocks_def)
  have apart: "block aligned b \<inter> block aligned b' = {}"
    if "sim_blocks r k = Some b" "sim_blocks r k' = Some b'" "k \<noteq> k'" for k k' b b'
    using I(4) that unfolding holds_def by blast
  have inside: "block aligned b \<subseteq> {..<length (ar_bytes (re_arena r))}" if "sim_blocks r k = Some b" for k b
    using I(4) that unfolding holds_def block_def by fastforce
  have pair: "?b e \<inter> ?b e' = {}" if "e \<in> set (re_held r)" "e' \<in> set (re_held r)" "e \<noteq> e'" for e e'
  proof -
    have "fst e \<noteq> fst e'" using d that by (metis eq_key_imp_eq_value prod.collapse)
    then show ?thesis using apart [OF blk [OF that(1)] blk [OF that(2)]] by (simp add: case_prod_beta)
  qed
  have sub: "?b e \<subseteq> {..<length (ar_bytes (re_arena r))}" if "e \<in> set (re_held r)" for e
    using inside [OF blk [OF that]] by (simp add: case_prod_beta)
  have "sum_list (map (\<lambda>(i, m). m_size m) (re_held r)) = (\<Sum>e \<in> set (re_held r). m_size (snd e))"
    using d by (simp add: sum_list_distinct_conv_sum_set distinct_map case_prod_beta)
  also have "\<dots> \<le> (\<Sum>e \<in> set (re_held r). card (?b e))"
    by (intro sum_mono) (auto simp: block_def aligned_facts)
  also have "\<dots> = card (\<Union>e \<in> set (re_held r). ?b e)"
    using pair by (intro card_UN_disjoint [symmetric]) (auto simp: block_def)
  also have "\<dots> \<le> card {..<length (ar_bytes (re_arena r))}"
    using sub by (intro card_mono) auto
  finally show ?thesis by simp
qed

lemma held_of_within: "resident_inv r \<Longrightarrow> held_of c r \<le> length (ar_bytes (re_arena r))"
proof -
  assume inv: "resident_inv r"
  have "held_of c r \<le> sum_list (map (\<lambda>(i, m). m_size m) (re_held r))"
    unfolding held_of_def by (induction "re_held r") (auto simp: sum_list_filter_le_nat)
  then show ?thesis using held_within [OF inv] by simp
qed

lemma foresight_chained:
  assumes "length as < 2 ^ 32"
  obtains seen where "foresight_read as = Some seen" "chained (map ac_object as) seen" "length seen = length as"
proof -
  let ?o = "map ac_object as"
  have "card (set ?o) \<le> length ?o" by (rule card_length)
  with chain_spec [of ?o "replicate (length ?o) NEVER" "length ?o"] assms
  show ?thesis
    by (cases "chain ?o (replicate (length ?o) NEVER) (length ?o)")
      (auto simp: foresight_read_def split: sum.splits intro!: that)
qed

lemma hit_per_mille_le:
  assumes "ou_hits out + ou_reads out + ou_refused out < 2 ^ 32"
  shows "hit_per_mille out \<le> 1000"
proof -
  let ?n = "ou_hits out + ou_reads out + ou_refused out"
  have "wrap 64 (ou_hits out * 1000) = ou_hits out * 1000" using assms by (intro wrap_exact) simp
  moreover have "add_u64 (add_u64 (ou_hits out) (ou_reads out)) (ou_refused out) = ?n"
    using assms by (simp add: add_u64_exact)
  moreover have "ou_hits out * 1000 div ?n \<le> 1000"
  proof -
    have "ou_hits out * 1000 div ?n \<le> 1000 * ?n div ?n" by (intro div_le_mono) simp
    also have "\<dots> \<le> 1000" by (cases "?n = 0") (simp_all only: div_0 mult_0_right le0 nonzero_mult_div_cancel_right order_refl not_False_eq_True)
    finally show ?thesis .
  qed
  ultimately show ?thesis by (simp only: hit_per_mille_def Let_def if_split le0) simp
qed

lemma replay_start_inv:
  assumes "0 < budget" "base + budget < 2 ^ 64"
  shows "resident_inv (resident_new (arena_new base (replicate budget 0)))"
proof -
  let ?a = "arena_new base (replicate budget 0)"
  have "arena_inv ?a" "free_set ?a = {..<budget}"
    using arena_new_facts [of "replicate budget 0" base] assms by simp_all
  moreover have "length (ar_bytes ?a) = budget" by (simp add: arena_new_def)
  moreover have "sim_blocks (resident_new ?a) = (\<lambda>_. None)"
    by (rule ext) (simp add: sim_blocks_def resident_new_def)
  ultimately show ?thesis
    by (simp add: resident_inv_def holds_def covers_def) (simp add: resident_new_def)
qed

section \<open>Properties\<close>

lemma replay_counted:
  assumes "model_ok model" "length (tr_accesses tr) < 2 ^ 32" "0 < budget" "base + budget < 2 ^ 64"
  shows "\<exists>r out. replay_ends base (tr_accesses tr) model budget policy = Some (r, out) \<and>
    replay base tr model budget policy = Some (out\<lparr>ou_kv_resident := held_of KvBlock r\<rparr>) \<and>
    ou_hits out + ou_reads out + ou_refused out + ou_mismatched out = length (tr_accesses tr) \<and>
    ou_reads out = ou_evicted out + length (re_held r) \<and>
    resident_inv r \<and> held_of KvBlock r \<le> budget \<and>
    ou_weights_read out \<le> ou_weights_applied out \<and> ou_weights_read out \<le> ou_bytes out \<and>
    hit_per_mille out \<le> 1000"
proof -
  let ?as = "tr_accesses tr"
  obtain seen where seen: "foresight_read ?as = Some seen" using foresight_chained [OF assms(2)] by blast
  let ?ru = "\<lparr>ru_model = model, ru_policy = policy, ru_seen = seen\<rparr>"
  let ?r = "resident_new (arena_new base (replicate budget 0))"
  let ?n = "fst (adopt_each (map ac_session ?as) contract_none (sessions_empty MAX_SESSIONS))"
  let ?out = "outcome_default\<lparr>ou_sessions := ?n\<rparr>"
  have "counted 0 ?r ?out" by (simp add: counted_def outcome_default_def resident_new_def)
  from replay_loop_spec [OF replay_start_inv [OF assms(3,4)] this, of ?as ?ru] assms(1,2)
  obtain r out where R: "replay_loop ?ru 0 ?as ?r ?out = Some (r, out)" "resident_inv r"
    "counted (length ?as) r out" "length (ar_bytes (re_arena r)) = length (ar_bytes (re_arena ?r))" by auto
  have "length (ar_bytes (re_arena r)) = budget" using R(4) by (simp add: resident_new_def arena_new_def)
  then have "held_of KvBlock r \<le> budget" using held_of_within [OF R(2)] by simp
  moreover have "hit_per_mille out \<le> 1000"
    by (rule hit_per_mille_le) (use R(3) assms(2) in \<open>simp add: counted_def\<close>)
  ultimately show ?thesis
    using R(1-3) seen by (simp add: replay_def replay_ends_def counted_def Let_def)
qed

text \<open>C22: a replay returns, without a panic, for every policy; each access was exactly one of a
  hit, a read, a refusal or a mismatch; what was read and not evicted is what is resident at the
  end; the residents are apart in the arena, and with its free list they cover it; the KV bytes
  held fit the budget, and weights read are among the weights applied.\<close>

theorem replay_accounts:
  assumes "model_ok model" "length (tr_accesses tr) < 2 ^ 32" "0 < budget" "base + budget < 2 ^ 64"
  shows "\<exists>r out. replay_ends base (tr_accesses tr) model budget policy = Some (r, out) \<and>
    replay base tr model budget policy = Some (out\<lparr>ou_kv_resident := held_of KvBlock r\<rparr>) \<and>
    ou_hits out + ou_reads out + ou_refused out + ou_mismatched out = length (tr_accesses tr) \<and>
    ou_reads out = ou_evicted out + length (re_held r) \<and>
    resident_inv r \<and> held_of KvBlock r \<le> budget \<and>
    ou_weights_read out \<le> ou_weights_applied out \<and> ou_weights_read out \<le> ou_bytes out \<and>
    hit_per_mille out \<le> 1000"
  by (rule replay_counted [OF assms])

lemma replay_accounts_witness:
  "\<exists>out. replay 4096 \<lparr>tr_header = \<lparr>th_model = [], th_source = []\<rparr>, tr_accesses = [\<lparr>ac_session = 1, ac_object = 5\<rparr>, \<lparr>ac_session = 1, ac_object = 6\<rparr>]\<rparr>
     (\<lambda>i. if i = 5 then Some (sample_meta\<lparr>m_size := 32\<rparr>) else None) 64 (oldest_policy LRU) = Some out \<and>
     ou_hits out + ou_reads out + ou_refused out + ou_mismatched out = 2"
proof -
  let ?model = "\<lambda>i. if i = 5 then Some (sample_meta\<lparr>m_size := 32\<rparr>) else (None :: object_meta option)"
  let ?tr = "\<lparr>tr_header = \<lparr>th_model = [], th_source = []\<rparr>, tr_accesses = [\<lparr>ac_session = 1, ac_object = 5\<rparr>, \<lparr>ac_session = 1, ac_object = 6\<rparr>]\<rparr>"
  have "model_ok ?model" by (simp add: model_ok_def)
  from replay_accounts [OF this, of ?tr 64 4096 "oldest_policy LRU"] show ?thesis by auto
qed

text \<open>The foresight answers, for every access, the tick (one-based) of the first later access
  to the same object, or that there is none.\<close>

theorem foresight_exact:
  assumes "length as < 2 ^ 32" "k < length as"
  shows "\<exists>seen. foresight_read as = Some seen \<and>
    wanted_at seen (k + 1) =
      (case next_position (map ac_object as) k (ac_object (as ! k)) of None \<Rightarrow> Never | Some q \<Rightarrow> At (q + 1))"
proof -
  obtain seen where s: "foresight_read as = Some seen" "chained (map ac_object as) seen" "length seen = length as"
    using foresight_chained [OF assms(1)] by blast
  let ?q = "next_position (map ac_object as) k (ac_object (as ! k))"
  have at: "seen ! k = (case ?q of None \<Rightarrow> NEVER | Some q \<Rightarrow> q)"
    using s(2) assms(2) by (simp add: chained_def)
  have "q < length as" if "?q = Some q" for q using next_position_bounds [OF that] by simp
  then have small: "q < NEVER \<and> wrap 32 (q + 1) = q + 1" if "?q = Some q" for q
    using that assms(1) by (fastforce simp: NEVER_def intro: wrap_exact)
  have "wanted_at seen (k + 1) = (case ?q of None \<Rightarrow> Never | Some q \<Rightarrow> At (q + 1))"
    using at s(3) assms(2) small
    by (auto simp: wanted_at_def foresight_after_def checked_sub_def nth_opt_def split: option.splits)
  with s(1) show ?thesis by blast
qed

lemma foresight_exact_witness:
  "\<exists>seen. foresight_read [\<lparr>ac_session = 1, ac_object = 5\<rparr>, \<lparr>ac_session = 1, ac_object = 6\<rparr>, \<lparr>ac_session = 2, ac_object = 5\<rparr>] = Some seen \<and>
     wanted_at seen 1 = At 3"
  using foresight_exact [of "[\<lparr>ac_session = 1, ac_object = 5\<rparr>, \<lparr>ac_session = 1, ac_object = 6\<rparr>, \<lparr>ac_session = 2, ac_object = 5\<rparr>]" 0]
  by (simp add: next_position_def numeral_3_eq_3)

end
