(* ===== verification/Rounds.thy ===== *)
theory Rounds
  imports Sched
begin

text \<open>
  crates/mlos-sched, process.rs under merge.rs: what merging process-major comes to. Every lane
  that still has one is served its whole token, lane after lane, round after round.
\<close>

section \<open>The order written out\<close>

definition served :: "lane list \<Rightarrow> nat \<Rightarrow> nat \<Rightarrow> access list" where
  "served ls r k =
     (if r < length (ln_tokens (ls ! k))
      then map (\<lambda>i. \<lparr>ac_session = ln_session (ls ! k), ac_object = i\<rparr>) (ln_tokens (ls ! k) ! r)
      else [])"

definition round_row :: "lane list \<Rightarrow> nat \<Rightarrow> nat list \<Rightarrow> access list" where
  "round_row ls r ks = concat (map (served ls r) ks)"

definition longest :: "lane list \<Rightarrow> nat" where
  "longest ls = foldr max (map (length \<circ> ln_tokens) ls) 0"

definition round_robin :: "lane list \<Rightarrow> access list" where
  "round_robin ls = concat (map (\<lambda>r. round_row ls r [0..<length ls]) [0..<longest ls])"

lemma longest_bound: "k < length ls \<Longrightarrow> length (ln_tokens (ls ! k)) \<le> longest ls"
proof (induction ls arbitrary: k)
  case (Cons l ls)
  then show ?case by (cases k) (auto simp: longest_def le_max_iff_disj)
qed simp

lemma row_dead: "\<forall>k \<in> set ks. length (ln_tokens (ls ! k)) \<le> r \<Longrightarrow> round_row ls r ks = []"
  by (auto simp: round_row_def served_def)

lemma row_first:
  assumes "a \<le> k" "k < b" "\<forall>j. a \<le> j \<and> j < k \<longrightarrow> length (ln_tokens (ls ! j)) \<le> r"
  shows "round_row ls r [a..<b] = served ls r k @ round_row ls r [k + 1..<b]"
proof -
  have "[a..<b] = [a..<k] @ k # [k + 1..<b]"
    using assms(1,2) upt_add_eq_append [of a k "b - k"] upt_conv_Cons [of k b] by simp
  moreover have "round_row ls r [a..<k] = []" using assms(3) by (intro row_dead) simp
  ultimately show ?thesis by (simp add: round_row_def)
qed

lemma row_append: "round_row ls r (ks @ js) = round_row ls r ks @ round_row ls r js"
  by (simp add: round_row_def)

section \<open>One token\<close>

lemma advance_cursor:
  assumes ok: "lanes_ok L" and s: "s < length (la_lanes L)" and c: "la_cursors L ! s = (r, i)"
    and r: "r < length (ln_tokens (la_lanes L ! s))" and i: "i < length (ln_tokens (la_lanes L ! s) ! r)"
  shows "la_cursors (snd (lanes_advance s L)) =
    (la_cursors L)[s := if i + 1 < length (ln_tokens (la_lanes L ! s) ! r) then (r, i + 1) else (r + 1, 0)]"
proof -
  have "lane_ok (la_lanes L ! s)" using ok s by (simp add: lanes_ok_def)
  then have "length (ln_tokens (la_lanes L ! s)) < 2 ^ 32" "length (ln_tokens (la_lanes L ! s) ! r) < 2 ^ 32"
    using r by (auto simp: lane_ok_def)
  then have "wrap 32 (length (ln_tokens (la_lanes L ! s) ! r)) = length (ln_tokens (la_lanes L ! s) ! r)"
    "wrap 32 (i + 1) = i + 1" "wrap 32 (r + 1) = r + 1"
    using r i by (simp_all add: wrap_exact)
  then show ?thesis by (simp add: lanes_advance_def Let_def c)
qed

lemma cursor_live:
  assumes "lanes_ok L" "k < length (la_lanes L)" "la_cursors L ! k = (r, i)"
  shows "lanes_at L k \<noteq> None \<longleftrightarrow> r < length (ln_tokens (la_lanes L ! k))"
    and "lanes_at L k = Some a \<Longrightarrow> at_index a = i"
  using assms by (auto simp: lanes_at_def nth_opt_def lanes_ok_def split: if_splits)

lemma live_rest:
  assumes "lanes_ok L" "s < length (la_lanes L)" "la_cursors L ! s = (r, i)"
    and "r < length (ln_tokens (la_lanes L ! s))" "i < length (ln_tokens (la_lanes L ! s) ! r)"
  shows "lane_rest L s = drop i (ln_tokens (la_lanes L ! s) ! r) @ concat (drop (Suc r) (ln_tokens (la_lanes L ! s)))"
  using assms by (simp add: lane_rest_def concat_drop_nth)

lemma serve_token:
  assumes "lanes_ok L" "s < length (la_lanes L)" "la_cursors L ! s = (r, i)"
    and "r < length (ln_tokens (la_lanes L ! s))" "i < length (ln_tokens (la_lanes L ! s) ! r)"
    and "process_pick st (lanes_view L) = (Some s, \<lparr>pm_current = s, pm_started = True\<rparr>)"
  shows "\<exists>L' worst'. merge_loop process_pick st L out worst =
      merge_loop process_pick \<lparr>pm_current = s, pm_started = True\<rparr> L'
        (out @ map (\<lambda>i. \<lparr>ac_session = ln_session (la_lanes L ! s), ac_object = i\<rparr>) (drop i (ln_tokens (la_lanes L ! s) ! r))) worst' \<and>
      lanes_ok L' \<and> la_lanes L' = la_lanes L \<and> la_cursors L' = (la_cursors L)[s := (r + 1, 0)]"
  using assms
proof (induction "length (ln_tokens (la_lanes L ! s) ! r) - i" arbitrary: L i st out worst rule: less_induct)
  case less
  let ?ts = "ln_tokens (la_lanes L ! s)" and ?st = "\<lparr>pm_current = s, pm_started = True\<rparr>"
  let ?acc = "\<lambda>i. \<lparr>ac_session = ln_session (la_lanes L ! s), ac_object = i\<rparr>"
  let ?L = "snd (lanes_advance s L)"
  note rest = live_rest [OF less.prems(1-5)]
  have ne: "lane_rest L s \<noteq> []" using less.prems(5) rest by simp
  note A = advance_rest [OF less.prems(1,2) ne]
  note C = advance_cursor [OF less.prems(1-5)]
  have len: "s < length (la_cursors L)" using less.prems(1,2) by (simp add: lanes_ok_def)
  have hd: "hd (lane_rest L s) = ?ts ! r ! i" using less.prems(5) by (simp add: rest hd_drop_conv_nth)
  define worst1 where "worst1 = (case fst (lanes_advance s L) of None \<Rightarrow> worst
      | Some period \<Rightarrow> worst[s := max (worst ! s) period])"
  have run: "merge_loop process_pick st L out worst =
      merge_loop process_pick ?st ?L (out @ [?acc (?ts ! r ! i)]) worst1"
    unfolding worst1_def
    by (subst merge_loop.simps) (simp add: Let_def less.prems(6) A(1) hd)
  have dr: "drop i (?ts ! r) = ?ts ! r ! i # drop (i + 1) (?ts ! r)"
    using less.prems(5) by (metis Cons_nth_drop_Suc Suc_eq_plus1)
  show ?case
  proof (cases "i + 1 < length (?ts ! r)")
    case False
    then have "drop (i + 1) (?ts ! r) = []" by simp
    then show ?thesis
      using run A(2,3) C False dr by (intro exI [of _ ?L] exI [of _ worst1]) simp
  next
    case True
    then have cur: "la_cursors ?L ! s = (r, i + 1)" using C len by simp
    have "lanes_at ?L s \<noteq> None"
      using cursor_live(1) [OF A(2) _ cur] less.prems(2,4) by (simp add: A(3))
    then obtain a where a: "lanes_at ?L s = Some a" by blast
    have "at_index a = i + 1" using cursor_live(2) [OF A(2) _ cur a] less.prems(2) by (simp add: A(3))
    then have "process_pick ?st (lanes_view ?L) = (Some s, ?st)"
      by (simp add: process_pick_def Let_def lanes_view_def a)
    note pick = this
    have small: "length (ln_tokens (la_lanes ?L ! s) ! r) - (i + 1) < length (?ts ! r) - i"
      "s < length (la_lanes ?L)" "r < length (ln_tokens (la_lanes ?L ! s))" "i + 1 < length (ln_tokens (la_lanes ?L ! s) ! r)"
      using less.prems(2,4,5) True by (simp_all add: A(3))
    obtain L' worst' where "merge_loop process_pick ?st ?L (out @ [?acc (?ts ! r ! i)]) worst1 =
        merge_loop process_pick ?st L' ((out @ [?acc (?ts ! r ! i)]) @ map ?acc (drop (i + 1) (?ts ! r))) worst'"
      "lanes_ok L'" "la_lanes L' = la_lanes L" "la_cursors L' = (la_cursors ?L)[s := (r + 1, 0)]"
      using less.hyps [OF small(1) A(2) small(2) cur small(3,4) pick, of "out @ [?acc (?ts ! r ! i)]" worst1]
      unfolding A(3) by blast
    then show ?thesis
      using run C dr by (intro exI [of _ L'] exI [of _ worst']) simp
  qed
qed

section \<open>Round after round\<close>

lemma turn_order:
  assumes "s < n"
  shows "map (\<lambda>step. (s + step) mod n) [1..<n + 1] = [s + 1..<n] @ [0..<s + 1]"
proof (rule nth_equalityI)
  fix j assume "j < length (map (\<lambda>step. (s + step) mod n) [1..<n + 1])"
  then have j: "j < n" by (simp del: upt_Suc)
  show "map (\<lambda>step. (s + step) mod n) [1..<n + 1] ! j = ([s + 1..<n] @ [0..<s + 1]) ! j"
  proof (cases "s + 1 + j < n")
    case True
    then have "j < n - Suc s" by linarith
    with True show ?thesis using j by (simp add: nth_append del: upt_Suc)
  next
    case False
    then have "(s + (1 + j)) mod n = s + 1 + j - n" using assms j by (simp add: mod_if)
    moreover have "\<not> j < n - Suc s" using False by linarith
    ultimately show ?thesis using j False assms by (simp add: nth_append add.commute del: upt_Suc)
  qed
qed (use assms in simp)

lemma pick_next:
  assumes "s < wt_sessions w" "\<And>a. wt_at w s = Some a \<Longrightarrow> at_index a = 0"
  shows "process_pick \<lparr>pm_current = s, pm_started = True\<rparr> w =
    (case List.find (\<lambda>k. wt_at w k \<noteq> None) ([s + 1..<wt_sessions w] @ [0..<s + 1]) of
       None \<Rightarrow> (None, \<lparr>pm_current = s, pm_started = True\<rparr>)
     | Some k \<Rightarrow> (Some k, \<lparr>pm_current = k, pm_started = True\<rparr>))"
proof -
  have "max (wt_sessions w) 1 = wt_sessions w" using assms(1) by simp
  moreover have "(case wt_at w s of None \<Rightarrow> False | Some a \<Rightarrow> at_index a \<noteq> 0 \<or> \<not> True) = False"
    using assms(2) by (auto split: option.splits)
  ultimately show ?thesis
    unfolding process_pick_def Let_def process_major.simps turn_order [OF assms(1), symmetric] by (simp only: if_False process_major.simps)
qed

lemma find_append: "List.find P (xs @ ys) = (case List.find P xs of None \<Rightarrow> List.find P ys | Some x \<Rightarrow> Some x)"
  by (induction xs) auto

lemma find_upt:
  "List.find P [a..<b] = Some k \<Longrightarrow> a \<le> k \<and> k < b \<and> P k \<and> (\<forall>j. a \<le> j \<and> j < k \<longrightarrow> \<not> P j)"
proof -
  assume "List.find P [a..<b] = Some k"
  then obtain i where i: "i < b - a" "P (a + i)" "k = a + i" "\<forall>j < i. \<not> P (a + j)"
    by (auto simp: find_Some_iff)
  have "\<not> P j" if "a \<le> j" "j < k" for j
    using i(3,4) that by (metis add_less_cancel_left le_add_diff_inverse)
  with i show ?thesis by auto
qed

lemma rounds_from: "r < m \<Longrightarrow> concat (map f [r..<m]) = f r @ concat (map f [r + 1..<m])"
  by (simp add: upt_conv_Cons)

definition settled :: "lane list \<Rightarrow> nat \<Rightarrow> nat \<Rightarrow> lanes \<Rightarrow> bool" where
  "settled ls r s L \<longleftrightarrow> lanes_ok L \<and> la_lanes L = ls \<and> s < length ls \<and>
     (\<forall>k < length ls. la_cursors L ! k = (min (length (ln_tokens (ls ! k))) (if k \<le> s then r + 1 else r), 0))"

lemma settled_live:
  assumes "settled ls r s L" "k < length ls"
  shows "wt_at (lanes_view L) k \<noteq> None \<longleftrightarrow> (if k \<le> s then r + 1 else r) < length (ln_tokens (ls ! k))"
    and "wt_at (lanes_view L) k = Some a \<Longrightarrow> at_index a = 0"
proof -
  have L: "lanes_ok L" "la_lanes L = ls"
    and c: "la_cursors L ! k = (min (length (ln_tokens (ls ! k))) (if k \<le> s then r + 1 else r), 0)"
    using assms by (simp_all add: settled_def)
  show "wt_at (lanes_view L) k \<noteq> None \<longleftrightarrow> (if k \<le> s then r + 1 else r) < length (ln_tokens (ls ! k))"
    using cursor_live(1) [OF L(1) _ c] assms(2) by (simp add: L(2) lanes_view_def min_less_iff_disj)
  show "wt_at (lanes_view L) k = Some a \<Longrightarrow> at_index a = 0"
    using cursor_live(2) [OF L(1) _ c] assms(2) by (simp add: L(2) lanes_view_def)
qed

text \<open>Serving lane \<open>k\<close> its token of round \<open>q\<close> from a settled state settles there.\<close>

lemma settled_serve:
  assumes st: "settled ls r s L" and k: "k < length ls" "q < length (ln_tokens (ls ! k))" "q = (if k \<le> s then r + 1 else r)"
    and pick: "process_pick st (lanes_view L) = (Some k, \<lparr>pm_current = k, pm_started = True\<rparr>)"
    and dead: "\<And>j. j < length ls \<Longrightarrow> (if k \<le> s then s < j \<or> j < k else s < j \<and> j < k) \<Longrightarrow>
      length (ln_tokens (ls ! j)) \<le> (if j \<le> s then r + 1 else r)"
  shows "\<exists>L' worst'. merge_loop process_pick st L out worst =
      merge_loop process_pick \<lparr>pm_current = k, pm_started = True\<rparr> L' (out @ served ls q k) worst' \<and> settled ls q k L'"
proof -
  have L: "lanes_ok L" "la_lanes L = ls" using st by (simp_all add: settled_def)
  then have L3: "length (la_cursors L) = length ls" by (simp add: lanes_ok_def)
  have c: "la_cursors L ! k = (q, 0)" using st k by (simp add: settled_def)
  have "lane_ok (ls ! k)" using L(1,2) k(1) by (simp add: lanes_ok_def)
  then have ne: "0 < length (ln_tokens (ls ! k) ! q)" using k(2) by (auto simp: lane_ok_def)
  from serve_token [OF L(1) _ c _ _ pick, of out worst] k ne obtain L' worst' where R:
    "merge_loop process_pick st L out worst =
      merge_loop process_pick \<lparr>pm_current = k, pm_started = True\<rparr> L' (out @ served ls q k) worst'"
    "lanes_ok L'" "la_lanes L' = ls" "la_cursors L' = (la_cursors L)[k := (q + 1, 0)]"
    by (auto simp: L(2) served_def)
  have "la_cursors L' ! j = (min (length (ln_tokens (ls ! j))) (if j \<le> k then q + 1 else q), 0)" if j: "j < length ls" for j
  proof (cases "j = k")
    case True
    then show ?thesis using R(4) L3 k by simp
  next
    case False
    then have "la_cursors L' ! j = (min (length (ln_tokens (ls ! j))) (if j \<le> s then r + 1 else r), 0)"
      using R(4) st j by (simp add: settled_def)
    then show ?thesis using dead [OF j] k(3) False by (auto split: if_splits)
  qed
  then have "settled ls q k L'" using R(2,3) k(1) by (simp add: settled_def)
  with R(1) show ?thesis by blast
qed

lemma rounds_run:
  assumes "settled ls r s L"
  shows "\<exists>worst'. merge_loop process_pick \<lparr>pm_current = s, pm_started = True\<rparr> L out worst =
    Some (out @ round_row ls r [s + 1..<length ls] @
      concat (map (\<lambda>q. round_row ls q [0..<length ls]) [r + 1..<longest ls]), worst')"
  using assms
proof (induction "(longest ls - r) * (length ls + 1) + (length ls - s)" arbitrary: r s L out worst rule: less_induct)
  case less
  let ?n = "length ls" and ?st = "\<lparr>pm_current = s, pm_started = True\<rparr>" and ?w = "lanes_view L"
  let ?live = "\<lambda>k. wt_at ?w k \<noteq> None"
  have L: "lanes_ok L" "la_lanes L = ls" and s: "s < ?n" using less.prems by (simp_all add: settled_def)
  have wt: "wt_sessions ?w = ?n" by (simp add: lanes_view_def L(2))
  note live = settled_live(1) [OF less.prems]
  have pick: "process_pick ?st ?w = (case List.find ?live ([s + 1..<?n] @ [0..<s + 1]) of
      None \<Rightarrow> (None, ?st) | Some k \<Rightarrow> (Some k, \<lparr>pm_current = k, pm_started = True\<rparr>))"
    using pick_next [of s ?w] settled_live(2) [OF less.prems s] s unfolding wt by blast
  have short: "length (ln_tokens (ls ! j)) \<le> (if j \<le> s then r + 1 else r)" if "j < ?n" "\<not> ?live j" for j
    using live [OF that(1)] that(2) by (simp add: not_less)
  show ?case
  proof (cases "List.find ?live [s + 1..<?n]")
    case (Some k)
    have K: "s + 1 \<le> k" "k < ?n" "?live k" "\<And>j. s + 1 \<le> j \<Longrightarrow> j < k \<Longrightarrow> \<not> ?live j"
      using find_upt [OF Some] by blast+
    have q: "r < length (ln_tokens (ls ! k))" using live [OF K(2)] K(1,3) by simp
    have pk: "process_pick ?st ?w = (Some k, \<lparr>pm_current = k, pm_started = True\<rparr>)"
      using pick Some by (simp only: find_append option.case)
    have dead: "length (ln_tokens (ls ! j)) \<le> (if j \<le> s then r + 1 else r)"
      if "j < ?n" "if k \<le> s then s < j \<or> j < k else s < j \<and> j < k" for j
      using short [OF that(1)] K(1) K(4) [of j] that(2) by simp
    from settled_serve [OF less.prems K(2) q _ pk dead, of out worst] K(1) obtain L' worst' where
      run: "merge_loop process_pick ?st L out worst =
        merge_loop process_pick \<lparr>pm_current = k, pm_started = True\<rparr> L' (out @ served ls r k) worst'"
      and st: "settled ls r k L'" by (simp only: if_not_P not_le Suc_eq_plus1 [symmetric] Suc_le_eq) blast
    have row: "round_row ls r [s + 1..<?n] = served ls r k @ round_row ls r [k + 1..<?n]"
    proof (rule row_first [OF K(1,2)])
      show "\<forall>j. s + 1 \<le> j \<and> j < k \<longrightarrow> length (ln_tokens (ls ! j)) \<le> r"
      proof (intro allI impI)
        fix j assume j: "s + 1 \<le> j \<and> j < k"
        then show "length (ln_tokens (ls ! j)) \<le> r" using short [of j] K(2) K(4) [of j] by simp
      qed
    qed
    have "(longest ls - r) * (?n + 1) + (?n - k) < (longest ls - r) * (?n + 1) + (?n - s)"
      using K(1,2) by simp
    from less.hyps [OF this st, of "out @ served ls r k" worst'] show ?thesis
      unfolding run row by simp
  next
    case None
    then have dead1: "\<not> ?live j" if "s < j" "j < ?n" for j
      using that by (auto simp: find_None_iff)
    have row1: "round_row ls q [s + 1..<?n] = []" if "r \<le> q" for q
    proof (rule row_dead, rule ballI)
      fix j assume "j \<in> set [s + 1..<?n]"
      then show "length (ln_tokens (ls ! j)) \<le> q" using short [of j] dead1 [of j] that by simp
    qed
    show ?thesis
    proof (cases "List.find ?live [0..<s + 1]")
      case none: None
      have "process_pick ?st ?w = (None, ?st)" using pick None none by (simp only: find_append option.case)
      then have "merge_loop process_pick ?st L out worst = Some (out, worst)"
        by (subst merge_loop.simps) (simp add: Let_def)
      moreover have "round_row ls q [0..<?n] = []" if "r + 1 \<le> q" for q
      proof (rule row_dead, rule ballI)
        fix j assume "j \<in> set [0..<?n]"
        then have j: "j < ?n" by simp
        have "\<not> ?live j"
        proof (cases "j \<le> s")
          case True
          then have "j \<in> set [0..<s + 1]" by auto
          then show ?thesis using none unfolding find_None_iff by blast
        next
          case False
          then show ?thesis using dead1 [OF _ j] by simp
        qed
        then show "length (ln_tokens (ls ! j)) \<le> q" using short [OF j] that by (simp split: if_splits)
      qed
      then have "concat (map (\<lambda>q. round_row ls q [0..<?n]) [r + 1..<longest ls]) = []" by simp
      ultimately show ?thesis using row1 [of r] by simp
    next
      case (Some k)
      have K: "k < s + 1" "?live k" "\<And>j. j < k \<Longrightarrow> \<not> ?live j" using find_upt [OF Some] by blast+
      then have kn: "k < ?n" "k \<le> s" using s by simp_all
      have q: "r + 1 < length (ln_tokens (ls ! k))" using live [OF kn(1)] K(2) kn(2) by simp
      have pk: "process_pick ?st ?w = (Some k, \<lparr>pm_current = k, pm_started = True\<rparr>)"
        using pick None Some by (simp only: find_append option.case)
      have dead: "length (ln_tokens (ls ! j)) \<le> (if j \<le> s then r + 1 else r)"
        if "j < ?n" "if k \<le> s then s < j \<or> j < k else s < j \<and> j < k" for j
      proof (rule short [OF that(1)])
        show "\<not> ?live j" using dead1 [of j] K(3) [of j] that kn(2) by (cases "s < j") simp_all
      qed
      from settled_serve [OF less.prems kn(1) q _ pk dead, of out worst] kn(2) obtain L' worst' where
        run: "merge_loop process_pick ?st L out worst =
          merge_loop process_pick \<lparr>pm_current = k, pm_started = True\<rparr> L' (out @ served ls (r + 1) k) worst'"
        and st: "settled ls (r + 1) k L'" by (simp only: if_P) blast
      have m: "r + 1 < longest ls" using q longest_bound [OF kn(1)] by simp
      have small: "\<forall>j. 0 \<le> j \<and> j < k \<longrightarrow> length (ln_tokens (ls ! j)) \<le> r + 1"
      proof (intro allI impI)
        fix j assume "0 \<le> j \<and> j < k"
        then show "length (ln_tokens (ls ! j)) \<le> r + 1" using short [of j] K(3) [of j] kn by simp
      qed
      have row: "round_row ls (r + 1) [0..<?n] = served ls (r + 1) k @ round_row ls (r + 1) [k + 1..<?n]"
        by (rule row_first [OF _ kn(1) small]) simp
      have "(longest ls - (r + 1)) * (?n + 1) + (?n - k) < (longest ls - r) * (?n + 1) + (?n - s)"
      proof -
        have "longest ls - r = Suc (longest ls - (r + 1))" using m by simp
        then show ?thesis by simp
      qed
      from less.hyps [OF this st, of "out @ served ls (r + 1) k" worst'] show ?thesis
        unfolding run rounds_from [OF m] row row1 [OF order_refl] by simp
    qed
  qed
qed

lemma start_settled:
  assumes "\<forall>l \<in> set ls. lane_ok l" "0 < length ls" "ln_tokens (ls ! 0) = []"
  shows "settled ls 0 0 (lanes_over ls)"
  using lanes_over_ok [OF assms(1)] assms(2,3) by (simp add: settled_def lanes_over_def)

lemma process_major_merge:
  assumes ok: "\<forall>l \<in> set ls. lane_ok l"
  shows "merge_lanes process_pick process_major_default ls = Some (round_robin ls)"
proof (cases "ls = []")
  case True
  have "longest [] = 0" by (simp add: longest_def)
  then show ?thesis
    using True unfolding merge_lanes_def merge_timed_def round_robin_def
    by (subst merge_loop.simps) (simp add: process_pick_def lanes_view_def lanes_over_def lanes_at_def nth_opt_def Let_def)
next
  case False
  let ?L = "lanes_over ls" and ?st = "\<lparr>pm_current = 0, pm_started = True\<rparr>"
  let ?w = "replicate (length ls) 0"
  have n: "0 < length ls" using False by simp
  have L: "lanes_ok ?L" "la_lanes ?L = ls" "la_cursors ?L ! 0 = (0, 0)"
    using lanes_over_ok [OF ok] n by (simp_all add: lanes_over_def)
  note live = cursor_live [of ?L 0 0 0, OF L(1) _ L(3), unfolded L(2), OF n]
  have all: "round_robin ls = served ls 0 0 @ round_row ls 0 [1..<length ls] @
      concat (map (\<lambda>q. round_row ls q [0..<length ls]) [1..<longest ls])" if "0 < longest ls"
    using rounds_from [OF that, of "\<lambda>r. round_row ls r [0..<length ls]"] row_first [of 0 0 "length ls" ls 0] n
    by (simp add: round_robin_def)
  have none: "round_row ls 0 [1..<length ls] = []" "served ls 0 0 = []" "round_robin ls = []" if "longest ls = 0"
  proof -
    have empty: "length (ln_tokens (ls ! k)) \<le> 0" if "k < length ls" for k
      using longest_bound [OF that] \<open>longest ls = 0\<close> by simp
    show "round_row ls 0 [1..<length ls] = []" by (rule row_dead, rule ballI, rule empty) simp
    show "served ls 0 0 = []" using empty [OF n] by (simp add: served_def)
    show "round_robin ls = []" using that by (simp add: round_robin_def)
  qed
  have "\<exists>worst'. merge_loop process_pick process_major_default ?L [] ?w =
      Some (served ls 0 0 @ round_row ls 0 [1..<length ls] @
        concat (map (\<lambda>q. round_row ls q [0..<length ls]) [1..<longest ls]), worst')"
  proof (cases "ln_tokens (ls ! 0) = []")
    case True
    note st = start_settled [OF ok n True]
    have dead: "lanes_at ?L 0 = None" using live(1) True by simp
    then have "fst (process_pick process_major_default (lanes_view ?L)) = fst (process_pick ?st (lanes_view ?L)) \<and>
        (fst (process_pick ?st (lanes_view ?L)) \<noteq> None \<longrightarrow>
          snd (process_pick process_major_default (lanes_view ?L)) = snd (process_pick ?st (lanes_view ?L)))"
      by (simp add: process_pick_def process_major_default_def Let_def lanes_view_def split: option.splits)
    then have "merge_loop process_pick process_major_default ?L [] ?w = merge_loop process_pick ?st ?L [] ?w"
      by (subst (1 2) merge_loop.simps) (auto simp: Let_def split: option.splits)
    then show ?thesis using rounds_run [OF st, of "[]" ?w] True by (simp add: served_def)
  next
    case False
    then have "lanes_at ?L 0 \<noteq> None" using live(1) by simp
    then obtain a where a: "lanes_at ?L 0 = Some a" by blast
    have pk: "process_pick process_major_default (lanes_view ?L) = (Some 0, ?st)"
      by (simp add: process_pick_def process_major_default_def Let_def lanes_view_def a)
    have "ln_tokens (ls ! 0) ! 0 \<in> set (ln_tokens (ls ! 0))" using False by simp
    then have "0 < length (ln_tokens (ls ! 0) ! 0)" using ok n by (auto simp: lane_ok_def)
    from serve_token [OF L(1) _ L(3) _ _ pk, of "[]" ?w, unfolded L(2), OF n _ this] False
    obtain L' worst' where R: "merge_loop process_pick process_major_default ?L [] ?w = merge_loop process_pick ?st L' (served ls 0 0) worst'"
      "lanes_ok L'" "la_lanes L' = ls" "la_cursors L' = (la_cursors ?L)[0 := (1, 0)]"
      by (auto simp: served_def)
    have "settled ls 0 0 L'"
      using R(2-4) n False by (auto simp: settled_def lanes_over_def nth_list_update Suc_le_eq min_def not_le le_Suc_eq)
    from rounds_run [OF this, of "served ls 0 0" worst'] R(1) show ?thesis by simp
  qed
  then show ?thesis using all none unfolding merge_lanes_def merge_timed_def by (cases "longest ls = 0") auto
qed

text \<open>C25: Merging process-major comes to round-robin by whole tokens: in every round, each lane that still
  has a token is served all of it, in the order of the lanes, and the merge ends after the longest.\<close>

theorem process_major_rounds:
  assumes ok: "\<forall>l \<in> set ls. lane_ok l"
  shows "merge_lanes process_pick process_major_default ls = Some (round_robin ls)"
  by (rule process_major_merge [OF ok])

lemma process_major_rounds_witness:
  "map_option (map ac_session) (merge_lanes process_pick process_major_default
      [\<lparr>ln_session = 1, ln_ceiling = 0, ln_tokens = [[7, 8]]\<rparr>,
       \<lparr>ln_session = 2, ln_ceiling = 0, ln_tokens = [[7], [9, 9]]\<rparr>]) = Some [1, 1, 2, 2, 2]"
  by (subst process_major_rounds)
    (simp_all add: lane_ok_def round_robin_def longest_def round_row_def served_def upt_rec)

end
