(* ===== verification/Workload.thy ===== *)
theory Workload
  imports Rounds Synth SimProofs
begin

text \<open>
  crates/mlos-workload: decode loops as access traces. \<open>Decode\<close> runs over the synthetic model,
  \<open>Real\<close> over a model's tensor inventory read from a sidecar file. A session's stream is a list of
  tokens; the process-major schedule merges the sessions. Each workload is also the model that
  prices its own objects.
\<close>

section \<open>The synthetic decode loop (lib.rs, tokens.rs, model.rs)\<close>

definition WORKLOAD_MODEL :: string where "WORKLOAD_MODEL = ''synth-8x16+kv''"

record decode =
  de_sessions :: nat
  de_rounds :: nat

definition decode_of :: "nat \<Rightarrow> nat \<Rightarrow> decode" where
  "decode_of sessions rounds = \<lparr>de_sessions = sessions, de_rounds = rounds\<rparr>"

definition decode_length :: "decode \<Rightarrow> nat \<Rightarrow> nat" where
  "decode_length d which =
     (if de_sessions d = 0 then 0
      else wrap 16 (de_rounds d * wrap 16 (which + 1)) div de_sessions d)"

definition decode_header :: trace_header where
  "decode_header = \<lparr>th_model = WORKLOAD_MODEL, th_source = ''mlos-workload::Decode''\<rparr>"

definition decode_token :: "nat \<Rightarrow> nat \<Rightarrow> object_id list" where
  "decode_token session round =
     concat (map (\<lambda>layer.
         map (\<lambda>t. tile (of_nat layer) (of_nat t)) [0..<TILES] @
         map (\<lambda>at. kv_block (of_nat (session + 1)) (of_nat layer) (of_nat at)) [0..<round + 1])
       [0..<LAYERS])"

definition decode_tokens :: "decode \<Rightarrow> nat \<Rightarrow> object_id list list" where
  "decode_tokens d session = map (decode_token session) [0..<decode_length d session]"

definition decode_lanes :: "decode \<Rightarrow> lane list" where
  "decode_lanes d =
     map (\<lambda>s. \<lparr>ln_session = s + 1, ln_ceiling = 0, ln_tokens = decode_tokens d s\<rparr>) [0..<de_sessions d]"

definition decode_trace :: "decode \<Rightarrow> access list option" where
  "decode_trace d = merge_lanes process_pick process_major_default (decode_lanes d)"

definition decode_text :: "decode \<Rightarrow> string option" where
  "decode_text d = map_option (trace_render decode_header) (decode_trace d)"

definition decode_meta :: "object_id \<Rightarrow> object_meta option" where
  "decode_meta i =
     (case object_class_of i of
        Some WeightTile \<Rightarrow> Some weights
      | Some Activation \<Rightarrow> Some activations
      | Some KvBlock \<Rightarrow> Some (kv_meta (unat (f_model (object_fields i))))
      | _ \<Rightarrow> None)"

section \<open>A model's inventory (shape.rs)\<close>

record tensor =
  te_name :: string
  te_rows :: nat
  te_cols :: nat
  te_bytes :: nat
  te_layer :: nat
  te_tensor :: nat
  te_rotating :: bool

record inventory =
  in_name :: string
  in_streams :: "tensor list"
  in_layers :: nat
  in_bpe :: nat

definition OUTSIDE :: nat where "OUTSIDE = umax 16"

datatype shape_error = BadRotating | FewFields | BadRows | BadCols | NoRotating

text \<open>\<open>str::split\<close> at a character.\<close>

fun split_char :: "char \<Rightarrow> string \<Rightarrow> string \<Rightarrow> string list" where
  "split_char d cur [] = [cur]"
| "split_char d cur (c # cs) = (if c = d then cur # split_char d [] cs else split_char d (cur @ [c]) cs)"

definition tab :: char where "tab = CHR 0x09"

definition name_layer :: "string \<Rightarrow> nat" where
  "name_layer name =
     (case strip_prefix ''model.layers.'' name of
        None \<Rightarrow> OUTSIDE
      | Some rest \<Rightarrow>
          (case parse_uint 10 (umax 16) (hd (split_char CHR ''.'' [] rest)) of None \<Rightarrow> OUTSIDE | Some n \<Rightarrow> n))"

definition shape_row :: "string \<Rightarrow> nat \<Rightarrow> shape_error + tensor" where
  "shape_row line bpe =
     (case split_char tab [] line of
        _ # name # rows # cols # _ \<Rightarrow>
          (case parse_uint 10 (umax 32) rows of
             None \<Rightarrow> Inl BadRows
           | Some r \<Rightarrow>
               (case parse_uint 10 (umax 32) cols of
                  None \<Rightarrow> Inl BadCols
                | Some c \<Rightarrow>
                    (let bytes = wrap 64 (wrap 64 (r * c) * bpe) in
                     Inr \<lparr>te_name = name, te_rows = r, te_cols = c,
                          te_bytes = (if umax 32 < bytes then umax 32 else bytes),
                          te_layer = name_layer name, te_tensor = 0, te_rotating = False\<rparr>)))
      | _ \<Rightarrow> Inl FewFields)"

fun place_loop :: "nat \<Rightarrow> nat \<Rightarrow> nat \<Rightarrow> nat list \<Rightarrow> tensor list \<Rightarrow> tensor list" where
  "place_loop layers rotating at ordinal [] = []"
| "place_loop layers rotating at ordinal (s # ss) =
     (let layer = (if te_layer s = OUTSIDE then layers else te_layer s) in
      s\<lparr>te_layer := layer, te_tensor := ordinal ! layer, te_rotating := at < rotating\<rparr> #
      place_loop layers rotating (at + 1) (ordinal[layer := wrap 16 (ordinal ! layer + 1)]) ss)"

definition shape_place :: "string \<Rightarrow> tensor list \<Rightarrow> nat \<Rightarrow> nat \<Rightarrow> inventory" where
  "shape_place name streams rotating bpe =
     (let layers = foldr max (map (\<lambda>s. te_layer s + 1) (filter (\<lambda>s. te_layer s \<noteq> OUTSIDE) streams)) 0 in
      \<lparr>in_name = name, in_streams = place_loop layers rotating 0 (replicate (layers + 1) 0) streams,
       in_layers = layers, in_bpe = bpe\<rparr>)"

fun shape_lines ::
  "nat \<Rightarrow> string list \<Rightarrow> nat option \<Rightarrow> tensor list \<Rightarrow> shape_error + nat option \<times> tensor list" where
  "shape_lines bpe [] rotating streams = Inr (rotating, streams)"
| "shape_lines bpe (l # ls) rotating streams =
     (case strip_prefix (''# rotating-streams'' @ [tab]) l of
        Some rest \<Rightarrow>
          (case parse_uint 10 (umax 64) (trim rest) of
             None \<Rightarrow> Inl BadRotating
           | Some n \<Rightarrow> shape_lines bpe ls (Some n) streams)
      | None \<Rightarrow>
          if \<not> starts_with l ''#'' \<and> trim l \<noteq> []
          then (case shape_row l bpe of
                  Inl e \<Rightarrow> Inl e
                | Inr s \<Rightarrow> shape_lines bpe ls rotating (streams @ [s]))
          else shape_lines bpe ls rotating streams)"

definition shape_name :: "string \<Rightarrow> string" where
  "shape_name t =
     (case text_lines t of
        [] \<Rightarrow> ''unnamed''
      | first # _ \<Rightarrow> (case strip_prefix ''# Stream names for '' first of None \<Rightarrow> ''unnamed'' | Some n \<Rightarrow> n))"

definition shape_parse :: "string \<Rightarrow> nat \<Rightarrow> shape_error + inventory" where
  "shape_parse t bpe =
     (case shape_lines bpe (text_lines t) None [] of
        Inl e \<Rightarrow> Inl e
      | Inr (None, _) \<Rightarrow> Inl NoRotating
      | Inr (Some rotating, streams) \<Rightarrow> Inr (shape_place (shape_name t) streams rotating bpe))"

definition kv_block_bytes :: "inventory \<Rightarrow> nat" where
  "kv_block_bytes sh =
     wrap 32 (sum_list (map (\<lambda>s. wrap 32 (te_rows s * in_bpe sh))
       (filter (\<lambda>s. te_layer s = 0 \<and> (contains (te_name s) ''k_proj'' \<or> contains (te_name s) ''v_proj''))
         (in_streams sh))))"

section \<open>The decode loop over an inventory (real.rs, tokens.rs, model.rs)\<close>

definition MODEL_ID :: nat where "MODEL_ID = 2"

record context_cut =
  cc_prefix :: nat
  cc_per_block :: nat

definition DECODE_ONLY :: context_cut where "DECODE_ONLY = \<lparr>cc_prefix = 0, cc_per_block = 1\<rparr>"

record real =
  rl_shape :: inventory
  rl_loop :: decode
  rl_context :: context_cut

definition real_of :: "inventory \<Rightarrow> nat \<Rightarrow> nat \<Rightarrow> context_cut \<Rightarrow> real" where
  "real_of shape sessions rounds c =
     \<lparr>rl_shape = shape, rl_loop = decode_of sessions rounds, rl_context = c\<rparr>"

definition real_header :: "real \<Rightarrow> trace_header" where
  "real_header rl = \<lparr>th_model = in_name (rl_shape rl), th_source = ''mlos-workload::Real''\<rparr>"

definition real_object :: "tensor \<Rightarrow> object_id" where
  "real_object s =
     object_new WeightTile
       \<lparr>f_model = of_nat MODEL_ID, f_layer = of_nat (te_layer s), f_tensor = of_nat (te_tensor s), f_tile = 0\<rparr>"

definition cached_blocks :: "real \<Rightarrow> nat \<Rightarrow> nat" where
  "cached_blocks rl round =
     (let per = max (cc_per_block (rl_context rl)) 1;
          tokens = cc_prefix (rl_context rl) + round + 1
      in (tokens + per - 1) div per)"

definition real_token :: "real \<Rightarrow> nat \<Rightarrow> nat \<Rightarrow> object_id list" where
  "real_token rl session round =
     (let sh = rl_shape rl in
      (if session = 0 \<and> round = 0 then map real_object (filter (\<lambda>s. \<not> te_rotating s) (in_streams sh)) else []) @
      concat (map (\<lambda>s. real_object s #
          (if te_layer s < in_layers sh \<and> contains (te_name s) ''v_proj''
           then map (\<lambda>b. kv_block (of_nat (session + 1)) (of_nat (te_layer s)) (of_nat b)) [0..<cached_blocks rl round]
           else []))
        (filter te_rotating (in_streams sh))))"

definition real_tokens :: "real \<Rightarrow> nat \<Rightarrow> object_id list list" where
  "real_tokens rl session = map (real_token rl session) [0..<decode_length (rl_loop rl) session]"

definition real_lanes :: "real \<Rightarrow> lane list" where
  "real_lanes rl =
     map (\<lambda>s. \<lparr>ln_session = s + 1, ln_ceiling = 0, ln_tokens = real_tokens rl s\<rparr>) [0..<de_sessions (rl_loop rl)]"

definition real_trace :: "real \<Rightarrow> access list option" where
  "real_trace rl = merge_lanes process_pick process_major_default (real_lanes rl)"

definition fetching :: "nat \<Rightarrow> nat" where
  "fetching sz = sat_add 32 3000000 sz"

definition real_meta :: "real \<Rightarrow> object_id \<Rightarrow> object_meta option" where
  "real_meta rl i =
     (let f = object_fields i in
      case object_class_of i of
        Some WeightTile \<Rightarrow>
          if f_model f = of_nat MODEL_ID
          then map_option (\<lambda>s. weights\<lparr>m_size := te_bytes s, m_precision := Fp16, m_reload_cost := fetching (te_bytes s)\<rparr>)
                 (List.find (\<lambda>s. te_layer s = unat (f_layer f) \<and> te_tensor s = unat (f_tensor f))
                   (in_streams (rl_shape rl)))
          else None
      | Some KvBlock \<Rightarrow>
          Some ((kv_meta (unat (f_model f)))
            \<lparr>m_size := wrap 32 (kv_block_bytes (rl_shape rl) * cc_per_block (rl_context rl))\<rparr>)
      | _ \<Rightarrow> None)"

section \<open>Streams have names of their own\<close>

lemma place_loop_spec:
  assumes "\<forall>s \<in> set ss. te_layer s = OUTSIDE \<or> te_layer s < layers" "length ordinal = layers + 1"
    and "\<forall>l \<le> layers. ordinal ! l + length ss < 2 ^ 16"
  shows "length (place_loop layers rotating at ordinal ss) = length ss \<and>
    (\<forall>s \<in> set (place_loop layers rotating at ordinal ss). te_layer s \<le> layers \<and> ordinal ! te_layer s \<le> te_tensor s \<and>
       te_tensor s < 2 ^ 16) \<and>
    distinct (map (\<lambda>s. (te_layer s, te_tensor s)) (place_loop layers rotating at ordinal ss))"
  using assms
proof (induction ss arbitrary: at ordinal)
  case (Cons s ss)
  define layer where "layer = (if te_layer s = OUTSIDE then layers else te_layer s)"
  have l: "layer \<le> layers" using Cons.prems(1) by (auto simp: layer_def)
  have "ordinal ! layer + length (s # ss) < 2 ^ 16" using Cons.prems(3) l by blast
  then have w: "wrap 16 (ordinal ! layer + 1) = ordinal ! layer + 1" and small: "ordinal ! layer < 2 ^ 16"
    by (simp_all add: wrap_exact)
  define o' where "o' = ordinal[layer := ordinal ! layer + 1]"
  have o': "length o' = layers + 1" "\<And>k. k \<le> layers \<Longrightarrow> o' ! k = (if k = layer then ordinal ! k + 1 else ordinal ! k)"
    using Cons.prems(2) l by (simp_all add: o'_def)
  have "\<forall>k \<le> layers. o' ! k + length ss < 2 ^ 16"
    using Cons.prems(3) o'(2) by fastforce
  from Cons.IH [OF _ o'(1) this, of "at + 1"] Cons.prems(1) have IH:
    "length (place_loop layers rotating (at + 1) o' ss) = length ss"
    "\<forall>s \<in> set (place_loop layers rotating (at + 1) o' ss). te_layer s \<le> layers \<and> o' ! te_layer s \<le> te_tensor s \<and> te_tensor s < 2 ^ 16"
    "distinct (map (\<lambda>s. (te_layer s, te_tensor s)) (place_loop layers rotating (at + 1) o' ss))" by simp_all
  let ?s = "s\<lparr>te_layer := layer, te_tensor := ordinal ! layer, te_rotating := at < rotating\<rparr>"
  have run: "place_loop layers rotating at ordinal (s # ss) = ?s # place_loop layers rotating (at + 1) o' ss"
    by (simp add: layer_def [symmetric] w [simplified] o'_def Let_def)
  have "(layer, ordinal ! layer) \<noteq> (te_layer t, te_tensor t)" if "t \<in> set (place_loop layers rotating (at + 1) o' ss)" for t
    using IH(2) that o'(2) l by fastforce
  moreover have "ordinal ! te_layer t \<le> te_tensor t" if "t \<in> set (place_loop layers rotating (at + 1) o' ss)" for t
  proof -
    have "te_layer t \<le> layers" "o' ! te_layer t \<le> te_tensor t" using IH(2) that by blast+
    then show ?thesis using o'(2) [of "te_layer t"] by (simp split: if_splits)
  qed
  ultimately show ?case unfolding run using IH l small by auto
qed simp

definition placed :: "inventory \<Rightarrow> bool" where
  "placed sh \<longleftrightarrow> (\<forall>s \<in> set (in_streams sh). te_layer s < 2 ^ 16 \<and> te_tensor s < 2 ^ 16) \<and>
     distinct (map (\<lambda>s. (te_layer s, te_tensor s)) (in_streams sh))"

lemma foldr_max_le: "\<forall>x \<in> set xs. x \<le> b \<Longrightarrow> foldr max xs 0 \<le> (b :: nat)"
  by (induction xs) auto

lemma foldr_max_ge: "x \<in> set xs \<Longrightarrow> x \<le> foldr max xs (0 :: nat)"
  by (induction xs) (auto simp: le_max_iff_disj)

lemma shape_place_placed:
  assumes "length ss < 2 ^ 16" "\<forall>s \<in> set ss. te_layer s \<le> umax 16"
  shows "placed (shape_place name ss rotating bpe)" "length (in_streams (shape_place name ss rotating bpe)) = length ss"
proof -
  define layers where "layers = foldr max (map (\<lambda>s. te_layer s + 1) (filter (\<lambda>s. te_layer s \<noteq> OUTSIDE) ss)) 0"
  have "layers < 2 ^ 16"
  proof -
    have "layers \<le> umax 16" unfolding layers_def using assms(2) by (intro foldr_max_le) (auto simp: OUTSIDE_def)
    then show ?thesis by simp
  qed
  have "\<forall>s \<in> set ss. te_layer s = OUTSIDE \<or> te_layer s < layers"
  proof
    fix s assume "s \<in> set ss"
    then have "te_layer s + 1 \<le> layers" if "te_layer s \<noteq> OUTSIDE"
      unfolding layers_def using that by (intro foldr_max_ge) auto
    then show "te_layer s = OUTSIDE \<or> te_layer s < layers" by (cases "te_layer s = OUTSIDE") simp_all
  qed
  from place_loop_spec [OF this, of "replicate (layers + 1) 0" rotating 0] assms(1)
  have R: "length (place_loop layers rotating 0 (replicate (layers + 1) 0) ss) = length ss"
    "\<forall>s \<in> set (place_loop layers rotating 0 (replicate (layers + 1) 0) ss). te_layer s \<le> layers \<and> te_tensor s < 2 ^ 16"
    "distinct (map (\<lambda>s. (te_layer s, te_tensor s)) (place_loop layers rotating 0 (replicate (layers + 1) 0) ss))"
    by (simp_all del: replicate_Suc add: nth_replicate)
  have S: "in_streams (shape_place name ss rotating bpe) = place_loop layers rotating 0 (replicate (layers + 1) 0) ss"
    unfolding layers_def by (simp only: shape_place_def Let_def inventory.simps)
  show "placed (shape_place name ss rotating bpe)" "length (in_streams (shape_place name ss rotating bpe)) = length ss"
    using R \<open>layers < 2 ^ 16\<close> unfolding placed_def S by fastforce+
qed

lemma parse_uint_le: "parse_uint radix largest s = Some n \<Longrightarrow> n \<le> largest"
proof -
  have "digits_value radix largest acc ds = Some n \<Longrightarrow> ds \<noteq> [] \<or> acc \<le> largest \<Longrightarrow> n \<le> largest" for acc ds
  proof (induction ds arbitrary: acc)
    case (Cons c cs)
    then show ?case by (auto simp: Let_def split: option.splits if_splits)
  qed auto
  then show "parse_uint radix largest s = Some n \<Longrightarrow> ?thesis"
    by (auto simp: parse_uint_def Let_def split: if_splits list.splits)
qed

lemma name_layer_le: "name_layer name \<le> umax 16"
  by (auto simp: name_layer_def OUTSIDE_def split: option.splits dest: parse_uint_le)

lemma shape_row_layer: "shape_row line bpe = Inr s \<Longrightarrow> te_layer s \<le> umax 16"
  using name_layer_le by (auto simp del: umax_16 simp: shape_row_def Let_def split: list.splits option.splits)

lemma shape_lines_layer:
  "shape_lines bpe ls rotating streams = Inr (r, ss) \<Longrightarrow> \<forall>s \<in> set streams. te_layer s \<le> umax 16 \<Longrightarrow>
     \<forall>s \<in> set ss. te_layer s \<le> umax 16"
proof (induction ls arbitrary: rotating streams)
  case (Cons l ls)
  from Cons.prems show ?case
    by (auto split: option.splits if_splits sum.splits dest!: Cons.IH shape_row_layer)
qed auto

lemma shape_parse_placed:
  assumes "shape_parse t bpe = Inr sh" "length (in_streams sh) < 2 ^ 16"
  shows "placed sh"
proof -
  obtain rotating ss where run: "shape_lines bpe (text_lines t) None [] = Inr (Some rotating, ss)"
    and sh: "sh = shape_place (shape_name t) ss rotating bpe"
    using assms(1) by (auto simp: shape_parse_def split: sum.splits option.splits)
  have layers: "\<forall>s \<in> set ss. te_layer s \<le> umax 16" using shape_lines_layer [OF run] by simp
  have "length (place_loop l rotating at o' ss) = length ss" for l at o'
    by (induction ss arbitrary: at o') (simp_all add: Let_def)
  then have "length ss < 2 ^ 16" using assms(2) by (simp add: sh shape_place_def Let_def)
  from shape_place_placed(1) [OF this layers] show ?thesis by (simp add: sh)
qed

text \<open>A sidecar of fewer than 2^16 streams gives every stream an object of its own, and the workload prices
  that object as exactly that stream: the size and the fetch are the stream's, whatever its layer.\<close>

theorem inventory_priced:
  assumes "shape_parse t bpe = Inr (rl_shape rl)" "length (in_streams (rl_shape rl)) < 2 ^ 16"
  shows "distinct (map real_object (in_streams (rl_shape rl))) \<and>
    (\<forall>s \<in> set (in_streams (rl_shape rl)). real_meta rl (real_object s) =
       Some (weights\<lparr>m_size := te_bytes s, m_precision := Fp16, m_reload_cost := sat_add 32 3000000 (te_bytes s)\<rparr>))"
proof -
  let ?ss = "in_streams (rl_shape rl)" and ?key = "\<lambda>s. (te_layer s, te_tensor s)"
  have P: "\<forall>s \<in> set ?ss. te_layer s < 2 ^ 16 \<and> te_tensor s < 2 ^ 16" "distinct (map ?key ?ss)"
    using shape_parse_placed [OF assms] by (simp_all add: placed_def)
  have f: "object_class_of (real_object s) = Some WeightTile" "f_model (object_fields (real_object s)) = of_nat MODEL_ID"
    "unat (f_layer (object_fields (real_object s))) = te_layer s" "unat (f_tensor (object_fields (real_object s))) = te_tensor s"
    if "s \<in> set ?ss" for s
    using that P(1) object_id_roundtrip by (simp_all add: real_object_def unsigned_of_nat take_bit_nat_eq_self)
  have key: "?key s = ?key u \<Longrightarrow> s = u" if "s \<in> set ?ss" "u \<in> set ?ss" for s u
    using P(2) that by (meson distinct_map inj_onD)
  have "distinct (map real_object ?ss)"
    using P(2) f(3,4) unfolding distinct_map inj_on_def by metis
  moreover have "List.find (\<lambda>u. te_layer u = te_layer s \<and> te_tensor u = te_tensor s) ?ss = Some s" if s: "s \<in> set ?ss" for s
  proof -
    obtain u where u: "List.find (\<lambda>u. te_layer u = te_layer s \<and> te_tensor u = te_tensor s) ?ss = Some u"
      using s by (cases "List.find (\<lambda>u. te_layer u = te_layer s \<and> te_tensor u = te_tensor s) ?ss") (auto simp: find_None_iff)
    from find_Some [OF u] key [of u s] s u show ?thesis by simp
  qed
  ultimately show ?thesis
    using f by (simp add: real_meta_def Let_def fetching_def)
qed

definition small_sidecar :: string where
  "small_sidecar =
     ''# rotating-streams'' @ [tab] @ ''1'' @ [newline] @ ''0'' @ [tab] @ ''norm'' @ [tab] @ ''2'' @ [tab] @ ''4'' @ [newline]"

lemma small_sidecar_parse:
  "shape_parse small_sidecar 2 = Inr \<lparr>in_name = ''unnamed'', in_streams =
     [\<lparr>te_name = ''norm'', te_rows = 2, te_cols = 4, te_bytes = 16, te_layer = 0, te_tensor = 0, te_rotating = True\<rparr>],
     in_layers = 0, in_bpe = 2\<rparr>"
proof -
  have lines: "text_lines small_sidecar =
      [''# rotating-streams'' @ [tab] @ ''1'', ''0'' @ [tab] @ ''norm'' @ [tab] @ ''2'' @ [tab] @ ''4'']"
    by (simp add: small_sidecar_def text_lines_def tab_def newline_def strip_carriage_def carriage_def)
  have row: "shape_row (''0'' @ [tab] @ ''norm'' @ [tab] @ ''2'' @ [tab] @ ''4'') 2 =
      Inr \<lparr>te_name = ''norm'', te_rows = 2, te_cols = 4, te_bytes = 16, te_layer = OUTSIDE, te_tensor = 0, te_rotating = False\<rparr>"
    by (simp add: shape_row_def tab_def parse_uint_def digit_of_def name_layer_def wrap_def Let_def)
  have one: "parse_uint 10 18446744073709551615 ''1'' = Some 1"
    by (simp add: parse_uint_def digit_of_def Let_def)
  show ?thesis
    unfolding shape_parse_def lines
    by (simp add: row [unfolded tab_def, simplified] one shape_name_def lines starts_with_def shape_place_def Let_def tab_def
        trim_def trim_start_def trim_end_def is_space_def)
qed

lemma inventory_priced_witness:
  "\<exists>sh. shape_parse small_sidecar 2 = Inr sh \<and>
     map_option m_size (real_meta (real_of sh 1 1 DECODE_ONLY) (real_object (hd (in_streams sh)))) = Some 16"
  using inventory_priced [of small_sidecar 2 "real_of _ 1 1 DECODE_ONLY"] small_sidecar_parse
  by (fastforce simp: real_of_def)

section \<open>A workload is the model of its own trace\<close>

lemma sim_make_room_mismatched:
  "sim_make_room ru w r out = Some (r', out') \<Longrightarrow> ou_mismatched out' = ou_mismatched out"
proof (induction ru w r out rule: sim_make_room.induct)
  case (1 ru w r out)
  show ?case
    using 1 by (subst (asm) sim_make_room.simps) (auto split: if_splits option.splits sum.splits prod.splits)
qed

lemma sim_step_mismatched:
  assumes "ru_model ru i \<noteq> None" "sim_step ru i now r out = Some (r', out')"
  shows "ou_mismatched out' = ou_mismatched out"
  using assms
  by (auto simp: sim_step_def sim_fetch_def read_counts_def Let_def dest!: sim_make_room_mismatched
      split: option.splits prod.splits sum.splits bool.splits if_splits)

lemma replay_loop_mismatched:
  "\<forall>a \<in> set as. ru_model ru (ac_object a) \<noteq> None \<Longrightarrow> replay_loop ru k as r out = Some (r', out') \<Longrightarrow>
     ou_mismatched out' = ou_mismatched out"
proof (induction as arbitrary: k r out)
  case (Cons a as)
  obtain r1 out1 where step: "sim_step ru (ac_object a) (wrap 32 (wrap 32 k + 1)) r out = Some (r1, out1)"
    "replay_loop ru (k + 1) as r1 out1 = Some (r', out')"
    using Cons.prems(2) by (auto split: option.splits)
  with Cons.IH [OF _ step(2)] Cons.prems(1) sim_step_mismatched [OF _ step(1)] show ?case by simp
qed simp

lemma replay_matched:
  assumes "\<forall>a \<in> set (tr_accesses tr). model (ac_object a) \<noteq> None" "replay base tr model budget policy = Some out"
  shows "ou_mismatched out = 0"
  using assms by (auto simp: replay_def replay_ends_def Let_def outcome_default_def split: option.splits
      dest!: replay_loop_mismatched [rotated])

lemma round_robin_from:
  assumes "a \<in> set (round_robin ls)"
  shows "\<exists>l \<in> set ls. ac_session a = ln_session l \<and> (\<exists>t \<in> set (ln_tokens l). ac_object a \<in> set t)"
proof -
  obtain r k where "k < length ls" "a \<in> set (served ls r k)"
    using assms by (auto simp: round_robin_def round_row_def)
  then show ?thesis
    by (intro bexI [of _ "ls ! k"]) (auto simp: served_def split: if_splits)
qed

lemma decode_length_le:
  assumes "de_rounds d * de_sessions d < 2 ^ 16" "s < de_sessions d"
  shows "decode_length d s = de_rounds d * (s + 1) div de_sessions d" "decode_length d s \<le> de_rounds d"
proof -
  have le: "de_rounds d * (s + 1) \<le> de_rounds d * de_sessions d"
    using assms(2) by (intro mult_le_mono2) simp
  show eq: "decode_length d s = de_rounds d * (s + 1) div de_sessions d"
  proof (cases "de_rounds d = 0")
    case False
    then have "1 * (s + 1) \<le> de_rounds d * (s + 1)" by (intro mult_le_mono1) simp
    then have "s + 1 \<le> de_rounds d * (s + 1)" by simp
    then have "s + 1 < 2 ^ 16" using le assms(1) by linarith
    moreover have "de_rounds d * (s + 1) < 2 ^ 16" using le assms(1) by linarith
    ultimately show ?thesis using assms(2) by (simp add: decode_length_def wrap_exact)
  qed (simp add: decode_length_def wrap_def)
  have "de_rounds d * (s + 1) div de_sessions d \<le> de_rounds d * de_sessions d div de_sessions d"
    using le by (rule div_le_mono)
  then show "decode_length d s \<le> de_rounds d" using assms(2) unfolding eq by simp
qed

lemma decode_token_length: "length (decode_token session round) = LAYERS * (TILES + round + 1)"
  by (simp add: decode_token_def length_concat comp_def sum_list_triv)

lemma decode_lanes_ok:
  assumes "de_rounds d * de_sessions d < 2 ^ 16"
  shows "\<forall>l \<in> set (decode_lanes d). lane_ok l"
proof
  fix l assume "l \<in> set (decode_lanes d)"
  then obtain s where s: "s < de_sessions d" and l: "ln_tokens l = decode_tokens d s"
    by (auto simp: decode_lanes_def)
  have "de_rounds d \<le> de_rounds d * de_sessions d" using s by simp
  then have n: "decode_length d s < 2 ^ 16" using decode_length_le(2) [OF assms s] assms by linarith
  have "t \<noteq> [] \<and> length t < 2 ^ 32" if member: "t \<in> set (ln_tokens l)" for t
  proof -
    obtain r where t: "t = decode_token s r" "r < decode_length d s" using member unfolding l decode_tokens_def by auto
    then have "length t = LAYERS * (TILES + r + 1)" by (simp only: decode_token_length)
    then have "length t = 8 * r + 136" by (simp add: LAYERS_def TILES_def)
    moreover have "r < 65536" using t(2) n by simp
    ultimately have "0 < length t" "length t < 4294967296" by linarith+
    then show ?thesis by simp
  qed
  then show "lane_ok l" using n by (simp add: lane_ok_def l decode_tokens_def)
qed

lemma decode_meta_known:
  "decode_meta (tile a b) = Some weights" "decode_meta (kv_block s l p) = Some (kv_meta (unat s))"
  by (simp_all add: decode_meta_def tile_def kv_block_def object_id_roundtrip)

lemma decode_meta_ok: "model_ok decode_meta"
  by (auto simp: model_ok_def decode_meta_def weights_def activations_def kv_meta_def TILE_BYTES_def
      ACTIVATION_BYTES_def KV_BYTES_def split: option.splits object_class.splits)

lemma decode_token_known: "i \<in> set (decode_token session round) \<Longrightarrow> decode_meta i \<noteq> None"
  by (auto simp: decode_token_def decode_meta_known)

text \<open>A synthetic workload whose rounds times sessions fit 16 bits generates its trace: in every round,
  each session that still has one is served its whole token, every weight tile of each layer and then the layer's
  cache so far. Session s of n lasts rounds * (s+1) / n of the rounds. The workload prices every object of its own
  trace, so a replay of it ends, under every policy, with no access mismatched.\<close>

theorem decode_trace_matched:
  assumes "de_rounds d * de_sessions d < 2 ^ 16" "length (round_robin (decode_lanes d)) < 2 ^ 32"
    and "0 < budget" "base + budget < 2 ^ 64"
  shows "decode_trace d = Some (round_robin (decode_lanes d)) \<and>
    map (length \<circ> ln_tokens) (decode_lanes d) = map (\<lambda>s. de_rounds d * (s + 1) div de_sessions d) [0..<de_sessions d] \<and>
    (\<exists>out. replay base \<lparr>tr_header = decode_header, tr_accesses = round_robin (decode_lanes d)\<rparr> decode_meta budget policy = Some out \<and>
       ou_mismatched out = 0 \<and> ou_hits out + ou_reads out + ou_refused out = length (round_robin (decode_lanes d)))"
proof (intro conjI)
  let ?tr = "\<lparr>tr_header = decode_header, tr_accesses = round_robin (decode_lanes d)\<rparr>"
  show "decode_trace d = Some (round_robin (decode_lanes d))"
    unfolding decode_trace_def by (rule process_major_merge [OF decode_lanes_ok [OF assms(1)]])
  show "map (length \<circ> ln_tokens) (decode_lanes d) = map (\<lambda>s. de_rounds d * (s + 1) div de_sessions d) [0..<de_sessions d]"
    using decode_length_le(1) [OF assms(1)] by (simp add: decode_lanes_def decode_tokens_def)
  have known: "\<forall>a \<in> set (tr_accesses ?tr). decode_meta (ac_object a) \<noteq> None"
  proof
    fix a assume "a \<in> set (tr_accesses ?tr)"
    then obtain l t where "l \<in> set (decode_lanes d)" "t \<in> set (ln_tokens l)" "ac_object a \<in> set t"
      using round_robin_from by fastforce
    then show "decode_meta (ac_object a) \<noteq> None"
      using decode_token_known by (auto simp: decode_lanes_def decode_tokens_def)
  qed
  from replay_counted [OF decode_meta_ok, of ?tr, OF _ assms(3,4), of policy] assms(2) obtain r out
    where out: "replay base ?tr decode_meta budget policy = Some (out\<lparr>ou_kv_resident := held_of KvBlock r\<rparr>)"
      "ou_hits out + ou_reads out + ou_refused out + ou_mismatched out = length (tr_accesses ?tr)" by auto
  with replay_matched [OF known out(1)]
  show "\<exists>out. replay base ?tr decode_meta budget policy = Some out \<and>
       ou_mismatched out = 0 \<and> ou_hits out + ou_reads out + ou_refused out = length (round_robin (decode_lanes d))"
    by (intro exI [of _ "out\<lparr>ou_kv_resident := held_of KvBlock r\<rparr>"]) simp
qed

lemma decode_trace_matched_witness:
  "\<exists>out. replay 4096 \<lparr>tr_header = decode_header, tr_accesses = round_robin (decode_lanes (decode_of 2 1))\<rparr>
      decode_meta 65536 (oldest_policy LRU) = Some out \<and> ou_mismatched out = 0"
proof -
  have "length (round_robin (decode_lanes (decode_of 2 1))) < 2 ^ 32"
    by (simp add: decode_lanes_def decode_of_def decode_tokens_def decode_length_def wrap_def round_robin_def longest_def
        round_row_def served_def decode_token_length LAYERS_def TILES_def upt_rec)
  with decode_trace_matched [of "decode_of 2 1" 65536 4096 "oldest_policy LRU"] show ?thesis
    by (simp add: decode_of_def) blast
qed

section \<open>Next use over the synthetic model\<close>

text \<open>Two weight tiles wanted in 4 and in 7 steps have the same score, since a tile costs more than SCALE; the lower id goes,
  which is the one wanted sooner.\<close>

definition tied_tiles :: residency where
  "tied_tiles =
     \<lparr>rs_len = 2,
      rs_at = nth_opt [(tile 0 0, weights\<lparr>m_next_use := At 4\<rparr>), (tile 0 1, weights\<lparr>m_next_use := At 7\<rparr>)],
      rs_now = 0\<rparr>"

lemma nearer_tile_evicted: "SCALE < recovery weights" "next_use_victim tied_tiles weights = Some (tile 0 0)"
proof -
  show "SCALE < recovery weights" by (simp add: SCALE_def recovery_def weights_def IMPOSSIBLE_def)
  have "evictability (weights\<lparr>m_next_use := At 4\<rparr>) 0 = 1" "evictability (weights\<lparr>m_next_use := At 7\<rparr>) 0 = 1"
    by (simp_all add: evictability_def recovery_def holders_def weights_def IMPOSSIBLE_def sat_mul_def SCALE_def)
  moreover have "\<not> tile 0 1 < tile 0 0" by code_simp
  ultimately show "next_use_victim tied_tiles weights = Some (tile 0 0)"
    by (auto simp: next_use_victim_def tied_tiles_def upt_rec nth_opt_def)
qed

end
