(* ===== verification/LabLanes.thy ===== *)
theory LabLanes
  imports Rounds Session
begin

text \<open>
  crates/mlos-lab, lanes.rs: the kernel's lanes. The trace is grouped by session into flat buffers
  and cut into tokens where a session touches the model's first tile; a schedule orders it in place.
  The last section shows that this is the host's merge (mlos-sched) of the cut streams, figure
  for figure.
\<close>

section \<open>Lanes over flat buffers\<close>

record lab_lane =
  ll_session :: session_id
  ll_start :: nat
  ll_len :: nat
  ll_ceiling :: nat

record lab_lanes =
  lb_objects :: "object_id list"
  lb_shape :: "(nat \<times> nat) list"
  lb_lanes :: "lab_lane list"
  lb_cursors :: "nat list"
  lb_due :: "nat list"
  lb_clock :: nat
  lb_worst :: "nat list"

definition lab_at :: "lab_lanes \<Rightarrow> nat \<Rightarrow> at option" where
  "lab_at L s =
     (case nth_opt (lb_lanes L) s of
        None \<Rightarrow> None
      | Some l \<Rightarrow>
          (let cursor = lb_cursors L ! s in
           case nth_opt (lb_shape L) (wrap 32 (ll_start l + cursor)) of
             None \<Rightarrow> None
           | Some (token, index) \<Rightarrow>
               if cursor < ll_len l
               then Some \<lparr>at_token = token, at_index = index,
                          at_waited = wrap_sub 32 (wrap_sub 32 (lb_clock L) (lb_due L ! s)) index,
                          at_ceiling = ll_ceiling l\<rparr>
               else None))"

definition lab_next_of :: "lab_lanes \<Rightarrow> nat \<Rightarrow> object_id option" where
  "lab_next_of L s =
     (case lab_at L s of
        None \<Rightarrow> None
      | Some _ \<Rightarrow> nth_opt (lb_objects L) (wrap 32 (ll_start (lb_lanes L ! s) + lb_cursors L ! s)))"

definition lab_view :: "lab_lanes \<Rightarrow> waiting" where
  "lab_view L = \<lparr>wt_sessions = length (lb_lanes L), wt_at = lab_at L, wt_next_of = lab_next_of L\<rparr>"

section \<open>Building them\<close>

text \<open>One session's accesses into the buffers: the fill point or the error, the lane's length and the
  buffers. \<open>None\<close> is an index out of range.\<close>

fun fill_lane ::
  "object_id \<Rightarrow> access list \<Rightarrow> nat \<Rightarrow> nat \<Rightarrow> nat \<Rightarrow> object_id list \<Rightarrow> (nat \<times> nat) list \<Rightarrow> nat \<Rightarrow>
     (nat res \<times> nat \<times> object_id list \<times> (nat \<times> nat) list) option" where
  "fill_lane first [] token index len objects shape filled = Some (Inr filled, len, objects, shape)"
| "fill_lane first (a # as) token index len objects shape filled =
     (let fresh = ac_object a = first \<and> len \<noteq> 0;
          token = (if fresh then wrap 32 (token + 1) else token);
          index = (if fresh then 0 else index)
      in if length objects \<le> filled then Some (Inl NoBudget, len, objects, shape)
         else if length shape \<le> filled then None
         else fill_lane first as token (wrap 32 (index + 1)) (wrap 32 (len + 1))
                (objects[filled := ac_object a]) (shape[filled := (token, index)]) (filled + 1))"

definition session_accesses :: "session_id \<Rightarrow> access list \<Rightarrow> access list" where
  "session_accesses s as = filter (\<lambda>a. ac_session a = s) as"

fun fill_lanes ::
  "access list \<Rightarrow> object_id \<Rightarrow> lab_lane list \<Rightarrow> object_id list \<Rightarrow> (nat \<times> nat) list \<Rightarrow> nat \<Rightarrow>
     (err + lab_lane list \<times> nat \<times> object_id list \<times> (nat \<times> nat) list) option" where
  "fill_lanes as first [] objects shape filled = Some (Inr ([], filled, objects, shape))"
| "fill_lanes as first (l # ls) objects shape filled =
     (case fill_lane first (session_accesses (ll_session l) as) 0 0 (ll_len l) objects shape filled of
        None \<Rightarrow> None
      | Some (Inl e, _) \<Rightarrow> Some (Inl e)
      | Some (Inr filled', len, objects', shape') \<Rightarrow>
          (case fill_lanes as first ls objects' shape' filled' of
             None \<Rightarrow> None
           | Some (Inl e) \<Rightarrow> Some (Inl e)
           | Some (Inr (ls', rest)) \<Rightarrow>
               Some (Inr (l\<lparr>ll_start := wrap 32 filled, ll_len := len\<rparr> # ls', rest))))"

definition lab_build ::
  "access list \<Rightarrow> object_id \<Rightarrow> object_id list \<Rightarrow> (nat \<times> nat) list \<Rightarrow> lab_lane list \<Rightarrow> nat \<Rightarrow>
     (err + lab_lanes) option" where
  "lab_build as first objects shape lanes named =
     (if length lanes < named then None
      else case fill_lanes as first (take named lanes) objects shape 0 of
             None \<Rightarrow> None
           | Some (Inl e) \<Rightarrow> Some (Inl e)
           | Some (Inr (ls, filled, objects', shape')) \<Rightarrow>
               if length shape' < filled then None
               else Some (Inr \<lparr>lb_objects = take filled objects', lb_shape = take filled shape', lb_lanes = ls,
                         lb_cursors = replicate MAX_SESSIONS 0, lb_due = replicate MAX_SESSIONS 0,
                         lb_clock = 0, lb_worst = replicate MAX_SESSIONS 0\<rparr>))"

section \<open>Ordering them\<close>

text \<open>One access served to a session.\<close>

definition lab_advance :: "nat \<Rightarrow> lab_lanes \<Rightarrow> lab_lanes" where
  "lab_advance s L =
     (let clock = wrap 32 (lb_clock L + 1);
          l = lb_lanes L ! s;
          cursor = wrap 32 (lb_cursors L ! s + 1);
          L1 = L\<lparr>lb_clock := clock, lb_cursors := (lb_cursors L)[s := cursor]\<rparr>
      in if ll_len l \<le> cursor \<or> snd (lb_shape L ! wrap 32 (ll_start l + cursor)) = 0
         then L1\<lparr>lb_worst := (lb_worst L)[s := max (lb_worst L ! s) (wrap_sub 32 clock (lb_due L ! s))],
                 lb_due := (lb_due L)[s := clock]\<rparr>
         else L1)"

partial_function (option) lab_order ::
  "'s schedule \<Rightarrow> 's \<Rightarrow> lab_lanes \<Rightarrow> object_id list \<Rightarrow> session_id list \<Rightarrow> nat \<Rightarrow>
     (nat \<times> object_id list \<times> session_id list \<times> lab_lanes) option" where
  "lab_order pick st L objects sessions n =
     (let p = pick st (lab_view L) in
      case fst p of
        None \<Rightarrow> Some (n, objects, sessions, L)
      | Some s \<Rightarrow>
          (case lab_next_of L s of
             None \<Rightarrow> Some (n, objects, sessions, L)
           | Some object \<Rightarrow>
               if length objects \<le> n \<or> length sessions \<le> n then None
               else lab_order pick (snd p) (lab_advance s L) (objects[n := object])
                      (sessions[n := ll_session (lb_lanes L ! s)]) (n + 1)))"

section \<open>A stream cut into tokens\<close>

function cut_tokens :: "object_id \<Rightarrow> object_id list \<Rightarrow> object_id list list" where
  "cut_tokens first [] = []"
| "cut_tokens first (x # xs) = (x # takeWhile (\<lambda>y. y \<noteq> first) xs) # cut_tokens first (dropWhile (\<lambda>y. y \<noteq> first) xs)"
  by pat_completeness auto
termination by (relation "measure (\<lambda>(_, xs). length xs)") (auto simp: less_Suc_eq_le length_dropWhile_le)

lemma cut_tokens_concat: "concat (cut_tokens first xs) = xs"
  by (induction first xs rule: cut_tokens.induct) simp_all

lemma cut_tokens_nonempty: "t \<in> set (cut_tokens first xs) \<Longrightarrow> t \<noteq> []"
  by (induction first xs rule: cut_tokens.induct) auto

text \<open>Where each access stands: its token, numbered from \<open>k\<close>, and its index in it.\<close>

fun stands :: "nat \<Rightarrow> object_id list list \<Rightarrow> (nat \<times> nat) list" where
  "stands k [] = []"
| "stands k (t # ts) = map (\<lambda>i. (k, i)) [0..<length t] @ stands (k + 1) ts"

fun number_from :: "object_id \<Rightarrow> object_id list \<Rightarrow> nat \<Rightarrow> nat \<Rightarrow> nat \<Rightarrow> (nat \<times> nat) list" where
  "number_from first [] token index len = []"
| "number_from first (x # xs) token index len =
     (if x = first \<and> len \<noteq> 0 then (token + 1, 0) # number_from first xs (token + 1) 1 (len + 1)
      else (token, index) # number_from first xs token (index + 1) (len + 1))"

lemma stands_length: "length (stands k ts) = length (concat ts)"
  by (induction ts arbitrary: k) simp_all

lemma number_from_plain:
  "first \<notin> set ys \<Longrightarrow> number_from first (ys @ zs) token index len =
     map (\<lambda>i. (token, index + i)) [0..<length ys] @ number_from first zs token (index + length ys) (len + length ys)"
proof (induction ys arbitrary: index len)
  case (Cons y ys)
  have "map (\<lambda>i. (token, index + i)) [0..<length (y # ys)] = (token, index) # map (\<lambda>i. (token, index + 1 + i)) [0..<length ys]"
    by (simp add: map_upt_Suc del: upt_Suc)
  with Cons show ?case by auto
qed simp

lemma dropWhile_start: "dropWhile (\<lambda>y. y \<noteq> first) ys = [] \<or> hd (dropWhile (\<lambda>y. y \<noteq> first) ys) = first"
  using hd_dropWhile [of "\<lambda>y. y \<noteq> first" ys] by auto

lemma number_from_stands:
  "xs = [] \<or> hd xs = first \<Longrightarrow> len \<noteq> 0 \<Longrightarrow> number_from first xs token index len = stands (token + 1) (cut_tokens first xs)"
proof (induction "length xs" arbitrary: xs token index len rule: less_induct)
  case less
  show ?case
  proof (cases xs)
    case (Cons x ys)
    then have x: "x = first" using less.prems by simp
    let ?a = "takeWhile (\<lambda>y. y \<noteq> first) ys" and ?b = "dropWhile (\<lambda>y. y \<noteq> first) ys"
    have "number_from first xs token index len = (token + 1, 0) # number_from first (?a @ ?b) (token + 1) 1 (len + 1)"
      using Cons x less.prems by simp
    also have "\<dots> = (token + 1, 0) # map (\<lambda>i. (token + 1, 1 + i)) [0..<length ?a] @
        number_from first ?b (token + 1) (1 + length ?a) (len + 1 + length ?a)"
      by (subst number_from_plain) (auto dest: set_takeWhileD)
    also have "number_from first ?b (token + 1) (1 + length ?a) (len + 1 + length ?a) = stands (token + 2) (cut_tokens first ?b)"
      using less.hyps [OF _ dropWhile_start, of ys "len + 1 + length ?a" "token + 1"] Cons
      by (simp add: less_Suc_eq_le length_dropWhile_le)
    also have "(token + 1, 0) # map (\<lambda>i. (token + 1, 1 + i)) [0..<length ?a] @ stands (token + 2) (cut_tokens first ?b) =
        stands (token + 1) (cut_tokens first xs)"
      using Cons by (simp add: map_upt_Suc del: upt_Suc)
    finally show ?thesis .
  qed simp
qed

lemma number_from_cut: "number_from first xs 0 0 0 = stands 0 (cut_tokens first xs)"
proof (cases xs)
  case (Cons x ys)
  let ?a = "takeWhile (\<lambda>y. y \<noteq> first) ys" and ?b = "dropWhile (\<lambda>y. y \<noteq> first) ys"
  have "number_from first xs 0 0 0 = (0, 0) # number_from first (?a @ ?b) 0 1 1" using Cons by simp
  also have "\<dots> = (0, 0) # map (\<lambda>i. (0, 1 + i)) [0..<length ?a] @ number_from first ?b 0 (1 + length ?a) (1 + length ?a)"
    by (subst number_from_plain) (auto dest: set_takeWhileD)
  also have "number_from first ?b 0 (1 + length ?a) (1 + length ?a) = stands 1 (cut_tokens first ?b)"
    using number_from_stands [OF dropWhile_start, of "1 + length ?a" first ys 0] by simp
  finally show ?thesis
    using Cons by (simp add: map_upt_Suc del: upt_Suc)
qed simp

section \<open>The buffers hold the cut streams\<close>

abbreviation asked :: "lab_lane \<Rightarrow> access list \<Rightarrow> object_id list" where
  "asked l as \<equiv> map ac_object (session_accesses (ll_session l) as)"

definition holds_lane :: "object_id \<Rightarrow> access list \<Rightarrow> object_id list \<Rightarrow> (nat \<times> nat) list \<Rightarrow> lab_lane \<Rightarrow> bool" where
  "holds_lane first as objects shape l \<longleftrightarrow>
     ll_len l = length (asked l as) \<and> ll_start l + ll_len l \<le> length objects \<and> ll_start l + ll_len l \<le> length shape \<and>
     take (ll_len l) (drop (ll_start l) objects) = asked l as \<and>
     take (ll_len l) (drop (ll_start l) shape) = stands 0 (cut_tokens first (asked l as))"

lemma splice:
  "k < length xs \<Longrightarrow> take (k + 1) (xs[k := x]) = take k xs @ [x] \<and> drop (k + 1 + n) (xs[k := x]) = drop (k + 1 + n) xs"
  by (simp add: take_Suc_conv_app_nth)

lemma len_step: "len + length (a # as) = len + 1 + length as"
  by simp

lemma fill_lane_ok:
  assumes "filled + length as \<le> length objects" "filled + length as \<le> length shape"
    and "len + length as < 2 ^ 32" "token \<le> len" "index \<le> len"
  shows "fill_lane first as token index len objects shape filled =
    Some (Inr (filled + length as), len + length as,
      take filled objects @ map ac_object as @ drop (filled + length as) objects,
      take filled shape @ number_from first (map ac_object as) token index len @ drop (filled + length as) shape)"
  using assms
proof (induction as arbitrary: token index len objects shape filled)
  case (Cons a as)
  define fresh where "fresh \<longleftrightarrow> ac_object a = first \<and> len \<noteq> 0"
  define t i where "t = (if fresh then token + 1 else token)" and "i = (if fresh then 0 else index)"
  have small: "t \<le> len + 1" "i + 1 \<le> len + 1" "wrap 32 (token + 1) = token + 1" "wrap 32 (i + 1) = i + 1" "wrap 32 (len + 1) = len + 1"
    using Cons.prems(3-5) by (auto simp: t_def i_def wrap_exact)
  have room: "filled < length objects" "filled < length shape" using Cons.prems(1,2) by simp_all
  let ?o = "objects[filled := ac_object a]" and ?s = "shape[filled := (t, i)]"
  have "fill_lane first (a # as) token index len objects shape filled =
      fill_lane first as t (i + 1) (len + 1) ?o ?s (filled + 1)"
  proof -
    have "\<not> length objects \<le> filled" "\<not> length shape \<le> filled" using room by simp_all
    moreover have "(if fresh then wrap 32 (token + 1) else token) = t" "(if fresh then 0 else index) = i"
      using small(3) by (simp_all only: t_def i_def)
    ultimately show ?thesis
      unfolding fill_lane.simps Let_def fresh_def [symmetric] by (simp only: if_False small)
  qed
  also have "\<dots> = Some (Inr (filled + 1 + length as), len + 1 + length as,
      take (filled + 1) ?o @ map ac_object as @ drop (filled + 1 + length as) ?o,
      take (filled + 1) ?s @ number_from first (map ac_object as) t (i + 1) (len + 1) @ drop (filled + 1 + length as) ?s)"
    using Cons.prems small by (intro Cons.IH) simp_all
  also have "\<dots> = Some (Inr (filled + length (a # as)), len + length (a # as),
      take filled objects @ map ac_object (a # as) @ drop (filled + length (a # as)) objects,
      take filled shape @ number_from first (map ac_object (a # as)) token index len @ drop (filled + length (a # as)) shape)"
  proof -
    have "number_from first (map ac_object (a # as)) token index len = (t, i) # number_from first (map ac_object as) t (i + 1) (len + 1)"
      by (simp add: t_def i_def fresh_def)
    moreover have "filled + length (a # as) = filled + 1 + length as" by simp
    ultimately show ?thesis
      using splice [OF room(1), of "ac_object a" "length as"] splice [OF room(2), of "(t, i)" "length as"]
      by (simp only: list.map append_assoc append.simps len_step)
  qed
  finally show ?case .
qed simp

lemma drop_take_mid: "length pre = k \<Longrightarrow> take (length mid) (drop k (pre @ mid @ post)) = mid"
  by simp

lemma fill_lanes_ok:
  assumes "\<forall>l \<in> set ls. ll_len l = 0" "filled + (\<Sum>l\<leftarrow>ls. length (asked l as)) \<le> length objects"
    and "filled + (\<Sum>l\<leftarrow>ls. length (asked l as)) \<le> length shape" "filled + (\<Sum>l\<leftarrow>ls. length (asked l as)) < 2 ^ 32"
  shows "\<exists>ls' objects' shape'.
    fill_lanes as first ls objects shape filled =
      Some (Inr (ls', filled + (\<Sum>l\<leftarrow>ls. length (asked l as)), objects', shape')) \<and>
    map ll_session ls' = map ll_session ls \<and> map ll_ceiling ls' = map ll_ceiling ls \<and>
    length objects' = length objects \<and> length shape' = length shape \<and>
    take filled objects' = take filled objects \<and> take filled shape' = take filled shape \<and>
    (\<forall>l \<in> set ls'. holds_lane first as objects' shape' l \<and> ll_start l + ll_len l \<le> filled + (\<Sum>l\<leftarrow>ls. length (asked l as)))"
  using assms
proof (induction ls arbitrary: objects shape filled)
  case (Cons l ls)
  let ?as = "session_accesses (ll_session l) as" and ?n = "length (asked l as)"
  let ?o = "take filled objects @ map ac_object ?as @ drop (filled + ?n) objects"
  let ?s = "take filled shape @ number_from first (map ac_object ?as) 0 0 0 @ drop (filled + ?n) shape"
  have len: "length (number_from first (map ac_object ?as) 0 0 0) = ?n"
    by (simp add: number_from_cut stands_length cut_tokens_concat)
  have room: "filled + ?n \<le> length objects" "filled + ?n \<le> length shape" "filled < 2 ^ 32" "?n < 2 ^ 32"
    using Cons.prems by simp_all
  have one: "fill_lane first ?as 0 0 (ll_len l) objects shape filled = Some (Inr (filled + ?n), ?n, ?o, ?s)"
    using fill_lane_ok [of filled ?as objects shape 0 0 0 first] room Cons.prems(1) by simp
  have "\<exists>ls' objects' shape'.
    fill_lanes as first ls ?o ?s (filled + ?n) =
      Some (Inr (ls', filled + ?n + (\<Sum>l\<leftarrow>ls. length (asked l as)), objects', shape')) \<and>
    map ll_session ls' = map ll_session ls \<and> map ll_ceiling ls' = map ll_ceiling ls \<and>
    length objects' = length ?o \<and> length shape' = length ?s \<and>
    take (filled + ?n) objects' = take (filled + ?n) ?o \<and> take (filled + ?n) shape' = take (filled + ?n) ?s \<and>
    (\<forall>l \<in> set ls'. holds_lane first as objects' shape' l \<and>
      ll_start l + ll_len l \<le> filled + ?n + (\<Sum>l\<leftarrow>ls. length (asked l as)))"
    using Cons.prems len by (intro Cons.IH) simp_all
  then obtain ls' objects' shape' where R:
    "fill_lanes as first ls ?o ?s (filled + ?n) = Some (Inr (ls', filled + ?n + (\<Sum>l\<leftarrow>ls. length (asked l as)), objects', shape'))"
    "map ll_session ls' = map ll_session ls" "map ll_ceiling ls' = map ll_ceiling ls"
    "length objects' = length ?o" "length shape' = length ?s"
    "take (filled + ?n) objects' = take (filled + ?n) ?o" "take (filled + ?n) shape' = take (filled + ?n) ?s"
    "\<forall>l \<in> set ls'. holds_lane first as objects' shape' l \<and> ll_start l + ll_len l \<le> filled + ?n + (\<Sum>l\<leftarrow>ls. length (asked l as))"
    by blast
  let ?l = "l\<lparr>ll_start := filled, ll_len := ?n\<rparr>"
  have o: "take (filled + ?n) objects' = take filled objects @ asked l as" using R(6) room by simp
  have s: "take (filled + ?n) shape' = take filled shape @ stands 0 (cut_tokens first (asked l as))"
    using R(7) room len by (simp add: number_from_cut)
  have lens: "length objects' = length objects" "length shape' = length shape" using R(4,5) room len by simp_all
  have "holds_lane first as objects' shape' ?l"
    using arg_cong [OF o, of "drop filled"] arg_cong [OF s, of "drop filled"] room lens
    by (simp add: holds_lane_def drop_take)
  moreover have "take filled objects' = take filled objects" "take filled shape' = take filled shape"
    using arg_cong [OF o, of "take filled"] arg_cong [OF s, of "take filled"] room by simp_all
  moreover have "fill_lanes as first (l # ls) objects shape filled =
      Some (Inr (?l # ls', filled + ?n + (\<Sum>l\<leftarrow>ls. length (asked l as)), objects', shape'))"
    unfolding fill_lanes.simps one option.case sum.case prod.case R(1) using room(3) by (simp add: wrap_exact)
  moreover have "filled + (\<Sum>l\<leftarrow>l # ls. length (asked l as)) = filled + ?n + (\<Sum>l\<leftarrow>ls. length (asked l as))" by simp
  moreover have "\<forall>k \<in> set (?l # ls'). ll_start k + ll_len k \<le> filled + ?n + (\<Sum>l\<leftarrow>ls. length (asked l as))"
    using R(8) by auto
  ultimately show ?case
    using R(2,3,8) lens by (intro exI [of _ "?l # ls'"] exI [of _ objects'] exI [of _ shape'] conjI) (simp_all only:, auto)
qed simp

section \<open>The host's lanes behind the kernel's\<close>

definition flat :: "object_id list list \<Rightarrow> nat \<Rightarrow> nat \<Rightarrow> nat" where
  "flat ts t i = length (concat (take t ts)) + i"

lemma flat_nth:
  "t < length ts \<Longrightarrow> i < length (ts ! t) \<Longrightarrow>
     flat ts t i < length (concat ts) \<and> concat ts ! flat ts t i = ts ! t ! i \<and> stands k ts ! flat ts t i = (k + t, i)"
proof (induction ts arbitrary: t k)
  case (Cons u us)
  show ?case
  proof (cases t)
    case 0
    then show ?thesis using Cons.prems by (simp add: flat_def nth_append)
  next
    case (Suc t')
    then show ?thesis using Cons.IH [of t' "k + 1"] Cons.prems by (simp add: flat_def nth_append)
  qed
qed simp

lemma flat_end: "flat ts (length ts) 0 = length (concat ts)"
  by (simp add: flat_def)

lemma flat_next: "t < length ts \<Longrightarrow> length (ts ! t) = i + 1 \<Longrightarrow> flat ts t i + 1 = flat ts (t + 1) 0"
  by (simp add: flat_def take_Suc_conv_app_nth)

definition lane_behind :: "lab_lanes \<Rightarrow> lab_lane \<Rightarrow> lane \<Rightarrow> bool" where
  "lane_behind L l h \<longleftrightarrow>
     ll_session l = ln_session h \<and> ll_ceiling l = ln_ceiling h \<and> ll_len l = length (concat (ln_tokens h)) \<and>
     ll_start l + ll_len l \<le> length (lb_objects L) \<and> ll_start l + ll_len l \<le> length (lb_shape L) \<and>
     ll_start l + ll_len l < 2 ^ 32 \<and>
     take (ll_len l) (drop (ll_start l) (lb_objects L)) = concat (ln_tokens h) \<and>
     take (ll_len l) (drop (ll_start l) (lb_shape L)) = stands 0 (ln_tokens h)"

definition lanes_behind :: "lab_lanes \<Rightarrow> lanes \<Rightarrow> bool" where
  "lanes_behind L H \<longleftrightarrow>
     (let n = length (la_lanes H) in
      length (lb_lanes L) = n \<and> n \<le> length (lb_cursors L) \<and> n \<le> length (lb_due L) \<and> n \<le> length (lb_worst L) \<and>
      lb_clock L = la_clock H \<and>
      (\<forall>k < n. lane_behind L (lb_lanes L ! k) (la_lanes H ! k) \<and>
         lb_cursors L ! k = flat (ln_tokens (la_lanes H ! k)) (fst (la_cursors H ! k)) (snd (la_cursors H ! k)) \<and>
         lb_due L ! k = la_due H ! k))"

lemma slice_nth: "take n (drop s xs) = ys \<Longrightarrow> j < n \<Longrightarrow> s + n \<le> length xs \<Longrightarrow> xs ! (s + j) = ys ! j"
  by auto

lemma lane_behind_nth:
  assumes "lane_behind L l h" "t < length (ln_tokens h)" "i < length (ln_tokens h ! t)"
  shows "flat (ln_tokens h) t i < ll_len l"
    and "lb_objects L ! (ll_start l + flat (ln_tokens h) t i) = ln_tokens h ! t ! i"
    and "lb_shape L ! (ll_start l + flat (ln_tokens h) t i) = (t, i)"
    and "ll_start l + flat (ln_tokens h) t i < length (lb_objects L)" "ll_start l + flat (ln_tokens h) t i < length (lb_shape L)"
    and "ll_start l + flat (ln_tokens h) t i + 1 < 2 ^ 32"
proof -
  note F = flat_nth [OF assms(2,3), of 0]
  have b: "ll_len l = length (concat (ln_tokens h))" "ll_start l + ll_len l \<le> length (lb_objects L)"
    "ll_start l + ll_len l \<le> length (lb_shape L)" "ll_start l + ll_len l < 2 ^ 32"
    and o: "take (ll_len l) (drop (ll_start l) (lb_objects L)) = concat (ln_tokens h)"
    and s: "take (ll_len l) (drop (ll_start l) (lb_shape L)) = stands 0 (ln_tokens h)"
    using assms(1) unfolding lane_behind_def by blast+
  show c: "flat (ln_tokens h) t i < ll_len l" using F b(1) by simp
  show "lb_objects L ! (ll_start l + flat (ln_tokens h) t i) = ln_tokens h ! t ! i" using slice_nth [OF o c b(2)] F by simp
  show "lb_shape L ! (ll_start l + flat (ln_tokens h) t i) = (t, i)" using slice_nth [OF s c b(3)] F by simp
  show "ll_start l + flat (ln_tokens h) t i < length (lb_objects L)" "ll_start l + flat (ln_tokens h) t i < length (lb_shape L)"
    "ll_start l + flat (ln_tokens h) t i + 1 < 2 ^ 32"
    using c b(2-4) by simp_all
qed

lemma host_cursor:
  assumes "lanes_ok H" "k < length (la_lanes H)" "la_cursors H ! k = (t, i)"
  shows "if t < length (ln_tokens (la_lanes H ! k)) then i < length (ln_tokens (la_lanes H ! k) ! t)
    else t = length (ln_tokens (la_lanes H ! k)) \<and> i = 0"
  using assms unfolding lanes_ok_def by blast

lemma behind_view:
  assumes rel: "lanes_behind L H" and ok: "lanes_ok H"
  shows "lab_view L = lanes_view H"
proof -
  let ?n = "length (la_lanes H)"
  have n: "length (lb_lanes L) = ?n" "length (la_cursors H) = ?n"
    using rel ok by (simp_all add: lanes_behind_def lanes_ok_def Let_def)
  have at: "lab_at L k = lanes_at H k \<and> lab_next_of L k = lanes_next_of H k" for k
  proof (cases "k < ?n")
    case False
    then show ?thesis using n by (simp add: lab_at_def lanes_at_def lab_next_of_def lanes_next_of_def nth_opt_def)
  next
    case True
    obtain t i where c: "la_cursors H ! k = (t, i)" by fastforce
    let ?l = "lb_lanes L ! k" and ?h = "la_lanes H ! k"
    have B: "lane_behind L ?l ?h" "lb_cursors L ! k = flat (ln_tokens ?h) t i" "lb_due L ! k = la_due H ! k" "lb_clock L = la_clock H"
      using rel True c by (auto simp: lanes_behind_def Let_def)
    show ?thesis
    proof (cases "t < length (ln_tokens ?h)")
      case t: True
      then have i: "i < length (ln_tokens ?h ! t)" using host_cursor [OF ok True c] by simp
      note N = lane_behind_nth [OF B(1) t i]
      have w: "wrap 32 (ll_start ?l + flat (ln_tokens ?h) t i) = ll_start ?l + flat (ln_tokens ?h) t i"
        using N(6) by (intro wrap_exact) simp
      have "lab_at L k = lanes_at H k"
        using True n t N(1,3,5) B(1) by (simp add: lab_at_def lanes_at_def nth_opt_def Let_def B(2-4) c w lane_behind_def)
      moreover from this have "lab_next_of L k = lanes_next_of H k"
        using True n t i N(2,4) by (simp add: lab_next_of_def lanes_next_of_def lanes_at_def nth_opt_def B(2) c w)
      ultimately show ?thesis ..
    next
      case False
      then have end_of: "t = length (ln_tokens ?h)" "i = 0" using host_cursor [OF ok True c] by simp_all
      then have "\<not> lb_cursors L ! k < ll_len ?l" using B(1,2) by (simp add: flat_end lane_behind_def)
      then have "lab_at L k = None" by (auto simp: lab_at_def Let_def True n nth_opt_def split: option.splits)
      moreover have "lanes_at H k = None" using True n end_of by (simp add: lanes_at_def nth_opt_def c)
      ultimately show ?thesis by (simp add: lab_next_of_def lanes_next_of_def)
    qed
  qed
  then have "lab_at L = lanes_at H" "lab_next_of L = lanes_next_of H" by (auto intro!: ext)
  then show ?thesis by (simp add: lab_view_def lanes_view_def n)
qed

lemma host_advance:
  assumes ok: "lanes_ok H" and s: "s < length (la_lanes H)" and c: "la_cursors H ! s = (t, i)"
    and t: "t < length (ln_tokens (la_lanes H ! s))"
  shows "fst (lanes_advance s H) =
      (if i + 1 < length (ln_tokens (la_lanes H ! s) ! t) then None
       else Some (wrap_sub 32 (wrap 32 (la_clock H + 1)) (la_due H ! s)))"
    and "la_clock (snd (lanes_advance s H)) = wrap 32 (la_clock H + 1)"
    and "la_lanes (snd (lanes_advance s H)) = la_lanes H"
    and "la_due (snd (lanes_advance s H)) =
      (if i + 1 < length (ln_tokens (la_lanes H ! s) ! t) then la_due H else (la_due H)[s := wrap 32 (la_clock H + 1)])"
proof -
  have i: "i < length (ln_tokens (la_lanes H ! s) ! t)" using host_cursor [OF ok s c] t by simp
  have "lane_ok (la_lanes H ! s)" using ok s by (simp add: lanes_ok_def)
  then have "length (ln_tokens (la_lanes H ! s) ! t) < 2 ^ 32" using t by (auto simp: lane_ok_def)
  then have w: "wrap 32 (length (ln_tokens (la_lanes H ! s) ! t)) = length (ln_tokens (la_lanes H ! s) ! t)" "wrap 32 (i + 1) = i + 1"
    using i by (simp_all add: wrap_exact)
  show "fst (lanes_advance s H) =
      (if i + 1 < length (ln_tokens (la_lanes H ! s) ! t) then None
       else Some (wrap_sub 32 (wrap 32 (la_clock H + 1)) (la_due H ! s)))"
    "la_clock (snd (lanes_advance s H)) = wrap 32 (la_clock H + 1)"
    "la_lanes (snd (lanes_advance s H)) = la_lanes H"
    "la_due (snd (lanes_advance s H)) =
      (if i + 1 < length (ln_tokens (la_lanes H ! s) ! t) then la_due H else (la_due H)[s := wrap 32 (la_clock H + 1)])"
    unfolding lanes_advance_def Let_def c fst_conv snd_conv w by simp_all
qed

lemma behind_ended:
  assumes B: "lane_behind L l h" and ok: "lane_ok h" and t: "t < length (ln_tokens h)" and i: "i < length (ln_tokens h ! t)"
  shows "(ll_len l \<le> flat (ln_tokens h) t i + 1 \<or> snd (lb_shape L ! (ll_start l + (flat (ln_tokens h) t i + 1))) = 0) \<longleftrightarrow>
    \<not> i + 1 < length (ln_tokens h ! t)"
proof (cases "i + 1 < length (ln_tokens h ! t)")
  case True
  have "flat (ln_tokens h) t i + 1 = flat (ln_tokens h) t (i + 1)" by (simp add: flat_def)
  then show ?thesis using lane_behind_nth(1,3) [OF B t True] True by simp
next
  case False
  then have next_pos: "flat (ln_tokens h) t i + 1 = flat (ln_tokens h) (t + 1) 0" using flat_next [OF t] i by simp
  show ?thesis
  proof (cases "t + 1 < length (ln_tokens h)")
    case t1: True
    then have "0 < length (ln_tokens h ! (t + 1))" using ok by (auto simp: lane_ok_def)
    then show ?thesis using lane_behind_nth(3) [OF B t1, of 0] False next_pos by simp
  next
    case end_of: False
    then have "t + 1 = length (ln_tokens h)" using t by simp
    then have "flat (ln_tokens h) t i + 1 = length (concat (ln_tokens h))" using next_pos flat_end [of "ln_tokens h"] by simp
    then show ?thesis using False B by (simp add: lane_behind_def)
  qed
qed

lemma behind_advance:
  assumes rel: "lanes_behind L H" and ok: "lanes_ok H" and s: "s < length (la_lanes H)" "lane_rest H s \<noteq> []"
  shows "lanes_behind (lab_advance s L) (snd (lanes_advance s H)) \<and> lb_lanes (lab_advance s L) = lb_lanes L \<and>
    lb_worst (lab_advance s L) = (case fst (lanes_advance s H) of None \<Rightarrow> lb_worst L
      | Some period \<Rightarrow> (lb_worst L)[s := max (lb_worst L ! s) period])"
proof -
  let ?n = "length (la_lanes H)" and ?l = "lb_lanes L ! s" and ?h = "la_lanes H ! s"
  obtain t i where c: "la_cursors H ! s = (t, i)" by fastforce
  have t: "t < length (ln_tokens ?h)" using s(2) by (auto simp: lane_rest_def c not_le intro: ccontr)
  have i: "i < length (ln_tokens ?h ! t)" using host_cursor [OF ok s(1) c] t by simp
  have lok: "lane_ok ?h" using ok s(1) by (simp add: lanes_ok_def)
  have R: "length (lb_lanes L) = ?n" "?n \<le> length (lb_cursors L)" "?n \<le> length (lb_due L)" "?n \<le> length (lb_worst L)"
    "lb_clock L = la_clock H"
    "\<And>k. k < ?n \<Longrightarrow> lane_behind L (lb_lanes L ! k) (la_lanes H ! k)"
    "\<And>k. k < ?n \<Longrightarrow> lb_cursors L ! k = flat (ln_tokens (la_lanes H ! k)) (fst (la_cursors H ! k)) (snd (la_cursors H ! k))"
    "\<And>k. k < ?n \<Longrightarrow> lb_due L ! k = la_due H ! k"
    using rel by (simp_all add: lanes_behind_def Let_def)
  have cur: "lb_cursors L ! s = flat (ln_tokens ?h) t i" using R(7) [OF s(1)] c by simp
  note N = lane_behind_nth [OF R(6) [OF s(1)] t i]
  have w: "wrap 32 (flat (ln_tokens ?h) t i + 1) = flat (ln_tokens ?h) t i + 1"
    "wrap 32 (ll_start ?l + (flat (ln_tokens ?h) t i + 1)) = ll_start ?l + (flat (ln_tokens ?h) t i + 1)"
    using N(6) by (simp_all add: wrap_exact)
  note E = behind_ended [OF R(6) [OF s(1)] lok t i]
  note A = host_advance [OF ok s(1) c t] and C = advance_cursor [OF ok s(1) c t i]
  define ended where "ended \<longleftrightarrow> \<not> i + 1 < length (ln_tokens ?h ! t)"
  have lab: "lab_advance s L = (let clock = wrap 32 (la_clock H + 1);
      L1 = L\<lparr>lb_clock := clock, lb_cursors := (lb_cursors L)[s := flat (ln_tokens ?h) t i + 1]\<rparr> in
      if ended then L1\<lparr>lb_worst := (lb_worst L)[s := max (lb_worst L ! s) (wrap_sub 32 clock (la_due H ! s))],
        lb_due := (lb_due L)[s := clock]\<rparr> else L1)"
    unfolding lab_advance_def Let_def cur w R(5) R(8) [OF s(1)] ended_def E [unfolded add.assoc] by simp
  have lc: "length (la_cursors H) = ?n" "length (la_due H) = ?n" using ok by (simp_all add: lanes_ok_def)
  have step: "flat (ln_tokens ?h) t i + 1 = (if ended then flat (ln_tokens ?h) (t + 1) 0 else flat (ln_tokens ?h) t (i + 1))"
    using flat_next [OF t, of i] i by (auto simp: ended_def flat_def)
  have cursors: "(lb_cursors L)[s := flat (ln_tokens ?h) t i + 1] ! k =
      flat (ln_tokens (la_lanes H ! k)) (fst (la_cursors (snd (lanes_advance s H)) ! k)) (snd (la_cursors (snd (lanes_advance s H)) ! k))"
    if "k < ?n" for k
    using that s(1) R(2,7) lc step unfolding C by (cases "k = s") (auto simp: ended_def)
  have due: "(if ended then (lb_due L)[s := wrap 32 (la_clock H + 1)] else lb_due L) ! k = la_due (snd (lanes_advance s H)) ! k"
    if "k < ?n" for k
    using that s(1) R(3,8) lc unfolding A(4) by (cases "k = s") (auto simp: ended_def)
  have same: "lane_behind (lab_advance s L) l h = lane_behind L l h" for l h
    by (cases ended) (simp_all add: lab Let_def lane_behind_def)
  have "lanes_behind (lab_advance s L) (snd (lanes_advance s H))"
    using R(1-6) cursors due unfolding lanes_behind_def same A(2,3) by (cases ended) (simp_all add: lab Let_def)
  then show ?thesis unfolding A(1) lab Let_def by (cases ended) (simp_all add: ended_def)
qed

section \<open>The same order\<close>

definition lanes_left :: "lanes \<Rightarrow> nat" where
  "lanes_left H = (\<Sum>k < length (la_lanes H). length (lane_rest H k))"

lemma advance_left:
  assumes "lanes_ok H" "s < length (la_lanes H)" "lane_rest H s \<noteq> []"
  shows "lanes_left H = Suc (lanes_left (snd (lanes_advance s H)))"
proof -
  let ?n = "length (la_lanes H)" and ?H = "snd (lanes_advance s H)"
  note A = advance_rest [OF assms]
  have "lanes_left H = length (lane_rest H s) + (\<Sum>k \<in> {..<?n} - {s}. length (lane_rest H k))"
    unfolding lanes_left_def using assms(2) by (simp add: sum.remove)
  moreover have "lanes_left ?H = length (lane_rest H s) - 1 + (\<Sum>k \<in> {..<?n} - {s}. length (lane_rest H k))"
    unfolding lanes_left_def A(3) using assms(2) by (subst sum.remove [of _ s]) (simp_all add: A(4))
  ultimately show ?thesis using assms(3) by (cases "lane_rest H s") simp_all
qed

definition written :: "'a list \<Rightarrow> nat \<Rightarrow> 'a list \<Rightarrow> 'a list" where
  "written buffer n xs = take n buffer @ xs @ drop (n + length xs) buffer"

lemma written_step: "n < length b \<Longrightarrow> written (b[n := x]) (n + 1) xs = written b n (x # xs)"
  using splice [of n b x "length xs"] by (simp add: written_def)

lemma written_none [simp]: "written b n [] = b"
  by (simp add: written_def)

context scheduler
begin

lemma order_is_merge:
  assumes "lanes_ok H" "lanes_behind L H" "n + lanes_left H \<le> length objects" "n + lanes_left H \<le> length sessions"
    and "length worst = length (la_lanes H)" "\<forall>k < length (la_lanes H). lb_worst L ! k = worst ! k"
  shows "\<exists>more worst' L'. merge_loop pick st H out worst = Some (out @ more, worst') \<and> length more = lanes_left H \<and>
    lab_order pick st L objects sessions n =
      Some (n + length more, written objects n (map ac_object more), written sessions n (map ac_session more), L') \<and>
    (\<forall>k < length (la_lanes H). lb_worst L' ! k = worst' ! k)"
  using assms
proof (induction "lanes_left H" arbitrary: H L st out worst n objects sessions rule: less_induct)
  case less
  let ?n = "length (la_lanes H)"
  note view = behind_view [OF less.prems(2,1)]
  show ?case
  proof (cases "fst (pick st (lanes_view H))")
    case None
    then have "lane_rest H k = []" if "k < ?n" for k
      using pick_none [OF None, of k] that lanes_at_live [OF less.prems(1), of k]
      by (simp add: live_at_def lanes_view_def)
    then have "lanes_left H = 0" by (simp add: lanes_left_def)
    moreover have "merge_loop pick st H out worst = Some (out, worst)"
      using None by (subst merge_loop.simps) (simp add: Let_def)
    moreover have "lab_order pick st L objects sessions n = Some (n, objects, sessions, L)"
      using None by (subst lab_order.simps) (simp add: Let_def view)
    ultimately show ?thesis using less.prems(6) by (intro exI [of _ "[]"] exI [of _ worst] exI [of _ L]) simp
  next
    case (Some s)
    have "live_at (lanes_view H) s" by (rule pick_live [OF lanes_view_seen [OF less.prems(1)] Some])
    then have s: "s < ?n" "lane_rest H s \<noteq> []"
      using lanes_at_live [OF less.prems(1), of s] by (simp_all add: live_at_def lanes_view_def)
    note A = advance_rest [OF less.prems(1) s] and B = behind_advance [OF less.prems(2,1) s]
    note left = advance_left [OF less.prems(1) s]
    let ?H = "snd (lanes_advance s H)" and ?L = "lab_advance s L" and ?st = "snd (pick st (lanes_view H))"
    let ?o = "hd (lane_rest H s)" and ?s = "ln_session (la_lanes H ! s)"
    let ?a = "\<lparr>ac_session = ?s, ac_object = ?o\<rparr>"
    define worst1 where "worst1 = (case fst (lanes_advance s H) of None \<Rightarrow> worst
        | Some period \<Rightarrow> worst[s := max (worst ! s) period])"
    have session: "ll_session (lb_lanes L ! s) = ?s"
      using less.prems(2) s(1) by (auto simp: lanes_behind_def lane_behind_def Let_def)
    have next_o: "lab_next_of L s = Some ?o" using view A(1) by (simp add: lab_view_def lanes_view_def)
    have run: "merge_loop pick st H out worst = merge_loop pick ?st ?H (out @ [?a]) worst1"
      using Some A(1) unfolding worst1_def by (subst merge_loop.simps) (simp add: Let_def)
    have room: "n < length objects" "n < length sessions" using less.prems(3,4) left by simp_all
    have order: "lab_order pick st L objects sessions n = lab_order pick ?st ?L (objects[n := ?o]) (sessions[n := ?s]) (n + 1)"
      using Some room by (subst lab_order.simps) (simp add: Let_def view next_o session)
    have w: "length worst1 = ?n" "\<forall>k < ?n. lb_worst ?L ! k = worst1 ! k"
      using less.prems(5,6) B s(1) less.prems(2)
      by (auto simp: worst1_def lanes_behind_def Let_def nth_list_update split: option.splits)
    have "\<exists>more worst' L'. merge_loop pick ?st ?H (out @ [?a]) worst1 = Some ((out @ [?a]) @ more, worst') \<and>
        length more = lanes_left ?H \<and>
        lab_order pick ?st ?L (objects[n := ?o]) (sessions[n := ?s]) (n + 1) =
          Some (n + 1 + length more, written (objects[n := ?o]) (n + 1) (map ac_object more),
            written (sessions[n := ?s]) (n + 1) (map ac_session more), L') \<and>
        (\<forall>k < length (la_lanes ?H). lb_worst L' ! k = worst' ! k)"
      using less.prems(3,4) left A(2,3) B w by (intro less.hyps) simp_all
    then obtain more worst' L' where "merge_loop pick ?st ?H (out @ [?a]) worst1 = Some ((out @ [?a]) @ more, worst')"
        "length more = lanes_left ?H"
        "lab_order pick ?st ?L (objects[n := ?o]) (sessions[n := ?s]) (n + 1) =
          Some (n + 1 + length more, written (objects[n := ?o]) (n + 1) (map ac_object more),
            written (sessions[n := ?s]) (n + 1) (map ac_session more), L')"
        "\<forall>k < ?n. lb_worst L' ! k = worst' ! k"
      unfolding A(3) by blast
    then show ?thesis
      unfolding run order written_step [OF room(1)] written_step [OF room(2)] left
      by (intro exI [of _ "?a # more"] exI [of _ worst'] exI [of _ L']) simp
  qed
qed

end

definition host_lanes :: "object_id \<Rightarrow> access list \<Rightarrow> lab_lane list \<Rightarrow> lane list" where
  "host_lanes first as ls =
     map (\<lambda>l. \<lparr>ln_session = ll_session l, ln_ceiling = ll_ceiling l, ln_tokens = cut_tokens first (asked l as)\<rparr>) ls"

lemma session_sum:
  assumes "distinct ss" "\<forall>a \<in> set as. ac_session a \<in> set ss"
  shows "(\<Sum>s\<leftarrow>ss. length (session_accesses s as)) = length as"
  using assms(2)
proof (induction as)
  case (Cons a as)
  have "(\<Sum>s\<leftarrow>ss. length (session_accesses s (a # as))) =
      (\<Sum>s\<leftarrow>ss. if s = ac_session a then 1 else 0) + (\<Sum>s\<leftarrow>ss. length (session_accesses s as))"
    unfolding sum_list_addf [symmetric]
    by (rule arg_cong [where f = sum_list], rule map_cong) (auto simp: session_accesses_def)
  moreover have "(\<Sum>s\<leftarrow>ss. if s = x then 1 else 0 :: nat) = (if x \<in> set ss then 1 else 0)" for x
    using assms(1) by (induction ss) auto
  ultimately show ?case using Cons by simp
qed (simp add: session_accesses_def)

lemma host_lanes_ok:
  assumes "length as < 2 ^ 32"
  shows "\<forall>h \<in> set (host_lanes first as ls). lane_ok h"
proof
  fix h assume "h \<in> set (host_lanes first as ls)"
  then obtain l where h: "ln_tokens h = cut_tokens first (asked l as)" by (auto simp: host_lanes_def)
  have len: "length (asked l as) < 2 ^ 32"
    using assms order_le_less_trans [OF length_filter_le] by (simp only: session_accesses_def length_map)
  have "length ts \<le> length (concat ts) \<and> (\<forall>t \<in> set ts. length t \<le> length (concat ts))" if "\<forall>t \<in> set ts. t \<noteq> []" for ts :: "object_id list list"
    using that
  proof (induction ts)
    case (Cons t ts)
    then show ?case by (cases t) auto
  qed simp
  from this [of "cut_tokens first (asked l as)"] cut_tokens_nonempty
  have "length (cut_tokens first (asked l as)) \<le> length (asked l as)"
    "\<forall>t \<in> set (cut_tokens first (asked l as)). length t \<le> length (asked l as)"
    by (auto simp only: cut_tokens_concat)
  with len cut_tokens_nonempty show "lane_ok h" unfolding lane_ok_def h by (meson order_le_less_trans)
qed

definition lab_room :: "access list \<Rightarrow> lab_lane list \<Rightarrow> object_id list \<Rightarrow> (nat \<times> nat) list \<Rightarrow> bool" where
  "lab_room as ls objects shape \<longleftrightarrow>
     length ls \<le> MAX_SESSIONS \<and> (\<forall>l \<in> set ls. ll_len l = 0) \<and> distinct (map ll_session ls) \<and>
     (\<forall>a \<in> set as. ac_session a \<in> set (map ll_session ls)) \<and> length as < 2 ^ 32 \<and>
     length as \<le> length objects \<and> length as \<le> length shape"

lemma take_slice: "s + n \<le> m \<Longrightarrow> take n (drop s (take m xs)) = take n (drop s xs)"
  by (simp add: drop_take min_def)

lemma lab_build_behind:
  assumes "lab_room as (take named lanes) objects shape" "named \<le> length lanes"
  shows "\<exists>L. lab_build as first objects shape lanes named = Some (Inr L) \<and>
    lanes_behind L (lanes_over (host_lanes first as (take named lanes))) \<and> lb_worst L = replicate MAX_SESSIONS 0"
proof -
  let ?ls = "take named lanes" and ?H = "lanes_over (host_lanes first as (take named lanes))"
  have sum: "(\<Sum>l\<leftarrow>?ls. length (asked l as)) = length as"
    using session_sum [of "map ll_session ?ls" as] assms(1) by (simp add: lab_room_def comp_def)
  obtain ls' objects' shape' where F:
    "fill_lanes as first ?ls objects shape 0 = Some (Inr (ls', length as, objects', shape'))"
    "map ll_session ls' = map ll_session ?ls" "map ll_ceiling ls' = map ll_ceiling ?ls"
    "length objects' = length objects" "length shape' = length shape"
    "\<forall>l \<in> set ls'. holds_lane first as objects' shape' l \<and> ll_start l + ll_len l \<le> length as"
    using fill_lanes_ok [of ?ls 0 as objects shape first] assms(1) unfolding sum lab_room_def by auto
  define L where "L = \<lparr>lb_objects = take (length as) objects', lb_shape = take (length as) shape', lb_lanes = ls',
    lb_cursors = replicate MAX_SESSIONS 0, lb_due = replicate MAX_SESSIONS 0, lb_clock = 0, lb_worst = replicate MAX_SESSIONS 0\<rparr>"
  have room: "length as \<le> length objects'" "length as \<le> length shape'" "length as < 2 ^ 32" "length ?ls \<le> MAX_SESSIONS"
    using assms(1) F(4,5) by (simp_all add: lab_room_def)
  have build: "lab_build as first objects shape lanes named = Some (Inr L)"
    using F(1) room assms(2) by (simp add: lab_build_def L_def)
  have len: "length ls' = length ?ls" using F(2) by (metis length_map)
  have lane: "lane_behind L (ls' ! k) (host_lanes first as ?ls ! k)" if k: "k < length ?ls" for k
  proof -
    have l: "ls' ! k \<in> set ls'" using k len by simp
    have "ll_session (ls' ! k) = ll_session (?ls ! k)" "ll_ceiling (ls' ! k) = ll_ceiling (?ls ! k)"
      using F(2,3) k len by (metis nth_map)+
    then have h: "host_lanes first as ?ls ! k =
        \<lparr>ln_session = ll_session (ls' ! k), ln_ceiling = ll_ceiling (ls' ! k), ln_tokens = cut_tokens first (asked (ls' ! k) as)\<rparr>"
      using k by (simp add: host_lanes_def)
    let ?l = "ls' ! k"
    have H: "ll_len ?l = length (asked ?l as)" "ll_start ?l + ll_len ?l \<le> length as"
      "take (ll_len ?l) (drop (ll_start ?l) objects') = asked ?l as"
      "take (ll_len ?l) (drop (ll_start ?l) shape') = stands 0 (cut_tokens first (asked ?l as))"
      using bspec [OF F(6) l] unfolding holds_lane_def by blast+
    show ?thesis
      unfolding lane_behind_def h lane.simps cut_tokens_concat
      using H room by (simp add: L_def take_slice del: length_map)
  qed
  have zero: "replicate MAX_SESSIONS (0 :: nat) ! k = 0" if "k < length ?ls" for k
    using order_less_le_trans [OF that room(4)] by (rule nth_replicate)
  have "lanes_behind L ?H"
    unfolding lanes_behind_def Let_def
    using lane zero room(4) len by (simp add: lanes_over_def L_def flat_def host_lanes_def)
  then show ?thesis using build by (simp add: L_def)
qed

lemma accesses_eq:
  fixes xs ys :: "access list"
  assumes "map ac_object xs = map ac_object ys" "\<forall>a \<in> set xs. ac_session a = c" "\<forall>a \<in> set ys. ac_session a = c"
  shows "xs = ys"
proof (rule nth_equalityI)
  show len: "length xs = length ys" using assms(1) by (rule map_eq_imp_length_eq)
  fix i assume i: "i < length xs"
  then have "ac_object (xs ! i) = ac_object (ys ! i)" using assms(1) len by (metis nth_map)
  moreover have "ac_session (xs ! i) = ac_session (ys ! i)" using assms(2,3) i len by simp
  ultimately show "xs ! i = ys ! i" by (cases "xs ! i"; cases "ys ! i") simp
qed

definition same_order ::
  "'s schedule \<Rightarrow> 's \<Rightarrow> access list \<Rightarrow> object_id \<Rightarrow> object_id list \<times> (nat \<times> nat) list \<times> lab_lane list \<Rightarrow>
     nat \<Rightarrow> object_id list \<Rightarrow> session_id list \<Rightarrow> bool" where
  "same_order pick st as first room named declared sessions \<longleftrightarrow>
     (case room of (objects, shape, lanes) \<Rightarrow>
        \<exists>L L' out worst.
          lab_build as first objects shape lanes named = Some (Inr L) \<and>
          merge_timed pick st (host_lanes first as (take named lanes)) = Some (out, worst) \<and>
          lab_order pick st L declared sessions 0 =
            Some (length as, map ac_object out @ drop (length as) declared, map ac_session out @ drop (length as) sessions, L') \<and>
          length out = length as \<and> (\<forall>k < named. lb_worst L' ! k = worst ! k) \<and>
          (\<forall>l \<in> set (take named lanes). filter (\<lambda>a. ac_session a = ll_session l) out = session_accesses (ll_session l) as))"

lemma same_order_holds:
  assumes pick: "scheduler pick" and room: "lab_room as (take named lanes) objects shape" "named \<le> length lanes"
    and into: "length as \<le> length declared" "length as \<le> length sessions"
  shows "same_order pick st as first (objects, shape, lanes) named declared sessions"
proof -
  let ?ls = "take named lanes" and ?hs = "host_lanes first as (take named lanes)"
  let ?H = "lanes_over ?hs" and ?w = "replicate (length ?hs) (0 :: nat)"
  from lab_build_behind [OF room, of first] obtain L where L: "lab_build as first objects shape lanes named = Some (Inr L)"
    "lanes_behind L ?H" "lb_worst L = replicate MAX_SESSIONS 0" by blast
  have few: "length as < 2 ^ 32" "length ?ls \<le> MAX_SESSIONS" using room(1) by (simp_all add: lab_room_def)
  have n: "length (la_lanes ?H) = named" "length ?hs = named" using room(2) by (simp_all add: lanes_over_def host_lanes_def)
  have sessions: "map ln_session ?hs = map ll_session ?ls" by (simp add: host_lanes_def)
  have d: "distinct (map ln_session ?hs)" using room(1) unfolding sessions lab_room_def by blast
  from merge_served [OF pick host_lanes_ok [OF few(1)] d, of st] obtain out worst where M:
    "merge_timed pick st ?hs = Some (out, worst)"
    "\<forall>k < length ?hs. map ac_object (filter (\<lambda>a. ac_session a = ln_session (?hs ! k)) out) = concat (ln_tokens (?hs ! k))"
    "length out = (\<Sum>k < length ?hs. length (concat (ln_tokens (?hs ! k))))" by blast
  have sum: "(\<Sum>k < length ?hs. length (concat (ln_tokens (?hs ! k)))) = length as"
  proof -
    have "(\<Sum>k < length ?hs. length (concat (ln_tokens (?hs ! k)))) = (\<Sum>h\<leftarrow>?hs. length (concat (ln_tokens h)))"
      by (subst sum_list_sum_nth, simp only: length_map atLeast0LessThan, rule sum.cong) simp_all
    also have "\<dots> = (\<Sum>s\<leftarrow>map ll_session ?ls. length (session_accesses s as))"
      by (simp add: host_lanes_def cut_tokens_concat comp_def del: length_concat)
    also have "\<dots> = length as" using room(1) by (intro session_sum) (simp_all add: lab_room_def)
    finally show ?thesis .
  qed
  have left: "lanes_left ?H = length as"
    using sum lanes_over_rest [of _ ?hs] by (simp add: lanes_left_def n lanes_over_def [THEN arg_cong [where f = la_lanes]] del: length_concat)
  obtain more worst' L' where O: "merge_loop pick st ?H [] ?w = Some ([] @ more, worst')" "length more = length as"
    "lab_order pick st L declared sessions 0 =
      Some (0 + length more, written declared 0 (map ac_object more), written sessions 0 (map ac_session more), L')"
    "\<forall>k < named. lb_worst L' ! k = worst' ! k"
    using scheduler.order_is_merge [OF pick lanes_over_ok [OF host_lanes_ok [OF few(1)]] L(2), of 0 declared sessions ?w st "[]"]
      into L(3) few(2) room(2) unfolding left n by auto
  have out: "out = more" "worst = worst'" using M(1) O(1) by (simp_all add: merge_timed_def)
  have "filter (\<lambda>a. ac_session a = ll_session l) out = session_accesses (ll_session l) as" if l: "l \<in> set ?ls" for l
  proof -
    obtain k where k: "k < length ?ls" "?ls ! k = l" using l unfolding in_set_conv_nth by blast
    have h: "?hs ! k = \<lparr>ln_session = ll_session l, ln_ceiling = ll_ceiling l, ln_tokens = cut_tokens first (asked l as)\<rparr>"
      using k by (simp only: host_lanes_def nth_map)
    have "k < length ?hs" using k(1) by (simp only: host_lanes_def length_map)
    with M(2) have "map ac_object (filter (\<lambda>a. ac_session a = ln_session (?hs ! k)) out) = concat (ln_tokens (?hs ! k))" by blast
    then have "map ac_object (filter (\<lambda>a. ac_session a = ll_session l) out) = map ac_object (session_accesses (ll_session l) as)"
      unfolding h lane.simps cut_tokens_concat .
    then show ?thesis by (rule accesses_eq [where c = "ll_session l"]) (simp_all add: session_accesses_def)
  qed
  with L(1) M(1) O(2-4) out show ?thesis
    unfolding same_order_def prod.case by (intro exI [of _ L] exI [of _ L'] exI [of _ out] exI [of _ worst]) (simp add: written_def)
qed

text \<open>C24: The kernel orders a trace exactly as the host would. When the lanes named are the trace's sessions and
  the buffers hold it, building and ordering the lanes, under either schedule, return with as many accesses as the
  trace has; what they wrote is the host's merge of the sessions' streams cut where the model's first tile is touched,
  each session's accesses in trace order; and each lane's worst token period is the host's.\<close>

theorem kernel_orders_as_host:
  assumes "lab_room as (take named lanes) objects shape" "named \<le> length lanes"
    and "length as \<le> length declared" "length as \<le> length sessions"
  shows "same_order process_pick st as first (objects, shape, lanes) named declared sessions \<and>
    same_order parameter_pick () as first (objects, shape, lanes) named declared sessions"
  using same_order_holds [OF process.scheduler_axioms assms] same_order_holds [OF parameter.scheduler_axioms assms] by blast

lemma kernel_orders_as_host_witness:
  "same_order parameter_pick () [\<lparr>ac_session = 4, ac_object = 7\<rparr>, \<lparr>ac_session = 2, ac_object = 7\<rparr>, \<lparr>ac_session = 4, ac_object = 9\<rparr>] 7
     (replicate 3 0, replicate 3 (0, 0), [\<lparr>ll_session = 4, ll_start = 0, ll_len = 0, ll_ceiling = 0\<rparr>,
        \<lparr>ll_session = 2, ll_start = 0, ll_len = 0, ll_ceiling = 5\<rparr>]) 2 (replicate 3 0) (replicate 3 0)"
  by (rule kernel_orders_as_host [THEN conjunct2]) (simp_all add: lab_room_def MAX_SESSIONS_def)

end
