(* ===== verification/Bytes.thy ===== *)
theory Bytes
  imports Text
begin

text \<open>
  Byte slices, as Rust's slices and standard library read them: ranges that are \<open>None\<close> out of
  bounds, big- and little-endian integers, positions of a byte, and UTF-8 validity. A string
  slice is the list of its bytes as characters.
\<close>

type_synonym bytes = "u8 list"

section \<open>Ranges\<close>

definition get_range :: "'a list \<Rightarrow> nat \<Rightarrow> nat \<Rightarrow> 'a list option" where
  "get_range xs a b = (if a \<le> b \<and> b \<le> length xs then Some (take (b - a) (drop a xs)) else None)"

definition get_from :: "'a list \<Rightarrow> nat \<Rightarrow> 'a list option" where
  "get_from xs a = (if a \<le> length xs then Some (drop a xs) else None)"

definition get_to :: "'a list \<Rightarrow> nat \<Rightarrow> 'a list option" where
  "get_to xs b = (if b \<le> length xs then Some (take b xs) else None)"

section \<open>Integers\<close>

definition be_value :: "bytes \<Rightarrow> nat" where
  "be_value bs = foldl (\<lambda>acc b. acc * 256 + unat b) 0 bs"

definition le_value :: "bytes \<Rightarrow> nat" where
  "le_value bs = be_value (rev bs)"

fun be_bytes :: "nat \<Rightarrow> nat \<Rightarrow> bytes" where
  "be_bytes 0 n = []"
| "be_bytes (Suc k) n = be_bytes k (n div 256) @ [word_of_nat (n mod 256)]"

definition le_bytes :: "nat \<Rightarrow> nat \<Rightarrow> bytes" where
  "le_bytes k n = rev (be_bytes k n)"

definition be32_at :: "bytes \<Rightarrow> nat \<Rightarrow> nat option" where
  "be32_at bs p = map_option be_value (get_range bs p (p + 4))"

definition le_at :: "nat \<Rightarrow> bytes \<Rightarrow> nat \<Rightarrow> nat option" where
  "le_at k bs p = map_option le_value (get_range bs p (p + k))"

section \<open>Text\<close>

definition continuation :: "nat \<Rightarrow> bool" where
  "continuation n \<longleftrightarrow> 0x80 \<le> n \<and> n \<le> 0xBF"

definition second_byte_ok :: "nat \<Rightarrow> nat \<Rightarrow> bool" where
  "second_byte_ok n m \<longleftrightarrow>
     (if n = 0xE0 then 0xA0 \<le> m \<and> m \<le> 0xBF
      else if n = 0xED then 0x80 \<le> m \<and> m \<le> 0x9F
      else if n = 0xF0 then 0x90 \<le> m \<and> m \<le> 0xBF
      else if n = 0xF4 then 0x80 \<le> m \<and> m \<le> 0x8F
      else continuation m)"

definition sequence_length :: "nat \<Rightarrow> nat" where
  "sequence_length n =
     (if n < 0x80 then 1
      else if 0xC2 \<le> n \<and> n \<le> 0xDF then 2
      else if 0xE0 \<le> n \<and> n \<le> 0xEF then 3
      else if 0xF0 \<le> n \<and> n \<le> 0xF4 then 4
      else 0)"

function utf8_ok :: "nat list \<Rightarrow> bool" where
  "utf8_ok [] = True"
| "utf8_ok (n # ns) =
     (let k = sequence_length n in
      k \<noteq> 0 \<and> k \<le> length (n # ns) \<and>
      (1 < k \<longrightarrow> second_byte_ok n (hd ns) \<and> list_all continuation (take (k - 2) (tl ns))) \<and>
      utf8_ok (drop (k - 1) ns))"
  by pat_completeness auto
termination by (relation "measure length") auto

declare utf8_ok.simps(2) [simp del]

definition text_of :: "bytes \<Rightarrow> string" where
  "text_of bs = map (\<lambda>b. char_of (unat b)) bs"

definition from_utf8 :: "bytes \<Rightarrow> string option" where
  "from_utf8 bs = (if utf8_ok (map unat bs) then Some (text_of bs) else None)"

definition bytes_of :: "string \<Rightarrow> bytes" where
  "bytes_of s = map (\<lambda>c. of_char c) s"

definition ascii :: "string \<Rightarrow> bool" where
  "ascii s \<longleftrightarrow> (\<forall>c \<in> set s. of_char c < (128 :: nat))"

definition from_c_str :: "bytes \<Rightarrow> (string \<times> nat) option" where
  "from_c_str rest =
     (case position (\<lambda>b. b = 0) rest of
        None \<Rightarrow> None
      | Some n \<Rightarrow> map_option (\<lambda>s. (s, n)) (from_utf8 (take n rest)))"

section \<open>Facts\<close>

lemma be_value_Nil [simp]: "be_value [] = 0"
  by (simp add: be_value_def)

lemma be_value_snoc: "be_value (bs @ [b]) = be_value bs * 256 + unat b"
  by (simp add: be_value_def)

lemma be_value_Cons: "be_value (b # bs) = unat b * 256 ^ length bs + be_value bs"
proof (induction bs rule: rev_induct)
  case (snoc c cs)
  have "be_value (b # cs @ [c]) = be_value (b # cs) * 256 + unat c" using be_value_snoc [of "b # cs" c] by simp
  also have "\<dots> = unat b * 256 ^ length (cs @ [c]) + be_value (cs @ [c])"
    unfolding snoc.IH be_value_snoc by (simp add: algebra_simps)
  finally show ?case .
qed (simp add: be_value_def)

lemma be_bytes_length [simp]: "length (be_bytes k n) = k"
  by (induction k arbitrary: n) auto

lemma unat_byte: "unat (word_of_nat (n mod 256) :: u8) = n mod 256"
  by (simp add: unat_of_nat)

lemma be_value_be_bytes: "n < 256 ^ k \<Longrightarrow> be_value (be_bytes k n) = n"
proof (induction k arbitrary: n)
  case (Suc k)
  then have "n div 256 < 256 ^ k" by (simp add: less_mult_imp_div_less mult.commute)
  with Suc.IH show ?case by (simp add: be_value_snoc unat_byte del: unsigned_of_nat)
qed simp

lemma be_value_less: "be_value bs < 256 ^ length bs"
proof (induction bs rule: rev_induct)
  case (snoc b bs)
  have "unat b < 256" using unsigned_less [of b, where ?'a = nat] by simp
  then have "be_value bs * 256 + unat b < (be_value bs + 1) * 256" by simp
  also have "\<dots> \<le> 256 ^ length bs * 256" using snoc by (intro mult_le_mono1) simp
  finally show ?case by (simp add: be_value_snoc mult.commute)
qed simp

lemma get_range_append: "get_range (xs @ ys @ zs) (length xs) (length xs + length ys) = Some ys"
  by (simp add: get_range_def)

lemma get_range_length: "get_range xs a b = Some ys \<Longrightarrow> length ys = b - a \<and> b \<le> length xs"
  by (auto simp: get_range_def split: if_splits)

lemma be32_at_less: "be32_at bs p = Some n \<Longrightarrow> n < 2 ^ 32"
proof -
  assume "be32_at bs p = Some n"
  then obtain ys where ys: "get_range bs p (p + 4) = Some ys" "n = be_value ys" by (auto simp: be32_at_def)
  then have "length ys = 4" using get_range_length by fastforce
  then show ?thesis using be_value_less [of ys] ys by simp
qed

lemma utf8_ascii: "\<forall>n \<in> set ns. n < 128 \<Longrightarrow> utf8_ok ns"
  by (induction ns) (simp_all add: utf8_ok.simps(2) sequence_length_def)

lemma unat_of_char: "unat (of_char c :: u8) = of_char c"
  by (simp add: unat_of_nat of_char_def unsigned_of_nat)

lemma from_utf8_ascii:
  assumes "ascii s"
  shows "from_utf8 (bytes_of s) = Some s"
proof -
  have "utf8_ok (map unat (bytes_of s))"
    by (rule utf8_ascii) (use assms in \<open>auto simp: bytes_of_def ascii_def unat_of_char\<close>)
  moreover have "text_of (bytes_of s) = s" by (simp add: text_of_def bytes_of_def unat_of_char comp_def)
  ultimately show ?thesis by (simp add: from_utf8_def)
qed

lemma position_zero: "0 \<notin> set bs \<Longrightarrow> position (\<lambda>b. b = (0 :: u8)) (bs @ 0 # rest) = Some (length bs)"
  by (induction bs) auto

lemma position_le: "position P xs = Some n \<Longrightarrow> n < length xs"
  by (auto dest: position_Some)


lemma be32_at_here: "n < 2 ^ 32 \<Longrightarrow> be32_at (be_bytes 4 n @ xs) 0 = Some n"
  using be_value_be_bytes [of n 4] by (simp add: be32_at_def get_range_def)

lemma be32_at_skip: "4 \<le> p \<Longrightarrow> be32_at (be_bytes 4 m @ xs) p = be32_at xs (p - 4)"
  by (auto simp: be32_at_def get_range_def)

lemma be32_at_append: "be32_at (pre @ be_bytes 4 n @ rest) (length pre) = Some n" if "n < 2 ^ 32"
  using get_range_append [of pre "be_bytes 4 n" rest] be_value_be_bytes [of n 4] that by (simp add: be32_at_def)

end
