(* ===== verification/Lab.thy ===== *)
theory Lab
  imports LabLanes Synth Objman Bytes
begin

text \<open>
  crates/mlos-lab: the kernel's one object manager over a static arena, registered with the
  synthetic model, swept, and driven through the trace on the disk. The static buffers are a
  record; a stream the manager holds borrows two of them, so writing them is writing it.
  \<open>None\<close> is a panic.
\<close>

section \<open>State (lib.rs, state.rs, replay.rs)\<close>

definition CAPACITY_LAB :: nat where "CAPACITY_LAB = 512"
definition ARENA_BYTES :: nat where "ARENA_BYTES = 32 * 1024"
definition TEXT :: nat where "TEXT = 256 * 1024"
definition ACCESSES :: nat where "ACCESSES = 12 * 1024"
definition DISTINCT :: nat where "DISTINCT = 2 * 1024"
definition HEADER :: nat where "HEADER = 8"

definition SYNTHETIC :: capacity where
  "SYNTHETIC =
     \<lparr>cp_bytes = 0, cp_reserved = TILES * TILE_BYTES + ACTIVATION_BYTES,
      cp_kv_per_token = KV_BYTES * LAYERS, cp_token = LAYERS * TILES\<rparr>"

text \<open>The replay buffers. Of those whose contents no replay reads before writing, the length.\<close>

record lab_room =
  rm_text :: nat
  rm_accesses :: nat
  rm_declared :: "object_id list"
  rm_next :: "nat list"
  rm_seen :: nat
  rm_grouped :: nat
  rm_shape :: nat
  rm_lanes :: nat
  rm_sessions :: "session_id list"

record lab =
  lab_manager :: "manager option"
  lab_buffers :: lab_room

definition replay_room :: lab_room where
  "replay_room =
     \<lparr>rm_text = TEXT, rm_accesses = ACCESSES, rm_declared = replicate ACCESSES 0, rm_next = replicate ACCESSES 0,
      rm_seen = DISTINCT, rm_grouped = ACCESSES, rm_shape = ACCESSES, rm_lanes = MAX_SESSIONS,
      rm_sessions = replicate ACCESSES 0\<rparr>"

definition lab_start :: lab where
  "lab_start = \<lparr>lab_manager = None, lab_buffers = replay_room\<rparr>"

text \<open>Only \<open>declare\<close> and \<open>replay\<close> hand the manager a stream, and both hand it these buffers: what it
  holds after they are written is what they hold.\<close>

definition borrowed :: "lab_room \<Rightarrow> stream \<Rightarrow> stream" where
  "borrowed rm st =
     st\<lparr>st_declared := take (length (st_declared st)) (rm_declared rm), st_next := take (length (st_next st)) (rm_next rm)\<rparr>"

definition with_buffers :: "lab_room \<Rightarrow> lab \<Rightarrow> lab" where
  "with_buffers rm L =
     L\<lparr>lab_buffers := rm, lab_manager := map_option (\<lambda>M. M\<lparr>mg_stream := borrowed rm (mg_stream M)\<rparr>) (lab_manager L)\<rparr>"

section \<open>Choosing and registering (lib.rs)\<close>

definition choice :: "string \<Rightarrow> policy option option" where
  "choice name =
     (if name = ''fifo'' then Some (Some (oldest_policy FIFO))
      else if name = ''lru'' then Some (Some (oldest_policy LRU))
      else if name = ''next-use'' \<or> name = ''nextuse'' then Some (Some NEXT_USE)
      else if name = ''demand'' then Some None
      else None)"

definition lab_choose :: "string \<Rightarrow> lab \<Rightarrow> bool \<times> lab" where
  "lab_choose name L =
     (case choice name of
        None \<Rightarrow> (False, L)
      | Some p \<Rightarrow>
          (lab_manager L \<noteq> None,
           L\<lparr>lab_manager := map_option (\<lambda>M. M\<lparr>mg_policy := p\<rparr>) (lab_manager L)\<rparr>))"

definition clamp :: "nat \<Rightarrow> nat \<Rightarrow> nat \<Rightarrow> nat" where
  "clamp low high n = (if n < low then low else if high < n then high else n)"

definition model_entries :: "bool \<Rightarrow> (object_id \<times> object_meta) list" where
  "model_entries on_disk =
     concat (map (\<lambda>layer.
       map (\<lambda>tensor. (tile (of_nat layer) (of_nat tensor), if on_disk then weights\<lparr>m_provider := DISK\<rparr> else weights)) [0..<TILES]
       @ [(activation (of_nat layer), activations)]) [0..<LAYERS])"

fun populate :: "(object_id \<times> object_meta) list \<Rightarrow> nat \<Rightarrow> manager \<Rightarrow> nat res \<times> manager" where
  "populate [] objects M = (Inr objects, M)"
| "populate ((i, m) # rest) objects M =
     (case register i m M of
        (Inl e, M') \<Rightarrow> (Inl e, M')
      | (Inr _, M') \<Rightarrow> populate rest (objects + 1) M')"

text \<open>\<open>base\<close> is the address of the static arena, \<open>bytes\<close> what is in it, \<open>disk\<close> what \<open>devices::disk\<close> answers.
  The manager registered into stays, also when a later step fails.\<close>

definition lab_attach :: "device option \<Rightarrow> manager \<Rightarrow> unit res \<times> manager" where
  "lab_attach disk M =
     (case attach (tier_provider BACKING) M of
        (Inl e, M) \<Rightarrow> (Inl e, M)
      | (Inr _, M) \<Rightarrow>
          (case attach (tier_provider RECOMPUTE) M of
             (Inl e, M) \<Rightarrow> (Inl e, M)
           | (Inr _, M) \<Rightarrow> (case disk of None \<Rightarrow> (Inr (), M) | Some dev \<Rightarrow> attach (disk_provider dev) M)))"

definition lab_register ::
  "nat \<Rightarrow> u8 list \<Rightarrow> device option \<Rightarrow> nat \<Rightarrow> lab \<Rightarrow> (nat \<times> nat) res \<times> lab" where
  "lab_register base bytes disk budget L =
     (let limit = clamp TILE_BYTES (length bytes) budget;
          M0 = (manager_new CAPACITY_LAB (arena_new base (take limit bytes)))\<lparr>mg_capacity := SYNTHETIC\<lparr>cp_bytes := limit\<rparr>\<rparr>
      in case lab_attach disk M0 of
           (Inl e, M) \<Rightarrow> (Inl e, L\<lparr>lab_manager := Some M\<rparr>)
         | (Inr _, M) \<Rightarrow>
             (case populate (model_entries (disk \<noteq> None)) 0 M of
                (Inl e, M) \<Rightarrow> (Inl e, L\<lparr>lab_manager := Some M\<rparr>)
              | (Inr objects, M) \<Rightarrow>
                  (Inr (objects, rp_registered (report_of (mg_counters M))), L\<lparr>lab_manager := Some M\<rparr>)))"

section \<open>Sweeping (sweep.rs)\<close>

record swept =
  sw_acquired :: nat
  sw_total :: nat
  sw_stopped :: "err option"

definition sweep_order :: "object_id list" where
  "sweep_order = concat (map (\<lambda>layer. map (\<lambda>tensor. tile (of_nat layer) (of_nat tensor)) [0..<TILES]) [0..<LAYERS])"

fun walk :: "session_id \<Rightarrow> object_id list \<Rightarrow> nat \<Rightarrow> manager \<Rightarrow> (nat \<times> err option) \<times> manager" where
  "walk s [] acquired M = ((acquired, None), M)"
| "walk s (i # ids) acquired M =
     (case consume i s M of
        (Inl e, M') \<Rightarrow> ((acquired, Some e), M')
      | (Inr _, M') \<Rightarrow> walk s ids (acquired + 1) M')"

definition sweep :: "session_id \<Rightarrow> lab \<Rightarrow> swept \<times> lab" where
  "sweep s L =
     (case lab_manager L of
        None \<Rightarrow> (\<lparr>sw_acquired = 0, sw_total = LAYERS * TILES, sw_stopped = Some NoProvider\<rparr>, L)
      | Some M \<Rightarrow>
          (case walk s sweep_order 0 M of
             ((acquired, stopped), M') \<Rightarrow>
               (\<lparr>sw_acquired = acquired, sw_total = LAYERS * TILES, sw_stopped = stopped\<rparr>, L\<lparr>lab_manager := Some M'\<rparr>)))"

definition lab_declare :: "lab \<Rightarrow> nat option \<times> lab" where
  "lab_declare L =
     (let rm = lab_buffers L; n = LAYERS * TILES in
      if length (rm_declared rm) < n then (None, L)
      else
        (let declared = sweep_order @ drop n (rm_declared rm) in
         case chain sweep_order (rm_next rm) (rm_seen rm) of
           (r, next) \<Rightarrow>
             (let L' = with_buffers (rm\<lparr>rm_declared := declared, rm_next := next\<rparr>) L in
              case r of
                Inl _ \<Rightarrow> (None, L')
              | Inr _ \<Rightarrow>
                  (case lab_manager L' of
                     None \<Rightarrow> (None, L')
                   | Some M \<Rightarrow>
                       (case stream_declare sweep_order next (mg_stream M) of
                          (Inl _, st) \<Rightarrow> (None, L'\<lparr>lab_manager := Some (M\<lparr>mg_stream := st\<rparr>)\<rparr>)
                        | (Inr _, st) \<Rightarrow> (Some n, L'\<lparr>lab_manager := Some (M\<lparr>mg_stream := st\<rparr>)\<rparr>))))))"

definition lab_advance_stream :: "nat \<Rightarrow> lab \<Rightarrow> nat option \<times> lab" where
  "lab_advance_stream steps L =
     (case lab_manager L of
        None \<Rightarrow> (None, L)
      | Some M \<Rightarrow>
          (let st = stream_advance steps (mg_stream M) in
           (Some (st_cursor st), L\<lparr>lab_manager := Some (M\<lparr>mg_stream := st\<rparr>)\<rparr>)))"

section \<open>Reading the trace off the disk (replay.rs)\<close>

text \<open>A length so near the top of 64 bits that adding the header, or rounding up to a sector, passes it panics:
  where overflow is checked in the sum, else in the slice, whose bounds are then beyond what was read.\<close>

definition lab_read :: "device option \<Rightarrow> nat \<Rightarrow> string res option" where
  "lab_read disk room =
     (case disk of
        None \<Rightarrow> Some (Inl NoProvider)
      | Some dev \<Rightarrow>
          (let at = TRACE_AT * SECTOR in
           if room < SECTOR then Some (Inl NoBudget)
           else case read_at dev at (replicate SECTOR 0) of
                  (Inl e, _) \<Rightarrow> Some (Inl e)
                | (Inr _, first) \<Rightarrow>
                    (let len = le_value (take 8 first);
                         whole = next_multiple_of SECTOR (HEADER + len)
                     in if 2 ^ 64 \<le> whole then None
                        else if room < whole then Some (Inl NoBudget)
                        else case read_at dev at (replicate whole 0) of
                               (Inl e, _) \<Rightarrow> Some (Inl e)
                             | (Inr _, into) \<Rightarrow>
                                 (case from_utf8 (take len (drop HEADER into)) of
                                    None \<Rightarrow> Some (Inl BadObject)
                                  | Some s \<Rightarrow> Some (Inr s)))))"

section \<open>Preparing a replay (replay.rs)\<close>

definition lane_empty :: lab_lane where
  "lane_empty = \<lparr>ll_session = 0, ll_start = 0, ll_len = 0, ll_ceiling = 0\<rparr>"

definition lane_for :: "session \<Rightarrow> lab_lane" where
  "lane_for s = \<lparr>ll_session = s_id s, ll_start = 0, ll_len = 0, ll_ceiling = c_latency_ceiling (s_contract s)\<rparr>"

text \<open>How many lanes were named, and the lanes.\<close>

definition enrol :: "access list \<Rightarrow> lab \<Rightarrow> (nat \<times> lab_lane list) \<times> lab" where
  "enrol as L =
     (let room = rm_lanes (lab_buffers L) in
      case lab_manager L of
        None \<Rightarrow> ((0, replicate room lane_empty), L)
      | Some M \<Rightarrow>
          (let ss = snd (adopt_each (map ac_session as) contract_none (mg_sessions M));
               named = map lane_for (take room (each ss))
           in ((length named, named @ replicate (room - length named) lane_empty),
               L\<lparr>lab_manager := Some (M\<lparr>mg_sessions := ss\<rparr>)\<rparr>)))"

definition lanes_took :: "lab_lanes \<Rightarrow> lab \<Rightarrow> lab" where
  "lanes_took K L =
     L\<lparr>lab_manager := map_option
        (\<lambda>M. M\<lparr>mg_sessions := fold (\<lambda>(l, worst). took (ll_session l) worst) (zip (lb_lanes K) (lb_worst K)) (mg_sessions M)\<rparr>)
        (lab_manager L)\<rparr>"

definition ordered :: "'s schedule \<Rightarrow> 's \<Rightarrow> access list \<Rightarrow> lab \<Rightarrow> (nat res \<times> lab) option" where
  "ordered pick st as L =
     (case enrol as L of
        ((named, lanes), La) \<Rightarrow>
          (let rm = lab_buffers La in
           case lab_build as (tile 0 0) (replicate (rm_grouped rm) 0) (replicate (rm_shape rm) (0, 0)) lanes named of
             None \<Rightarrow> None
           | Some (Inl e) \<Rightarrow> Some (Inl e, La)
           | Some (Inr K) \<Rightarrow>
               (case lab_order pick st K (rm_declared rm) (rm_sessions rm) 0 of
                  None \<Rightarrow> None
                | Some (n, declared, sessions, K') \<Rightarrow>
                    (let rm = rm\<lparr>rm_declared := declared, rm_sessions := sessions\<rparr>;
                         Lb = with_buffers rm La
                     in if n \<noteq> length as then Some (Inl NoBudget, Lb)
                        else case chain (take n declared) (rm_next rm) (rm_seen rm) of
                               (r, next) \<Rightarrow>
                                 (let Lc = with_buffers (rm\<lparr>rm_next := next\<rparr>) (lanes_took K' Lb) in
                                  case r of Inl e \<Rightarrow> Some (Inl e, Lc) | Inr _ \<Rightarrow> Some (Inr n, Lc))))))"

definition prepare :: "'s schedule \<Rightarrow> 's \<Rightarrow> device option \<Rightarrow> lab \<Rightarrow> (nat res \<times> lab) option" where
  "prepare pick st disk L =
     (case lab_read disk (rm_text (lab_buffers L)) of
        None \<Rightarrow> None
      | Some (Inl e) \<Rightarrow> Some (Inl e, L)
      | Some (Inr s) \<Rightarrow>
          (case trace_parse s (rm_accesses (lab_buffers L)) of
             Inl _ \<Rightarrow> Some (Inl BadObject, L)
           | Inr tr \<Rightarrow> ordered pick st (tr_accesses tr) L))"

section \<open>Replaying (replay.rs)\<close>

record replayed =
  rd_hits :: nat
  rd_reads :: nat
  rd_bytes :: nat
  rd_evicted :: nat
  rd_refused :: nat
  rd_headline :: headline

definition replayed_default :: replayed where
  "replayed_default =
     \<lparr>rd_hits = 0, rd_reads = 0, rd_bytes = 0, rd_evicted = 0, rd_refused = 0,
      rd_headline = \<lparr>hl_ps_per_mille = 0, hl_ks = 0, hl_ss_milli = 0\<rparr>\<rparr>"

definition known_meta :: "object_id \<Rightarrow> object_meta" where
  "known_meta i =
     (case object_class_of i of
        Some KvBlock \<Rightarrow> kv_meta (unat (f_model (object_fields i)))
      | Some Activation \<Rightarrow> activations
      | _ \<Rightarrow> weights)"

definition known :: "object_id \<Rightarrow> manager \<Rightarrow> bool \<times> manager" where
  "known i M =
     (if table_get (mg_table M) i \<noteq> None then (True, M)
      else (case register i (known_meta i) M of (r, M') \<Rightarrow> (r = Inr (), M')))"

definition faults_of :: "manager \<Rightarrow> nat" where
  "faults_of M = total_faults (report_of (mg_counters M))"

definition lab_step :: "object_id \<Rightarrow> session_id \<Rightarrow> replayed \<Rightarrow> manager option \<Rightarrow> replayed \<times> manager option" where
  "lab_step object who out held =
     (case held of
        None \<Rightarrow> (out\<lparr>rd_refused := rd_refused out + 1\<rparr>, None)
      | Some M0 \<Rightarrow>
          (case known object M0 of
             (False, M) \<Rightarrow> (out\<lparr>rd_refused := rd_refused out + 1\<rparr>, Some M)
           | (True, M) \<Rightarrow>
               (case consume object who M of
                  (r, M') \<Rightarrow>
                    (let out = out\<lparr>rd_evicted := rd_evicted out + (mg_evictions M' - mg_evictions M)\<rparr> in
                     (case r of
                        Inr h \<Rightarrow>
                          if faults_of M < faults_of M'
                          then out\<lparr>rd_reads := rd_reads out + 1, rd_bytes := rd_bytes out + hd_size h\<rparr>
                          else out\<lparr>rd_hits := rd_hits out + 1\<rparr>
                      | Inl _ \<Rightarrow> out\<lparr>rd_refused := rd_refused out + 1\<rparr>,
                      Some M')))))"

fun lab_steps :: "(object_id \<times> session_id) list \<Rightarrow> replayed \<Rightarrow> manager option \<Rightarrow> replayed \<times> manager option" where
  "lab_steps [] out held = (out, held)"
| "lab_steps ((object, who) # rest) out held =
     (case lab_step object who out held of
        (out', held') \<Rightarrow>
          lab_steps rest out' (map_option (\<lambda>M. M\<lparr>mg_stream := stream_advance 1 (mg_stream M)\<rparr>) held'))"

definition lab_play :: "nat \<Rightarrow> lab \<Rightarrow> replayed res \<times> lab" where
  "lab_play n L =
     (let rm = lab_buffers L; declared = take n (rm_declared rm) in
      case lab_manager L of
        None \<Rightarrow> (Inl NoProvider, L)
      | Some M \<Rightarrow>
          (case stream_declare declared (rm_next rm) (mg_stream M) of
             (Inl e, st) \<Rightarrow> (Inl e, L\<lparr>lab_manager := Some (M\<lparr>mg_stream := st\<rparr>)\<rparr>)
           | (Inr _, st) \<Rightarrow>
               (case lab_steps (zip declared (take n (rm_sessions rm))) replayed_default (Some (M\<lparr>mg_stream := st\<rparr>)) of
                  (out, held) \<Rightarrow>
                    (Inr (out\<lparr>rd_headline := (case held of None \<Rightarrow> rd_headline replayed_default | Some M \<Rightarrow> mgr_headline M)\<rparr>),
                     L\<lparr>lab_manager := map_option (\<lambda>M. snd (destroy_all_sessions M)) held\<rparr>))))"

definition lab_replay_with ::
  "'s schedule \<Rightarrow> 's \<Rightarrow> device option \<Rightarrow> lab \<Rightarrow> (replayed res \<times> lab) option" where
  "lab_replay_with pick st disk L =
     (case prepare pick st disk L of
        None \<Rightarrow> None
      | Some (Inl e, L') \<Rightarrow> Some (Inl e, L')
      | Some (Inr n, L') \<Rightarrow> Some (lab_play n L'))"

definition lab_replay :: "bool \<Rightarrow> device option \<Rightarrow> lab \<Rightarrow> (replayed res \<times> lab) option" where
  "lab_replay parameter disk L =
     (if parameter then lab_replay_with parameter_pick () disk L
      else lab_replay_with process_pick process_major_default disk L)"

end
