(* ===== verification/LabMatch.thy ===== *)
theory LabMatch
  imports Lab SimProofs ObjmanProps Workload
begin

text \<open>
  crates/mlos-lab against crates/mlos-sim: the manager and the simulator's resident set, step by step. Two arenas
  are alike when they differ in their base and bytes only; a manager matches a resident set when the same objects
  are resident, at the same offsets, with the same figures a policy reads.
\<close>

section \<open>Arenas that differ in their base\<close>

definition alike :: "arena \<Rightarrow> arena \<Rightarrow> bool" where
  "alike a b \<longleftrightarrow> ar_free a = ar_free b \<and> length (ar_bytes a) = length (ar_bytes b)"

lemma alike_fits: "alike a b \<Longrightarrow> fits (arena_occupancy a) n = fits (arena_occupancy b) n"
  by (simp add: alike_def fits_def arena_occupancy_def arena_largest_def)

lemma alike_write: "start + length data \<le> length (ar_bytes a) \<Longrightarrow> alike (arena_write start data a) b = alike a b"
  by (simp add: alike_def arena_write_def)

lemma alike_place:
  assumes "alike a b" "arena_place n a = (r, a')"
  shows "\<exists>b'. arena_place n b = ((case r of Inl e \<Rightarrow> Inl e | Inr (address, start, len) \<Rightarrow> Inr (ar_base b + start, start, len)), b') \<and>
    alike a' b' \<and> ar_base b' = ar_base b"
  using assms by (auto simp: alike_def arena_place_def Let_def split: option.splits if_splits)

lemma alike_release:
  assumes "alike a b" "ar_base a \<le> x" "ar_base b \<le> y" "x - ar_base a = y - ar_base b" "arena_release x n a = (r, a')"
  shows "\<exists>b'. arena_release y n b = (r, b') \<and> alike a' b' \<and> ar_base a' = ar_base a \<and> ar_base b' = ar_base b"
  using assms by (auto simp: alike_def arena_release_def checked_sub_def Let_def split: option.splits if_splits)

section \<open>Matching\<close>

definition same_figures :: "object_meta \<Rightarrow> object_meta \<Rightarrow> bool" where
  "same_figures m s \<longleftrightarrow>
     m_size m = m_size s \<and> m_placed_tick m = m_placed_tick s \<and> m_used_tick m = m_used_tick s \<and>
     m_next_use m = m_next_use s \<and> m_reload_cost m = m_reload_cost s \<and> m_recompute_cost m = m_recompute_cost s \<and>
     m_share_count m = m_share_count s"

definition same_entry :: "manager \<Rightarrow> resident \<Rightarrow> object_meta \<Rightarrow> object_meta \<Rightarrow> bool" where
  "same_entry M r m s \<longleftrightarrow>
     m_resident_at m \<noteq> 0 \<and> same_figures m s \<and>
     m_resident_at m - ar_base (mg_arena M) = m_resident_at s - ar_base (re_arena r)"

definition same_residents :: "manager \<Rightarrow> resident \<Rightarrow> bool" where
  "same_residents M r \<longleftrightarrow>
     (\<forall>i. case map_of (re_held r) i of
        None \<Rightarrow> (\<forall>m. table_map (mg_table M) i = Some m \<longrightarrow> m_resident_at m = 0)
      | Some s \<Rightarrow> \<exists>m. table_map (mg_table M) i = Some m \<and> same_entry M r m s)"

definition same_held :: "manager \<Rightarrow> resident \<Rightarrow> bool" where
  "same_held M r \<longleftrightarrow>
     length (ct_held (mg_counters M)) = CLASSES \<and> (\<forall>c. ct_held (mg_counters M) ! class_index c = held_of c r)"

definition matched :: "manager \<Rightarrow> resident \<Rightarrow> bool" where
  "matched M r \<longleftrightarrow> alike (mg_arena M) (re_arena r) \<and> same_residents M r \<and> same_held M r"

lemma same_residentsD:
  assumes "same_residents M r"
  shows "map_of (re_held r) i = Some s \<Longrightarrow> \<exists>m. table_map (mg_table M) i = Some m \<and> same_entry M r m s"
    and "map_of (re_held r) i = None \<Longrightarrow> table_map (mg_table M) i = Some m \<Longrightarrow> m_resident_at m = 0"
proof -
  have "case map_of (re_held r) i of None \<Rightarrow> (\<forall>m. table_map (mg_table M) i = Some m \<longrightarrow> m_resident_at m = 0)
      | Some s \<Rightarrow> \<exists>m. table_map (mg_table M) i = Some m \<and> same_entry M r m s"
    using assms unfolding same_residents_def by (rule spec)
  then show "map_of (re_held r) i = Some s \<Longrightarrow> \<exists>m. table_map (mg_table M) i = Some m \<and> same_entry M r m s"
    and "map_of (re_held r) i = None \<Longrightarrow> table_map (mg_table M) i = Some m \<Longrightarrow> m_resident_at m = 0"
    by simp_all
qed

section \<open>The same victim\<close>

text \<open>The policies the kernel can be told to use, and the simulator's for each.\<close>

definition sim_policy :: "policy option \<Rightarrow> policy" where
  "sim_policy p = (case p of None \<Rightarrow> Demand | Some p \<Rightarrow> p)"

definition by_figures :: "policy \<Rightarrow> bool" where
  "by_figures p \<longleftrightarrow>
     (\<exists>key beats. strict_total beats \<and> (\<forall>m s now. same_figures m s \<longrightarrow> key m now = key s now) \<and>
        (\<forall>v w. pol_victim p v w = map_option fst (scan v (\<lambda>m. key m (rs_now v)) beats None [0..<rs_len v])))"

lemma by_figures_known: "choice name = Some (Some p) \<Longrightarrow> by_figures p"
proof -
  assume "choice name = Some (Some p)"
  then consider "p = oldest_policy FIFO" | "p = oldest_policy LRU" | "p = NEXT_USE"
    by (auto simp: choice_def split: if_splits)
  then show ?thesis
  proof cases
    case 1
    then show ?thesis unfolding by_figures_def
      by (intro exI [of _ "\<lambda>m now. m_placed_tick m"] exI [of _ "\<lambda>a b. a < b"])
        (auto simp: same_figures_def oldest_policy_def oldest_victim_def FIFO_def)
  next
    case 2
    then show ?thesis unfolding by_figures_def
      by (intro exI [of _ "\<lambda>m now. m_used_tick m"] exI [of _ "\<lambda>a b. a < b"])
        (auto simp: same_figures_def oldest_policy_def oldest_victim_def LRU_def)
  next
    case 3
    then show ?thesis unfolding by_figures_def
      by (intro exI [of _ "evictability"] exI [of _ "\<lambda>a b. b < a"])
        (auto simp: same_figures_def NEXT_USE_def next_use_victim_def evictability_def recovery_def holders_def)
  qed
qed

lemma view_residents:
  assumes "index_ok (re_held r) ix"
  shows "(i, s) \<in> residents (resident_view r) \<longleftrightarrow> map_of (re_held r) i = Some s"
  using map_of_iff_index [OF assms, of i s] by (auto simp: residents_def resident_view_def nth_opt_def)

lemma same_victim:
  assumes p: "by_figures p" and res: "same_residents M r" and inv: "table_inv (mg_table M)" "index_ok (re_held r) ix"
    and now: "re_cursor r = mg_clock M"
  shows "pol_victim p (held_view (mg_table M) (mg_clock M)) w = pol_victim p (resident_view r) w'"
proof -
  let ?v = "held_view (mg_table M) (mg_clock M)" and ?u = "resident_view r"
  obtain key beats where k: "strict_total beats" "\<forall>m s now. same_figures m s \<longrightarrow> key m now = key s now"
    "\<And>v w. pol_victim p v w = map_option fst (scan v (\<lambda>m. key m (rs_now v)) beats None [0..<rs_len v])"
    using p unfolding by_figures_def by blast
  let ?key = "\<lambda>m. key m (mg_clock M)"
  have "candidates ?v ?key = candidates ?u ?key"
  proof (intro set_eqI iffI)
    fix x assume "x \<in> candidates ?v ?key"
    then obtain i m where m: "table_map (mg_table M) i = Some m" "m_resident_at m \<noteq> 0" "x = (i, ?key m)"
      unfolding candidates_def using held_residents [OF inv(1)] by auto
    then obtain s where s: "map_of (re_held r) i = Some s"
      using same_residentsD(2) [OF res] by (cases "map_of (re_held r) i") auto
    with same_residentsD(1) [OF res s] m(1) have "same_figures m s" by (auto simp: same_entry_def)
    then have "x = (i, ?key s)" using k(2) m(3) by simp
    then show "x \<in> candidates ?u ?key"
      unfolding candidates_def using view_residents [OF inv(2), of i s] s by (auto intro!: image_eqI [of _ _ "(i, s)"])
  next
    fix x assume "x \<in> candidates ?u ?key"
    then obtain i s where s: "map_of (re_held r) i = Some s" "x = (i, ?key s)"
      unfolding candidates_def using view_residents [OF inv(2)] by auto
    obtain m where m: "table_map (mg_table M) i = Some m" "same_entry M r m s" using same_residentsD(1) [OF res s(1)] by blast
    then have "m_resident_at m \<noteq> 0" "x = (i, ?key m)" using k(2) s(2) by (auto simp: same_entry_def)
    then show "x \<in> candidates ?v ?key"
      unfolding candidates_def using held_residents [OF inv(1), of i m] m(1) by (auto intro!: image_eqI [of _ _ "(i, m)"])
  qed
  then have "scan ?v ?key beats None [0..<rs_len ?v] = scan ?u ?key beats None [0..<rs_len ?u]"
    using best_of_unique [OF k(1) scan_candidates [OF k(1)]] scan_candidates [OF k(1)] by metis
  then show ?thesis unfolding k(3) by (simp add: held_view_def resident_view_def now)
qed

section \<open>Bytes held by class\<close>

definition class_bytes :: "object_class \<Rightarrow> (object_id \<times> object_meta) list \<Rightarrow> nat" where
  "class_bytes c xs = sum_list (map (\<lambda>(i, m). if object_class_of i = Some c then m_size m else 0) xs)"

lemma held_of_bytes: "held_of c r = class_bytes c (re_held r)"
proof -
  have "sum_list (map (\<lambda>(i, m). m_size m) (filter (\<lambda>(i, m). object_class_of i = Some c) xs)) = class_bytes c xs" for xs
    unfolding class_bytes_def by (induction xs) auto
  then show ?thesis by (simp add: held_of_def)
qed

lemma class_bytes_simps [simp]:
  "class_bytes c [] = 0"
  "class_bytes c (xs @ ys) = class_bytes c xs + class_bytes c ys"
  "class_bytes c ((i, m) # xs) = (if object_class_of i = Some c then m_size m else 0) + class_bytes c xs"
  by (simp_all add: class_bytes_def)

lemma class_bytes_at:
  "k < length xs \<Longrightarrow> xs ! k = (i, m) \<Longrightarrow> class_bytes c xs = (if object_class_of i = Some c then m_size m else 0) +
     class_bytes c (take k xs) + class_bytes c (drop (Suc k) xs)"
proof -
  assume k: "k < length xs" "xs ! k = (i, m)"
  have "xs = take k xs @ (i, m) # drop (Suc k) xs" using id_take_nth_drop [OF k(1)] k(2) by simp
  then have "class_bytes c xs = class_bytes c (take k xs @ (i, m) # drop (Suc k) xs)" by (rule arg_cong)
  also have "\<dots> = (if object_class_of i = Some c then m_size m else 0) + class_bytes c (take k xs) + class_bytes c (drop (Suc k) xs)"
    by simp
  finally show ?thesis .
qed

lemma class_bytes_write:
  assumes "k < length xs" "xs ! k = (i, m)" "m_size m' = m_size m"
  shows "class_bytes c (xs[k := (i, m')]) = class_bytes c xs"
  using class_bytes_at [OF assms(1,2), of c] class_bytes_at [of k "xs[k := (i, m')]" i m' c] assms by simp

lemma class_bytes_swap_remove:
  assumes "k < length xs" "xs ! k = (i, m)"
  shows "class_bytes c xs = (if object_class_of i = Some c then m_size m else 0) + class_bytes c (swap_remove k xs)"
proof -
  obtain ys y where xs: "xs = ys @ [y]" using assms(1) by (cases xs rule: rev_cases) auto
  show ?thesis
  proof (cases "k = length ys")
    case True
    then show ?thesis using assms by (simp add: xs swap_remove_def)
  next
    case False
    then have k: "k < length ys" "ys ! k = (i, m)" using assms by (simp_all add: xs nth_append)
    obtain j n where y: "y = (j, n)" by (cases y)
    have "swap_remove k xs = ys[k := y]" using k by (simp add: xs swap_remove_def list_update_append)
    moreover have "class_bytes c (ys[k := y]) = (if object_class_of j = Some c then m_size n else 0) +
        class_bytes c (take k ys) + class_bytes c (drop (Suc k) ys)"
      using class_bytes_at [of k "ys[k := y]" j n c] k y by simp
    ultimately show ?thesis using class_bytes_at [OF k, of c] by (simp add: xs y)
  qed
qed

lemma count_held_at:
  assumes "length (ct_held ct) = CLASSES"
  shows "length (ct_held (count_held c d ct)) = CLASSES"
    and "ct_held (count_held c d ct) ! class_index c' =
      (if c' = c then sat_add_signed 64 (ct_held ct ! class_index c) d else ct_held ct ! class_index c')"
proof -
  have l: "class_index c < length (ct_held ct)" 
  proof -
    have "CLASSES = 8" by (simp add: CLASSES_def all_classes_def)
    then show ?thesis using assms class_index_lt [of c] by presburger
  qed
  show "length (ct_held (count_held c d ct)) = CLASSES" using assms by (simp add: count_held_def Let_def)
  show "ct_held (count_held c d ct) ! class_index c' =
      (if c' = c then sat_add_signed 64 (ct_held ct ! class_index c) d else ct_held ct ! class_index c')"
    using l class_index_inject [of c c'] by (auto simp: count_held_def Let_def nth_list_update)
qed

section \<open>Eviction\<close>

lemma same_residents_update:
  assumes "same_residents M r" "table_map (mg_table M') = (table_map (mg_table M))(v \<mapsto> m')" "m_resident_at m' = 0"
    and "map_of (re_held r') = (map_of (re_held r))(v := None)"
    and "ar_base (mg_arena M') = ar_base (mg_arena M)" "ar_base (re_arena r') = ar_base (re_arena r)"
  shows "same_residents M' r'"
  unfolding same_residents_def
proof
  fix i
  show "case map_of (re_held r') i of None \<Rightarrow> (\<forall>m. table_map (mg_table M') i = Some m \<longrightarrow> m_resident_at m = 0)
      | Some s \<Rightarrow> \<exists>m. table_map (mg_table M') i = Some m \<and> same_entry M' r' m s"
    using same_residentsD [OF assms(1), of i] assms(2-6)
    by (cases "map_of (re_held r) i") (auto simp: same_entry_def split: option.split)
qed

lemma evict_match:
  assumes inv: "mgr_inv_pending pend M" and rinv: "resident_inv r" and mt: "matched M r" and run: "evict v M = (q, M')"
  shows "(\<exists>e e'. q = Inl e \<and> M' = M \<and> resident_remove v r = Some (Inl e', r)) \<or>
    (\<exists>n n' r'. q = Inr n \<and> resident_remove v r = Some (Inr n', r') \<and> matched M' r' \<and> re_cursor r' = re_cursor r \<and>
       mg_evictions M' = mg_evictions M + 1)"
proof -
  note I = mgr_invD [OF inv] and R = resident_invD [OF rinv]
  have al: "alike (mg_arena M) (re_arena r)" and sr: "same_residents M r" and sh: "same_held M r"
    using mt by (simp_all add: matched_def)
  show ?thesis
  proof (cases "map_of (re_held r) v")
    case None
    then have "re_index r v = None" using index_ok_None [OF R(2)] by (simp add: map_of_eq_None_iff)
    then have rm: "resident_remove v r = Some (Inl BadObject, r)" by (simp add: resident_remove_def)
    from inv run show ?thesis
      by (cases rule: evict_cases) (use rm same_residentsD(2) [OF sr None] in auto)
  next
    case (Some s)
    obtain m where m: "table_map (mg_table M) v = Some m" "same_entry M r m s" using same_residentsD(1) [OF sr Some] by blast
    obtain k where k: "k < length (re_held r)" "re_held r ! k = (v, s)" using map_of_iff_index [OF R(2)] Some by blast
    have ix: "re_index r v = Some k" using index_okD [OF R(2)] k by simp
    have mem: "(v, s) \<in> set (re_held r)" using k by (metis nth_mem)
    have b: "ar_base (mg_arena M) \<le> m_resident_at m" "ar_base (re_arena r) \<le> m_resident_at s" "m_size s = m_size m"
      "m_resident_at m - ar_base (mg_arena M) = m_resident_at s - ar_base (re_arena r)" "m_resident_at m \<noteq> 0"
      and pos: "0 < m_size m"
      using I(5) [OF m(1)] R(3) [OF mem] m(2) by (simp_all add: entry_ok_def same_entry_def same_figures_def)
    obtain q' a where rel: "arena_release (m_resident_at m) (m_size m) (mg_arena M) = (q', a)" by fastforce
    from alike_release [OF al b(1,2,4) rel] obtain a' where
      a': "arena_release (m_resident_at s) (m_size s) (re_arena r) = (q', a')" "alike a a'"
        "ar_base a = ar_base (mg_arena M)" "ar_base a' = ar_base (re_arena r)" using b(3) by auto
    show ?thesis
    proof (cases q')
      case (Inl e)
      have "a' = re_arena r" using arena_release_full [OF R(1)] a'(1) Inl by blast
      then have rm: "resident_remove v r = Some (Inl e, r)"
        using ix k a'(1) Inl by (simp add: resident_remove_def nth_opt_def)
      from inv run show ?thesis
        by (cases rule: evict_cases) (use rm rel Inl m(1) in auto)
    next
      case (Inr u)
      define r' where "r' = r\<lparr>re_arena := a', re_held := swap_remove k (re_held r),
        re_index := (case nth_opt (swap_remove k (re_held r)) k of None \<Rightarrow> (re_index r)(v := None)
          | Some (moved, _) \<Rightarrow> (re_index r)(v := None, moved \<mapsto> k))\<rparr>"
      have rm: "resident_remove v r = Some (Inr (m_size s), r')"
        using ix k a'(1) Inr by (simp add: resident_remove_def nth_opt_def r'_def Let_def)
      have held: "map_of (re_held r') = (map_of (re_held r))(v := None)"
        using map_of_swap_remove [OF R(2) ix] by (simp add: r'_def fun_eq_iff)
      from inv run show ?thesis
      proof (cases rule: evict_cases)
        case (failed e)
        then show ?thesis using rel Inr m(1) b(5) run by (auto simp: evict_def table_get_map [OF I(1)] Let_def split: option.splits)
      next
        case (evicted m1 a1 t c)
        then have m1: "m1 = m" "a1 = a" using m(1) rel by simp_all
        have "same_residents M' r'"
          by (rule same_residents_update [OF sr _ _ held, of M' "gone m m"])
            (use evicted m1 a' in \<open>simp_all add: gone_def r'_def\<close>)
        moreover have "alike (mg_arena M') (re_arena r')" using evicted m1 a'(2) by (simp add: r'_def)
        moreover have "same_held M' r'"
          unfolding same_held_def
        proof (intro conjI allI)
          have l: "length (ct_held (mg_counters M)) = CLASSES" using sh by (simp add: same_held_def)
          show "length (ct_held (mg_counters M')) = CLASSES" using count_held_at(1) [OF l] evicted by simp
          fix d
          have "ct_held (mg_counters M) ! class_index d = class_bytes d (re_held r)" for d
            using sh by (simp add: same_held_def held_of_bytes)
          then show "ct_held (mg_counters M') ! class_index d = held_of d r'"
            using class_bytes_swap_remove [OF k, of d] evicted(5) b(3) m1 pos
            by (auto simp: evicted(10) count_held_at(2) [OF l] held_of_bytes r'_def sat_add_signed_def)
        qed
        ultimately have "matched M' r'" by (simp add: matched_def)
        then show ?thesis using rm evicted by (intro disjI2) (auto simp: r'_def)
      qed
    qed
  qed
qed

section \<open>Making room\<close>

definition same_policy :: "manager \<Rightarrow> run \<Rightarrow> bool" where
  "same_policy M ru \<longleftrightarrow> ru_policy ru = sim_policy (mg_policy M) \<and> (\<forall>p. mg_policy M = Some p \<longrightarrow> by_figures p)"

definition roomed :: "nat \<Rightarrow> manager \<Rightarrow> resident \<Rightarrow> outcome \<Rightarrow> manager \<Rightarrow> resident \<Rightarrow> outcome \<Rightarrow> bool" where
  "roomed k M r out M' r' out' \<longleftrightarrow>
     resident_inv r' \<and> matched M' r' \<and> counted k r' out' \<and> re_cursor r' = re_cursor r \<and>
     mg_evictions M \<le> mg_evictions M' \<and>
     out' = out\<lparr>ou_evicted := ou_evicted out + (mg_evictions M' - mg_evictions M)\<rparr> \<and>
     (\<forall>j. re_index r j = None \<longrightarrow> re_index r' j = None)"

lemma roomed_refl: "resident_inv r \<Longrightarrow> matched M r \<Longrightarrow> counted k r out \<Longrightarrow> roomed k M r out M r out"
  by (simp add: roomed_def)

lemma make_room_match:
  assumes "mgr_inv_pending pend M" "resident_inv r" "matched M r" "counted k r out" "k < 2 ^ 32"
    and "same_policy M ru" "re_cursor r = mg_clock M" "m_size w' = m_size w"
  shows "\<exists>r' out'. sim_make_room ru w' r out = Some (r', out') \<and> roomed k M r out (make_room w M) r' out'"
  using assms(1-4,6-8)
proof (induction w M arbitrary: r out rule: make_room.induct)
  case (1 w M)
  note S = sim_make_room.simps [of ru w' r out] and K = make_room.simps [of w M]
  have al: "alike (mg_arena M) (re_arena r)" and sr: "same_residents M r" using 1(4) by (simp_all add: matched_def)
  have ft: "fits (arena_occupancy (re_arena r)) (m_size w') = fits (arena_occupancy (mg_arena M)) (m_size w)"
    using alike_fits [OF al] 1(8) by simp
  note rf = roomed_refl [OF 1(3,4,5)]
  show ?case
  proof (cases "fits (arena_occupancy (mg_arena M)) (m_size w)")
    case True
    then show ?thesis using rf ft by (simp add: S K)
  next
    case nofit: False
    show ?thesis
    proof (cases "mg_policy M")
      case None
      then have "pol_victim (ru_policy ru) (resident_view r) w' = None"
        using 1(6) by (simp add: same_policy_def sim_policy_def Demand_def demand_victim_def)
      then show ?thesis using rf ft nofit None by (simp add: S K)
    next
      case pol: (Some p)
      then have p: "ru_policy ru = p" "by_figures p" using 1(6) by (simp_all add: same_policy_def sim_policy_def)
      have same: "pol_victim p (held_view (mg_table M) (mg_clock M)) w = pol_victim p (resident_view r) w'"
        by (rule same_victim [OF p(2) sr mgr_invD(1) [OF 1(2)] resident_invD(2) [OF 1(3)] 1(7)])
      show ?thesis
      proof (cases "pol_victim p (resident_view r) w'")
        case None
        then show ?thesis using rf ft nofit pol p same by (simp add: S K)
      next
        case v: (Some v)
        then have vm: "pol_victim p (held_view (mg_table M) (mg_clock M)) w = Some v" using same by simp
        obtain q M1 where ev: "evict v M = (q, M1)" by fastforce
        from evict_match [OF 1(2-4) ev] show ?thesis
        proof (elim disjE exE conjE)
          fix e e' assume "q = Inl e" "M1 = M" "resident_remove v r = Some (Inl e', r)"
          then show ?thesis using rf ft nofit pol p v vm ev by (simp add: S K)
        next
          fix n n' r1 assume e: "q = Inr n" "resident_remove v r = Some (Inr n', r1)" "matched M1 r1"
            "re_cursor r1 = re_cursor r" "mg_evictions M1 = mg_evictions M + 1"
          have rr: "resident_inv r1" "length (re_held r) = length (re_held r1) + 1" "\<forall>j. re_index r j = None \<longrightarrow> re_index r1 j = None"
            using 1(3) by (cases rule: resident_remove_spec [of r v]; use e(2) in simp)+
          have le: "ou_evicted out \<le> k" using 1(5) by (simp add: counted_def)
          let ?out = "out\<lparr>ou_evicted := ou_evicted out + 1\<rparr>"
          have c1: "counted k r1 ?out" using 1(5) rr(2) by (simp add: counted_def)
          have inv1: "mgr_inv_pending pend M1" by (rule evict_inv [OF 1(2) ev])
          have th: "thinned M M1" by (rule evict_thinned [OF 1(2) ev])
          have "same_policy M1 ru" "re_cursor r1 = mg_clock M1"
            using 1(6,7) e(4) th by (simp_all add: same_policy_def thinned_def)
          from 1(1) [OF nofit pol vm ev [symmetric] e(1) inv1 rr(1) e(3) c1 this 1(8)] obtain r' out' where
            R: "sim_make_room ru w' r1 ?out = Some (r', out')" "roomed k M1 r1 ?out (make_room w M1) r' out'" by blast
          have "add_u64 (ou_evicted out) 1 = ou_evicted out + 1" using le assms(5) by (simp add: add_u64_one)
          then have "sim_make_room ru w' r out = Some (r', out')"
            using R(1) ft nofit p v e(2) by (simp add: S)
          moreover have "make_room w M = make_room w M1" using nofit pol vm ev e(1) by (simp add: K)
          moreover have "roomed k M r out (make_room w M1) r' out'"
            using R(2) rr(3) e(4,5) by (auto simp: roomed_def)
          ultimately show ?thesis by metis
        qed
      qed
    qed
  qed
qed

section \<open>One acquire, consumed\<close>

definition unlimited :: "nat \<Rightarrow> sessions \<Rightarrow> bool" where
  "unlimited n ss \<longleftrightarrow> sessions_inv ss \<and> contracts ss = replicate_mset n contract_none"

lemma unlimited_contract:
  assumes "unlimited n ss" "sessions_get ss i = Some s"
  shows "s_contract s = contract_none"
proof -
  have "Some s \<in> set ss" using assms sessions_get_iff [of ss i s] by (auto simp: unlimited_def)
  then have "s \<in> set (each ss)"
  proof (induction ss)
    case (Cons x xs)
    then show ?case by (cases x) auto
  qed simp
  then have "s_contract s \<in># contracts ss" by (auto simp: contracts_def)
  then show ?thesis using assms(1) by (auto simp: unlimited_def split: if_splits)
qed

lemma unlimited_update:
  "unlimited n ss \<Longrightarrow> (\<And>s. s_id (f s) = s_id s) \<Longrightarrow> (\<And>s. s_contract (f s) = s_contract s) \<Longrightarrow> unlimited n (sessions_update i f ss)"
  by (simp add: unlimited_def contracts_update book.update_good)

lemma unlimited_credit: "unlimited n ss \<Longrightarrow> unlimited n (credit owner sz ss)"
  unfolding credit_def by (rule unlimited_update) simp_all

lemma unlimited_live: "unlimited n ss \<Longrightarrow> sessions_live ss = n"
proof -
  have "sessions_live xs = size (contracts xs)" for xs
  proof (induction xs)
    case (Cons x xs)
    then show ?case by (cases x) (simp_all add: sessions_live_def contracts_def)
  qed (simp add: sessions_live_def contracts_def)
  then show "unlimited n ss \<Longrightarrow> sessions_live ss = n" by (simp add: unlimited_def)
qed

definition readable :: "manager \<Rightarrow> object_id \<Rightarrow> object_meta \<Rightarrow> bool" where
  "readable M i m \<longleftrightarrow>
     (\<exists>p. provider_for m M = Inr p \<and>
        (\<forall>into. length into = m_size m \<longrightarrow> (\<exists>n room. pr_read p (located_new i m) 0 into = (Inr n, room))))"

lemma consume_hit:
  assumes inv: "mgr_inv M" and m: "table_map (mg_table M) i = Some m" "m_resident_at m \<noteq> 0"
  obtains c t ev where "object_class_of i = Some c" "table_inv t"
    "table_map t = (table_map (mg_table M))
       (i \<mapsto> release_meta Streaming (hit_meta (sat_add 32 (mg_clock M) 1) (next_after (mg_stream M) i) Streaming m))"
    "consume i who M = (Inr \<lparr>hd_id = i, hd_address = m_resident_at m, hd_size = m_size m\<rparr>,
       M\<lparr>mg_clock := sat_add 32 (mg_clock M) 1, mg_counters := count_hit c (m_size m) (mg_counters M), mg_table := t, mg_events := ev\<rparr>)"
proof -
  note I = mgr_invD [OF inv [unfolded mgr_inv_def]]
  let ?now = "sat_add 32 (mg_clock M) 1" and ?w = "next_after (mg_stream M) i"
  have g: "table_get (mg_table M) i = Some m" by (simp add: table_get_map [OF I(1)] m)
  obtain c where c: "object_class_of i = Some c" using I(5) [OF m(1)] m(2) by (auto simp: entry_ok_def)
  obtain t where t: "table_get_mut i (hit_meta ?now ?w Streaming) (mg_table M) = Some t" "table_inv t"
    "table_map t = (table_map (mg_table M))(i \<mapsto> hit_meta ?now ?w Streaming m)"
    using tab.modify_present [OF I(1) m(1)] by blast
  have "table_map t i = Some (hit_meta ?now ?w Streaming m)" by (simp add: t(3))
  then obtain t' where t': "table_get_mut i (release_meta Streaming) t = Some t'" "table_inv t'"
    "table_map t' = (table_map t)(i \<mapsto> release_meta Streaming (hit_meta ?now ?w Streaming m))"
    using tab.modify_present [OF t(2)] by blast
  show ?thesis
    by (rule that [OF c t'(2), where ev = "ring_record (event_hit i who (m_size m)) (mg_events M)"])
      (use g m(2) c t(1) t'(1,3) t(3) in \<open>simp_all add: consume_def acquire_def release_def Let_def\<close>)
qed

lemma unlimited_charge:
  assumes "unlimited n ss"
  obtains ss' where "charge owner sz p ss = (Inr (), ss')" "unlimited n ss'"
proof -
  have inv: "sessions_inv ss" using assms by (simp add: unlimited_def)
  then show ?thesis
  proof (cases rule: charge_cases [of ss owner sz p])
    case unknown
    with assms that show ?thesis by blast
  next
    case (refused s)
    then show ?thesis using unlimited_contract [OF assms refused(1)] by (simp add: contract_none_def)
  next
    case (counted s)
    then show ?thesis using that unlimited_update [OF assms, of "charged (s_resident s + sz) p" owner] by (simp add: charged_def)
  qed
qed

text \<open>A miss: the owner charged, room made, then refused or placed.\<close>

definition missing :: "object_meta \<Rightarrow> model_fault \<Rightarrow> sessions \<Rightarrow> manager \<Rightarrow> manager" where
  "missing m fault ss M = M\<lparr>mg_clock := sat_add 32 (mg_clock M) 1, mg_last_fault := Some fault, mg_sessions := ss\<rparr>"

lemma missing_pending:
  assumes "mgr_inv M" "charge (m_owner m) (m_size m) p (mg_sessions M) = (Inr (), ss)"
  shows "mgr_inv_pending (pending m) (missing m fault ss M)"
proof -
  have "missing m fault ss M = (M\<lparr>mg_sessions := ss\<rparr>)\<lparr>mg_clock := sat_add 32 (mg_clock M) 1, mg_last_fault := Some fault\<rparr>"
    by (simp add: missing_def)
  then show ?thesis using charge_pending [OF assms] by simp
qed

lemma consume_miss:
  assumes inv: "mgr_inv M" and m: "table_map (mg_table M) i = Some m" "m_resident_at m = 0"
    and c: "object_class_of i = Some c" and rd: "readable M i m" and free: "unlimited n (mg_sessions M)"
  obtains (refused) fault ss ev Mr where "charge (m_owner m) (m_size m) (m_precision m) (mg_sessions M) = (Inr (), ss)" "unlimited n ss"
      "Mr = make_room m (missing m fault ss M)" "\<forall>h \<in> set (ar_free (mg_arena Mr)). h_len h < aligned (m_size m)"
      "consume i who M = (Inl NoBudget, Mr\<lparr>mg_sessions := credit (m_owner m) (m_size m) (mg_sessions Mr), mg_events := ev\<rparr>)"
  | (placed) fault ss ev Mr h address start a room t where
      "charge (m_owner m) (m_size m) (m_precision m) (mg_sessions M) = (Inr (), ss)" "unlimited n ss"
      "Mr = make_room m (missing m fault ss M)"
      "arena_place (m_size m) (mg_arena Mr) = (Inr (address, start, m_size m), a)" "length room = m_size m"
      "hd_size h = m_size m" "table_inv t"
      "table_map t = (table_map (mg_table Mr))(i \<mapsto> release_meta Streaming
         (placed_meta address (next_after (mg_stream M) i) (sat_add 32 (mg_clock M) 1) Streaming m))"
      "consume i who M = (Inr h, Mr\<lparr>mg_arena := arena_write start room a,
         mg_counters := count_fault c (m_size m) (count_held c (int (m_size m)) (mg_counters Mr)), mg_table := t, mg_events := ev\<rparr>)"
proof -
  note I = mgr_invD [OF inv [unfolded mgr_inv_def]]
  let ?now = "sat_add 32 (mg_clock M) 1" and ?w = "next_after (mg_stream M) i"
  have g: "table_get (mg_table M) i = Some m" by (simp add: table_get_map [OF I(1)] m)
  obtain p where p: "provider_for m M = Inr p"
    "\<And>into. length into = m_size m \<Longrightarrow> \<exists>n room. pr_read p (located_new i m) 0 into = (Inr n, room)"
    using rd unfolding readable_def by blast
  define cost where "cost = for_bytes (pr_cost p (located_new i m)) (m_size m)"
  obtain fault where f: "model_fault_new i who cost = Some fault" by (simp add: model_fault_new_def c)
  obtain ss where ss: "charge (m_owner m) (m_size m) (m_precision m) (mg_sessions M) = (Inr (), ss)" "unlimited n ss"
    using unlimited_charge [OF free] by blast
  let ?Mf = "M\<lparr>mg_clock := ?now, mg_last_fault := Some fault\<rparr>"
  define Mr where "Mr = make_room m (missing m fault ss M)"
  have mi: "?Mf\<lparr>mg_sessions := ss\<rparr> = missing m fault ss M" by (simp add: missing_def)
  note P = missing_pending [OF inv ss(1), of fault]
  note R = make_room_inv [OF P, of m, folded Mr_def]
  have mr: "table_map (mg_table Mr) i = Some m"
    using thinned_absent [OF R(2), of i m] m by (simp add: missing_def)
  have pm: "Some p \<in> set (mg_providers Mr)" using R(2) provider_for_mem [OF p(1)] by (simp add: thinned_def missing_def)
  have clk: "mg_clock Mr = ?now" using R(2) by (simp add: thinned_def missing_def)
  obtain q M2 where q: "mgr_place i (located_new i m) p Streaming ?w Mr = (q, M2)" by fastforce
  have ad: "mgr_admit i (located_new i m) p Streaming ?w ?Mf =
      (case q of Inr h \<Rightarrow> (Inr h, M2\<lparr>mg_counters := count_fault c (m_size m) (mg_counters M2)\<rparr>)
       | Inl e \<Rightarrow> (Inl e, M2\<lparr>mg_sessions := credit (m_owner m) (m_size m) (mg_sessions M2)\<rparr>))"
  proof -
    have "mgr_place i (located_new i m) p Streaming ?w (make_room m (?Mf\<lparr>mg_sessions := ss\<rparr>)) = (q, M2)"
      using q by (simp only: mi Mr_def)
    then show ?thesis using g ss(1) c by (simp add: mgr_admit_def split: sum.split)
  qed
  have ac: "acquire i Streaming who M =
      (case mgr_admit i (located_new i m) p Streaming ?w ?Mf of
         (r, M') \<Rightarrow> (r, M'\<lparr>mg_events := ring_record (case r of Inr h \<Rightarrow> event_placed i who m cost (hd_address h - ar_base (mg_arena M))
            | Inl why \<Rightarrow> event_refused i who m cost why) (mg_events M')\<rparr>))"
    unfolding cost_def using g m(2) p(1) f [unfolded cost_def] by (simp add: acquire_def service_def Let_def provider_for_def)
  note ac = ac [unfolded ad]
  from R(1) mr c pm q show ?thesis
  proof (cases rule: mgr_place_cases)
    case full
    then show ?thesis using ss Mr_def
      by (intro refused [of ss Mr fault "ring_record (event_refused i who m cost NoBudget) (mg_events Mr)"])
        (simp_all add: consume_def ac)
  next
    case (unread e address start a room)
    have "start + m_size m \<le> length (ar_bytes (mg_arena Mr))"
      using arena_place_sound(5) [OF mgr_invD(2) [OF R(1)] _ unread(2)] aligned_facts(2) [of "m_size m"] I(5) [OF m(1)]
      by (simp add: entry_ok_def)
    then have "length (take (m_size m) (drop start (ar_bytes (mg_arena Mr)))) = m_size m" by simp
    from p(2) [OF this] unread(3) show ?thesis by auto
  next
    case (placed address start a room n' t)
    let ?pm = "placed_meta address ?w ?now Streaming m"
    have "table_map t i = Some ?pm" by (simp add: placed(7) clk)
    then obtain t' where t': "table_get_mut i (release_meta Streaming) t = Some t'" "table_inv t'"
      "table_map t' = (table_map t)(i \<mapsto> release_meta Streaming ?pm)"
      using tab.modify_present [OF placed(5)] by blast
    have "table_map t' = (table_map (mg_table Mr))(i \<mapsto> release_meta Streaming ?pm)"
      using t'(3) placed(7) clk by simp
    then show ?thesis
      using ss Mr_def placed(1,2,4,8) t'(1,2)
      by (intro that(2) [of ss Mr fault address start a room "\<lparr>hd_id = i, hd_address = address, hd_size = m_size m\<rparr>" t'
            "ring_record (event_placed i who m cost (address - ar_base (mg_arena M))) (mg_events Mr)"])
        (simp_all add: consume_def ac release_def)
  qed
qed

section \<open>What both sides carry from one access to the next\<close>

definition priced :: "run \<Rightarrow> manager \<Rightarrow> bool" where
  "priced ru M \<longleftrightarrow>
     (\<forall>i m. table_map (mg_table M) i = Some m \<longrightarrow>
        object_class_of i \<noteq> None \<and> readable M i m \<and> m_share_count m = 0 \<and>
        (\<exists>d. ru_model ru i = Some d \<and> m_size m = m_size d \<and> m_reload_cost m = m_reload_cost d \<and>
           m_recompute_cost m = m_recompute_cost d \<and> m_share_count d = 0))"

definition same_price :: "object_meta \<Rightarrow> object_meta \<Rightarrow> bool" where
  "same_price m m' \<longleftrightarrow>
     m_size m' = m_size m \<and> m_provider m' = m_provider m \<and> m_handle m' = m_handle m \<and>
     m_reload_cost m' = m_reload_cost m \<and> m_recompute_cost m' = m_recompute_cost m"

lemma readable_same:
  "readable M i m \<Longrightarrow> same_price m m' \<Longrightarrow> mg_providers M' = mg_providers M \<Longrightarrow> readable M' i m'"
  by (simp add: readable_def same_price_def provider_for_def located_new_def)

lemma priced_same:
  assumes "priced ru M" "mg_providers M' = mg_providers M"
    and "\<And>k m'. table_map (mg_table M') k = Some m' \<Longrightarrow>
      \<exists>m. table_map (mg_table M) k = Some m \<and> (m' = m \<or> same_price m m' \<and> m_share_count m' = 0)"
  shows "priced ru M'"
  unfolding priced_def
proof (intro allI impI)
  fix i m' assume "table_map (mg_table M') i = Some m'"
  from assms(3) [OF this] obtain m where m: "table_map (mg_table M) i = Some m"
    "m' = m \<or> same_price m m' \<and> m_share_count m' = 0" by blast
  have "same_price m m'" using m(2) by (auto simp: same_price_def)
  moreover from this have "readable M' i m'" using assms(1,2) m(1) readable_same unfolding priced_def by blast
  ultimately show "object_class_of i \<noteq> None \<and> readable M' i m' \<and> m_share_count m' = 0 \<and>
      (\<exists>d. ru_model ru i = Some d \<and> m_size m' = m_size d \<and> m_reload_cost m' = m_reload_cost d \<and>
         m_recompute_cost m' = m_recompute_cost d \<and> m_share_count d = 0)"
    using assms(1) m unfolding priced_def same_price_def by metis
qed

lemma priced_thinned: "priced ru M \<Longrightarrow> thinned M M' \<Longrightarrow> priced ru M'"
proof (rule priced_same)
  assume th: "thinned M M'"
  then show "mg_providers M' = mg_providers M" by (simp add: thinned_def)
  fix k m' assume m': "table_map (mg_table M') k = Some m'"
  from th have "table_map (mg_table M') k = table_map (mg_table M) k \<or>
      (\<exists>m. table_map (mg_table M) k = Some m \<and> m_resident_at m \<noteq> 0 \<and> table_map (mg_table M') k = Some (gone m m))"
    unfolding thinned_def by blast
  then show "\<exists>m. table_map (mg_table M) k = Some m \<and> (m' = m \<or> same_price m m' \<and> m_share_count m' = 0)"
  proof
    assume "table_map (mg_table M') k = table_map (mg_table M) k"
    with m' show ?thesis by simp
  next
    assume "\<exists>m. table_map (mg_table M) k = Some m \<and> m_resident_at m \<noteq> 0 \<and> table_map (mg_table M') k = Some (gone m m)"
    with m' show ?thesis by (auto simp: same_price_def gone_def)
  qed
qed

definition tallied :: "counters \<Rightarrow> outcome \<Rightarrow> bool" where
  "tallied ct out \<longleftrightarrow>
     length (ct_faults ct) = CLASSES \<and> length (ct_fetched ct) = CLASSES \<and> length (ct_hits ct) = CLASSES \<and>
     sum_list (ct_faults ct) = ou_reads out \<and> ct_fetched ct ! class_index WeightTile = ou_weights_read out \<and>
     ct_fetched ct ! class_index WeightTile + ct_hits ct ! class_index WeightTile = ou_weights_applied out"

definition in_step :: "nat \<Rightarrow> run \<Rightarrow> nat \<Rightarrow> manager \<Rightarrow> resident \<Rightarrow> outcome \<Rightarrow> bool" where
  "in_step n ru k M r out \<longleftrightarrow>
     mgr_inv M \<and> resident_inv r \<and> matched M r \<and> counted k r out \<and> mg_clock M = k \<and> same_policy M ru \<and>
     unlimited n (mg_sessions M) \<and> priced ru M \<and> tallied (mg_counters M) out"

definition agrees :: "replayed \<Rightarrow> outcome \<Rightarrow> bool" where
  "agrees rd out \<longleftrightarrow>
     rd_hits rd = ou_hits out \<and> rd_reads rd = ou_reads out \<and> rd_bytes rd = ou_bytes out \<and>
     rd_evicted rd = ou_evicted out \<and> rd_refused rd = ou_refused out"

definition lab_count :: "handle res \<Rightarrow> manager \<Rightarrow> manager \<Rightarrow> replayed \<Rightarrow> replayed" where
  "lab_count r M M' out =
     (let out = out\<lparr>rd_evicted := rd_evicted out + (mg_evictions M' - mg_evictions M)\<rparr> in
      case r of
        Inr h \<Rightarrow>
          if faults_of M < faults_of M'
          then out\<lparr>rd_reads := rd_reads out + 1, rd_bytes := rd_bytes out + hd_size h\<rparr>
          else out\<lparr>rd_hits := rd_hits out + 1\<rparr>
      | Inl _ \<Rightarrow> out\<lparr>rd_refused := rd_refused out + 1\<rparr>)"

lemma lab_step_count:
  "known object M0 = (True, M) \<Longrightarrow> consume object who M = (res, M') \<Longrightarrow>
     lab_step object who out (Some M0) = (lab_count res M M' out, Some M')"
  by (simp add: lab_step_def lab_count_def Let_def)

lemma faults_sum: "sum_list (ct_faults (mg_counters M)) \<le> umax 32 \<Longrightarrow> faults_of M = sum_list (ct_faults (mg_counters M))"
  by (simp add: faults_of_def total_faults_def report_of_def foldl_sat_add)

lemma count_fault_sum:
  assumes "length (ct_faults ct) = CLASSES" "sum_list (ct_faults ct) < umax 32"
  shows "sum_list (ct_faults (count_fault c b ct)) = sum_list (ct_faults ct) + 1"
proof -
  have k: "class_index c < length (ct_faults ct)"
  proof -
    have "CLASSES = 8" by (simp add: CLASSES_def all_classes_def)
    then show ?thesis using assms(1) class_index_lt [of c] by presburger
  qed
  have "ct_faults ct ! class_index c \<le> sum_list (ct_faults ct)" using k by (rule elem_le_sum_list)
  then have "sat_add 32 (ct_faults ct ! class_index c) 1 = ct_faults ct ! class_index c + 1"
    using assms(2) by (intro sat_add_exact) linarith
  then show ?thesis using k elem_le_sum_list [OF k] by (simp add: count_fault_def Let_def sum_list_update)
qed

section \<open>A hit\<close>

lemma same_residents_put:
  assumes "same_residents M r" "table_map (mg_table M') = (table_map (mg_table M))(i \<mapsto> m')"
    and "map_of (re_held r') = (map_of (re_held r))(i \<mapsto> s')" "same_entry M' r' m' s'"
    and "ar_base (mg_arena M') = ar_base (mg_arena M)" "ar_base (re_arena r') = ar_base (re_arena r)"
  shows "same_residents M' r'"
  unfolding same_residents_def
proof
  fix j
  show "case map_of (re_held r') j of None \<Rightarrow> (\<forall>m. table_map (mg_table M') j = Some m \<longrightarrow> m_resident_at m = 0)
      | Some s \<Rightarrow> \<exists>m. table_map (mg_table M') j = Some m \<and> same_entry M' r' m s"
    using same_residentsD [OF assms(1), of j] assms(2-6)
    by (cases "map_of (re_held r) j") (auto simp: same_entry_def split: option.split)
qed

lemma consume_inv: "mgr_inv M \<Longrightarrow> consume i who M = (res, M') \<Longrightarrow> mgr_inv M'"
proof -
  assume inv: "mgr_inv M" and run: "consume i who M = (res, M')"
  obtain r M1 where a: "acquire i Streaming who M = (r, M1)" by fastforce
  have "mgr_inv M1" using acquire_spec [OF inv a] by blast
  moreover obtain q M2 where "release i Streaming M1 = (q, M2)" by fastforce
  ultimately show "mgr_inv M'" using run a release_inv(1) [of M1 i Streaming q M2]
    by (auto simp: consume_def split: sum.splits)
qed

definition consumed :: "nat \<Rightarrow> run \<Rightarrow> nat \<Rightarrow> object_id \<Rightarrow> session_id \<Rightarrow> manager \<Rightarrow> resident \<Rightarrow> outcome \<Rightarrow> replayed \<Rightarrow> bool" where
  "consumed n ru k i who M r out rd \<longleftrightarrow>
     (\<exists>res M' r' out'. consume i who M = (res, M') \<and> sim_step ru i (k + 1) r out = Some (r', out') \<and>
        in_step n ru (k + 1) M' r' out' \<and> agrees (lab_count res M M' rd) out' \<and>
        dom (table_map (mg_table M')) = dom (table_map (mg_table M)) \<and> mg_stream M' = mg_stream M \<and>
        mg_capacity M' = mg_capacity M \<and> ou_sessions out' = ou_sessions out)"

lemma tallied_hit:
  assumes "tallied ct out" "counted k r out" "k + 1 < 2 ^ 32" "n \<le> umax 32" "object_class_of i = Some c"
  shows "tallied (count_hit c n ct) (out\<lparr>ou_hits := h, ou_weights_applied := add_u64 (ou_weights_applied out) (n * (if is_weight i then 1 else 0))\<rparr>)"
proof -
  let ?W = "class_index WeightTile"
  have l: "length (ct_hits ct) = CLASSES" "class_index c < CLASSES"
    using assms(1) class_index_lt [of c] by (simp add: tallied_def, simp add: CLASSES_def all_classes_def del: class_index_lt)
  have w: "ct_fetched ct ! ?W + ct_hits ct ! ?W = ou_weights_applied out" "ou_weights_applied out \<le> k * umax 32"
    using assms(1,2) by (simp_all add: tallied_def counted_def)
  have room: "ou_weights_applied out + n < 2 ^ 64"
  proof -
    have "k * umax 32 \<le> (2 ^ 32 - 2) * umax 32" using assms(3) by (intro mult_le_mono1) simp
    then have "ou_weights_applied out + n \<le> (2 ^ 32 - 2) * umax 32 + umax 32" using w(2) assms(4) by linarith
    then show ?thesis by simp
  qed
  have a: "add_u64 (ou_weights_applied out) n = ou_weights_applied out + n" "add_u64 (ou_weights_applied out) 0 = ou_weights_applied out"
    using room by (simp_all add: add_u64_exact)
  have h: "sat_add 64 (ct_hits ct ! ?W) n = ct_hits ct ! ?W + n" using w(1) room by (intro sat_add_exact) (simp add: umax_def)
  show ?thesis
  proof (cases "c = WeightTile")
    case True
    then have "is_weight i" using assms(5) by (simp add: is_weight_def)
    then show ?thesis using assms(1) l a h True by (simp add: tallied_def count_hit_def Let_def)
  next
    case False
    then have "\<not> is_weight i" "class_index c \<noteq> ?W" using assms(5) by (simp_all add: is_weight_def class_index_inject)
    then show ?thesis using assms(1) a by (simp add: tallied_def count_hit_def Let_def)
  qed
qed

lemma hit_step:
  assumes st: "in_step n ru k M r out" and m: "table_map (mg_table M) i = Some m" "m_resident_at m \<noteq> 0" and k: "k + 1 < 2 ^ 32"
    and ok: "model_ok (ru_model ru)"
    and wanted: "next_after (mg_stream M) i = wanted_at (ru_seen ru) (k + 1)" and ag: "agrees rd out"
  shows "consumed n ru k i who M r out rd"
proof -
  have inv: "mgr_inv M" "resident_inv r" and mt: "matched M r" and cn: "counted k r out" and clk: "mg_clock M = k"
    and pr: "priced ru M" and ta: "tallied (mg_counters M) out"
    using st by (simp_all add: in_step_def)
  let ?w = "wanted_at (ru_seen ru) (k + 1)"
  have now: "sat_add 32 (mg_clock M) 1 = k + 1" using clk k by (simp add: sat_add_exact)
  note R = resident_invD [OF inv(2)]
  have sr: "same_residents M r" using mt by (simp add: matched_def)
  obtain s where s: "map_of (re_held r) i = Some s" using same_residentsD(2) [OF sr _ m(1)] m(2) by (cases "map_of (re_held r) i") auto
  then have e: "same_entry M r m s" using same_residentsD(1) [OF sr s] m(1) by auto
  obtain p where p: "p < length (re_held r)" "re_held r ! p = (i, s)" using map_of_iff_index [OF R(2)] s by blast
  have ix: "re_index r i = Some p" using index_okD [OF R(2)] p by simp
  obtain d where d: "ru_model ru i = Some d" "m_size m = m_size d" "m_share_count m = 0" using pr m(1) unfolding priced_def by blast
  define r' where "r' = r\<lparr>re_cursor := k + 1, re_held := (re_held r)[p := (i, touched_meta (k + 1) ?w s)]\<rparr>"
  have touch: "resident_touch i (k + 1) ?w r = (True, r')" using ix p by (simp add: resident_touch_def nth_opt_def r'_def)
  define out' where "out' = out\<lparr>ou_hits := add_u64 (ou_hits out) 1,
    ou_weights_applied := add_u64 (ou_weights_applied out) (m_size d * (if is_weight i then 1 else 0))\<rparr>"
  have sim: "sim_step ru i (k + 1) r out = Some (r', out')"
    by (simp only: sim_step_def d(1) option.case Let_def touch prod.case bool.case if_True out'_def)
  from consume_hit [OF inv(1) m, of who] obtain c t ev where c: "object_class_of i = Some c" "table_inv t"
    "table_map t = (table_map (mg_table M))(i \<mapsto> release_meta Streaming (hit_meta (k + 1) ?w Streaming m))"
    "consume i who M = (Inr \<lparr>hd_id = i, hd_address = m_resident_at m, hd_size = m_size m\<rparr>,
       M\<lparr>mg_clock := k + 1, mg_counters := count_hit c (m_size m) (mg_counters M), mg_table := t, mg_events := ev\<rparr>)"
    unfolding now wanted by blast
  let ?m = "release_meta Streaming (hit_meta (k + 1) ?w Streaming m)"
  define M' where "M' = M\<lparr>mg_clock := k + 1, mg_counters := count_hit c (m_size m) (mg_counters M), mg_table := t, mg_events := ev\<rparr>"
  note run = c(4) [folded M'_def]
  have spec: "resident_inv r'" "counted (k + 1) r' out'" "ou_sessions out' = ou_sessions out"
    using sim_step_spec [OF inv(2) cn _ ok, of i "k + 1"] k sim by auto
  have fields: "mg_table M' = t" "mg_arena M' = mg_arena M" "mg_clock M' = k + 1" "mg_policy M' = mg_policy M" "mg_sessions M' = mg_sessions M"
    "mg_counters M' = count_hit c (m_size m) (mg_counters M)" "mg_providers M' = mg_providers M" "mg_stream M' = mg_stream M"
    "mg_capacity M' = mg_capacity M" "mg_evictions M' = mg_evictions M"
    by (simp_all add: M'_def)
  have fig: "m_resident_at ?m = m_resident_at m" "m_share_count ?m = 0" "same_price m ?m" "same_figures ?m (touched_meta (k + 1) ?w s)"
    using e d(3) m(2) by (auto simp: release_meta_def hit_meta_def touched_meta_def same_figures_def same_entry_def same_price_def sat_add_def)
  have held: "map_of (re_held r') = (map_of (re_held r))(i \<mapsto> touched_meta (k + 1) ?w s)"
    unfolding r'_def by (simp add: map_of_write [OF R(2) p])
  have "same_residents M' r'"
    by (rule same_residents_put [OF sr _ held, of M' ?m])
      (use c(3) e fig in \<open>simp_all add: fields same_entry_def r'_def del: fun_upd_apply\<close>)
  moreover have "same_held M' r'"
    using mt class_bytes_write [OF p touched_meta_simps(1)] by (simp add: matched_def same_held_def fields held_of_bytes r'_def count_hit_def Let_def)
  ultimately have "matched M' r'" using mt by (simp add: matched_def fields r'_def)
  moreover have "priced ru M'"
    by (rule priced_same [OF pr fields(7)]) (use m(1) fig in \<open>auto simp: fields(1) c(3) split: if_splits\<close>)
  moreover have "tallied (mg_counters M') out'"
    unfolding fields out'_def d(2) by (rule tallied_hit [OF ta cn k _ c(1)]) (use ok d in \<open>simp add: model_ok_def\<close>)
  ultimately have "in_step n ru (k + 1) M' r' out'"
    using st consume_inv [OF inv(1) run] spec by (simp add: in_step_def fields same_policy_def)
  moreover have "agrees (lab_count (Inr \<lparr>hd_id = i, hd_address = m_resident_at m, hd_size = m_size m\<rparr>) M M' rd) out'"
  proof -
    have "faults_of M' = faults_of M" by (simp add: faults_of_def report_of_def total_faults_def fields count_hit_def Let_def)
    moreover have "ou_hits out < 4294967296" using cn k by (simp add: counted_def)
    ultimately show ?thesis using ag by (simp add: lab_count_def agrees_def fields out'_def add_u64_one)
  qed
  moreover have "dom (table_map (mg_table M')) = dom (table_map (mg_table M))" using m(1) by (auto simp: fields c(3))
  ultimately show ?thesis unfolding consumed_def using run sim spec(3) fields(8,9) by blast
qed

section \<open>A miss\<close>

definition untouched :: "manager \<Rightarrow> manager \<Rightarrow> bool" where
  "untouched M M' \<longleftrightarrow>
     ct_faults (mg_counters M') = ct_faults (mg_counters M) \<and> ct_fetched (mg_counters M') = ct_fetched (mg_counters M) \<and>
     ct_hits (mg_counters M') = ct_hits (mg_counters M) \<and> (\<forall>n. unlimited n (mg_sessions M) \<longrightarrow> unlimited n (mg_sessions M'))"

lemma make_room_untouched: "untouched M (make_room w M)"
proof (rule make_room_keeps [of "untouched M"])
  fix M1 M2 v r assume "untouched M M1" "evict v M1 = (r, M2)"
  then show "untouched M M2"
    by (auto simp: untouched_def evict_def Let_def count_held_def unlimited_credit split: option.splits if_splits prod.splits sum.splits)
qed (simp add: untouched_def)

lemma tallied_untouched: "untouched M M' \<Longrightarrow> tallied (mg_counters M) out = tallied (mg_counters M') (out\<lparr>ou_evicted := e\<rparr>)"
  by (simp add: untouched_def tallied_def)

lemma tallied_miss:
  assumes "tallied ct out" "counted k r out" "k + 1 < 2 ^ 32" "m_size m \<le> umax 32" "object_class_of i = Some c"
  shows "tallied (count_fault c (m_size m) (count_held c d ct)) (read_counts i m out)"
    and "sum_list (ct_faults (count_fault c (m_size m) (count_held c d ct))) = sum_list (ct_faults ct) + 1"
proof -
  let ?W = "class_index WeightTile" and ?ct = "count_held c d ct"
  have f: "ct_faults ?ct = ct_faults ct" "ct_fetched ?ct = ct_fetched ct" "ct_hits ?ct = ct_hits ct"
    by (simp_all add: count_held_def Let_def)
  have l: "length (ct_fetched ct) = CLASSES" "class_index c < CLASSES" "length (ct_faults ?ct) = CLASSES"
    using assms(1) class_index_lt [of c] by (simp add: tallied_def, simp add: CLASSES_def all_classes_def del: class_index_lt, simp add: tallied_def f)
  have w: "ct_fetched ct ! ?W = ou_weights_read out" "ou_weights_read out \<le> ou_weights_applied out" "ou_weights_applied out \<le> k * umax 32"
    using assms(1,2) by (auto simp: tallied_def counted_def)
  have room: "ou_weights_applied out + m_size m < 2 ^ 64"
  proof -
    have "k * umax 32 \<le> (2 ^ 32 - 2) * umax 32" using assms(3) by (intro mult_le_mono1) simp
    then have "ou_weights_applied out + m_size m \<le> (2 ^ 32 - 2) * umax 32 + umax 32" using w(3) assms(4) by linarith
    then show ?thesis by simp
  qed
  have a: "add_u64 (ou_weights_applied out) (m_size m) = ou_weights_applied out + m_size m"
    "add_u64 (ou_weights_read out) (m_size m) = ou_weights_read out + m_size m"
    using room w(2) by (simp_all add: add_u64_exact)
  have h: "sat_add 64 (ct_fetched ct ! ?W) (m_size m) = ct_fetched ct ! ?W + m_size m"
    using w(1,2) room by (intro sat_add_exact) (simp add: umax_def)
  have rd: "sum_list (ct_faults ?ct) = ou_reads out" "ou_reads out \<le> k" using assms(1,2) by (simp_all add: tallied_def f counted_def)
  then have su: "sum_list (ct_faults (count_fault c (m_size m) ?ct)) = ou_reads out + 1"
    using count_fault_sum [OF l(3), of c "m_size m"] assms(3) by simp
  then show "sum_list (ct_faults (count_fault c (m_size m) ?ct)) = sum_list (ct_faults ct) + 1" using rd f by simp
  have one: "add_u64 (ou_reads out) 1 = ou_reads out + 1" using rd(2) assms(3) by (intro add_u64_exact) simp
  have o: "length (ct_faults (count_fault c (m_size m) ?ct)) = CLASSES" "length (ct_fetched (count_fault c (m_size m) ?ct)) = CLASSES"
    "ct_hits (count_fault c (m_size m) ?ct) = ct_hits ct" "length (ct_hits ct) = CLASSES"
    using l f assms(1) by (simp_all add: count_fault_def Let_def tallied_def)
  have ft: "ct_fetched (count_fault c (m_size m) ?ct) ! ?W = (if c = WeightTile then ct_fetched ct ! ?W + m_size m else ct_fetched ct ! ?W)"
    using l h class_index_inject [of c WeightTile] by (auto simp: count_fault_def Let_def f nth_list_update)
  have wt: "is_weight i \<longleftrightarrow> c = WeightTile" using assms(5) by (simp add: is_weight_def)
  have app: "ct_fetched ct ! ?W + ct_hits ct ! ?W = ou_weights_applied out" using assms(1) by (simp add: tallied_def)
  show "tallied (count_fault c (m_size m) ?ct) (read_counts i m out)"
    using app w(1) unfolding tallied_def su o ft by (simp add: read_counts_def Let_def wt o(4) one [simplified] a)
qed

lemma miss_placed:
  assumes Mr: "matched Mr r2" "resident_inv r2" "resident_inv r'" and d: "m_size m = m_size d" "m_share_count d = 0"
      "m_reload_cost m = m_reload_cost d" "m_recompute_cost m = m_recompute_cost d" "m_share_count m = 0"
    and new: "re_index r2 i = None" and base: "0 < ar_base (mg_arena Mr)" and c: "object_class_of i = Some c"
    and pl: "arena_place (m_size m) (mg_arena Mr) = (Inr (address, start, m_size m), a)" "ar_base (mg_arena Mr) + start = address"
      "length room = m_size m" "start + m_size m \<le> length (ar_bytes (mg_arena Mr))"
    and M': "mg_arena M' = arena_write start room a" "mg_counters M' = count_fault c (m_size m) (count_held c (int (m_size m)) (mg_counters Mr))"
      "table_map (mg_table M') = (table_map (mg_table Mr))(i \<mapsto> release_meta Streaming (placed_meta address w now Streaming m))"
    and run: "resident_insert i d now w r2 = (q, r')"
  shows "q = Inr () \<and> matched M' r' \<and> re_cursor r' = now"
proof -
  note R = resident_invD [OF Mr(2)]
  have al: "alike (mg_arena Mr) (re_arena r2)" and sr: "same_residents Mr r2" and sh: "same_held Mr r2" using Mr(1) by (simp_all add: matched_def)
  from alike_place [OF al pl(1)] obtain b where b: "arena_place (m_size m) (re_arena r2) = (Inr (ar_base (re_arena r2) + start, start, m_size m), b)"
    "alike a b" "ar_base b = ar_base (re_arena r2)" by auto
  let ?s = "inserted_meta (ar_base (re_arena r2) + start) now w d" and ?m = "release_meta Streaming (placed_meta address w now Streaming m)"
  have r': "q = Inr ()" "r' = r2\<lparr>re_cursor := now, re_arena := b, re_index := (re_index r2)(i \<mapsto> length (re_held r2)),
      re_held := re_held r2 @ [(i, ?s)]\<rparr>"
    using run b(1) d(1) by (simp_all add: resident_insert_def)
  have fr: "ar_bytes a = ar_bytes (mg_arena Mr)" "ar_base a = ar_base (mg_arena Mr)"
    using arena_place_frame [of "m_size m" "mg_arena Mr"] pl(1) by simp_all
  have wr: "start + length room \<le> length (ar_bytes a)" using pl(3,4) fr(1) by simp
  have fig: "m_resident_at ?m = address" "same_figures ?m ?s"
    using d base pl(2) by (auto simp: release_meta_def placed_meta_def inserted_meta_def same_figures_def)
  have notin: "i \<notin> fst ` set (re_held r2)" using index_ok_None [OF R(2)] new by blast
  have held: "map_of (re_held r') = (map_of (re_held r2))(i \<mapsto> ?s)" unfolding r'(2) by (simp add: map_of_push [OF notin] del: map_of_append)
  have "alike (mg_arena M') (re_arena r')" using alike_write [OF wr] b(2) by (simp add: M'(1) r'(2))
  moreover have "same_residents M' r'"
    by (rule same_residents_put [OF sr M'(3) held])
      (use fig base pl(2) b(3) fr in \<open>auto simp: same_entry_def M'(1) r'(2) arena_write_def\<close>)
  moreover have "same_held M' r'"
    unfolding same_held_def
  proof (intro conjI allI)
    have l: "length (ct_held (mg_counters Mr)) = CLASSES" using sh by (simp add: same_held_def)
    have h: "ct_held (count_fault c (m_size m) x) = ct_held x" for x by (simp add: count_fault_def Let_def)
    show "length (ct_held (mg_counters M')) = CLASSES" using count_held_at(1) [OF l] by (simp add: M'(2) h)
    fix e
    have "held_of e r' = held_of e r2 + (if c = e then m_size m else 0)"
      using c d(1) by (simp add: held_of_bytes r'(2))
    moreover have "held_of e r' < 2 ^ 64"
    proof -
      have "arena_inv (re_arena r')" using Mr(3) by (simp add: resident_inv_def)
      then have "length (ar_bytes (re_arena r')) < 2 ^ 64" by (simp add: arena_inv_def)
      with held_of_within [OF Mr(3), of e] show ?thesis by linarith
    qed
    moreover have "ct_held (mg_counters Mr) ! class_index e = held_of e r2" for e using sh by (simp add: same_held_def)
    ultimately show "ct_held (mg_counters M') ! class_index e = held_of e r'"
      by (auto simp: M'(2) h count_held_at(2) [OF l] sat_add_signed_def intro!: sat_add_exact)
  qed
  ultimately show ?thesis by (simp add: matched_def r')
qed

end
