(* ===== verification/LabParity.thy ===== *)
theory LabParity
  imports LabMatch
begin

text \<open>
  crates/mlos-lab against crates/mlos-sim, continued: one access, the whole trace, and the two replays.
\<close>

section \<open>A miss\<close>

lemma matched_parts:
  "mg_table M' = mg_table M \<Longrightarrow> mg_arena M' = mg_arena M \<Longrightarrow> mg_counters M' = mg_counters M \<Longrightarrow>
     re_held r' = re_held r \<Longrightarrow> re_arena r' = re_arena r \<Longrightarrow> matched M' r' = matched M r"
proof -
  assume e: "mg_table M' = mg_table M" "mg_arena M' = mg_arena M" "mg_counters M' = mg_counters M"
    "re_held r' = re_held r" "re_arena r' = re_arena r"
  then have f: "same_entry M' r' = same_entry M r" by (simp add: same_entry_def fun_eq_iff)
  show "matched M' r' = matched M r"
    unfolding matched_def same_residents_def same_held_def held_of_bytes e f by (rule refl)
qed

lemma missing_parts:
  "mg_table (missing m fault ss M) = mg_table M" "mg_arena (missing m fault ss M) = mg_arena M"
  "mg_counters (missing m fault ss M) = mg_counters M" "mg_policy (missing m fault ss M) = mg_policy M"
  "mg_evictions (missing m fault ss M) = mg_evictions M" "mg_sessions (missing m fault ss M) = ss"
  "mg_clock (missing m fault ss M) = sat_add 32 (mg_clock M) 1" "mg_providers (missing m fault ss M) = mg_providers M"
  "mg_stream (missing m fault ss M) = mg_stream M" "mg_capacity (missing m fault ss M) = mg_capacity M"
  by (simp_all add: missing_def)

definition missed :: "nat \<Rightarrow> run \<Rightarrow> nat \<Rightarrow> manager \<Rightarrow> resident \<Rightarrow> outcome \<Rightarrow> object_id \<Rightarrow> object_meta \<Rightarrow> object_meta \<Rightarrow> object_class \<Rightarrow> bool" where
  "missed n ru k M r out i m d c \<longleftrightarrow>
     in_step n ru k M r out \<and> table_map (mg_table M) i = Some m \<and> m_resident_at m = 0 \<and> k + 1 < 2 ^ 32 \<and> model_ok (ru_model ru) \<and>
     next_after (mg_stream M) i = wanted_at (ru_seen ru) (k + 1) \<and> object_class_of i = Some c \<and> ru_model ru i = Some d \<and>
     m_size m = m_size d \<and> m_share_count d = 0 \<and> m_reload_cost m = m_reload_cost d \<and> m_recompute_cost m = m_recompute_cost d \<and>
     m_share_count m = 0"

lemma missedD:
  assumes "missed n ru k M r out i m d c"
  shows "in_step n ru k M r out" "table_map (mg_table M) i = Some m" "m_resident_at m = 0" "k + 1 < 2 ^ 32"
    "next_after (mg_stream M) i = wanted_at (ru_seen ru) (k + 1)" "object_class_of i = Some c" "ru_model ru i = Some d"
    "m_size m = m_size d" "m_share_count d = 0" "m_reload_cost m = m_reload_cost d" "m_recompute_cost m = m_recompute_cost d"
    "m_share_count m = 0" "m_size d \<le> umax 32" "mgr_inv M" "priced ru M"
    "sat_add 32 (mg_clock M) 1 = k + 1"
proof -
  have st: "in_step n ru k M r out" and k: "k + 1 < 2 ^ 32" using assms by (simp_all add: missed_def)
  show "m_size d \<le> umax 32" using assms by (auto simp: missed_def model_ok_def)
  show "mgr_inv M" "priced ru M" using st by (simp_all add: in_step_def)
  show "sat_add 32 (mg_clock M) 1 = k + 1" using st k by (simp add: in_step_def sat_add_exact)
qed (use assms in \<open>simp_all add: missed_def\<close>)

lemma missed_sim:
  assumes "missed n ru k M r out i m d c"
  shows "sim_step ru i (k + 1) r out = Some (r', out') \<Longrightarrow> resident_inv r' \<and> counted (k + 1) r' out' \<and> ou_sessions out' = ou_sessions out"
    and "ou_bytes out + m_size d < 2 ^ 64" "ou_reads out < 4294967296" "ou_refused out < 4294967296"
proof -
  have inv: "resident_inv r" and cn: "counted k r out" and k: "k + 1 < 2 ^ 32" and ok: "model_ok (ru_model ru)"
    using assms by (simp_all add: missed_def in_step_def)
  show "resident_inv r' \<and> counted (k + 1) r' out' \<and> ou_sessions out' = ou_sessions out"
    if "sim_step ru i (k + 1) r out = Some (r', out')"
    using sim_step_spec [OF inv cn _ ok, of i "k + 1"] k that by auto
  have "ou_bytes out \<le> k * umax 32" "ou_reads out \<le> k" "ou_refused out \<le> k" using cn by (simp_all add: counted_def)
  moreover have "k * umax 32 \<le> (2 ^ 32 - 2) * umax 32" using k by (intro mult_le_mono1) simp
  ultimately show "ou_bytes out + m_size d < 2 ^ 64" "ou_reads out < 4294967296" "ou_refused out < 4294967296"
    using missedD(13) [OF assms] k by simp_all
qed

text \<open>The state of both sides once room was made.\<close>

definition made_room :: "nat \<Rightarrow> run \<Rightarrow> nat \<Rightarrow> manager \<Rightarrow> resident \<Rightarrow> outcome \<Rightarrow> object_id \<Rightarrow> object_meta \<Rightarrow> object_meta \<Rightarrow> manager \<Rightarrow>
  resident \<Rightarrow> outcome \<Rightarrow> bool" where
  "made_room n ru k M r out i m d Mr r2 out2 \<longleftrightarrow>
     (\<exists>r1. resident_touch i (k + 1) (wanted_at (ru_seen ru) (k + 1)) r = (False, r1) \<and> sim_make_room ru d r1 out = Some (r2, out2)) \<and>
     matched Mr r2 \<and> resident_inv r2 \<and> re_index r2 i = None \<and> counted k r2 out2 \<and>
     out2 = out\<lparr>ou_evicted := ou_evicted out + (mg_evictions Mr - mg_evictions M)\<rparr> \<and> mg_evictions M \<le> mg_evictions Mr \<and>
     mgr_inv_pending (pending m) Mr \<and> table_map (mg_table Mr) i = Some m \<and> mg_clock Mr = k + 1 \<and> unlimited n (mg_sessions Mr) \<and>
     tallied (mg_counters Mr) out2 \<and> ct_faults (mg_counters Mr) = ct_faults (mg_counters M) \<and>
     priced ru Mr \<and> same_policy Mr ru \<and> dom (table_map (mg_table Mr)) = dom (table_map (mg_table M)) \<and>
     mg_stream Mr = mg_stream M \<and> mg_capacity Mr = mg_capacity M"

lemma made_room_sim: "made_room n ru k M r out i m d Mr r2 out2 \<Longrightarrow> ru_model ru i = Some d \<Longrightarrow> sim_step ru i (k + 1) r out =
    Some (case resident_insert i d (k + 1) (wanted_at (ru_seen ru) (k + 1)) r2 of
      (Inl _, r') \<Rightarrow> (r', out2\<lparr>ou_refused := add_u64 (ou_refused out2) 1\<rparr>) | (Inr _, r') \<Rightarrow> (r', read_counts i d out2))"
  by (auto simp: made_room_def sim_step_def sim_fetch_def split: prod.split sum.split)

lemma miss_room:
  assumes ms: "missed n ru k M r out i m d c"
    and ch: "charge (m_owner m) (m_size m) (m_precision m) (mg_sessions M) = (Inr (), ss)" "unlimited n ss"
    and Mr: "Mr = make_room m (missing m fault ss M)"
  obtains r2 out2 where "made_room n ru k M r out i m d Mr r2 out2"
proof -
  let ?Mm = "missing m fault ss M" and ?w = "wanted_at (ru_seen ru) (k + 1)"
  note D = missedD [OF ms]
  have inv: "resident_inv r" and mt: "matched M r" and cn: "counted k r out" and pol: "same_policy M ru" and ta: "tallied (mg_counters M) out"
    using D(1) by (simp_all add: in_step_def)
  have now: "mg_clock ?Mm = k + 1" using D(16) by (simp add: missing_parts)
  have none: "map_of (re_held r) i = None"
  proof (cases "map_of (re_held r) i")
    case (Some s)
    then show ?thesis using same_residentsD(1) [of M r i s] mt D(2,3) by (auto simp: matched_def same_entry_def)
  qed simp
  then have ix: "re_index r i = None" using index_ok_None [OF resident_invD(2) [OF inv]] by (simp add: map_of_eq_None_iff)
  let ?r1 = "r\<lparr>re_cursor := k + 1\<rparr>"
  have touch: "resident_touch i (k + 1) ?w r = (False, ?r1)" using ix by (simp add: resident_touch_def)
  have "matched ?Mm ?r1" using mt by (subst matched_parts [of ?Mm M ?r1 r]) (simp_all add: missing_parts)
  moreover have "counted k ?r1 out" using cn by (simp add: counted_def)
  moreover have "same_policy ?Mm ru" using pol by (simp add: same_policy_def missing_parts)
  ultimately obtain r2 out2 where mr: "sim_make_room ru d ?r1 out = Some (r2, out2)" "roomed k ?Mm ?r1 out Mr r2 out2"
    using make_room_match [OF missing_pending [OF D(14) ch(1), of fault], of ?r1 k out ru d m] inv D(4,8) now Mr by auto
  note R = make_room_inv [OF missing_pending [OF D(14) ch(1), of fault], of m, folded Mr]
  have un: "untouched ?Mm Mr" unfolding Mr by (rule make_room_untouched)
  have "priced ru ?Mm" using D(15) by (simp add: priced_def readable_def provider_for_def missing_parts)
  from priced_thinned [OF this R(2)] have pr: "priced ru Mr" .
  have dom: "dom (table_map (mg_table Mr)) = dom (table_map (mg_table M))"
    using R(2) by (auto simp: thinned_def missing_parts) (metis option.distinct(1))+
  have "table_map (mg_table Mr) i = Some m" using thinned_absent [OF R(2), of i m] D(2,3) by (simp add: missing_parts)
  moreover have "mg_clock Mr = k + 1" "same_policy Mr ru" "mg_stream Mr = mg_stream M" "mg_capacity Mr = mg_capacity M"
    using R(2) now pol by (simp_all add: thinned_def missing_parts same_policy_def)
  moreover have "unlimited n (mg_sessions Mr)" using un ch(2) by (simp add: untouched_def missing_parts)
  moreover have "tallied (mg_counters Mr) out2" "ct_faults (mg_counters Mr) = ct_faults (mg_counters M)"
    using ta un mr(2) by (simp_all add: tallied_def untouched_def missing_parts roomed_def)
  moreover have Q: "resident_inv r2 \<and> matched Mr r2 \<and> counted k r2 out2 \<and> re_cursor r2 = re_cursor ?r1 \<and>
      mg_evictions M \<le> mg_evictions Mr \<and> out2 = out\<lparr>ou_evicted := ou_evicted out + (mg_evictions Mr - mg_evictions M)\<rparr> \<and>
      (\<forall>j. re_index ?r1 j = None \<longrightarrow> re_index r2 j = None)"
    using mr(2) unfolding roomed_def missing_parts .
  moreover have "re_index r2 i = None" using Q ix by simp
  ultimately have "made_room n ru k M r out i m d Mr r2 out2"
    unfolding made_room_def using touch mr(1) R(1) pr dom by blast
  then show ?thesis by (rule that)
qed

lemma made_roomD:
  assumes "made_room n ru k M r out i m d Mr r2 out2"
  shows "matched Mr r2" "resident_inv r2" "re_index r2 i = None" "counted k r2 out2"
    "out2 = out\<lparr>ou_evicted := ou_evicted out + (mg_evictions Mr - mg_evictions M)\<rparr>" "mg_evictions M \<le> mg_evictions Mr"
    "mgr_inv_pending (pending m) Mr" "table_map (mg_table Mr) i = Some m" "mg_clock Mr = k + 1" "unlimited n (mg_sessions Mr)"
    "tallied (mg_counters Mr) out2" "ct_faults (mg_counters Mr) = ct_faults (mg_counters M)" "priced ru Mr" "same_policy Mr ru"
    "dom (table_map (mg_table Mr)) = dom (table_map (mg_table M))" "mg_stream Mr = mg_stream M" "mg_capacity Mr = mg_capacity M"
  using assms unfolding made_room_def by blast+

lemma miss_refused:
  assumes ms: "missed n ru k M r out i m d c" and X: "made_room n ru k M r out i m d Mr r2 out2" and ag: "agrees rd out"
    and none: "\<forall>h \<in> set (ar_free (mg_arena Mr)). h_len h < aligned (m_size m)"
    and run: "consume i who M = (Inl NoBudget, Mr\<lparr>mg_sessions := credit (m_owner m) (m_size m) (mg_sessions Mr), mg_events := ev\<rparr>)"
  shows "consumed n ru k i who M r out rd"
proof -
  note D = missedD [OF ms] and S = missed_sim [OF ms] and X' = made_roomD [OF X]
  let ?M' = "Mr\<lparr>mg_sessions := credit (m_owner m) (m_size m) (mg_sessions Mr), mg_events := ev\<rparr>"
  have inv: "arena_inv (mg_arena Mr)" by (rule mgr_invD(2) [OF X'(7)])
  have "fst (arena_place (m_size m) (mg_arena Mr)) = Inl NoBudget" using arena_place_refused [OF inv] none by blast
  then have pm: "arena_place (m_size m) (mg_arena Mr) = (Inl NoBudget, mg_arena Mr)"
    using arena_place_refused_same [OF inv, of "m_size m" NoBudget] by (metis prod.collapse)
  obtain b where b: "arena_place (m_size d) (re_arena r2) = (Inl NoBudget, b)"
    using alike_place [OF _ pm, of "re_arena r2"] X'(1) D(8) by (auto simp: matched_def)
  then have same: "b = re_arena r2" using arena_place_refused_same [OF resident_invD(1) [OF X'(2)]] by blast
  let ?r' = "r2\<lparr>re_cursor := k + 1, re_arena := b\<rparr>" and ?out = "out2\<lparr>ou_refused := add_u64 (ou_refused out2) 1\<rparr>"
  have sim: "sim_step ru i (k + 1) r out = Some (?r', ?out)"
    unfolding made_room_sim [OF X D(7)] using b by (simp add: resident_insert_def)
  have "matched ?M' ?r'" using X'(1) same by (subst matched_parts [of ?M' Mr ?r' r2]) simp_all
  moreover have "priced ru ?M'" using X'(13) by (simp add: priced_def readable_def provider_for_def)
  ultimately have "in_step n ru (k + 1) ?M' ?r' ?out"
    using S(1) [OF sim] consume_inv [OF D(14) run] X'(9,11,14) unlimited_credit [OF X'(10)]
    by (simp add: in_step_def same_policy_def tallied_def)
  moreover have "agrees (lab_count (Inl NoBudget) M ?M' rd) ?out"
    using ag X'(5,6) S(4) by (simp add: lab_count_def agrees_def add_u64_one)
  ultimately show ?thesis
    unfolding consumed_def using run sim X'(15-17) S(1) [OF sim]
    by (intro exI [of _ "Inl NoBudget"] exI [of _ ?M'] exI [of _ ?r'] exI [of _ ?out]) simp
qed

lemma miss_served:
  assumes ms: "missed n ru k M r out i m d c" and X: "made_room n ru k M r out i m d Mr r2 out2" and ag: "agrees rd out"
    and pl: "arena_place (m_size m) (mg_arena Mr) = (Inr (address, start, m_size m), a)" "length room = m_size m" "hd_size h = m_size m"
    and t: "table_map t = (table_map (mg_table Mr))(i \<mapsto> release_meta Streaming
         (placed_meta address (wanted_at (ru_seen ru) (k + 1)) (k + 1) Streaming m))"
    and M': "M' = Mr\<lparr>mg_arena := arena_write start room a,
         mg_counters := count_fault c (m_size m) (count_held c (int (m_size m)) (mg_counters Mr)), mg_table := t, mg_events := ev\<rparr>"
    and run: "consume i who M = (Inr h, M')"
  shows "consumed n ru k i who M r out rd"
proof -
  note D = missedD [OF ms] and S = missed_sim [OF ms] and X' = made_roomD [OF X] and J = mgr_invD [OF made_roomD(7) [OF X]]
  let ?pm = "release_meta Streaming (placed_meta address (wanted_at (ru_seen ru) (k + 1)) (k + 1) Streaming m)"
  have pos: "0 < m_size m" using J(5) [OF X'(8)] by (simp add: entry_ok_def)
  note P = arena_place_sound [OF J(2) pos pl(1)]
  have sl: "start + m_size m \<le> length (ar_bytes (mg_arena Mr))" using P(5) aligned_facts(2) [of "m_size m"] by simp
  have f: "mg_table M' = t" "mg_arena M' = arena_write start room a" "mg_counters M' = count_fault c (m_size m) (count_held c (int (m_size m)) (mg_counters Mr))"
    "mg_evictions M' = mg_evictions Mr" "mg_clock M' = mg_clock Mr" "mg_policy M' = mg_policy Mr" "mg_sessions M' = mg_sessions Mr"
    "mg_stream M' = mg_stream Mr" "mg_capacity M' = mg_capacity Mr" "mg_providers M' = mg_providers Mr"
    by (simp_all add: M')
  obtain q r' where ins: "resident_insert i d (k + 1) (wanted_at (ru_seen ru) (k + 1)) r2 = (q, r')" by fastforce
  then have "resident_inv r'" using S(1) made_room_sim [OF X D(7)] by (cases q) auto
  from miss_placed [OF X'(1,2) this D(8-12) X'(3) J(4) D(6) pl(1) P(2) [symmetric] pl(2) sl f(2,3) t [folded f(1)] ins]
  have A: "q = Inr ()" "matched M' r'" by auto
  then have sim: "sim_step ru i (k + 1) r out = Some (r', read_counts i d out2)" unfolding made_room_sim [OF X D(7)] using ins by simp
  have size: "m_size m \<le> umax 32" using D(8,13) by simp
  note T = tallied_miss [OF X'(11,4) D(4) size D(6), of "int (m_size m)"]
  have "read_counts i m out2 = read_counts i d out2" using D(8,10) by (simp add: read_counts_def Let_def)
  with T(1) have ta: "tallied (mg_counters M') (read_counts i d out2)" by (simp add: f)
  have r: "sum_list (ct_faults (mg_counters M)) = ou_reads out" "ou_reads out \<le> k"
    using D(1) by (simp_all add: in_step_def tallied_def counted_def)
  moreover have "sum_list (ct_faults (mg_counters M')) = ou_reads out + 1" using T(2) X'(12) r(1) by (simp add: f)
  ultimately have fs: "faults_of M < faults_of M'" using D(4) by (subst (1 2) faults_sum) simp_all
  have "same_price m ?pm" "m_share_count ?pm = 0" using P(2) J(4) by (simp_all add: same_price_def release_meta_def placed_meta_def)
  then have "priced ru M'"
    by (intro priced_same [OF X'(13) f(10)]) (use X'(8) in \<open>auto simp: f(1) t split: if_splits\<close>)
  then have "in_step n ru (k + 1) M' r' (read_counts i d out2)"
    using S(1) [OF sim] consume_inv [OF D(14) run] A(2) X'(9,10,14) ta by (simp add: in_step_def same_policy_def f)
  moreover have "agrees (lab_count (Inr h) M M' rd) (read_counts i d out2)"
    using ag X'(5,6) S(2,3) fs pl(3) D(8) by (simp add: lab_count_def agrees_def read_counts_def Let_def add_u64_exact f)
  moreover have "dom (table_map (mg_table M')) = dom (table_map (mg_table M))" using X'(8,15) by (auto simp: f t)
  ultimately show ?thesis
    unfolding consumed_def using run sim X'(16,17) S(1) [OF sim] f(8,9) by metis
qed

lemma miss_step:
  assumes st: "in_step n ru k M r out" and m: "table_map (mg_table M) i = Some m" "m_resident_at m = 0" and k: "k + 1 < 2 ^ 32"
    and ok: "model_ok (ru_model ru)"
    and wanted: "next_after (mg_stream M) i = wanted_at (ru_seen ru) (k + 1)" and ag: "agrees rd out"
  shows "consumed n ru k i who M r out rd"
proof -
  have inv: "mgr_inv M" and pr: "priced ru M" and free: "unlimited n (mg_sessions M)" using st by (simp_all add: in_step_def)
  obtain d c where ms: "missed n ru k M r out i m d c" and rdb: "readable M i m"
    using pr st m k ok wanted unfolding priced_def missed_def by (metis not_None_eq)
  note D = missedD [OF ms]
  from inv m D(6) rdb free show ?thesis
  proof (cases rule: consume_miss [where who = who])
    case (refused fault ss ev Mr)
    from miss_room [OF ms refused(1-3)] obtain r2 out2 where "made_room n ru k M r out i m d Mr r2 out2" by blast
    from miss_refused [OF ms this ag refused(4,5)] show ?thesis .
  next
    case (placed fault ss ev Mr h address start a room t)
    from miss_room [OF ms placed(1-3)] obtain r2 out2 where "made_room n ru k M r out i m d Mr r2 out2" by blast
    from miss_served [OF ms this ag placed(4-6) _ refl placed(9)] placed(8) wanted D(16) show ?thesis by simp
  qed
qed

section \<open>Room in the table\<close>

lemma table_insert_room:
  assumes inv: "table_inv s" and tidy: "Removed \<notin> set s" and card: "card (insert i (dom (table_map s))) \<le> length s"
  shows "fst (table_insert i m s)"
proof (rule ccontr)
  assume no: "\<not> fst (table_insert i m s)"
  obtain s' where run: "table_insert i m s = (False, s')" using no by (cases "table_insert i m s") auto
  from inv run have full: "\<forall>p < length s. s ! p \<noteq> Vacant \<and> (\<forall>m'. s ! p \<noteq> Live i m')"
  proof (cases rule: table_insert_cases)
    case (written q)
    from written(1) show ?thesis ..
  next
    case full
    from full(3) show ?thesis .
  qed
  define f where "f p = (case s ! p of Live j _ \<Rightarrow> j | _ \<Rightarrow> 0)" for p
  have live: "\<exists>m. s ! p = Live (f p) m" if "p < length s" for p
    using full tidy nth_mem [OF that] that by (cases "s ! p") (auto simp: f_def)
  have "inj_on f {..<length s}"
    using live inv unfolding table_inv_def inj_on_def by (metis lessThan_iff)
  moreover have "f ` {..<length s} \<subseteq> dom (table_map s)"
    using live table_map_Some [OF inv] by blast
  ultimately have "length s \<le> card (dom (table_map s))"
    using card_inj_on_le [of f "{..<length s}" "dom (table_map s)"] table_map_finite by simp
  moreover have "i \<notin> dom (table_map s)" using full table_map_Some [OF inv, of i] by (metis domIff not_None_eq)
  ultimately show False using card by (simp add: table_map_finite)
qed

definition tidy :: "manager \<Rightarrow> bool" where "tidy M \<longleftrightarrow> Removed \<notin> set (mg_table M)"

lemma tidy_put: "Removed \<notin> set s \<Longrightarrow> Removed \<notin> set (s[p := Live i m])"
  by (auto dest: set_update_subset_insert [THEN subsetD])

lemma get_mut_tidy: "table_get_mut i f s = Some s' \<Longrightarrow> Removed \<notin> set s \<Longrightarrow> Removed \<notin> set s'"
  by (auto simp: table_get_mut_def tidy_put split: option.splits)

lemma insert_tidy:
  assumes "table_inv s" "Removed \<notin> set s" "table_insert i m s = (True, s')"
  shows "Removed \<notin> set s'"
  using assms(1,3)
proof (cases rule: table_insert_cases)
  case (written q)
  show ?thesis unfolding written(2) by (rule tidy_put [OF assms(2)])
next
  case full
  from full(1) show ?thesis by simp
qed

lemma evict_tidy: "tidy M \<Longrightarrow> evict v M = (q, M') \<Longrightarrow> tidy M'"
  by (auto simp: tidy_def evict_def Let_def dest: get_mut_tidy split: option.splits if_splits prod.splits sum.splits)

lemma make_room_tidy: "tidy M \<Longrightarrow> tidy (make_room w M)"
  by (rule make_room_keeps [of tidy, OF evict_tidy])

lemma mgr_place_tidy: "tidy M \<Longrightarrow> tidy (snd (mgr_place i loc p l w M))"
  by (auto simp: tidy_def mgr_place_def Let_def dest: get_mut_tidy split: option.splits prod.splits sum.splits)

lemma mgr_admit_tidy: "tidy M \<Longrightarrow> tidy (snd (mgr_admit i loc p l w M))"
proof -
  assume t: "tidy M"
  have "tidy (M\<lparr>mg_sessions := ss\<rparr>)" for ss using t by (simp add: tidy_def)
  note mgr_place_tidy [OF make_room_tidy [OF this]]
  then have "tidy M'" if "mgr_place i loc p l w (make_room m (M\<lparr>mg_sessions := ss\<rparr>)) = (r, M')" for m ss r M'
    using that by (metis snd_conv)
  then show ?thesis using t by (auto simp: mgr_admit_def tidy_def split: option.splits prod.splits sum.splits)
qed

lemma consume_tidy: "tidy M \<Longrightarrow> consume i who M = (q, M') \<Longrightarrow> tidy M'"
proof -
  assume t: "tidy M" and run: "consume i who M = (q, M')"
  have "tidy (snd (mgr_admit i loc p l w (M\<lparr>mg_clock := n, mg_last_fault := f\<rparr>)))" for loc p l w n f
    by (rule mgr_admit_tidy) (use t in \<open>simp add: tidy_def\<close>)
  then have ad: "tidy M1" if "mgr_admit i loc p l w (M\<lparr>mg_clock := n, mg_last_fault := f\<rparr>) = (r, M1)" for loc p l w n f r M1
    using that by (metis snd_conv)
  have sv: "tidy (snd (service i l who w (M\<lparr>mg_clock := n\<rparr>)))" for l w n
    using t by (auto simp: service_def Let_def tidy_def dest: ad [unfolded tidy_def] split: option.splits prod.splits sum.splits)
  have ac: "tidy (snd (acquire i l who M))" for l
    using t sv by (auto simp: acquire_def Let_def tidy_def dest: get_mut_tidy split: option.splits)
  show "tidy M'"
    using run ac [of Streaming]
    by (auto simp: consume_def release_def tidy_def dest: get_mut_tidy split: prod.splits sum.splits option.splits)
qed

section \<open>An object the table has not heard of\<close>

definition tiered :: "manager \<Rightarrow> bool" where
  "tiered M \<longleftrightarrow> nth_opt (mg_providers M) 2 = Some (Some (tier_provider BACKING)) \<and>
     nth_opt (mg_providers M) 3 = Some (Some (tier_provider RECOMPUTE))"

definition roomy :: "object_id set \<Rightarrow> manager \<Rightarrow> bool" where
  "roomy ids M \<longleftrightarrow> tidy M \<and> tiered M \<and> finite ids \<and> card (dom (table_map (mg_table M)) \<union> ids) \<le> length (mg_table M)"

lemma consume_roomy:
  assumes "roomy ids M" "mgr_inv M" "consume i who M = (res, M')" "dom (table_map (mg_table M')) = dom (table_map (mg_table M))"
  shows "roomy ids M'"
proof -
  obtain r M1 where a: "acquire i Streaming who M = (r, M1)" by fastforce
  have "mg_providers M1 = mg_providers M" "length (mg_table M1) = length (mg_table M)" using acquire_spec [OF assms(2) a] by blast+
  moreover have "mg_providers (snd (release i Streaming M1)) = mg_providers M1"
    "length (mg_table (snd (release i Streaming M1))) = length (mg_table M1)"
    by (auto simp: release_def dest: table_get_mut_length split: option.splits)
  moreover have "M' = M1 \<or> M' = snd (release i Streaming M1)"
    using assms(3) a by (auto simp: consume_def split: sum.splits prod.splits)
  ultimately have "mg_providers M' = mg_providers M" "length (mg_table M') = length (mg_table M)" by auto
  then show ?thesis using assms(1,4) consume_tidy [OF _ assms(3)] by (simp add: roomy_def tiered_def)
qed

lemma known_meta_decode: "decode_meta i = Some d \<Longrightarrow> known_meta i = d \<and> object_class_of i \<noteq> None"
  by (auto simp: decode_meta_def known_meta_def split: option.splits object_class.splits)

lemma known_meta_facts:
  assumes "decode_meta i = Some d" "tiered M"
  shows "m_resident_at d = 0" "m_share_count d = 0" "0 < m_size d" "m_size d + ALIGN \<le> 2 ^ 32" "readable M i d"
proof -
  have "d = weights \<or> d = activations \<or> (\<exists>s. d = kv_meta s)"
    using assms(1) by (auto simp: decode_meta_def split: option.splits object_class.splits)
  then have d: "m_resident_at d = 0 \<and> m_share_count d = 0 \<and> 0 < m_size d \<and> m_size d + ALIGN \<le> 2 ^ 32 \<and>
      (m_provider d = 2 \<or> m_provider d = 3)"
    by (auto simp: weights_def activations_def kv_meta_def TILE_BYTES_def ACTIVATION_BYTES_def KV_BYTES_def ALIGN_def)
  then show "m_resident_at d = 0" "m_share_count d = 0" "0 < m_size d" "m_size d + ALIGN \<le> 2 ^ 32" by blast+
  have "\<exists>t. provider_for d M = Inr (tier_provider t)"
  proof -
    from d consider "m_provider d = 2" | "m_provider d = 3" by blast
    then show ?thesis
    proof cases
      case 1
      with assms(2) show ?thesis
        unfolding tiered_def provider_for_def by (intro exI [of _ BACKING]) (simp only: option.case)
    next
      case 2
      with assms(2) show ?thesis
        unfolding tiered_def provider_for_def by (intro exI [of _ RECOMPUTE]) (simp only: option.case)
    qed
  qed
  then show "readable M i d" by (auto simp: readable_def tier_provider_def tier_read_def Let_def)
qed

lemma same_residents_new:
  assumes "same_residents M r" "table_map (mg_table M) i = None" "table_map (mg_table M') = (table_map (mg_table M))(i \<mapsto> d)"
    and "m_resident_at d = 0" "mg_arena M' = mg_arena M"
  shows "same_residents M' r"
  unfolding same_residents_def
proof
  fix j
  have e: "same_entry M' r m s = same_entry M r m s" for m s by (simp add: same_entry_def assms(5))
  show "case map_of (re_held r) j of None \<Rightarrow> (\<forall>m. table_map (mg_table M') j = Some m \<longrightarrow> m_resident_at m = 0)
      | Some s \<Rightarrow> \<exists>m. table_map (mg_table M') j = Some m \<and> same_entry M' r m s"
  proof (cases "map_of (re_held r) j")
    case None
    then show ?thesis using same_residentsD(2) [OF assms(1) None] assms(3,4) by simp
  next
    case (Some s)
    then have "j \<noteq> i" using same_residentsD(1) [OF assms(1) Some] assms(2) by auto
    then show ?thesis using same_residentsD(1) [OF assms(1) Some] Some assms(3) by (simp add: e)
  qed
qed

text \<open>An entry of the model may be registered: not resident, read by a provider, priced as the model says.\<close>

definition fresh_entry :: "run \<Rightarrow> manager \<Rightarrow> object_id \<Rightarrow> object_meta \<Rightarrow> bool" where
  "fresh_entry ru M i m \<longleftrightarrow>
     object_class_of i \<noteq> None \<and> readable M i m \<and> m_share_count m = 0 \<and> m_resident_at m = 0 \<and> 0 < m_size m \<and>
     m_size m + ALIGN \<le> 2 ^ 32 \<and>
     (\<exists>d. ru_model ru i = Some d \<and> m_size m = m_size d \<and> m_reload_cost m = m_reload_cost d \<and>
        m_recompute_cost m = m_recompute_cost d \<and> m_share_count d = 0)"

lemma register_priced:
  assumes st: "in_step n ru k M r out" and new: "table_map (mg_table M) i = None"
    and F: "fresh_entry ru M i d" and room: "roomy ids M" "i \<in> ids"
  shows "\<exists>M1. register i d M = (Inr (), M1) \<and> in_step n ru k M1 r out \<and> roomy ids M1 \<and>
    table_map (mg_table M1) = (table_map (mg_table M))(i \<mapsto> d) \<and> mg_stream M1 = mg_stream M \<and>
    mg_capacity M1 = mg_capacity M \<and> mg_evictions M1 = mg_evictions M \<and> mg_providers M1 = mg_providers M \<and>
    mg_sessions M1 = mg_sessions M \<and> mg_counters M1 = count_registered (m_size d) (mg_counters M)"
proof -
  have inv: "mgr_inv M" and mt: "matched M r" and pr: "priced ru M" using st by (simp_all add: in_step_def)
  note I = mgr_invD [OF inv [unfolded mgr_inv_def]]
  have z: "m_resident_at d = 0" using F by (simp add: fresh_entry_def)
  have "card (insert i (dom (table_map (mg_table M)))) \<le> card (dom (table_map (mg_table M)) \<union> ids)"
    using room by (intro card_mono) (auto simp: roomy_def table_map_finite)
  then have "fst (table_insert i d (mg_table M))"
    using room(1) by (intro table_insert_room [OF I(1)]) (auto simp: roomy_def tidy_def)
  then obtain t where t: "table_insert i d (mg_table M) = (True, t)" by (cases "table_insert i d (mg_table M)") auto
  note T = table_insert_true [OF I(1) t]
  let ?M = "M\<lparr>mg_table := t, mg_counters := count_registered (m_size d) (mg_counters M)\<rparr>"
  have run: "register i d M = (Inr (), ?M)" using t by (simp add: register_def)
  have "registrable i d M" using F new by (simp add: registrable_def blocks_None_resident fresh_entry_def)
  from register_inv [OF inv this run] have "mgr_inv ?M" .
  moreover have "matched ?M r"
  proof -
    have "same_residents M r" using mt by (simp add: matched_def)
    then have "same_residents ?M r" by (rule same_residents_new) (use T z new in simp_all)
    then show ?thesis using mt by (simp add: matched_def same_held_def count_registered_def)
  qed
  moreover have "priced ru ?M"
    using pr T F by (auto simp: priced_def readable_def provider_for_def fresh_entry_def)
  moreover have "tallied (mg_counters ?M) out" using st by (simp add: in_step_def tallied_def count_registered_def)
  ultimately have "in_step n ru k ?M r out" using st by (simp add: in_step_def same_policy_def)
  moreover have "roomy ids ?M"
  proof -
    have "length t = length (mg_table M)" using table_insert_length [of i d "mg_table M"] t by simp
    moreover have "dom (table_map t) \<union> ids = dom (table_map (mg_table M)) \<union> ids" using T room(2) by auto
    ultimately show ?thesis using room(1) insert_tidy [OF I(1) _ t] by (simp add: roomy_def tidy_def tiered_def)
  qed
  ultimately show ?thesis using run T by (intro exI [of _ ?M]) simp
qed

lemma register_step:
  assumes st: "in_step n ru k M r out" and new: "table_map (mg_table M) i = None" and ru: "ru_model ru = decode_meta"
    and d: "decode_meta i = Some d" and room: "roomy ids M" "i \<in> ids"
  shows "\<exists>M1. register i d M = (Inr (), M1) \<and> in_step n ru k M1 r out \<and> roomy ids M1 \<and>
    table_map (mg_table M1) = (table_map (mg_table M))(i \<mapsto> d) \<and> mg_stream M1 = mg_stream M \<and>
    mg_capacity M1 = mg_capacity M \<and> mg_evictions M1 = mg_evictions M"
proof -
  have tr: "tiered M" using room(1) by (simp add: roomy_def)
  have "fresh_entry ru M i d"
    using known_meta_facts [OF d tr] known_meta_decode [OF d] d ru by (simp add: fresh_entry_def)
  from register_priced [OF st new this room] show ?thesis by blast
qed

end
