(* ===== verification/LabReplay.thy ===== *)
theory LabReplay
  imports LabParity
begin

text \<open>
  crates/mlos-lab against crates/mlos-sim, concluded: the whole trace, from a registered model to the
  figures reported.
\<close>

section \<open>One access of the trace\<close>

lemma access_parity:
  assumes st: "in_step n ru k M r out" and room: "roomy ids M" "i \<in> ids" and ru: "ru_model ru = decode_meta"
    and d: "decode_meta i \<noteq> None" and k: "k + 1 < 2 ^ 32"
    and wanted: "next_after (mg_stream M) i = wanted_at (ru_seen ru) (k + 1)" and ag: "agrees rd out"
  shows "\<exists>rd' M' r' out'. lab_step i who rd (Some M) = (rd', Some M') \<and> sim_step ru i (k + 1) r out = Some (r', out') \<and>
    in_step n ru (k + 1) M' r' out' \<and> agrees rd' out' \<and> roomy ids M' \<and> mg_stream M' = mg_stream M \<and>
    mg_capacity M' = mg_capacity M \<and> ou_sessions out' = ou_sessions out"
proof -
  obtain m0 where m0: "decode_meta i = Some m0" using d by blast
  have inv: "mgr_inv M" using st by (simp add: in_step_def)
  note I = mgr_invD [OF inv [unfolded mgr_inv_def]]
  have ok: "model_ok (ru_model ru)" by (simp add: ru decode_meta_ok)
  obtain M1 m where K: "known i M = (True, M1)" "in_step n ru k M1 r out" "roomy ids M1" "mg_stream M1 = mg_stream M"
    "mg_capacity M1 = mg_capacity M" "table_map (mg_table M1) i = Some m"
  proof (cases "table_map (mg_table M) i")
    case None
    from register_step [OF st None ru m0 room] obtain M1 where
      "register i m0 M = (Inr (), M1)" "in_step n ru k M1 r out" "roomy ids M1"
      "table_map (mg_table M1) = (table_map (mg_table M))(i \<mapsto> m0)" "mg_stream M1 = mg_stream M" "mg_capacity M1 = mg_capacity M"
      by blast
    then show ?thesis using None known_meta_decode [OF m0]
      by (intro that [of M1 m0]) (simp_all add: known_def table_get_map [OF I(1)])
  next
    case (Some m)
    then show ?thesis using st room(1) by (intro that [of M m]) (simp_all add: known_def table_get_map [OF I(1)])
  qed
  have w1: "next_after (mg_stream M1) i = wanted_at (ru_seen ru) (k + 1)" using wanted K(4) by simp
  have "consumed n ru k i who M1 r out rd"
  proof (cases "m_resident_at m = 0")
    case True
    from miss_step [OF K(2,6) True k ok w1 ag] show ?thesis .
  next
    case False
    from hit_step [OF K(2,6) False k ok w1 ag] show ?thesis .
  qed
  then obtain res M' r' out' where C: "consume i who M1 = (res, M')" "sim_step ru i (k + 1) r out = Some (r', out')"
    "in_step n ru (k + 1) M' r' out'" "agrees (lab_count res M1 M' rd) out'"
    "dom (table_map (mg_table M')) = dom (table_map (mg_table M1))" "mg_stream M' = mg_stream M1"
    "mg_capacity M' = mg_capacity M1" "ou_sessions out' = ou_sessions out"
    unfolding consumed_def by blast
  have "mgr_inv M1" using K(2) by (simp add: in_step_def)
  from consume_roomy [OF K(3) this C(1,5)] have "roomy ids M'" .
  then show ?thesis using lab_step_count [OF K(1) C(1), of rd] C K by auto
qed

section \<open>The whole trace\<close>

lemma wanted_same:
  assumes st: "st_declared st = objects" "chained objects (st_next st)" "st_cursor st = k"
    and seen: "chained objects seen" "length seen = length objects" and k: "k < length objects" "length objects < 2 ^ 32 - 1"
  shows "next_after st (objects ! k) = wanted_at seen (k + 1)"
proof -
  have same: "st_next st ! k = seen ! k" using st(2) seen(1) k(1) by (simp add: chained_def)
  have "seen ! k = NEVER \<or> seen ! k < length objects"
    using seen(1) k(1) next_position_bounds by (auto simp: chained_def split: option.splits)
  then have "wrap 32 (seen ! k + 1) = seen ! k + 1" if "seen ! k \<noteq> NEVER"
    using that k(2) by (intro wrap_exact) simp
  then show ?thesis
    using st k(1) seen(2) same
    by (simp add: next_after_def wanted_at_def foresight_after_def checked_sub_def nth_opt_def Let_def)
qed

lemma in_step_stream: "in_step n ru k (M\<lparr>mg_stream := st\<rparr>) r out = in_step n ru k M r out"
proof -
  have "matched (M\<lparr>mg_stream := st\<rparr>) r = matched M r" by (rule matched_parts) simp_all
  moreover have "priced ru (M\<lparr>mg_stream := st\<rparr>) = priced ru M" by (simp add: priced_def readable_def provider_for_def)
  ultimately show ?thesis by (simp add: in_step_def mgr_inv_def same_policy_def)
qed

lemma roomy_stream: "roomy ids (M\<lparr>mg_stream := st\<rparr>) = roomy ids M"
  by (simp add: roomy_def tidy_def tiered_def)

lemma trace_parity:
  assumes "in_step n ru k M r out" "roomy (set objects) M" "ru_model ru = decode_meta" "agrees rd out"
    and "st_declared (mg_stream M) = objects" "chained objects (st_next (mg_stream M))" "st_cursor (mg_stream M) = k"
    and "chained objects (ru_seen ru)" "length (ru_seen ru) = length objects" "length objects < 2 ^ 32 - 1"
    and "objects = earlier @ map ac_object as" "length earlier = k"
    and "\<forall>i \<in> set objects. decode_meta i \<noteq> None"
  shows "\<exists>rd' M' r' out'. lab_steps (map (\<lambda>a. (ac_object a, ac_session a)) as) rd (Some M) = (rd', Some M') \<and>
    replay_loop ru k as r out = Some (r', out') \<and> in_step n ru (k + length as) M' r' out' \<and> agrees rd' out' \<and>
    mg_capacity M' = mg_capacity M \<and> ou_sessions out' = ou_sessions out"
  using assms(1,2,4-7,11,12)
proof (induction as arbitrary: k M r out rd earlier)
  case (Cons a as)
  let ?i = "ac_object a"
  have at: "objects ! k = ?i" "k < length objects" "?i \<in> set objects" using Cons.prems(7,8) by (simp_all add: nth_append)
  have k: "k + 1 < 2 ^ 32" using at(2) assms(10) by simp
  have w: "next_after (mg_stream M) ?i = wanted_at (ru_seen ru) (k + 1)"
    using wanted_same [OF Cons.prems(4-6) assms(8,9) at(2) assms(10)] at(1) by simp
  have known: "decode_meta ?i \<noteq> None" using assms(13) at(3) by blast
  from access_parity [OF Cons.prems(1,2) at(3) assms(3) known k w Cons.prems(3), of "ac_session a"]
  obtain rd1 M1 r1 out1 where S: "lab_step ?i (ac_session a) rd (Some M) = (rd1, Some M1)"
    "sim_step ru ?i (k + 1) r out = Some (r1, out1)" "in_step n ru (k + 1) M1 r1 out1" "agrees rd1 out1"
    "roomy (set objects) M1" "mg_stream M1 = mg_stream M" "mg_capacity M1 = mg_capacity M" "ou_sessions out1 = ou_sessions out"
    by blast
  let ?M1 = "M1\<lparr>mg_stream := stream_advance 1 (mg_stream M1)\<rparr>"
  have adv: "st_declared (mg_stream ?M1) = objects" "chained objects (st_next (mg_stream ?M1))" "st_cursor (mg_stream ?M1) = k + 1"
    using Cons.prems(4-6) S(6) k by (simp_all add: stream_advance_def sat_add_exact)
  have "in_step n ru (k + 1) ?M1 r1 out1" "roomy (set objects) ?M1" using S(3,5) by (simp_all only: in_step_stream roomy_stream)
  from Cons.IH [OF this S(4) adv, of "earlier @ [?i]"] Cons.prems(7,8) obtain rd' M' r' out' where R:
    "lab_steps (map (\<lambda>a. (ac_object a, ac_session a)) as) rd1 (Some ?M1) = (rd', Some M')"
    "replay_loop ru (k + 1) as r1 out1 = Some (r', out')" "in_step n ru (k + 1 + length as) M' r' out'" "agrees rd' out'"
    "mg_capacity M' = mg_capacity ?M1" "ou_sessions out' = ou_sessions out1" by auto
  have "wrap 32 (wrap 32 k + 1) = k + 1" using k by (simp add: wrap_exact)
  then have "replay_loop ru k (a # as) r out = Some (r', out')" using S(2) R(2) by simp
  moreover have "lab_steps (map (\<lambda>a. (ac_object a, ac_session a)) (a # as)) rd (Some M) = (rd', Some M')"
    using S(1) R(1) by simp
  ultimately show ?case using R(3-6) S(7,8) by simp
qed simp

section \<open>The headline\<close>

lemma admits_unlimited: "unlimited n ss \<Longrightarrow> admits cap ss = n"
proof -
  assume u: "unlimited n ss"
  have "need cap contract_none = 0" by (simp add: need_def contract_none_def sat_mul_def)
  moreover have "s_contract s = contract_none" if "s \<in> set (each ss)" for s
  proof -
    have "s_contract s \<in># contracts ss" using that by (simp add: contracts_def)
    then show ?thesis using u by (auto simp: unlimited_def split: if_splits)
  qed
  ultimately have "map (\<lambda>s. need cap (s_contract s)) (each ss) = replicate (length (each ss)) 0"
    by (simp add: map_eq_conv cong: map_cong flip: map_replicate_const)
  then have "promised_bytes cap ss = 0" by (simp add: promised_bytes_def foldl_sat_add sum_list_replicate)
  then show ?thesis using unlimited_live [OF u] by (simp add: admits_def checked_div_def Let_def)
qed

lemma headline_parity:
  assumes st: "in_step n ru k M r out" and k: "k < 2 ^ 32" and s: "ou_sessions out = n" "n \<le> umax 32"
  shows "mgr_headline M = outcome_headline (out\<lparr>ou_kv_resident := held_of KvBlock r\<rparr>) (length (ar_bytes (mg_arena M)))"
proof -
  have ta: "tallied (mg_counters M) out" and mt: "matched M r" and u: "unlimited n (mg_sessions M)" and cn: "counted k r out"
    using st by (simp_all add: in_step_def)
  let ?ct = "mg_counters M" and ?W = "class_index WeightTile"
  have "ct_fetched ?ct ! ?W = ou_weights_read out" "ct_fetched ?ct ! ?W + ct_hits ?ct ! ?W = ou_weights_applied out"
    using ta by (simp_all add: tallied_def)
  moreover have "ou_weights_applied out \<le> umax 64"
  proof -
    have "ou_weights_applied out \<le> k * umax 32" using cn by (simp add: counted_def)
    also have "\<dots> \<le> (2 ^ 32) * umax 32" using k by (intro mult_le_mono1) simp
    finally show ?thesis by simp
  qed
  ultimately have "sat_add 64 (ct_fetched ?ct ! ?W) (ct_hits ?ct ! ?W) = ou_weights_applied out" "ct_fetched ?ct ! ?W = ou_weights_read out"
    by (simp_all add: sat_add_exact)
  moreover have "ct_held ?ct ! class_index KvBlock = held_of KvBlock r" using mt by (simp add: matched_def same_held_def)
  ultimately show ?thesis
    using s admits_unlimited [OF u]
    by (simp add: mgr_headline_def report_headline_def report_of_def outcome_headline_def arena_occupancy_def Let_def)
qed

end
