(* ===== verification/LabDisk.thy ===== *)
theory LabDisk
  imports LabReplay
begin

text \<open>
  crates/mlos-lab, the state a replay starts from: the trace read off the disk, the model registered, the
  sessions of the trace adopted and its accesses ordered.
\<close>

section \<open>The trace on the disk\<close>

definition disk_holds :: "device \<Rightarrow> nat \<Rightarrow> u8 list \<Rightarrow> bool" where
  "disk_holds dev at bs \<longleftrightarrow>
     map (disk_byte dev) [at..<at + length bs] = bs \<and>
     (\<forall>s. at \<le> s * SECTOR \<and> s * SECTOR < at + next_multiple_of SECTOR (length bs) \<longrightarrow> sector_good dev s)"

definition trace_image :: "string \<Rightarrow> u8 list" where
  "trace_image s = le_bytes 8 (length s) @ bytes_of s"

lemma take_map_upt: "n \<le> m \<Longrightarrow> take n (map f [a..<a + m]) = map f [a..<a + n]"
  by (simp add: take_map take_upt)

lemma disk_holds_read:
  assumes "disk_holds dev at bs" "at mod SECTOR = 0" "length into \<le> next_multiple_of SECTOR (length bs)"
  shows "\<exists>n. read_at dev at into = (Inr n, map (disk_byte dev) [at..<at + length into])"
proof -
  have "\<forall>s. at \<le> s * SECTOR \<and> s * SECTOR < at + length into \<longrightarrow> sector_good dev s"
    using assms(1,3) unfolding disk_holds_def by (meson add_left_mono less_le_trans)
  from read_at_ok [OF assms(2) this] show ?thesis by blast
qed

lemma lab_read_image:
  assumes "disk_holds dev (TRACE_AT * SECTOR) (trace_image s)" "ascii s"
    and room: "next_multiple_of SECTOR (HEADER + length s) \<le> room" "room < 2 ^ 64"
  shows "lab_read (Some dev) room = Some (Inr s)"
proof -
  let ?at = "TRACE_AT * SECTOR" and ?bs = "trace_image s" and ?whole = "next_multiple_of SECTOR (HEADER + length s)"
  have len: "length ?bs = HEADER + length s" by (simp add: trace_image_def HEADER_def le_bytes_def bytes_of_def)
  have bytes: "map (disk_byte dev) [?at..<?at + length ?bs] = ?bs" using assms(1) by (simp add: disk_holds_def)
  have small: "length s < 256 ^ 8"
    using next_multiple_of_ge [of "HEADER + length s" SECTOR] room by simp
  have sector: "SECTOR \<le> ?whole"
    using next_multiple_of_dvd [of SECTOR "HEADER + length s"] next_multiple_of_pos [of "HEADER + length s" SECTOR]
    by (intro dvd_imp_le) (simp_all add: HEADER_def)
  have al: "?at mod SECTOR = 0" by simp
  obtain n where first: "read_at dev ?at (replicate SECTOR 0) = (Inr n, map (disk_byte dev) [?at..<?at + SECTOR])"
    using disk_holds_read [OF assms(1) al, of "replicate SECTOR 0"] sector len by auto
  obtain n' where whole: "read_at dev ?at (replicate ?whole 0) = (Inr n', map (disk_byte dev) [?at..<?at + ?whole])"
    using disk_holds_read [OF assms(1) al, of "replicate ?whole 0"] len by auto
  have "take 8 (map (disk_byte dev) [?at..<?at + SECTOR]) = take 8 ?bs"
  proof -
    have "take 8 (map (disk_byte dev) [?at..<?at + SECTOR]) = map (disk_byte dev) [?at..<?at + 8]"
      by (rule take_map_upt) (simp add: SECTOR_def)
    also have "\<dots> = take 8 (map (disk_byte dev) [?at..<?at + length ?bs])"
      by (rule take_map_upt [symmetric]) (simp add: len HEADER_def)
    finally show ?thesis unfolding bytes .
  qed
  also have "\<dots> = le_bytes 8 (length s)" by (simp add: trace_image_def le_bytes_def)
  finally have l: "le_value (take 8 (map (disk_byte dev) [?at..<?at + SECTOR])) = length s"
    using be_value_be_bytes [OF small] by (simp add: le_value_def le_bytes_def)
  have "take (length s) (drop HEADER (map (disk_byte dev) [?at..<?at + ?whole])) = drop HEADER (take (HEADER + length s) (map (disk_byte dev) [?at..<?at + ?whole]))"
    unfolding take_drop by (simp only: add.commute)
  also have "take (HEADER + length s) (map (disk_byte dev) [?at..<?at + ?whole]) = ?bs"
    using take_map_upt [OF next_multiple_of_ge [of "HEADER + length s" SECTOR], where f = "disk_byte dev" and a = ?at] bytes len by simp
  also have "drop HEADER ?bs = bytes_of s" by (simp add: trace_image_def le_bytes_def HEADER_def)
  finally have t: "take (length s) (drop HEADER (map (disk_byte dev) [?at..<?at + ?whole])) = bytes_of s" .
  have "\<not> room < SECTOR" "\<not> 2 ^ 64 \<le> ?whole" "\<not> room < ?whole" using sector room by linarith+
  then show ?thesis
    by (simp only: lab_read_def option.case Let_def first whole prod.case sum.case l t if_False from_utf8_ascii [OF assms(2)])
qed

section \<open>Adopting the sessions a trace names\<close>

abbreviation ids_of :: "sessions \<Rightarrow> session_id list" where
  "ids_of ss \<equiv> map s_id (each ss)"

lemma each_mem: "s \<in> set (each ss) \<longleftrightarrow> Some s \<in> set ss"
proof (induction ss)
  case (Cons x xs)
  then show ?case by (cases x) auto
qed simp

lemma ids_get: "sessions_inv ss \<Longrightarrow> i \<in> set (ids_of ss) \<longleftrightarrow> sessions_get ss i \<noteq> None"
proof -
  assume inv: "sessions_inv ss"
  have "i \<in> set (ids_of ss) \<longleftrightarrow> (\<exists>s. Some s \<in> set ss \<and> s_id s = i)" by (auto simp: each_mem [symmetric])
  also have "\<dots> \<longleftrightarrow> (\<exists>s. sessions_get ss i = Some s)" by (simp only: sessions_get_iff [OF inv])
  finally show ?thesis by (simp add: not_None_eq)
qed

lemma ids_distinct: "sessions_inv ss \<Longrightarrow> distinct (ids_of ss)"
proof (induction ss)
  case (Cons x xs)
  have nth: "(x # xs) ! Suc p = xs ! p" for p by simp
  have inv: "sessions_inv xs"
    unfolding sessions_inv_def
  proof (intro conjI allI impI)
    fix p q s t assume "p < length xs" "q < length xs" "xs ! p = Some s" "xs ! q = Some t" "s_id s = s_id t"
    then have "Suc p = Suc q" using Cons.prems unfolding sessions_inv_def
      by (metis Suc_less_eq length_Cons nth_Cons_Suc)
    then show "p = q" by simp
  next
    fix s assume "Some s \<in> set xs"
    then show "s_id s \<noteq> 0" using Cons.prems by (simp add: sessions_inv_def)
  qed
  show ?case
  proof (cases x)
    case None
    then show ?thesis using Cons.IH [OF inv] by simp
  next
    case (Some s)
    have "s_id t \<noteq> s_id s" if t: "Some t \<in> set xs" for t
    proof
      assume e: "s_id t = s_id s"
      obtain q where "q < length xs" "xs ! q = Some t" using t unfolding in_set_conv_nth by blast
      then have "Suc q < length (x # xs)" "(x # xs) ! Suc q = Some t" "(x # xs) ! 0 = Some s" "0 < length (x # xs)" using Some by simp_all
      then have "Suc q = 0" using Cons.prems e unfolding sessions_inv_def by metis
      then show False by simp
    qed
    then have "s_id s \<notin> set (ids_of xs)" unfolding set_map image_iff each_mem [symmetric] by metis
    then show ?thesis using Some Cons.IH [OF inv] by simp
  qed
qed simp

lemma live_ids: "sessions_live ss = length (ids_of ss)"
proof (induction ss)
  case (Cons x xs)
  then show ?case by (cases x) (simp_all add: sessions_live_def)
qed (simp add: sessions_live_def)

definition untried :: "sessions \<Rightarrow> bool" where
  "untried ss \<longleftrightarrow> sessions_inv ss \<and> (\<forall>s. Some s \<in> set ss \<longrightarrow> s = session_new (s_id s) contract_none)"

lemma adopt_each_all:
  assumes "untried ss" "unlimited k ss" "0 \<notin> set ids" "card (set (ids_of ss) \<union> set ids) \<le> length ss"
  obtains n ss' where "adopt_each ids contract_none ss = (n, ss')" "untried ss'" "unlimited (k + n) ss'"
    "set (ids_of ss') = set (ids_of ss) \<union> set ids" "length ss' = length ss"
proof -
  have "\<exists>n ss'. adopt_each ids contract_none ss = (n, ss') \<and> untried ss' \<and> unlimited (k + n) ss' \<and>
    set (ids_of ss') = set (ids_of ss) \<union> set ids \<and> length ss' = length ss"
    using assms
  proof (induction ids arbitrary: ss k)
    case (Cons i ids')
    have inv: "sessions_inv ss" using Cons.prems(1) by (simp add: untried_def)
    obtain r ss1 where a: "adopt i contract_none ss = (r, ss1)" by fastforce
    show ?case
    proof (cases r)
      case (Inl e)
      then have "ss1 = ss" "e = Refused" using a adopt_refused by blast+
      then have "sessions_get ss i \<noteq> None \<or> sessions_live ss = length ss"
        using adopt_refused_iff [of i contract_none ss] a Inl Cons.prems(3) by auto
      then have known: "i \<in> set (ids_of ss)"
      proof
        assume "sessions_get ss i \<noteq> None"
        then show ?thesis using ids_get [OF inv] by blast
      next
        assume "sessions_live ss = length ss"
        then have "card (set (ids_of ss)) = length ss"
          using distinct_card [OF ids_distinct [OF inv]] live_ids by simp
        moreover have "card (set (ids_of ss) \<union> {i}) \<le> card (set (ids_of ss) \<union> set (i # ids'))" by (intro card_mono) auto
        ultimately have "card (insert i (set (ids_of ss))) \<le> card (set (ids_of ss))" using Cons.prems(4) by simp
        then show ?thesis by (metis card_insert_disjoint finite_set not_less_eq_eq order_refl)
      qed
      then have eq: "set (ids_of ss) \<union> set (i # ids') = set (ids_of ss) \<union> set ids'" by auto
      from Cons.IH [OF Cons.prems(1,2)] Cons.prems(3,4) obtain n ss' where
        "adopt_each ids' contract_none ss = (n, ss')" "untried ss'" "unlimited (k + n) ss'"
        "set (ids_of ss') = set (ids_of ss) \<union> set ids'" "length ss' = length ss" unfolding eq by auto
      then show ?thesis using a Inl \<open>ss1 = ss\<close> unfolding eq by simp
    next
      case (Inr u)
      note ok = adopt_ok [OF inv a [unfolded Inr]]
      have new: "untried ss1" using Cons.prems(1) ok(1,6) by (auto simp: untried_def session_new_def)
      have un: "unlimited (k + 1) ss1"
        using Cons.prems(2) ok(1) contracts_adopt [OF a [unfolded Inr]] by (simp add: unlimited_def)
      have "j \<in> set (ids_of ss1) \<longleftrightarrow> j = i \<or> j \<in> set (ids_of ss)" for j
        unfolding ids_get [OF ok(1)] ids_get [OF inv] ok(4) by simp
      then have ids: "set (ids_of ss1) = insert i (set (ids_of ss))" by blast
      have eq: "set (ids_of ss) \<union> set (i # ids') = set (ids_of ss1) \<union> set ids'" unfolding ids by auto
      from Cons.IH [OF new un] Cons.prems(3,4) ok(5) obtain n ss' where
        "adopt_each ids' contract_none ss1 = (n, ss')" "untried ss'" "unlimited (k + 1 + n) ss'"
        "set (ids_of ss') = set (ids_of ss1) \<union> set ids'" "length ss' = length ss1" unfolding eq by auto
      then show ?thesis using a Inr ok(5) unfolding eq by simp
    qed
  qed auto
  with that show ?thesis by blast
qed

end
