(* ===== verification/LabStart.thy ===== *)
theory LabStart
  imports LabDisk
begin

text \<open>
  crates/mlos-lab: the manager \<open>register\<close> leaves is where a simulator's replay starts.
\<close>

section \<open>The model's entries\<close>

definition tile_at :: "nat \<times> nat \<Rightarrow> object_id" where
  "tile_at p = (if snd p < TILES then tile (of_nat (fst p)) (of_nat (snd p)) else activation (of_nat (fst p)))"

lemma model_ids: "map fst (model_entries b) = map tile_at (List.product [0..<LAYERS] [0..<TILES + 1])"
proof -
  have row: "map tile_at (map (Pair l) [0..<TILES + 1]) = map (\<lambda>t. tile (of_nat l) (of_nat t)) [0..<TILES] @ [activation (of_nat l)]" for l
    by (simp add: tile_at_def)
  have "map tile_at (List.product ls [0..<TILES + 1]) =
      concat (map (\<lambda>l. map (\<lambda>t. tile (of_nat l) (of_nat t)) [0..<TILES] @ [activation (of_nat l)]) ls)" for ls
    by (induction ls) (simp_all only: List.product.simps list.map map_append row concat.simps)
  moreover have "map fst (map (\<lambda>t. (tile (of_nat l) (of_nat t), f t)) ts @ [(activation (of_nat l), a)]) =
      map (\<lambda>t. tile (of_nat l) (of_nat t)) ts @ [activation (of_nat l)]" for l :: nat and f :: "nat \<Rightarrow> object_meta" and ts :: "nat list" and a :: object_meta
    by simp
  ultimately show ?thesis unfolding model_entries_def map_concat map_map by (simp add: comp_def)
qed

lemma tile_at_fields:
  "object_fields (tile_at p) = \<lparr>f_model = of_nat MODEL, f_layer = of_nat (fst p),
     f_tensor = (if snd p < TILES then of_nat (snd p) else 0), f_tile = 0\<rparr>"
  by (simp add: tile_at_def tile_def activation_def)

lemma tile_at_class: "object_class_of (tile_at p) = Some (if snd p < TILES then WeightTile else Activation)"
  by (simp add: tile_at_def tile_def activation_def)

lemma model_ids_distinct: "distinct (map fst (model_entries b))"
proof -
  have "inj_on tile_at (set (List.product [0..<LAYERS] [0..<TILES + 1]))"
  proof (rule inj_onI)
    fix p q assume pq: "p \<in> set (List.product [0..<LAYERS] [0..<TILES + 1])" "q \<in> set (List.product [0..<LAYERS] [0..<TILES + 1])"
      and e: "tile_at p = tile_at q"
    have lt: "fst p < 8" "fst q < 8" "snd p < 17" "snd q < 17" using pq by (auto simp: LAYERS_def TILES_def)
    have small: "a = b" if "(of_nat a :: u16) = of_nat b" "a < 17" "b < 17" for a b :: nat
    proof -
      have "unat (of_nat a :: u16) = a" "unat (of_nat b :: u16) = b" using that(2,3) by (simp_all add: unat_of_nat)
      then show ?thesis using that(1) by metis
    qed
    have "(of_nat (fst p) :: u16) = of_nat (fst q)" "(snd p < TILES) = (snd q < TILES)"
      "snd p < TILES \<Longrightarrow> (of_nat (snd p) :: u16) = of_nat (snd q)"
      using arg_cong [OF e, of object_fields] arg_cong [OF e, of object_class_of] by (auto simp: tile_at_fields tile_at_class split: if_splits)
    note f = this
    have "fst p = fst q" by (rule small [OF f(1)]) (use lt in simp_all)
    moreover have "snd p = snd q"
    proof (cases "snd p < TILES")
      case True
      show ?thesis by (rule small [OF f(3) [OF True]]) (use lt in simp_all)
    next
      case False
      then have "\<not> snd q < TILES" using f(2) by simp
      then show ?thesis using False lt by (simp add: TILES_def)
    qed
    ultimately show "p = q" by (simp add: prod_eq_iff)
  qed
  then show ?thesis unfolding model_ids by (simp add: distinct_map distinct_product)
qed

definition disk_serves :: "device \<Rightarrow> bool" where
  "disk_serves dev \<longleftrightarrow> (\<forall>s < TRACE_AT. sector_good dev s)"

lemma disk_readable:
  assumes "disk_serves dev" "l < LAYERS" "t < TILES" "length into = TILE_BYTES"
  shows "\<exists>n room. disk_read dev (located_new (tile (of_nat l) (of_nat t)) (weights\<lparr>m_provider := DISK\<rparr>)) 0 into = (Inr n, room)"
proof -
  let ?i = "tile (of_nat l) (of_nat t)"
  have u: "unat (of_nat l :: u16) = l" "unat (of_nat t :: u16) = t"
    using assms(2,3) by (simp_all add: LAYERS_def TILES_def unat_of_nat)
  have at: "sector_of ?i * SECTOR = (l * TILES + t) * TILE_BYTES" unfolding tile_offset u by (rule refl)
  have "(l * TILES + t + 1) * TILE_BYTES \<le> LAYERS * TILES * TILE_BYTES"
    using assms(2,3) by (intro mult_le_mono1) (simp add: LAYERS_def TILES_def)
  then have "\<forall>s. sector_of ?i * SECTOR \<le> s * SECTOR \<and> s * SECTOR < sector_of ?i * SECTOR + length into \<longrightarrow> sector_good dev s"
    using assms(1,4) unfolding at disk_serves_def by (auto simp: TRACE_AT_def LAYERS_def TILES_def TILE_BYTES_def SECTOR_def)
  from read_at_ok [OF _ this] show ?thesis
    using assms(4) by (simp add: disk_read_def Let_def located_new_def weights_def)
qed

definition serves :: "device option \<Rightarrow> manager \<Rightarrow> bool" where
  "serves disk M \<longleftrightarrow>
     tiered M \<and>
     (case disk of None \<Rightarrow> True | Some dev \<Rightarrow> nth_opt (mg_providers M) 4 = Some (Some (disk_provider dev)) \<and> disk_serves dev)"

lemma model_entry:
  "(i, m) \<in> set (model_entries b) \<Longrightarrow> \<exists>l < LAYERS.
     (\<exists>t < TILES. i = tile (of_nat l) (of_nat t) \<and> m = (if b then weights\<lparr>m_provider := DISK\<rparr> else weights)) \<or>
     i = activation (of_nat l) \<and> m = activations"
proof -
  assume "(i, m) \<in> set (model_entries b)"
  then obtain l where "l < LAYERS" "(i, m) \<in> set (map (\<lambda>t. (tile (of_nat l) (of_nat t), if b then weights\<lparr>m_provider := DISK\<rparr> else weights)) [0..<TILES]
      @ [(activation (of_nat l), activations)])"
    unfolding model_entries_def set_concat set_map by auto
  then show ?thesis by (intro exI [of _ l]) auto
qed

lemma serves_same: "mg_providers M' = mg_providers M \<Longrightarrow> serves disk M' = serves disk M"
  by (simp only: serves_def tiered_def)

lemma model_fresh:
  assumes sv: "serves disk M" and ru: "ru_model ru = decode_meta" and im: "(i, m) \<in> set (model_entries (disk \<noteq> None))"
  shows "fresh_entry ru M i m"
proof -
  have tr: "tiered M" using sv by (simp add: serves_def)
  have plain: "fresh_entry ru M i d" if "decode_meta i = Some d" for d
    using known_meta_facts [OF that tr] known_meta_decode [OF that] that ru by (simp add: fresh_entry_def)
  obtain l where l: "l < LAYERS"
    "(\<exists>t < TILES. i = tile (of_nat l) (of_nat t) \<and> m = (if disk \<noteq> None then weights\<lparr>m_provider := DISK\<rparr> else weights)) \<or>
     i = activation (of_nat l) \<and> m = activations"
    using model_entry [OF im] by blast
  from l(2) show ?thesis
  proof (elim disjE exE conjE)
    assume "i = activation (of_nat l)" "m = activations"
    then show ?thesis using plain by (simp add: decode_meta_def activation_def)
  next
    fix t assume t: "t < TILES" "i = tile (of_nat l) (of_nat t)"
      "m = (if disk \<noteq> None then weights\<lparr>m_provider := DISK\<rparr> else weights)"
    have d: "decode_meta i = Some weights" using t(2) by (simp add: decode_meta_def tile_def)
    show ?thesis
    proof (cases disk)
      case None
      then show ?thesis using plain [OF d] t(3) by simp
    next
      case (Some dev)
      then have m: "m = weights\<lparr>m_provider := DISK\<rparr>" using t(3) by simp
      have "nth_opt (mg_providers M) 4 = Some (Some (disk_provider dev))" and ds: "disk_serves dev" using sv Some unfolding serves_def by (simp_all only: option.case simp_thms)
      moreover have m4: "m_provider m = 4" by (simp add: m DISK_def)
      ultimately have "provider_for m M = Inr (disk_provider dev)"
        unfolding provider_for_def m4 by (simp only: option.case)
      moreover have "pr_read (disk_provider dev) = disk_read dev" by (simp add: disk_provider_def)
      ultimately have "readable M i m"
        using disk_readable [OF ds l(1) t(1)] unfolding readable_def t(2) m by (simp add: weights_def)
      then show ?thesis using plain [OF d] ru d by (simp add: fresh_entry_def m)
    qed
  qed
qed

section \<open>Registering them\<close>

lemma populate_all:
  assumes "in_step 0 ru 0 M r out" "roomy ids M" "serves disk M" "distinct (map fst es)"
    and "\<forall>(i, m) \<in> set es. table_map (mg_table M) i = None \<and> i \<in> ids \<and> (\<forall>M. serves disk M \<longrightarrow> fresh_entry ru M i m)"
  shows "\<exists>M'. populate es objects M = (Inr (objects + length es), M') \<and> in_step 0 ru 0 M' r out \<and> roomy ids M' \<and>
    mg_stream M' = mg_stream M \<and> mg_sessions M' = mg_sessions M \<and> mg_capacity M' = mg_capacity M \<and>
    dom (table_map (mg_table M')) = dom (table_map (mg_table M)) \<union> fst ` set es"
  using assms
proof (induction es arbitrary: M objects)
  case (Cons e es)
  obtain i m where e: "e = (i, m)" by (cases e)
  have new: "table_map (mg_table M) i = None" "i \<in> ids" "fresh_entry ru M i m" using Cons.prems(3,5) e by auto
  from register_priced [OF Cons.prems(1) new(1,3) Cons.prems(2) new(2)] obtain M1 where
    R: "register i m M = (Inr (), M1)" "in_step 0 ru 0 M1 r out" "roomy ids M1"
      "table_map (mg_table M1) = (table_map (mg_table M))(i \<mapsto> m)" "mg_stream M1 = mg_stream M"
      "mg_capacity M1 = mg_capacity M" "mg_providers M1 = mg_providers M" "mg_sessions M1 = mg_sessions M" by blast
  have "serves disk M1" using Cons.prems(3) serves_same [OF R(7)] by simp
  moreover have "\<forall>(j, n) \<in> set es. table_map (mg_table M1) j = None \<and> j \<in> ids \<and> (\<forall>M. serves disk M \<longrightarrow> fresh_entry ru M j n)"
    using Cons.prems(4,5) R(4) e by (force simp: image_iff)
  ultimately have "\<exists>M'. populate es (objects + 1) M1 = (Inr (objects + 1 + length es), M') \<and> in_step 0 ru 0 M' r out \<and> roomy ids M' \<and>
      mg_stream M' = mg_stream M1 \<and> mg_sessions M' = mg_sessions M1 \<and> mg_capacity M' = mg_capacity M1 \<and>
      dom (table_map (mg_table M')) = dom (table_map (mg_table M1)) \<union> fst ` set es"
    using Cons.prems(4) by (intro Cons.IH [OF R(2,3)]) simp_all
  then obtain M' where P: "populate es (objects + 1) M1 = (Inr (objects + 1 + length es), M')" "in_step 0 ru 0 M' r out" "roomy ids M'"
      "mg_stream M' = mg_stream M1" "mg_sessions M' = mg_sessions M1" "mg_capacity M' = mg_capacity M1"
      "dom (table_map (mg_table M')) = dom (table_map (mg_table M1)) \<union> fst ` set es" by blast
  have "dom (table_map (mg_table M')) = dom (table_map (mg_table M)) \<union> fst ` set (e # es)"
    unfolding P(7) R(4) e by auto
  moreover have "populate (e # es) objects M = (Inr (objects + length (e # es)), M')" using R(1) P(1) e by simp
  moreover have "mg_stream M' = mg_stream M" "mg_sessions M' = mg_sessions M" "mg_capacity M' = mg_capacity M"
    using P(4-6) R(5,6,8) by simp_all
  ultimately show ?case using P(2,3) by blast
qed simp

lemma attach_keeps:
  assumes "attach p M = (r, M')" "mgr_inv M" "\<forall>loc off into. length (snd (pr_read p loc off into)) = length into"
  shows "mgr_inv M' \<and> M' = M\<lparr>mg_providers := mg_providers M'\<rparr>"
  using attach_inv [OF assms(2,1,3)] assms(1) by (auto simp: attach_def split: if_splits)

lemma attached:
  assumes inv: "mgr_inv M" and ps: "length (mg_providers M) = MAX_PROVIDERS"
    and disk: "case disk of None \<Rightarrow> True | Some dev \<Rightarrow> disk_serves dev"
  shows "\<exists>ps. lab_attach disk M = (Inr (), M\<lparr>mg_providers := ps\<rparr>) \<and> mgr_inv (M\<lparr>mg_providers := ps\<rparr>) \<and>
    serves disk (M\<lparr>mg_providers := ps\<rparr>)"
proof -
  let ?p2 = "(mg_providers M)[2 := Some (tier_provider BACKING)]"
  let ?p3 = "?p2[3 := Some (tier_provider RECOMPUTE)]"
  have ids: "pr_id (tier_provider BACKING) = 2" "pr_id (tier_provider RECOMPUTE) = 3" "pr_id (disk_provider dev) = 4" for dev
    by (simp_all add: tier_provider_def BACKING_def RECOMPUTE_def disk_provider_def DISK_def)
  have tl: "\<forall>loc off into. length (snd (pr_read (tier_provider t) loc off into)) = length into" for t
    by (simp add: tier_provider_def tier_read_def Let_def)
  have dl: "\<forall>loc off into. length (snd (pr_read (disk_provider dev) loc off into)) = length into" for dev
    by (simp add: disk_provider_def disk.read_length)
  have a2: "attach (tier_provider BACKING) M = (Inr (), M\<lparr>mg_providers := ?p2\<rparr>)"
    by (simp add: attach_def ids ps MAX_PROVIDERS_def)
  have i2: "mgr_inv (M\<lparr>mg_providers := ?p2\<rparr>)" by (rule attach_inv [OF inv a2 tl])
  have a3: "attach (tier_provider RECOMPUTE) (M\<lparr>mg_providers := ?p2\<rparr>) = (Inr (), M\<lparr>mg_providers := ?p3\<rparr>)"
    by (simp add: attach_def ids ps MAX_PROVIDERS_def)
  have i3: "mgr_inv (M\<lparr>mg_providers := ?p3\<rparr>)" by (rule attach_inv [OF i2 a3 tl])
  show ?thesis
  proof (cases disk)
    case None
    then show ?thesis using a2 a3 i3
      by (intro exI [of _ ?p3]) (simp add: lab_attach_def serves_def tiered_def nth_opt_def ps MAX_PROVIDERS_def)
  next
    case (Some dev)
    let ?p4 = "?p3[4 := Some (disk_provider dev)]"
    have a4: "attach (disk_provider dev) (M\<lparr>mg_providers := ?p3\<rparr>) = (Inr (), M\<lparr>mg_providers := ?p4\<rparr>)"
      by (simp add: attach_def ids ps MAX_PROVIDERS_def)
    have "mgr_inv (M\<lparr>mg_providers := ?p4\<rparr>)" by (rule attach_inv [OF i3 a4 dl])
    then show ?thesis using a2 a3 a4 Some disk
      by (intro exI [of _ ?p4]) (simp add: lab_attach_def serves_def tiered_def nth_opt_def ps MAX_PROVIDERS_def)
  qed
qed

lemma clamp_within: "low \<le> high \<Longrightarrow> low \<le> clamp low high n \<and> clamp low high n \<le> high"
  by (simp add: clamp_def)

lemma started:
  assumes "0 < length bytes" "0 < base" "base + length bytes < 2 ^ 64" "base' + length bytes < 2 ^ 64" "ru_policy ru = Demand"
    and cap: "finite ids" "card ids \<le> n"
    and M: "M = (manager_new n (arena_new base bytes))\<lparr>mg_capacity := c, mg_providers := ps\<rparr>" "mgr_inv M" "tiered M"
  shows "in_step 0 ru 0 M (resident_new (arena_new base' (replicate (length bytes) 0))) outcome_default" "roomy ids M"
proof -
  let ?r = "resident_new (arena_new base' (replicate (length bytes) 0))"
  have empty: "table_map (mg_table M) = (\<lambda>_. None)" by (simp add: M manager_new_def table_empty_map)
  have "resident_inv ?r" using replay_start_inv [of "length bytes" base'] assms(1,4) by simp
  moreover have cl: "class_index c < CLASSES" for c
    using class_index_lt [of c] by (simp add: CLASSES_def all_classes_def del: class_index_lt)
  moreover have "matched M ?r"
    unfolding matched_def alike_def same_residents_def same_held_def empty
    by (simp add: M manager_new_def resident_new_def arena_new_def counters_empty_def held_of_def cl del: replicate.simps)
  moreover have "counted 0 ?r outcome_default" by (simp add: counted_def outcome_default_def resident_new_def)
  moreover have "same_policy M ru" using assms(5) by (simp add: same_policy_def M(1) manager_new_def sim_policy_def)
  moreover have "unlimited 0 (mg_sessions M)"
    by (auto simp: unlimited_def M(1) manager_new_def sessions_empty_def sessions_inv_def contracts_def each_def List.map_filter_def)
  moreover have "priced ru M" by (simp add: priced_def empty)
  moreover have "tallied (mg_counters M) outcome_default"
    by (simp add: tallied_def M(1) manager_new_def counters_empty_def outcome_default_def cl)
  moreover have "mg_clock M = 0" by (simp add: M(1) manager_new_def)
  ultimately show "in_step 0 ru 0 M ?r outcome_default" using M(2) by (simp only: in_step_def)
  have "Removed \<notin> set (mg_table M)" "length (mg_table M) = n" by (auto simp: M(1) manager_new_def table_empty_def)
  then show "roomy ids M" using M(3) cap by (simp add: roomy_def tidy_def empty)
qed

lemma roomy_mono: "roomy A M \<Longrightarrow> B \<subseteq> A \<Longrightarrow> roomy B M"
proof -
  assume A: "roomy A M" and B: "B \<subseteq> A"
  then have "card (dom (table_map (mg_table M)) \<union> B) \<le> card (dom (table_map (mg_table M)) \<union> A)"
    by (intro card_mono) (auto simp: roomy_def table_map_finite)
  then show "roomy B M" using A B finite_subset by (auto simp: roomy_def)
qed

lemma lab_registered:
  assumes addr: "0 < base" "base + length bytes < 2 ^ 64" "base' + length bytes < 2 ^ 64" "TILE_BYTES \<le> length bytes"
    and disk: "case disk of None \<Rightarrow> True | Some dev \<Rightarrow> disk_serves dev"
    and ru: "ru_policy ru = Demand" "ru_model ru = decode_meta"
    and cap: "finite ids" "card (fst ` set (model_entries (disk \<noteq> None)) \<union> ids) \<le> CAPACITY_LAB"
  shows "\<exists>M rep. lab_register base bytes disk budget L = (Inr rep, L\<lparr>lab_manager := Some M\<rparr>) \<and>
    in_step 0 ru 0 M (resident_new (arena_new base' (replicate (clamp TILE_BYTES (length bytes) budget) 0))) outcome_default \<and>
    roomy ids M \<and> mg_stream M = stream_empty \<and> mg_sessions M = sessions_empty MAX_SESSIONS \<and>
    dom (table_map (mg_table M)) = fst ` set (model_entries (disk \<noteq> None))"
proof -
  let ?l = "clamp TILE_BYTES (length bytes) budget" and ?es = "model_entries (disk \<noteq> None)"
  have l: "TILE_BYTES \<le> ?l" "?l \<le> length bytes" using clamp_within [OF addr(4)] by blast+
  then have lb: "length (take ?l bytes) = ?l" "0 < length (take ?l bytes)" by (simp_all add: TILE_BYTES_def)
  let ?M0 = "(manager_new CAPACITY_LAB (arena_new base (take ?l bytes)))\<lparr>mg_capacity := SYNTHETIC\<lparr>cp_bytes := ?l\<rparr>\<rparr>"
  have "mgr_inv (manager_start CAPACITY_LAB base (take ?l bytes))"
    by (rule manager_start_inv(1)) (use lb l addr in simp_all)
  then have "mgr_inv ?M0" by (simp add: manager_start_def mgr_inv_def mgr_inv_pending_def blocks_def [abs_def] accounts_def)
  from attached [OF this _ disk] obtain ps where A: "lab_attach disk ?M0 = (Inr (), ?M0\<lparr>mg_providers := ps\<rparr>)"
    "mgr_inv (?M0\<lparr>mg_providers := ps\<rparr>)" "serves disk (?M0\<lparr>mg_providers := ps\<rparr>)" by (auto simp: manager_new_def)
  let ?M1 = "?M0\<lparr>mg_providers := ps\<rparr>" and ?ids = "fst ` set ?es \<union> ids"
  have S: "in_step 0 ru 0 ?M1 (resident_new (arena_new base' (replicate ?l 0))) outcome_default" "roomy ?ids ?M1"
    using started [where bytes = "take ?l bytes" and base = base and base' = base' and ru = ru and ids = ?ids and M = ?M1
        and n = CAPACITY_LAB and c = "SYNTHETIC\<lparr>cp_bytes := ?l\<rparr>" and ps = ps]
      lb l addr ru(1) cap A(2,3) by (simp_all add: serves_def)
  have new: "table_map (mg_table ?M1) = (\<lambda>_. None)" by (simp add: manager_new_def table_empty_map)
  then have es: "\<forall>(i, m) \<in> set ?es. table_map (mg_table ?M1) i = None \<and> i \<in> ?ids \<and> (\<forall>M. serves disk M \<longrightarrow> fresh_entry ru M i m)"
    using model_fresh [OF _ ru(2)] by force
  from populate_all [OF S A(3) model_ids_distinct es, of 0] obtain M where
    P: "populate ?es 0 ?M1 = (Inr (length ?es), M)"
      "in_step 0 ru 0 M (resident_new (arena_new base' (replicate ?l 0))) outcome_default" "roomy ?ids M"
      "mg_stream M = mg_stream ?M1" "mg_sessions M = mg_sessions ?M1"
      "dom (table_map (mg_table M)) = dom (table_map (mg_table ?M1)) \<union> fst ` set ?es" by auto
  have "roomy ids M" by (rule roomy_mono [OF P(3)]) blast
  moreover have "dom (table_map (mg_table M)) = fst ` set ?es" unfolding P(6) new by simp
  ultimately show ?thesis using A(1) P(1,2,4,5) by (auto simp: lab_register_def Let_def manager_new_def)
qed

end
