(* ===== verification/LabPlay.thy ===== *)
theory LabPlay
  imports LabStart
begin

text \<open>
  crates/mlos-lab against crates/mlos-sched and crates/mlos-sim: what the kernel reports for the trace on its disk is
  what the host computes for the same trace.
\<close>

section \<open>Sessions adopted and told their worst period\<close>

definition quiet :: "nat \<Rightarrow> sessions \<Rightarrow> bool" where
  "quiet n ss \<longleftrightarrow> unlimited n ss \<and> (\<forall>i s. sessions_get ss i = Some s \<longrightarrow> s_resident s = 0 \<and> within_ceiling s)"

lemma quiet_untried:
  assumes "untried ss" "unlimited n ss"
  shows "quiet n ss"
proof -
  have inv: "sessions_inv ss" using assms(1) by (simp add: untried_def)
  have "s_resident s = 0 \<and> within_ceiling s" if "sessions_get ss i = Some s" for i s
  proof -
    have "Some s \<in> set ss" using that sessions_get_iff [OF inv] by blast
    then have "s = session_new (s_id s) contract_none" using assms(1) by (simp add: untried_def)
    then have "s_resident s = 0" "s_contract s = contract_none" by (metis session_new_def session.select_convs)+
    then show ?thesis by (simp add: within_ceiling_def contract_none_def)
  qed
  then show ?thesis using assms(2) by (simp add: quiet_def)
qed

lemma quiet_took: "quiet n ss \<Longrightarrow> quiet n (took owner period ss)"
proof -
  let ?f = "\<lambda>s. s\<lparr>s_delivered := (s_delivered s)\<lparr>dl_worst_period := max (dl_worst_period (s_delivered s)) period\<rparr>\<rparr>"
  assume q: "quiet n ss"
  then have inv: "sessions_inv ss" by (simp add: quiet_def unlimited_def)
  have keep: "s_resident s = 0 \<and> within_ceiling s \<Longrightarrow> s_resident (?f s) = 0 \<and> within_ceiling (?f s)" for s
    by (simp add: within_ceiling_def)
  have "unlimited n (sessions_update owner ?f ss)"
    by (rule unlimited_update) (use q in \<open>simp_all add: quiet_def\<close>)
  moreover have "s_resident s = 0 \<and> within_ceiling s" if "sessions_get (sessions_update owner ?f ss) i = Some s" for i s
    using q that keep by (auto simp: book.get_update [OF inv] quiet_def split: if_splits)
  ultimately show ?thesis by (simp add: quiet_def took_def)
qed

lemma quiet_fold: "quiet n ss \<Longrightarrow> quiet n (fold (\<lambda>(l, worst). took (ll_session l) worst) ps ss)"
  by (induction ps arbitrary: ss) (auto simp: quiet_took split: prod.split)

lemma nothing_owned:
  assumes "\<forall>i m. table_map t i = Some m \<longrightarrow> m_resident_at m = 0"
  shows "owned t s = 0"
  unfolding owned_def by (rule sum.neutral) (use assms in \<open>auto simp: weight_def\<close>)

lemma in_step_adopted:
  assumes st: "in_step k ru 0 M r out" and none: "re_held r = []" and q: "quiet n ss"
  shows "in_step n ru 0 (M\<lparr>mg_sessions := ss\<rparr>) r (out\<lparr>ou_sessions := n\<rparr>)"
proof -
  let ?M = "M\<lparr>mg_sessions := ss\<rparr>"
  have inv: "mgr_inv M" and mt: "matched M r" using st by (simp_all add: in_step_def)
  have "table_map (mg_table M) i = Some m \<Longrightarrow> m_resident_at m = 0" for i m
    using mt none same_residentsD(2) [of M r i m] by (simp add: matched_def)
  then have "accounts (\<lambda>_. 0) ?M" using q nothing_owned by (auto simp: accounts_def quiet_def)
  then have "mgr_inv ?M" using inv q
    by (simp add: mgr_inv_def mgr_inv_pending_def blocks_def [abs_def] quiet_def unlimited_def)
  moreover have "matched ?M r = matched M r" by (rule matched_parts) simp_all
  ultimately show ?thesis using st q none
    by (simp add: in_step_def quiet_def counted_def same_policy_def priced_def readable_def provider_for_def tallied_def)
qed

lemma in_step_chosen:
  assumes "in_step n ru k M r out" "choice name = Some p" "ru_model ru' = ru_model ru" "ru_policy ru' = sim_policy p"
  shows "in_step n ru' k (M\<lparr>mg_policy := p\<rparr>) r out"
proof -
  let ?M = "M\<lparr>mg_policy := p\<rparr>"
  have "mgr_inv M" using assms(1) by (simp add: in_step_def)
  then have "mgr_inv ?M" by (simp add: mgr_inv_def mgr_inv_pending_def blocks_def [abs_def] accounts_def)
  moreover have "matched ?M r = matched M r" by (rule matched_parts) simp_all
  moreover have "same_policy ?M ru'" using assms(2,4) by_figures_known by (auto simp: same_policy_def)
  ultimately show ?thesis using assms(1,3)
    by (simp add: in_step_def priced_def readable_def provider_for_def)
qed

section \<open>The lanes of a trace\<close>

definition sessions_of :: "access list \<Rightarrow> sessions" where
  "sessions_of as = snd (adopt_each (map ac_session as) contract_none (sessions_empty MAX_SESSIONS))"

definition kernel_lanes :: "access list \<Rightarrow> lab_lane list" where
  "kernel_lanes as = map lane_for (each (sessions_of as))"

definition few_sessions :: "access list \<Rightarrow> bool" where
  "few_sessions as \<longleftrightarrow> 0 \<notin> ac_session ` set as \<and> card (ac_session ` set as) \<le> MAX_SESSIONS"

lemma sessions_of_spec:
  assumes "few_sessions as"
  defines "n \<equiv> card (ac_session ` set as)"
  shows "adopt_each (map ac_session as) contract_none (sessions_empty MAX_SESSIONS) = (n, sessions_of as)"
    and "quiet n (sessions_of as)" "set (ids_of (sessions_of as)) = ac_session ` set as"
    and "distinct (ids_of (sessions_of as))" "length (each (sessions_of as)) = n"
proof -
  let ?e = "sessions_empty MAX_SESSIONS"
  have each: "each ?e = []" by (simp add: each_def sessions_empty_def List.map_filter_def)
  have e: "untried ?e" "unlimited 0 ?e" "length ?e = MAX_SESSIONS"
    by (auto simp: untried_def unlimited_def sessions_empty_def sessions_inv_def contracts_def each_def List.map_filter_def)
  have side: "0 \<notin> set (map ac_session as)" "card (set (ids_of ?e) \<union> set (map ac_session as)) \<le> length ?e"
    using assms(1) e(3) each by (simp_all add: few_sessions_def)
  obtain k ss where A: "adopt_each (map ac_session as) contract_none ?e = (k, ss)" "untried ss" "unlimited (0 + k) ss"
      "set (ids_of ss) = set (ids_of ?e) \<union> set (map ac_session as)"
    by (rule adopt_each_all [OF e(1,2) side])
  have ss: "ss = sessions_of as" using A(1) by (simp add: sessions_of_def)
  have inv: "sessions_inv ss" using A(2) by (simp add: untried_def)
  show ids: "set (ids_of (sessions_of as)) = ac_session ` set as" using A(4) each by (simp add: ss)
  show d: "distinct (ids_of (sessions_of as))" using ids_distinct [OF inv] by (simp add: ss)
  have "length (ids_of ss) = n" using distinct_card [OF d] ids by (simp add: ss n_def)
  moreover have "k = length (ids_of ss)" using unlimited_live [OF A(3)] live_ids [of ss] by simp
  ultimately have k: "k = n" by simp
  show "adopt_each (map ac_session as) contract_none ?e = (n, sessions_of as)" using A(1) k ss by simp
  show "quiet n (sessions_of as)" using quiet_untried [OF A(2,3)] k ss by simp
  show "length (each (sessions_of as)) = n" using \<open>length (ids_of ss) = n\<close> ss by simp
qed

lemma kernel_lanes_facts:
  assumes "few_sessions as"
  shows "length (kernel_lanes as) \<le> MAX_SESSIONS" "map ll_session (kernel_lanes as) = ids_of (sessions_of as)"
    "\<forall>l \<in> set (kernel_lanes as). ll_len l = 0"
proof -
  note S = sessions_of_spec [OF assms]
  show "length (kernel_lanes as) \<le> MAX_SESSIONS" using S(5) assms by (simp add: kernel_lanes_def few_sessions_def)
  show "map ll_session (kernel_lanes as) = ids_of (sessions_of as)" by (simp add: kernel_lanes_def lane_for_def)
  show "\<forall>l \<in> set (kernel_lanes as). ll_len l = 0" by (simp add: kernel_lanes_def lane_for_def)
qed

lemma enrolled:
  assumes "lab_manager L = Some M" "mg_sessions M = sessions_empty MAX_SESSIONS" "rm_lanes (lab_buffers L) = MAX_SESSIONS" "few_sessions as"
  shows "enrol as L =
    ((length (kernel_lanes as), kernel_lanes as @ replicate (MAX_SESSIONS - length (kernel_lanes as)) lane_empty),
     L\<lparr>lab_manager := Some (M\<lparr>mg_sessions := sessions_of as\<rparr>)\<rparr>)"
proof -
  have "length (each (sessions_of as)) \<le> MAX_SESSIONS"
    using kernel_lanes_facts(1) [OF assms(4)] by (simp add: kernel_lanes_def)
  then show ?thesis using assms(1-3) by (simp add: enrol_def Let_def kernel_lanes_def sessions_of_def)
qed

lemma same_accesses:
  assumes d: "distinct ss" and all: "\<forall>a \<in> set as. ac_session a \<in> set ss" and len: "length out = length as"
    and each: "\<forall>s \<in> set ss. session_accesses s out = session_accesses s as"
  shows "set out = set as"
proof -
  let ?P = "\<lambda>a. ac_session a \<in> set ss"
  have "session_accesses s (filter ?P out) = session_accesses s as" if "s \<in> set ss" for s
  proof -
    have "session_accesses s (filter ?P out) = session_accesses s out"
      using that by (auto simp: session_accesses_def intro: filter_cong)
    then show ?thesis using that each by simp
  qed
  then have "map (\<lambda>s. length (session_accesses s (filter ?P out))) ss = map (\<lambda>s. length (session_accesses s as)) ss"
    by (intro map_cong [OF refl]) simp
  from arg_cong [OF this, of sum_list] have "length (filter ?P out) = length as"
    unfolding session_sum [OF d all] by (subst (asm) session_sum [OF d]) simp_all
  then have "\<forall>a \<in> set out. ?P a" using len length_filter_less [of _ out ?P] by (metis less_irrefl)
  moreover have "a \<in> set out \<longleftrightarrow> a \<in> set as" if "ac_session a \<in> set ss" for a
  proof -
    have "a \<in> set (session_accesses (ac_session a) out) \<longleftrightarrow> a \<in> set (session_accesses (ac_session a) as)"
      using each that by simp
    then show ?thesis by (simp add: session_accesses_def)
  qed
  ultimately show ?thesis using all by blast
qed

text \<open>The buffers, whatever was replayed before: their sizes never change.\<close>

definition buffers_ok :: "lab_room \<Rightarrow> bool" where
  "buffers_ok rm \<longleftrightarrow>
     rm_text rm = TEXT \<and> rm_accesses rm = ACCESSES \<and> length (rm_declared rm) = ACCESSES \<and> length (rm_next rm) = ACCESSES \<and>
     rm_seen rm = DISTINCT \<and> rm_grouped rm = ACCESSES \<and> rm_shape rm = ACCESSES \<and> rm_lanes rm = MAX_SESSIONS \<and>
     length (rm_sessions rm) = ACCESSES"

definition ready :: "nat \<Rightarrow> manager \<Rightarrow> access list \<Rightarrow> lab \<Rightarrow> bool" where
  "ready n M out L \<longleftrightarrow>
     (\<exists>ss st. lab_manager L = Some (M\<lparr>mg_sessions := ss, mg_stream := st\<rparr>) \<and> quiet n ss) \<and>
     take (length out) (rm_declared (lab_buffers L)) = map ac_object out \<and>
     take (length out) (rm_sessions (lab_buffers L)) = map ac_session out \<and>
     chained (map ac_object out) (rm_next (lab_buffers L)) \<and> length out \<le> length (rm_next (lab_buffers L)) \<and>
     buffers_ok (lab_buffers L)"

lemma ordered_ready:
  assumes pick: "scheduler pick" and rm: "buffers_ok (lab_buffers L)"
    and M: "lab_manager L = Some M" "mg_sessions M = sessions_empty MAX_SESSIONS"
    and as: "few_sessions as" "length as \<le> ACCESSES" "card (ac_object ` set as) \<le> DISTINCT"
  shows "\<exists>out worst L'. merge_timed pick st (host_lanes (tile 0 0) as (kernel_lanes as)) = Some (out, worst) \<and>
    length out = length as \<and> set out = set as \<and> ordered pick st as L = Some (Inr (length as), L') \<and>
    ready (card (ac_session ` set as)) M out L'"
proof -
  let ?rm = "lab_buffers L" and ?ls = "kernel_lanes as" and ?n = "card (ac_session ` set as)"
  let ?lanes = "?ls @ replicate (MAX_SESSIONS - length ?ls) lane_empty"
  let ?La = "L\<lparr>lab_manager := Some (M\<lparr>mg_sessions := sessions_of as\<rparr>)\<rparr>"
  note R = rm [unfolded buffers_ok_def] and S = sessions_of_spec [OF as(1)] and K = kernel_lanes_facts [OF as(1)]
  have en: "enrol as L = ((length ?ls, ?lanes), ?La)" by (rule enrolled [OF M _ as(1)]) (use R in simp)
  have tk: "take (length ?ls) ?lanes = ?ls" by simp
  have "length as < 2 ^ 32" using as(2) by (simp add: ACCESSES_def)
  moreover have "\<forall>a \<in> set as. ac_session a \<in> set (map ll_session ?ls)" using S(3) K(2) by simp
  ultimately have room: "lab_room as (take (length ?ls) ?lanes) (replicate (rm_grouped ?rm) 0) (replicate (rm_shape ?rm) (0, 0))"
    unfolding lab_room_def tk K(2) using K(1,3) S(3,4) R as(2) by simp
  from same_order_holds [OF pick room, of "rm_declared ?rm" "rm_sessions ?rm" st "tile 0 0"] R as(2)
  obtain B B' out worst where O: "lab_build as (tile 0 0) (replicate (rm_grouped ?rm) 0) (replicate (rm_shape ?rm) (0, 0)) ?lanes (length ?ls) = Some (Inr B)"
    "merge_timed pick st (host_lanes (tile 0 0) as ?ls) = Some (out, worst)"
    "lab_order pick st B (rm_declared ?rm) (rm_sessions ?rm) 0 = Some (length as, map ac_object out @ drop (length as) (rm_declared ?rm),
       map ac_session out @ drop (length as) (rm_sessions ?rm), B')"
    "length out = length as" "\<forall>l \<in> set ?ls. filter (\<lambda>a. ac_session a = ll_session l) out = session_accesses (ll_session l) as"
    unfolding same_order_def prod.case tk by auto
  have "\<forall>s \<in> set (ids_of (sessions_of as)). session_accesses s out = session_accesses s as"
    unfolding K(2) [symmetric] using O(5) by (simp add: session_accesses_def)
  then have same: "set out = set as" using same_accesses [OF S(4) _ O(4)] S(3) by simp
  let ?rm1 = "?rm\<lparr>rm_declared := map ac_object out @ drop (length as) (rm_declared ?rm),
    rm_sessions := map ac_session out @ drop (length as) (rm_sessions ?rm)\<rparr>"
  have tko: "take (length as) (rm_declared ?rm1) = map ac_object out" by (simp add: O(4))
  obtain q nx where ch: "chain (map ac_object out) (rm_next ?rm) DISTINCT = (q, nx)" by fastforce
  have "card (set (map ac_object out)) \<le> DISTINCT" using as(3) same by simp
  then have c: "q = Inr ()" "chained (map ac_object out) nx" "length nx = ACCESSES"
    using chain_spec [of "map ac_object out" "rm_next ?rm" DISTINCT] ch O(4) as(2) R by (auto simp: ACCESSES_def split: sum.splits)
  let ?rm2 = "?rm1\<lparr>rm_next := nx\<rparr>"
  let ?L' = "with_buffers ?rm2 (lanes_took B' (with_buffers ?rm1 ?La))"
  have run: "ordered pick st as L = Some (Inr (length as), ?L')"
    unfolding ordered_def en prod.case Let_def using O(1,3) R ch c(1) tko by simp
  have "quiet ?n (fold (\<lambda>(l, worst). took (ll_session l) worst) (zip (lb_lanes B') (lb_worst B')) (sessions_of as))"
    by (rule quiet_fold [OF S(2)])
  then have "ready ?n M out ?L'"
    using R c as(2) O(4) by (auto simp: ready_def with_buffers_def lanes_took_def buffers_ok_def)
  then show ?thesis using O(2,4) same run by blast
qed

section \<open>The replay itself\<close>

text \<open>The simulator's figures in the shape the kernel reports them; the budget is the arena's size.\<close>

definition figures :: "nat \<Rightarrow> outcome \<Rightarrow> replayed" where
  "figures budget ou =
     \<lparr>rd_hits = ou_hits ou, rd_reads = ou_reads ou, rd_bytes = ou_bytes ou, rd_evicted = ou_evicted ou,
      rd_refused = ou_refused ou, rd_headline = outcome_headline ou budget\<rparr>"

lemma played:
  assumes st: "in_step 0 ru0 0 M (resident_new (arena_new base (replicate limit 0))) outcome_default" "ru_model ru0 = decode_meta"
    and room: "roomy (ac_object ` set out) M" and p: "choice name = Some p"
    and L: "ready (card (ac_session ` set out)) (M\<lparr>mg_policy := p\<rparr>) out L"
    and out: "few_sessions out" "length out \<le> ACCESSES" "\<forall>a \<in> set out. decode_meta (ac_object a) \<noteq> None"
  shows "\<exists>L' ou. lab_play (length out) L = (Inr (figures limit ou), L') \<and>
    replay base \<lparr>tr_header = h, tr_accesses = out\<rparr> decode_meta limit (sim_policy p) = Some ou"
proof -
  let ?r = "resident_new (arena_new base (replicate limit 0))" and ?n = "card (ac_session ` set out)"
  let ?objects = "map ac_object out" and ?out0 = "outcome_default\<lparr>ou_sessions := ?n\<rparr>"
  have small: "length out < 2 ^ 32 - 1" using out(2) by (simp add: ACCESSES_def)
  then obtain seen where F: "foresight_read out = Some seen" "chained ?objects seen" "length seen = length out"
    using foresight_chained [of out] by auto
  define ru where "ru = \<lparr>ru_model = decode_meta, ru_policy = sim_policy p, ru_seen = seen\<rparr>"
  obtain ss stream where S: "lab_manager L = Some (M\<lparr>mg_policy := p, mg_sessions := ss, mg_stream := stream\<rparr>)" "quiet ?n ss"
    using L unfolding ready_def by auto
  let ?rm = "lab_buffers L"
  have B: "take (length out) (rm_declared ?rm) = ?objects" "take (length out) (rm_sessions ?rm) = map ac_session out"
    "chained ?objects (rm_next ?rm)" "length out \<le> length (rm_next ?rm)" using L unfolding ready_def by blast+
  let ?stream = "stream\<lparr>st_declared := ?objects, st_next := rm_next ?rm, st_cursor := 0\<rparr>"
  let ?M = "M\<lparr>mg_policy := p, mg_sessions := ss, mg_stream := ?stream\<rparr>"
  have "in_step 0 ru 0 (M\<lparr>mg_policy := p\<rparr>) ?r outcome_default"
    by (rule in_step_chosen [OF st(1) p]) (simp_all add: ru_def st(2))
  then have "in_step ?n ru 0 (M\<lparr>mg_policy := p, mg_sessions := ss\<rparr>) ?r ?out0"
    by (rule in_step_adopted [OF _ _ S(2)]) (simp add: resident_new_def)
  then have start: "in_step ?n ru 0 ?M ?r ?out0" by (simp only: in_step_stream)
  have rm: "roomy (set ?objects) ?M" using room by (simp add: roomy_def tidy_def tiered_def)
  have ag: "agrees replayed_default ?out0" by (simp add: agrees_def replayed_default_def outcome_default_def)
  have known: "\<forall>i \<in> set ?objects. decode_meta i \<noteq> None" using out(3) by simp
  have "\<exists>rd' M' r' out'. lab_steps (map (\<lambda>a. (ac_object a, ac_session a)) out) replayed_default (Some ?M) = (rd', Some M') \<and>
    replay_loop ru 0 out ?r ?out0 = Some (r', out') \<and> in_step ?n ru (0 + length out) M' r' out' \<and> agrees rd' out' \<and>
    mg_capacity M' = mg_capacity ?M \<and> ou_sessions out' = ou_sessions ?out0"
    by (rule trace_parity [OF start rm _ ag, where earlier = "[]"])
      (use F B small known in \<open>simp_all add: ru_def\<close>)
  then obtain rd' M' r' out' where T:
    "lab_steps (map (\<lambda>a. (ac_object a, ac_session a)) out) replayed_default (Some ?M) = (rd', Some M')"
    "replay_loop ru 0 out ?r ?out0 = Some (r', out')" "in_step ?n ru (length out) M' r' out'" "agrees rd' out'"
    "ou_sessions out' = ?n" by auto
  let ?o = "out'\<lparr>ou_kv_resident := held_of KvBlock r'\<rparr>"
  have "resident_inv ?r" "counted 0 ?r ?out0" using start by (simp_all add: in_step_def)
  from replay_loop_spec [OF this, of out ru] small T(2) decode_meta_ok
  have "length (ar_bytes (re_arena r')) = limit" by (auto simp: ru_def resident_new_def arena_new_def)
  then have len: "length (ar_bytes (mg_arena M')) = limit" using T(3) by (simp add: in_step_def matched_def alike_def)
  have "?n \<le> umax 32" using out(1) by (simp add: few_sessions_def MAX_SESSIONS_def)
  from headline_parity [OF T(3) _ T(5) this] small have hl: "mgr_headline M' = outcome_headline ?o limit" by (simp add: len)
  have "rd'\<lparr>rd_headline := mgr_headline M'\<rparr> = figures limit ?o"
    using T(4) by (cases rd') (simp add: figures_def agrees_def hl)
  moreover have "zip ?objects (map ac_session out) = map (\<lambda>a. (ac_object a, ac_session a)) out"
    by (simp add: zip_map_map zip_same_conv_map)
  ultimately have play: "\<exists>L'. lab_play (length out) L = (Inr (figures limit ?o), L')"
    using S(1) B T(1) by (simp add: lab_play_def Let_def stream_declare_def)
  have "fst (adopt_each (map ac_session out) contract_none (sessions_empty MAX_SESSIONS)) = ?n"
    using sessions_of_spec(1) [OF out(1)] by simp
  then have "replay base \<lparr>tr_header = h, tr_accesses = out\<rparr> decode_meta limit (sim_policy p) = Some ?o"
    using F(1) T(2) by (simp add: replay_def replay_ends_def Let_def ru_def)
  with play show ?thesis by blast
qed

end
