(* ===== verification/LabProps.thy ===== *)
theory LabProps
  imports LabPlay
begin

text \<open>
  crates/mlos-lab against the host tools: the whole of \<open>register\<close>, \<open>choose\<close> and \<open>replay\<close> on a disk that holds
  a trace, and the host's merge and simulation of the same trace.
\<close>

section \<open>The two runs\<close>

definition kernel_run ::
  "bool \<Rightarrow> string \<Rightarrow> nat \<Rightarrow> u8 list \<Rightarrow> device option \<Rightarrow> nat \<Rightarrow> lab \<Rightarrow> replayed res option" where
  "kernel_run parameter name base bytes disk budget L =
     (case lab_register base bytes disk budget L of
        (Inl e, _) \<Rightarrow> Some (Inl e)
      | (Inr _, L) \<Rightarrow>
          (case lab_choose name L of
             (False, _) \<Rightarrow> Some (Inl BadObject)
           | (True, L) \<Rightarrow> map_option fst (lab_replay parameter disk L)))"

definition host_merge :: "bool \<Rightarrow> lane list \<Rightarrow> (access list \<times> nat list) option" where
  "host_merge parameter lanes =
     (if parameter then merge_timed parameter_pick () lanes else merge_timed process_pick process_major_default lanes)"

definition host_run ::
  "bool \<Rightarrow> nat \<Rightarrow> trace_header \<Rightarrow> access list \<Rightarrow> nat \<Rightarrow> policy option \<Rightarrow> outcome option" where
  "host_run parameter base h as budget p =
     (case host_merge parameter (host_lanes (tile 0 0) as (kernel_lanes as)) of
        None \<Rightarrow> None
      | Some (out, _) \<Rightarrow> replay base \<lparr>tr_header = h, tr_accesses = out\<rparr> decode_meta budget (sim_policy p))"

text \<open>A trace the kernel has room for, of objects the model knows.\<close>

definition replayable :: "access list \<Rightarrow> bool" where
  "replayable as \<longleftrightarrow>
     few_sessions as \<and> length as \<le> ACCESSES \<and>
     (\<forall>a \<in> set as. decode_meta (ac_object a) \<noteq> None \<and> ac_session a \<le> umax 16) \<and>
     card (fst ` set (model_entries True) \<union> ac_object ` set as) \<le> CAPACITY_LAB"

definition trace_on_disk :: "device \<Rightarrow> trace_header \<Rightarrow> access list \<Rightarrow> bool" where
  "trace_on_disk dev h as \<longleftrightarrow>
     disk_serves dev \<and> header_ok (th_model h) \<and> header_ok (th_source h) \<and> ascii (th_model h) \<and> ascii (th_source h) \<and>
     next_multiple_of SECTOR (HEADER + length (trace_render h as)) \<le> TEXT \<and>
     disk_holds dev (TRACE_AT * SECTOR) (trace_image (trace_render h as))"

lemma ascii_append: "ascii (s @ t) \<longleftrightarrow> ascii s \<and> ascii t"
  by (auto simp: ascii_def)

lemma ascii_alnum: "\<forall>c \<in> set s. is_alnum c \<Longrightarrow> ascii s"
  by (force simp: ascii_def is_alnum_def)

lemma ascii_lines: "ascii (concat (map access_line as))"
proof (induction as)
  case (Cons a as)
  have "ascii (decimal (ac_session a))" "ascii (hex_digits 16 (unat (ac_object a)))"
    using decimal_alnum hex_digits_alnum ascii_alnum by blast+
  moreover have "ascii '' ''" "ascii [newline]" by (simp_all add: ascii_def newline_def)
  ultimately show ?case using Cons by (simp add: access_line_def ascii_append del: append_Cons append_Nil)
qed (simp add: ascii_def)

lemma ascii_render: "ascii (th_model h) \<Longrightarrow> ascii (th_source h) \<Longrightarrow> ascii (trace_render h as)"
proof -
  assume h: "ascii (th_model h)" "ascii (th_source h)"
  have n: "ascii (decimal n)" for n using decimal_alnum ascii_alnum by blast
  have "ascii MAGIC" "ascii '' ''" "ascii [newline]" "ascii ''model ''" "ascii ''source ''" "ascii ''accesses ''"
    by (simp_all add: ascii_def newline_def MAGIC_def)
  then show ?thesis unfolding trace_render_def ascii_append using h n ascii_lines by blast
qed

lemma prepare_trace:
  assumes "trace_on_disk dev h as" "replayable as" "buffers_ok (lab_buffers L)"
  shows "prepare pick st (Some dev) L = ordered pick st as L"
proof -
  note T = assms(1) [unfolded trace_on_disk_def] and R = assms(2) [unfolded replayable_def] and B = assms(3) [unfolded buffers_ok_def]
  have "lab_read (Some dev) TEXT = Some (Inr (trace_render h as))"
    by (rule lab_read_image) (use T ascii_render in \<open>simp_all add: TEXT_def\<close>)
  moreover have "trace_parse (trace_render h as) ACCESSES = Inr \<lparr>tr_header = h, tr_accesses = as\<rparr>"
    by (subst parse_render) (use T R in \<open>auto simp: ACCESSES_def\<close>)
  ultimately show ?thesis using B by (simp add: prepare_def)
qed

lemma replay_as_host:
  assumes pick: "scheduler pick" and rm: "buffers_ok (lab_buffers L)"
    and M: "lab_manager L = Some (M\<lparr>mg_policy := p\<rparr>)" "mg_sessions M = sessions_empty MAX_SESSIONS"
    and st: "in_step 0 ru0 0 M (resident_new (arena_new base (replicate limit 0))) outcome_default" "ru_model ru0 = decode_meta"
    and room: "roomy (ac_object ` set as) M" and p: "choice name = Some p"
    and as: "trace_on_disk dev h as" "replayable as"
  shows "\<exists>out worst ou. merge_timed pick s (host_lanes (tile 0 0) as (kernel_lanes as)) = Some (out, worst) \<and>
    replay base \<lparr>tr_header = h, tr_accesses = out\<rparr> decode_meta limit (sim_policy p) = Some ou \<and>
    map_option fst (lab_replay_with pick s (Some dev) L) = Some (Inr (figures limit ou))"
proof -
  note R = as(2) [unfolded replayable_def]
  have "card (ac_object ` set as) \<le> card (fst ` set (model_entries True) \<union> ac_object ` set as)" by (rule card_mono) auto
  then have d: "card (ac_object ` set as) \<le> DISTINCT" using R by (simp add: DISTINCT_def CAPACITY_LAB_def)
  have ss: "mg_sessions (M\<lparr>mg_policy := p\<rparr>) = sessions_empty MAX_SESSIONS" using M(2) by simp
  have few: "few_sessions as" "length as \<le> ACCESSES" using R by blast+
  from ordered_ready [OF pick rm M(1) ss few d, of s] obtain out worst L' where
    O: "merge_timed pick s (host_lanes (tile 0 0) as (kernel_lanes as)) = Some (out, worst)" "length out = length as"
      "set out = set as" "ordered pick s as L = Some (Inr (length as), L')"
      "ready (card (ac_session ` set as)) (M\<lparr>mg_policy := p\<rparr>) out L'" by blast
  have fo: "few_sessions out" "length out \<le> ACCESSES" "\<forall>a \<in> set out. decode_meta (ac_object a) \<noteq> None"
    using R O(2,3) by (simp_all add: few_sessions_def)
  have ro: "roomy (ac_object ` set out) M" "ready (card (ac_session ` set out)) (M\<lparr>mg_policy := p\<rparr>) out L'"
    using room O(3,5) by simp_all
  from played [OF st ro(1) p ro(2) fo, of h] obtain L'' ou where
    P: "lab_play (length out) L' = (Inr (figures limit ou), L'')"
      "replay base \<lparr>tr_header = h, tr_accesses = out\<rparr> decode_meta limit (sim_policy p) = Some ou" by blast
  have "lab_replay_with pick s (Some dev) L = Some (lab_play (length out) L')"
    using prepare_trace [OF as rm, of pick s] O(2,4) by (simp add: lab_replay_with_def)
  then show ?thesis using O(1) P by simp
qed

lemma counts_same:
  assumes rm: "buffers_ok (lab_buffers L)"
    and addr: "length bytes = ARENA_BYTES" "0 < base" "base + ARENA_BYTES < 2 ^ 64" "base' + ARENA_BYTES < 2 ^ 64"
    and as: "trace_on_disk dev h as" "replayable as" and p: "choice name = Some p"
  shows "\<exists>ou. host_run parameter base' h as (clamp TILE_BYTES ARENA_BYTES budget) p = Some ou \<and>
    kernel_run parameter name base bytes (Some dev) budget L = Some (Inr (figures (clamp TILE_BYTES ARENA_BYTES budget) ou))"
proof -
  let ?l = "clamp TILE_BYTES ARENA_BYTES budget" and ?ru = "\<lparr>ru_model = decode_meta, ru_policy = Demand, ru_seen = []\<rparr>"
  have tb: "TILE_BYTES \<le> length bytes" using addr(1) by (simp add: TILE_BYTES_def ARENA_BYTES_def)
  have a: "base + length bytes < 2 ^ 64" "base' + length bytes < 2 ^ 64" using addr by simp_all
  have d: "case Some dev of None \<Rightarrow> True | Some dev \<Rightarrow> disk_serves dev" using as(1) by (simp add: trace_on_disk_def)
  have c: "card (fst ` set (model_entries (Some dev \<noteq> None)) \<union> ac_object ` set as) \<le> CAPACITY_LAB"
    using as(2) by (simp add: replayable_def)
  from lab_registered [OF addr(2) a tb d, where ru = ?ru and ids = "ac_object ` set as" and budget = budget and L = L] c
  obtain M rep where R: "lab_register base bytes (Some dev) budget L = (Inr rep, L\<lparr>lab_manager := Some M\<rparr>)"
    "in_step 0 ?ru 0 M (resident_new (arena_new base' (replicate ?l 0))) outcome_default"
    "roomy (ac_object ` set as) M" "mg_sessions M = sessions_empty MAX_SESSIONS" unfolding addr(1) by auto
  let ?L = "L\<lparr>lab_manager := Some (M\<lparr>mg_policy := p\<rparr>)\<rparr>"
  have ch: "lab_choose name (L\<lparr>lab_manager := Some M\<rparr>) = (True, ?L)" using p by (simp add: lab_choose_def)
  have rm': "buffers_ok (lab_buffers ?L)" using rm by simp
  have m: "lab_manager ?L = Some (M\<lparr>mg_policy := p\<rparr>)" "ru_model ?ru = decode_meta" by simp_all
  note H = replay_as_host [OF _ rm' m(1) R(4,2) m(2) R(3) p as]
  have "kernel_run parameter name base bytes (Some dev) budget L = map_option fst (lab_replay parameter (Some dev) ?L)"
    unfolding kernel_run_def R(1) prod.case sum.case ch by simp
  note kr = this lab_replay_def host_run_def host_merge_def
  show ?thesis
  proof (cases parameter)
    case True
    from H [OF parameter.scheduler_axioms, of "()"] show ?thesis unfolding kr if_P [OF True] by auto
  next
    case False
    from H [OF process.scheduler_axioms, of process_major_default] show ?thesis unfolding kr if_not_P [OF False] by auto
  qed
qed

section \<open>Properties\<close>

text \<open>C6: the kernel's replay of a trace on its disk reports what the host computes. Whatever the
  lab was used for before, registering the model, choosing a policy and replaying gives, for both
  schedules, every policy and every budget, the hits, reads, bytes, evictions, refusals and the three
  headline figures of the simulator on the merged trace; neither side panics or fails.\<close>

theorem kernel_counts_as_simulator:
  assumes "buffers_ok (lab_buffers L)" "length bytes = ARENA_BYTES" "0 < base" "base + ARENA_BYTES < 2 ^ 64"
    and "base' + ARENA_BYTES < 2 ^ 64" "trace_on_disk dev h as" "replayable as" "choice name = Some p"
  shows "\<exists>ou. host_run parameter base' h as (clamp TILE_BYTES ARENA_BYTES budget) p = Some ou \<and>
    kernel_run parameter name base bytes (Some dev) budget L = Some (Inr (figures (clamp TILE_BYTES ARENA_BYTES budget) ou))"
  by (rule counts_same [OF assms])

text \<open>A disk that holds the given bytes from a sector on, and nothing else.\<close>

definition disk_of :: "nat \<Rightarrow> u8 list \<Rightarrow> device" where
  "disk_of sector bs = (\<lambda>s. (0, \<lambda>k. let p = s * SECTOR + k in
     if sector * SECTOR \<le> p \<and> p < sector * SECTOR + length bs then bs ! (p - sector * SECTOR) else 0))"

lemma disk_of_byte:
  "disk_byte (disk_of sector bs) p = (if sector * SECTOR \<le> p \<and> p < sector * SECTOR + length bs then bs ! (p - sector * SECTOR) else 0)"
  by (simp add: disk_byte_def disk_of_def Let_def)

lemma disk_of_holds: "disk_holds (disk_of sector bs) (sector * SECTOR) bs" "disk_serves (disk_of sector bs)"
proof -
  have "map (disk_byte (disk_of sector bs)) [sector * SECTOR..<sector * SECTOR + length bs] = bs"
    by (rule nth_equalityI) (simp_all add: disk_of_byte)
  then show "disk_holds (disk_of sector bs) (sector * SECTOR) bs"
    by (simp add: disk_holds_def sector_good_def disk_of_def)
  show "disk_serves (disk_of sector bs)" by (simp add: disk_serves_def sector_good_def disk_of_def)
qed

definition small_trace :: "access list" where
  "small_trace = [\<lparr>ac_session = 4, ac_object = tile 0 0\<rparr>, \<lparr>ac_session = 2, ac_object = tile 0 0\<rparr>, \<lparr>ac_session = 4, ac_object = kv_block 4 0 0\<rparr>]"

definition small_header :: trace_header where
  "small_header = \<lparr>th_model = ''synth-8x16'', th_source = ''lab''\<rparr>"

lemma small_replayable: "replayable small_trace"
proof -
  let ?m = "fst ` set (model_entries True)" and ?o = "ac_object ` set small_trace"
  have "card ?m \<le> length (map fst (model_entries True))" unfolding set_map [symmetric] by (rule card_length)
  also have "\<dots> = 136" unfolding model_ids by (simp add: LAYERS_def TILES_def)
  finally have "card ?m \<le> 136" .
  moreover have "card ?o \<le> 3" unfolding set_map [symmetric] by (rule order_trans [OF card_length]) (simp add: small_trace_def)
  ultimately have "card (?m \<union> ?o) \<le> CAPACITY_LAB" using card_Un_le [of ?m ?o] by (simp add: CAPACITY_LAB_def)
  moreover have "card (ac_session ` set small_trace) \<le> MAX_SESSIONS"
    unfolding set_map [symmetric] by (rule order_trans [OF card_length]) (simp add: small_trace_def MAX_SESSIONS_def)
  moreover have "0 \<notin> ac_session ` set small_trace" "length small_trace \<le> ACCESSES"
    "\<forall>a \<in> set small_trace. decode_meta (ac_object a) \<noteq> None \<and> ac_session a \<le> umax 16"
    by (simp_all add: small_trace_def ACCESSES_def decode_meta_def tile_def kv_block_def)
  ultimately show ?thesis unfolding replayable_def few_sessions_def by blast
qed

lemma small_length: "length (trace_render small_header small_trace) \<le> 1000"
  by (simp add: trace_render_def small_header_def small_trace_def access_line_def hex_digits_alnum decimal.simps MAGIC_def TRACE_VERSION_def)

lemma small_on_disk:
  "trace_on_disk (disk_of TRACE_AT (trace_image (trace_render small_header small_trace))) small_header small_trace"
proof -
  have "next_multiple_of SECTOR (HEADER + length (trace_render small_header small_trace)) \<le> TEXT"
  proof -
    have "next_multiple_of SECTOR n \<le> n + SECTOR" for n by (simp add: next_multiple_of_def SECTOR_def)
    from this [of "HEADER + length (trace_render small_header small_trace)"] show ?thesis
      using small_length by (simp add: HEADER_def TEXT_def SECTOR_def)
  qed
  moreover have "header_ok (th_model small_header)" "header_ok (th_source small_header)" "ascii (th_model small_header)" "ascii (th_source small_header)"
    by (simp_all add: small_header_def header_ok_def newline_def is_space_def ascii_def)
  ultimately show ?thesis using disk_of_holds by (simp add: trace_on_disk_def)
qed

lemma start_buffers: "buffers_ok (lab_buffers lab_start)"
  by (simp add: buffers_ok_def lab_start_def replay_room_def)

lemma kernel_counts_as_simulator_witness:
  "\<exists>ou. host_run False 0 small_header small_trace (clamp TILE_BYTES ARENA_BYTES 3072) (Some (oldest_policy LRU)) = Some ou \<and>
     kernel_run False ''lru'' 4096 (replicate ARENA_BYTES 0) (Some (disk_of TRACE_AT (trace_image (trace_render small_header small_trace)))) 3072
       lab_start = Some (Inr (figures (clamp TILE_BYTES ARENA_BYTES 3072) ou))"
  by (rule kernel_counts_as_simulator [OF start_buffers _ _ _ _ small_on_disk small_replayable])
    (simp_all add: ARENA_BYTES_def choice_def)

end
