(* ===== verification/Layout.thy ===== *)
theory Layout
  imports Trace "HOL-Library.Product_Lexorder"
begin

text \<open>
  crates/mlos-layout: the layout document. Regions of a space are sorted and closed up so that they
  tile it; the document is rendered one column per line; the validator reads the columns back out
  of the text and checks that they are aligned, that ids are unique, and that regions tile their
  spaces. Error messages are reduced to what they name.
\<close>

section \<open>The document (lib.rs)\<close>

definition SCHEMA :: string where "SCHEMA = ''sw-ml-study.system-layout''"
definition LAYOUT_VERSION :: nat where "LAYOUT_VERSION = 1"

record lay_space =
  sp_key :: string
  sp_name :: string
  sp_block :: nat
  sp_capacity :: nat

record lay_region =
  lr_id :: nat
  lr_space :: string
  lr_kind :: string
  lr_name :: string
  lr_owner :: string
  lr_start :: nat
  lr_length :: nat
  lr_tier :: string
  lr_object :: string
  lr_state :: string
  lr_reuse :: nat
  lr_cost :: nat
  lr_next_use :: string

record edge =
  ed_kind :: string
  ed_from :: nat
  ed_to :: nat

record doc =
  dc_spaces :: "lay_space list"
  dc_regions :: "lay_region list"
  dc_edges :: "edge list"

section \<open>Filling (fill.rs)\<close>

datatype fill_error = Overlaps string nat | PastCapacity nat

text \<open>\<open>{:#x}\<close>.\<close>

function hex :: "nat \<Rightarrow> string" where
  "hex n = (if n < 16 then [digit_char n] else hex (n div 16) @ [digit_char (n mod 16)])"
  by pat_completeness auto
termination by (relation "measure (\<lambda>n. n)") auto

declare hex.simps [simp del]

text \<open>An iterator of ids is a function from how many were taken to the next, if there is one.\<close>

type_synonym ids = "nat \<Rightarrow> nat option"

definition gap :: "string \<Rightarrow> ids \<Rightarrow> nat \<Rightarrow> nat \<Rightarrow> nat \<Rightarrow> string \<Rightarrow> lay_region" where
  "gap space ids k start len kind =
     \<lparr>lr_id = (case ids k of Some i \<Rightarrow> i | None \<Rightarrow> 0), lr_space = space, lr_kind = kind,
      lr_name = kind @ '' at 0x'' @ hex start, lr_owner = [], lr_start = start, lr_length = len,
      lr_tier = [], lr_object = [], lr_state = ''fixed'', lr_reuse = 0, lr_cost = 0, lr_next_use = []\<rparr>"

definition overlap :: "lay_region \<Rightarrow> nat \<Rightarrow> fill_error option" where
  "overlap r at = (if at \<le> lr_start r then None else Some (Overlaps (lr_name r) (lr_start r)))"

fun fill_loop ::
  "string \<Rightarrow> ids \<Rightarrow> lay_region list \<Rightarrow> nat \<Rightarrow> nat \<Rightarrow> lay_region list \<Rightarrow> fill_error + nat \<times> nat \<times> lay_region list" where
  "fill_loop space ids [] k at tiled = Inr (k, at, tiled)"
| "fill_loop space ids (r # rs) k at tiled =
     (case overlap r at of
        Some e \<Rightarrow> Inl e
      | None \<Rightarrow>
          let after = sat_add 64 (lr_start r) (lr_length r) in
          if at < lr_start r
          then fill_loop space ids rs (k + 1) after
                 (tiled @ [gap space ids k at (lr_start r - at) ''padding'', r])
          else fill_loop space ids rs k after (tiled @ [r]))"

definition fill_tail ::
  "string \<Rightarrow> nat \<Rightarrow> ids \<Rightarrow> nat \<times> nat \<times> lay_region list \<Rightarrow> fill_error + lay_region list" where
  "fill_tail space capacity ids t =
     (case t of (k, at, tiled) \<Rightarrow>
        if capacity < at then Inl (PastCapacity at)
        else if at < capacity then Inr (tiled @ [gap space ids k at (capacity - at) ''free''])
        else Inr tiled)"

text \<open>The regions left in the caller's vector: the tiling, or none when the loop was left early
  (draining had emptied the vector).\<close>

definition fill :: "string \<Rightarrow> nat \<Rightarrow> ids \<Rightarrow> nat \<Rightarrow> lay_region list \<Rightarrow> (fill_error + unit) \<times> lay_region list" where
  "fill space capacity ids k regions =
     (case fill_loop space ids (sort_key lr_start regions) k 0 [] of
        Inl e \<Rightarrow> (Inl e, [])
      | Inr t \<Rightarrow>
          (case fill_tail space capacity ids t of
             Inl e \<Rightarrow> (Inl e, [])
           | Inr tiled \<Rightarrow> (Inr (), tiled)))"

section \<open>Rendering (render.rs)\<close>

definition json_char :: "char \<Rightarrow> string" where
  "json_char c =
     (if c = CHR 0x22 then [CHR 0x5C, CHR 0x22]
      else if c = CHR 0x5C then [CHR 0x5C, CHR 0x5C]
      else if c = CHR 0x0A then [CHR 0x5C, CHR ''n'']
      else if c = CHR 0x09 then [CHR 0x5C, CHR ''t'']
      else if c = CHR 0x0D then [CHR 0x5C, CHR ''r'']
      else if (of_char c :: nat) < 32 then [CHR 0x5C, CHR ''u''] @ hex_digits 4 (of_char c)
      else [c])"

definition json_quoted :: "string \<Rightarrow> string" where
  "json_quoted s = CHR 0x22 # concat (map json_char s) @ [CHR 0x22]"

fun join :: "string \<Rightarrow> string list \<Rightarrow> string" where
  "join sep [] = []"
| "join sep [s] = s"
| "join sep (s # t # ss) = s @ sep @ join sep (t # ss)"

definition column :: "string \<times> string list \<Rightarrow> string" where
  "column c = '' '' @ '' '' @ [CHR 0x22] @ fst c @ [CHR 0x22] @ '': ['' @ join '', '' (snd c) @ ''],'' @ [newline]"

definition SPACE_TEXT :: "(string \<times> (lay_space \<Rightarrow> string)) list" where
  "SPACE_TEXT = [(''spaces'', sp_key), (''space_name'', sp_name)]"

definition SPACE_NUMS :: "(string \<times> (lay_space \<Rightarrow> nat)) list" where
  "SPACE_NUMS = [(''space_block'', sp_block), (''space_capacity'', sp_capacity)]"

definition REGION_TEXT :: "(string \<times> (lay_region \<Rightarrow> string)) list" where
  "REGION_TEXT =
     [(''region_space'', lr_space), (''region_kind'', lr_kind), (''region_name'', lr_name),
      (''region_owner'', lr_owner), (''region_tier'', lr_tier), (''region_object_id'', lr_object),
      (''region_state'', lr_state), (''region_next_use'', lr_next_use)]"

definition REGION_NUMS :: "(string \<times> (lay_region \<Rightarrow> nat)) list" where
  "REGION_NUMS =
     [(''region_id'', lr_id), (''region_start'', lr_start), (''region_length'', lr_length),
      (''region_text_words'', \<lambda>_. 0), (''region_data_words'', \<lambda>_. 0), (''region_bss_words'', \<lambda>_. 0),
      (''region_reuse'', lr_reuse), (''region_cost'', lr_cost)]"

definition text_columns :: "(string \<times> ('a \<Rightarrow> string)) list \<Rightarrow> 'a list \<Rightarrow> (string \<times> string list) list" where
  "text_columns cols rows = map (\<lambda>(name, get). (name, map (\<lambda>row. json_quoted (get row)) rows)) cols"

definition nums_columns :: "(string \<times> ('a \<Rightarrow> nat)) list \<Rightarrow> 'a list \<Rightarrow> (string \<times> string list) list" where
  "nums_columns cols rows = map (\<lambda>(name, get). (name, map (\<lambda>row. decimal (get row)) rows)) cols"

definition edge_columns :: "doc \<Rightarrow> (string \<times> string list) list" where
  "edge_columns d =
     [(''rel_kind'', map (\<lambda>e. json_quoted (ed_kind e)) (dc_edges d)),
      (''rel_from'', map (\<lambda>e. decimal (ed_from e)) (dc_edges d)),
      (''rel_to'', map (\<lambda>e. decimal (ed_to e)) (dc_edges d))]"

definition doc_header :: "string \<Rightarrow> string \<Rightarrow> string" where
  "doc_header producer revision =
     ''{'' @ [newline] @ '' '' @ '' '' @ json_quoted ''schema'' @ '': '' @ json_quoted SCHEMA @ '','' @ [newline] @
     '' '' @ '' '' @ json_quoted ''version'' @ '': '' @ decimal LAYOUT_VERSION @ '','' @ [newline] @
     '' '' @ '' '' @ json_quoted ''provenance'' @ '': { '' @ json_quoted ''producer'' @ '': '' @ json_quoted producer @
     '', '' @ json_quoted ''revision'' @ '': '' @ json_quoted revision @ '' },'' @ [newline, newline]"

definition trim_end_of :: "char set \<Rightarrow> string \<Rightarrow> string" where
  "trim_end_of cs s = rev (dropWhile (\<lambda>c. c \<in> cs) (rev s))"

definition doc_render :: "doc \<Rightarrow> string \<Rightarrow> string \<Rightarrow> string" where
  "doc_render d producer revision =
     (let out = doc_header producer revision @
            concat (map column (text_columns SPACE_TEXT (dc_spaces d))) @
            concat (map column (nums_columns SPACE_NUMS (dc_spaces d))) @ [newline] @
            concat (map column (nums_columns REGION_NUMS (dc_regions d))) @
            concat (map column (text_columns REGION_TEXT (dc_regions d))) @ [newline] @
            concat (map column (edge_columns d))
      in take (length (trim_end_of {CHR '',''} (trim_end out))) out @ [newline] @ ''}'' @ [newline])"

section \<open>Columns back out (read.rs)\<close>

type_synonym columns = "(string \<times> string list) list"

datatype invalid =
  NoSchema | Missing string | NotANumber string | Misaligned string | DuplicateId | ZeroId
| LooseEdges nat | Uncovered string nat nat | CoveredTo string nat nat

function split_items :: "string \<Rightarrow> string \<Rightarrow> string list" where
  "split_items cur [] = [cur]"
| "split_items cur (c # cs) =
     (if c = CHR '','' \<and> cs \<noteq> [] \<and> hd cs = CHR '' '' then cur # split_items [] (tl cs)
      else split_items (cur @ [c]) cs)"
  by pat_completeness auto
termination by (relation "measure (\<lambda>(_, s). length s)") auto

definition read_column :: "string \<Rightarrow> (string \<times> string list) option" where
  "read_column l =
     (let key = CHR 0x22 # '': ['' ; line = trim l in
      case after_sub key line of
        None \<Rightarrow> None
      | Some rest \<Rightarrow>
          (let name = before_sub key line;
               items = trim_end_of {CHR '','', CHR '']''} (trim_end rest);
               vals = (if items = [] then [] else split_items [] items) in
           Some (dropWhile (\<lambda>c. c = CHR 0x22) name, vals)))"

definition columns_read :: "string \<Rightarrow> columns" where
  "columns_read t = List.map_filter read_column (text_lines t)"

definition columns_raw :: "columns \<Rightarrow> string \<Rightarrow> invalid + string list" where
  "columns_raw cols name =
     (case find (\<lambda>(key, _). key = name) cols of
        None \<Rightarrow> Inl (Missing name)
      | Some (_, vals) \<Rightarrow> Inr vals)"

fun all_numbers :: "string \<Rightarrow> string list \<Rightarrow> invalid + nat list" where
  "all_numbers name [] = Inr []"
| "all_numbers name (s # ss) =
     (case parse_uint 10 (umax 64) s of
        None \<Rightarrow> Inl (NotANumber name)
      | Some n \<Rightarrow> (case all_numbers name ss of Inl e \<Rightarrow> Inl e | Inr ns \<Rightarrow> Inr (n # ns)))"

definition columns_numbers :: "columns \<Rightarrow> string \<Rightarrow> invalid + nat list" where
  "columns_numbers cols name =
     (case columns_raw cols name of Inl e \<Rightarrow> Inl e | Inr ss \<Rightarrow> all_numbers name ss)"

definition trim_quotes :: "string \<Rightarrow> string" where
  "trim_quotes s = trim_end_of {CHR 0x22} (dropWhile (\<lambda>c. c = CHR 0x22) s)"

definition columns_strings :: "columns \<Rightarrow> string \<Rightarrow> invalid + string list" where
  "columns_strings cols name = map_sum id (map trim_quotes) (columns_raw cols name)"

section \<open>Validating (valid.rs)\<close>

definition REQUIRED :: "string list" where
  "REQUIRED =
     [''spaces'', ''space_name'', ''space_block'', ''space_capacity'', ''region_id'', ''region_space'',
      ''region_kind'', ''region_name'', ''region_owner'', ''region_start'', ''region_length'',
      ''region_text_words'', ''region_data_words'', ''region_bss_words'', ''rel_kind'', ''rel_from'', ''rel_to'']"

fun first_missing :: "columns \<Rightarrow> string list \<Rightarrow> invalid option" where
  "first_missing cols [] = None"
| "first_missing cols (n # ns) =
     (case columns_strings cols n of Inl e \<Rightarrow> Some e | Inr _ \<Rightarrow> first_missing cols ns)"

definition group_size :: "nat \<Rightarrow> nat \<Rightarrow> nat \<Rightarrow> string \<Rightarrow> nat" where
  "group_size regions spaces edges name =
     (let prefix = takeWhile (\<lambda>c. c \<noteq> CHR ''_'') name in
      if prefix = ''region'' then regions
      else if prefix = ''spaces'' \<or> prefix = ''space'' then spaces else edges)"

definition check_aligned :: "columns \<Rightarrow> invalid option" where
  "check_aligned cols =
     (case (columns_strings cols ''region_id'', columns_strings cols ''spaces'', columns_strings cols ''rel_kind'') of
        (Inr regions, Inr spaces, Inr edges) \<Rightarrow>
          map_option (\<lambda>(name, _). Misaligned name)
            (find (\<lambda>(name, vals). length vals \<noteq> group_size (length regions) (length spaces) (length edges) name) cols)
      | (Inl e, _, _) \<Rightarrow> Some e
      | (_, Inl e, _) \<Rightarrow> Some e
      | (_, _, Inl e) \<Rightarrow> Some e)"

definition check_refs :: "columns \<Rightarrow> invalid option" where
  "check_refs cols =
     (case columns_numbers cols ''region_id'' of
        Inl e \<Rightarrow> Some e
      | Inr ids \<Rightarrow>
          if \<not> distinct ids then Some DuplicateId
          else if 0 \<in> set ids then Some ZeroId
          else (case (columns_numbers cols ''rel_from'', columns_numbers cols ''rel_to'') of
                  (Inl e, _) \<Rightarrow> Some e
                | (_, Inl e) \<Rightarrow> Some e
                | (Inr from_ends, Inr to_ends) \<Rightarrow>
                    (let loose = length (filter (\<lambda>i. i \<notin> set ids) (from_ends @ to_ends)) in
                     if loose = 0 then None else Some (LooseEdges loose))))"

fun cover :: "string \<Rightarrow> nat \<Rightarrow> (nat \<times> nat) list \<Rightarrow> invalid + nat" where
  "cover key at [] = Inr at"
| "cover key at ((start, len) # es) =
     (if start = at then cover key (wrap 64 (at + len)) es else Inl (Uncovered key at start))"

definition extents_of :: "string \<Rightarrow> string list \<Rightarrow> nat list \<Rightarrow> nat list \<Rightarrow> (nat \<times> nat) list" where
  "extents_of key space start len =
     sort (map (\<lambda>k. (start ! k, len ! k)) (filter (\<lambda>k. space ! k = key) [0..<length space]))"

fun check_spaces :: "(string \<times> nat) list \<Rightarrow> string list \<Rightarrow> nat list \<Rightarrow> nat list \<Rightarrow> invalid option" where
  "check_spaces [] space start len = None"
| "check_spaces ((key, capacity) # ks) space start len =
     (case cover key 0 (extents_of key space start len) of
        Inl e \<Rightarrow> Some e
      | Inr covered \<Rightarrow>
          if covered \<noteq> capacity then Some (CoveredTo key covered capacity)
          else check_spaces ks space start len)"

definition check_tiles :: "columns \<Rightarrow> invalid option" where
  "check_tiles cols =
     (case (columns_strings cols ''region_space'', columns_numbers cols ''region_start'',
            columns_numbers cols ''region_length'', columns_strings cols ''spaces'',
            columns_numbers cols ''space_capacity'') of
        (Inr space, Inr start, Inr len, Inr keys, Inr capacities) \<Rightarrow>
          check_spaces (zip keys capacities) space start len
      | (Inl e, _, _, _, _) \<Rightarrow> Some e
      | (_, Inl e, _, _, _) \<Rightarrow> Some e
      | (_, _, Inl e, _, _) \<Rightarrow> Some e
      | (_, _, _, Inl e, _) \<Rightarrow> Some e
      | (_, _, _, _, Inl e) \<Rightarrow> Some e)"

definition check_columns :: "columns \<Rightarrow> invalid option" where
  "check_columns cols =
     (case first_missing cols REQUIRED of
        Some e \<Rightarrow> Some e
      | None \<Rightarrow>
          (case check_aligned cols of
             Some e \<Rightarrow> Some e
           | None \<Rightarrow> (case check_refs cols of Some e \<Rightarrow> Some e | None \<Rightarrow> check_tiles cols)))"

definition validate :: "string \<Rightarrow> invalid option" where
  "validate t = (if \<not> contains t SCHEMA then Some NoSchema else check_columns (columns_read t))"

end
