(* ===== verification/Fdt.thy ===== *)
theory Fdt
  imports Bytes
begin

text \<open>
  crates/mlos-fdt: a reader for the flattened device tree. It walks the structure block and
  reports nodes and properties; whatever the bytes are it ends, with what it saw before the
  damage, and a well-formed blob is reported whole and in order.
\<close>

section \<open>The cursor (cursor.rs)\<close>

text \<open>A cursor is a position in the structure block; reading returns the position after.\<close>

definition cursor_u32 :: "bytes \<Rightarrow> nat \<Rightarrow> (nat \<times> nat) option" where
  "cursor_u32 data p = map_option (\<lambda>n. (n, p + 4)) (be32_at data p)"

definition cursor_bytes :: "bytes \<Rightarrow> nat \<Rightarrow> nat \<Rightarrow> (bytes \<times> nat) option" where
  "cursor_bytes data len p =
     (case checked_add 64 p len of
        None \<Rightarrow> None
      | Some q \<Rightarrow> map_option (\<lambda>v. (v, next_multiple_of 4 q)) (get_range data p q))"

definition cursor_cstr :: "bytes \<Rightarrow> nat \<Rightarrow> (string \<times> nat) option" where
  "cursor_cstr data p =
     (case get_from data p of
        None \<Rightarrow> None
      | Some rest \<Rightarrow>
          (case position (\<lambda>b. b = 0) rest of
             None \<Rightarrow> None
           | Some len \<Rightarrow>
               (case checked_add 64 p (len + 1) of
                  None \<Rightarrow> None
                | Some q \<Rightarrow> map_option (\<lambda>s. (s, next_multiple_of 4 q)) (from_utf8 (take len rest)))))"

section \<open>The header (header.rs)\<close>

definition FDT_MAGIC :: nat where "FDT_MAGIC = 0xd00dfeed"
definition MIN_COMPATIBLE :: nat where "MIN_COMPATIBLE = 16"

record header =
  hd_total_size :: nat
  hd_struct_offset :: nat
  hd_struct_size :: nat
  hd_strings_offset :: nat
  hd_strings_size :: nat

definition header_parse :: "bytes \<Rightarrow> header option" where
  "header_parse blob =
     (case be32_at blob 0 of
        None \<Rightarrow> None
      | Some magic \<Rightarrow>
          if magic \<noteq> FDT_MAGIC then None
          else (case be32_at blob 24 of
                  None \<Rightarrow> None
                | Some compatible \<Rightarrow>
                    if MIN_COMPATIBLE < compatible then None
                    else (case (be32_at blob 4, be32_at blob 8, be32_at blob 36, be32_at blob 12, be32_at blob 32) of
                            (Some whole, Some struct_at, Some struct_len, Some strings_at, Some strings_len) \<Rightarrow>
                              Some \<lparr>hd_total_size = whole, hd_struct_offset = struct_at,
                                    hd_struct_size = struct_len, hd_strings_offset = strings_at,
                                    hd_strings_size = strings_len\<rparr>
                          | _ \<Rightarrow> None)))"

section \<open>The walk (lib.rs)\<close>

definition BEGIN_NODE :: nat where "BEGIN_NODE = 1"
definition END_NODE :: nat where "END_NODE = 2"
definition PROP_TOKEN :: nat where "PROP_TOKEN = 3"
definition NOP :: nat where "NOP = 4"
definition END_TOKEN :: nat where "END_TOKEN = 9"

lemmas token_defs = BEGIN_NODE_def END_NODE_def PROP_TOKEN_def NOP_def END_TOKEN_def

datatype fdt_event = NodeEvent string | EndNodeEvent | PropEvent string bytes

record fdt =
  fd_structs :: bytes
  fd_strings :: bytes

definition fdt_new :: "bytes \<Rightarrow> fdt option" where
  "fdt_new blob =
     (case header_parse blob of
        None \<Rightarrow> None
      | Some h \<Rightarrow>
          (case Option.bind (get_from blob (hd_struct_offset h)) (\<lambda>s. get_to s (hd_struct_size h)) of
             None \<Rightarrow> None
           | Some structs \<Rightarrow>
               (case Option.bind (get_from blob (hd_strings_offset h)) (\<lambda>s. get_to s (hd_strings_size h)) of
                  None \<Rightarrow> None
                | Some strings \<Rightarrow> Some \<lparr>fd_structs = structs, fd_strings = strings\<rparr>)))"

text \<open>Physical memory is a parameter: the byte at each address.\<close>

definition memory_slice :: "(nat \<Rightarrow> u8) \<Rightarrow> nat \<Rightarrow> nat \<Rightarrow> bytes" where
  "memory_slice mem p n = map (\<lambda>k. mem (p + k)) [0..<n]"

definition fdt_from_ptr :: "(nat \<Rightarrow> u8) \<Rightarrow> nat \<Rightarrow> fdt option" where
  "fdt_from_ptr mem p =
     (case header_parse (memory_slice mem p 40) of
        None \<Rightarrow> None
      | Some h \<Rightarrow> fdt_new (memory_slice mem p (hd_total_size h)))"

definition fdt_property :: "fdt \<Rightarrow> nat \<Rightarrow> (fdt_event \<times> nat) option" where
  "fdt_property f p =
     (case cursor_u32 (fd_structs f) p of
        None \<Rightarrow> None
      | Some (len, p1) \<Rightarrow>
          (case cursor_u32 (fd_structs f) p1 of
             None \<Rightarrow> None
           | Some (name_at, p2) \<Rightarrow>
               (case cursor_bytes (fd_structs f) len p2 of
                  None \<Rightarrow> None
                | Some (v, p3) \<Rightarrow>
                    (case get_from (fd_strings f) name_at of
                       None \<Rightarrow> None
                     | Some rest \<Rightarrow>
                         map_option (\<lambda>(name, _). (PropEvent name v, p3)) (from_c_str rest)))))"

lemma cursor_u32_less: "cursor_u32 data p = Some (n, q) \<Longrightarrow> q = p + 4 \<and> q \<le> length data \<and> n < 2 ^ 32"
  using be32_at_less [of data p n] by (auto simp: cursor_u32_def be32_at_def get_range_def split: if_splits)

lemma cursor_bytes_after: "cursor_bytes data len p = Some (v, q) \<Longrightarrow> p \<le> q"
  using next_multiple_of_ge [of "p + len" 4]
  by (auto simp: cursor_bytes_def checked_add_def split: if_splits)

lemma cursor_cstr_after: "cursor_cstr data p = Some (s, q) \<Longrightarrow> p \<le> q"
  by (auto simp: cursor_cstr_def checked_add_def split: option.splits if_splits)
    (rule order_trans [OF _ next_multiple_of_ge], simp)

lemma fdt_property_after: "fdt_property f p = Some (e, q) \<Longrightarrow> p \<le> q"
  by (auto simp: fdt_property_def dest!: cursor_u32_less cursor_bytes_after split: option.splits)

text \<open>What the visitor is shown, in order, and whether the walk reached the end token.\<close>

function walk_from :: "fdt \<Rightarrow> nat \<Rightarrow> fdt_event list \<times> bool" where
  "walk_from f p =
     (case cursor_u32 (fd_structs f) p of
        None \<Rightarrow> ([], False)
      | Some (token, p1) \<Rightarrow>
          if token = BEGIN_NODE then
            (case cursor_cstr (fd_structs f) p1 of
               None \<Rightarrow> ([], False)
             | Some (name, p2) \<Rightarrow> (case walk_from f p2 of (es, ok) \<Rightarrow> (NodeEvent name # es, ok)))
          else if token = END_NODE then (case walk_from f p1 of (es, ok) \<Rightarrow> (EndNodeEvent # es, ok))
          else if token = PROP_TOKEN then
            (case fdt_property f p1 of
               None \<Rightarrow> ([], False)
             | Some (e, p2) \<Rightarrow> (case walk_from f p2 of (es, ok) \<Rightarrow> (e # es, ok)))
          else if token = NOP then walk_from f p1
          else if token = END_TOKEN then ([], True)
          else ([], False))"
  by pat_completeness auto
termination
  by (relation "measure (\<lambda>(f, p). length (fd_structs f) - p)")
    (auto dest!: cursor_u32_less cursor_cstr_after fdt_property_after)

declare walk_from.simps [simp del]

definition fdt_walk :: "fdt \<Rightarrow> fdt_event list \<times> bool" where
  "fdt_walk f = walk_from f 0"

section \<open>Decoding properties (reg.rs)\<close>

definition cells :: "bytes \<Rightarrow> nat \<Rightarrow> nat \<Rightarrow> nat option" where
  "cells v k count =
     (if count = 0 \<or> 2 < count then None
      else (let start = wrap 64 (k * 4) in map_option be_value (get_range v start (start + count * 4))))"

definition reg_pair :: "bytes \<Rightarrow> nat \<Rightarrow> nat \<Rightarrow> nat \<Rightarrow> (nat \<times> nat) option" where
  "reg_pair v address_cells size_cells index =
     (let stride = wrap 32 (address_cells + size_cells);
          base = wrap 64 (index * stride) in
      case cells v base address_cells of
        None \<Rightarrow> None
      | Some address \<Rightarrow>
          map_option (\<lambda>sz. (address, sz)) (cells v (wrap 64 (base + address_cells)) size_cells))"

definition is_ascii_space :: "char \<Rightarrow> bool" where
  "is_ascii_space c = (c \<in> {CHR 0x20, CHR 0x09, CHR 0x0A, CHR 0x0C, CHR 0x0D})"

definition fdt_string :: "bytes \<Rightarrow> string option" where
  "fdt_string v =
     map_option (\<lambda>text. rev (dropWhile is_ascii_space (rev text)))
       (from_utf8 (rev (dropWhile (\<lambda>b. b = 0) (rev v))))"

section \<open>A blob, from the tree it describes\<close>

text \<open>The flattened form of a tree, by the device tree specification: what the walk is compared
  with. \<open>at\<close> says where each property name stands in the strings block.\<close>

datatype dtree = DNode string "(string \<times> bytes) list" "dtree list"

definition padded :: "bytes \<Rightarrow> bytes" where
  "padded bs = bs @ replicate (next_multiple_of 4 (length bs) - length bs) 0"

definition flat_prop :: "(string \<Rightarrow> nat) \<Rightarrow> string \<times> bytes \<Rightarrow> bytes" where
  "flat_prop at q = be_bytes 4 PROP_TOKEN @ be_bytes 4 (length (snd q)) @ be_bytes 4 (at (fst q)) @ padded (snd q)"

fun flat :: "(string \<Rightarrow> nat) \<Rightarrow> dtree \<Rightarrow> bytes" where
  "flat at (DNode name props kids) =
     be_bytes 4 BEGIN_NODE @ padded (bytes_of name @ [0]) @
     concat (map (flat_prop at) props) @ concat (map (flat at) kids) @ be_bytes 4 END_NODE"

fun tree_events :: "dtree \<Rightarrow> fdt_event list" where
  "tree_events (DNode name props kids) =
     NodeEvent name # map (\<lambda>(n, v). PropEvent n v) props @ concat (map tree_events kids) @ [EndNodeEvent]"

definition name_ok :: "string \<Rightarrow> bool" where
  "name_ok s \<longleftrightarrow> ascii s \<and> CHR 0x00 \<notin> set s"

definition named_at :: "bytes \<Rightarrow> (string \<Rightarrow> nat) \<Rightarrow> string \<Rightarrow> bool" where
  "named_at strings at n \<longleftrightarrow>
     name_ok n \<and> at n < 2 ^ 32 \<and> at n \<le> length strings \<and>
     (\<exists>rest. drop (at n) strings = bytes_of n @ 0 # rest)"

fun tree_ok :: "bytes \<Rightarrow> (string \<Rightarrow> nat) \<Rightarrow> dtree \<Rightarrow> bool" where
  "tree_ok strings at (DNode name props kids) \<longleftrightarrow>
     name_ok name \<and> (\<forall>(n, v) \<in> set props. named_at strings at n \<and> length v < 2 ^ 32) \<and>
     (\<forall>k \<in> set kids. tree_ok strings at k)"

definition fdt_blob :: "(string \<Rightarrow> nat) \<Rightarrow> bytes \<Rightarrow> dtree \<Rightarrow> bytes" where
  "fdt_blob at strings t =
     (let structs = flat at t @ be_bytes 4 END_TOKEN in
      be_bytes 4 FDT_MAGIC @ be_bytes 4 (40 + length structs + length strings) @ be_bytes 4 40 @
      be_bytes 4 (40 + length structs) @ be_bytes 4 40 @ be_bytes 4 17 @ be_bytes 4 16 @ be_bytes 4 0 @
      be_bytes 4 (length strings) @ be_bytes 4 (length structs) @ structs @ strings)"


section \<open>The walk of a blob\<close>

lemma padded_length: "length (padded bs) = next_multiple_of 4 (length bs)"
  using next_multiple_of_ge [of "length bs" 4] by (simp add: padded_def)

lemma next_multiple_of_add: "4 dvd p \<Longrightarrow> next_multiple_of 4 (p + n) = p + next_multiple_of 4 n"
proof -
  assume "4 dvd p"
  then obtain k where "p = 4 * k" by (auto simp: dvd_def)
  then have "(p + n) mod 4 = n mod 4" by simp
  then show ?thesis by (simp add: next_multiple_of_def add.assoc)
qed

lemma flat_prop_dvd: "4 dvd length (flat_prop at q)"
  by (simp add: flat_prop_def padded_length next_multiple_of_dvd dvd_add)

lemma concat_dvd: "(\<And>x. x \<in> set xs \<Longrightarrow> 4 dvd length (f x)) \<Longrightarrow> 4 dvd length (concat (map f xs))"
  by (induction xs) (auto intro: dvd_add)

lemma flat_dvd: "4 dvd length (flat at t)"
  by (induction t) (auto intro!: dvd_add concat_dvd flat_prop_dvd simp: padded_length next_multiple_of_dvd)

lemma cursor_u32_here:
  "n < 2 ^ 32 \<Longrightarrow> cursor_u32 (pre @ be_bytes 4 n @ rest) (length pre) = Some (n, length pre + 4)"
  by (simp add: cursor_u32_def be32_at_append)

text \<open>Reading in the middle of a block: what is before is a prefix of a length that is a multiple
  of four.\<close>

lemma cursor_bytes_here:
  assumes "4 dvd length pre" "length (pre @ padded v @ rest) < 2 ^ 64"
  shows "cursor_bytes (pre @ padded v @ rest) (length v) (length pre) = Some (v, length (pre @ padded v))"
proof -
  have "length v \<le> length (padded v)" using next_multiple_of_ge by (simp add: padded_length)
  then have "checked_add 64 (length pre) (length v) = Some (length pre + length v)"
    using assms(2) by (simp add: checked_add_def)
  moreover have "get_range (pre @ padded v @ rest) (length pre) (length pre + length v) = Some v"
    using get_range_append [of pre v] by (simp add: padded_def)
  ultimately show ?thesis
    by (simp add: cursor_bytes_def next_multiple_of_add [OF assms(1)] padded_length)
qed

lemma bytes_of_nonzero: "name_ok s \<Longrightarrow> 0 \<notin> set (bytes_of s)"
proof
  assume s: "name_ok s" and "0 \<in> set (bytes_of s)"
  then obtain c where c: "c \<in> set s" "(of_char c :: u8) = 0" by (auto simp: bytes_of_def)
  then have "(of_char c :: nat) = 0" using unat_of_char [of c] by simp
  then have "(of_char c :: nat) = of_char (CHR 0x00)" by simp
  then have "c = CHR 0x00" by (simp only: of_char_eq_iff)
  with c s show False by (simp add: name_ok_def)
qed

lemma from_c_str_name:
  assumes "name_ok s"
  shows "from_c_str (bytes_of s @ 0 # rest) = Some (s, length (bytes_of s))"
  using assms by (simp add: from_c_str_def position_zero bytes_of_nonzero from_utf8_ascii name_ok_def)

lemma cursor_cstr_here:
  assumes "4 dvd length pre" "name_ok s" "length (pre @ padded (bytes_of s @ [0]) @ rest) < 2 ^ 64"
  shows "cursor_cstr (pre @ padded (bytes_of s @ [0]) @ rest) (length pre) =
    Some (s, length (pre @ padded (bytes_of s @ [0])))"
proof -
  obtain z where z: "padded (bytes_of s @ [0]) @ rest = bytes_of s @ 0 # z" by (simp add: padded_def)
  have "length (bytes_of s) + 1 \<le> length (padded (bytes_of s @ [0]))"
    using next_multiple_of_ge [of "Suc (length (bytes_of s))" 4] by (simp add: padded_length)
  then have "checked_add 64 (length pre) (length (bytes_of s) + 1) = Some (length pre + (length (bytes_of s) + 1))"
    using assms(3) by (simp add: checked_add_def)
  moreover have "get_from (pre @ padded (bytes_of s @ [0]) @ rest) (length pre) = Some (bytes_of s @ 0 # z)"
    by (simp add: get_from_def z)
  ultimately show ?thesis
    using position_zero [OF bytes_of_nonzero [OF assms(2)]] from_utf8_ascii assms(2)
      next_multiple_of_add [OF assms(1), of "Suc (length (bytes_of s))"]
    by (simp add: cursor_cstr_def padded_length name_ok_def)
qed

definition prepended :: "fdt_event list \<Rightarrow> fdt_event list \<times> bool \<Rightarrow> fdt_event list \<times> bool" where
  "prepended es r = (es @ fst r, snd r)"

lemma prepended_simps [simp]:
  "prepended [] r = r" "prepended es (prepended fs r) = prepended (es @ fs) r"
  "(case r of (gs, ok) \<Rightarrow> (e # gs, ok)) = prepended [e] r"
  by (auto simp: prepended_def split: prod.splits)

definition small :: "fdt \<Rightarrow> bool" where
  "small f \<longleftrightarrow> length (fd_structs f) < 2 ^ 64"

lemma walk_token:
  assumes "fd_structs f = pre @ be_bytes 4 END_NODE @ rest"
  shows "walk_from f (length pre) = prepended [EndNodeEvent] (walk_from f (length pre + 4))"
  using cursor_u32_here [of END_NODE pre rest] assms
  by (simp add: walk_from.simps [of f "length pre"] token_defs)

lemma walk_prop:
  assumes st: "fd_structs f = pre @ flat_prop at (n, v) @ rest" and "4 dvd length pre" "small f"
    and ok: "named_at (fd_strings f) at n" "length v < 2 ^ 32"
  shows "walk_from f (length pre) = prepended [PropEvent n v] (walk_from f (length (pre @ flat_prop at (n, v))))"
proof -
  let ?p1 = "pre @ be_bytes 4 PROP_TOKEN" and ?l = "be_bytes 4 (length v)" and ?a = "be_bytes 4 (at n)"
  have st1: "fd_structs f = ?p1 @ ?l @ ?a @ padded v @ rest" using st by (simp add: flat_prop_def)
  have at: "at n < 2 ^ 32" using ok(1) by (simp add: named_at_def)
  have c0: "cursor_u32 (fd_structs f) (length pre) = Some (PROP_TOKEN, length pre + 4)"
    using cursor_u32_here [of PROP_TOKEN pre "?l @ ?a @ padded v @ rest"] st1 by (simp add: PROP_TOKEN_def)
  have c1: "cursor_u32 (fd_structs f) (length pre + 4) = Some (length v, length pre + 8)"
    using cursor_u32_here [OF ok(2), of ?p1 "?a @ padded v @ rest"] st1 by simp
  have c2: "cursor_u32 (fd_structs f) (length pre + 8) = Some (at n, length pre + 12)"
    using cursor_u32_here [OF at, of "?p1 @ ?l" "padded v @ rest"] st1 by simp
  have c3: "cursor_bytes (fd_structs f) (length v) (length pre + 12) = Some (v, length pre + 12 + length (padded v))"
    using cursor_bytes_here [of "?p1 @ ?l @ ?a" v rest] st1 assms(2,3) by (simp add: small_def dvd_add)
  obtain z where z: "drop (at n) (fd_strings f) = bytes_of n @ 0 # z" "at n \<le> length (fd_strings f)" "name_ok n"
    using ok(1) by (auto simp: named_at_def)
  have "fdt_property f (length pre + 4) = Some (PropEvent n v, length pre + 12 + length (padded v))"
    using c1 c2 c3 z from_c_str_name [OF z(3)] by (simp add: fdt_property_def get_from_def)
  then show ?thesis
    using c0 by (simp add: walk_from.simps [of f "length pre"] token_defs flat_prop_def add.assoc)
qed

lemma walk_props:
  assumes "fd_structs f = pre @ concat (map (flat_prop at) props) @ rest" "4 dvd length pre" "small f"
    and "\<forall>(n, v) \<in> set props. named_at (fd_strings f) at n \<and> length v < 2 ^ 32"
  shows "walk_from f (length pre) = prepended (map (\<lambda>(n, v). PropEvent n v) props)
    (walk_from f (length (pre @ concat (map (flat_prop at) props))))"
  using assms
proof (induction props arbitrary: pre)
  case (Cons q props)
  obtain n v where q: "q = (n, v)" by (cases q)
  have "walk_from f (length pre) = prepended [PropEvent n v] (walk_from f (length (pre @ flat_prop at (n, v))))"
    using walk_prop [of f pre at n v] Cons.prems by (simp add: q)
  also have "walk_from f (length (pre @ flat_prop at (n, v))) =
      prepended (map (\<lambda>(n, v). PropEvent n v) props)
        (walk_from f (length ((pre @ flat_prop at (n, v)) @ concat (map (flat_prop at) props))))"
    by (rule Cons.IH) (use Cons.prems flat_prop_dvd [of at "(n, v)"] in \<open>auto simp: q intro: dvd_add\<close>)
  finally show ?case by (simp add: q add.assoc)
qed simp

lemma walk_tree:
  assumes "fd_structs f = pre @ flat at t @ rest" "4 dvd length pre" "small f" "tree_ok (fd_strings f) at t"
  shows "walk_from f (length pre) = prepended (tree_events t) (walk_from f (length (pre @ flat at t)))"
  using assms
proof (induction t arbitrary: pre rest)
  case (DNode name props kids)
  let ?p0 = "pre @ be_bytes 4 BEGIN_NODE" and ?n = "padded (bytes_of name @ [0])"
  let ?ps = "concat (map (flat_prop at) props)" and ?ks = "concat (map (flat at) kids)"
  have st: "fd_structs f = ?p0 @ ?n @ ?ps @ ?ks @ be_bytes 4 END_NODE @ rest" using DNode.prems(1) by simp
  have nm: "name_ok name" using DNode.prems(4) by simp
  have c0: "cursor_u32 (fd_structs f) (length pre) = Some (BEGIN_NODE, length pre + 4)"
    using cursor_u32_here [of BEGIN_NODE pre] DNode.prems(1) by (simp add: BEGIN_NODE_def)
  have c1: "cursor_cstr (fd_structs f) (length pre + 4) = Some (name, length (?p0 @ ?n))"
    using cursor_cstr_here [of ?p0 name "?ps @ ?ks @ be_bytes 4 END_NODE @ rest"] st DNode.prems(2,3) nm
    by (simp add: small_def dvd_add)
  have w0: "walk_from f (length pre) = prepended [NodeEvent name] (walk_from f (length (?p0 @ ?n)))"
    using c0 c1 by (simp add: walk_from.simps [of f "length pre"] token_defs)
  have d1: "4 dvd length (?p0 @ ?n)" using DNode.prems(2) by (simp add: padded_length next_multiple_of_dvd dvd_add)
  have d2: "4 dvd length ((?p0 @ ?n) @ ?ps)"
    unfolding length_append [of "?p0 @ ?n"] by (rule dvd_add [OF d1 concat_dvd]) (rule flat_prop_dvd)
  have w1: "walk_from f (length (?p0 @ ?n)) = prepended (map (\<lambda>(n, v). PropEvent n v) props)
      (walk_from f (length ((?p0 @ ?n) @ ?ps)))"
    by (rule walk_props [OF _ d1 DNode.prems(3)]) (use st DNode.prems(4) in auto)
  have w2: "walk_from f (length q) = prepended (concat (map tree_events ks)) (walk_from f (length (q @ concat (map (flat at) ks))))"
    if "fd_structs f = q @ concat (map (flat at) ks) @ z" "4 dvd length q" "set ks \<subseteq> set kids" for q ks z
    using that
  proof (induction ks arbitrary: q)
    case (Cons k ks)
    have "walk_from f (length q) = prepended (tree_events k) (walk_from f (length (q @ flat at k)))"
      by (rule DNode.IH) (use Cons.prems DNode.prems(3,4) in auto)
    also have "walk_from f (length (q @ flat at k)) = prepended (concat (map tree_events ks))
        (walk_from f (length ((q @ flat at k) @ concat (map (flat at) ks))))"
      by (rule Cons.IH) (use Cons.prems flat_dvd [of at k] in \<open>auto intro: dvd_add\<close>)
    finally show ?case by (simp add: add.assoc)
  qed simp
  let ?q = "((?p0 @ ?n) @ ?ps) @ ?ks"
  have w3: "walk_from f (length ?q) = prepended [EndNodeEvent] (walk_from f (length ?q + 4))"
    by (rule walk_token) (use st in simp)
  have "walk_from f (length pre) = prepended (tree_events (DNode name props kids)) (walk_from f (length ?q + 4))"
    using w0 w1 w2 [OF _ d2, of kids] w3 st by simp
  then show ?case by (simp add: add.assoc)
qed

section \<open>Properties\<close>

text \<open>C28: the blob of a device tree parses, and walking it reports exactly the tree: every node,
  every property with its name and value, in document order, up to the end.\<close>

theorem fdt_walk_roundtrip:
  assumes "tree_ok strings at t" "length (fdt_blob at strings t) < 2 ^ 32"
  shows "\<exists>f. fdt_new (fdt_blob at strings t) = Some f \<and> fdt_walk f = (tree_events t, True)"
proof -
  let ?st = "flat at t @ be_bytes 4 END_TOKEN"
  let ?f = "\<lparr>fd_structs = ?st, fd_strings = strings\<rparr>"
  have len: "40 + length ?st + length strings < 2 ^ 32" using assms(2) by (simp add: fdt_blob_def Let_def)
  have parse: "header_parse (fdt_blob at strings t) = Some \<lparr>hd_total_size = 40 + length ?st + length strings,
      hd_struct_offset = 40, hd_struct_size = length ?st, hd_strings_offset = 40 + length ?st,
      hd_strings_size = length strings\<rparr>"
    unfolding header_parse_def fdt_blob_def Let_def
    using len by (simp add: be32_at_here be32_at_skip FDT_MAGIC_def MIN_COMPATIBLE_def)
  have "fdt_new (fdt_blob at strings t) = Some ?f"
    using parse by (simp add: fdt_new_def get_from_def get_to_def) (simp add: fdt_blob_def Let_def)
  moreover have "fdt_walk ?f = (tree_events t, True)"
  proof -
    have "walk_from ?f (length (flat at t)) = ([], True)"
    proof -
      have "cursor_u32 (fd_structs ?f) (length (flat at t)) = Some (9, length (flat at t) + 4)"
        using cursor_u32_here [of 9 "flat at t" "[]"] by (simp add: END_TOKEN_def)
      then show ?thesis by (subst walk_from.simps) (simp only: option.case prod.case, simp add: token_defs)
    qed
    then show ?thesis
      using walk_tree [of ?f "[]" at t "be_bytes 4 END_TOKEN"] assms(1) len
      by (simp add: fdt_walk_def small_def prepended_def)
  qed
  ultimately show ?thesis by blast
qed

lemma fdt_walk_roundtrip_witness:
  "\<exists>f. fdt_new (fdt_blob (\<lambda>_. 0) (bytes_of ''reg'' @ [0]) (DNode [] [(''reg'', [1, 2, 3])] [DNode ''cpus'' [] []])) = Some f \<and>
     fdt_walk f = ([NodeEvent [], PropEvent ''reg'' [1, 2, 3], NodeEvent ''cpus'', EndNodeEvent, EndNodeEvent], True)"
proof -
  let ?t = "DNode [] [(''reg'', [1, 2, 3])] [DNode ''cpus'' [] []]" and ?s = "bytes_of ''reg'' @ [0]"
  have "tree_ok ?s (\<lambda>_. 0) ?t" by (simp add: name_ok_def ascii_def named_at_def bytes_of_def)
  moreover have "length (fdt_blob (\<lambda>_. 0) ?s ?t) < 2 ^ 32"
    by (simp add: fdt_blob_def Let_def flat_prop_def padded_length next_multiple_of_def bytes_of_def)
  ultimately show ?thesis using fdt_walk_roundtrip [of ?s "\<lambda>_. 0" ?t] by simp
qed

end
