(* ===== verification/Machine.thy ===== *)
theory Machine
  imports Fdt
begin

text \<open>
  crates/mlos-hal (boot.rs) and crates/mlos-machine: the physical memory map, ranges carved out
  of it, and a device tree walk folded into a description of the machine.
\<close>

section \<open>Memory regions (hal: boot.rs)\<close>

datatype memory_kind = Usable | Kernel | Reclaimable | Device | Reserved

record region =
  rg_base :: nat
  rg_len :: nat
  rg_kind :: memory_kind

record boot_info =
  bi_regions :: "region list"
  bi_cpu_count :: nat

definition boot_info_new :: "region list \<Rightarrow> nat \<Rightarrow> boot_info" where
  "boot_info_new regions cpus = \<lparr>bi_regions = regions, bi_cpu_count = cpus\<rparr>"

text \<open>The sum is checked: None is the panic of one past 64 bits.\<close>

definition usable_bytes :: "boot_info \<Rightarrow> nat option" where
  "usable_bytes b =
     foldl (\<lambda>acc r. Option.bind acc (\<lambda>n. checked_add 64 n (rg_len r))) (Some 0)
       (filter (\<lambda>r. rg_kind r = Usable) (bi_regions b))"

section \<open>The map (regions.rs)\<close>

text \<open>The live prefix \<open>items[..len]\<close> of the fixed array.\<close>

definition MAX_REGIONS :: nat where "MAX_REGIONS = 16"

type_synonym regions = "region list"

definition regions_push :: "region \<Rightarrow> regions \<Rightarrow> bool \<times> regions" where
  "regions_push r rs = (if length rs < MAX_REGIONS then (True, rs @ [r]) else (False, rs))"

function extend_usable :: "(nat \<Rightarrow> (nat \<times> nat) option) \<Rightarrow> nat \<Rightarrow> regions \<Rightarrow> regions" where
  "extend_usable pair index rs =
     (case pair index of
        None \<Rightarrow> rs
      | Some (base, len) \<Rightarrow>
          (case regions_push \<lparr>rg_base = base, rg_len = len, rg_kind = Usable\<rparr> rs of
             (False, rs') \<Rightarrow> rs'
           | (True, rs') \<Rightarrow> extend_usable pair (index + 1) rs'))"
  by pat_completeness auto
termination
  by (relation "measure (\<lambda>(_, _, rs). MAX_REGIONS - length rs)")
    (auto simp: regions_push_def split: if_splits)

declare extend_usable.simps [simp del]

section \<open>Carving (reserve.rs)\<close>

definition region_split :: "nat \<Rightarrow> nat \<Rightarrow> memory_kind \<Rightarrow> regions \<Rightarrow> region \<Rightarrow> regions" where
  "region_split base stop kind out r =
     (let start = rg_base r; finish = wrap 64 (rg_base r + rg_len r) in
      if finish \<le> base \<or> stop \<le> start then snd (regions_push r out)
      else (let out = (if start < base
                       then snd (regions_push \<lparr>rg_base = start, rg_len = base - start, rg_kind = rg_kind r\<rparr> out)
                       else out);
                lo = max start base; hi = min finish stop;
                out = snd (regions_push \<lparr>rg_base = lo, rg_len = wrap_sub 64 hi lo, rg_kind = kind\<rparr> out)
            in if stop < finish
               then snd (regions_push \<lparr>rg_base = stop, rg_len = finish - stop, rg_kind = rg_kind r\<rparr> out)
               else out))"

definition reserve :: "regions \<Rightarrow> nat \<Rightarrow> nat \<Rightarrow> memory_kind \<Rightarrow> regions" where
  "reserve rs base len kind = foldl (region_split base (wrap 64 (base + len)) kind) [] rs"

section \<open>The scan (scan.rs)\<close>

record scan_state =
  sc_depth :: nat
  sc_node :: string
  sc_address_cells :: nat
  sc_size_cells :: nat
  sc_regions :: regions
  sc_cpu_count :: nat
  sc_uart_base :: "nat option"
  sc_uart_irq :: "nat option"
  sc_virtio :: "(nat \<times> nat) option"
  sc_virtio_count :: nat
  sc_bootargs :: "string option"
  sc_gic_v3 :: bool
  sc_gic_reg :: "(nat \<times> nat) option"

definition scan_default :: scan_state where
  "scan_default =
     \<lparr>sc_depth = 0, sc_node = [], sc_address_cells = 2, sc_size_cells = 1, sc_regions = [],
      sc_cpu_count = 0, sc_uart_base = None, sc_uart_irq = None, sc_virtio = None,
      sc_virtio_count = 0, sc_bootargs = None, sc_gic_v3 = False, sc_gic_reg = None\<rparr>"

definition scan_reg :: "bytes \<Rightarrow> scan_state \<Rightarrow> scan_state" where
  "scan_reg v s =
     (let pair = reg_pair v (sc_address_cells s) (sc_size_cells s); node = sc_node s in
      if starts_with node ''memory@'' then s\<lparr>sc_regions := extend_usable pair 0 (sc_regions s)\<rparr>
      else if starts_with node ''pl011@'' \<and> sc_uart_base s = None
      then s\<lparr>sc_uart_base := map_option fst (pair 0)\<rparr>
      else if starts_with node ''virtio_mmio@'' then
        (let s = s\<lparr>sc_virtio_count := wrap 32 (sc_virtio_count s + 1)\<rparr> in
         case pair 0 of
           None \<Rightarrow> s
         | Some (base, len) \<Rightarrow>
             (let seen = (case sc_virtio s of None \<Rightarrow> umax 64 | Some (low, _) \<Rightarrow> low) in
              if base < seen then s\<lparr>sc_virtio := Some (base, len)\<rparr> else s))
      else if starts_with node ''intc@'' then
        (case (pair 0, pair 1) of
           (Some (distributor, _), Some (redistributor, _)) \<Rightarrow>
             s\<lparr>sc_gic_reg := Some (distributor, redistributor)\<rparr>
         | _ \<Rightarrow> s)
      else s)"

fun split_on :: "'a \<Rightarrow> 'a list \<Rightarrow> 'a list list" where
  "split_on d [] = [[]]"
| "split_on d (x # xs) =
     (if x = d then [] # split_on d xs
      else (case split_on d xs of [] \<Rightarrow> [[x]] | s # ss \<Rightarrow> (x # s) # ss))"

definition scan_prop :: "string \<Rightarrow> bytes \<Rightarrow> scan_state \<Rightarrow> scan_state" where
  "scan_prop name v s =
     (let cell = (\<lambda>index. be32_at v (index * 4));
          width = (case cell 0 of Some n \<Rightarrow> n | None \<Rightarrow> 2) in
      if sc_depth s = 1 \<and> name = ''#address-cells'' then s\<lparr>sc_address_cells := width\<rparr>
      else if sc_depth s = 1 \<and> name = ''#size-cells'' then s\<lparr>sc_size_cells := width\<rparr>
      else if sc_depth s = 2 \<and> name = ''reg'' then scan_reg v s
      else if sc_depth s = 2 \<and> name = ''bootargs'' \<and> sc_node s = ''chosen''
      then s\<lparr>sc_bootargs := fdt_string v\<rparr>
      else if sc_depth s = 2 \<and> name = ''interrupts'' \<and> starts_with (sc_node s) ''pl011@'' \<and> sc_uart_irq s = None
      then s\<lparr>sc_uart_irq :=
               (if cell 0 = Some 0 then map_option (\<lambda>n. wrap 32 (n + 32)) (cell 1) else None)\<rparr>
      else if sc_depth s = 2 \<and> name = ''compatible'' \<and> starts_with (sc_node s) ''intc@''
      then s\<lparr>sc_gic_v3 := bytes_of ''arm,gic-v3'' \<in> set (split_on 0 v)\<rparr>
      else s)"

fun scan_event :: "fdt_event \<Rightarrow> scan_state \<Rightarrow> scan_state" where
  "scan_event (NodeEvent name) s =
     (let s = s\<lparr>sc_depth := sc_depth s + 1, sc_node := name\<rparr> in
      if sc_depth s = 3 \<and> starts_with name ''cpu@''
      then s\<lparr>sc_cpu_count := wrap 32 (sc_cpu_count s + 1)\<rparr> else s)"
| "scan_event EndNodeEvent s = s\<lparr>sc_depth := sc_depth s - 1\<rparr>"
| "scan_event (PropEvent name v) s = scan_prop name v s"

section \<open>The machine (lib.rs)\<close>

definition bootargs_rest :: "string \<Rightarrow> string \<Rightarrow> string" where
  "bootargs_rest bootargs key = (case after_sub key bootargs of Some r \<Rightarrow> r | None \<Rightarrow> [])"

record machine =
  mc_regions :: regions
  mc_cpu_count :: nat
  mc_uart_base :: "nat option"
  mc_uart_irq :: "nat option"
  mc_virtio :: "(nat \<times> nat) option"
  mc_virtio_count :: nat
  mc_bootargs :: "string option"
  mc_gic :: "(nat \<times> nat) option"
  mc_blob :: "nat \<times> nat"

definition machine_reserving :: "machine \<Rightarrow> nat \<Rightarrow> nat \<Rightarrow> machine" where
  "machine_reserving m base len = m\<lparr>mc_regions := reserve (mc_regions m) base len Kernel\<rparr>"

definition machine_from_scan :: "scan_state \<Rightarrow> nat \<Rightarrow> nat \<Rightarrow> machine" where
  "machine_from_scan s base n =
     \<lparr>mc_regions = reserve (sc_regions s) base n Reclaimable, mc_cpu_count = sc_cpu_count s,
      mc_uart_base = sc_uart_base s, mc_uart_irq = sc_uart_irq s, mc_virtio = sc_virtio s,
      mc_virtio_count = sc_virtio_count s, mc_bootargs = sc_bootargs s,
      mc_gic = (if sc_gic_v3 s then sc_gic_reg s else None), mc_blob = (base, n)\<rparr>"

definition machine_probe :: "(nat \<Rightarrow> u8) \<Rightarrow> nat \<Rightarrow> machine option" where
  "machine_probe mem dtb =
     (case fdt_from_ptr mem dtb of
        None \<Rightarrow> None
      | Some f \<Rightarrow>
          (case header_parse (memory_slice mem dtb 40) of
             None \<Rightarrow> None
           | Some h \<Rightarrow>
               (case fdt_walk f of
                  (es, ok) \<Rightarrow>
                    if ok then Some (machine_from_scan (fold scan_event es scan_default) dtb (hd_total_size h))
                    else None)))"


section \<open>What carving keeps\<close>

definition region_set :: "region \<Rightarrow> nat set" where
  "region_set r = {rg_base r..<rg_base r + rg_len r}"

definition kind_bytes :: "memory_kind \<Rightarrow> regions \<Rightarrow> nat set" where
  "kind_bytes k rs = (\<Union>r \<in> {r \<in> set rs. rg_kind r = k}. region_set r)"

definition region_ok :: "region \<Rightarrow> bool" where
  "region_ok r \<longleftrightarrow> rg_base r + rg_len r < 2 ^ 64"

definition pieces :: "nat \<Rightarrow> nat \<Rightarrow> memory_kind \<Rightarrow> region \<Rightarrow> regions" where
  "pieces base stop kind r =
     (let start = rg_base r; finish = rg_base r + rg_len r in
      if finish \<le> base \<or> stop \<le> start then [r]
      else (if start < base then [\<lparr>rg_base = start, rg_len = base - start, rg_kind = rg_kind r\<rparr>] else []) @
        [\<lparr>rg_base = max start base, rg_len = min finish stop - max start base, rg_kind = kind\<rparr>] @
        (if stop < finish then [\<lparr>rg_base = stop, rg_len = finish - stop, rg_kind = rg_kind r\<rparr>] else []))"

lemma kind_bytes_append [simp]: "kind_bytes k (rs @ ss) = kind_bytes k rs \<union> kind_bytes k ss"
  by (auto simp: kind_bytes_def)

lemma kind_bytes_Nil [simp]: "kind_bytes k [] = {}"
  by (simp add: kind_bytes_def)

lemma kind_bytes_Cons [simp]:
  "kind_bytes k (r # rs) = (if rg_kind r = k then region_set r else {}) \<union> kind_bytes k rs"
  by (auto simp: kind_bytes_def)

lemma kind_bytes_mono: "set rs \<subseteq> set ss \<Longrightarrow> kind_bytes k rs \<subseteq> kind_bytes k ss"
  by (auto simp: kind_bytes_def)

lemma push_le: "set (snd (regions_push r out)) \<subseteq> insert r (set out)" "length (snd (regions_push r out)) \<le> max (length out) MAX_REGIONS"
  by (auto simp: regions_push_def)

lemma push_room: "length out < MAX_REGIONS \<Longrightarrow> snd (regions_push r out) = out @ [r]"
  by (simp add: regions_push_def)

lemma region_split_pieces:
  assumes "region_ok r" "base \<le> stop" "stop < 2 ^ 64"
  shows "set (region_split base stop kind out r) \<subseteq> set out \<union> set (pieces base stop kind r)"
    and "length out \<le> MAX_REGIONS \<Longrightarrow> length (region_split base stop kind out r) \<le> MAX_REGIONS"
    and "length out + 3 \<le> MAX_REGIONS \<Longrightarrow>
      region_split base stop kind out r = out @ pieces base stop kind r"
proof -
  have w: "wrap 64 (rg_base r + rg_len r) = rg_base r + rg_len r"
    using assms(1) by (simp add: region_ok_def wrap_exact)
  let ?lo = "max (rg_base r) base" and ?hi = "min (rg_base r + rg_len r) stop"
  have s: "wrap_sub 64 ?hi ?lo = ?hi - ?lo" if "\<not> (rg_base r + rg_len r \<le> base \<or> stop \<le> rg_base r)"
    by (rule wrap_sub_exact) (use that assms in \<open>auto simp: region_ok_def\<close>)
  show "set (region_split base stop kind out r) \<subseteq> set out \<union> set (pieces base stop kind r)"
    using s by (auto simp: region_split_def pieces_def w Let_def regions_push_def split: if_splits)
  show "length out \<le> MAX_REGIONS \<Longrightarrow> length (region_split base stop kind out r) \<le> MAX_REGIONS"
    by (auto simp: region_split_def w Let_def regions_push_def)
  show "length out + 3 \<le> MAX_REGIONS \<Longrightarrow>
      region_split base stop kind out r = out @ pieces base stop kind r"
    using s by (auto simp: region_split_def pieces_def w Let_def regions_push_def)
qed

lemma pieces_facts:
  assumes "region_ok r" "base \<le> stop" "stop < 2 ^ 64"
  shows "\<forall>p \<in> set (pieces base stop kind r). region_ok p"
    and "kind_bytes k (pieces base stop kind r) =
      (if rg_kind r = k then region_set r - {base..<stop} else {}) \<union>
      (if k = kind then region_set r \<inter> {base..<stop} else {})"
    and "length (pieces base stop kind r) \<le> 3"
  using assms by (auto simp: pieces_def Let_def region_ok_def region_set_def)

lemma reserve_fold:
  assumes "\<forall>r \<in> set rs. region_ok r" "base \<le> stop" "stop < 2 ^ 64" "length out \<le> MAX_REGIONS"
  shows "set (foldl (region_split base stop kind) out rs) \<subseteq> set out \<union> set (concat (map (pieces base stop kind) rs))"
    and "length (foldl (region_split base stop kind) out rs) \<le> MAX_REGIONS"
    and "length out + 3 * length rs \<le> MAX_REGIONS \<Longrightarrow>
      foldl (region_split base stop kind) out rs = out @ concat (map (pieces base stop kind) rs)"
proof -
  have "set (foldl (region_split base stop kind) out rs) \<subseteq> set out \<union> set (concat (map (pieces base stop kind) rs)) \<and>
    length (foldl (region_split base stop kind) out rs) \<le> MAX_REGIONS \<and>
    (length out + 3 * length rs \<le> MAX_REGIONS \<longrightarrow>
      foldl (region_split base stop kind) out rs = out @ concat (map (pieces base stop kind) rs))"
    using assms(1,4)
  proof (induction rs arbitrary: out)
    case (Cons r rs)
    let ?out = "region_split base stop kind out r"
    have r: "region_ok r" using Cons.prems by simp
    note P = region_split_pieces [OF r assms(2,3), where kind = kind and out = out]
    have l: "length ?out \<le> MAX_REGIONS" using P(2) Cons.prems(2) by simp
    have IH: "set (foldl (region_split base stop kind) ?out rs) \<subseteq> set ?out \<union> set (concat (map (pieces base stop kind) rs))"
      "length (foldl (region_split base stop kind) ?out rs) \<le> MAX_REGIONS"
      "length ?out + 3 * length rs \<le> MAX_REGIONS \<Longrightarrow>
        foldl (region_split base stop kind) ?out rs = ?out @ concat (map (pieces base stop kind) rs)"
      using Cons.IH [OF _ l] Cons.prems(1) by auto
    have "foldl (region_split base stop kind) out (r # rs) = out @ concat (map (pieces base stop kind) (r # rs))"
      if n: "length out + 3 * length (r # rs) \<le> MAX_REGIONS"
    proof -
      have o: "?out = out @ pieces base stop kind r" using P(3) n by simp
      moreover have "length (pieces base stop kind r) \<le> 3" using pieces_facts(3) [OF r assms(2,3)] .
      ultimately have "length ?out + 3 * length rs \<le> MAX_REGIONS" using n by simp
      from IH(3) [OF this] o show ?thesis by simp
    qed
    moreover have "set (foldl (region_split base stop kind) out (r # rs)) \<subseteq>
        set out \<union> set (concat (map (pieces base stop kind) (r # rs)))"
      using IH(1) P(1) by auto
    ultimately show ?case using IH(2) by simp
  qed simp
  then show "set (foldl (region_split base stop kind) out rs) \<subseteq> set out \<union> set (concat (map (pieces base stop kind) rs))"
    and "length (foldl (region_split base stop kind) out rs) \<le> MAX_REGIONS"
    and "length out + 3 * length rs \<le> MAX_REGIONS \<Longrightarrow>
      foldl (region_split base stop kind) out rs = out @ concat (map (pieces base stop kind) rs)" by blast+
qed

lemma kind_bytes_concat: "kind_bytes k (concat (map f rs)) = (\<Union>r \<in> set rs. kind_bytes k (f r))"
  by (induction rs) auto

section \<open>Properties\<close>

text \<open>C29: after a range is reserved no usable region touches it and no byte became usable, even
  when the map is full and pieces are dropped; with room for them, every byte of the map in the
  range has the new kind and every other byte the kind it had. Ranges are assumed not to pass
  2^64.\<close>

theorem reserve_claims:
  assumes "\<forall>r \<in> set rs. region_ok r" "base + len < 2 ^ 64" "kind \<noteq> Usable"
  shows "kind_bytes Usable (reserve rs base len kind) \<inter> {base..<base + len} = {} \<and>
    kind_bytes Usable (reserve rs base len kind) \<subseteq> kind_bytes Usable rs \<and>
    (\<forall>r \<in> set (reserve rs base len kind). region_ok r) \<and> length (reserve rs base len kind) \<le> MAX_REGIONS \<and>
    (3 * length rs \<le> MAX_REGIONS \<longrightarrow>
      (\<forall>k. kind_bytes k (reserve rs base len kind) =
        (kind_bytes k rs - {base..<base + len}) \<union>
        (if k = kind then (\<Union>r \<in> set rs. region_set r) \<inter> {base..<base + len} else {})))"
proof -
  let ?stop = "base + len" and ?ps = "concat (map (pieces base (base + len) kind) rs)"
  have le: "base \<le> ?stop" "(0 :: nat) \<le> MAX_REGIONS" by simp_all
  note F = reserve_fold [OF assms(1) le(1) assms(2), of "[]" kind]
  have out: "reserve rs base len kind = foldl (region_split base ?stop kind) [] rs"
    using assms(2) by (simp add: reserve_def wrap_exact)
  have sub: "set (reserve rs base len kind) \<subseteq> set ?ps" using F(1) by (simp add: out)
  have kinds: "kind_bytes k ?ps = (kind_bytes k rs - {base..<?stop}) \<union>
      (if k = kind then (\<Union>r \<in> set rs. region_set r) \<inter> {base..<?stop} else {})" for k
  proof -
    have "kind_bytes k ?ps = (\<Union>r \<in> set rs. (if rg_kind r = k then region_set r - {base..<?stop} else {}) \<union>
      (if k = kind then region_set r \<inter> {base..<?stop} else {}))"
      unfolding kind_bytes_concat
      using pieces_facts(2) [OF _ le(1) assms(2), of _ k kind] assms(1) by (intro SUP_cong) simp_all
    then show ?thesis by (auto simp: kind_bytes_def split: if_splits)
  qed
  have "kind_bytes Usable (reserve rs base len kind) \<subseteq> kind_bytes Usable rs - {base..<?stop}"
    using kind_bytes_mono [OF sub, of Usable] kinds [of Usable] assms(3) by simp
  moreover have "\<forall>r \<in> set (reserve rs base len kind). region_ok r"
    using sub pieces_facts(1) [OF _ le(1) assms(2)] assms(1) by fastforce
  moreover have "length (reserve rs base len kind) \<le> MAX_REGIONS" using F(2) by (simp add: out)
  moreover have "reserve rs base len kind = ?ps" if "3 * length rs \<le> MAX_REGIONS"
    using F(3) that by (simp add: out)
  ultimately show ?thesis using kinds by auto
qed

lemma interval_minus: "a \<le> c \<Longrightarrow> c \<le> d \<Longrightarrow> d \<le> b \<Longrightarrow> {a..<b} - {c..<d} = {a..<c} \<union> {d..<b :: nat}"
  by auto

lemma reserve_claims_witness:
  "kind_bytes Usable (reserve [\<lparr>rg_base = 4096, rg_len = 8192, rg_kind = Usable\<rparr>] 6000 1000 Kernel) =
     {4096..<6000} \<union> {7000..<12288}"
proof -
  let ?rs = "[\<lparr>rg_base = 4096, rg_len = 8192, rg_kind = Usable\<rparr>]"
  have rs: "\<forall>r \<in> set ?rs. region_ok r" "3 * length ?rs \<le> MAX_REGIONS" by (simp_all add: region_ok_def MAX_REGIONS_def)
  have args: "(6000 :: nat) + 1000 < 2 ^ 64" "Kernel \<noteq> Usable" by simp_all
  note R = reserve_claims [OF rs(1) args]
  from R [THEN conjunct2, THEN conjunct2, THEN conjunct2, THEN conjunct2, rule_format, OF rs(2), of Usable]
  have "kind_bytes Usable (reserve ?rs 6000 1000 Kernel) = {4096..<4096 + 8192} - {6000..<6000 + 1000}"
    by (simp only: kind_bytes_Cons kind_bytes_Nil region_set_def region.simps memory_kind.distinct if_True if_False Un_empty_right simp_thms)
  also have "\<dots> = {4096..<6000} \<union> {6000 + 1000..<4096 + 8192}" by (rule interval_minus) simp_all
  finally show ?thesis by (simp only: Num.add_num_simps arith_simps)
qed

text \<open>A region whose end passes 2^64 is not seen to overlap: it is passed through whole, still
  usable, though it contains the range.\<close>

lemma reserve_misses_wrapping:
  assumes "2 ^ 64 \<le> rg_base r + rg_len r" "rg_base r + rg_len r - 2 ^ 64 \<le> base" "rg_len r < 2 ^ 64" "rg_base r < 2 ^ 64"
  shows "reserve [r] base len kind = [r]"
proof -
  have "wrap 64 (rg_base r + rg_len r) = rg_base r + rg_len r - 2 ^ 64"
    using assms(1,3,4) by (simp add: wrap_def le_mod_geq)
  then show ?thesis
    using assms(2) by (simp add: reserve_def region_split_def regions_push_def MAX_REGIONS_def Let_def)
qed

end
