(* ===== verification/EventLines.thy ===== *)
theory EventLines
  imports Events Trace Spaces
begin

text \<open>
  crates/mlos-events, line.rs: the recorded events as text, one JSON line each, with the count of
  what was lost at the end. Deriving a trace from that text (mlos-trace, derive.rs) gives back
  the acquires the ring holds, or says the recording has a hole.
\<close>

section \<open>Lines (line.rs)\<close>

definition MARKER :: string where "MARKER = ''@ev''"

abbreviation quote :: char where "quote \<equiv> CHR 0x22"

definition line_end :: string where "line_end = [carriage, newline]"

text \<open>\<open>"key":\<close>, \<open>"key":number,\<close> and \<open>"key":"word",\<close>.\<close>

definition json_key :: "string \<Rightarrow> string" where
  "json_key k = quoted k @ '':''"

definition json_number :: "string \<Rightarrow> nat \<Rightarrow> string" where
  "json_number k n = json_key k @ decimal n @ '',''"

definition json_word :: "string \<Rightarrow> string \<Rightarrow> string" where
  "json_word k w = json_key k @ quoted w"

definition event_region :: "event \<Rightarrow> nat" where
  "event_region e = (case region_object SpaceDram (ev_object e) of Some r \<Rightarrow> unat r | None \<Rightarrow> 0)"

definition event_line :: "event \<Rightarrow> string" where
  "event_line e =
     MARKER @ '' {'' @ json_number ''seq'' (ev_seq e) @ json_word ''event'' (kind_name (ev_kind e)) @ '','' @
     json_number ''region'' (event_region e) @ json_word ''object'' (decimal (unat (ev_object e))) @ '','' @
     json_number ''session'' (ev_session e) @ json_number ''offset'' (ev_offset e) @
     json_number ''bytes'' (ev_bytes e) @ json_number ''cost'' (ev_cost e) @
     json_word ''tier'' (tier_name (ev_tier e)) @ '','' @ json_word ''why'' (why_name (ev_why e)) @ ''}''"

definition lost_line :: "nat \<Rightarrow> string" where
  "lost_line dropped =
     MARKER @ '' {'' @ json_number ''seq'' 0 @ json_word ''event'' ''dropped'' @ '','' @
     json_number ''region'' 0 @ json_word ''object'' ''0'' @ '','' @ json_number ''session'' 0 @
     json_number ''offset'' 0 @ json_number ''bytes'' dropped @ json_number ''cost'' 0 @
     json_word ''tier'' '''' @ '','' @ json_word ''why'' '''' @ ''}''"

definition ring_write :: "ring \<Rightarrow> string" where
  "ring_write r =
     concat (map (\<lambda>e. event_line e @ line_end) (ring_events r)) @ lost_line (rg_dropped r) @ line_end"

fun split_space :: "string \<Rightarrow> string \<Rightarrow> string list" where
  "split_space cur [] = (if cur = [] then [] else [cur])"
| "split_space cur (c # cs) =
     (if is_space c then (if cur = [] then split_space [] cs else cur # split_space [] cs)
      else split_space (cur @ [c]) cs)"

definition ring_verb :: "string \<Rightarrow> ring \<Rightarrow> string \<times> ring" where
  "ring_verb args r =
     (case split_space [] args of
        [] \<Rightarrow> (ring_write r, r)
      | w # ws \<Rightarrow>
          if w = ''on'' then ([], ring_switch True r)
          else if w = ''off'' then ([], ring_switch False r)
          else (ring_write r, r))"

section \<open>Searching quoted text\<close>

lemma after_sub_skip:
  "quote \<notin> set s \<Longrightarrow> after_sub (quote # k) (s @ t) = after_sub (quote # k) t"
proof (induction s)
  case (Cons c s)
  then show ?case by (simp add: after_sub.simps [of "quote # k" "c # s @ t"])
qed simp

lemma after_sub_none: "quote \<notin> set s \<Longrightarrow> after_sub (quote # k) s = None"
  using after_sub_skip [of s k "[]"] by (simp add: after_sub.simps [of "quote # k" "[]"])

lemma strip_quoted:
  "quote \<notin> set w \<Longrightarrow> quote \<notin> set n \<Longrightarrow>
     strip_prefix (w @ quote # k) (n @ quote # t) = (if w = n then strip_prefix k t else None)"
proof (induction w arbitrary: n)
  case Nil
  then show ?case by (cases n) auto
next
  case (Cons c w)
  then show ?case by (cases n) auto
qed

lemma after_sub_quoted:
  assumes "quote \<notin> set w" "quote \<notin> set n"
  shows "after_sub (quote # w @ quote # k) (quote # n @ quote # t) =
    (case (if w = n then strip_prefix k t else None) of
       Some r \<Rightarrow> Some r | None \<Rightarrow> after_sub (quote # w @ quote # k) (quote # t))"
  using strip_quoted [OF assms, of k t] after_sub_skip [OF assms(2), of "w @ quote # k" "quote # t"]
  by (subst after_sub.simps) (auto split: option.splits)

lemma before_sub_stops:
  assumes "quote \<notin> set s"
  shows "\<exists>x. before_sub (quote # k) (s @ quote # t) = s @ x \<and> (x = [] \<or> hd x = quote)"
  using assms
proof (induction s)
  case Nil
  show ?case
    by (cases "strip_prefix (quote # k) (quote # t)") (simp_all add: before_sub.simps [of "quote # k" "quote # t"])
next
  case (Cons c s)
  then show ?case by (simp add: before_sub.simps [of "quote # k" "c # s @ quote # t"])
qed

section \<open>Numbers\<close>

definition is_digit :: "char \<Rightarrow> bool" where
  "is_digit c \<longleftrightarrow> 48 \<le> (of_char c :: nat) \<and> (of_char c :: nat) \<le> 57"

lemma decimal_digits: "decimal n \<noteq> [] \<and> (\<forall>c \<in> set (decimal n). is_digit c)"
proof (induction n rule: decimal.induct)
  case (1 n)
  have d: "is_digit (digit_char m)" if "m < 10" for m using that by (simp add: is_digit_def digit_char_def)
  with 1 show ?case by (cases "n < 10") (simp_all add: decimal.simps [of n])
qed

lemma decimal_no_quote: "quote \<notin> set (decimal n)"
proof
  assume "quote \<in> set (decimal n)"
  then have "is_digit quote" using decimal_digits by blast
  then show False by (simp add: is_digit_def)
qed

lemma decimal_not: "\<not> is_digit c \<Longrightarrow> decimal n \<noteq> c # cs"
  using decimal_digits [of n] by (metis list.set_intros(1))

lemma kind_no_quote: "quote \<notin> set (kind_name k)"
  by (cases k) simp_all

lemma tier_no_quote: "quote \<notin> set (tier_name t)"
  by (cases t) simp_all

lemma why_no_quote: "quote \<notin> set (why_name w)"
  by (cases w rule: why_name.cases) simp_all

lemmas no_quotes = decimal_no_quote kind_no_quote tier_no_quote why_no_quote


section \<open>A line as the pieces between its quotes\<close>

fun joined :: "string list \<Rightarrow> string" where
  "joined [] = []"
| "joined [s] = s"
| "joined (s # t # ss) = s @ quote # joined (t # ss)"

definition plain :: "string list \<Rightarrow> bool" where
  "plain ss \<longleftrightarrow> (\<forall>s \<in> set ss. quote \<notin> set s)"

lemma plain_simps [simp]:
  "plain []" "plain (s # ss) \<longleftrightarrow> quote \<notin> set s \<and> plain ss"
  by (simp_all add: plain_def)

lemma contains_joined:
  assumes "plain (s # ss)" "quote \<notin> set w"
  shows "contains (joined (s # ss)) (quoted w) \<longleftrightarrow> w \<in> set (butlast ss)"
  using assms(1)
proof (induction ss arbitrary: s)
  case Nil
  then show ?case using after_sub_none [of s] by (simp add: contains_def quoted_def)
next
  case (Cons t ss)
  have skip: "after_sub (quoted w) (joined (s # t # ss)) = after_sub (quoted w) (quote # joined (t # ss))"
    using Cons.prems after_sub_skip by (simp add: quoted_def)
  show ?case
  proof (cases ss)
    case Nil
    have "strip_prefix (w @ [quote]) t = None"
      using Cons.prems assms(2)
    proof (induction w arbitrary: t)
      case (Cons c w)
      then show ?case by (cases t) auto
    qed (case_tac t, auto)
    then have "after_sub (quoted w) (quote # t) = None"
      using Cons.prems after_sub_none [of t "w @ [quote]"] by (subst after_sub.simps) (simp add: quoted_def)
    then show ?thesis using skip Nil by (simp add: contains_def)
  next
    case (Cons u us)
    have "after_sub (quoted w) (quote # t @ quote # joined (u # us)) =
        (case (if w = t then strip_prefix [] (joined (u # us)) else None) of
           Some r \<Rightarrow> Some r | None \<Rightarrow> after_sub (quoted w) (quote # joined (u # us)))"
      using after_sub_quoted [of w t "[]" "joined (u # us)"] Cons.prems assms(2) by (simp add: quoted_def)
    moreover have "after_sub (quoted w) (joined (t # u # us)) = after_sub (quoted w) (quote # joined (u # us))"
      using Cons.prems after_sub_skip by (simp add: quoted_def)
    moreover have "contains (joined (t # u # us)) (quoted w) \<longleftrightarrow> w \<in> set (butlast (u # us))"
      using Cons.IH [of t] Cons.prems \<open>ss = u # us\<close> by simp
    ultimately show ?thesis using skip \<open>ss = u # us\<close> by (auto simp: contains_def)
  qed
qed

fun key_rest :: "string \<Rightarrow> string list \<Rightarrow> string option" where
  "key_rest w (t # u # ss) =
     (if w = t \<and> u \<noteq> [] \<and> hd u = CHR '':'' then Some (joined (tl u # ss)) else key_rest w (u # ss))"
| "key_rest w ss = None"

lemma joined_hd: "u \<noteq> [] \<Longrightarrow> joined (u # ss) = hd u # joined (tl u # ss)"
  by (cases ss; cases u) auto

lemma joined_empty: "joined ([] # ss) = [] \<or> hd (joined ([] # ss)) = quote"
  by (cases ss) auto

lemma strip_colon:
  "strip_prefix '':'' (joined (u # ss)) =
     (if u \<noteq> [] \<and> hd u = CHR '':'' then Some (joined (tl u # ss)) else None)"
proof (cases u)
  case Nil
  then show ?thesis by (cases ss) auto
next
  case (Cons c cs)
  then show ?thesis using joined_hd [of u ss] by auto
qed

lemma after_key:
  assumes "plain (s # ss)" "quote \<notin> set w"
  shows "after_sub (json_key w) (joined (s # ss)) = key_rest w ss"
proof -
  have key: "json_key w = quote # w @ quote # '':''" by (simp add: json_key_def quoted_def)
  show ?thesis
    using assms(1)
  proof (induction ss arbitrary: s)
    case Nil
    then show ?case using after_sub_none [of s] by (simp add: key)
  next
    case (Cons t ss)
    have skip: "after_sub (json_key w) (joined (s # t # ss)) = after_sub (json_key w) (quote # joined (t # ss))"
      using Cons.prems after_sub_skip by (simp add: key)
    show ?case
    proof (cases ss)
      case Nil
      have "strip_prefix (w @ quote # '':'') t = None"
        using Cons.prems assms(2)
      proof (induction w arbitrary: t)
        case (Cons c w)
        then show ?case by (cases t) auto
      qed (case_tac t, auto)
      then have "after_sub (json_key w) (quote # t) = None"
        using Cons.prems after_sub_none [of t "w @ quote # '':''"] by (subst after_sub.simps) (simp add: key)
      then show ?thesis using skip Nil by simp
    next
      case (Cons u us)
      have "after_sub (json_key w) (quote # t @ quote # joined (u # us)) =
          (case (if w = t then strip_prefix '':'' (joined (u # us)) else None) of
             Some r \<Rightarrow> Some r | None \<Rightarrow> after_sub (json_key w) (quote # joined (u # us)))"
        unfolding key using after_sub_quoted [of w t "'':''" "joined (u # us)"] Cons.prems assms(2) by simp
      moreover have "after_sub (json_key w) (joined (t # u # us)) = after_sub (json_key w) (quote # joined (u # us))"
        using Cons.prems after_sub_skip by (simp add: key)
      moreover have "after_sub (json_key w) (joined (t # u # us)) = key_rest w (u # us)"
        using Cons.IH [of t] Cons.prems \<open>ss = u # us\<close> by simp
      ultimately show ?thesis using skip \<open>ss = u # us\<close> by (auto simp: strip_colon)
    qed
  qed
qed

lemma before_sub_skip: "quote \<notin> set s \<Longrightarrow> before_sub (quote # k) (s @ t) = s @ before_sub (quote # k) t"
proof (induction s)
  case (Cons c s)
  then show ?case by (simp add: before_sub.simps [of "quote # k" "c # s @ t"])
qed simp

lemma decimal_span:
  assumes "t = [] \<or> hd t \<in> {quote, CHR '',''}"
  shows "takeWhile (\<lambda>c. c \<notin> {quote, CHR '','', CHR ''}''}) (dropWhile (\<lambda>c. c \<in> {CHR '':'', CHR '' '', quote}) (decimal n @ t)) = decimal n"
proof -
  obtain c cs where d: "decimal n = c # cs" "is_digit c" using decimal_digits [of n] by (cases "decimal n") auto
  have "c \<notin> {CHR '':'', CHR '' '', quote}" using d(2) by (auto simp: is_digit_def)
  then have "dropWhile (\<lambda>c. c \<in> {CHR '':'', CHR '' '', quote}) (decimal n @ t) = decimal n @ t" by (simp add: d)
  moreover have "\<forall>c \<in> set (decimal n). c \<notin> {quote, CHR '','', CHR ''}''}"
    using decimal_digits [of n] by (auto simp: is_digit_def)
  ultimately show ?thesis using assms by (cases t) (auto simp: takeWhile_append2)
qed

lemma parse_number: "n \<le> umax 64 \<Longrightarrow> parse_uint 10 (umax 64) (trim (decimal n)) = Some n"
  using trim_plain [OF alnum_ends] decimal_alnum parse_decimal by metis

lemma field_bare:
  assumes "after_sub (json_key w) line = Some (decimal n @ CHR '','' # t)" "n \<le> umax 64"
  shows "json_field line (json_key w) = Inr n"
proof -
  have "before_sub (json_key w) (decimal n @ CHR '','' # t) = decimal n @ CHR '','' # before_sub (json_key w) t"
    using before_sub_skip [of "decimal n @ '',''" _ t] decimal_no_quote by (simp add: json_key_def quoted_def)
  then show ?thesis
    using assms(1) decimal_span [of "CHR '','' # before_sub (json_key w) t" n] parse_number [OF assms(2)]
    by (simp add: json_field_def Let_def)
qed

lemma field_quoted:
  assumes "after_sub (json_key w) line = Some (quote # decimal n @ quote # t)" "n \<le> umax 64"
    and "quote \<notin> set w" "w \<noteq> decimal n"
  shows "json_field line (json_key w) = Inr n"
proof -
  have key: "json_key w = quote # w @ quote # '':''" by (simp add: json_key_def quoted_def)
  obtain x where x: "before_sub (json_key w) (decimal n @ quote # t) = decimal n @ x" "x = [] \<or> hd x = quote"
    using before_sub_stops [OF decimal_no_quote, of "w @ quote # '':''" n t] by (auto simp: key)
  have "before_sub (json_key w) (quote # decimal n @ quote # t) = quote # decimal n @ x"
    using strip_quoted [OF assms(3) decimal_no_quote, of "'':''" n t] assms(4) x(1)
    by (subst before_sub.simps) (simp add: key)
  moreover have "dropWhile (\<lambda>c. c \<in> {CHR '':'', CHR '' '', quote}) (quote # decimal n @ x) =
      dropWhile (\<lambda>c. c \<in> {CHR '':'', CHR '' '', quote}) (decimal n @ x)" by simp
  ultimately show ?thesis
    using assms(1) decimal_span [of x n] x(2) parse_number [OF assms(2)]
    by (auto simp: json_field_def Let_def)
qed


section \<open>What the derivation reads on a line\<close>

definition event_pieces :: "event \<Rightarrow> string list" where
  "event_pieces e =
     [''seq'', '':'' @ decimal (ev_seq e) @ '','', ''event'', '':'', kind_name (ev_kind e), '','',
      ''region'', '':'' @ decimal (event_region e) @ '','', ''object'', '':'', decimal (unat (ev_object e)), '','',
      ''session'', '':'' @ decimal (ev_session e) @ '','', ''offset'', '':'' @ decimal (ev_offset e) @ '','',
      ''bytes'', '':'' @ decimal (ev_bytes e) @ '','', ''cost'', '':'' @ decimal (ev_cost e) @ '','',
      ''tier'', '':'', tier_name (ev_tier e), '','', ''why'', '':'', why_name (ev_why e), ''}'']"

definition lost_pieces :: "nat \<Rightarrow> string list" where
  "lost_pieces d =
     [''seq'', '':'' @ decimal 0 @ '','', ''event'', '':'', ''dropped'', '','',
      ''region'', '':'' @ decimal 0 @ '','', ''object'', '':'', ''0'', '','',
      ''session'', '':'' @ decimal 0 @ '','', ''offset'', '':'' @ decimal 0 @ '','',
      ''bytes'', '':'' @ decimal d @ '','', ''cost'', '':'' @ decimal 0 @ '','',
      ''tier'', '':'', [], '','', ''why'', '':'', [], ''}'']"

lemma event_line_joined: "event_line e = joined ((MARKER @ '' {'') # event_pieces e)"
  by (simp add: event_line_def event_pieces_def json_number_def json_word_def json_key_def quoted_def)

lemma lost_line_joined: "lost_line d = joined ((MARKER @ '' {'') # lost_pieces d)"
  by (simp add: lost_line_def lost_pieces_def json_number_def json_word_def json_key_def quoted_def)

text \<open>The lines as they are after any head without quotes: the marker and the brace, or the brace alone.\<close>

definition event_after :: "string \<Rightarrow> event \<Rightarrow> string" where "event_after h e = joined (h # event_pieces e)"
definition lost_after :: "string \<Rightarrow> nat \<Rightarrow> string" where "lost_after h d = joined (h # lost_pieces d)"

lemma pieces_plain:
  "quote \<notin> set h \<Longrightarrow> plain (h # event_pieces e)" "quote \<notin> set h \<Longrightarrow> plain (h # lost_pieces d)"
  by (simp_all add: event_pieces_def lost_pieces_def no_quotes)

lemma marker_after: "event_line = event_after (MARKER @ '' {'')" "lost_line = lost_after (MARKER @ '' {'')" "quote \<notin> set (MARKER @ '' {'')"
  by (simp_all add: fun_eq_iff event_line_joined lost_line_joined event_after_def lost_after_def MARKER_def)

lemma not_digit: "\<not> is_digit (CHR ''d'')" "\<not> is_digit (CHR ''p'')" "\<not> is_digit (CHR ''h'')" "\<not> is_digit (CHR ''r'')"
  "\<not> is_digit (CHR ''s'')" "\<not> is_digit (CHR ''o'')" "\<not> is_digit (CHR ''b'')"
  by (simp_all add: is_digit_def)

lemma decimal_no_word [simp]:
  "decimal n \<noteq> ''dropped''" "decimal n \<noteq> ''placed''" "decimal n \<noteq> ''hit''" "decimal n \<noteq> ''refused''"
  "decimal n \<noteq> ''session''" "decimal n \<noteq> ''object''" "decimal n \<noteq> ''bytes''"
  by (simp_all add: decimal_not not_digit)

lemma kind_not [simp]:
  "kind_name k \<noteq> ''dropped''" "kind_name k \<noteq> ''session''" "kind_name k \<noteq> ''object''" "kind_name k \<noteq> ''bytes''"
  by (cases k; simp)+

lemma tier_not [simp]:
  "tier_name t \<noteq> ''dropped''" "tier_name t \<noteq> ''placed''" "tier_name t \<noteq> ''hit''" "tier_name t \<noteq> ''refused''"
  by (cases t; simp)+

lemma why_not [simp]: "why_name w \<noteq> ''dropped''"
  by (cases w rule: why_name.cases) simp_all

lemmas no_word = decimal_no_word kind_not tier_not why_not
lemmas no_word_sym [simp] = no_word [THEN not_sym]

lemma dropped_quoted: "quote \<notin> set ''dropped''" "quote \<notin> set ''placed''" "quote \<notin> set ''hit''" "quote \<notin> set ''refused''"
  "quote \<notin> set ''session''" "quote \<notin> set ''object''" "quote \<notin> set ''bytes''"
  by simp_all

lemma event_not_dropped:
  assumes h: "quote \<notin> set h"
  shows "event_dropped (event_after h e) = Inr False"
proof -
  have "''dropped'' \<notin> set (butlast (event_pieces e))"
    by (simp add: event_pieces_def)
  then show ?thesis
    unfolding event_dropped_def event_after_def contains_joined [OF pieces_plain(1) [OF h] dropped_quoted(1)] by simp
qed

lemma event_acquires:
  assumes h: "quote \<notin> set h" and "ev_kind e = Evicted \<longrightarrow> ev_why e = None"
  shows "list_ex (contains (event_after h e)) ACQUIRES \<longleftrightarrow> ev_kind e \<noteq> Evicted"
proof -
  have "list_ex (contains (event_after h e)) ACQUIRES \<longleftrightarrow>
      ''placed'' \<in> set (butlast (event_pieces e)) \<or> ''hit'' \<in> set (butlast (event_pieces e)) \<or>
      ''refused'' \<in> set (butlast (event_pieces e))"
    unfolding event_after_def ACQUIRES_def
    by (simp add: contains_joined [OF pieces_plain(1) [OF h]])
  also have "\<dots> \<longleftrightarrow> ev_kind e \<noteq> Evicted"
    using assms(2) by (cases "ev_kind e") (simp_all add: event_pieces_def)
  finally show ?thesis .
qed

lemma event_access_line:
  assumes h: "quote \<notin> set h" and "ev_session e \<le> umax 16"
  shows "event_access (event_after h e) = Inr \<lparr>ac_session = ev_session e, ac_object = ev_object e\<rparr>"
proof -
  have o64: "unat (ev_object e) \<le> umax 64" using unsigned_less [of "ev_object e", where ?'a = nat] by simp
  have s64: "ev_session e \<le> umax 64" using assms(2) by simp
  have "after_sub (json_key ''session'') (event_after h e) =
      Some (decimal (ev_session e) @ CHR '','' # quote # joined (drop 14 (event_pieces e)))"
    unfolding event_after_def after_key [OF pieces_plain(1) [OF h] dropped_quoted(5)]
    by (simp add: event_pieces_def)
  from field_bare [OF this s64] have s: "json_field (event_after h e) (json_key ''session'') = Inr (ev_session e)" .
  have "after_sub (json_key ''object'') (event_after h e) =
      Some (quote # decimal (unat (ev_object e)) @ quote # joined (drop 11 (event_pieces e)))"
    unfolding event_after_def after_key [OF pieces_plain(1) [OF h] dropped_quoted(6)]
    by (simp add: event_pieces_def)
  from field_quoted [OF this o64] have i: "json_field (event_after h e) (json_key ''object'') = Inr (unat (ev_object e))"
    by simp
  show ?thesis using s i assms(2) by (simp add: event_access_def json_key_def)
qed

lemma lost_dropped:
  assumes h: "quote \<notin> set h" and d: "d \<le> umax 64"
  shows "event_dropped (lost_after h d) = (if d = 0 then Inr True else Inl TooFew)"
proof -
  have "contains (lost_after h d) (quoted ''dropped'')"
    unfolding lost_after_def contains_joined [OF pieces_plain(2) [OF h] dropped_quoted(1)] by (simp add: lost_pieces_def)
  moreover have "after_sub (json_key ''bytes'') (lost_after h d) =
      Some (decimal d @ CHR '','' # quote # joined (drop 18 (lost_pieces d)))"
    unfolding lost_after_def after_key [OF pieces_plain(2) [OF h] dropped_quoted(7)] by (simp add: lost_pieces_def)
  ultimately show ?thesis using field_bare [OF _ d] by (simp add: event_dropped_def json_key_def)
qed

section \<open>The whole text\<close>

lemma no_newline:
  "newline \<notin> set (decimal n)" "newline \<notin> set (kind_name k)" "newline \<notin> set (tier_name t)" "newline \<notin> set (why_name w)"
proof -
  show "newline \<notin> set (decimal n)" using alnum_not_in(1) [of "decimal n"] decimal_alnum [of n] by blast
  show "newline \<notin> set (kind_name k)" by (cases k) (simp_all add: newline_def)
  show "newline \<notin> set (tier_name t)" by (cases t) (simp_all add: newline_def)
  show "newline \<notin> set (why_name w)" by (cases w rule: why_name.cases) (simp_all add: newline_def)
qed

lemma lines_no_newline: "newline \<notin> set (event_line e)" "newline \<notin> set (lost_line d)"
  using no_newline
  by (simp_all add: event_line_def lost_line_def json_number_def json_word_def json_key_def quoted_def MARKER_def)
    (simp_all add: newline_def)

lemma line_end_lines: "newline \<notin> set l \<Longrightarrow> text_lines (l @ line_end @ rest) = l # text_lines rest"
  using text_lines_line [of "l @ [carriage]" rest]
  by (simp add: line_end_def strip_carriage_def) (simp add: newline_def carriage_def)

lemma ring_write_lines: "text_lines (ring_write r) = map event_line (ring_events r) @ [lost_line (rg_dropped r)]"
proof -
  have "text_lines (concat (map (\<lambda>e. event_line e @ line_end) es) @ lost_line d @ line_end) = map event_line es @ [lost_line d]"
    for es d
    using line_end_lines [OF lines_no_newline(2), of d "[]"]
    by (induction es) (simp_all add: line_end_lines [OF lines_no_newline(1)])
  then show ?thesis by (simp add: ring_write_def)
qed

definition acquires :: "event list \<Rightarrow> access list" where
  "acquires es = map (\<lambda>e. \<lparr>ac_session = ev_session e, ac_object = ev_object e\<rparr>) (filter (\<lambda>e. ev_kind e \<noteq> Evicted) es)"

definition event_ok :: "event \<Rightarrow> bool" where
  "event_ok e \<longleftrightarrow> ev_session e \<le> umax 16 \<and> (ev_kind e = Evicted \<longrightarrow> ev_why e = None)"

lemma derive_events:
  assumes h: "quote \<notin> set h" and d: "d \<le> umax 64" and "\<forall>e \<in> set es. event_ok e" "length acc \<le> room"
  shows "derive_lines room (map (event_after h) es @ [lost_after h d]) acc =
    (if room < length acc + length (acquires es) then Inl TooMany
     else if d = 0 then Inr (acc @ acquires es) else Inl TooFew)"
  using assms(3,4)
proof (induction es arbitrary: acc)
  case Nil
  then show ?case using lost_dropped [OF h d] by (simp add: acquires_def)
next
  case (Cons e es)
  have e: "ev_session e \<le> umax 16" "ev_kind e = Evicted \<longrightarrow> ev_why e = None" using Cons.prems by (simp_all add: event_ok_def)
  show ?case
  proof (cases "ev_kind e = Evicted")
    case True
    then have "\<not> list_ex (contains (event_after h e)) ACQUIRES" using event_acquires [OF h e(2)] by simp
    then show ?thesis using Cons True event_not_dropped [OF h] by (simp add: acquires_def)
  next
    case False
    then have "list_ex (contains (event_after h e)) ACQUIRES" using event_acquires [OF h e(2)] by simp
    then show ?thesis
      using Cons.IH [of "acc @ [\<lparr>ac_session = ev_session e, ac_object = ev_object e\<rparr>]"] Cons.prems False
        event_not_dropped [OF h, of e] event_access_line [OF h e(1)]
      by (auto simp: acquires_def)
  qed
qed

section \<open>Properties\<close>

text \<open>C27: the trace derived from a written recording is exactly the acquires among the ring's
  events, in order; it is refused when the caller's buffer is short, or when the ring overwrote
  an event.\<close>

theorem derived_trace_exact:
  assumes "\<forall>e \<in> set (ring_events r). event_ok e" "rg_dropped r \<le> umax 32"
  shows "trace_from_events (ring_write r) room =
    (if room < length (acquires (ring_events r)) then Inl TooMany
     else if rg_dropped r = 0 then Inr (acquires (ring_events r)) else Inl TooFew)"
proof -
  have "rg_dropped r \<le> umax 64" using assms(2) by simp
  from derive_events [OF marker_after(3) this assms(1), of "[]" room] show ?thesis
    by (simp add: trace_from_events_def ring_write_lines marker_after(1,2))
qed

lemma derived_trace_exact_witness:
  "trace_from_events (ring_write \<lparr>rg_enabled = True,
       rg_events = [Some (event_hit 5 1 64), Some (event_evicted 6 2 sample_meta), None, Some (event_hit 7 2 64)],
       rg_next = 2, rg_seq = 3, rg_dropped = 0\<rparr>) 8 =
     Inr [\<lparr>ac_session = 2, ac_object = 7\<rparr>, \<lparr>ac_session = 1, ac_object = 5\<rparr>]"
proof -
  let ?r = "\<lparr>rg_enabled = True,
       rg_events = [Some (event_hit 5 1 64), Some (event_evicted 6 2 sample_meta), None, Some (event_hit 7 2 64)],
       rg_next = 2, rg_seq = 3, rg_dropped = 0\<rparr>"
  have es: "ring_events ?r = [event_hit 7 2 64, event_hit 5 1 64, event_evicted 6 2 sample_meta]"
    by (simp add: ring_events_def map_filter_simps)
  have "\<forall>e \<in> set (ring_events ?r). event_ok e" unfolding es by (simp add: event_ok_def event_hit_def event_evicted_def)
  from derived_trace_exact [OF this, of 8] show ?thesis
    unfolding es by (simp add: acquires_def event_hit_def event_evicted_def)
qed

end
