(* ===== verification/Snapshot.thy ===== *)
theory Snapshot
  imports Spaces Synth Objman Layout Machine EventLines
begin

text \<open>
  crates/mlos-snapshot: the running object store written out as a layout document. A row per
  region, the columns walked from the rows, and the text. The sink is the string built; a
  write error is dropped by the code and does not occur here.
\<close>

section \<open>Rows (rows.rs)\<close>

definition GRAIN :: nat where "GRAIN = ALIGN"

record row =
  rw_place :: space
  rw_id :: u32
  rw_start :: nat
  rw_length :: nat
  rw_kind :: string
  rw_owner :: string
  rw_tier :: string
  rw_state :: string
  rw_object :: object_id
  rw_at :: "u16 \<times> u16"
  rw_next_use :: next_use
  rw_reuse :: nat
  rw_cost :: nat

definition object_row :: "space \<Rightarrow> object_id \<Rightarrow> object_meta \<Rightarrow> nat \<times> nat \<Rightarrow> row option" where
  "object_row place i m extent =
     (case region_object place i of
        None \<Rightarrow> None
      | Some r \<Rightarrow>
          (case object_class_of i of
             None \<Rightarrow> None
           | Some c \<Rightarrow>
               Some \<lparr>rw_place = place, rw_id = r, rw_start = fst extent, rw_length = snd extent,
                     rw_kind = class_kind c, rw_owner = ''model 1'', rw_tier = tier_name (m_tier m),
                     rw_state = state_name m, rw_object = i,
                     rw_at = (f_layer (object_fields i), f_tensor (object_fields i)),
                     rw_next_use = m_next_use m, rw_reuse = m_reuse_count m, rw_cost = m_reload_cost m\<rparr>))"

definition stored_row :: "manager \<Rightarrow> object_id \<Rightarrow> row option" where
  "stored_row M i =
     (case table_get (mg_table M) i of
        None \<Rightarrow> None
      | Some m \<Rightarrow> object_row SpaceDisk i m (sector_of i * SECTOR, m_size m))"

definition stored_ids :: "object_id list" where
  "stored_ids = concat (map (\<lambda>layer. map (\<lambda>tensor. tile (of_nat layer) (of_nat tensor)) [0..<TILES]) [0..<LAYERS])"

definition stored_rows :: "manager \<Rightarrow> row list" where
  "stored_rows M = List.map_filter (stored_row M) stored_ids"

definition placed_row :: "manager \<Rightarrow> nat \<Rightarrow> object_id \<Rightarrow> row option" where
  "placed_row M base i =
     (case table_get (mg_table M) i of
        None \<Rightarrow> None
      | Some m \<Rightarrow>
          (case checked_sub (m_resident_at m) base of
             None \<Rightarrow> None
           | Some at \<Rightarrow> object_row SpaceDram i m (at, next_multiple_of GRAIN (m_size m))))"

definition placed_ids :: "object_id list" where
  "placed_ids = concat (map (\<lambda>layer. map (\<lambda>tensor. tile (of_nat layer) (of_nat tensor)) [0..<TILES] @ [activation (of_nat layer)]) [0..<LAYERS])"

definition placed_rows :: "manager \<Rightarrow> nat \<Rightarrow> row list" where
  "placed_rows M base = List.map_filter (placed_row M base) placed_ids"

definition snapshot_rows :: "manager \<Rightarrow> nat \<Rightarrow> row \<Rightarrow> row list" where
  "snapshot_rows M base tail =
     stored_rows M @ placed_rows M base @ (if 0 < rw_length tail then [tail] else [])"

section \<open>Columns (columns.rs, parts.rs)\<close>

definition crlf :: string where "crlf = [carriage, newline]"

definition snap_column :: "string \<times> string list \<Rightarrow> string" where
  "snap_column c = '' '' @ '' '' @ [CHR 0x22] @ fst c @ [CHR 0x22] @ '': ['' @ join '', '' (snd c) @ ''],'' @ crlf"

definition snap_text :: "string \<Rightarrow> (row \<Rightarrow> string) \<Rightarrow> row list \<Rightarrow> string \<times> string list" where
  "snap_text name f rows = (name, map (\<lambda>r. [CHR 0x22] @ f r @ [CHR 0x22]) rows)"

definition snap_nums :: "string \<Rightarrow> (row \<Rightarrow> nat) \<Rightarrow> row list \<Rightarrow> string \<times> string list" where
  "snap_nums name f rows = (name, map (\<lambda>r. decimal (f r)) rows)"

definition snap_spaces :: "nat \<Rightarrow> nat \<Rightarrow> (string \<times> string list) list" where
  "snap_spaces stored capacity =
     [(''spaces'', map (\<lambda>s. [CHR 0x22] @ s @ [CHR 0x22]) [space_key SpaceDisk, space_key SpaceDram]),
      (''space_name'', map (\<lambda>s. [CHR 0x22] @ s @ [CHR 0x22]) [''virtio-blk model image'', ''object arena'']),
      (''space_block'', map decimal [SECTOR, GRAIN]),
      (''space_capacity'', map decimal [stored, capacity])]"

definition row_name :: "row \<Rightarrow> string" where
  "row_name r =
     (if rw_object r = 0 then ''free at 0x'' @ hex (rw_start r)
      else ''layer '' @ decimal (unat (fst (rw_at r))) @ '' tile '' @ decimal (unat (snd (rw_at r))))"

definition snap_contract :: "row list \<Rightarrow> (string \<times> string list) list" where
  "snap_contract rows =
     [snap_nums ''region_id'' (\<lambda>r. unat (rw_id r)) rows, snap_nums ''region_start'' rw_start rows,
      snap_nums ''region_length'' rw_length rows, snap_nums ''region_text_words'' (\<lambda>_. 0) rows,
      snap_nums ''region_data_words'' (\<lambda>_. 0) rows, snap_nums ''region_bss_words'' (\<lambda>_. 0) rows,
      snap_text ''region_space'' (\<lambda>r. space_key (rw_place r)) rows, snap_text ''region_kind'' rw_kind rows,
      snap_text ''region_owner'' rw_owner rows, snap_text ''region_name'' row_name rows]"

definition row_object :: "row \<Rightarrow> string" where
  "row_object r = (if rw_object r \<noteq> 0 then decimal (unat (rw_object r)) else [])"

definition row_next_use :: "row \<Rightarrow> string" where
  "row_next_use r = (if rw_object r \<noteq> 0 then next_use_text (rw_next_use r) else [])"

definition snap_extras :: "row list \<Rightarrow> (string \<times> string list) list" where
  "snap_extras rows =
     [snap_text ''region_tier'' rw_tier rows, snap_text ''region_state'' rw_state rows,
      snap_nums ''region_reuse'' rw_reuse rows, snap_nums ''region_cost'' rw_cost rows,
      snap_text ''region_object_id'' row_object rows, snap_text ''region_next_use'' row_next_use rows]"

definition is_backed :: "row \<Rightarrow> bool" where
  "is_backed r \<longleftrightarrow> rw_place r = SpaceDram \<and> drop_bit 24 (rw_id r) AND 0xf = ucast (class_u8 WeightTile)"

definition backed_from :: "row \<Rightarrow> u32" where
  "backed_from r = (rw_id r AND 0x0fffffff) OR push_bit 28 (space_u32 SpaceDisk)"

definition snap_edges :: "row list \<Rightarrow> (string \<times> string list) list" where
  "snap_edges rows =
     (let backed = filter is_backed rows in
      [snap_text ''rel_kind'' (\<lambda>_. ''backs'') backed, snap_nums ''rel_from'' (\<lambda>r. unat (backed_from r)) backed,
       snap_nums ''rel_to'' (\<lambda>r. unat (rw_id r)) backed])"

section \<open>The document (lib.rs)\<close>

definition PRODUCER :: string where "PRODUCER = ''mlos''"

definition snapshot_tail :: "nat \<Rightarrow> nat \<Rightarrow> row" where
  "snapshot_tail used capacity =
     \<lparr>rw_place = SpaceDram, rw_id = structural_id SpaceDram 0, rw_start = used, rw_length = capacity - used,
      rw_kind = ''free'', rw_owner = [], rw_tier = [], rw_state = ''fixed'', rw_object = 0, rw_at = (0, 0),
      rw_next_use = Never, rw_reuse = 0, rw_cost = 0\<rparr>"

definition snapshot_head :: string where
  "snapshot_head =
     ''{'' @ crlf @ '' '' @ '' '' @ [CHR 0x22] @ ''schema'' @ [CHR 0x22] @ '': '' @ [CHR 0x22] @ SCHEMA @ [CHR 0x22] @ '','' @ crlf @
     '' '' @ '' '' @ [CHR 0x22] @ ''version'' @ [CHR 0x22] @ '': '' @ decimal LAYOUT_VERSION @ '','' @ crlf @ crlf"

definition snapshot_foot :: "string \<Rightarrow> string" where
  "snapshot_foot revision =
     crlf @ '' '' @ '' '' @ [CHR 0x22] @ ''provenance'' @ [CHR 0x22] @ '': { '' @ [CHR 0x22] @ ''producer'' @ [CHR 0x22] @ '': '' @
     [CHR 0x22] @ PRODUCER @ [CHR 0x22] @ '', '' @ [CHR 0x22] @ ''revision'' @ [CHR 0x22] @ '': '' @ [CHR 0x22] @ revision @ [CHR 0x22] @
     '' }'' @ crlf @ ''}'' @ crlf"

definition manager_rows :: "manager \<Rightarrow> row list" where
  "manager_rows M =
     (let a = arena_occupancy (mg_arena M) in snapshot_rows M (oc_base a) (snapshot_tail (oc_used a) (oc_capacity a)))"

definition snapshot_of :: "manager \<Rightarrow> string \<Rightarrow> string" where
  "snapshot_of M revision =
     (let rows = manager_rows M in
      snapshot_head @
      concat (map snap_column (snap_spaces (LAYERS * TILES * TILE_BYTES) (oc_capacity (arena_occupancy (mg_arena M))))) @ crlf @
      concat (map snap_column (snap_contract rows)) @ concat (map snap_column (snap_extras rows)) @ crlf @
      concat (map snap_column (snap_edges rows)) @ snapshot_foot revision)"

text \<open>\<open>write\<close> answers whether there was a manager; \<open>write_for\<close> takes the revision from the boot arguments.\<close>

definition snapshot_write :: "manager option \<Rightarrow> string \<Rightarrow> bool \<times> string" where
  "snapshot_write held revision = (case held of None \<Rightarrow> (False, []) | Some M \<Rightarrow> (True, snapshot_of M revision))"

definition snapshot_write_for :: "manager option \<Rightarrow> string \<Rightarrow> bool \<times> string" where
  "snapshot_write_for held bootargs =
     (let ws = split_space [] (bootargs_rest bootargs ''mlos.rev='') in
      snapshot_write held (case ws of [] \<Rightarrow> [] | w # _ \<Rightarrow> w))"

end
