(* ===== verification/LayoutProofs.thy ===== *)
theory LayoutProofs
  imports Layout "HOL-Library.Multiset"
begin

text \<open>
  Filling a space: the regions with the gaps between them cover it from zero to its capacity,
  exactly when they do not overlap or overrun. A document made of filled spaces passes the
  validator's checks of its columns.
\<close>

section \<open>Filling\<close>

fun chain_from :: "nat \<Rightarrow> lay_region list \<Rightarrow> nat \<Rightarrow> bool" where
  "chain_from at [] e \<longleftrightarrow> at = e"
| "chain_from at (r # rs) e \<longleftrightarrow> lr_start r = at \<and> chain_from (at + lr_length r) rs e"

definition apart :: "lay_region list \<Rightarrow> bool" where
  "apart rs \<longleftrightarrow> sorted_wrt (\<lambda>r s. lr_start r + lr_length r \<le> lr_start s) rs"

definition is_gap :: "string \<Rightarrow> lay_region \<Rightarrow> bool" where
  "is_gap space g \<longleftrightarrow> 0 < lr_length g \<and> lr_kind g \<in> {''padding'', ''free''} \<and> lr_space g = space"

lemma gap_simps [simp]:
  "lr_start (gap space ids k at len kind) = at" "lr_length (gap space ids k at len kind) = len"
  "lr_space (gap space ids k at len kind) = space" "lr_kind (gap space ids k at len kind) = kind"
  by (simp_all add: gap_def)

lemma chain_from_append: "chain_from at (rs @ ss) e \<longleftrightarrow> (\<exists>m. chain_from at rs m \<and> chain_from m ss e)"
  by (induction rs arbitrary: at) auto

definition ends_below :: "nat \<Rightarrow> lay_region list \<Rightarrow> bool" where
  "ends_below cap rs \<longleftrightarrow> (\<forall>r \<in> set rs. lr_start r + lr_length r \<le> cap)"

lemma fill_loop_ok:
  assumes "\<forall>r \<in> set rs. lr_start r + lr_length r < 2 ^ 64" "fill_loop space ids rs k at tiled = Inr (k', at', out)"
  shows "\<exists>new gs. out = tiled @ new \<and> chain_from at new at' \<and> mset new = mset rs + mset gs \<and>
      (\<forall>g \<in> set gs. is_gap space g)"
    and "apart rs" "\<forall>r \<in> set rs. at \<le> lr_start r" "\<forall>r \<in> set rs. lr_start r + lr_length r \<le> at'"
    and "at \<le> at'" "at' = at \<or> (\<exists>r \<in> set rs. at' = lr_start r + lr_length r)"
proof -
  have "(\<exists>new gs. out = tiled @ new \<and> chain_from at new at' \<and> mset new = mset rs + mset gs \<and>
      (\<forall>g \<in> set gs. is_gap space g)) \<and> apart rs \<and> (\<forall>r \<in> set rs. at \<le> lr_start r) \<and>
      (\<forall>r \<in> set rs. lr_start r + lr_length r \<le> at') \<and> at \<le> at' \<and>
      (at' = at \<or> (\<exists>r \<in> set rs. at' = lr_start r + lr_length r))"
    using assms
  proof (induction rs arbitrary: k at tiled)
    case Nil
    then show ?case by (auto simp: apart_def)
  next
    case (Cons r rs)
    have le: "at \<le> lr_start r" using Cons.prems(2) by (auto simp: overlap_def split: if_splits)
    have after: "sat_add 64 (lr_start r) (lr_length r) = lr_start r + lr_length r"
      using Cons.prems(1) by (intro sat_add_exact) (simp add: less_Suc_eq_le)
    let ?fin = "lr_start r + lr_length r"
    let ?pre = "if at < lr_start r then [gap space ids k at (lr_start r - at) ''padding''] else []"
    obtain k1 where run: "fill_loop space ids rs k1 ?fin (tiled @ ?pre @ [r]) = Inr (k', at', out)"
      using Cons.prems(2) le by (auto simp: overlap_def after Let_def split: if_splits)
    from Cons.IH [OF _ run] Cons.prems(1) obtain new gs where
      N: "out = (tiled @ ?pre @ [r]) @ new" "chain_from ?fin new at'" "mset new = mset rs + mset gs"
        "\<forall>g \<in> set gs. is_gap space g"
      and R: "apart rs" "\<forall>s \<in> set rs. ?fin \<le> lr_start s" "\<forall>s \<in> set rs. lr_start s + lr_length s \<le> at'"
        "?fin \<le> at'" "at' = ?fin \<or> (\<exists>s \<in> set rs. at' = lr_start s + lr_length s)" by auto
    have "chain_from at (?pre @ r # new) at'" using N(2) le by auto
    moreover have "mset (?pre @ r # new) = mset (r # rs) + mset (?pre @ gs)" using N(3) by simp
    moreover have "\<forall>g \<in> set (?pre @ gs). is_gap space g" using N(4) by (auto simp: is_gap_def)
    moreover have "out = tiled @ (?pre @ r # new)" using N(1) by simp
    ultimately have "\<exists>new gs. out = tiled @ new \<and> chain_from at new at' \<and> mset new = mset (r # rs) + mset gs \<and>
      (\<forall>g \<in> set gs. is_gap space g)" by blast
    moreover have "apart (r # rs)" using R(1,2) by (simp add: apart_def)
    ultimately show ?case using R le by fastforce
  qed
  then show "\<exists>new gs. out = tiled @ new \<and> chain_from at new at' \<and> mset new = mset rs + mset gs \<and>
      (\<forall>g \<in> set gs. is_gap space g)"
    and "apart rs" "\<forall>r \<in> set rs. at \<le> lr_start r" "\<forall>r \<in> set rs. lr_start r + lr_length r \<le> at'"
    and "at \<le> at'" "at' = at \<or> (\<exists>r \<in> set rs. at' = lr_start r + lr_length r)" by blast+
qed

lemma fill_loop_err:
  assumes "\<forall>r \<in> set rs. lr_start r + lr_length r < 2 ^ 64" "fill_loop space ids rs k at tiled = Inl e"
    and "\<forall>r \<in> set rs. at \<le> lr_start r"
  shows "\<not> apart rs"
  using assms
proof (induction rs arbitrary: k at tiled)
  case (Cons r rs)
  have after: "sat_add 64 (lr_start r) (lr_length r) = lr_start r + lr_length r"
    using Cons.prems(1) by (intro sat_add_exact) (simp add: less_Suc_eq_le)
  obtain k1 t1 where run: "fill_loop space ids rs k1 (lr_start r + lr_length r) t1 = Inl e"
    using Cons.prems(2,3) by (auto simp: overlap_def after Let_def split: if_splits)
  show ?case
  proof
    assume a: "apart (r # rs)"
    then have "\<forall>s \<in> set rs. lr_start r + lr_length r \<le> lr_start s" "apart rs" by (auto simp: apart_def)
    with Cons.IH [OF _ run] Cons.prems(1) show False by simp
  qed
qed simp

lemma fill_ok:
  assumes fits: "\<forall>r \<in> set rs. lr_start r + lr_length r < 2 ^ 64" and ok: "fill space cap ids k rs = (Inr (), out)"
  shows "chain_from 0 out cap" "\<exists>gs. mset out = mset rs + mset gs \<and> (\<forall>g \<in> set gs. is_gap space g)"
    "apart (sort_key lr_start rs)" "ends_below cap rs"
proof -
  let ?rs = "sort_key lr_start rs"
  obtain k' at tiled where run: "fill_loop space ids ?rs k 0 [] = Inr (k', at, tiled)"
    and le: "at \<le> cap" and out: "out = tiled @ (if at < cap then [gap space ids k' at (cap - at) ''free''] else [])"
    using ok by (auto simp: fill_def fill_tail_def split: sum.splits if_splits)
  have fits': "\<forall>r \<in> set ?rs. lr_start r + lr_length r < 2 ^ 64" using fits by simp
  note L = fill_loop_ok [OF fits' run]
  obtain gs where gs: "chain_from 0 tiled at" "mset tiled = mset ?rs + mset gs" "\<forall>g \<in> set gs. is_gap space g"
    using L(1) by auto
  show "chain_from 0 out cap" using gs(1) le by (auto simp: out chain_from_append)
  show "\<exists>gs. mset out = mset rs + mset gs \<and> (\<forall>g \<in> set gs. is_gap space g)"
  proof (cases "at < cap")
    case True
    then show ?thesis using gs
      by (intro exI [of _ "gs @ [gap space ids k' at (cap - at) ''free'']"]) (auto simp: out is_gap_def)
  next
    case False
    then show ?thesis using gs by (intro exI [of _ gs]) (auto simp: out)
  qed
  show "apart ?rs" by (rule L(2))
  show "ends_below cap rs" using L(4) le by (fastforce simp: ends_below_def)
qed

lemma fill_err:
  assumes fits: "\<forall>r \<in> set rs. lr_start r + lr_length r < 2 ^ 64" and err: "fill space cap ids k rs = (Inl e, out)"
  shows "out = []" "\<not> (apart (sort_key lr_start rs) \<and> ends_below cap rs)"
proof -
  let ?rs = "sort_key lr_start rs"
  have fits': "\<forall>r \<in> set ?rs. lr_start r + lr_length r < 2 ^ 64" using fits by simp
  show "out = []" using err by (auto simp: fill_def split: sum.splits)
  consider (early) "fill_loop space ids ?rs k 0 [] = Inl e"
    | (late) k' at tiled where "fill_loop space ids ?rs k 0 [] = Inr (k', at, tiled)" "cap < at"
    using err by (auto simp: fill_def fill_tail_def split: sum.splits if_splits)
  then show "\<not> (apart ?rs \<and> ends_below cap rs)"
  proof cases
    case early
    then show ?thesis using fill_loop_err [OF fits' early] by simp
  next
    case late
    then show ?thesis using fill_loop_ok(6) [OF fits' late(1)] by (fastforce simp: ends_below_def)
  qed
qed

text \<open>Filling a space succeeds exactly when its regions, taken in the order of where they start,
  do not overlap and none ends past the capacity. Then what it leaves in the caller's vector covers the space
  from zero to its capacity with no hole and no overlap, and is the caller's regions, every one of them, with
  gaps of non-zero length added; when it refuses, the caller's vector has been emptied.\<close>

theorem fill_tiles:
  assumes "\<forall>r \<in> set rs. lr_start r + lr_length r < 2 ^ 64" and "fill space cap ids k rs = (res, out)"
  shows "if apart (sort_key lr_start rs) \<and> ends_below cap rs
    then res = Inr () \<and> chain_from 0 out cap \<and> (\<exists>gs. mset out = mset rs + mset gs \<and> (\<forall>g \<in> set gs. is_gap space g))
    else isl res \<and> out = []"
proof (cases res)
  case (Inl e)
  with fill_err [OF assms(1), of space cap ids k e out] assms(2) show ?thesis by (auto simp only: sum.disc if_False)
next
  case (Inr u)
  with fill_ok [OF assms(1), of space cap ids k out] assms(2) show ?thesis by (simp only: old.unit.exhaust) simp
qed

definition two_regions :: "lay_region list" where
  "two_regions = map (\<lambda>(i, at, len). gap ''ram'' (\<lambda>_. Some i) 0 at len ''object'') [(1, 48, 16), (2, 8, 32)]"

lemma two_regions_apart: "apart (sort_key lr_start two_regions)" "\<forall>r \<in> set two_regions. lr_start r + lr_length r < 2 ^ 64"
  by (simp_all add: two_regions_def apart_def)

lemma fill_tiles_witness:
  "chain_from 0 (snd (fill ''ram'' 96 Some 10 two_regions)) 96 \<and> snd (fill ''ram'' 60 Some 10 two_regions) = []"
proof -
  have "ends_below 96 two_regions" "\<not> ends_below 60 two_regions"
    by (simp_all add: two_regions_def ends_below_def)
  with fill_tiles [where space = "''ram''" and cap = 96 and ids = Some and k = 10, OF two_regions_apart(2) prod.collapse [symmetric]]
    fill_tiles [where space = "''ram''" and cap = 60 and ids = Some and k = 10, OF two_regions_apart(2) prod.collapse [symmetric]]
    two_regions_apart(1)
  show ?thesis by simp
qed

end
