(* ===== verification/LayoutText.thy ===== *)
theory LayoutText
  imports LayoutProofs EventLines
begin

text \<open>
  The document's text: a rendered document reads back as its columns, line by line, and a document
  made of filled spaces passes the validator.
\<close>

section \<open>The columns of a document\<close>

definition doc_columns :: "doc \<Rightarrow> columns" where
  "doc_columns d =
     text_columns SPACE_TEXT (dc_spaces d) @ nums_columns SPACE_NUMS (dc_spaces d) @
     nums_columns REGION_NUMS (dc_regions d) @ text_columns REGION_TEXT (dc_regions d) @ edge_columns d"

definition plain_text :: "string \<Rightarrow> bool" where
  "plain_text s \<longleftrightarrow> (\<forall>c \<in> set s. c \<noteq> CHR 0x22 \<and> c \<noteq> CHR 0x5C \<and> 32 \<le> (of_char c :: nat))"

lemma json_char_plain:
  assumes "c \<noteq> CHR 0x22" "c \<noteq> CHR 0x5C" "32 \<le> (of_char c :: nat)"
  shows "json_char c = [c]"
proof -
  have "c \<noteq> CHR 0x0A" "c \<noteq> CHR 0x09" "c \<noteq> CHR 0x0D" using assms(3) by (rule_tac notI, simp)+
  with assms show ?thesis by (simp only: json_char_def if_False not_less [symmetric] refl)
qed

lemma json_plain: "plain_text s \<Longrightarrow> json_quoted s = CHR 0x22 # s @ [CHR 0x22]"
proof -
  assume p: "plain_text s"
  have "map json_char s = map (\<lambda>c. [c]) s"
  proof (rule map_cong [OF refl])
    fix c assume "c \<in> set s"
    with p have c: "c \<noteq> CHR 0x22 \<and> c \<noteq> CHR 0x5C \<and> 32 \<le> (of_char c :: nat)"
      unfolding plain_text_def by (rule bspec)
    then show "json_char c = [c]" by (elim conjE) (rule json_char_plain)
  qed
  moreover have "concat (map (\<lambda>c. [c]) s) = s" by (induction s) simp_all
  ultimately show ?thesis by (simp only: json_quoted_def)
qed

lemma trim_quotes_plain: "plain_text s \<Longrightarrow> trim_quotes (json_quoted s) = s"
proof -
  assume p: "plain_text s"
  then have q: "CHR 0x22 \<notin> set s" by (auto simp only: plain_text_def)
  have first: "dropWhile (\<lambda>c. c = q) (s @ [q]) = s @ [q]" if "s \<noteq> []" "q \<notin> set s" for q :: char and s
    using that by (cases s) auto
  have last: "dropWhile (\<lambda>c. c \<in> {q}) (q # rev s) = rev s" if "q \<notin> set s" for q :: char and s
    using that by (cases s rule: rev_cases) auto
  show ?thesis
  proof (cases "s = []")
    case True
    then show ?thesis by (simp add: json_quoted_def trim_quotes_def trim_end_of_def)
  next
    case False
    have "dropWhile (\<lambda>c. c = CHR 0x22) (CHR 0x22 # s @ [CHR 0x22]) = s @ [CHR 0x22]"
      using first [OF False q] by simp
    then show ?thesis
      unfolding json_plain [OF p] trim_quotes_def trim_end_of_def by (simp only: rev_append rev.simps append.simps last [OF q] rev_rev_ident)
  qed
qed

lemma strings_plain: "\<forall>r \<in> set rs. plain_text (f r) \<Longrightarrow> map trim_quotes (map (\<lambda>r. json_quoted (f r)) rs) = map f rs"
  by (simp add: trim_quotes_plain)

lemma numbers_decimal: "\<forall>r \<in> set rs. f r \<le> umax 64 \<Longrightarrow> all_numbers name (map (\<lambda>r. decimal (f r)) rs) = Inr (map f rs)"
  by (induction rs) (simp_all add: parse_decimal)

section \<open>One line\<close>

definition item_ok :: "string \<Rightarrow> bool" where
  "item_ok i \<longleftrightarrow> i \<noteq> [] \<and> CHR '','' \<notin> set i \<and> newline \<notin> set i \<and> last i \<notin> {CHR '','', CHR '']''}"

definition name_ok :: "string \<Rightarrow> bool" where
  "name_ok n \<longleftrightarrow> n \<noteq> [] \<and> hd n \<noteq> CHR '':'' \<and> quote \<notin> set n \<and> newline \<notin> set n"

definition col_ok :: "string \<times> string list \<Rightarrow> bool" where
  "col_ok c \<longleftrightarrow> name_ok (fst c) \<and> (\<forall>i \<in> set (snd c). item_ok i)"

definition open_column :: "string \<times> string list \<Rightarrow> string" where
  "open_column c = '' '' @ '' '' @ [quote] @ fst c @ [quote] @ '': ['' @ join '', '' (snd c) @ '']''"

lemma column_open: "column c = open_column c @ CHR '','' # [newline]"
  by (simp add: column_def open_column_def)

lemma split_items_skip: "CHR '','' \<notin> set i \<Longrightarrow> split_items cur (i @ t) = split_items (cur @ i) t"
  by (induction i arbitrary: cur) auto

lemma split_items_join:
  assumes "\<forall>i \<in> set xs. CHR '','' \<notin> set i" "xs \<noteq> []"
  shows "split_items cur (join '', '' xs) = (cur @ hd xs) # tl xs"
  using assms
proof (induction xs arbitrary: cur rule: induct_list012)
  case (2 i)
  then show ?case using split_items_skip [of i cur "[]"] by simp
next
  case (3 i j xs)
  then show ?case using split_items_skip [of i cur] by simp
qed simp

lemma join_last: "\<forall>i \<in> set xs. i \<noteq> [] \<Longrightarrow> xs \<noteq> [] \<Longrightarrow> join sep xs \<noteq> [] \<and> last (join sep xs) = last (last xs)"
  by (induction xs rule: induct_list012) auto

lemma join_newline: "\<forall>i \<in> set xs. newline \<notin> set i \<Longrightarrow> newline \<notin> set (join '', '' xs)"
  by (induction xs rule: induct_list012) (auto simp: newline_def)

lemma trim_indent: "l \<noteq> [] \<Longrightarrow> \<not> is_space (hd l) \<Longrightarrow> \<not> is_space (last l) \<Longrightarrow> trim ('' '' @ '' '' @ l) = l"
  using trim_space trim_plain by (simp add: is_space_def)

lemma name_split:
  assumes "name_ok n" "hd k = CHR '':''" "k \<noteq> []"
  shows "after_sub (quote # k) (quote # n @ quote # k @ t) = Some t"
    and "before_sub (quote # k) (quote # n @ quote # k @ t) = quote # n"
proof -
  have miss: "strip_prefix (quote # k) (quote # n @ quote # k @ t) = None"
    using assms by (cases n; cases k) (auto simp: name_ok_def)
  have q: "quote \<notin> set n" using assms(1) by (simp add: name_ok_def)
  have hit: "strip_prefix (quote # k) (quote # k @ t) = Some t"
    using strip_prefix_append [of "quote # k" t] by simp
  show "after_sub (quote # k) (quote # n @ quote # k @ t) = Some t"
    using miss after_sub_skip [OF q, of k "quote # k @ t"] hit
    by (subst after_sub.simps) (simp add: after_sub.simps [of "quote # k" "quote # k @ t"])
  show "before_sub (quote # k) (quote # n @ quote # k @ t) = quote # n"
    using miss before_sub_skip [OF q, of k "quote # k @ t"] hit
    by (subst before_sub.simps) (simp add: before_sub.simps [of "quote # k" "quote # k @ t"])
qed

lemma items_back:
  assumes "\<forall>i \<in> set xs. item_ok i" "tail \<in> {[], '',''}"
  shows "trim_end_of {CHR '','', CHR '']''} (trim_end (join '', '' xs @ '']'' @ tail)) = join '', '' xs"
proof -
  have "trim_end (join '', '' xs @ '']'' @ tail) = join '', '' xs @ '']'' @ tail"
    using assms(2) by (auto simp: trim_end_def is_space_def)
  moreover have "trim_end_of {CHR '','', CHR '']''} (join '', '' xs @ '']'' @ tail) = trim_end_of {CHR '','', CHR '']''} (join '', '' xs)"
    using assms(2) by (auto simp: trim_end_of_def)
  moreover have "trim_end_of cs j = j" if "j = [] \<or> last j \<notin> cs" for cs j
    using that by (cases j rule: rev_cases) (auto simp: trim_end_of_def)
  moreover have "join '', '' xs = [] \<or> last (join '', '' xs) \<notin> {CHR '','', CHR '']''}"
  proof (cases "xs = []")
    case False
    then have "last (join '', '' xs) = last (last xs)" "item_ok (last xs)"
      using join_last [of xs] assms(1) by (auto simp: item_ok_def)
    then show ?thesis by (simp add: item_ok_def)
  qed simp
  ultimately show ?thesis by simp
qed

lemma read_column_line:
  assumes ok: "col_ok c" and tail: "tail \<in> {[], '',''}"
  shows "read_column (open_column c @ tail) = Some c"
proof -
  obtain n xs where c: "c = (n, xs)" by (cases c)
  have n: "name_ok n" and xs: "\<forall>i \<in> set xs. item_ok i" using ok c by (simp_all add: col_ok_def)
  let ?rest = "join '', '' xs @ '']'' @ tail"
  have line: "trim (open_column c @ tail) = quote # n @ quote # '': ['' @ ?rest"
    using trim_indent [of "quote # n @ quote # '': ['' @ ?rest"] tail by (auto simp: open_column_def c is_space_def)
  have name: "dropWhile (\<lambda>c. c = quote) (quote # n) = n"
    using n by (cases n) (auto simp: name_ok_def)
  have "join '', '' xs = [] \<longleftrightarrow> xs = []"
    using join_last [of xs "'', ''"] xs by (auto simp: item_ok_def)
  then have vals: "(if join '', '' xs = [] then [] else split_items [] (join '', '' xs)) = xs"
    using split_items_join [of xs "[]"] xs by (auto simp: item_ok_def)
  show ?thesis
    unfolding read_column_def line Let_def
    using name_split [OF n, of "'': [''" ?rest] items_back [OF xs tail] vals name
    by (cases "join '', '' xs = []") (simp_all add: c)
qed

section \<open>The whole text\<close>

lemma columns_read_line:
  "newline \<notin> set l \<Longrightarrow> columns_read (l @ newline # rest) =
     (case read_column (strip_carriage l) of None \<Rightarrow> columns_read rest | Some c \<Rightarrow> c # columns_read rest)"
  by (auto simp: columns_read_def text_lines_line map_filter_simps split: option.splits)

lemma open_column_newline: "col_ok c \<Longrightarrow> newline \<notin> set (open_column c)"
  using join_newline [of "snd c"]
  by (simp add: open_column_def col_ok_def name_ok_def item_ok_def) (simp add: newline_def)

lemma columns_read_column:
  assumes "col_ok c" "tail \<in> {[], '',''}"
  shows "columns_read (open_column c @ tail @ newline # rest) = c # columns_read rest"
proof -
  have n: "newline \<notin> set (open_column c @ tail)"
    using open_column_newline [OF assms(1)] assms(2) by (auto simp: newline_def)
  have "open_column c @ tail \<noteq> []" "\<not> is_space (last (open_column c @ tail))"
    using assms(2) by (auto simp: open_column_def is_space_def)
  then have "strip_carriage (open_column c @ tail) = open_column c @ tail"
    by (intro strip_carriage_plain) blast
  then show ?thesis
    using columns_read_line [OF n, of rest] read_column_line [OF assms] by simp
qed

lemma columns_read_columns:
  "\<forall>c \<in> set cs. col_ok c \<Longrightarrow> columns_read (concat (map column cs) @ rest) = cs @ columns_read rest"
proof (induction cs)
  case (Cons c cs)
  then show ?case using columns_read_column [of c "'',''" "concat (map column cs) @ rest"]
    by (simp add: column_open [of c])
qed simp

lemma columns_read_blank: "columns_read (newline # rest) = columns_read rest"
  using columns_read_line [of "[]" rest]
  by (simp add: read_column_def strip_carriage_def trim_def trim_start_def trim_end_def after_sub_none Let_def)

section \<open>The header\<close>

lemma strip_none:
  "strip_prefix k t = None \<Longrightarrow> quote \<notin> set k \<Longrightarrow> strip_prefix k (t @ quote # u) = None"
proof (induction k arbitrary: t)
  case (Cons c k)
  then show ?case by (cases t) (auto split: if_splits)
qed simp

lemma no_column:
  assumes "plain (s # ss)" "\<forall>t \<in> set ss. strip_prefix k t = None" "quote \<notin> set k"
  shows "after_sub (quote # k) (joined (s # ss)) = None"
  using assms(1,2)
proof (induction ss arbitrary: s)
  case Nil
  then show ?case using after_sub_none by simp
next
  case (Cons t ss)
  have "strip_prefix k (joined (t # ss)) = None"
    using Cons.prems(2) strip_none [of k t] assms(3) by (cases ss) simp_all
  then have "after_sub (quote # k) (quote # joined (t # ss)) = after_sub (quote # k) (joined (t # ss))"
    by (subst after_sub.simps) simp
  also have "\<dots> = None" using Cons by simp
  finally show ?case using after_sub_skip [of s k "quote # joined (t # ss)"] Cons.prems(1) by simp
qed

definition label_ok :: "string \<Rightarrow> bool" where
  "label_ok s \<longleftrightarrow> plain_text s \<and> strip_prefix '': ['' s = None"

lemma plain_text_no: "plain_text s \<Longrightarrow> quote \<notin> set s \<and> newline \<notin> set s"
proof (rule conjI; rule notI)
  assume "plain_text s" "quote \<in> set s"
  then show False unfolding plain_text_def by blast
next
  assume "plain_text s" "newline \<in> set s"
  then have "32 \<le> (of_char newline :: nat)" unfolding plain_text_def by blast
  then show False by (simp add: newline_def)
qed

lemma label_line:
  assumes "l = joined (s # ss)" "plain (s # ss)" "\<forall>t \<in> set ss. strip_prefix '': ['' t = None"
    and "l \<noteq> []" "\<not> is_space (hd l)" "\<not> is_space (last l)" "newline \<notin> set l"
  shows "columns_read (('' '' @ '' '' @ l) @ newline # rest) = columns_read rest"
proof -
  have "newline \<notin> set ('' '' @ '' '' @ l)" using assms(7) by (simp add: newline_def)
  moreover have "strip_carriage ('' '' @ '' '' @ l) = '' '' @ '' '' @ l"
    using assms(4,6) by (intro strip_carriage_plain) simp
  moreover have "read_column ('' '' @ '' '' @ l) = None"
    unfolding read_column_def trim_indent [OF assms(4-6)] Let_def
    using no_column [OF assms(2,3)] assms(1) by simp
  ultimately show ?thesis using columns_read_line [of "'' '' @ '' '' @ l" rest] by simp
qed

lemma columns_read_header:
  assumes "label_ok p" "label_ok r"
  shows "columns_read (doc_header p r @ rest) = columns_read rest"
proof -
  have q: "json_quoted s = quote # s @ [quote]" if "plain_text s" for s using json_plain [OF that] .
  have pl: "plain_text ''schema''" "plain_text SCHEMA" "plain_text ''version''" "plain_text ''provenance''"
    "plain_text ''producer''" "plain_text ''revision''" "plain_text p" "plain_text r"
    using assms by (simp_all add: plain_text_def SCHEMA_def label_ok_def)
  define l1 where "l1 = joined [[], ''schema'', '': '', SCHEMA, '','']"
  define l2 where "l2 = joined [[], ''version'', '': 1,'']"
  define l3 where "l3 = joined [[], ''provenance'', '': { '', ''producer'', '': '', p, '', '', ''revision'', '': '', r, '' },'']"
  have one: "decimal LAYOUT_VERSION = ''1''" unfolding LAYOUT_VERSION_def by (subst decimal.simps) (simp add: digit_char_def char_of_def bit_0)
  have whole: "doc_header p r @ rest =
      ''{'' @ newline # ('' '' @ '' '' @ l1) @ newline # ('' '' @ '' '' @ l2) @ newline # ('' '' @ '' '' @ l3) @
        newline # newline # rest"
    by (simp add: doc_header_def q [OF pl(1)] q [OF pl(2)] q [OF pl(3)] q [OF pl(4)] q [OF pl(5)]
        q [OF pl(6)] q [OF pl(7)] q [OF pl(8)] one l1_def l2_def l3_def)
  have brace: "columns_read (''{'' @ newline # t) = columns_read t" for t
    using columns_read_line [of "''{''" t]
    by (simp add: read_column_def strip_carriage_def carriage_def trim_plain is_space_def after_sub_none Let_def newline_def)
  have pr: "quote \<notin> set p \<and> newline \<notin> set p" "quote \<notin> set r \<and> newline \<notin> set r"
    using plain_text_no pl(7,8) by blast+
  have h1: "columns_read (('' '' @ '' '' @ l1) @ newline # t) = columns_read t" for t
    by (rule label_line [OF l1_def]) (simp_all add: l1_def SCHEMA_def is_space_def newline_def)
  have h2: "columns_read (('' '' @ '' '' @ l2) @ newline # t) = columns_read t" for t
    by (rule label_line [OF l2_def]) (simp_all add: l2_def is_space_def newline_def)
  have h3: "columns_read (('' '' @ '' '' @ l3) @ newline # t) = columns_read t" for t
    using assms pr by (intro label_line [OF l3_def]) (simp_all add: l3_def is_space_def newline_def label_ok_def)
  show ?thesis unfolding whole brace h1 h2 h3 columns_read_blank ..
qed

section \<open>The document read back\<close>

lemma cut_comma:
  "take (length (trim_end_of {CHR '',''} (trim_end (b @ '']'' @ '','' @ [newline])))) (b @ '']'' @ '','' @ [newline]) = b @ '']''"
  by (simp add: trim_end_of_def trim_end_def is_space_def newline_def)

definition text_ok :: "string \<Rightarrow> bool" where
  "text_ok s \<longleftrightarrow> plain_text s \<and> CHR '','' \<notin> set s"

definition texts_ok :: "doc \<Rightarrow> bool" where
  "texts_ok d \<longleftrightarrow>
     (\<forall>s \<in> set (dc_spaces d). \<forall>c \<in> set SPACE_TEXT. text_ok (snd c s)) \<and>
     (\<forall>r \<in> set (dc_regions d). \<forall>c \<in> set REGION_TEXT. text_ok (snd c r)) \<and>
     (\<forall>e \<in> set (dc_edges d). text_ok (ed_kind e))"

lemma item_ok_text: "text_ok s \<Longrightarrow> item_ok (json_quoted s)"
proof -
  assume ok: "text_ok s"
  then have "json_quoted s = quote # s @ [quote]" "newline \<notin> set s" "CHR '','' \<notin> set s"
    using json_plain plain_text_no by (auto simp only: text_ok_def)
  then show ?thesis by (simp add: item_ok_def) (simp add: newline_def)
qed

lemma item_ok_decimal: "item_ok (decimal n)"
proof -
  have "is_alnum (last (decimal n))" "newline \<notin> set (decimal n)" "decimal n \<noteq> []"
    using decimal_alnum [of n] no_newline(1) last_in_set by blast+
  moreover have "\<not> is_alnum (CHR '','')" "\<not> is_alnum (CHR '']'')" by (simp_all add: is_alnum_def)
  ultimately show ?thesis using decimal_alnum [of n] by (auto simp only: item_ok_def insert_iff empty_iff)
qed

lemma col_ok_text:
  "\<forall>c \<in> set cols. name_ok (fst c) \<Longrightarrow> \<forall>r \<in> set rows. \<forall>c \<in> set cols. text_ok (snd c r) \<Longrightarrow>
     \<forall>c \<in> set (text_columns cols rows). col_ok c"
  by (fastforce simp: text_columns_def col_ok_def intro: item_ok_text)

lemma col_ok_nums:
  "\<forall>c \<in> set cols. name_ok (fst c) \<Longrightarrow> \<forall>c \<in> set (nums_columns cols rows). col_ok c"
  by (auto simp: nums_columns_def col_ok_def item_ok_decimal)

lemma names_ok:
  "\<forall>c \<in> set SPACE_TEXT. name_ok (fst c)" "\<forall>c \<in> set SPACE_NUMS. name_ok (fst c)"
  "\<forall>c \<in> set REGION_TEXT. name_ok (fst c)" "\<forall>c \<in> set REGION_NUMS. name_ok (fst c)"
  by (simp_all add: SPACE_TEXT_def SPACE_NUMS_def REGION_TEXT_def REGION_NUMS_def name_ok_def newline_def)

lemma col_ok_edges: "\<forall>e \<in> set (dc_edges d). text_ok (ed_kind e) \<Longrightarrow> \<forall>c \<in> set (edge_columns d). col_ok c"
  by (auto simp: edge_columns_def col_ok_def name_ok_def newline_def item_ok_decimal intro!: item_ok_text)

lemma doc_render_text:
  assumes edges: "edge_columns d = [e1, e2, e3]"
  shows "doc_render d p r = doc_header p r @
     concat (map column (text_columns SPACE_TEXT (dc_spaces d))) @
     concat (map column (nums_columns SPACE_NUMS (dc_spaces d))) @ newline #
     concat (map column (nums_columns REGION_NUMS (dc_regions d))) @
     concat (map column (text_columns REGION_TEXT (dc_regions d))) @ newline #
     concat (map column [e1, e2]) @ open_column e3 @ newline # ''}'' @ [newline]"
proof -
  obtain b where last: "open_column e3 = b @ '']''" by (simp add: open_column_def)
  define a where "a = doc_header p r @ concat (map column (text_columns SPACE_TEXT (dc_spaces d))) @
    concat (map column (nums_columns SPACE_NUMS (dc_spaces d))) @ newline #
    concat (map column (nums_columns REGION_NUMS (dc_regions d))) @
    concat (map column (text_columns REGION_TEXT (dc_regions d))) @ newline # concat (map column [e1, e2]) @ b"
  have "doc_header p r @ concat (map column (text_columns SPACE_TEXT (dc_spaces d))) @
    concat (map column (nums_columns SPACE_NUMS (dc_spaces d))) @ [newline] @
    concat (map column (nums_columns REGION_NUMS (dc_regions d))) @
    concat (map column (text_columns REGION_TEXT (dc_regions d))) @ [newline] @ concat (map column (edge_columns d)) =
    a @ '']'' @ '','' @ [newline]"
    by (simp add: a_def edges column_open [of e3] last)
  then show ?thesis unfolding doc_render_def Let_def by (simp only: cut_comma) (simp add: a_def last)
qed

lemma doc_read_back:
  assumes ok: "texts_ok d" and labels: "label_ok p" "label_ok r"
  shows "columns_read (doc_render d p r) = doc_columns d"
proof -
  let ?st = "text_columns SPACE_TEXT (dc_spaces d)" and ?sn = "nums_columns SPACE_NUMS (dc_spaces d)"
  let ?rn = "nums_columns REGION_NUMS (dc_regions d)" and ?rt = "text_columns REGION_TEXT (dc_regions d)"
  obtain e1 e2 e3 where edges: "edge_columns d = [e1, e2, e3]" by (simp add: edge_columns_def)
  have cols: "\<forall>c \<in> set ?st. col_ok c" "\<forall>c \<in> set ?sn. col_ok c" "\<forall>c \<in> set ?rn. col_ok c" "\<forall>c \<in> set ?rt. col_ok c"
    "\<forall>c \<in> set [e1, e2]. col_ok c" "col_ok e3"
    using ok col_ok_text [OF names_ok(1), of "dc_spaces d"] col_ok_text [OF names_ok(3), of "dc_regions d"] col_ok_nums [OF names_ok(2)]
      col_ok_nums [OF names_ok(4)] col_ok_edges [of d] edges by (simp_all add: texts_ok_def)
  have whole: "doc_render d p r = doc_header p r @ concat (map column ?st) @ concat (map column ?sn) @ newline #
      concat (map column ?rn) @ concat (map column ?rt) @ newline # concat (map column [e1, e2]) @
      open_column e3 @ [] @ newline # ''}'' @ [newline]" (is "_ = ?text")
    using doc_render_text [OF edges] by simp
  have close: "columns_read (''}'' @ [newline]) = []"
    using columns_read_line [of "''}''" "[]"]
    by (simp add: read_column_def strip_carriage_def carriage_def trim_plain is_space_def after_sub_none Let_def newline_def
        columns_read_def map_filter_simps)
  moreover have "columns_read ?text = ?st @ ?sn @ ?rn @ ?rt @ [e1, e2] @ [e3]"
    using columns_read_column [OF cols(6), of "[]" "''}'' @ [newline]"] close
    by (simp only: columns_read_header [OF labels] columns_read_columns [OF cols(1)] columns_read_columns [OF cols(2)]
        columns_read_columns [OF cols(3)] columns_read_columns [OF cols(4)] columns_read_columns [OF cols(5)]
        columns_read_blank) simp
  ultimately show ?thesis unfolding whole by (simp add: doc_columns_def edges)
qed

section \<open>Tiling seen through the columns\<close>

lemma extents_map:
  "map (\<lambda>k. (map f rs ! k, map g rs ! k)) (filter (\<lambda>k. map h rs ! k = key) [0..<length rs]) =
     map (\<lambda>r. (f r, g r)) (filter (\<lambda>r. h r = key) rs)"
proof (induction rs rule: rev_induct)
  case (snoc r rs)
  have "map (\<lambda>k. (map f (rs @ [r]) ! k, map g (rs @ [r]) ! k)) (filter (\<lambda>k. map h (rs @ [r]) ! k = key) [0..<length rs]) =
      map (\<lambda>k. (map f rs ! k, map g rs ! k)) (filter (\<lambda>k. map h rs ! k = key) [0..<length rs])"
    by (intro arg_cong2 [where f = map] ext filter_cong map_cong) (auto simp: nth_append)
  then show ?case using snoc by (simp add: nth_append)
qed simp

lemma chain_sorted:
  "chain_from at rs e \<Longrightarrow> sorted (map (\<lambda>r. (lr_start r, lr_length r)) rs) \<and> (\<forall>r \<in> set rs. at \<le> lr_start r) \<and> at \<le> e"
proof (induction rs arbitrary: at)
  case (Cons r rs)
  then have IH: "sorted (map (\<lambda>r. (lr_start r, lr_length r)) rs)" "\<forall>s \<in> set rs. at + lr_length r \<le> lr_start s"
    "at + lr_length r \<le> e" and r: "lr_start r = at" by auto
  have "(lr_start r, lr_length r) \<le> (lr_start s, lr_length s)" if "s \<in> set rs" for s
  proof -
    have "at + lr_length r \<le> lr_start s" using IH(2) that by (rule bspec)
    then have "lr_start r < lr_start s \<or> lr_start r = lr_start s \<and> lr_length r \<le> lr_length s"
      using r by linarith
    then show ?thesis unfolding less_eq_prod_def fst_conv snd_conv by linarith
  qed
  moreover have "\<forall>s \<in> set (r # rs). at \<le> lr_start s" using IH(2) r by fastforce
  moreover have "at \<le> e" using IH(3) by simp
  ultimately show ?case using IH(1) by (simp only: list.map sorted_simps set_map) blast
qed simp

lemma cover_chain:
  "chain_from at rs e \<Longrightarrow> e < 2 ^ 64 \<Longrightarrow> cover key at (map (\<lambda>r. (lr_start r, lr_length r)) rs) = Inr e"
proof (induction rs arbitrary: at)
  case (Cons r rs)
  have "at + lr_length r \<le> e" using chain_sorted [of "at + lr_length r" rs e] Cons.prems by simp
  with Cons show ?case by (simp add: wrap_exact)
qed simp

lemma filter_concat_key:
  assumes "distinct (map k xs)" "x \<in> set xs" "\<forall>y \<in> set xs. \<forall>r \<in> set (F y). h r = k y"
  shows "filter (\<lambda>r. h r = k x) (concat (map F xs)) = F x"
  using assms
proof (induction xs)
  case (Cons y ys)
  show ?case
  proof (cases "x = y")
    case True
    have "\<forall>z \<in> set ys. k z \<noteq> k x" using Cons.prems(1) True by (force simp: image_iff)
    then have "\<forall>z \<in> set ys. \<forall>r \<in> set (F z). h r \<noteq> k x" using Cons.prems(3) by simp
    then have "filter (\<lambda>r. h r = k x) (concat (map F ys)) = []" by (auto simp: filter_empty_conv)
    moreover have "filter (\<lambda>r. h r = k x) (F y) = F y" using Cons.prems(3) True by (simp add: filter_id_conv)
    ultimately show ?thesis using True by simp
  next
    case False
    then have "x \<in> set ys" using Cons.prems(2) by simp
    moreover have "k y \<noteq> k x" using Cons.prems(1) calculation by auto
    then have "filter (\<lambda>r. h r = k x) (F y) = []"
      using Cons.prems(3) by (simp add: filter_empty_conv)
    ultimately show ?thesis using Cons by simp
  qed
qed simp


section \<open>The checks\<close>

lemmas column_lists = doc_columns_def text_columns_def nums_columns_def edge_columns_def
  SPACE_TEXT_def SPACE_NUMS_def REGION_TEXT_def REGION_NUMS_def

lemma doc_raw:
  "columns_raw (doc_columns d) ''spaces'' = Inr (map (\<lambda>s. json_quoted (sp_key s)) (dc_spaces d))"
  "columns_raw (doc_columns d) ''space_name'' = Inr (map (\<lambda>s. json_quoted (sp_name s)) (dc_spaces d))"
  "columns_raw (doc_columns d) ''space_block'' = Inr (map (\<lambda>s. decimal (sp_block s)) (dc_spaces d))"
  "columns_raw (doc_columns d) ''space_capacity'' = Inr (map (\<lambda>s. decimal (sp_capacity s)) (dc_spaces d))"
  "columns_raw (doc_columns d) ''region_id'' = Inr (map (\<lambda>r. decimal (lr_id r)) (dc_regions d))"
  "columns_raw (doc_columns d) ''region_space'' = Inr (map (\<lambda>r. json_quoted (lr_space r)) (dc_regions d))"
  "columns_raw (doc_columns d) ''region_kind'' = Inr (map (\<lambda>r. json_quoted (lr_kind r)) (dc_regions d))"
  "columns_raw (doc_columns d) ''region_name'' = Inr (map (\<lambda>r. json_quoted (lr_name r)) (dc_regions d))"
  "columns_raw (doc_columns d) ''region_owner'' = Inr (map (\<lambda>r. json_quoted (lr_owner r)) (dc_regions d))"
  "columns_raw (doc_columns d) ''region_start'' = Inr (map (\<lambda>r. decimal (lr_start r)) (dc_regions d))"
  "columns_raw (doc_columns d) ''region_length'' = Inr (map (\<lambda>r. decimal (lr_length r)) (dc_regions d))"
  "columns_raw (doc_columns d) ''region_text_words'' = Inr (map (\<lambda>r. decimal 0) (dc_regions d))"
  "columns_raw (doc_columns d) ''region_data_words'' = Inr (map (\<lambda>r. decimal 0) (dc_regions d))"
  "columns_raw (doc_columns d) ''region_bss_words'' = Inr (map (\<lambda>r. decimal 0) (dc_regions d))"
  "columns_raw (doc_columns d) ''rel_kind'' = Inr (map (\<lambda>e. json_quoted (ed_kind e)) (dc_edges d))"
  "columns_raw (doc_columns d) ''rel_from'' = Inr (map (\<lambda>e. decimal (ed_from e)) (dc_edges d))"
  "columns_raw (doc_columns d) ''rel_to'' = Inr (map (\<lambda>e. decimal (ed_to e)) (dc_edges d))"
  by (simp_all add: columns_raw_def column_lists)

lemma doc_present: "first_missing (doc_columns d) REQUIRED = None"
  by (simp add: REQUIRED_def columns_strings_def doc_raw)

lemma doc_aligned: "check_aligned (doc_columns d) = None"
proof -
  have "find (\<lambda>(name, vals). length vals \<noteq> group_size (length (dc_regions d)) (length (dc_spaces d)) (length (dc_edges d)) name)
      (doc_columns d) = None"
    by (simp add: column_lists group_size_def)
  then show ?thesis by (simp add: check_aligned_def columns_strings_def doc_raw)
qed

definition numbers_ok :: "doc \<Rightarrow> bool" where
  "numbers_ok d \<longleftrightarrow>
     (\<forall>s \<in> set (dc_spaces d). sp_capacity s < 2 ^ 64) \<and>
     (\<forall>r \<in> set (dc_regions d). lr_id r < 2 ^ 32 \<and> lr_start r + lr_length r < 2 ^ 64) \<and>
     (\<forall>e \<in> set (dc_edges d). ed_from e < 2 ^ 32 \<and> ed_to e < 2 ^ 32)"

definition refs_ok :: "doc \<Rightarrow> bool" where
  "refs_ok d \<longleftrightarrow> distinct (map lr_id (dc_regions d)) \<and> 0 \<notin> lr_id ` set (dc_regions d) \<and>
     (\<forall>e \<in> set (dc_edges d). {ed_from e, ed_to e} \<subseteq> lr_id ` set (dc_regions d))"

definition extent :: "lay_region \<Rightarrow> nat \<times> nat" where
  "extent r = (lr_start r, lr_length r)"

definition of_space :: "doc \<Rightarrow> string \<Rightarrow> lay_region list" where
  "of_space d key = sort_key extent (filter (\<lambda>r. lr_space r = key) (dc_regions d))"

definition tiles_ok :: "doc \<Rightarrow> bool" where
  "tiles_ok d \<longleftrightarrow> (\<forall>s \<in> set (dc_spaces d). chain_from 0 (of_space d (sp_key s)) (sp_capacity s))"

lemma column_numbers:
  "columns_raw cols name = Inr (map (\<lambda>r. decimal (f r)) rs) \<Longrightarrow> (\<And>r. r \<in> set rs \<Longrightarrow> f r < 2 ^ 64) \<Longrightarrow>
     columns_numbers cols name = Inr (map f rs)"
  using numbers_decimal [of rs f name] by (fastforce simp: columns_numbers_def)

lemma column_strings:
  "columns_raw cols name = Inr (map (\<lambda>r. json_quoted (f r)) rs) \<Longrightarrow> (\<And>r. r \<in> set rs \<Longrightarrow> plain_text (f r)) \<Longrightarrow>
     columns_strings cols name = Inr (map f rs)"
  by (simp add: columns_strings_def trim_quotes_plain)

lemma doc_refs:
  assumes "numbers_ok d"
  shows "check_refs (doc_columns d) = None \<longleftrightarrow> refs_ok d"
proof -
  have ids: "columns_numbers (doc_columns d) ''region_id'' = Inr (map lr_id (dc_regions d))"
    using assms by (intro column_numbers doc_raw) (fastforce simp: numbers_ok_def)
  have ends: "columns_numbers (doc_columns d) ''rel_from'' = Inr (map ed_from (dc_edges d))"
    "columns_numbers (doc_columns d) ''rel_to'' = Inr (map ed_to (dc_edges d))"
    using assms by (intro column_numbers doc_raw; fastforce simp: numbers_ok_def)+
  have "filter (\<lambda>i. i \<notin> set (map lr_id (dc_regions d))) (map ed_from (dc_edges d) @ map ed_to (dc_edges d)) = [] \<longleftrightarrow>
      (\<forall>e \<in> set (dc_edges d). {ed_from e, ed_to e} \<subseteq> lr_id ` set (dc_regions d))"
    by (auto simp: filter_empty_conv)
  then show ?thesis
    by (simp add: check_refs_def ids ends refs_ok_def Let_def del: filter_append filter_empty_conv)
qed

lemma cover_iff:
  "\<forall>r \<in> set rs. lr_start r + lr_length r < 2 ^ 64 \<Longrightarrow> cover key at (map extent rs) = Inr e \<longleftrightarrow> chain_from at rs e"
proof (induction rs arbitrary: at)
  case (Cons r rs)
  have "wrap 64 (lr_start r + lr_length r) = lr_start r + lr_length r" using Cons.prems by (simp add: wrap_exact)
  with Cons show ?case by (auto simp: extent_def)
qed simp

lemma sort_map: "sort (map f xs) = map f (sort_key f xs)"
  by (rule properties_for_sort) simp_all

lemma doc_extents:
  "extents_of key (map lr_space (dc_regions d)) (map lr_start (dc_regions d)) (map lr_length (dc_regions d)) =
    map extent (of_space d key)"
proof -
  have "(\<lambda>r. (lr_start r, lr_length r)) = extent" by (rule ext) (simp add: extent_def)
  then show ?thesis
    using extents_map [of lr_start "dc_regions d" lr_length lr_space key]
    by (simp add: extents_of_def of_space_def sort_map)
qed

lemma check_spaces_none:
  "check_spaces ks space start len = None \<longleftrightarrow>
     (\<forall>(key, cap) \<in> set ks. cover key 0 (extents_of key space start len) = Inr cap)"
proof (induction ks)
  case (Cons kc ks)
  then show ?case
    by (cases kc; cases "cover (fst kc) 0 (extents_of (fst kc) space start len)")
      simp_all
qed simp

lemma doc_tiles:
  assumes nums: "numbers_ok d" and texts: "texts_ok d"
  shows "check_tiles (doc_columns d) = None \<longleftrightarrow> tiles_ok d"
proof -
  have keys: "columns_strings (doc_columns d) ''spaces'' = Inr (map sp_key (dc_spaces d))"
    using texts by (intro column_strings doc_raw) (simp add: texts_ok_def SPACE_TEXT_def text_ok_def)
  have spaces: "columns_strings (doc_columns d) ''region_space'' = Inr (map lr_space (dc_regions d))"
    using texts by (intro column_strings doc_raw) (simp add: texts_ok_def REGION_TEXT_def text_ok_def)
  have numbers: "columns_numbers (doc_columns d) ''region_start'' = Inr (map lr_start (dc_regions d))"
    "columns_numbers (doc_columns d) ''region_length'' = Inr (map lr_length (dc_regions d))"
    "columns_numbers (doc_columns d) ''space_capacity'' = Inr (map sp_capacity (dc_spaces d))"
    using nums by (intro column_numbers doc_raw; fastforce simp: numbers_ok_def)+
  have "cover key 0 (map extent (of_space d key)) = Inr c \<longleftrightarrow> chain_from 0 (of_space d key) c" for key c
    using nums by (intro cover_iff) (simp add: of_space_def numbers_ok_def)
  then show ?thesis
    unfolding check_tiles_def keys spaces numbers
    by (simp add: check_spaces_none doc_extents zip_map_map zip_same_conv_map tiles_ok_def)
qed

lemma after_sub_inside: "after_sub key (a @ key @ b) \<noteq> None"
proof (induction a)
  case Nil
  then show ?case by (subst after_sub.simps) simp
next
  case (Cons c a)
  then show ?case by (subst after_sub.simps) (simp split: option.splits)
qed

lemma doc_has_schema: "contains (doc_render d p r) SCHEMA"
proof -
  have q: "json_quoted SCHEMA = quote # SCHEMA @ [quote]" by (rule json_plain) (simp add: plain_text_def SCHEMA_def)
  obtain b where "doc_header p r =
      (''{'' @ [newline] @ '' '' @ '' '' @ json_quoted ''schema'' @ '': '' @ [quote]) @ SCHEMA @ b"
    unfolding doc_header_def q by simp
  moreover obtain e1 e2 e3 where "edge_columns d = [e1, e2, e3]" by (simp add: edge_columns_def)
  ultimately obtain a rest where "doc_render d p r = a @ SCHEMA @ rest"
    using doc_render_text [of d e1 e2 e3 p r] by (metis append_assoc)
  then show ?thesis using after_sub_inside by (simp add: contains_def)
qed

text \<open>C32: The validator accepts the text of a rendered document exactly when the document is sound: ids are
  unique and not zero, every edge runs between regions of the document, and for every space, its regions
  taken in order start at zero, each where the one before ended, and end at the space's capacity. The text values
  must be free of quotes, backslashes, control characters and commas, the revision and producer must not
  look like a column, and no region may end past 2^64 (the sum the validator takes is unchecked).\<close>

theorem validator_exact:
  assumes "texts_ok d" "numbers_ok d" "label_ok producer" "label_ok revision"
  shows "validate (doc_render d producer revision) = None \<longleftrightarrow> refs_ok d \<and> tiles_ok d"
  using doc_refs [OF assms(2)] doc_tiles [OF assms(2,1)]
  by (cases "check_refs (doc_columns d)")
    (simp_all add: validate_def doc_has_schema doc_read_back [OF assms(1,3,4)] check_columns_def doc_present doc_aligned)

definition sample_region :: "nat \<Rightarrow> nat \<Rightarrow> nat \<Rightarrow> lay_region" where
  "sample_region i at len =
     \<lparr>lr_id = i, lr_space = ''ram'', lr_kind = ''object'', lr_name = ''tile'', lr_owner = [], lr_start = at,
      lr_length = len, lr_tier = ''hot'', lr_object = ''7'', lr_state = ''live'', lr_reuse = 1, lr_cost = 2,
      lr_next_use = ''never''\<rparr>"

definition sample_doc :: doc where
  "sample_doc =
     \<lparr>dc_spaces = [\<lparr>sp_key = ''ram'', sp_name = ''arena'', sp_block = 64, sp_capacity = 64\<rparr>],
      dc_regions = [sample_region 1 16 48, sample_region 2 0 16],
      dc_edges = [\<lparr>ed_kind = ''backs'', ed_from = 1, ed_to = 2\<rparr>]\<rparr>"

lemma validator_exact_witness: "validate (doc_render sample_doc ''mlos'' ''0.1'') = None"
proof -
  have "texts_ok sample_doc"
    by (simp add: texts_ok_def sample_doc_def sample_region_def SPACE_TEXT_def REGION_TEXT_def text_ok_def plain_text_def)
  moreover have "numbers_ok sample_doc" by (simp add: numbers_ok_def sample_doc_def sample_region_def)
  moreover have "label_ok ''mlos''" "label_ok ''0.1''" by (simp_all add: label_ok_def plain_text_def)
  moreover have "refs_ok sample_doc" by (simp add: refs_ok_def sample_doc_def sample_region_def)
  moreover have "tiles_ok sample_doc" by (simp add: tiles_ok_def sample_doc_def sample_region_def of_space_def extent_def)
  ultimately show ?thesis using validator_exact by blast
qed

section \<open>Filled spaces\<close>

definition filled_space :: "ids \<Rightarrow> nat \<Rightarrow> lay_space \<times> lay_region list \<Rightarrow> lay_region list" where
  "filled_space ids k s = snd (fill (sp_key (fst s)) (sp_capacity (fst s)) ids k (snd s))"

lemma chain_extents:
  "chain_from at rs e \<Longrightarrow> sorted (map extent rs)"
  using chain_sorted unfolding extent_def by blast

lemma filled_tiles:
  assumes spaces: "distinct (map (sp_key \<circ> fst) ss)" "dc_spaces d = map fst ss"
    and filled: "dc_regions d = concat (map F ss)"
    and each: "\<And>s. s \<in> set ss \<Longrightarrow> chain_from 0 (F s) (sp_capacity (fst s)) \<and> (\<forall>r \<in> set (F s). lr_space r = sp_key (fst s))"
  shows "tiles_ok d"
proof -
  have "of_space d (sp_key (fst s)) = F s" if "s \<in> set ss" for s
  proof -
    have "filter (\<lambda>r. lr_space r = sp_key (fst s)) (dc_regions d) = F s"
      using filter_concat_key [OF spaces(1) that, of F lr_space] each filled by simp
    then show ?thesis using chain_extents each [OF that] by (auto simp: of_space_def intro!: sort_key_id_if_sorted)
  qed
  then show ?thesis using each spaces(2) by (simp add: tiles_ok_def)
qed

lemma fill_space_names:
  assumes "fill space cap ids k rs = (Inr (), out)" "\<forall>r \<in> set rs. lr_start r + lr_length r < 2 ^ 64"
    and "\<forall>r \<in> set rs. lr_space r = space"
  shows "\<forall>r \<in> set out. lr_space r = space"
proof -
  obtain gs where "mset out = mset rs + mset gs" "\<forall>g \<in> set gs. is_gap space g" using fill_ok(2) [OF assms(2,1)] by blast
  then have "set out = set rs \<union> set gs" by (metis set_mset_mset set_mset_union)
  with assms(3) \<open>\<forall>g \<in> set gs. is_gap space g\<close> show ?thesis by (auto simp: is_gap_def)
qed

text \<open>Spaces filled one after the other make a document that tiles.\<close>

lemma filled_document_tiles:
  assumes "distinct (map (sp_key \<circ> fst) ss)" "dc_spaces d = map fst ss"
    and "dc_regions d = concat (map (filled_space ids k) ss)"
    and "\<And>s. s \<in> set ss \<Longrightarrow> fst (fill (sp_key (fst s)) (sp_capacity (fst s)) ids k (snd s)) = Inr ()"
    and "\<And>s r. s \<in> set ss \<Longrightarrow> r \<in> set (snd s) \<Longrightarrow> lr_start r + lr_length r < 2 ^ 64 \<and> lr_space r = sp_key (fst s)"
  shows "tiles_ok d"
proof (rule filled_tiles [OF assms(1-3)])
  fix s assume s: "s \<in> set ss"
  then have run: "fill (sp_key (fst s)) (sp_capacity (fst s)) ids k (snd s) = (Inr (), filled_space ids k s)"
    using assms(4) by (simp add: filled_space_def prod_eq_iff)
  have small: "\<forall>r \<in> set (snd s). lr_start r + lr_length r < 2 ^ 64" and names: "\<forall>r \<in> set (snd s). lr_space r = sp_key (fst s)"
    using assms(5) s by blast+
  show "chain_from 0 (filled_space ids k s) (sp_capacity (fst s)) \<and> (\<forall>r \<in> set (filled_space ids k s). lr_space r = sp_key (fst s))"
    using fill_ok(1) [OF small run] fill_space_names [OF run small names] by blast
qed

end
