(* ===== verification/SnapshotText.thy ===== *)
theory SnapshotText
  imports Snapshot LayoutText
begin

text \<open>
  The text of a snapshot read back: its lines end in a carriage return and a newline, its columns come in
  another order than the host's renderer writes them, and the validator finds in it the document of
  its rows.
\<close>

section \<open>Lines\<close>

lemma strip_carriage_cr: "strip_carriage (l @ [carriage]) = l"
  by (simp add: strip_carriage_def)

lemma columns_read_crlf:
  "newline \<notin> set l \<Longrightarrow> columns_read (l @ crlf @ rest) =
     (case read_column l of None \<Rightarrow> columns_read rest | Some c \<Rightarrow> c # columns_read rest)"
  using columns_read_line [of "l @ [carriage]" rest]
  by (simp add: crlf_def strip_carriage_cr) (simp add: newline_def carriage_def)

lemma snap_column_read:
  assumes "col_ok c"
  shows "columns_read (snap_column c @ rest) = c # columns_read rest"
proof -
  have "newline \<notin> set (open_column c @ '','')"
    using open_column_newline [OF assms] by (simp add: newline_def)
  moreover have "snap_column c @ rest = (open_column c @ '','') @ crlf @ rest"
    by (simp add: snap_column_def open_column_def)
  ultimately show ?thesis using columns_read_crlf [of "open_column c @ '',''" rest] read_column_line [OF assms, of "'',''"] by simp
qed

lemma snap_columns_read:
  "\<forall>c \<in> set cs. col_ok c \<Longrightarrow> columns_read (concat (map snap_column cs) @ rest) = cs @ columns_read rest"
  by (induction cs) (simp_all add: snap_column_read)

lemma blank_read: "columns_read (crlf @ rest) = columns_read rest"
  using columns_read_crlf [of "[]" rest]
  by (simp add: read_column_def trim_def trim_start_def trim_end_def after_sub_none Let_def)

lemma label_read:
  assumes "l = joined (s # ss)" "plain (s # ss)" "\<forall>t \<in> set ss. strip_prefix '': ['' t = None"
    and "l \<noteq> []" "\<not> is_space (hd l)" "\<not> is_space (last l)" "newline \<notin> set l"
  shows "columns_read (('' '' @ '' '' @ l) @ crlf @ rest) = columns_read rest"
proof -
  have "newline \<notin> set ('' '' @ '' '' @ l)" using assms(7) by (simp add: newline_def)
  moreover have "read_column ('' '' @ '' '' @ l) = None"
    unfolding read_column_def trim_indent [OF assms(4-6)] Let_def
    using no_column [OF assms(2,3)] assms(1) by simp
  ultimately show ?thesis using columns_read_crlf [of "'' '' @ '' '' @ l" rest] by simp
qed

lemma brace_read:
  "columns_read (''{'' @ crlf @ rest) = columns_read rest" "columns_read (''}'' @ crlf) = []"
  using columns_read_crlf [of "''{''" rest] columns_read_crlf [of "''}''" "[]"]
  by (simp_all add: read_column_def trim_plain is_space_def after_sub_none Let_def newline_def columns_read_def map_filter_simps)

lemma head_read: "columns_read (snapshot_head @ rest) = columns_read rest"
proof -
  define l1 where "l1 = joined [[], ''schema'', '': '', SCHEMA, '','']"
  define l2 where "l2 = joined [[], ''version'', '': 1,'']"
  have one: "decimal LAYOUT_VERSION = ''1''" unfolding LAYOUT_VERSION_def by (subst decimal.simps) (simp add: digit_char_def char_of_def bit_0)
  have whole: "snapshot_head @ rest = ''{'' @ crlf @ ('' '' @ '' '' @ l1) @ crlf @ ('' '' @ '' '' @ l2) @ crlf @ crlf @ rest"
    by (simp add: snapshot_head_def one l1_def l2_def)
  have h1: "columns_read (('' '' @ '' '' @ l1) @ crlf @ t) = columns_read t" for t
    by (rule label_read [OF l1_def]) (simp_all add: l1_def SCHEMA_def is_space_def newline_def)
  have h2: "columns_read (('' '' @ '' '' @ l2) @ crlf @ t) = columns_read t" for t
    by (rule label_read [OF l2_def]) (simp_all add: l2_def is_space_def newline_def)
  show ?thesis unfolding whole brace_read h1 h2 blank_read ..
qed

lemma foot_read:
  assumes "label_ok r"
  shows "columns_read (snapshot_foot r) = []"
proof -
  define l where "l = joined [[], ''provenance'', '': { '', ''producer'', '': '', PRODUCER, '', '', ''revision'', '': '', r, '' }'']"
  have whole: "snapshot_foot r = crlf @ ('' '' @ '' '' @ l) @ crlf @ ''}'' @ crlf"
    by (simp add: snapshot_foot_def l_def)
  have r: "quote \<notin> set r \<and> newline \<notin> set r" using assms plain_text_no by (simp add: label_ok_def)
  have "columns_read (('' '' @ '' '' @ l) @ crlf @ ''}'' @ crlf) = columns_read (''}'' @ crlf)"
    using assms r by (intro label_read [OF l_def]) (simp_all add: l_def is_space_def newline_def label_ok_def PRODUCER_def)
  then show ?thesis unfolding whole blank_read brace_read(2) .
qed

section \<open>The document of the rows\<close>

definition region_of :: "row \<Rightarrow> lay_region" where
  "region_of r =
     \<lparr>lr_id = unat (rw_id r), lr_space = space_key (rw_place r), lr_kind = rw_kind r, lr_name = row_name r,
      lr_owner = rw_owner r, lr_start = rw_start r, lr_length = rw_length r, lr_tier = rw_tier r,
      lr_object = row_object r, lr_state = rw_state r, lr_reuse = rw_reuse r, lr_cost = rw_cost r,
      lr_next_use = row_next_use r\<rparr>"

definition edge_of :: "row \<Rightarrow> edge" where
  "edge_of r = \<lparr>ed_kind = ''backs'', ed_from = unat (backed_from r), ed_to = unat (rw_id r)\<rparr>"

definition rows_doc :: "nat \<Rightarrow> nat \<Rightarrow> row list \<Rightarrow> doc" where
  "rows_doc stored capacity rows =
     \<lparr>dc_spaces =
        [\<lparr>sp_key = space_key SpaceDisk, sp_name = ''virtio-blk model image'', sp_block = SECTOR, sp_capacity = stored\<rparr>,
         \<lparr>sp_key = space_key SpaceDram, sp_name = ''object arena'', sp_block = GRAIN, sp_capacity = capacity\<rparr>],
      dc_regions = map region_of rows, dc_edges = map edge_of (filter is_backed rows)\<rparr>"

definition snap_columns :: "nat \<Rightarrow> nat \<Rightarrow> row list \<Rightarrow> columns" where
  "snap_columns stored capacity rows = snap_spaces stored capacity @ snap_contract rows @ snap_extras rows @ snap_edges rows"

lemma snap_text_quoted: "\<forall>r \<in> set rows. plain_text (f r) \<Longrightarrow> snap_text name f rows = (name, map (\<lambda>r. json_quoted (f r)) rows)"
  by (simp add: snap_text_def json_plain)

lemma snapshot_read:
  assumes cols: "\<forall>c \<in> set (snap_columns (LAYERS * TILES * TILE_BYTES) (oc_capacity (arena_occupancy (mg_arena M))) (manager_rows M)). col_ok c"
    and r: "label_ok r"
  shows "columns_read (snapshot_of M r) = snap_columns (LAYERS * TILES * TILE_BYTES) (oc_capacity (arena_occupancy (mg_arena M))) (manager_rows M)"
proof -
  let ?sp = "snap_spaces (LAYERS * TILES * TILE_BYTES) (oc_capacity (arena_occupancy (mg_arena M)))" and ?rows = "manager_rows M"
  have c: "\<forall>c \<in> set ?sp. col_ok c" "\<forall>c \<in> set (snap_contract ?rows). col_ok c" "\<forall>c \<in> set (snap_extras ?rows). col_ok c"
    "\<forall>c \<in> set (snap_edges ?rows). col_ok c" using cols by (simp_all add: snap_columns_def)
  show ?thesis
    unfolding snapshot_of_def Let_def head_read snap_columns_read [OF c(1)] blank_read snap_columns_read [OF c(2)]
      snap_columns_read [OF c(3)] snap_columns_read [OF c(4)] foot_read [OF r] snap_columns_def by simp
qed

text \<open>What the validator asks of the columns, it asks by name.\<close>

lemma same_checks:
  assumes "\<forall>n \<in> set REQUIRED. columns_raw A n = columns_raw B n"
  shows "first_missing A REQUIRED = first_missing B REQUIRED" "check_refs A = check_refs B" "check_tiles A = check_tiles B"
proof -
  have raw: "columns_raw A n = columns_raw B n" if "n \<in> set REQUIRED" for n using assms that by blast
  have "first_missing A ns = first_missing B ns" if "set ns \<subseteq> set REQUIRED" for ns
    using that by (induction ns) (simp_all add: columns_strings_def raw split: sum.split)
  then show "first_missing A REQUIRED = first_missing B REQUIRED" by simp
  have nums: "columns_numbers A n = columns_numbers B n" and strs: "columns_strings A n = columns_strings B n" if "n \<in> set REQUIRED" for n
    using raw [OF that] by (simp_all add: columns_numbers_def columns_strings_def)
  have n: "columns_numbers A n = columns_numbers B n"
    if "n \<in> {''region_id'', ''rel_from'', ''rel_to'', ''region_start'', ''region_length'', ''space_capacity''}" for n
    using that by (intro nums) (auto simp: REQUIRED_def)
  have t: "columns_strings A n = columns_strings B n" if "n \<in> {''region_space'', ''spaces''}" for n
    using that by (intro strs) (auto simp: REQUIRED_def)
  show "check_refs A = check_refs B" unfolding check_refs_def by (simp only: n insert_iff simp_thms)
  show "check_tiles A = check_tiles B" unfolding check_tiles_def by (simp only: n t insert_iff simp_thms)
qed

text \<open>Every text of a row is one a column can hold.\<close>

definition row_ok :: "row \<Rightarrow> bool" where
  "row_ok r \<longleftrightarrow> (\<forall>s \<in> {rw_kind r, row_name r, rw_owner r, rw_tier r, row_object r, rw_state r, row_next_use r}. text_ok s)"

lemma space_key_ok: "text_ok (space_key w)"
  by (cases w) (simp_all add: text_ok_def plain_text_def)

lemma rows_texts:
  assumes "\<forall>r \<in> set rows. row_ok r"
  shows "texts_ok (rows_doc stored capacity rows)"
proof -
  have "text_ok ''virtio-blk model image''" "text_ok ''object arena''" "text_ok ''backs''"
    by (simp_all add: text_ok_def plain_text_def)
  then show ?thesis
    using assms space_key_ok
    by (auto simp: texts_ok_def rows_doc_def SPACE_TEXT_def REGION_TEXT_def region_of_def edge_of_def row_ok_def simp del: space_key.simps)
qed

lemma snap_raw:
  assumes ok: "\<forall>r \<in> set rows. row_ok r" and n: "n \<in> set REQUIRED"
  shows "columns_raw (snap_columns stored capacity rows) n = columns_raw (doc_columns (rows_doc stored capacity rows)) n"
proof -
  have q: "json_quoted s = [quote] @ s @ [quote]" if "text_ok s" for s using that json_plain by (simp add: text_ok_def)
  have k: "json_quoted (space_key w) = [quote] @ space_key w @ [quote]" for w by (rule q [OF space_key_ok])
  have f: "json_quoted ''virtio-blk model image'' = [quote] @ ''virtio-blk model image'' @ [quote]"
    "json_quoted ''object arena'' = [quote] @ ''object arena'' @ [quote]" "json_quoted ''backs'' = [quote] @ ''backs'' @ [quote]"
    by (rule q, simp add: text_ok_def plain_text_def)+
  have r: "map (\<lambda>r. json_quoted (rw_kind r)) rows = map (\<lambda>r. [quote] @ rw_kind r @ [quote]) rows"
    "map (\<lambda>r. json_quoted (row_name r)) rows = map (\<lambda>r. [quote] @ row_name r @ [quote]) rows"
    "map (\<lambda>r. json_quoted (rw_owner r)) rows = map (\<lambda>r. [quote] @ rw_owner r @ [quote]) rows"
    using ok q by (auto simp: row_ok_def)
  have c: "columns_raw (snap_columns stored capacity rows) ''spaces'' = Inr (map (\<lambda>s. [quote] @ s @ [quote]) [space_key SpaceDisk, space_key SpaceDram])"
    "columns_raw (snap_columns stored capacity rows) ''space_name'' = Inr (map (\<lambda>s. [quote] @ s @ [quote]) [''virtio-blk model image'', ''object arena''])"
    "columns_raw (snap_columns stored capacity rows) ''space_block'' = Inr (map decimal [SECTOR, GRAIN])"
    "columns_raw (snap_columns stored capacity rows) ''space_capacity'' = Inr (map decimal [stored, capacity])"
    "columns_raw (snap_columns stored capacity rows) ''region_id'' = Inr (map (\<lambda>r. decimal (unat (rw_id r))) rows)"
    "columns_raw (snap_columns stored capacity rows) ''region_space'' = Inr (map (\<lambda>r. [quote] @ space_key (rw_place r) @ [quote]) rows)"
    "columns_raw (snap_columns stored capacity rows) ''region_kind'' = Inr (map (\<lambda>r. [quote] @ rw_kind r @ [quote]) rows)"
    "columns_raw (snap_columns stored capacity rows) ''region_name'' = Inr (map (\<lambda>r. [quote] @ row_name r @ [quote]) rows)"
    "columns_raw (snap_columns stored capacity rows) ''region_owner'' = Inr (map (\<lambda>r. [quote] @ rw_owner r @ [quote]) rows)"
    "columns_raw (snap_columns stored capacity rows) ''region_start'' = Inr (map (\<lambda>r. decimal (rw_start r)) rows)"
    "columns_raw (snap_columns stored capacity rows) ''region_length'' = Inr (map (\<lambda>r. decimal (rw_length r)) rows)"
    "columns_raw (snap_columns stored capacity rows) ''region_text_words'' = Inr (map (\<lambda>r. decimal 0) rows)"
    "columns_raw (snap_columns stored capacity rows) ''region_data_words'' = Inr (map (\<lambda>r. decimal 0) rows)"
    "columns_raw (snap_columns stored capacity rows) ''region_bss_words'' = Inr (map (\<lambda>r. decimal 0) rows)"
    "columns_raw (snap_columns stored capacity rows) ''rel_kind'' = Inr (map (\<lambda>r. [quote] @ ''backs'' @ [quote]) (filter is_backed rows))"
    "columns_raw (snap_columns stored capacity rows) ''rel_from'' = Inr (map (\<lambda>r. decimal (unat (backed_from r))) (filter is_backed rows))"
    "columns_raw (snap_columns stored capacity rows) ''rel_to'' = Inr (map (\<lambda>r. decimal (unat (rw_id r))) (filter is_backed rows))"
    by (simp_all add: columns_raw_def snap_columns_def snap_spaces_def snap_contract_def snap_extras_def snap_edges_def snap_text_def
        snap_nums_def Let_def)
  show ?thesis
    using n r unfolding REQUIRED_def
    by (auto simp: c doc_raw rows_doc_def region_of_def edge_of_def comp_def k f simp del: space_key.simps)
qed

lemma snap_aligned: "check_aligned (snap_columns stored capacity rows) = None"
  by (simp add: check_aligned_def columns_strings_def columns_raw_def snap_columns_def snap_spaces_def snap_contract_def
      snap_extras_def snap_edges_def snap_text_def snap_nums_def Let_def group_size_def)

lemma snap_cols_ok:
  assumes "\<forall>r \<in> set rows. row_ok r"
  shows "\<forall>c \<in> set (snap_columns stored capacity rows). col_ok c"
proof -
  have q: "item_ok ([quote] @ s @ [quote])" if "text_ok s" for s
    using item_ok_text [OF that] json_plain [of s] that by (simp add: text_ok_def)
  have t: "col_ok (snap_text name f rs)" if "name_ok name" "\<forall>r \<in> set rs. text_ok (f r)" for name f and rs :: "row list"
    using that q by (auto simp: col_ok_def snap_text_def simp del: append_Cons append_Nil)
  have n: "col_ok (snap_nums name f rs)" if "name_ok name" for name f and rs :: "row list"
    using that item_ok_decimal by (auto simp: col_ok_def snap_nums_def)
  have ok: "text_ok (rw_kind r)" "text_ok (row_name r)" "text_ok (rw_owner r)" "text_ok (rw_tier r)" "text_ok (row_object r)"
    "text_ok (rw_state r)" "text_ok (row_next_use r)" if "r \<in> set rows" for r using assms that by (simp_all add: row_ok_def)
  have names: "name_ok x" if "x \<in> set (REQUIRED @ [''region_tier'', ''region_state'', ''region_reuse'', ''region_cost'', ''region_object_id'', ''region_next_use''])" for x
    using that by (auto simp: REQUIRED_def name_ok_def newline_def)
  have sp: "text_ok ''virtio-blk model image''" "text_ok ''object arena''" "text_ok ''backs''"
    by (simp_all add: text_ok_def plain_text_def)
  have "\<forall>c \<in> set (snap_spaces stored capacity). col_ok c"
    using q [OF space_key_ok] q [OF sp(1)] q [OF sp(2)] item_ok_decimal
    by (simp add: snap_spaces_def col_ok_def name_ok_def newline_def del: space_key.simps)
  moreover have "\<forall>c \<in> set (snap_contract rows). col_ok c"
    unfolding snap_contract_def using ok space_key_ok by (auto intro!: t n names simp: REQUIRED_def)
  moreover have "\<forall>c \<in> set (snap_extras rows). col_ok c"
    unfolding snap_extras_def using ok by (auto intro!: t n names simp: REQUIRED_def)
  moreover have "\<forall>c \<in> set (snap_edges rows). col_ok c"
    unfolding snap_edges_def Let_def using sp by (auto intro!: t n names simp: REQUIRED_def)
  ultimately show ?thesis by (auto simp: snap_columns_def)
qed

end
