(* ===== verification/SnapshotProofs.thy ===== *)
theory SnapshotProofs
  imports SnapshotText LabStart ObjmanProps
begin

text \<open>
  What the rows of a snapshot are: their ids and texts, and how their extents lie in the two spaces.
\<close>

section \<open>Tilings\<close>

definition bytes_in :: "lay_region \<Rightarrow> nat set" where
  "bytes_in r = {lr_start r..<lr_start r + lr_length r}"

text \<open>Regions that have a length tile a space exactly when they partition it.\<close>

lemma chain_partition:
  assumes "\<forall>r \<in> set rs. 0 < lr_length r" "sorted (map extent rs)"
  shows "chain_from a rs e \<longleftrightarrow>
    distinct rs \<and> (\<forall>r \<in> set rs. \<forall>s \<in> set rs. r \<noteq> s \<longrightarrow> bytes_in r \<inter> bytes_in s = {}) \<and>
    (\<Union>r \<in> set rs. bytes_in r) = {a..<e} \<and> a \<le> e"
  using assms
proof (induction rs arbitrary: a)
  case (Cons r rs)
  let ?U = "\<Union>s \<in> set rs. bytes_in s" and ?b = "a + lr_length r"
  have pos: "0 < lr_length r" using Cons.prems(1) by simp
  have IH: "chain_from b rs e \<longleftrightarrow>
    distinct rs \<and> (\<forall>r \<in> set rs. \<forall>s \<in> set rs. r \<noteq> s \<longrightarrow> bytes_in r \<inter> bytes_in s = {}) \<and> ?U = {b..<e} \<and> b \<le> e" for b
    using Cons by simp
  have le: "lr_start r \<le> lr_start s" if "s \<in> set rs" for s
    using Cons.prems(2) that by (auto simp: extent_def)
  show ?case
  proof
    assume "chain_from a (r # rs) e"
    then have r: "bytes_in r = {a..<?b}" "chain_from ?b rs e" by (simp_all add: bytes_in_def)
    note I = r(2) [unfolded IH]
    have apart: "bytes_in r \<inter> bytes_in s = {}" if "s \<in> set rs" for s
    proof -
      have "bytes_in s \<subseteq> ?U" using that by blast
      then show ?thesis using I unfolding r(1) by force
    qed
    moreover have "bytes_in r \<noteq> {}" using pos r(1) by simp
    ultimately have "r \<notin> set rs" by fastforce
    moreover have "(\<Union>s \<in> set (r # rs). bytes_in s) = {a..<e}"
    proof -
      have "(\<Union>s \<in> set (r # rs). bytes_in s) = {a..<?b} \<union> {?b..<e}" using I r(1) by simp
      then show ?thesis using I by (simp add: ivl_disj_un)
    qed
    moreover have "bytes_in x \<inter> bytes_in s = {}" if "x \<in> set (r # rs)" "s \<in> set (r # rs)" "x \<noteq> s" for x s
      using I apart [of x] apart [of s] that by (metis Int_commute set_ConsD)
    moreover have "distinct rs" "a \<le> e" using I by simp_all
    ultimately show "distinct (r # rs) \<and> (\<forall>x \<in> set (r # rs). \<forall>s \<in> set (r # rs). x \<noteq> s \<longrightarrow> bytes_in x \<inter> bytes_in s = {}) \<and>
      (\<Union>s \<in> set (r # rs). bytes_in s) = {a..<e} \<and> a \<le> e" by simp
  next
    assume P: "distinct (r # rs) \<and> (\<forall>x \<in> set (r # rs). \<forall>s \<in> set (r # rs). x \<noteq> s \<longrightarrow> bytes_in x \<inter> bytes_in s = {}) \<and>
      (\<Union>s \<in> set (r # rs). bytes_in s) = {a..<e} \<and> a \<le> e"
    then have all: "bytes_in r \<union> ?U = {a..<e}" and apart: "bytes_in r \<inter> ?U = {}" by auto
    have r: "lr_start r \<in> {a..<e}" "lr_start r + lr_length r - 1 \<in> {a..<e}"
      using all pos by (auto simp: bytes_in_def)
    then have "a \<in> bytes_in r \<union> ?U" unfolding all by simp
    then have "lr_start r \<le> a" using le by (auto simp: bytes_in_def dest: le_trans)
    then have at: "lr_start r = a" using r by simp
    then have "bytes_in r = {a..<?b}" by (simp add: bytes_in_def)
    have be: "?b \<le> e" using r(2) pos unfolding at atLeastLessThan_iff by linarith
    have "?U = {a..<e} - {a..<?b}" unfolding all [symmetric] \<open>bytes_in r = {a..<?b}\<close> [symmetric] using apart by blast
    also have "\<dots> = {?b..<e}" using be by auto
    finally have "?U = {?b..<e}" .
    moreover note be
    ultimately have "chain_from ?b rs e" using IH P by simp
    then show "chain_from a (r # rs) e" using at by simp
  qed
qed (simp, linarith)

lemma tiling_partition:
  assumes "\<forall>r \<in> set rs. 0 < lr_length r"
  shows "chain_from 0 (sort_key extent rs) e \<longleftrightarrow>
    distinct rs \<and> (\<forall>r \<in> set rs. \<forall>s \<in> set rs. r \<noteq> s \<longrightarrow> bytes_in r \<inter> bytes_in s = {}) \<and> (\<Union>r \<in> set rs. bytes_in r) = {..<e}"
  using chain_partition [of "sort_key extent rs" 0 e] assms by (simp add: atLeast0LessThan)

lemma even_chain:
  "(\<forall>k. a \<le> k \<and> k < a + n \<longrightarrow> lr_start (f k) = k * s \<and> lr_length (f k) = s) \<Longrightarrow> chain_from (a * s) (map f [a..<a + n]) ((a + n) * s)"
proof (induction n arbitrary: a)
  case (Suc n)
  have "map f [a..<a + Suc n] = f a # map f [a + 1..<a + 1 + n]"
    using upt_conv_Cons [of a "a + Suc n"] by (simp del: upt_Suc)
  moreover have "chain_from ((a + 1) * s) (map f [a + 1..<a + 1 + n]) ((a + 1 + n) * s)" by (rule Suc.IH) (use Suc.prems in simp)
  ultimately show ?case using Suc.prems by (simp add: algebra_simps)
qed simp

lemma grid: "concat (map (\<lambda>l. map (f l) [0..<n]) [0..<m]) = map (\<lambda>k. f (k div n) (k mod n)) [0..<m * n]"
proof (cases "n = 0")
  case False
  show ?thesis
  proof (induction m)
    case (Suc m)
    have "map (f m) [0..<n] = map (\<lambda>k. f (k div n) (k mod n)) (map (\<lambda>k. k + m * n) [0..<n])"
      using False by (auto simp: div_mult_self3)
    also have "map (\<lambda>k. k + m * n) [0..<n] = [m * n..<n + m * n]" by (rule map_add_upt)
    finally have "map (f m) [0..<n] = map (\<lambda>k. f (k div n) (k mod n)) [m * n..<n + m * n]" .
    moreover have "[0..<n + m * n] = [0..<m * n] @ [m * n..<n + m * n]"
      using upt_add_eq_append [of 0 "m * n" n] by (simp add: add.commute)
    ultimately show ?case using Suc by simp
  qed simp
qed (induction m, simp_all)

section \<open>Rows\<close>

lemma object_row_Some:
  "object_row place i m x = Some r \<longleftrightarrow>
     (\<exists>n c. region_object place i = Some n \<and> object_class_of i = Some c \<and>
        r = \<lparr>rw_place = place, rw_id = n, rw_start = fst x, rw_length = snd x, rw_kind = class_kind c,
             rw_owner = ''model 1'', rw_tier = tier_name (m_tier m), rw_state = state_name m, rw_object = i,
             rw_at = (f_layer (object_fields i), f_tensor (object_fields i)),
             rw_next_use = m_next_use m, rw_reuse = m_reuse_count m, rw_cost = m_reload_cost m\<rparr>)"
  by (auto simp: object_row_def split: option.splits)

definition row_of :: "space \<Rightarrow> row \<Rightarrow> bool" where
  "row_of place r \<longleftrightarrow>
     rw_place r = place \<and> region_object place (rw_object r) = Some (rw_id r) \<and> rw_object r \<noteq> 0 \<and>
     (\<exists>c m. rw_kind r = class_kind c \<and> rw_owner r = ''model 1'' \<and> rw_tier r = tier_name (m_tier m) \<and>
        rw_state r = state_name m)"

lemma object_row_of: "object_row place i m x = Some r \<Longrightarrow> row_of place r \<and> rw_object r = i \<and> (rw_start r, rw_length r) = x"
proof -
  assume "object_row place i m x = Some r"
  moreover have "i \<noteq> 0" if "object_class_of i = Some c" for c using that object_class_of_0 by auto
  ultimately show ?thesis unfolding object_row_Some row_of_def by (elim exE conjE) (cases x, auto)
qed

lemma text_ok_append: "text_ok (s @ t) \<longleftrightarrow> text_ok s \<and> text_ok t"
  by (auto simp: text_ok_def plain_text_def)

lemma text_ok_alnum: "\<forall>c \<in> set s. is_alnum c \<Longrightarrow> text_ok s"
  by (force simp: text_ok_def plain_text_def is_alnum_def)

lemma text_ok_decimal: "text_ok (decimal n)"
  using decimal_alnum text_ok_alnum by blast

lemma hex_alnum: "\<forall>c \<in> set (hex n). is_alnum c"
proof (induction n rule: hex.induct)
  case (1 n)
  show ?case
  proof (cases "n < 16")
    case True
    then show ?thesis by (simp add: hex.simps [of n] digit_char_alnum)
  next
    case False
    then show ?thesis using 1 by (simp add: hex.simps [of n] digit_char_alnum)
  qed
qed

lemma words_ok:
  "text_ok (class_kind c)" "text_ok (tier_name t)" "text_ok (state_name m)" "text_ok (next_use_text u)"
proof -
  show "text_ok (class_kind c)" by (cases c) (simp_all add: text_ok_def plain_text_def)
  show "text_ok (tier_name t)" by (cases t) (simp_all add: text_ok_def plain_text_def)
  show "text_ok (state_name m)" by (simp add: state_name_def text_ok_def plain_text_def)
  have "text_ok ''at ''" "text_ok ''probability ''" "text_ok ''never''" by (simp_all add: text_ok_def plain_text_def)
  then show "text_ok (next_use_text u)"
    by (cases u) (simp_all add: text_ok_append text_ok_decimal del: append_Cons append_Nil)
qed

lemma row_ok_of: "row_of place r \<Longrightarrow> row_ok r"
proof -
  assume r: "row_of place r"
  have "text_ok ''model 1''" "text_ok ''layer ''" "text_ok '' tile ''" by (simp_all add: text_ok_def plain_text_def)
  moreover from this have "text_ok (row_name r)" using r
    by (simp add: row_of_def row_name_def text_ok_append text_ok_decimal del: append_Cons append_Nil)
  ultimately show ?thesis using r words_ok text_ok_decimal
    by (auto simp: row_of_def row_ok_def row_object_def row_next_use_def)
qed

lemma row_ok_tail: "row_ok (snapshot_tail used capacity)"
proof -
  have "text_ok ''free''" "text_ok ''free at 0x''" "text_ok []" "text_ok ''fixed''" by (simp_all add: text_ok_def plain_text_def)
  then show ?thesis using text_ok_alnum [OF hex_alnum]
    by (simp add: row_ok_def snapshot_tail_def row_name_def row_object_def row_next_use_def text_ok_append del: append_Cons append_Nil)
qed

section \<open>The rows of a manager\<close>

text \<open>Every tile is registered at its size, and nothing but the model is resident.\<close>

definition model_known :: "manager \<Rightarrow> bool" where
  "model_known M \<longleftrightarrow> (\<forall>i \<in> set stored_ids. \<exists>m. table_map (mg_table M) i = Some m \<and> m_size m = TILE_BYTES)"

definition only_model :: "manager \<Rightarrow> bool" where
  "only_model M \<longleftrightarrow> (\<forall>i. blocks M i \<noteq> None \<longrightarrow> i \<in> set placed_ids)"

lemma placed_ids_list: "placed_ids = map tile_at (List.product [0..<LAYERS] [0..<TILES + 1])"
  using model_ids [of False] unfolding placed_ids_def model_entries_def map_concat map_map by (simp add: comp_def)

lemma placed_ids_distinct: "distinct placed_ids"
  using model_ids_distinct [of False] unfolding model_ids placed_ids_list .

definition nth_tile :: "nat \<Rightarrow> object_id" where
  "nth_tile k = tile (of_nat (k div TILES)) (of_nat (k mod TILES))"

lemma stored_ids_list: "stored_ids = map nth_tile [0..<LAYERS * TILES]"
  unfolding stored_ids_def nth_tile_def by (rule grid)

lemma stored_sub: "set stored_ids \<subseteq> set placed_ids"
  by (auto simp: stored_ids_def placed_ids_def)

lemma stored_ids_distinct: "distinct stored_ids"
proof -
  have row: "map (\<lambda>t. tile (of_nat l) (of_nat t)) [0..<TILES] = map (\<lambda>t. tile_at (l, t)) [0..<TILES]" for l
    by (rule map_cong) (simp_all add: tile_at_def)
  have ids: "stored_ids = map tile_at (List.product [0..<LAYERS] [0..<TILES])"
    unfolding stored_ids_def product_concat_map map_concat map_map row comp_def ..
  have "inj_on tile_at (set (List.product [0..<LAYERS] [0..<TILES + 1]))"
    using placed_ids_distinct unfolding placed_ids_list distinct_map by blast
  then have "inj_on tile_at (set (List.product [0..<LAYERS] [0..<TILES]))" by (rule inj_on_subset) auto
  then show ?thesis unfolding ids distinct_map using distinct_product [OF distinct_upt distinct_upt] by blast
qed

lemma placed_named:
  assumes "i \<in> set placed_ids"
  obtains r c where "region_object w i = Some r" "object_class_of i = Some c" "i \<in> set stored_ids \<longleftrightarrow> c = WeightTile"
proof -
  obtain l t where lt: "l < LAYERS" "t < TILES + 1" "i = tile_at (l, t)"
  proof -
    obtain p where "p \<in> set (List.product [0..<LAYERS] [0..<TILES + 1])" "i = tile_at p"
      using assms unfolding placed_ids_list set_map by blast
    moreover from this have "p \<in> {0..<LAYERS} \<times> {0..<TILES + 1}" by (simp only: set_product set_upt)
    ultimately show ?thesis using that [of "fst p" "snd p"] by (simp add: mem_Times_iff)
  qed
  have u: "(of_nat l :: u16) \<le> 0xff" "(of_nat t :: u16) \<le> 0xff"
    using lt(1,2) by (simp_all add: word_le_nat_alt unat_of_nat LAYERS_def TILES_def)
  have "\<exists>r. region_object w i = Some r"
    using u by (simp add: region_object_def lt(3) tile_at_class tile_at_fields Let_def not_less MODEL_def)
  then obtain r where r: "region_object w i = Some r" ..
  have c: "object_class_of i = Some (if t < TILES then WeightTile else Activation)"
    using tile_at_class [of "(l, t)"] by (simp add: lt(3))
  have "i \<in> set stored_ids" if "t < TILES"
    using lt that by (auto simp: stored_ids_def tile_at_def intro!: bexI [of _ l])
  moreover have "object_class_of i = Some WeightTile" if "i \<in> set stored_ids"
    using that by (auto simp: stored_ids_def tile_def)
  then have "t < TILES" if "i \<in> set stored_ids" using c that by (cases "t < TILES") simp_all
  ultimately have "i \<in> set stored_ids \<longleftrightarrow> t < TILES" by blast
  then show ?thesis by (intro that [OF r c]) simp
qed

lemma filter_list: "set (List.map_filter f xs) = {y. \<exists>x \<in> set xs. f x = Some y}"
  by (force simp: List.map_filter_def)

lemma map_filter_distinct:
  "distinct xs \<Longrightarrow> (\<And>x y. f x = Some y \<Longrightarrow> g y = x) \<Longrightarrow> distinct (map g (List.map_filter f xs))"
proof (induction xs)
  case (Cons x xs)
  then show ?case by (cases "f x") (auto simp: map_filter_simps filter_list)
qed (simp add: map_filter_simps)

lemma stored_row_of: "stored_row M i = Some r \<Longrightarrow> row_of SpaceDisk r \<and> rw_object r = i"
  using object_row_of by (auto simp: stored_row_def split: option.splits)

lemma placed_row_of: "placed_row M base i = Some r \<Longrightarrow> row_of SpaceDram r \<and> rw_object r = i"
  using object_row_of by (auto simp: placed_row_def split: option.splits)

lemma stored_map:
  assumes "mgr_inv M" "model_known M"
  shows "\<exists>f. stored_rows M = map f [0..<LAYERS * TILES] \<and>
    (\<forall>k < LAYERS * TILES. rw_start (f k) = k * TILE_BYTES \<and> rw_length (f k) = TILE_BYTES)"
proof -
  have inv: "table_inv (mg_table M)" using mgr_invD(1) assms(1) by (simp add: mgr_inv_def)
  have row: "\<exists>r. stored_row M (nth_tile k) = Some r \<and> rw_start r = k * TILE_BYTES \<and> rw_length r = TILE_BYTES"
    if k: "k < LAYERS * TILES" for k
  proof -
    have mem: "nth_tile k \<in> set stored_ids" using k by (simp add: stored_ids_list)
    then obtain m where m: "table_get (mg_table M) (nth_tile k) = Some m" "m_size m = TILE_BYTES"
      using assms(2) by (auto simp: model_known_def table_get_map [OF inv])
    obtain n c where "region_object SpaceDisk (nth_tile k) = Some n" "object_class_of (nth_tile k) = Some c"
      by (rule placed_named [of "nth_tile k" SpaceDisk]) (use mem stored_sub in auto)
    moreover have "sector_of (nth_tile k) * SECTOR = k * TILE_BYTES"
    proof -
      have "k div TILES < 65536" "k mod TILES < 65536" using k by (simp_all add: LAYERS_def TILES_def)
      then show ?thesis unfolding nth_tile_def tile_offset by (simp add: unat_of_nat)
    qed
    ultimately show ?thesis using m by (simp add: stored_row_def object_row_Some)
  qed
  define f where "f k = the (stored_row M (nth_tile k))" for k
  have f: "stored_row M (nth_tile k) = Some (f k)" if "k < LAYERS * TILES" for k using row [OF that] by (auto simp: f_def)
  have "List.map_filter (stored_row M) (map nth_tile ks) = map f ks" if "\<forall>k \<in> set ks. k < LAYERS * TILES" for ks
    using that f by (induction ks) (simp_all add: map_filter_simps)
  then have "stored_rows M = map f [0..<LAYERS * TILES]" by (simp add: stored_rows_def stored_ids_list)
  then show ?thesis using row f by (intro exI [of _ f]) fastforce
qed

lemma placed_blocks:
  assumes inv: "mgr_inv M" and i: "i \<in> set placed_ids" and base: "base = ar_base (mg_arena M)"
  shows "case blocks M i of None \<Rightarrow> placed_row M base i = None
    | Some b \<Rightarrow> \<exists>r. placed_row M base i = Some r \<and> (rw_start r, rw_length r) = (fst b, aligned (snd b))"
proof -
  note I = mgr_invD [OF inv [unfolded mgr_inv_def]]
  obtain n c where n: "region_object SpaceDram i = Some n" "object_class_of i = Some c" using placed_named [OF i, of SpaceDram] by metis
  show ?thesis
  proof (cases "table_map (mg_table M) i")
    case None
    then show ?thesis by (simp add: blocks_def placed_row_def table_get_map [OF I(1)])
  next
    case (Some m)
    have "m_resident_at m \<noteq> 0 \<Longrightarrow> base \<le> m_resident_at m" using I(5) [OF Some] by (simp add: entry_ok_def base)
    moreover have "0 < base" using I(4) base by simp
    ultimately show ?thesis using Some n
      by (auto simp: blocks_def block_of_def placed_row_def table_get_map [OF I(1)] checked_sub_def base aligned_def GRAIN_def object_row_Some)
  qed
qed

lemma region_id_nonzero: "region_object w i = Some r \<Longrightarrow> r \<noteq> 0"
proof
  assume "region_object w i = Some r" "r = 0"
  then obtain c l t u where "packed (space_nibble w) c l t u = 0" unfolding region_packed by blast
  then have "space_nibble w = 0" using packed_slices(1) [of "space_nibble w" c l t u] by simp
  then show False by (cases w) simp_all
qed


end
