(* ===== verification/SnapshotProps.thy ===== *)
theory SnapshotProps
  imports SnapshotProofs
begin

text \<open>
  The document a manager's snapshot is, judged by the validator of mlos-layout.
\<close>

section \<open>Ids and edges\<close>

lemma packed_class: "drop_bit 24 (packed p c l t u) AND 0xf = ucast c"
proof -
  have "drop_bit 24 (packed p c l t u) AND 0xf = take_bit 4 (drop_bit 24 (packed p c l t u))"
    by (simp add: take_bit_eq_mask mask_eq_exp_minus_1 and.commute)
  also have "\<dots> = ucast (ucast (drop_bit 24 (packed p c l t u)) :: 4 word)"
    by (rule bit_word_eqI) (auto simp: bit_simps)
  finally show ?thesis by (simp add: packed_slices(2))
qed

lemma packed_space: "(packed p c l t u AND 0x0fffffff) OR push_bit 28 (ucast q) = packed q c l t u"
proof -
  have m: "(0x0fffffff :: u32) = mask 28" by (simp add: mask_eq_exp_minus_1)
  show ?thesis unfolding m packed_def
    by (rule bit_word_eqI) (auto simp: bit_simps dest: bit_imp_le_length)
qed

lemma backed_from_of:
  assumes "region_object SpaceDram i = Some (rw_id r)"
  shows "region_object SpaceDisk i = Some (backed_from r)"
    and "is_backed r \<Longrightarrow> object_class_of i = Some WeightTile"
proof -
  obtain c where c: "object_class_of i = Some c" "f_model (object_fields i) = 1"
    "\<not> 0xff < f_layer (object_fields i)" "\<not> 0xff < f_tensor (object_fields i)"
    and r: "rw_id r = packed (space_nibble SpaceDram) (class_nibble c) (ucast (f_layer (object_fields i)))
              (ucast (f_tensor (object_fields i))) (f_tile (object_fields i))"
    using assms unfolding region_packed by blast
  show "region_object SpaceDisk i = Some (backed_from r)"
    using c unfolding region_packed backed_from_def r by (simp add: packed_space [of _ _ _ _ _ 1, simplified])
  assume "is_backed r"
  then have "(ucast (class_nibble c) :: u32) = ucast (class_nibble WeightTile)"
    by (simp only: is_backed_def r packed_class class_nibble(1))
  then show "object_class_of i = Some WeightTile" using c(1) by (cases c) simp_all
qed

lemma ids_of_space: "\<forall>r \<in> set rs. row_of w r \<Longrightarrow> distinct (map rw_object rs) \<Longrightarrow> distinct (map rw_id rs)"
proof (induction rs)
  case (Cons r rs)
  have "rw_id s \<noteq> rw_id r" if "s \<in> set rs" for s
  proof
    assume e: "rw_id s = rw_id r"
    have "region_object w (rw_object r) = Some (rw_id r)" "region_object w (rw_object s) = Some (rw_id r)"
      using Cons.prems(1) that e by (auto simp: row_of_def)
    from region_ids_inject [OF this] have "rw_object r \<in> rw_object ` set rs" using that by (metis imageI)
    then show False using Cons.prems(2) by simp
  qed
  with Cons show ?case by force
qed simp

definition the_tail :: "manager \<Rightarrow> row" where
  "the_tail M = snapshot_tail (ar_used (mg_arena M)) (length (ar_bytes (mg_arena M)))"

definition tail_rows :: "manager \<Rightarrow> row list" where
  "tail_rows M = (if 0 < rw_length (the_tail M) then [the_tail M] else [])"

lemma manager_rows_split:
  "manager_rows M = stored_rows M @ placed_rows M (ar_base (mg_arena M)) @ tail_rows M"
  by (simp add: manager_rows_def arena_occupancy_def snapshot_rows_def tail_rows_def the_tail_def Let_def)

lemma rows_of:
  "r \<in> set (stored_rows M) \<Longrightarrow> row_of SpaceDisk r \<and> stored_row M (rw_object r) = Some r"
  "r \<in> set (placed_rows M base) \<Longrightarrow> row_of SpaceDram r \<and> placed_row M base (rw_object r) = Some r \<and> rw_object r \<in> set placed_ids"
  unfolding stored_rows_def placed_rows_def filter_list using stored_row_of placed_row_of by fastforce+

lemma rows_ok: "\<forall>r \<in> set (manager_rows M). row_ok r"
  using rows_of row_ok_of row_ok_tail by (force simp: manager_rows_split tail_rows_def the_tail_def)

lemma rows_distinct: "distinct (map rw_id (manager_rows M))" "0 \<notin> rw_id ` set (manager_rows M)"
proof -
  let ?P = "placed_rows M (ar_base (mg_arena M))"
  have s: "distinct (map rw_id (stored_rows M))"
    by (rule ids_of_space [of _ SpaceDisk], use rows_of in blast, unfold stored_rows_def, rule map_filter_distinct [OF stored_ids_distinct])
      (use stored_row_of in blast)
  have p: "distinct (map rw_id ?P)"
    by (rule ids_of_space [of _ SpaceDram], use rows_of in blast, unfold placed_rows_def, rule map_filter_distinct [OF placed_ids_distinct])
      (use placed_row_of in blast)
  have S: "region_object SpaceDisk (rw_object r) = Some (rw_id r)" if "r \<in> set (stored_rows M)" for r
    using rows_of(1) [OF that] by (simp add: row_of_def)
  have P: "region_object SpaceDram (rw_object r) = Some (rw_id r)" if "r \<in> set ?P" for r
    using rows_of(2) [OF that] by (simp add: row_of_def)
  have "rw_id r \<noteq> rw_id q" if "r \<in> set (stored_rows M)" "q \<in> set ?P" for r q
    using region_ids_inject S [OF that(1)] P [OF that(2)] by (metis space.distinct(1))
  moreover have T: "rw_id r = structural_id SpaceDram 0" if "r \<in> set (tail_rows M)" for r
    using that by (simp add: tail_rows_def the_tail_def snapshot_tail_def split: if_splits)
  moreover have "rw_id r \<noteq> structural_id SpaceDram 0" if "r \<in> set (stored_rows M) \<union> set ?P" for r
    using that S P structural_not_object [where n = 0 and v = SpaceDram] by fastforce
  moreover have "distinct (map rw_id (tail_rows M))" by (simp add: tail_rows_def)
  ultimately show "distinct (map rw_id (manager_rows M))"
    using s p by (fastforce simp: manager_rows_split)
  have "structural_id SpaceDram 0 \<noteq> 0" by (simp add: structural_id_def)
  then show "0 \<notin> rw_id ` set (manager_rows M)"
    using S P T region_id_nonzero by (force simp: manager_rows_split)
qed

lemma edges_kept:
  assumes inv: "mgr_inv M" and known: "model_known M" and r: "r \<in> set (manager_rows M)" "is_backed r"
  shows "backed_from r \<in> rw_id ` set (manager_rows M)"
proof -
  have "structural_id SpaceDram 0 = 0x20000000" by (simp add: structural_id_def)
  then have "r \<notin> set (tail_rows M)"
    using r(2) by (auto simp: is_backed_def tail_rows_def the_tail_def snapshot_tail_def drop_bit_eq_div split: if_splits)
  moreover have "r \<notin> set (stored_rows M)" using rows_of(1) [of r M] r(2) by (auto simp: row_of_def is_backed_def)
  ultimately have p: "r \<in> set (placed_rows M (ar_base (mg_arena M)))" using r(1) by (simp add: manager_rows_split)
  let ?i = "rw_object r"
  have i: "region_object SpaceDram ?i = Some (rw_id r)" "?i \<in> set placed_ids" using rows_of(2) [OF p] by (simp_all add: row_of_def)
  have disk: "region_object SpaceDisk ?i = Some (backed_from r)" "object_class_of ?i = Some WeightTile"
    using backed_from_of [OF i(1)] r(2) by blast+
  have mem: "?i \<in> set stored_ids" by (rule placed_named [OF i(2), of SpaceDisk]) (use disk(2) in simp)
  have "table_inv (mg_table M)" using mgr_invD(1) inv by (simp add: mgr_inv_def)
  then obtain m where "table_get (mg_table M) ?i = Some m"
    using known mem by (auto simp: model_known_def table_get_map)
  then obtain q where "stored_row M ?i = Some q" "rw_id q = backed_from r"
    using disk by (simp add: stored_row_def object_row_def)
  then have "q \<in> set (manager_rows M)" "rw_id q = backed_from r"
    using mem by (auto simp: stored_rows_def filter_list manager_rows_split)
  then show ?thesis by (metis imageI)
qed

section \<open>Tiles\<close>

abbreviation cap_of :: "manager \<Rightarrow> nat" where "cap_of M \<equiv> length (ar_bytes (mg_arena M))"

definition manager_doc :: "manager \<Rightarrow> doc" where
  "manager_doc M = rows_doc (LAYERS * TILES * TILE_BYTES) (cap_of M) (manager_rows M)"

definition dram_rows :: "manager \<Rightarrow> row list" where
  "dram_rows M = placed_rows M (ar_base (mg_arena M)) @ tail_rows M"

lemma keyed: "map region_of (filter (\<lambda>r. space_key (rw_place r) = k) rows) = filter (\<lambda>r. lr_space r = k) (map region_of rows)"
  by (simp add: filter_map comp_def region_of_def)

lemma manager_spaces:
  "of_space (manager_doc M) (space_key SpaceDisk) = sort_key extent (map region_of (stored_rows M))"
  "of_space (manager_doc M) (space_key SpaceDram) = sort_key extent (map region_of (dram_rows M))"
proof -
  have s: "\<forall>r \<in> set (stored_rows M). rw_place r = SpaceDisk" using rows_of(1) by (auto simp: row_of_def)
  have d: "\<forall>r \<in> set (dram_rows M). rw_place r = SpaceDram"
    using rows_of(2) by (auto simp: row_of_def dram_rows_def tail_rows_def the_tail_def snapshot_tail_def)
  have all: "manager_rows M = stored_rows M @ dram_rows M" by (simp add: manager_rows_split dram_rows_def)
  have "filter (\<lambda>r. space_key (rw_place r) = space_key SpaceDisk) (manager_rows M) = stored_rows M"
    using s d unfolding all by (simp add: filter_empty_conv)
  then show "of_space (manager_doc M) (space_key SpaceDisk) = sort_key extent (map region_of (stored_rows M))"
    by (simp only: of_space_def manager_doc_def rows_doc_def doc.simps keyed [symmetric])
  have "filter (\<lambda>r. space_key (rw_place r) = space_key SpaceDram) (manager_rows M) = dram_rows M"
    using s d unfolding all by (simp add: filter_empty_conv)
  then show "of_space (manager_doc M) (space_key SpaceDram) = sort_key extent (map region_of (dram_rows M))"
    by (simp only: of_space_def manager_doc_def rows_doc_def doc.simps keyed [symmetric])
qed

lemma disk_tiled:
  assumes "mgr_inv M" "model_known M"
  shows "chain_from 0 (of_space (manager_doc M) (space_key SpaceDisk)) (LAYERS * TILES * TILE_BYTES)"
proof -
  obtain f where f: "stored_rows M = map f [0..<LAYERS * TILES]"
    "\<forall>k < LAYERS * TILES. rw_start (f k) = k * TILE_BYTES \<and> rw_length (f k) = TILE_BYTES"
    using stored_map [OF assms] by blast
  have "chain_from (0 * TILE_BYTES) (map (region_of \<circ> f) [0..<0 + LAYERS * TILES]) ((0 + LAYERS * TILES) * TILE_BYTES)"
    by (rule even_chain) (use f(2) in \<open>simp add: region_of_def\<close>)
  then have c: "chain_from 0 (map region_of (stored_rows M)) (LAYERS * TILES * TILE_BYTES)" by (simp add: f(1))
  then show ?thesis unfolding manager_spaces using sort_key_id_if_sorted [OF chain_extents [OF c]] by simp
qed

lemma placed_bytes:
  assumes inv: "mgr_inv M" and r: "r \<in> set (placed_rows M (ar_base (mg_arena M)))"
  shows "\<exists>b. blocks M (rw_object r) = Some b \<and> rw_start r = fst b \<and> rw_length r = aligned (snd b)"
  using placed_blocks [OF inv _ refl, of "rw_object r"] rows_of(2) [OF r]
  by (cases "blocks M (rw_object r)") auto

lemma blocks_placed:
  assumes inv: "mgr_inv M" and only: "only_model M" and b: "blocks M i = Some b"
  shows "\<exists>r \<in> set (placed_rows M (ar_base (mg_arena M))). rw_start r = fst b \<and> rw_length r = aligned (snd b)"
proof -
  have i: "i \<in> set placed_ids" using only b by (simp add: only_model_def)
  then obtain r where "placed_row M (ar_base (mg_arena M)) i = Some r" "rw_start r = fst b" "rw_length r = aligned (snd b)"
    using placed_blocks [OF inv i refl] b by auto
  then show ?thesis using i by (auto simp: placed_rows_def filter_list)
qed

lemma bytes_of_row: "bytes_in (region_of r) = {rw_start r..<rw_start r + rw_length r}"
  by (simp add: bytes_in_def region_of_def)

lemma tail_bytes:
  "ar_used (mg_arena M) \<le> cap_of M \<Longrightarrow> r \<in> set (tail_rows M) \<Longrightarrow> bytes_in (region_of r) = {ar_used (mg_arena M)..<cap_of M}"
  "(\<Union>r \<in> set (tail_rows M). bytes_in (region_of r)) = {ar_used (mg_arena M)..<cap_of M}"
  by (auto simp: tail_rows_def the_tail_def snapshot_tail_def bytes_of_row split: if_splits)

lemma complement_unique: "F \<union> B = S \<Longrightarrow> B \<inter> F = {} \<Longrightarrow> B \<inter> T = {} \<and> B \<union> T = S \<longleftrightarrow> F = T"
  by blast

lemma dram_tiled:
  assumes inv: "mgr_inv M" and full: "no_leak M" and only: "only_model M"
  shows "chain_from 0 (of_space (manager_doc M) (space_key SpaceDram)) (cap_of M) \<longleftrightarrow>
    free_set (mg_arena M) = {ar_used (mg_arena M)..<cap_of M}"
proof -
  let ?base = "ar_base (mg_arena M)" and ?free = "free_set (mg_arena M)" and ?T = "{ar_used (mg_arena M)..<cap_of M}"
  let ?B = "\<Union>r \<in> set (placed_rows M ?base). bytes_in (region_of r)"
  note I = mgr_invD [OF inv [unfolded mgr_inv_def]]
  have used: "ar_used (mg_arena M) \<le> cap_of M" using I(2) by (simp add: arena_inv_def)
  have hold: "0 < snd b" "block aligned b \<inter> ?free = {}" if "blocks M i = Some b" for i b
    using I(6) that unfolding holds_def by blast+
  have apart: "block aligned b \<inter> block aligned c = {}" if "blocks M i = Some b" "blocks M j = Some c" "i \<noteq> j" for i j b c
    using I(6) that unfolding holds_def by blast
  have placed: "\<exists>b. blocks M (rw_object r) = Some b \<and> bytes_in (region_of r) = block aligned b \<and> 0 < rw_length r"
    if mem: "r \<in> set (placed_rows M ?base)" for r
  proof -
    obtain b where b: "blocks M (rw_object r) = Some b" "rw_start r = fst b" "rw_length r = aligned (snd b)"
      using placed_bytes [OF inv mem] by blast
    then show ?thesis using aligned_facts(4) [OF hold(1) [OF b(1)]] by (simp add: bytes_of_row block_def)
  qed
  have "?B = (\<Union>b \<in> ran (blocks M). block aligned b)"
  proof
    show "?B \<subseteq> (\<Union>b \<in> ran (blocks M). block aligned b)" using placed ranI by fastforce
    have "block aligned b \<subseteq> ?B" if "blocks M i = Some b" for i b
      using blocks_placed [OF inv only that] by (auto simp: bytes_of_row block_def)
    then show "(\<Union>b \<in> ran (blocks M). block aligned b) \<subseteq> ?B" unfolding ran_def by blast
  qed
  moreover have "(\<Union>b \<in> ran (blocks M). block aligned b) \<inter> ?free = {}"
  proof -
    have "block aligned b \<inter> ?free = {}" if "b \<in> ran (blocks M)" for b using that hold(2) unfolding ran_def by blast
    then show ?thesis by blast
  qed
  ultimately have B: "?free \<union> ?B = {..<cap_of M}" "?B \<inter> ?free = {}"
    using full unfolding no_leak_def covers_def by (simp_all only:)
  have P: "bytes_in (region_of r) \<inter> bytes_in (region_of q) = {}"
    if mem: "r \<in> set (placed_rows M ?base)" "q \<in> set (placed_rows M ?base)" "region_of r \<noteq> region_of q" for r q
  proof -
    have "placed_row M ?base (rw_object r) = Some r" "placed_row M ?base (rw_object q) = Some q"
      using rows_of(2) [OF mem(1)] rows_of(2) [OF mem(2)] by blast+
    then have ne: "rw_object r \<noteq> rw_object q" using mem(3) by (metis option.inject)
    obtain b where b: "blocks M (rw_object r) = Some b" "bytes_in (region_of r) = block aligned b"
      using placed [OF mem(1)] by blast
    obtain c where c: "blocks M (rw_object q) = Some c" "bytes_in (region_of q) = block aligned c"
      using placed [OF mem(2)] by blast
    show ?thesis unfolding b(2) c(2) by (rule apart [OF b(1) c(1) ne])
  qed
  have tail: "rw_id r \<noteq> rw_id q" if "r \<in> set (placed_rows M ?base)" "q \<in> set (tail_rows M)" for r q
    using rows_distinct(1) [of M] that by (auto simp: manager_rows_split)
  have U: "(\<Union>r \<in> set (map region_of (dram_rows M)). bytes_in r) = ?B \<union> ?T"
    using tail_bytes(2) [of M] by (simp add: dram_rows_def)
  have d: "distinct (map region_of (dram_rows M))"
  proof -
    have "distinct (map rw_id (dram_rows M))" using rows_distinct(1) [of M] by (simp add: manager_rows_split dram_rows_def)
    moreover have "map rw_id (dram_rows M) = map (of_nat \<circ> lr_id) (map region_of (dram_rows M))" by (simp add: region_of_def)
    ultimately show ?thesis by (metis distinct_map)
  qed
  have "0 < rw_length r" if "r \<in> set (dram_rows M)" for r
    using that placed by (auto simp: dram_rows_def tail_rows_def split: if_splits)
  then have pos: "\<forall>r \<in> set (map region_of (dram_rows M)). 0 < lr_length r" by (simp add: region_of_def)
  have "chain_from 0 (of_space (manager_doc M) (space_key SpaceDram)) (cap_of M) \<longleftrightarrow> ?B \<inter> ?T = {} \<and> ?B \<union> ?T = {..<cap_of M}"
    unfolding manager_spaces tiling_partition [OF pos] U
  proof (rule iffI; elim conjE)
    assume D: "\<forall>r \<in> set (map region_of (dram_rows M)). \<forall>s \<in> set (map region_of (dram_rows M)). r \<noteq> s \<longrightarrow> bytes_in r \<inter> bytes_in s = {}"
      and u: "?B \<union> ?T = {..<cap_of M}"
    have "bytes_in (region_of r) \<inter> bytes_in (region_of q) = {}" if "r \<in> set (placed_rows M ?base)" "q \<in> set (tail_rows M)" for r q
    proof -
      have "region_of r \<noteq> region_of q" using tail [OF that] by (auto simp: region_of_def word_unat_eq_iff)
      then show ?thesis using D that by (simp add: dram_rows_def)
    qed
    then have "?B \<inter> (\<Union>q \<in> set (tail_rows M). bytes_in (region_of q)) = {}" by blast
    then show "?B \<inter> ?T = {} \<and> ?B \<union> ?T = {..<cap_of M}" using u tail_bytes(2) [of M] by simp
  next
    assume a: "?B \<inter> ?T = {}" and u: "?B \<union> ?T = {..<cap_of M}"
    have pt: "bytes_in (region_of r) \<inter> bytes_in (region_of q) = {}" if "r \<in> set (placed_rows M ?base)" "q \<in> set (tail_rows M)" for r q
      using a that tail_bytes(2) [of M] by blast
    have tt: "r = q" if "r \<in> set (tail_rows M)" "q \<in> set (tail_rows M)" for r q
      using that by (simp add: tail_rows_def split: if_splits)
    have D: "bytes_in (region_of r) \<inter> bytes_in (region_of q) = {}"
      if "r \<in> set (dram_rows M)" "q \<in> set (dram_rows M)" "region_of r \<noteq> region_of q" for r q
      using that P [of r q] pt [of r q] pt [of q r] tt [of r q] unfolding dram_rows_def by auto
    have "\<forall>r \<in> set (map region_of (dram_rows M)). \<forall>s \<in> set (map region_of (dram_rows M)). r \<noteq> s \<longrightarrow> bytes_in r \<inter> bytes_in s = {}"
      unfolding set_map ball_simps using D by blast
    then show "distinct (map region_of (dram_rows M)) \<and>
      (\<forall>r \<in> set (map region_of (dram_rows M)). \<forall>s \<in> set (map region_of (dram_rows M)). r \<noteq> s \<longrightarrow> bytes_in r \<inter> bytes_in s = {}) \<and>
      ?B \<union> ?T = {..<cap_of M}" using d u by blast
  qed
  also have "\<dots> \<longleftrightarrow> ?free = ?T" by (rule complement_unique [OF B])
  finally show ?thesis .
qed

section \<open>The verdict\<close>

lemma manager_numbers:
  assumes inv: "mgr_inv M" and known: "model_known M"
  shows "numbers_ok (manager_doc M)"
proof -
  note I = mgr_invD [OF inv [unfolded mgr_inv_def]]
  have cap: "ar_used (mg_arena M) \<le> cap_of M" "cap_of M < 2 ^ 64" using I(2) by (auto simp: arena_inv_def)
  obtain f where f: "stored_rows M = map f [0..<LAYERS * TILES]"
    "\<forall>k < LAYERS * TILES. rw_start (f k) = k * TILE_BYTES \<and> rw_length (f k) = TILE_BYTES"
    using stored_map [OF inv known] by blast
  have disk: "LAYERS * TILES * TILE_BYTES < 2 ^ 64" by (simp add: LAYERS_def TILES_def TILE_BYTES_def)
  have "rw_start r + rw_length r < 2 ^ 64" if "r \<in> set (stored_rows M)" for r
  proof -
    obtain k where k: "k < LAYERS * TILES" "r = f k" using \<open>r \<in> set (stored_rows M)\<close> by (auto simp: f(1))
    then have "rw_start r + rw_length r = Suc k * TILE_BYTES" using f(2) by simp
    also have "\<dots> \<le> LAYERS * TILES * TILE_BYTES" using k(1) by (intro mult_right_mono) simp_all
    finally show ?thesis using disk by simp
  qed
  moreover have "rw_start r + rw_length r < 2 ^ 64" if mem: "r \<in> set (placed_rows M (ar_base (mg_arena M)))" for r
  proof -
    obtain b where b: "blocks M (rw_object r) = Some b" "rw_start r = fst b" "rw_length r = aligned (snd b)"
      using placed_bytes [OF inv mem] by blast
    then have "rw_start r + rw_length r \<le> cap_of M" using I(6) by (simp add: holds_def)
    then show ?thesis using cap by simp
  qed
  moreover have "rw_start r + rw_length r < 2 ^ 64" if "r \<in> set (tail_rows M)" for r
    using that cap by (auto simp: tail_rows_def the_tail_def snapshot_tail_def split: if_splits)
  ultimately have "\<forall>r \<in> set (manager_rows M). rw_start r + rw_length r < 2 ^ 64" by (auto simp: manager_rows_split)
  then show ?thesis
    using cap disk unsigned_less [where 'b = 32 and 'a = nat]
    by (auto simp: numbers_ok_def manager_doc_def rows_doc_def region_of_def edge_of_def)
qed

lemma manager_refs:
  assumes "mgr_inv M" "model_known M"
  shows "refs_ok (manager_doc M)"
proof -
  have ids: "map lr_id (map region_of rs) = map unat (map rw_id rs)" for rs by (simp add: region_of_def)
  have "distinct (map unat (map rw_id (manager_rows M)))"
    unfolding distinct_map [of _ "map rw_id (manager_rows M)"] by (intro conjI rows_distinct(1)) (simp add: inj_on_def word_unat_eq_iff)
  moreover have "0 \<notin> lr_id ` set (map region_of (manager_rows M))"
    using rows_distinct(2) [of M] by (force simp: region_of_def unat_eq_zero)
  moreover have "{unat (backed_from r), unat (rw_id r)} \<subseteq> lr_id ` set (map region_of (manager_rows M))"
    if r: "r \<in> set (manager_rows M)" "is_backed r" for r
  proof -
    have "backed_from r \<in> rw_id ` set (manager_rows M)" "rw_id r \<in> rw_id ` set (manager_rows M)"
      using edges_kept [OF assms r] r(1) by simp_all
    then have "unat ` {backed_from r, rw_id r} \<subseteq> unat ` rw_id ` set (manager_rows M)" by blast
    moreover have "unat ` rw_id ` set (manager_rows M) = lr_id ` set (map region_of (manager_rows M))"
      by (simp add: image_image region_of_def)
    ultimately show ?thesis by simp
  qed
  ultimately show ?thesis by (simp add: refs_ok_def manager_doc_def rows_doc_def ids edge_of_def del: map_map)
qed

lemma snapshot_schema: "contains (snapshot_of M r) SCHEMA"
proof -
  obtain a b where "snapshot_head = a @ SCHEMA @ b"
    unfolding snapshot_head_def
    by (metis append_assoc)
  then have "snapshot_of M r = a @ SCHEMA @ b @ drop (length snapshot_head) (snapshot_of M r)"
    by (simp add: snapshot_of_def Let_def)
  then show ?thesis unfolding contains_def by (metis after_sub_inside)
qed

lemma snapshot_judged:
  assumes "mgr_inv M" "model_known M" "label_ok r"
  shows "validate (snapshot_of M r) = check_tiles (doc_columns (manager_doc M))"
proof -
  let ?cols = "snap_columns (LAYERS * TILES * TILE_BYTES) (cap_of M) (manager_rows M)"
  have read: "columns_read (snapshot_of M r) = ?cols"
    using snapshot_read [OF _ assms(3)] snap_cols_ok [OF rows_ok] by (simp add: arena_occupancy_def)
  note same = same_checks [of ?cols "doc_columns (manager_doc M)"]
  have raw: "\<forall>n \<in> set REQUIRED. columns_raw ?cols n = columns_raw (doc_columns (manager_doc M)) n"
    using snap_raw [OF rows_ok] by (simp add: manager_doc_def)
  show ?thesis
    unfolding validate_def read check_columns_def same(1) [OF raw] same(2) [OF raw] same(3) [OF raw] snap_aligned
    using doc_refs [OF manager_numbers [OF assms(1,2)]] manager_refs [OF assms(1,2)]
    by (simp add: snapshot_schema doc_present)
qed

text \<open>C30: The snapshot of a well-formed manager that knows every tile of the model, holds nothing but the model's
  objects and has leaked nothing is a document the validator accepts exactly when the free bytes of the arena are
  those from the used mark to its end: the regions of both spaces then tile them, every id is unique and
  every edge has its ends. With a hole below the mark (what an eviction leaves) the free region written at the
  mark lies over residents and the document is refused.\<close>

theorem snapshot_valid_iff:
  assumes "mgr_inv M" "no_leak M" "model_known M" "only_model M" "label_ok revision"
  shows "validate (snapshot_of M revision) = None \<longleftrightarrow>
    free_set (mg_arena M) = {ar_used (mg_arena M)..<length (ar_bytes (mg_arena M))}"
proof -
  have texts: "texts_ok (manager_doc M)" unfolding manager_doc_def by (rule rows_texts [OF rows_ok])
  show ?thesis
    unfolding snapshot_judged [OF assms(1,3,5)] doc_tiles [OF manager_numbers [OF assms(1,3)] texts]
    using disk_tiled [OF assms(1,3)] dram_tiled [OF assms(1,2,4)]
    by (simp add: tiles_ok_def manager_doc_def rows_doc_def del: space_key.simps)
qed

lemma first_snapshot:
  assumes "in_step 0 ru 0 M (resident_new (arena_new base' bytes')) outcome_default" "ru_model ru = decode_meta"
    and dom: "dom (table_map (mg_table M)) = fst ` set (model_entries b)" and len: "0 < length bytes'" "base' + length bytes' < 2 ^ 64"
  shows "mgr_inv M \<and> no_leak M \<and> model_known M \<and> only_model M \<and>
    free_set (mg_arena M) = {ar_used (mg_arena M)..<length (ar_bytes (mg_arena M))}"
proof -
  have inv: "mgr_inv M" and match: "matched M (resident_new (arena_new base' bytes'))" and pr: "priced ru M"
    using assms(1) by (simp_all add: in_step_def)
  have away: "m_resident_at m = 0" if "table_map (mg_table M) i = Some m" for i m
  proof -
    have "same_residents M (resident_new (arena_new base' bytes'))" using match by (simp add: matched_def)
    from same_residentsD(2) [OF this _ that] show ?thesis by (simp add: resident_new_def)
  qed
  have none: "blocks M i = None" for i using away by (cases "table_map (mg_table M) i") (simp_all add: blocks_def block_of_def)
  have al: "ar_free (mg_arena M) = ar_free (arena_new base' bytes')" "length (ar_bytes (mg_arena M)) = length bytes'"
    using match by (simp_all add: matched_def alike_def resident_new_def arena_new_def)
  have free: "free_set (mg_arena M) = {..<length bytes'}"
    using arena_new_facts(2) [OF len] by (simp add: free_set_def al(1))
  have "arena_inv (mg_arena M)" using mgr_invD(2) inv by (simp add: mgr_inv_def)
  then have "ar_used (mg_arena M) = 0" by (simp add: arena_inv_def al arena_new_def)
  moreover have "no_leak M" unfolding no_leak_def covers_def free al(2) using none by (auto simp: ran_def)
  moreover have "model_known M"
    unfolding model_known_def
  proof
    fix i assume i: "i \<in> set stored_ids"
    have "set placed_ids = fst ` set (model_entries b)"
      unfolding placed_ids_list model_ids [of b, symmetric] set_map ..
    then have "i \<in> dom (table_map (mg_table M))" using i stored_sub dom by blast
    then obtain m where m: "table_map (mg_table M) i = Some m" by blast
    then obtain d where "decode_meta i = Some d" "m_size m = m_size d" using pr assms(2) unfolding priced_def by fastforce
    moreover have "object_class_of i = Some WeightTile" using i by (auto simp: stored_ids_def tile_def)
    ultimately show "\<exists>m. table_map (mg_table M) i = Some m \<and> m_size m = TILE_BYTES"
      using m by (auto simp: decode_meta_def weights_def)
  qed
  ultimately show ?thesis using inv none by (simp add: only_model_def free al(2) atLeast0LessThan)
qed

lemma snapshot_valid_iff_witness:
  "\<exists>M rep. lab_register 4096 (replicate TILE_BYTES 0) None TILE_BYTES lab_start = (Inr rep, lab_start\<lparr>lab_manager := Some M\<rparr>) \<and>
     validate (snapshot_of M ''r1'') = None"
proof -
  let ?ru = "\<lparr>ru_model = decode_meta, ru_policy = Demand, ru_seen = []\<rparr>"
  have c: "card (fst ` set (model_entries (None \<noteq> (None :: device option))) \<union> {}) \<le> CAPACITY_LAB"
  proof -
    have "card (set (map fst (model_entries False))) \<le> LAYERS * (TILES + 1)"
      unfolding model_ids using card_length [of "map tile_at (List.product [0..<LAYERS] [0..<TILES + 1])"] by (simp add: length_product)
    then show ?thesis by (simp add: CAPACITY_LAB_def LAYERS_def TILES_def)
  qed
  have "\<exists>M rep. lab_register 4096 (replicate TILE_BYTES 0) None TILE_BYTES lab_start = (Inr rep, lab_start\<lparr>lab_manager := Some M\<rparr>) \<and>
    in_step 0 ?ru 0 M (resident_new (arena_new 4096 (replicate (clamp TILE_BYTES (length (replicate TILE_BYTES (0 :: u8))) TILE_BYTES) 0))) outcome_default \<and>
    roomy {} M \<and> mg_stream M = stream_empty \<and> mg_sessions M = sessions_empty MAX_SESSIONS \<and>
    dom (table_map (mg_table M)) = fst ` set (model_entries (None \<noteq> (None :: device option)))"
    by (rule lab_registered [OF _ _ _ _ _ _ _ _ c]) (simp_all add: TILE_BYTES_def)
  then obtain M rep where M: "lab_register 4096 (replicate TILE_BYTES 0) None TILE_BYTES lab_start = (Inr rep, lab_start\<lparr>lab_manager := Some M\<rparr>)"
    "in_step 0 ?ru 0 M (resident_new (arena_new 4096 (replicate (clamp TILE_BYTES (length (replicate TILE_BYTES (0 :: u8))) TILE_BYTES) 0))) outcome_default"
    "dom (table_map (mg_table M)) = fst ` set (model_entries (None \<noteq> (None :: device option)))" by blast
  have F: "mgr_inv M \<and> no_leak M \<and> model_known M \<and> only_model M \<and>
    free_set (mg_arena M) = {ar_used (mg_arena M)..<length (ar_bytes (mg_arena M))}"
    by (rule first_snapshot [OF M(2) _ M(3)]) (simp_all add: clamp_def TILE_BYTES_def del: replicate.simps)
  have "label_ok ''r1''" by (simp add: label_ok_def plain_text_def)
  then have "validate (snapshot_of M ''r1'') = None" using snapshot_valid_iff [of M "''r1''"] F by blast
  then show ?thesis using M(1) by blast
qed

end
