(* ===== verification/Virtio.thy ===== *)
theory Virtio
  imports Synth
begin

text \<open>
  crates/mlos-virtio: the registers of a virtio device, the handshake, and the split queue a driver
  submits one chain on and spins for. The device is an argument: what a register reads is
  a function of everything that happened on the bus so far, and so is what the device does to the
  memory it shares with the driver while the driver polls. Fences order the driver's own writes, which the
  model keeps in program order.
\<close>

unbundle bit_operations_syntax

section \<open>The bus\<close>

datatype bus_event = Rd nat u32 | Wr nat u32 | Poll

record 'm env =
  env_read :: "bus_event list \<Rightarrow> nat \<Rightarrow> u32"
  env_dma :: "bus_event list \<Rightarrow> 'm \<Rightarrow> 'm"

record 'm bus =
  bs_log :: "bus_event list"
  bs_mem :: 'm

section \<open>Registers (regs.rs)\<close>

definition VIRTIO_MAGIC :: u32 where "VIRTIO_MAGIC = 0x74726976"
definition VIRTIO_VERSION :: u32 where "VIRTIO_VERSION = 2"

definition REG_MAGIC :: nat where "REG_MAGIC = 0x000"
definition REG_VERSION :: nat where "REG_VERSION = 0x004"
definition REG_DEVICE_ID :: nat where "REG_DEVICE_ID = 0x008"
definition REG_DEVICE_FEATURES :: nat where "REG_DEVICE_FEATURES = 0x010"
definition REG_DEVICE_FEATURES_SEL :: nat where "REG_DEVICE_FEATURES_SEL = 0x014"
definition REG_DRIVER_FEATURES :: nat where "REG_DRIVER_FEATURES = 0x020"
definition REG_DRIVER_FEATURES_SEL :: nat where "REG_DRIVER_FEATURES_SEL = 0x024"
definition REG_QUEUE_SEL :: nat where "REG_QUEUE_SEL = 0x030"
definition REG_QUEUE_NUM_MAX :: nat where "REG_QUEUE_NUM_MAX = 0x034"
definition REG_QUEUE_NUM :: nat where "REG_QUEUE_NUM = 0x038"
definition REG_QUEUE_READY :: nat where "REG_QUEUE_READY = 0x044"
definition REG_QUEUE_NOTIFY :: nat where "REG_QUEUE_NOTIFY = 0x050"
definition REG_STATUS :: nat where "REG_STATUS = 0x070"
definition REG_QUEUE_DESC :: nat where "REG_QUEUE_DESC = 0x080"
definition REG_QUEUE_DRIVER :: nat where "REG_QUEUE_DRIVER = 0x090"
definition REG_QUEUE_DEVICE :: nat where "REG_QUEUE_DEVICE = 0x0a0"

lemmas reg_defs =
  REG_MAGIC_def REG_VERSION_def REG_DEVICE_ID_def REG_DEVICE_FEATURES_def REG_DEVICE_FEATURES_SEL_def
  REG_DRIVER_FEATURES_def REG_DRIVER_FEATURES_SEL_def REG_QUEUE_SEL_def REG_QUEUE_NUM_MAX_def REG_QUEUE_NUM_def
  REG_QUEUE_READY_def REG_QUEUE_NOTIFY_def REG_STATUS_def REG_QUEUE_DESC_def REG_QUEUE_DRIVER_def REG_QUEUE_DEVICE_def

definition ACKNOWLEDGE :: u32 where "ACKNOWLEDGE = 1"
definition DRIVER :: u32 where "DRIVER = 2"
definition DRIVER_OK :: u32 where "DRIVER_OK = 4"
definition FEATURES_OK :: u32 where "FEATURES_OK = 8"

lemmas status_defs = ACKNOWLEDGE_def DRIVER_def DRIVER_OK_def FEATURES_OK_def

definition reg_read :: "'m env \<Rightarrow> nat \<Rightarrow> nat \<Rightarrow> 'm bus \<Rightarrow> u32 \<times> 'm bus" where
  "reg_read env base off b =
     (let v = env_read env (bs_log b) (base + off) in (v, b\<lparr>bs_log := bs_log b @ [Rd (base + off) v]\<rparr>))"

definition reg_write :: "nat \<Rightarrow> nat \<Rightarrow> u32 \<Rightarrow> 'm bus \<Rightarrow> 'm bus" where
  "reg_write base off v b = b\<lparr>bs_log := bs_log b @ [Wr (base + off) v]\<rparr>"

definition write_addr :: "nat \<Rightarrow> nat \<Rightarrow> 64 word \<Rightarrow> 'm bus \<Rightarrow> 'm bus" where
  "write_addr base off address b =
     reg_write base (off + 4) (ucast (drop_bit 32 address)) (reg_write base off (ucast address) b)"

section \<open>The device (lib.rs)\<close>

definition CONSOLE_ID :: u32 where "CONSOLE_ID = 3"
definition BLOCK_ID :: u32 where "BLOCK_ID = 2"
definition VERSION_1 :: u32 where "VERSION_1 = push_bit 0 1"

text \<open>A device is its window's base. The second register is not read when the first does not match.\<close>

definition device_probe :: "'m env \<Rightarrow> nat \<Rightarrow> 'm bus \<Rightarrow> (nat \<times> u32) option \<times> 'm bus" where
  "device_probe env base b =
     (case reg_read env base REG_MAGIC b of (magic, b) \<Rightarrow>
       if magic \<noteq> VIRTIO_MAGIC then (None, b)
       else (case reg_read env base REG_VERSION b of (version, b) \<Rightarrow>
         if version \<noteq> VIRTIO_VERSION then (None, b)
         else (case reg_read env base REG_DEVICE_ID b of (i, b) \<Rightarrow>
           (if i = 0 then None else Some (base, i), b))))"

definition negotiate :: "'m env \<Rightarrow> nat \<Rightarrow> 'm bus \<Rightarrow> bool \<times> 'm bus" where
  "negotiate env base b =
     (let b = reg_write base REG_STATUS 0 b;
          b = reg_write base REG_STATUS ACKNOWLEDGE b;
          b = reg_write base REG_STATUS (ACKNOWLEDGE OR DRIVER) b;
          b = reg_write base REG_DEVICE_FEATURES_SEL 1 b;
          (offered, b) = reg_read env base REG_DEVICE_FEATURES b;
          b = reg_write base REG_DRIVER_FEATURES_SEL 1 b;
          b = reg_write base REG_DRIVER_FEATURES (offered AND VERSION_1) b;
          b = reg_write base REG_DRIVER_FEATURES_SEL 0 b;
          b = reg_write base REG_DRIVER_FEATURES 0 b;
          b = reg_write base REG_STATUS (ACKNOWLEDGE OR DRIVER OR FEATURES_OK) b;
          (settled, b) = reg_read env base REG_STATUS b
      in (settled AND FEATURES_OK \<noteq> 0, b))"

definition device_ready :: "nat \<Rightarrow> 'm bus \<Rightarrow> 'm bus" where
  "device_ready base b = reg_write base REG_STATUS (ACKNOWLEDGE OR DRIVER OR FEATURES_OK OR DRIVER_OK) b"

section \<open>The queue (queue.rs)\<close>

definition QSIZE :: nat where "QSIZE = 8"

record descriptor =
  de_address :: "64 word"
  de_length :: u32
  de_flags :: u16
  de_next :: u16

definition NEXT :: u16 where "NEXT = 1"
definition WRITE :: u16 where "WRITE = 2"

record available =
  av_flags :: u16
  av_index :: u16
  av_ring :: "u16 list"

record used_entry =
  ue_id :: u32
  ue_length :: u32

record used_ring =
  us_flags :: u16
  us_index :: u16
  us_ring :: "used_entry list"

text \<open>The memory a driver shares with its device begins with the three rings.\<close>

record rings =
  rg_descriptors :: "descriptor list"
  rg_available :: available
  rg_used :: used_ring

definition configure :: "'m env \<Rightarrow> nat \<Rightarrow> u32 \<Rightarrow> 64 word \<times> 64 word \<times> 64 word \<Rightarrow> 'm bus \<Rightarrow> bool \<times> 'm bus" where
  "configure env base queue rings b =
     (let b = reg_write base REG_QUEUE_SEL queue b;
          (most, b) = reg_read env base REG_QUEUE_NUM_MAX b
      in if most < of_nat QSIZE then (False, b)
         else
           (let b = reg_write base REG_QUEUE_NUM (of_nat QSIZE) b;
                b = write_addr base REG_QUEUE_DESC (fst rings) b;
                b = write_addr base REG_QUEUE_DRIVER (fst (snd rings)) b;
                b = write_addr base REG_QUEUE_DEVICE (snd (snd rings)) b;
                b = reg_write base REG_QUEUE_READY 1 b
            in (True, b)))"

text \<open>Publishing descriptor 0: the ring entry, then the index.\<close>

definition publish :: "available \<Rightarrow> available" where
  "publish a =
     (let slot = unat (av_index a) mod QSIZE; a = a\<lparr>av_ring := (av_ring a)[slot := 0]\<rparr>
      in a\<lparr>av_index := av_index a + 1\<rparr>)"

text \<open>The wait. A device that never answers keeps the driver spinning: no value.\<close>

partial_function (option) queue_wait :: "'r rings_scheme env \<Rightarrow> u16 \<Rightarrow> 'r rings_scheme bus \<Rightarrow> (u32 \<times> 'r rings_scheme bus) option" where
  "queue_wait env before b =
     (let b = b\<lparr>bs_mem := env_dma env (bs_log b) (bs_mem b), bs_log := bs_log b @ [Poll]\<rparr>; used = rg_used (bs_mem b) in
      if us_index used = before then queue_wait env before b
      else Some (ue_length (us_ring used ! (unat before mod QSIZE)), b))"

definition submit :: "'r rings_scheme env \<Rightarrow> nat \<Rightarrow> u32 \<Rightarrow> 'r rings_scheme bus \<Rightarrow> (u32 \<times> 'r rings_scheme bus) option" where
  "submit env base queue b =
     (let before = us_index (rg_used (bs_mem b));
          b = b\<lparr>bs_mem := (bs_mem b)\<lparr>rg_available := publish (rg_available (bs_mem b))\<rparr>\<rparr>;
          b = reg_write base REG_QUEUE_NOTIFY queue b
      in queue_wait env before b)"

definition rings_new :: rings where
  "rings_new =
     \<lparr>rg_descriptors = replicate QSIZE \<lparr>de_address = 0, de_length = 0, de_flags = 0, de_next = 0\<rparr>,
      rg_available = \<lparr>av_flags = 0, av_index = 0, av_ring = replicate QSIZE 0\<rparr>,
      rg_used = \<lparr>us_flags = 0, us_index = 0, us_ring = replicate QSIZE \<lparr>ue_id = 0, ue_length = 0\<rparr>\<rparr>\<rparr>"

end
