(* ===== verification/VirtioBlk.thy ===== *)
theory VirtioBlk
  imports Virtio
begin

text \<open>
  crates/mlos-virtio-blk over the bus: bringing a block device up, and reading a sector through the static
  rings. Synth has the same reads over a device given as a function; the properties here join the two.
\<close>

section \<open>The rings and buffers (lib.rs)\<close>

definition REQUESTS :: u32 where "REQUESTS = 0"
definition BLK_IN :: u32 where "BLK_IN = 0"
definition HEADER_BYTES :: nat where "HEADER_BYTES = 16"

record request_header =
  hd_kind :: u32
  hd_reserved :: u32
  hd_sector :: nat

record block_rings = rings +
  br_header :: request_header
  br_data :: "u8 list"
  br_status :: u8

text \<open>Where the linker put them.\<close>

record block_addresses =
  ba_descriptors :: "64 word"
  ba_available :: "64 word"
  ba_used :: "64 word"
  ba_header :: "64 word"
  ba_data :: "64 word"
  ba_status :: "64 word"

definition block_rings_new :: block_rings where
  "block_rings_new =
     rings.extend rings_new \<lparr>br_header = \<lparr>hd_kind = 0, hd_reserved = 0, hd_sector = 0\<rparr>, br_data = replicate SECTOR 0, br_status = 0\<rparr>"

definition block_new :: "block_rings env \<Rightarrow> block_addresses \<Rightarrow> nat \<Rightarrow> block_rings bus \<Rightarrow> nat option \<times> block_rings bus" where
  "block_new env ad base b =
     (case negotiate env base b of (agreed, b) \<Rightarrow>
       if \<not> agreed then (None, b)
       else (case configure env base REQUESTS (ba_descriptors ad, ba_available ad, ba_used ad) b of (configured, b) \<Rightarrow>
         if \<not> configured then (None, b) else (Some base, device_ready base b)))"

definition block_chain :: "block_addresses \<Rightarrow> block_rings \<Rightarrow> block_rings" where
  "block_chain ad m =
     m\<lparr>rg_descriptors :=
         (rg_descriptors m)
           [0 := \<lparr>de_address = ba_header ad, de_length = of_nat HEADER_BYTES, de_flags = NEXT, de_next = 1\<rparr>,
            1 := \<lparr>de_address = ba_data ad, de_length = of_nat SECTOR, de_flags = NEXT OR WRITE, de_next = 2\<rparr>,
            2 := \<lparr>de_address = ba_status ad, de_length = 1, de_flags = WRITE, de_next = 0\<rparr>]\<rparr>"

definition block_collect :: "block_rings \<Rightarrow> u8 list \<Rightarrow> unit res \<times> u8 list" where
  "block_collect m into =
     (case status_from_u8 (br_status m) of StatusOk \<Rightarrow> (Inr (), br_data m) | _ \<Rightarrow> (Inl NoProvider, into))"

definition block_request :: "block_addresses \<Rightarrow> nat \<Rightarrow> block_rings \<Rightarrow> block_rings" where
  "block_request ad sector m =
     block_chain ad (m\<lparr>br_header := \<lparr>hd_kind = BLK_IN, hd_reserved = 0, hd_sector = sector\<rparr>, br_status := 0xff\<rparr>)"

definition block_read_sector ::
  "block_rings env \<Rightarrow> block_addresses \<Rightarrow> nat \<Rightarrow> nat \<Rightarrow> u8 list \<Rightarrow> block_rings bus \<Rightarrow> ((unit res \<times> u8 list) \<times> block_rings bus) option" where
  "block_read_sector env ad base sector into b =
     (if length into \<noteq> SECTOR then Some ((Inl BadObject, into), b)
      else (case submit env base REQUESTS (b\<lparr>bs_mem := block_request ad sector (bs_mem b)\<rparr>) of
              None \<Rightarrow> None
            | Some (_, b) \<Rightarrow> Some (block_collect (bs_mem b) into, b)))"

section \<open>A range (range.rs)\<close>

function block_read_loop ::
  "block_rings env \<Rightarrow> block_addresses \<Rightarrow> nat \<Rightarrow> nat \<Rightarrow> nat \<Rightarrow> u8 list \<Rightarrow> u8 list \<Rightarrow> block_rings bus \<Rightarrow>
     ((nat res \<times> u8 list) \<times> block_rings bus) option" where
  "block_read_loop env ad base sector count scratch into b =
     (if count < length into then
        (case block_read_sector env ad base sector scratch b of
           None \<Rightarrow> None
         | Some ((Inl e, _), b) \<Rightarrow> Some ((Inl e, into), b)
         | Some ((Inr _, scratch'), b) \<Rightarrow>
             (let n = min (length into - count) SECTOR in
              block_read_loop env ad base (sector + 1) (count + n) scratch'
                (take count into @ take n scratch' @ drop (count + n) into) b))
      else Some ((Inr (wrap 32 count), into), b))"
  by pat_completeness auto
termination
  by (relation "measure (\<lambda>(_, _, _, _, count, _, into, _). length into - count)") (auto simp: SECTOR_def)

declare block_read_loop.simps [simp del]

definition block_read_at ::
  "block_rings env \<Rightarrow> block_addresses \<Rightarrow> nat \<Rightarrow> nat \<Rightarrow> u8 list \<Rightarrow> block_rings bus \<Rightarrow> ((nat res \<times> u8 list) \<times> block_rings bus) option" where
  "block_read_at env ad base offset into b =
     (if offset mod SECTOR \<noteq> 0 then Some ((Inl BadObject, into), b)
      else block_read_loop env ad base (offset div SECTOR) 0 (replicate SECTOR 0) into b)"

end
