(* ===== verification/VirtioProps.thy ===== *)
theory VirtioProps
  imports VirtioBlk
begin

text \<open>
  What the handshake puts on the bus, whatever the device answers, and what reads through the rings deliver
  when the device does what the specification asks of it.
\<close>

section \<open>Waiting\<close>

text \<open>\<open>answers\<close>: once \<open>e\<close> is on the bus of a device that is up, after some number of polls
  the device has turned the shared memory into \<open>f\<close> of it, and has touched nothing before.\<close>

definition answers :: "'m env \<Rightarrow> bus_event \<Rightarrow> (bus_event list \<Rightarrow> bool) \<Rightarrow> ('m \<Rightarrow> 'm) \<Rightarrow> bool" where
  "answers env e up f \<longleftrightarrow>
     (\<forall>log m. up log \<longrightarrow>
        (\<exists>k. (\<forall>j < k. env_dma env (log @ e # replicate j Poll) m = m) \<and> env_dma env (log @ e # replicate k Poll) m = f m))"

lemma wait_rounds:
  assumes "\<forall>i < k. env_dma env (log @ replicate i Poll) m = m" "env_dma env (log @ replicate k Poll) m = m'"
    and "us_index (rg_used m) = before" "us_index (rg_used m') \<noteq> before"
  shows "queue_wait env before \<lparr>bs_log = log, bs_mem = m\<rparr> =
    Some (ue_length (us_ring (rg_used m') ! (unat before mod QSIZE)), \<lparr>bs_log = log @ replicate (Suc k) Poll, bs_mem = m'\<rparr>)"
  using assms(1,2)
proof (induction k arbitrary: log)
  case 0
  then show ?case using assms(4) by (subst queue_wait.simps) (simp add: Let_def)
next
  case (Suc k)
  have "env_dma env log m = m" using Suc.prems(1) by (metis append_Nil2 replicate_empty zero_less_Suc)
  moreover have "queue_wait env before \<lparr>bs_log = log @ [Poll], bs_mem = m\<rparr> =
    Some (ue_length (us_ring (rg_used m') ! (unat before mod QSIZE)), \<lparr>bs_log = (log @ [Poll]) @ replicate (Suc k) Poll, bs_mem = m'\<rparr>)"
  proof (rule Suc.IH)
    show "\<forall>i < k. env_dma env ((log @ [Poll]) @ replicate i Poll) m = m"
    proof (intro allI impI)
      fix i assume "i < k"
      then have "env_dma env (log @ replicate (Suc i) Poll) m = m" using Suc.prems(1) by blast
      then show "env_dma env ((log @ [Poll]) @ replicate i Poll) m = m" by simp
    qed
    show "env_dma env ((log @ [Poll]) @ replicate k Poll) m = m'" using Suc.prems(2) by simp
  qed
  ultimately show ?case using assms(3) by (subst queue_wait.simps) (simp add: Let_def)
qed

lemma submit_served:
  assumes ans: "answers env (Wr (base + REG_QUEUE_NOTIFY) queue) up f" and up: "up (bs_log b)"
    and m: "m = (bs_mem b)\<lparr>rg_available := publish (rg_available (bs_mem b))\<rparr>"
    and moved: "us_index (rg_used (f m)) \<noteq> us_index (rg_used (bs_mem b))"
  shows "\<exists>len k. submit env base queue b =
    Some (len, \<lparr>bs_log = bs_log b @ Wr (base + REG_QUEUE_NOTIFY) queue # replicate k Poll, bs_mem = f m\<rparr>)"
proof -
  let ?e = "Wr (base + REG_QUEUE_NOTIFY) queue"
  obtain k where "\<forall>j < k. env_dma env (bs_log b @ ?e # replicate j Poll) m = m"
    "env_dma env (bs_log b @ ?e # replicate k Poll) m = f m"
    using ans up unfolding answers_def by blast
  then have k: "\<forall>j < k. env_dma env ((bs_log b @ [?e]) @ replicate j Poll) m = m"
    "env_dma env ((bs_log b @ [?e]) @ replicate k Poll) m = f m" by simp_all
  have "us_index (rg_used m) = us_index (rg_used (bs_mem b))" by (simp add: m)
  from wait_rounds [OF k this] moved
  have "queue_wait env (us_index (rg_used (bs_mem b))) \<lparr>bs_log = bs_log b @ [?e], bs_mem = m\<rparr> =
    Some (ue_length (us_ring (rg_used (f m)) ! (unat (us_index (rg_used (bs_mem b))) mod QSIZE)),
      \<lparr>bs_log = (bs_log b @ [?e]) @ replicate (Suc k) Poll, bs_mem = f m\<rparr>)" by simp
  moreover have "reg_write base REG_QUEUE_NOTIFY queue (b\<lparr>bs_mem := m\<rparr>) = \<lparr>bs_log = bs_log b @ [?e], bs_mem = m\<rparr>"
    by (cases b) (simp add: reg_write_def)
  ultimately show ?thesis unfolding submit_def Let_def m [symmetric] by (auto intro: exI [of _ "Suc k"])
qed

section \<open>A block device\<close>

text \<open>What the specification asks of a block device that is notified: follow the chain at descriptor 0; if it is a
  read request (a header it may not write, a buffer and a status byte it may), fill the buffer
  and the status byte from the disk and return the chain in the used ring.\<close>

definition chain_ok :: "block_addresses \<Rightarrow> block_rings \<Rightarrow> bool" where
  "chain_ok ad m \<longleftrightarrow>
     (let d0 = rg_descriptors m ! 0; d1 = rg_descriptors m ! unat (de_next d0); d2 = rg_descriptors m ! unat (de_next d1) in
      av_ring (rg_available m) ! (unat (us_index (rg_used m)) mod QSIZE) = 0 \<and> av_index (rg_available m) = us_index (rg_used m) + 1 \<and>
      de_address d0 = ba_header ad \<and> de_length d0 = 16 \<and> de_flags d0 = NEXT \<and>
      de_address d1 = ba_data ad \<and> de_length d1 = 512 \<and> de_flags d1 = NEXT OR WRITE \<and>
      de_address d2 = ba_status ad \<and> de_length d2 = 1 \<and> de_flags d2 = WRITE \<and>
      hd_kind (br_header m) = 0 \<and> hd_reserved (br_header m) = 0)"

definition serve_block :: "block_addresses \<Rightarrow> device \<Rightarrow> block_rings \<Rightarrow> block_rings" where
  "serve_block ad dev m =
     (if chain_ok ad m then
        (let us = rg_used m; sector = hd_sector (br_header m) in
         m\<lparr>br_data := map (snd (dev sector)) [0..<SECTOR], br_status := fst (dev sector),
           rg_used := us\<lparr>us_index := us_index us + 1,
             us_ring := (us_ring us)[unat (us_index us) mod QSIZE := \<lparr>ue_id = 0, ue_length = 513\<rparr>]\<rparr>\<rparr>)
      else m)"

text \<open>A device is up once it was told so, with its queue ready at the addresses of the rings.\<close>

definition addr_events :: "nat \<Rightarrow> nat \<Rightarrow> 64 word \<Rightarrow> bus_event list" where
  "addr_events base off a = [Wr (base + off) (ucast a), Wr (base + off + 4) (ucast (drop_bit 32 a))]"

definition queue_events :: "nat \<Rightarrow> u32 \<Rightarrow> 64 word \<times> 64 word \<times> 64 word \<Rightarrow> bus_event list" where
  "queue_events base queue rings =
     Wr (base + REG_QUEUE_SEL) queue # Wr (base + REG_QUEUE_NUM) 8 #
     addr_events base REG_QUEUE_DESC (fst rings) @ addr_events base REG_QUEUE_DRIVER (fst (snd rings)) @
     addr_events base REG_QUEUE_DEVICE (snd (snd rings)) @ [Wr (base + REG_QUEUE_READY) 1, Wr (base + REG_STATUS) 15]"

definition told_up :: "nat \<Rightarrow> u32 \<Rightarrow> 64 word \<times> 64 word \<times> 64 word \<Rightarrow> bus_event list \<Rightarrow> bool" where
  "told_up base queue rings log \<longleftrightarrow> set (queue_events base queue rings) \<subseteq> set log"

definition serves_block :: "block_rings env \<Rightarrow> block_addresses \<Rightarrow> nat \<Rightarrow> device \<Rightarrow> bool" where
  "serves_block env ad base dev \<longleftrightarrow>
     answers env (Wr (base + REG_QUEUE_NOTIFY) REQUESTS) (told_up base REQUESTS (ba_descriptors ad, ba_available ad, ba_used ad))
       (serve_block ad dev)"

text \<open>Between requests: every request the driver published came back.\<close>

definition idle :: "block_rings \<Rightarrow> bool" where
  "idle m \<longleftrightarrow> length (rg_descriptors m) = QSIZE \<and> length (av_ring (rg_available m)) = QSIZE \<and>
     us_index (rg_used m) = av_index (rg_available m)"

lemma idle_new: "idle block_rings_new"
  by (simp add: idle_def block_rings_new_def rings_new_def rings.defs)

lemma request_idle:
  "idle m \<Longrightarrow> length (rg_descriptors (block_request ad s m)) = QSIZE \<and> rg_available (block_request ad s m) = rg_available m \<and>
     rg_used (block_request ad s m) = rg_used m \<and> hd_sector (br_header (block_request ad s m)) = s"
  by (simp add: idle_def block_request_def block_chain_def)

lemma request_chain:
  assumes "idle m" and m'_def: "m' = (block_request ad s m)\<lparr>rg_available := publish (rg_available (block_request ad s m))\<rparr>"
  shows "chain_ok ad m'" "idle (serve_block ad dev m')" "us_index (rg_used (serve_block ad dev m')) \<noteq> us_index (rg_used m)"
    "br_data (serve_block ad dev m') = map (snd (dev s)) [0..<SECTOR]" "br_status (serve_block ad dev m') = fst (dev s)"
proof -
  have len: "length (rg_descriptors m) = 8" "length (av_ring (rg_available m)) = 8" and eq: "us_index (rg_used m) = av_index (rg_available m)"
    using assms(1) by (simp_all add: idle_def QSIZE_def)
  have slot: "unat (av_index (rg_available m)) mod 8 < 8" by simp
  show c: "chain_ok ad m'"
    using len eq slot
    by (simp add: m'_def chain_ok_def block_request_def block_chain_def publish_def Let_def QSIZE_def HEADER_BYTES_def SECTOR_def BLK_IN_def)
  have "rg_used m' = rg_used m" "av_index (rg_available m') = av_index (rg_available m) + 1" "length (av_ring (rg_available m')) = 8"
    "length (rg_descriptors m') = 8" "hd_sector (br_header m') = s"
    using len by (simp_all add: m'_def publish_def block_request_def block_chain_def Let_def)
  then show "idle (serve_block ad dev m')" "us_index (rg_used (serve_block ad dev m')) \<noteq> us_index (rg_used m)"
    "br_data (serve_block ad dev m') = map (snd (dev s)) [0..<SECTOR]" "br_status (serve_block ad dev m') = fst (dev s)"
    using c eq by (simp_all add: serve_block_def idle_def Let_def QSIZE_def)
qed

lemma told_up_mono: "told_up base q rings log \<Longrightarrow> told_up base q rings (log @ log2)"
  by (auto simp: told_up_def)

abbreviation block_up :: "block_addresses \<Rightarrow> nat \<Rightarrow> block_rings bus \<Rightarrow> bool" where
  "block_up ad base b \<equiv> told_up base REQUESTS (ba_descriptors ad, ba_available ad, ba_used ad) (bs_log b) \<and> idle (bs_mem b)"

lemma sector_read:
  assumes dev: "serves_block env ad base dev" and up: "block_up ad base b"
  shows "\<exists>b'. block_read_sector env ad base s into b = Some (read_sector dev s into, b') \<and> block_up ad base b'"
proof (cases "length into = SECTOR")
  case True
  let ?b = "b\<lparr>bs_mem := block_request ad s (bs_mem b)\<rparr>"
  let ?m = "(block_request ad s (bs_mem b))\<lparr>rg_available := publish (rg_available (block_request ad s (bs_mem b)))\<rparr>"
  note C = request_chain [OF conjunct2 [OF up] refl]
  have "\<exists>len k. submit env base REQUESTS ?b =
    Some (len, \<lparr>bs_log = bs_log ?b @ Wr (base + REG_QUEUE_NOTIFY) REQUESTS # replicate k Poll, bs_mem = serve_block ad dev ?m\<rparr>)"
    by (rule submit_served [OF dev [unfolded serves_block_def]]) (use up C(3) in \<open>simp_all add: block_request_def block_chain_def\<close>)
  then obtain len k where S: "submit env base REQUESTS ?b =
    Some (len, \<lparr>bs_log = bs_log b @ Wr (base + REG_QUEUE_NOTIFY) REQUESTS # replicate k Poll, bs_mem = serve_block ad dev ?m\<rparr>)" by auto
  have "block_collect (serve_block ad dev ?m) into = read_sector dev s into"
    using True by (simp add: block_collect_def read_sector_def C(4,5) split: status.split)
  moreover have "block_up ad base \<lparr>bs_log = bs_log b @ Wr (base + REG_QUEUE_NOTIFY) REQUESTS # replicate k Poll, bs_mem = serve_block ad dev ?m\<rparr>"
    using told_up_mono conjunct1 [OF up] C(2) by simp
  ultimately show ?thesis using True S by (auto simp: block_read_sector_def)
next
  case False
  then show ?thesis using up by (simp add: block_read_sector_def read_sector_def)
qed

lemma loop_read:
  "serves_block env ad base dev \<Longrightarrow> block_up ad base b \<Longrightarrow>
    \<exists>b'. block_read_loop env ad base s n scratch into b = Some (read_loop dev s n scratch into, b') \<and> block_up ad base b'"
proof (induction dev s n scratch into arbitrary: b rule: read_loop.induct)
  case (1 dev s n scratch into)
  show ?case
  proof (cases "n < length into")
    case True
    obtain b' where R: "block_read_sector env ad base s scratch b = Some (read_sector dev s scratch, b')" "block_up ad base b'"
      using sector_read [OF 1(2,3)] by blast
    obtain r scratch' where rs: "read_sector dev s scratch = (r, scratch')" by fastforce
    show ?thesis
    proof (cases r)
      case (Inl e)
      then show ?thesis using True R rs by (simp add: block_read_loop.simps [of env ad base s n scratch into b] read_loop.simps [of dev s n scratch into])
    next
      case (Inr u)
      have "read_sector dev s scratch = (Inr u, scratch')" using rs Inr by simp
      note IH = 1(1) [OF True this [symmetric] refl refl 1(2) R(2)]
      show ?thesis using IH True R rs Inr by (simp add: block_read_loop.simps [of env ad base s n scratch into b] read_loop.simps [of dev s n scratch into] Let_def)
    qed
  next
    case False
    then show ?thesis using 1(3) by (simp add: block_read_loop.simps [of env ad base s n scratch into b] read_loop.simps [of dev s n scratch into])
  qed
qed

lemma at_read:
  "serves_block env ad base dev \<Longrightarrow> block_up ad base b \<Longrightarrow>
    \<exists>b'. block_read_at env ad base offset into b = Some (read_at dev offset into, b') \<and> block_up ad base b'"
  using loop_read by (simp add: block_read_at_def read_at_def)

section \<open>The handshake\<close>

lemma negotiate_log:
  "negotiate env base b = (ok, b') \<Longrightarrow>
    \<exists>offered settled. bs_log b' = bs_log b @
      [Wr (base + REG_STATUS) 0, Wr (base + REG_STATUS) 1, Wr (base + REG_STATUS) 3, Wr (base + REG_DEVICE_FEATURES_SEL) 1,
       Rd (base + REG_DEVICE_FEATURES) offered, Wr (base + REG_DRIVER_FEATURES_SEL) 1,
       Wr (base + REG_DRIVER_FEATURES) (offered AND 1), Wr (base + REG_DRIVER_FEATURES_SEL) 0,
       Wr (base + REG_DRIVER_FEATURES) 0, Wr (base + REG_STATUS) 11, Rd (base + REG_STATUS) settled] \<and>
      bs_mem b' = bs_mem b \<and> ok = (settled AND 8 \<noteq> 0)"
  by (auto simp: negotiate_def Let_def reg_write_def reg_read_def status_defs VERSION_1_def)

lemma configure_log:
  "configure env base q rings b = (ok, b') \<Longrightarrow>
    \<exists>most. bs_log b' = bs_log b @ Wr (base + REG_QUEUE_SEL) q # Rd (base + REG_QUEUE_NUM_MAX) most #
      (if ok then Wr (base + REG_QUEUE_NUM) 8 # addr_events base REG_QUEUE_DESC (fst rings) @
         addr_events base REG_QUEUE_DRIVER (fst (snd rings)) @ addr_events base REG_QUEUE_DEVICE (snd (snd rings)) @
         [Wr (base + REG_QUEUE_READY) 1] else []) \<and>
      bs_mem b' = bs_mem b \<and> ok = (8 \<le> most)"
  by (auto simp: configure_def Let_def reg_write_def reg_read_def write_addr_def addr_events_def QSIZE_def not_less add.assoc split: if_splits)

text \<open>What the driver wrote to a register, in order.\<close>

definition writes_to :: "nat \<Rightarrow> bus_event list \<Rightarrow> u32 list" where
  "writes_to a log = List.map_filter (\<lambda>e. case e of Wr a' v \<Rightarrow> if a' = a then Some v else None | _ \<Rightarrow> None) log"

lemma writes_to_simps [simp]:
  "writes_to a [] = []" "writes_to a (Rd a' v # l) = writes_to a l" "writes_to a (Poll # l) = writes_to a l"
  "writes_to a (Wr a' v # l) = (if a' = a then v # writes_to a l else writes_to a l)"
  by (simp_all add: writes_to_def map_filter_simps)

lemma writes_to_append [simp]: "writes_to a (l @ m) = writes_to a l @ writes_to a m"
  by (simp add: writes_to_def List.map_filter_def)

text \<open>Both drivers come up by the same steps; a driver is up when it was given its queue and told the device so.\<close>

definition handshake :: "nat \<Rightarrow> u32 \<Rightarrow> 64 word \<times> 64 word \<times> 64 word \<Rightarrow> bool \<Rightarrow> bus_event list \<Rightarrow> bool" where
  "handshake base q rings up ev \<longleftrightarrow>
     (\<exists>offered.
        Rd (base + REG_DEVICE_FEATURES) offered \<in> set ev \<and> writes_to (base + REG_DRIVER_FEATURES) ev = [offered AND 1, 0]) \<and>
     writes_to (base + REG_STATUS) ev = [0, 1, 3, 11] @ (if up then [15] else []) \<and>
     (if up then
        last ev = Wr (base + REG_STATUS) 15 \<and> set (queue_events base q rings) \<subseteq> set ev \<and>
        (\<exists>settled. Rd (base + REG_STATUS) settled \<in> set ev \<and> settled AND 8 \<noteq> 0) \<and>
        (\<exists>most. Rd (base + REG_QUEUE_NUM_MAX) most \<in> set ev \<and> 8 \<le> most)
      else writes_to (base + REG_QUEUE_READY) ev = [] \<and>
        (\<exists>v. Rd (base + REG_STATUS) v \<in> set ev \<and> v AND 8 = 0 \<or> Rd (base + REG_QUEUE_NUM_MAX) v \<in> set ev \<and> v < 8))"

lemma bring_up:
  assumes n: "negotiate env base b = (agreed, b1)"
    and c: "agreed \<Longrightarrow> configure env base q rings b1 = (configured, b2)"
    and r: "(up, b') = (if \<not> agreed then (False, b1) else if \<not> configured then (False, b2) else (True, device_ready base b2))"
  shows "\<exists>ev. bs_log b' = bs_log b @ ev \<and> bs_mem b' = bs_mem b \<and> handshake base q rings up ev"
proof -
  let ?shake = "\<lambda>offered settled. [Wr (base + REG_STATUS) 0, Wr (base + REG_STATUS) 1, Wr (base + REG_STATUS) 3, Wr (base + REG_DEVICE_FEATURES_SEL) 1,
       Rd (base + REG_DEVICE_FEATURES) offered, Wr (base + REG_DRIVER_FEATURES_SEL) 1,
       Wr (base + REG_DRIVER_FEATURES) (offered AND 1), Wr (base + REG_DRIVER_FEATURES_SEL) 0,
       Wr (base + REG_DRIVER_FEATURES) 0, Wr (base + REG_STATUS) 11, Rd (base + REG_STATUS) settled]"
  obtain offered settled where 1: "bs_log b1 = bs_log b @ ?shake offered settled" "bs_mem b1 = bs_mem b" "agreed = (settled AND 8 \<noteq> 0)"
    using negotiate_log [OF n] by blast
  show ?thesis
  proof (cases agreed)
    case False
    then show ?thesis using 1 r by (intro exI [of _ "?shake offered settled"]) (auto simp: handshake_def reg_defs)
  next
    case True
    obtain most where 2: "bs_log b2 = bs_log b1 @ Wr (base + REG_QUEUE_SEL) q # Rd (base + REG_QUEUE_NUM_MAX) most #
        (if configured then Wr (base + REG_QUEUE_NUM) 8 # addr_events base REG_QUEUE_DESC (fst rings) @
           addr_events base REG_QUEUE_DRIVER (fst (snd rings)) @ addr_events base REG_QUEUE_DEVICE (snd (snd rings)) @
           [Wr (base + REG_QUEUE_READY) 1] else [])" "bs_mem b2 = bs_mem b1" "configured = (8 \<le> most)"
      using configure_log [OF c [OF True]] by blast
    let ?tail = "Wr (base + REG_QUEUE_SEL) q # Rd (base + REG_QUEUE_NUM_MAX) most #
        (if configured then Wr (base + REG_QUEUE_NUM) 8 # addr_events base REG_QUEUE_DESC (fst rings) @
           addr_events base REG_QUEUE_DRIVER (fst (snd rings)) @ addr_events base REG_QUEUE_DEVICE (snd (snd rings)) @
           [Wr (base + REG_QUEUE_READY) 1, Wr (base + REG_STATUS) 15] else [])"
    have up: "up = configured" using r True by (simp split: if_splits)
    have "bs_log b' = bs_log b @ ?shake offered settled @ ?tail" "bs_mem b' = bs_mem b"
      using r True 1 2 by (auto simp: device_ready_def reg_write_def status_defs split: if_splits)
    moreover have "handshake base q rings up (?shake offered settled @ ?tail)"
      using True 1(3) 2(3) unfolding up
      by (cases configured) (auto simp: handshake_def reg_defs queue_events_def addr_events_def not_le)
    ultimately show ?thesis by blast
  qed
qed

lemma block_up_log:
  assumes "block_new env ad base b = (r, b')"
  shows "\<exists>ev. bs_log b' = bs_log b @ ev \<and> bs_mem b' = bs_mem b \<and> (r = None \<or> r = Some base) \<and>
    handshake base REQUESTS (ba_descriptors ad, ba_available ad, ba_used ad) (r \<noteq> None) ev"
proof -
  obtain agreed b1 where n: "negotiate env base b = (agreed, b1)" by fastforce
  obtain configured b2 where c: "configure env base REQUESTS (ba_descriptors ad, ba_available ad, ba_used ad) b1 = (configured, b2)" by fastforce
  have "(r \<noteq> None, b') = (if \<not> agreed then (False, b1) else if \<not> configured then (False, b2) else (True, device_ready base b2))"
    "r = None \<or> r = Some base"
    using assms n c by (auto simp: block_new_def split: if_splits)
  then show ?thesis using bring_up [OF n c] by blast
qed

section \<open>Properties\<close>

text \<open>C19: Whatever a device answers, bringing it up accepts no feature but the one the transport needs, and that only when the
  device offers it; writes the status register through reset, acknowledge, driver and features-ok in this order;
  and declares the driver ready last, exactly when the device kept features-ok and has a queue of eight, which by
  then is enabled at the addresses of the rings. It touches no memory.\<close>

theorem handshake_safe:
  assumes "block_new env ad base b = (r, b')"
  shows "\<exists>ev. bs_log b' = bs_log b @ ev \<and> bs_mem b' = bs_mem b \<and>
    handshake base REQUESTS (ba_descriptors ad, ba_available ad, ba_used ad) (r \<noteq> None) ev"
  using block_up_log [OF assms] by blast

text \<open>A device that agrees to everything and serves a request at once.\<close>

definition prompt_env :: "bus_event \<Rightarrow> ('m \<Rightarrow> 'm) \<Rightarrow> 'm env" where
  "prompt_env e f =
     \<lparr>env_read = (\<lambda>log a. if a = REG_DEVICE_FEATURES then 1 else if a = REG_STATUS then 11 else if a = REG_QUEUE_NUM_MAX then 8 else 0),
      env_dma = (\<lambda>log m. if log \<noteq> [] \<and> last log = e then f m else m)\<rparr>"

lemma prompt_answers: "answers (prompt_env e f) e up f"
  unfolding answers_def by (intro allI impI exI [of _ 0]) (simp add: prompt_env_def)

definition sample_addresses :: block_addresses where
  "sample_addresses = \<lparr>ba_descriptors = 4096, ba_available = 8192, ba_used = 12288, ba_header = 16384, ba_data = 20480, ba_status = 24576\<rparr>"

definition sample_bus :: "block_rings bus" where
  "sample_bus = \<lparr>bs_log = [], bs_mem = block_rings_new\<rparr>"

definition sample_disk :: device where
  "sample_disk s = (if s < 2 then 0 else 1, \<lambda>k. of_nat (s + k))"

definition sample_env :: "block_rings env" where
  "sample_env = prompt_env (Wr (0 + REG_QUEUE_NOTIFY) REQUESTS) (serve_block sample_addresses sample_disk)"

lemma sample_comes_up: "fst (block_new sample_env sample_addresses 0 sample_bus) = Some 0"
  by (simp add: block_new_def negotiate_def configure_def reg_read_def reg_write_def write_addr_def prompt_env_def sample_env_def Let_def
      REG_STATUS_def REG_DEVICE_FEATURES_def REG_QUEUE_NUM_MAX_def QSIZE_def FEATURES_OK_def)

lemma handshake_safe_witness:
  "writes_to REG_STATUS (bs_log (snd (block_new sample_env sample_addresses 0 sample_bus))) = [0, 1, 3, 11, 15]"
proof -
  obtain b' where b: "block_new sample_env sample_addresses 0 sample_bus = (Some 0, b')"
    using sample_comes_up by (metis prod.collapse)
  obtain ev where "bs_log b' = bs_log sample_bus @ ev" "writes_to (0 + REG_STATUS) ev = [0, 1, 3, 11] @ [15]"
    using handshake_safe [OF b] by (auto simp: handshake_def)
  then show ?thesis unfolding b by (simp add: sample_bus_def)
qed

text \<open>The reads of a client, one after the other.\<close>

fun block_reads ::
  "block_rings env \<Rightarrow> block_addresses \<Rightarrow> nat \<Rightarrow> (nat \<times> u8 list) list \<Rightarrow> block_rings bus \<Rightarrow> ((nat res \<times> u8 list) list \<times> block_rings bus) option" where
  "block_reads env ad base [] b = Some ([], b)"
| "block_reads env ad base ((offset, into) # rs) b =
     (case block_read_at env ad base offset into b of
        None \<Rightarrow> None
      | Some (r, b) \<Rightarrow> map_option (\<lambda>(out, b). (r # out, b)) (block_reads env ad base rs b))"

lemma reads_served:
  "serves_block env ad base dev \<Longrightarrow> block_up ad base b \<Longrightarrow>
     \<exists>b'. block_reads env ad base rs b = Some (map (\<lambda>(offset, into). read_at dev offset into) rs, b') \<and> block_up ad base b'"
proof (induction env ad base rs b rule: block_reads.induct)
  case (2 env ad base offset into rs b)
  have "\<exists>b1. block_read_at env ad base offset into b = Some (read_at dev offset into, b1) \<and> block_up ad base b1"
    by (rule at_read [OF 2(2,3)])
  then obtain b1 where b1: "block_read_at env ad base offset into b = Some (read_at dev offset into, b1)" "block_up ad base b1" by blast
  from 2(1) [OF b1(1) refl 2(2) b1(2)] b1(1) show ?case by auto
qed simp

text \<open>C8: Reading through the rings refines reading the device: once a block device came up, any sequence of reads of any ranges
  returns, and each result is the one the range read gives on the device as a function from sectors to bytes,
  refusals and failed sectors included, provided the device answers each notification in finite time by
  serving the chain it is shown.\<close>

theorem rings_refine_disk:
  assumes "serves_block env ad base dev" "idle (bs_mem b)" "block_new env ad base b = (Some d, b1)"
  shows "\<exists>b2. block_reads env ad d rs b1 = Some (map (\<lambda>(offset, into). read_at dev offset into) rs, b2)"
proof -
  have "d = base" "block_up ad base b1"
    using block_up_log [OF assms(3)] assms(2) by (auto simp: handshake_def told_up_def)
  then show ?thesis using reads_served [OF assms(1)] by blast
qed

lemma rings_refine_disk_witness:
  "map_option fst (block_reads sample_env sample_addresses 0 [(512, replicate 2 0), (1, [])] (snd (block_new sample_env sample_addresses 0 sample_bus))) =
     Some [(Inr 2, [1, 2]), (Inl BadObject, [])]"
proof -
  let ?e = "Wr (0 + REG_QUEUE_NOTIFY) REQUESTS"
  obtain b' where b: "block_new sample_env sample_addresses 0 sample_bus = (Some 0, b')"
    using sample_comes_up by (metis prod.collapse)
  have "serves_block sample_env sample_addresses 0 sample_disk"
    unfolding serves_block_def sample_env_def by (rule prompt_answers)
  moreover have "idle (bs_mem sample_bus)" by (simp add: sample_bus_def idle_new)
  ultimately obtain b2 where "block_reads sample_env sample_addresses 0 [(512, replicate 2 0), (1, [])] b' =
    Some (map (\<lambda>(offset, into). read_at sample_disk offset into) [(512, replicate 2 0), (1, [])], b2)"
    using rings_refine_disk [OF _ _ b] by blast
  moreover have "read_at sample_disk 512 (replicate 2 0) = (Inr 2, [1, 2])"
  proof -
    have s: "read_sector sample_disk (Suc 0) (replicate SECTOR 0) = (Inr (), map (\<lambda>k. of_nat (1 + k)) [0..<SECTOR])"
      by (simp add: read_sector_def sample_disk_def status_from_u8_def)
    have t: "take 2 (map (\<lambda>k. of_nat (1 + k) :: u8) [0..<SECTOR]) = [1, 2]"
    proof -
      have "take 2 [0..<SECTOR] = [0, 1]" by (subst take_upt) (simp_all add: SECTOR_def numeral_2_eq_2)
      then show ?thesis by (simp add: take_map)
    qed
    have d: "512 div SECTOR = Suc 0" "512 mod SECTOR = 0" "min 2 SECTOR = 2" by (simp_all add: SECTOR_def)
    have "read_loop sample_disk (Suc 0) 0 (replicate SECTOR 0) (replicate 2 0) =
      read_loop sample_disk (Suc 0 + 1) 2 (map (\<lambda>k. of_nat (1 + k)) [0..<SECTOR]) [1, 2]"
      by (subst read_loop.simps) (simp only: s length_replicate prod.case sum.case Let_def d t take_0 append_Nil if_True zero_less_numeral diff_zero add_0
          drop_replicate diff_self_eq_0 replicate_0 append_Nil2)
    also have "\<dots> = (Inr 2, [1, 2])" by (subst read_loop.simps) (simp add: wrap_def)
    finally show ?thesis by (simp add: read_at_def d)
  qed
  moreover have "read_at sample_disk 1 [] = (Inl BadObject, [])" by (simp add: read_at_def SECTOR_def)
  ultimately show ?thesis unfolding b snd_conv by (simp del: block_reads.simps)
qed

section \<open>Types\<close>

text \<open>A device may write anything but what the driver owns: the descriptors, the available ring and the header.\<close>

definition minds_its_own :: "block_rings env \<Rightarrow> bool" where
  "minds_its_own env \<longleftrightarrow>
     (\<forall>log m. rg_descriptors (env_dma env log m) = rg_descriptors m \<and> rg_available (env_dma env log m) = rg_available m \<and>
        br_header (env_dma env log m) = br_header m)"

definition descriptor_typed :: "block_addresses \<Rightarrow> descriptor \<Rightarrow> bool" where
  "descriptor_typed ad d \<longleftrightarrow>
     de_flags d \<in> {0, NEXT, WRITE, NEXT OR WRITE} \<and> unat (de_next d) < QSIZE \<and>
     (de_flags d AND WRITE \<noteq> 0 \<longrightarrow> de_address d \<noteq> ba_header ad)"

definition rings_typed :: "block_addresses \<Rightarrow> block_rings \<Rightarrow> bool" where
  "rings_typed ad m \<longleftrightarrow>
     length (rg_descriptors m) = QSIZE \<and> length (av_ring (rg_available m)) = QSIZE \<and>
     (\<forall>d \<in> set (rg_descriptors m). descriptor_typed ad d) \<and>
     (\<forall>x \<in> set (av_ring (rg_available m)). unat x < QSIZE) \<and> hd_kind (br_header m) = BLK_IN \<and> hd_reserved (br_header m) = 0"

lemma dma_typed: "minds_its_own env \<Longrightarrow> rings_typed ad (env_dma env log m) = rings_typed ad m"
  by (simp add: minds_its_own_def rings_typed_def)

lemma wait_typed:
  assumes "queue_wait env before b = Some y"
  shows "minds_its_own env \<longrightarrow> rings_typed ad (bs_mem (snd y)) = rings_typed ad (bs_mem b)"
proof (rule queue_wait.raw_induct [of "\<lambda>env before b y. minds_its_own env \<longrightarrow> rings_typed ad (bs_mem (snd y)) = rings_typed ad (bs_mem b)", OF _ assms], intro impI)
  fix w :: "block_rings env \<Rightarrow> u16 \<Rightarrow> block_rings bus \<Rightarrow> (u32 \<times> block_rings bus) option" and env before b y
  assume IH: "\<And>env before b y. w env before b = Some y \<Longrightarrow> minds_its_own env \<longrightarrow> rings_typed ad (bs_mem (snd y)) = rings_typed ad (bs_mem b)"
    and run: "(let b = b\<lparr>bs_mem := env_dma env (bs_log b) (bs_mem b), bs_log := bs_log b @ [Poll]\<rparr>; used = rg_used (bs_mem b) in
      if us_index used = before then w env before b
      else Some (ue_length (us_ring used ! (unat before mod QSIZE)), b)) = Some y"
    and own: "minds_its_own env"
  let ?b = "b\<lparr>bs_mem := env_dma env (bs_log b) (bs_mem b), bs_log := bs_log b @ [Poll]\<rparr>"
  have same: "rings_typed ad (bs_mem ?b) = rings_typed ad (bs_mem b)" by (simp add: dma_typed [OF own])
  show "rings_typed ad (bs_mem (snd y)) = rings_typed ad (bs_mem b)"
  proof (cases "us_index (rg_used (bs_mem ?b)) = before")
    case True
    then have "w env before ?b = Some y" using run by (simp add: Let_def)
    from IH [OF this] own same show ?thesis by simp
  next
    case False
    then have "snd y = ?b" using run by (auto simp: Let_def)
    then show ?thesis using same by simp
  qed
qed

lemma set_update: "x \<in> set (xs[i := y]) \<Longrightarrow> x = y \<or> x \<in> set xs"
  using set_update_subset_insert by fastforce

lemma request_typed:
  assumes "rings_typed ad m" "ba_header ad \<noteq> ba_data ad" "ba_header ad \<noteq> ba_status ad"
  shows "rings_typed ad ((block_request ad s m)\<lparr>rg_available := publish (rg_available (block_request ad s m))\<rparr>)"
proof -
  have "NEXT AND WRITE = 0" by (simp add: NEXT_def WRITE_def)
  then have new: "descriptor_typed ad \<lparr>de_address = ba_header ad, de_length = of_nat HEADER_BYTES, de_flags = NEXT, de_next = 1\<rparr>"
    "descriptor_typed ad \<lparr>de_address = ba_data ad, de_length = of_nat SECTOR, de_flags = NEXT OR WRITE, de_next = 2\<rparr>"
    "descriptor_typed ad \<lparr>de_address = ba_status ad, de_length = 1, de_flags = WRITE, de_next = 0\<rparr>"
    using assms(2,3) by (simp_all add: descriptor_typed_def QSIZE_def)
  have "descriptor_typed ad d" if "d \<in> set (rg_descriptors (block_request ad s m))" for d
  proof -
    have "d \<in> set (rg_descriptors m) \<or> d = \<lparr>de_address = ba_header ad, de_length = of_nat HEADER_BYTES, de_flags = NEXT, de_next = 1\<rparr> \<or>
      d = \<lparr>de_address = ba_data ad, de_length = of_nat SECTOR, de_flags = NEXT OR WRITE, de_next = 2\<rparr> \<or>
      d = \<lparr>de_address = ba_status ad, de_length = 1, de_flags = WRITE, de_next = 0\<rparr>"
      using that unfolding block_request_def block_chain_def rings.simps by (auto dest!: set_update)
    then show ?thesis using new assms(1) by (auto simp: rings_typed_def)
  qed
  moreover have "\<forall>x \<in> set (av_ring (publish (rg_available m))). unat x < QSIZE"
    using assms(1) by (auto simp: rings_typed_def publish_def Let_def QSIZE_def dest!: set_update)
  ultimately show ?thesis using assms(1)
    by (simp add: rings_typed_def block_request_def block_chain_def publish_def Let_def)
qed

lemma sector_typed:
  assumes "minds_its_own env" "ba_header ad \<noteq> ba_data ad" "ba_header ad \<noteq> ba_status ad" "rings_typed ad (bs_mem b)"
    and "block_read_sector env ad base s into b = Some (r, b')"
  shows "rings_typed ad (bs_mem b')"
  using assms(5) request_typed [OF assms(4,2,3)] wait_typed [of env _ _ _ ad] assms(1,4)
  by (auto simp: block_read_sector_def submit_def reg_write_def Let_def split: if_splits option.splits)

lemma loop_typed:
  "block_read_loop env ad base s n scratch into b = Some (r, b') \<Longrightarrow> minds_its_own env \<Longrightarrow> ba_header ad \<noteq> ba_data ad \<Longrightarrow>
    ba_header ad \<noteq> ba_status ad \<Longrightarrow> rings_typed ad (bs_mem b) \<Longrightarrow> rings_typed ad (bs_mem b')"
proof (induction env ad base s n scratch into b rule: block_read_loop.induct)
  case (1 env ad base s n scratch into b)
  show ?case
  proof (cases "n < length into")
    case True
    obtain res scratch' b1 where R: "block_read_sector env ad base s scratch b = Some ((res, scratch'), b1)"
      using 1(2) True by (subst (asm) block_read_loop.simps) (auto split: option.splits)
    have t: "rings_typed ad (bs_mem b1)" by (rule sector_typed [OF 1(3-6) R])
    show ?thesis
    proof (cases res)
      case (Inl e)
      then show ?thesis using 1(2) True R t by (simp add: block_read_loop.simps [of env ad base s n scratch into b])
    next
      case (Inr u)
      note IH = 1(1) [OF True R refl _ Inr refl _ 1(3-5) t]
      show ?thesis using 1(2) True R Inr IH by (simp add: block_read_loop.simps [of env ad base s n scratch into b] Let_def)
    qed
  next
    case False
    then show ?thesis using 1(2,6) by (simp add: block_read_loop.simps [of env ad base s n scratch into b])
  qed
qed

text \<open>C20: Whatever a device writes into its own part of the memory, a read leaves the rings well-typed: eight descriptors and
  eight ring entries, flags of the two bits defined, every link and every entry below the size of the queue, no
  descriptor that lets the device write at the header's address, and a header that asks for a read. A
  device that never answers leaves the read without a result.\<close>

theorem rings_stay_typed:
  assumes "minds_its_own env" "ba_header ad \<noteq> ba_data ad" "ba_header ad \<noteq> ba_status ad"
    and "rings_typed ad (bs_mem b)" "block_read_at env ad base offset into b = Some (r, b')"
  shows "rings_typed ad (bs_mem b')"
  using loop_typed [OF _ assms(1-4)] assms(4,5) by (auto simp: block_read_at_def split: if_splits)

lemma rings_stay_typed_witness:
  "\<exists>r b'. block_read_at sample_env sample_addresses 0 512 (replicate 2 0) (snd (block_new sample_env sample_addresses 0 sample_bus)) = Some (r, b') \<and>
     rings_typed sample_addresses (bs_mem b')"
proof -
  obtain b where b: "block_new sample_env sample_addresses 0 sample_bus = (Some 0, b)"
    using sample_comes_up by (metis prod.collapse)
  note up = block_up_log [OF b]
  have "block_up sample_addresses 0 b" using up idle_new by (auto simp: handshake_def told_up_def sample_bus_def)
  moreover have "serves_block sample_env sample_addresses 0 sample_disk"
    unfolding serves_block_def sample_env_def by (rule prompt_answers)
  ultimately obtain b' where r: "block_read_at sample_env sample_addresses 0 512 (replicate 2 0) b = Some (read_at sample_disk 512 (replicate 2 0), b')"
    using at_read by blast
  have "minds_its_own sample_env"
    by (simp add: minds_its_own_def sample_env_def prompt_env_def serve_block_def Let_def)
  moreover have "rings_typed sample_addresses block_rings_new"
    by (simp add: rings_typed_def descriptor_typed_def block_rings_new_def rings_new_def rings.defs QSIZE_def BLK_IN_def)
  ultimately have "rings_typed sample_addresses (bs_mem b')"
    using up by (intro rings_stay_typed [OF _ _ _ _ r]) (simp_all add: sample_addresses_def sample_bus_def)
  then show ?thesis using r unfolding b by auto
qed

end
