(* ===== verification/Uart.thy ===== *)
theory Uart
  imports Virtio
begin

text \<open>
  crates/mlos-pl011 and crates/mlos-uart16550: the serial ports, over the same bus as the virtio registers.
  What a register reads is the device's to say; a byte is sent by spinning until there is room and writing the
  data register. Nothing shares memory with these devices.
\<close>

section \<open>Bytes as a terminal wants them\<close>

abbreviation CR :: u8 where "CR \<equiv> 13"
abbreviation LF :: u8 where "LF \<equiv> 10"

definition with_cr :: "u8 list \<Rightarrow> u8 list" where
  "with_cr bytes = concat (map (\<lambda>b. if b = LF then [CR, LF] else [b]) bytes)"

section \<open>PL011, transmit (mlos-pl011, tx.rs)\<close>

definition PL_DR :: nat where "PL_DR = 0x00"
definition PL_FR :: nat where "PL_FR = 0x18"
definition FR_TXFF :: u32 where "FR_TXFF = push_bit 5 1"

partial_function (option) pl_put :: "'m env \<Rightarrow> nat \<Rightarrow> u8 \<Rightarrow> 'm bus \<Rightarrow> 'm bus option" where
  "pl_put env base byte b =
     (case reg_read env base PL_FR b of (flags, b) \<Rightarrow>
       if flags AND FR_TXFF \<noteq> 0 then pl_put env base byte b else Some (reg_write base PL_DR (ucast byte) b))"

fun pl_write :: "'m env \<Rightarrow> nat \<Rightarrow> u8 list \<Rightarrow> 'm bus \<Rightarrow> 'm bus option" where
  "pl_write env base [] b = Some b"
| "pl_write env base (byte # bytes) b =
     (case (if byte = LF then pl_put env base CR b else Some b) of
        None \<Rightarrow> None
      | Some b \<Rightarrow> (case pl_put env base byte b of None \<Rightarrow> None | Some b \<Rightarrow> pl_write env base bytes b))"

definition pl_write_str :: "'m env \<Rightarrow> nat \<Rightarrow> u8 list \<Rightarrow> 'm bus \<Rightarrow> 'm bus option" where
  "pl_write_str env base s b = pl_write env base s b"

section \<open>PL011, receive (rx.rs)\<close>

definition FR_RXFE :: u32 where "FR_RXFE = push_bit 4 1"
definition PL_IMSC :: nat where "PL_IMSC = 0x38"
definition PL_ICR :: nat where "PL_ICR = 0x44"
definition IMSC_RX :: u32 where "IMSC_RX = push_bit 4 1"
definition IMSC_RT :: u32 where "IMSC_RT = push_bit 6 1"

definition pl_read :: "'m env \<Rightarrow> nat \<Rightarrow> 'm bus \<Rightarrow> u8 option \<times> 'm bus" where
  "pl_read env base b =
     (case reg_read env base PL_FR b of (flags, b) \<Rightarrow>
       if flags AND FR_RXFE \<noteq> 0 then (None, b)
       else (case reg_read env base PL_DR b of (v, b) \<Rightarrow> (Some (ucast v), b)))"

definition pl_enable_receive_interrupt :: "nat \<Rightarrow> 'm bus \<Rightarrow> 'm bus" where
  "pl_enable_receive_interrupt base b = reg_write base PL_IMSC (IMSC_RX OR IMSC_RT) (reg_write base PL_ICR (- 1) b)"

definition pl_clear_interrupt :: "nat \<Rightarrow> 'm bus \<Rightarrow> 'm bus" where
  "pl_clear_interrupt base b = reg_write base PL_ICR (- 1) b"

definition echo_of :: "u8 \<Rightarrow> u8 list" where
  "echo_of byte =
     (if byte = CR \<or> byte = LF then [CR, LF] else if byte = 0x7f \<or> byte = 0x08 then [0x08, 0x20, 0x08] else [byte])"

partial_function (option) pl_drain :: "'m env \<Rightarrow> nat \<Rightarrow> 'm bus \<Rightarrow> 'm bus option" where
  "pl_drain env base b =
     (case pl_read env base b of
        (None, b) \<Rightarrow> Some b
      | (Some byte, b) \<Rightarrow> Option.bind (pl_write env base (echo_of byte) b) (pl_drain env base))"

definition pl_drain_echo :: "'m env \<Rightarrow> nat \<Rightarrow> 'm bus \<Rightarrow> 'm bus option" where
  "pl_drain_echo env base b = pl_drain env base (pl_clear_interrupt base b)"

section \<open>The 16550 (mlos-uart16550)\<close>

text \<open>Ports are addresses of the bus, bytes its low eight bits.\<close>

definition port_read :: "'m env \<Rightarrow> nat \<Rightarrow> 'm bus \<Rightarrow> u8 \<times> 'm bus" where
  "port_read env port b = (case reg_read env port 0 b of (v, b) \<Rightarrow> (ucast v, b))"

definition port_write :: "nat \<Rightarrow> u8 \<Rightarrow> 'm bus \<Rightarrow> 'm bus" where
  "port_write port v b = reg_write port 0 (ucast v) b"

definition COM1 :: nat where "COM1 = 0x3f8"
definition LCR_8N1 :: u8 where "LCR_8N1 = 0x03"
definition LCR_DLAB :: u8 where "LCR_DLAB = 0x80"
definition MCR_DTR_RTS :: u8 where "MCR_DTR_RTS = 0x03"

definition uart_init :: "nat \<Rightarrow> 'm bus \<Rightarrow> 'm bus" where
  "uart_init base b =
     (let b = port_write (base + 1) 0x00 b; b = port_write (base + 3) LCR_DLAB b; b = port_write base 0x01 b;
          b = port_write (base + 1) 0x00 b; b = port_write (base + 3) LCR_8N1 b
      in port_write (base + 4) MCR_DTR_RTS b)"

definition LSR :: nat where "LSR = 5"
definition LSR_THRE :: u8 where "LSR_THRE = push_bit 5 1"
definition LSR_DR :: u8 where "LSR_DR = push_bit 0 1"
definition IER :: nat where "IER = 1"
definition IER_RDA :: u8 where "IER_RDA = push_bit 0 1"
definition MCR :: nat where "MCR = 4"
definition MCR_OUT2_DTR_RTS :: u8 where "MCR_OUT2_DTR_RTS = 0x0b"

partial_function (option) uart_put :: "'m env \<Rightarrow> nat \<Rightarrow> u8 \<Rightarrow> 'm bus \<Rightarrow> 'm bus option" where
  "uart_put env base byte b =
     (case port_read env (base + LSR) b of (state, b) \<Rightarrow>
       if state AND LSR_THRE = 0 then uart_put env base byte b else Some (port_write base byte b))"

fun uart_write :: "'m env \<Rightarrow> nat \<Rightarrow> u8 list \<Rightarrow> 'm bus \<Rightarrow> 'm bus option" where
  "uart_write env base [] b = Some b"
| "uart_write env base (byte # bytes) b =
     (case (if byte = LF then uart_put env base CR b else Some b) of
        None \<Rightarrow> None
      | Some b \<Rightarrow> (case uart_put env base byte b of None \<Rightarrow> None | Some b \<Rightarrow> uart_write env base bytes b))"

definition uart_write_str :: "'m env \<Rightarrow> nat \<Rightarrow> u8 list \<Rightarrow> 'm bus \<Rightarrow> 'm bus option" where
  "uart_write_str env base s b = uart_write env base s b"

definition uart_read :: "'m env \<Rightarrow> nat \<Rightarrow> 'm bus \<Rightarrow> u8 option \<times> 'm bus" where
  "uart_read env base b =
     (case port_read env (base + LSR) b of (state, b) \<Rightarrow>
       if state AND LSR_DR = 0 then (None, b)
       else (case port_read env base b of (v, b) \<Rightarrow> (Some v, b)))"

definition uart_enable_receive_interrupt :: "nat \<Rightarrow> 'm bus \<Rightarrow> 'm bus" where
  "uart_enable_receive_interrupt base b = port_write (base + IER) IER_RDA (port_write (base + MCR) MCR_OUT2_DTR_RTS b)"

section \<open>What goes out on the wire\<close>

text \<open>The bytes a log wrote to a data register.\<close>

definition wire :: "nat \<Rightarrow> bus_event list \<Rightarrow> u8 list" where
  "wire data log = List.map_filter (\<lambda>e. case e of Wr a v \<Rightarrow> if a = data then Some (ucast v) else None | _ \<Rightarrow> None) log"

lemma wire_simps [simp]:
  "wire data [] = []" "wire data (Rd a v # l) = wire data l" "wire data (Poll # l) = wire data l"
  "wire data (Wr a v # l) = (if a = data then ucast v # wire data l else wire data l)"
  by (simp_all add: wire_def map_filter_simps)

lemma wire_append [simp]: "wire data (l @ m) = wire data l @ wire data m"
  by (simp add: wire_def List.map_filter_def)

text \<open>A device that sends: whatever happened before, it has room after its flags were read often enough.\<close>

definition look :: "'m env \<Rightarrow> nat \<Rightarrow> bus_event list \<Rightarrow> bus_event list" where
  "look env flags log = log @ [Rd flags (env_read env log flags)]"

definition makes_room :: "'m env \<Rightarrow> nat \<Rightarrow> (u32 \<Rightarrow> bool) \<Rightarrow> bool" where
  "makes_room env flags full \<longleftrightarrow> (\<forall>log. \<exists>n. \<not> full (env_read env ((look env flags ^^ n) log) flags))"

text \<open>What the two ports have in common: \<open>put\<close> spins on the flags and writes the byte, \<open>send\<close>
  puts every byte, a carriage return before a newline.\<close>

locale serial =
  fixes env :: "'m env" and flags :: nat and full :: "u32 \<Rightarrow> bool" and data :: nat
    and put :: "u8 \<Rightarrow> 'm bus \<Rightarrow> 'm bus option" and send :: "u8 list \<Rightarrow> 'm bus \<Rightarrow> 'm bus option"
  assumes put_spins: "put x b =
      (let v = env_read env (bs_log b) flags; b' = b\<lparr>bs_log := look env flags (bs_log b)\<rparr>
       in if full v then put x b' else Some (b'\<lparr>bs_log := bs_log b' @ [Wr data (ucast x)]\<rparr>))"
    and send_nil: "send [] b = Some b"
    and send_cons: "send (x # xs) b =
      Option.bind (if x = LF then put CR b else Some b) (\<lambda>b. Option.bind (put x b) (send xs))"
begin

lemma put_ready:
  "\<not> full (env_read env (bs_log b) flags) \<Longrightarrow>
     put x b = Some (b\<lparr>bs_log := bs_log b @ [Rd flags (env_read env (bs_log b) flags), Wr data (ucast x)]\<rparr>)"
  using put_spins [of x b] by (simp add: Let_def look_def)

lemma put_waits: "full (env_read env (bs_log b) flags) \<Longrightarrow> put x b = put x (b\<lparr>bs_log := look env flags (bs_log b)\<rparr>)"
  using put_spins [of x b] by (simp add: Let_def)

lemma put_sends:
  "\<not> full (env_read env ((look env flags ^^ n) (bs_log b)) flags) \<Longrightarrow>
     \<exists>ev. put x b = Some (b\<lparr>bs_log := bs_log b @ ev\<rparr>) \<and> wire data ev = [x]"
proof (induction n arbitrary: b)
  case (Suc n)
  have u: "ucast (ucast x :: u32) = x" by (rule bit_word_eqI) (auto simp: bit_simps)
  show ?case
  proof (cases "full (env_read env (bs_log b) flags)")
    case True
    let ?b = "b\<lparr>bs_log := look env flags (bs_log b)\<rparr>"
    have "\<not> full (env_read env ((look env flags ^^ n) (bs_log ?b)) flags)" using Suc.prems by (simp add: funpow_swap1)
    from Suc.IH [OF this] obtain ev where "put x ?b = Some (?b\<lparr>bs_log := bs_log ?b @ ev\<rparr>)" "wire data ev = [x]" by blast
    then show ?thesis using put_waits [OF True]
      by (intro exI [of _ "Rd flags (env_read env (bs_log b) flags) # ev"]) (simp add: look_def)
  next
    case False
    from put_ready [OF this] show ?thesis using u
      by (intro exI [of _ "[Rd flags (env_read env (bs_log b) flags), Wr data (ucast x)]"]) simp
  qed
next
  case 0
  have u: "ucast (ucast x :: u32) = x" by (rule bit_word_eqI) (auto simp: bit_simps)
  have "\<not> full (env_read env (bs_log b) flags)" using 0 by simp
  from put_ready [OF this] show ?case using u
    by (intro exI [of _ "[Rd flags (env_read env (bs_log b) flags), Wr data (ucast x)]"]) simp
qed

lemma put_room: "makes_room env flags full \<Longrightarrow> \<exists>ev. put x b = Some (b\<lparr>bs_log := bs_log b @ ev\<rparr>) \<and> wire data ev = [x]"
  unfolding makes_room_def using put_sends by blast

lemma send_all:
  assumes room: "makes_room env flags full"
  shows "\<exists>ev. send xs b = Some (b\<lparr>bs_log := bs_log b @ ev\<rparr>) \<and> wire data ev = with_cr xs"
proof (induction xs arbitrary: b)
  case Nil
  then show ?case by (intro exI [of _ "[]"]) (simp add: send_nil with_cr_def)
next
  case (Cons x xs)
  obtain ev1 where 1: "(if x = LF then put CR b else Some b) = Some (b\<lparr>bs_log := bs_log b @ ev1\<rparr>)"
    "wire data ev1 = (if x = LF then [CR] else [])"
  proof (cases "x = LF")
    case True
    then show ?thesis using put_room [OF room, of CR b] that by auto
  next
    case False
    then show ?thesis using that [of "[]"] by simp
  qed
  let ?b1 = "b\<lparr>bs_log := bs_log b @ ev1\<rparr>"
  obtain ev2 where 2: "put x ?b1 = Some (?b1\<lparr>bs_log := bs_log ?b1 @ ev2\<rparr>)" "wire data ev2 = [x]"
    using put_room [OF room, of x ?b1] by blast
  let ?b2 = "?b1\<lparr>bs_log := bs_log ?b1 @ ev2\<rparr>"
  obtain ev3 where 3: "send xs ?b2 = Some (?b2\<lparr>bs_log := bs_log ?b2 @ ev3\<rparr>)" "wire data ev3 = with_cr xs"
    using Cons.IH [of ?b2] by blast
  have "send (x # xs) b = Some (b\<lparr>bs_log := bs_log b @ ev1 @ ev2 @ ev3\<rparr>)"
    unfolding send_cons 1(1) using 2(1) 3(1) by simp
  moreover have "wire data (ev1 @ ev2 @ ev3) = with_cr (x # xs)" using 1(2) 2(2) 3(2) by (simp add: with_cr_def)
  ultimately show ?case by blast
qed

end

interpretation pl: serial env "base + PL_FR" "\<lambda>v. v AND FR_TXFF \<noteq> 0" "base + PL_DR" "pl_put env base" "pl_write env base"
  for env :: "'m env" and base
proof unfold_locales
  fix x :: u8 and xs and b :: "'m bus"
  show "pl_put env base x b =
      (let v = env_read env (bs_log b) (base + PL_FR); b' = b\<lparr>bs_log := look env (base + PL_FR) (bs_log b)\<rparr>
       in if v AND FR_TXFF \<noteq> 0 then pl_put env base x b' else Some (b'\<lparr>bs_log := bs_log b' @ [Wr (base + PL_DR) (ucast x)]\<rparr>))"
    by (subst pl_put.simps) (simp add: Let_def reg_read_def reg_write_def look_def)
  show "pl_write env base (x # xs) b =
      Option.bind (if x = LF then pl_put env base CR b else Some b) (\<lambda>b. Option.bind (pl_put env base x b) (pl_write env base xs))"
    by (simp split: option.split)
qed simp

interpretation uart: serial env "base + LSR" "\<lambda>v. (ucast v :: u8) AND LSR_THRE = 0" base "uart_put env base" "uart_write env base"
  for env :: "'m env" and base
proof unfold_locales
  fix x :: u8 and xs and b :: "'m bus"
  show "uart_put env base x b =
      (let v = env_read env (bs_log b) (base + LSR); b' = b\<lparr>bs_log := look env (base + LSR) (bs_log b)\<rparr>
       in if (ucast v :: u8) AND LSR_THRE = 0 then uart_put env base x b' else Some (b'\<lparr>bs_log := bs_log b' @ [Wr base (ucast x)]\<rparr>))"
    by (subst uart_put.simps) (simp add: Let_def port_read_def port_write_def reg_read_def reg_write_def look_def)
  show "uart_write env base (x # xs) b =
      Option.bind (if x = LF then uart_put env base CR b else Some b) (\<lambda>b. Option.bind (uart_put env base x b) (uart_write env base xs))"
    by (simp split: option.split)
qed simp

end
