(* ===== verification/Terminal.thy ===== *)
theory Terminal
  imports Uart VirtioProps Machine Trace
begin

text \<open>
  crates/mlos-virtio-console and crates/mlos-console: a console that sends through the rings of a
  virtio device, and the choice between it and the PL011. Also the probing of mlos-lab (devices.rs), which walks
  the same slots for a block device.
\<close>

section \<open>The virtio console (mlos-virtio-console)\<close>

definition TRANSMIT :: u32 where "TRANSMIT = 1"
definition CONSOLE_BUFFER :: nat where "CONSOLE_BUFFER = 256"

record console_rings = rings +
  cr_buffer :: "u8 list"

record console_addresses =
  ca_descriptors :: "64 word"
  ca_available :: "64 word"
  ca_used :: "64 word"
  ca_buffer :: "64 word"

definition console_rings_new :: console_rings where
  "console_rings_new = rings.extend rings_new \<lparr>cr_buffer = replicate CONSOLE_BUFFER 0\<rparr>"

definition vcon_new :: "'m env \<Rightarrow> console_addresses \<Rightarrow> nat \<Rightarrow> 'm bus \<Rightarrow> nat option \<times> 'm bus" where
  "vcon_new env ad base b =
     (case negotiate env base b of (agreed, b) \<Rightarrow>
       if \<not> agreed then (None, b)
       else (case configure env base TRANSMIT (ca_descriptors ad, ca_available ad, ca_used ad) b of (configured, b) \<Rightarrow>
         if \<not> configured then (None, b) else (Some base, device_ready base b)))"

definition stage :: "console_addresses \<Rightarrow> u8 list \<Rightarrow> 'r console_rings_scheme \<Rightarrow> 'r console_rings_scheme" where
  "stage ad chunk m =
     m\<lparr>cr_buffer := chunk @ drop (length chunk) (cr_buffer m),
       rg_descriptors := (rg_descriptors m)
         [0 := \<lparr>de_address = ca_buffer ad, de_length = of_nat (length chunk), de_flags = 0, de_next = 0\<rparr>]\<rparr>"

function vcon_write ::
  "'r console_rings_scheme env \<Rightarrow> console_addresses \<Rightarrow> nat \<Rightarrow> u8 list \<Rightarrow> 'r console_rings_scheme bus \<Rightarrow> 'r console_rings_scheme bus option" where
  "vcon_write env ad base bytes b =
     (if bytes = [] then Some b
      else (case submit env base TRANSMIT (b\<lparr>bs_mem := stage ad (take CONSOLE_BUFFER bytes) (bs_mem b)\<rparr>) of
              None \<Rightarrow> None
            | Some (_, b) \<Rightarrow> vcon_write env ad base (drop CONSOLE_BUFFER bytes) b))"
  by pat_completeness auto
termination
  by (relation "measure (\<lambda>(_, _, _, bytes, _). length bytes)") (auto simp: CONSOLE_BUFFER_def)

declare vcon_write.simps [simp del]

fun vcon_write_str ::
  "'r console_rings_scheme env \<Rightarrow> console_addresses \<Rightarrow> nat \<Rightarrow> u8 list \<Rightarrow> 'r console_rings_scheme bus \<Rightarrow> 'r console_rings_scheme bus option" where
  "vcon_write_str env ad base [] b = Some b"
| "vcon_write_str env ad base (byte # bytes) b =
     (case (if byte = LF then vcon_write env ad base [CR] b else Some b) of
        None \<Rightarrow> None
      | Some b \<Rightarrow> (case vcon_write env ad base [byte] b of None \<Rightarrow> None | Some b \<Rightarrow> vcon_write_str env ad base bytes b))"

section \<open>Whichever console (mlos-console)\<close>

datatype terminal = TermPl011 nat | TermVirtio nat

definition wants_virtio :: "machine \<Rightarrow> bool" where
  "wants_virtio m = (case mc_bootargs m of None \<Rightarrow> False | Some args \<Rightarrow> contains args ''console=hvc'')"

text \<open>The slots from \<open>slot\<close> on, \<open>n\<close> of them.\<close>

fun find_console :: "'m env \<Rightarrow> console_addresses \<Rightarrow> nat \<Rightarrow> nat \<Rightarrow> nat \<Rightarrow> nat \<Rightarrow> 'm bus \<Rightarrow> terminal option \<times> 'm bus" where
  "find_console env ad base sz slot 0 b = (None, b)"
| "find_console env ad base sz slot (Suc n) b =
     (case device_probe env (base + slot * sz) b of
        (Some (device, i), b) \<Rightarrow>
          if i = CONSOLE_ID then
            (case vcon_new env ad device b of
               (Some console, b) \<Rightarrow> (Some (TermVirtio console), b)
             | (None, b) \<Rightarrow> find_console env ad base sz (slot + 1) n b)
          else find_console env ad base sz (slot + 1) n b
      | (None, b) \<Rightarrow> find_console env ad base sz (slot + 1) n b)"

definition terminal_virtio :: "'m env \<Rightarrow> console_addresses \<Rightarrow> machine \<Rightarrow> 'm bus \<Rightarrow> terminal option \<times> 'm bus" where
  "terminal_virtio env ad m b =
     (case mc_virtio m of None \<Rightarrow> (None, b) | Some (base, sz) \<Rightarrow> find_console env ad base sz 0 (mc_virtio_count m) b)"

definition terminal_open :: "'m env \<Rightarrow> console_addresses \<Rightarrow> machine \<Rightarrow> 'm bus \<Rightarrow> terminal option \<times> 'm bus" where
  "terminal_open env ad m b =
     (case mc_uart_base m of
        Some base \<Rightarrow>
          if \<not> wants_virtio m then (Some (TermPl011 base), b)
          else (case terminal_virtio env ad m b of (None, b) \<Rightarrow> (Some (TermPl011 base), b) | found \<Rightarrow> found)
      | None \<Rightarrow> terminal_virtio env ad m b)"

fun terminal_write ::
  "'r console_rings_scheme env \<Rightarrow> console_addresses \<Rightarrow> terminal \<Rightarrow> u8 list \<Rightarrow> 'r console_rings_scheme bus \<Rightarrow> 'r console_rings_scheme bus option" where
  "terminal_write env ad (TermPl011 base) bytes b = pl_write env base bytes b"
| "terminal_write env ad (TermVirtio base) bytes b = vcon_write env ad base bytes b"

fun terminal_write_str ::
  "'r console_rings_scheme env \<Rightarrow> console_addresses \<Rightarrow> terminal \<Rightarrow> u8 list \<Rightarrow> 'r console_rings_scheme bus \<Rightarrow> 'r console_rings_scheme bus option" where
  "terminal_write_str env ad (TermPl011 base) s b = pl_write_str env base s b"
| "terminal_write_str env ad (TermVirtio base) s b = vcon_write_str env ad base s b"

fun terminal_read :: "'m env \<Rightarrow> terminal \<Rightarrow> 'm bus \<Rightarrow> u8 option \<times> 'm bus" where
  "terminal_read env (TermPl011 base) b = pl_read env base b"
| "terminal_read env (TermVirtio base) b = (None, b)"

fun terminal_clear_interrupt :: "terminal \<Rightarrow> 'm bus \<Rightarrow> 'm bus" where
  "terminal_clear_interrupt (TermPl011 base) b = pl_clear_interrupt base b"
| "terminal_clear_interrupt (TermVirtio base) b = b"

fun terminal_enable_receive_interrupt :: "terminal \<Rightarrow> 'm bus \<Rightarrow> 'm bus" where
  "terminal_enable_receive_interrupt (TermPl011 base) b = pl_enable_receive_interrupt base b"
| "terminal_enable_receive_interrupt (TermVirtio base) b = b"

fun terminal_kind :: "terminal \<Rightarrow> string" where
  "terminal_kind (TermPl011 base) = ''pl011''"
| "terminal_kind (TermVirtio base) = ''virtio''"

section \<open>The laboratory's disk (mlos-lab, devices.rs)\<close>

definition set_slots :: "nat \<Rightarrow> nat \<Rightarrow> nat \<Rightarrow> 64 word" where
  "set_slots base sz n = push_bit 24 (of_nat base) OR push_bit 8 (of_nat sz AND 0xffff) OR (of_nat n AND 0xff)"

fun find_block :: "block_rings env \<Rightarrow> block_addresses \<Rightarrow> nat \<Rightarrow> nat \<Rightarrow> nat \<Rightarrow> nat \<Rightarrow> block_rings bus \<Rightarrow> nat option \<times> block_rings bus" where
  "find_block env ad base sz slot 0 b = (None, b)"
| "find_block env ad base sz slot (Suc n) b =
     (case device_probe env (base + slot * sz) b of
        (Some (device, i), b) \<Rightarrow>
          if i = BLOCK_ID then block_new env ad device b else find_block env ad base sz (slot + 1) n b
      | (None, b) \<Rightarrow> find_block env ad base sz (slot + 1) n b)"

definition slots_of :: "64 word \<Rightarrow> nat \<times> nat \<times> nat" where
  "slots_of packed = (unat (drop_bit 24 packed), unat (drop_bit 8 packed AND 0xffff), unat (packed AND 0xff))"

definition probe_disk :: "block_rings env \<Rightarrow> block_addresses \<Rightarrow> 64 word \<Rightarrow> block_rings bus \<Rightarrow> nat option \<times> block_rings bus" where
  "probe_disk env ad packed b =
     (if packed = 0 then (None, b)
      else (case slots_of packed of (base, sz, n) \<Rightarrow> find_block env ad base sz 0 n b))"

text \<open>\<open>remember_disk\<close>: what was found once is kept; a failed probe is tried again.\<close>

definition lab_disk ::
  "block_rings env \<Rightarrow> block_addresses \<Rightarrow> 64 word \<Rightarrow> nat option \<Rightarrow> block_rings bus \<Rightarrow> nat option \<times> block_rings bus" where
  "lab_disk env ad packed held b = (case held of Some d \<Rightarrow> (Some d, b) | None \<Rightarrow> probe_disk env ad packed b)"

end
