(* ===== verification/TerminalProps.thy ===== *)
theory TerminalProps
  imports Terminal
begin

text \<open>
  What reaches the wire: the bytes a console is given, whichever it is, and the slots the laboratory is told of.
\<close>

section \<open>A virtio console on the wire\<close>

text \<open>The far end: the memory of the driver and the bytes the device took so far.\<close>

record wired = console_rings +
  wi_sent :: "u8 list"

definition transmit_ok :: "console_addresses \<Rightarrow> wired \<Rightarrow> bool" where
  "transmit_ok ad m \<longleftrightarrow>
     (let d = rg_descriptors m ! 0 in
      av_ring (rg_available m) ! (unat (us_index (rg_used m)) mod QSIZE) = 0 \<and> av_index (rg_available m) = us_index (rg_used m) + 1 \<and>
      de_address d = ca_buffer ad \<and> de_flags d = 0)"

definition serve_console :: "console_addresses \<Rightarrow> wired \<Rightarrow> wired" where
  "serve_console ad m =
     (if transmit_ok ad m then
        (let us = rg_used m in
         m\<lparr>wi_sent := wi_sent m @ take (unat (de_length (rg_descriptors m ! 0))) (cr_buffer m),
           rg_used := us\<lparr>us_index := us_index us + 1,
             us_ring := (us_ring us)[unat (us_index us) mod QSIZE := \<lparr>ue_id = 0, ue_length = 0\<rparr>]\<rparr>\<rparr>)
      else m)"

definition serves_console :: "wired env \<Rightarrow> console_addresses \<Rightarrow> nat \<Rightarrow> bool" where
  "serves_console env ad base \<longleftrightarrow>
     answers env (Wr (base + REG_QUEUE_NOTIFY) TRANSMIT) (told_up base TRANSMIT (ca_descriptors ad, ca_available ad, ca_used ad))
       (serve_console ad)"

definition quiet :: "wired \<Rightarrow> bool" where
  "quiet m \<longleftrightarrow> length (rg_descriptors m) = QSIZE \<and> length (av_ring (rg_available m)) = QSIZE \<and>
     us_index (rg_used m) = av_index (rg_available m) \<and> length (cr_buffer m) = CONSOLE_BUFFER"

abbreviation console_up :: "console_addresses \<Rightarrow> nat \<Rightarrow> wired bus \<Rightarrow> bool" where
  "console_up ad base b \<equiv> told_up base TRANSMIT (ca_descriptors ad, ca_available ad, ca_used ad) (bs_log b) \<and> quiet (bs_mem b)"

lemma staged:
  assumes "quiet m" "length chunk \<le> CONSOLE_BUFFER" "m' = (stage ad chunk m)\<lparr>rg_available := publish (rg_available (stage ad chunk m))\<rparr>"
  shows "quiet (serve_console ad m')" "us_index (rg_used (serve_console ad m')) \<noteq> us_index (rg_used m)"
    "wi_sent (serve_console ad m') = wi_sent m @ chunk"
proof -
  have len: "length (rg_descriptors m) = 8" "length (av_ring (rg_available m)) = 8" "length (cr_buffer m) = 256"
    and eq: "us_index (rg_used m) = av_index (rg_available m)"
    using assms(1) by (simp_all add: quiet_def QSIZE_def CONSOLE_BUFFER_def)
  have n: "unat (of_nat (length chunk) :: u32) = length chunk" using assms(2) by (simp add: unat_of_nat CONSOLE_BUFFER_def)
  have slot: "unat (av_index (rg_available m)) mod 8 < 8" by simp
  have ok: "transmit_ok ad m'"
    using len eq slot by (simp add: assms(3) transmit_ok_def stage_def publish_def Let_def QSIZE_def)
  show "quiet (serve_console ad m')" "us_index (rg_used (serve_console ad m')) \<noteq> us_index (rg_used m)"
    using len eq ok assms(2) by (simp_all add: serve_console_def quiet_def Let_def assms(3) stage_def publish_def QSIZE_def CONSOLE_BUFFER_def)
  show "wi_sent (serve_console ad m') = wi_sent m @ chunk"
    using len n ok by (simp add: serve_console_def Let_def) (simp add: assms(3) stage_def)
qed

lemma chunk_sent:
  assumes dev: "serves_console env ad base" and up: "console_up ad base b" and n: "length chunk \<le> CONSOLE_BUFFER"
  shows "\<exists>len b'. submit env base TRANSMIT (b\<lparr>bs_mem := stage ad chunk (bs_mem b)\<rparr>) = Some (len, b') \<and> console_up ad base b' \<and>
    wi_sent (bs_mem b') = wi_sent (bs_mem b) @ chunk"
proof -
  let ?b = "b\<lparr>bs_mem := stage ad chunk (bs_mem b)\<rparr>"
  let ?m = "(stage ad chunk (bs_mem b))\<lparr>rg_available := publish (rg_available (stage ad chunk (bs_mem b)))\<rparr>"
  note C = staged [OF conjunct2 [OF up] n refl]
  have "\<exists>len k. submit env base TRANSMIT ?b =
    Some (len, \<lparr>bs_log = bs_log ?b @ Wr (base + REG_QUEUE_NOTIFY) TRANSMIT # replicate k Poll, bs_mem = serve_console ad ?m\<rparr>)"
    by (rule submit_served [OF dev [unfolded serves_console_def]]) (use up C(2) in \<open>simp_all add: stage_def\<close>)
  then obtain len k where S: "submit env base TRANSMIT ?b =
    Some (len, \<lparr>bs_log = bs_log b @ Wr (base + REG_QUEUE_NOTIFY) TRANSMIT # replicate k Poll, bs_mem = serve_console ad ?m\<rparr>)" by auto
  then show ?thesis using told_up_mono [OF conjunct1 [OF up]] C(1,3) by auto
qed

lemma write_sent:
  "serves_console env ad base \<Longrightarrow> console_up ad base b \<Longrightarrow>
    \<exists>b'. vcon_write env ad base bytes b = Some b' \<and> console_up ad base b' \<and> wi_sent (bs_mem b') = wi_sent (bs_mem b) @ bytes"
proof (induction bytes arbitrary: b rule: length_induct)
  case (1 bytes)
  show ?case
  proof (cases "bytes = []")
    case False
    obtain len b1 where S: "submit env base TRANSMIT (b\<lparr>bs_mem := stage ad (take CONSOLE_BUFFER bytes) (bs_mem b)\<rparr>) = Some (len, b1)"
      "console_up ad base b1" "wi_sent (bs_mem b1) = wi_sent (bs_mem b) @ take CONSOLE_BUFFER bytes"
      using chunk_sent [OF 1(2,3), of "take CONSOLE_BUFFER bytes"] by auto
    have "length (drop CONSOLE_BUFFER bytes) < length bytes" using False by (simp add: CONSOLE_BUFFER_def)
    then obtain b2 where "vcon_write env ad base (drop CONSOLE_BUFFER bytes) b1 = Some b2" "console_up ad base b2"
      "wi_sent (bs_mem b2) = wi_sent (bs_mem b1) @ drop CONSOLE_BUFFER bytes"
      using 1(1,2) S(2) by blast
    then show ?thesis using False S(1,3) by (subst vcon_write.simps) simp
  qed (use 1 in \<open>simp add: vcon_write.simps [of _ _ _ "[]"]\<close>)
qed

lemma text_sent:
  assumes dev: "serves_console env ad base"
  shows "console_up ad base b \<Longrightarrow>
    \<exists>b'. vcon_write_str env ad base bytes b = Some b' \<and> console_up ad base b' \<and> wi_sent (bs_mem b') = wi_sent (bs_mem b) @ with_cr bytes"
proof (induction bytes arbitrary: b)
  case (Cons byte bytes)
  obtain b1 where 1: "(if byte = LF then vcon_write env ad base [CR] b else Some b) = Some b1" "console_up ad base b1"
    "wi_sent (bs_mem b1) = wi_sent (bs_mem b) @ (if byte = LF then [CR] else [])"
    using write_sent [OF dev Cons.prems, of "[CR]"] Cons.prems by (cases "byte = LF") auto
  obtain b2 where 2: "vcon_write env ad base [byte] b1 = Some b2" "console_up ad base b2"
    "wi_sent (bs_mem b2) = wi_sent (bs_mem b1) @ [byte]"
    using write_sent [OF dev 1(2), of "[byte]"] by blast
  obtain b3 where "vcon_write_str env ad base bytes b2 = Some b3" "console_up ad base b3"
    "wi_sent (bs_mem b3) = wi_sent (bs_mem b2) @ with_cr bytes"
    using Cons.IH [OF 2(2)] by blast
  then show ?case using 1 2 by (auto simp: with_cr_def)
qed (simp add: with_cr_def)

section \<open>Properties\<close>

definition sent :: "terminal \<Rightarrow> wired bus \<Rightarrow> u8 list" where
  "sent t b = (case t of TermPl011 base \<Rightarrow> wire (base + PL_DR) (bs_log b) | TermVirtio base \<Rightarrow> wi_sent (bs_mem b))"

definition sends :: "wired env \<Rightarrow> console_addresses \<Rightarrow> terminal \<Rightarrow> wired bus \<Rightarrow> bool" where
  "sends env ad t b =
     (case t of TermPl011 base \<Rightarrow> makes_room env (base + PL_FR) (\<lambda>v. v AND FR_TXFF \<noteq> 0)
      | TermVirtio base \<Rightarrow> serves_console env ad base \<and> console_up ad base b)"

text \<open>C31: Text written to a terminal reaches the wire whole and in order with a carriage return before every newline, on a PL011 and on a
  virtio console alike, as long as the device has room in the end and takes the chunks it is given; the console is
  then fit for the next text. Raw bytes are not treated alike: the PL011 still puts carriage returns in, the virtio console
  sends the bytes as they are. So the echo of a return key, which the driver spells out as both, leaves a
  PL011 as two returns and a newline.\<close>

theorem terminal_text_delivered:
  assumes "sends env ad t b"
  shows "(\<exists>b'. terminal_write_str env ad t s b = Some b' \<and> sent t b' = sent t b @ with_cr s \<and> sends env ad t b') \<and>
    (\<exists>b'. terminal_write env ad t s b = Some b' \<and>
       sent t b' = sent t b @ (case t of TermPl011 base \<Rightarrow> with_cr s | TermVirtio base \<Rightarrow> s) \<and> sends env ad t b') \<and>
    with_cr (echo_of CR) = [CR, CR, LF]"
proof (cases t)
  case (TermPl011 base)
  then obtain ev where "pl_write env base s b = Some (b\<lparr>bs_log := bs_log b @ ev\<rparr>)" "wire (base + PL_DR) ev = with_cr s"
    using pl.send_all [of env base s b] assms by (auto simp: sends_def)
  then show ?thesis using assms TermPl011 by (auto simp: sends_def sent_def pl_write_str_def with_cr_def echo_of_def)
next
  case (TermVirtio base)
  then have dev: "serves_console env ad base" and up: "console_up ad base b" using assms by (simp_all add: sends_def)
  show ?thesis using text_sent [OF dev up, of s] write_sent [OF dev up, of s] dev TermVirtio
    by (auto simp: sends_def sent_def with_cr_def echo_of_def)
qed

definition sample_console :: console_addresses where
  "sample_console = \<lparr>ca_descriptors = 4096, ca_available = 8192, ca_used = 12288, ca_buffer = 16384\<rparr>"

definition sample_wired :: "wired bus" where
  "sample_wired = \<lparr>bs_log = queue_events 0 TRANSMIT (4096, 8192, 12288), bs_mem = console_rings.extend console_rings_new \<lparr>wi_sent = []\<rparr>\<rparr>"

lemma terminal_text_delivered_witness:
  "map_option (sent (TermVirtio 0)) (terminal_write_str (prompt_env (Wr (0 + REG_QUEUE_NOTIFY) TRANSMIT) (serve_console sample_console))
     sample_console (TermVirtio 0) [65, LF] sample_wired) = Some [65, CR, LF]"
proof -
  let ?env = "prompt_env (Wr (0 + REG_QUEUE_NOTIFY) TRANSMIT) (serve_console sample_console)"
  have "serves_console ?env sample_console 0" unfolding serves_console_def by (rule prompt_answers)
  moreover have "console_up sample_console 0 sample_wired"
    by (simp add: told_up_def sample_console_def sample_wired_def quiet_def console_rings_new_def rings_new_def
        rings.defs console_rings.defs)
  ultimately have "sends ?env sample_console (TermVirtio 0) sample_wired" by (simp add: sends_def)
  from terminal_text_delivered [OF this, of "[65, LF]"]
  obtain b' where "terminal_write_str ?env sample_console (TermVirtio 0) [65, LF] sample_wired = Some b'"
    "sent (TermVirtio 0) b' = sent (TermVirtio 0) sample_wired @ with_cr [65, LF]" by blast
  moreover have "sent (TermVirtio 0) sample_wired = []"
    by (simp add: sent_def sample_wired_def console_rings.defs)
  ultimately show ?thesis by (simp add: with_cr_def del: terminal_write_str.simps)
qed

lemma slot_fields:
  fixes b s c :: "64 word"
  shows "drop_bit 24 (push_bit 24 b OR push_bit 8 (s AND 0xffff) OR (c AND 0xff)) = take_bit 40 b"
    "drop_bit 8 (push_bit 24 b OR push_bit 8 (s AND 0xffff) OR (c AND 0xff)) AND 0xffff = take_bit 16 s"
    "(push_bit 24 b OR push_bit 8 (s AND 0xffff) OR (c AND 0xff)) AND 0xff = take_bit 8 c"
proof -
  have m: "(0xffff :: 64 word) = mask 16" "(0xff :: 64 word) = mask 8" by (simp_all add: mask_eq_exp_minus_1)
  show "drop_bit 24 (push_bit 24 b OR push_bit 8 (s AND 0xffff) OR (c AND 0xff)) = take_bit 40 b"
    "drop_bit 8 (push_bit 24 b OR push_bit 8 (s AND 0xffff) OR (c AND 0xff)) AND 0xffff = take_bit 16 s"
    "(push_bit 24 b OR push_bit 8 (s AND 0xffff) OR (c AND 0xff)) AND 0xff = take_bit 8 c"
    unfolding m by (rule bit_word_eqI; auto simp: bit_simps)+
qed

lemma unat_take: "k \<le> 64 \<Longrightarrow> unat (take_bit k (of_nat n :: 64 word)) = n mod 2 ^ k"
proof -
  assume "k \<le> 64"
  then have "take_bit k (take_bit 64 n) = take_bit k n" by (simp only: take_bit_take_bit min_absorb1)
  moreover have "unat (take_bit k (of_nat n :: 64 word)) = take_bit k (take_bit LENGTH(64) n)"
    by (simp only: unsigned_take_bit_eq unsigned_of_nat of_nat_id)
  ultimately show ?thesis by (simp add: take_bit_eq_mod)
qed

text \<open>C39: The word the slots are kept in gives back the base below 2^40, the size below 2^16 and the count below 2^8: what the
  kernel said is found again exactly when it fits these bounds; anything larger is cut without notice.\<close>

theorem slots_kept:
  "slots_of (set_slots base sz n) = (base mod 2 ^ 40, sz mod 2 ^ 16, n mod 2 ^ 8) \<and>
    (slots_of (set_slots base sz n) = (base, sz, n) \<longleftrightarrow> base < 2 ^ 40 \<and> sz < 2 ^ 16 \<and> n < 2 ^ 8)"
proof -
  have s: "slots_of (set_slots base sz n) = (base mod 2 ^ 40, sz mod 2 ^ 16, n mod 2 ^ 8)"
    by (simp only: slots_of_def set_slots_def slot_fields) (simp add: unat_take)
  have "k mod 2 ^ w = k \<longleftrightarrow> k < 2 ^ w" for k w :: nat by (simp add: mod_eq_self_iff_div_eq_0 div_eq_0_iff)
  then show ?thesis unfolding s prod.inject by blast
qed

end
