(* ===== verification/Elf.thy ===== *)
theory Elf
  imports Bytes
begin

text \<open>
  crates/mlos-elf: where an ELF64 file's sections land in memory, read from its section headers.
  The file's bytes are the argument; what reading the file itself may fail with is not modelled.
  An error names where the file ran out.
\<close>

datatype elf_error = NotAnElf | NotElf64 | Truncated nat | NamesOutOfRange | IndexOutOfRange

section \<open>Field reads (read.rs)\<close>

definition elf_field :: "nat \<Rightarrow> bytes \<Rightarrow> nat \<Rightarrow> elf_error + nat" where
  "elf_field n bs p =
     (case Option.bind (checked_add 64 p n) (\<lambda>e. get_range bs p e) of
        None \<Rightarrow> Inl (Truncated p)
      | Some v \<Rightarrow> Inr (le_value v))"

definition u16_at :: "bytes \<Rightarrow> nat \<Rightarrow> elf_error + nat" where "u16_at = elf_field 2"
definition u32_at :: "bytes \<Rightarrow> nat \<Rightarrow> elf_error + nat" where "u32_at = elf_field 4"
definition u64_at :: "bytes \<Rightarrow> nat \<Rightarrow> elf_error + nat" where "u64_at = elf_field 8"

section \<open>Sections (lib.rs)\<close>

text \<open>A section's name is the bytes before its terminator; how a name that is not UTF-8 is shown is
  the caller's.\<close>

record elf_section =
  es_name :: bytes
  es_addr :: nat
  es_size :: nat

fun then_ok :: "'e + 'a \<Rightarrow> ('a \<Rightarrow> 'e + 'b) \<Rightarrow> 'e + 'b" where
  "then_ok (Inl e) f = Inl e"
| "then_ok (Inr a) f = f a"

definition elf_table :: "bytes \<Rightarrow> elf_error + nat \<times> nat \<times> nat \<times> nat" where
  "elf_table bs =
     (case get_to bs 6 of
        None \<Rightarrow> Inl NotAnElf
      | Some head \<Rightarrow>
          if head \<noteq> [0x7f, 0x45, 0x4c, 0x46, 0x02, 0x01] then Inl NotElf64
          else then_ok (u64_at bs 0x28) (\<lambda>offset.
               then_ok (u16_at bs 0x3a) (\<lambda>stride.
               then_ok (u16_at bs 0x3c) (\<lambda>count.
               then_ok (u16_at bs 0x3e) (\<lambda>names. Inr (offset, stride, count, names))))))"

text \<open>One header's name offset, address, size and file offset.\<close>

definition elf_at :: "bytes \<Rightarrow> nat \<Rightarrow> nat \<Rightarrow> nat \<Rightarrow> elf_error + nat \<times> nat \<times> nat \<times> nat" where
  "elf_at bs offset stride index =
     (case checked_add 64 offset (sat_mul 64 index stride) of
        None \<Rightarrow> Inl IndexOutOfRange
      | Some base \<Rightarrow>
          then_ok (u32_at bs base) (\<lambda>name.
          then_ok (u64_at bs (wrap 64 (base + 0x10))) (\<lambda>addr.
          then_ok (u64_at bs (wrap 64 (base + 0x20))) (\<lambda>len.
          then_ok (u64_at bs (wrap 64 (base + 0x18))) (\<lambda>at. Inr (name, addr, len, at))))))"

definition elf_label :: "bytes \<Rightarrow> nat \<Rightarrow> bytes" where
  "elf_label txt p =
     (let rest = (case get_from txt p of Some r \<Rightarrow> r | None \<Rightarrow> []);
          e = (case position (\<lambda>b. b = 0) rest of Some n \<Rightarrow> n | None \<Rightarrow> length rest) in
      take e rest)"

fun collect_ok :: "('a \<Rightarrow> 'e + 'b) \<Rightarrow> 'a list \<Rightarrow> 'e + 'b list" where
  "collect_ok f [] = Inr []"
| "collect_ok f (x # xs) = then_ok (f x) (\<lambda>y. then_ok (collect_ok f xs) (\<lambda>ys. Inr (y # ys)))"

definition elf_sections :: "bytes \<Rightarrow> elf_error + elf_section list" where
  "elf_sections bs =
     then_ok (elf_table bs) (\<lambda>(offset, stride, count, names).
     then_ok (elf_at bs offset stride names) (\<lambda>(_, _, len, start).
       (case get_range bs start (sat_add 64 start len) of
          None \<Rightarrow> Inl NamesOutOfRange
        | Some txt \<Rightarrow>
            collect_ok (\<lambda>index.
              then_ok (elf_at bs offset stride index) (\<lambda>(name, addr, n, _).
                Inr \<lparr>es_name = elf_label txt name, es_addr = addr, es_size = n\<rparr>))
              [0..<count])))"

section \<open>No read past the end\<close>

lemma then_ok_Inr: "then_ok r f = Inr y \<longleftrightarrow> (\<exists>x. r = Inr x \<and> f x = Inr y)"
  by (cases r) auto

lemma collect_ok_Inr:
  "collect_ok f xs = Inr ys \<longleftrightarrow> length ys = length xs \<and> (\<forall>k < length xs. f (xs ! k) = Inr (ys ! k))"
proof (induction xs arbitrary: ys)
  case (Cons x xs)
  show ?case
  proof (cases ys)
    case (Cons y ys')
    then show ?thesis
      by (auto simp: then_ok_Inr Cons.IH nth_Cons split: nat.splits)
  qed (simp add: then_ok_Inr)
qed auto

lemma elf_field_Inr: "elf_field n bs p = Inr v \<longleftrightarrow> p + n \<le> umax 64 \<and> p + n \<le> length bs \<and> v = le_value (take n (drop p bs))"
  by (auto simp: elf_field_def checked_add_def get_range_def split: bind_splits if_splits)

lemma elf_table_Inr:
  "elf_table bs = Inr (offset, stride, count, names) \<Longrightarrow>
     take 6 bs = [0x7f, 0x45, 0x4c, 0x46, 0x02, 0x01] \<and> 0x40 \<le> length bs \<and>
     offset = le_value (take 8 (drop 0x28 bs)) \<and> stride = le_value (take 2 (drop 0x3a bs)) \<and>
     count = le_value (take 2 (drop 0x3c bs)) \<and> names = le_value (take 2 (drop 0x3e bs))"
  by (auto simp: elf_table_def get_to_def then_ok_Inr u16_at_def u64_at_def elf_field_Inr split: if_splits)

text \<open>A header that was read lies in the file, and its offsets did not wrap.\<close>

lemma elf_at_Inr:
  assumes "elf_at bs offset stride index = Inr (name, addr, len, start)" "length bs < 2 ^ 63"
  shows "offset + index * stride + 40 \<le> length bs"
    "name = le_value (take 4 (drop (offset + index * stride) bs))"
    "addr = le_value (take 8 (drop (offset + index * stride + 0x10) bs))"
    "len = le_value (take 8 (drop (offset + index * stride + 0x20) bs))"
    "start = le_value (take 8 (drop (offset + index * stride + 0x18) bs))"
proof -
  let ?m = "sat_mul 64 index stride"
  have c: "checked_add 64 offset ?m = Some (offset + ?m)" and nm: "u32_at bs (offset + ?m) = Inr name"
    using assms(1) by (auto simp: elf_at_def checked_add_def then_ok_Inr split: if_splits)
  have in_file: "offset + ?m + 4 \<le> length bs" using nm by (simp add: u32_at_def elf_field_Inr)
  then have m: "?m = index * stride" using assms(2) by (auto simp: sat_mul_def min_def split: if_splits)
  define b where "b = offset + index * stride"
  have w: "wrap 64 (b + k) = b + k" if "k \<le> 32" for k
    using that in_file m assms(2) by (intro wrap_exact) (simp add: b_def)
  have "then_ok (u32_at bs b) (\<lambda>name. then_ok (u64_at bs (b + 16)) (\<lambda>addr.
      then_ok (u64_at bs (b + 32)) (\<lambda>len. then_ok (u64_at bs (b + 24)) (\<lambda>at. Inr (name, addr, len, at))))) =
      Inr (name, addr, len, start)"
    using assms(1) w [of 16] w [of 32] w [of 24] unfolding elf_at_def c option.case unfolding m b_def [symmetric] by simp
  then have "b + 40 \<le> length bs \<and> name = le_value (take 4 (drop b bs)) \<and>
    addr = le_value (take 8 (drop (b + 16) bs)) \<and> len = le_value (take 8 (drop (b + 32) bs)) \<and>
    start = le_value (take 8 (drop (b + 24) bs))"
    unfolding then_ok_Inr u32_at_def u64_at_def elf_field_Inr by auto
  then show "offset + index * stride + 40 \<le> length bs"
    "name = le_value (take 4 (drop (offset + index * stride) bs))"
    "addr = le_value (take 8 (drop (offset + index * stride + 0x10) bs))"
    "len = le_value (take 8 (drop (offset + index * stride + 0x20) bs))"
    "start = le_value (take 8 (drop (offset + index * stride + 0x18) bs))" unfolding b_def by simp_all
qed

section \<open>Properties\<close>

text \<open>A little-endian field of the file.\<close>

definition field_at :: "nat \<Rightarrow> nat \<Rightarrow> bytes \<Rightarrow> nat" where
  "field_at p n bs = le_value (take n (drop p bs))"

text \<open>What is reported are the file's section headers: as many as the header counts, each
  wholly inside the file, with its address and size; a shorter file is an error.\<close>

theorem elf_sections_exact:
  assumes "elf_sections bs = Inr ss" "length bs < 2 ^ 63"
  shows "take 6 bs = [0x7f, 0x45, 0x4c, 0x46, 0x02, 0x01] \<and>
    length ss = field_at 0x3c 2 bs \<and>
    (\<forall>k < length ss. field_at 0x28 8 bs + k * field_at 0x3a 2 bs + 40 \<le> length bs \<and>
       es_addr (ss ! k) = field_at (field_at 0x28 8 bs + k * field_at 0x3a 2 bs + 0x10) 8 bs \<and>
       es_size (ss ! k) = field_at (field_at 0x28 8 bs + k * field_at 0x3a 2 bs + 0x20) 8 bs)"
proof -
  define offset stride where os: "offset = field_at 0x28 8 bs" "stride = field_at 0x3a 2 bs"
  obtain o' s' count names where t': "elf_table bs = Inr (o', s', count, names)"
    using assms(1) by (cases "elf_table bs") (auto simp: elf_sections_def)
  note T = elf_table_Inr [OF t']
  have t: "elf_table bs = Inr (offset, stride, count, names)" using t' T by (simp add: os field_at_def)
  have magic: "take 6 bs = [0x7f, 0x45, 0x4c, 0x46, 0x02, 0x01]" and n: "count = field_at 0x3c 2 bs"
    using T by (simp_all add: field_at_def)
  obtain table where c: "collect_ok (\<lambda>index.
      then_ok (elf_at bs offset stride index) (\<lambda>(name, addr, n, _).
        Inr \<lparr>es_name = elf_label table name, es_addr = addr, es_size = n\<rparr>)) [0..<count] = Inr ss"
    using assms(1) by (auto simp: elf_sections_def t then_ok_Inr split: option.splits)
  then have l: "length ss = count" unfolding collect_ok_Inr by simp
  have "offset + k * stride + 40 \<le> length bs \<and> es_addr (ss ! k) = field_at (offset + k * stride + 0x10) 8 bs \<and>
       es_size (ss ! k) = field_at (offset + k * stride + 0x20) 8 bs" if k: "k < length ss" for k
  proof -
    have e: "then_ok (elf_at bs offset stride k) (\<lambda>(name, addr, n, _).
        Inr \<lparr>es_name = elf_label table name, es_addr = addr, es_size = n\<rparr>) = Inr (ss ! k)"
      using c k l unfolding collect_ok_Inr by simp
    then obtain name addr len start where
      a: "elf_at bs offset stride k = Inr (name, addr, len, start)" "es_addr (ss ! k) = addr" "es_size (ss ! k) = len"
      using e [symmetric] by (cases "elf_at bs offset stride k") auto
    from elf_at_Inr [OF a(1) assms(2)] a(2,3) show ?thesis by (simp add: field_at_def)
  qed
  with magic n l show ?thesis unfolding os by blast
qed

definition sample_elf :: bytes where
  "sample_elf = [0x7f, 0x45, 0x4c, 0x46, 0x02, 0x01] @ replicate 34 0 @ [64] @ replicate 17 0 @
     [64, 0, 1, 0, 0, 0] @ replicate 16 0 @ [5] @ replicate 15 0 @ [3] @ replicate 7 0"

lemma elf_sections_exact_witness:
  "\<exists>s. elf_sections sample_elf = Inr [s] \<and> es_addr s = 5 \<and> es_size s = 3"
proof -
  have z: "be_value (replicate n 0) = 0" "be_value (replicate n 0 @ xs) = be_value xs" for n xs
    by (induction n) (simp_all add: be_value_Cons)
  have "\<exists>s. elf_sections sample_elf = Inr [s]"
    by (simp add: elf_sections_def elf_table_def elf_at_def get_to_def sample_elf_def u64_at_def u32_at_def u16_at_def
        elf_field_def checked_add_def sat_mul_def get_range_def sat_add_def wrap_def le_value_def be_value_Cons z)
  then obtain s where s: "elf_sections sample_elf = Inr [s]" by blast
  have "length sample_elf < 2 ^ 63" by (simp add: sample_elf_def)
  from elf_sections_exact [OF s this] have "es_addr s = 5 \<and> es_size s = 3"
    by (simp add: sample_elf_def field_at_def le_value_def be_value_Cons z)
  with s show ?thesis by blast
qed

end
