(* ===== verification/ImageMap.thy ===== *)
theory ImageMap
  imports Snapshot Elf Lab
begin

text \<open>
  crates/mlos-image-map: the layout document of the built artifacts, from the bytes of the kernel's ELF file and of
  the loader's image and the length of the disk file; and the lifting of a document, events and a trace off a
  captured console. Reading and writing the files, and asking git for the revision, are the host's. None is a panic: a sum
  past 64 bits, a boot stack that starts past the end of the image.
\<close>

datatype image_error =
  ShortImage
| ElfFailed elf_error
| FillFailed fill_error
| NoRegionId object_id
| NoClass object_id
| Rejected invalid
| BadEvents trace_error

fun map_err :: "('e \<Rightarrow> 'f) \<Rightarrow> 'e + 'a \<Rightarrow> 'f + 'a" where
  "map_err f (Inl e) = Inl (f e)"
| "map_err f (Inr a) = Inr a"

section \<open>Spaces (lib.rs)\<close>

definition RAM_BASE :: nat where "RAM_BASE = 0x40000000"
definition RAM_BYTES :: nat where "RAM_BYTES = 512 * 1048576"

definition image_space :: "space \<Rightarrow> string \<Rightarrow> nat \<Rightarrow> nat \<Rightarrow> lay_space" where
  "image_space place name unit cap =
     \<lparr>sp_key = space_key place, sp_name = name, sp_block = unit, sp_capacity = cap\<rparr>"

definition structural_ids :: "space \<Rightarrow> ids" where
  "structural_ids place = (\<lambda>k. Some (unat (structural_id place k)))"

text \<open>\<open>fill\<close> with the ids of a space from the \<open>k\<close>th on, and the space with what it left.\<close>

definition filled :: "space \<Rightarrow> lay_space \<Rightarrow> nat \<Rightarrow> lay_region list \<Rightarrow> image_error + lay_space \<times> lay_region list" where
  "filled place s k regions =
     (case fill (space_key place) (sp_capacity s) (structural_ids place) k regions of
        (Inl e, _) \<Rightarrow> Inl (FillFailed e)
      | (Inr _, out) \<Rightarrow> Inr (s, out))"

section \<open>The disk (objects.rs)\<close>

definition stored_region :: "object_id \<Rightarrow> object_meta \<Rightarrow> image_error + lay_region" where
  "stored_region i m =
     (case region_object SpaceDisk i of
        None \<Rightarrow> Inl (NoRegionId i)
      | Some r \<Rightarrow>
          (case object_class_of i of
             None \<Rightarrow> Inl (NoClass i)
           | Some c \<Rightarrow>
               Inr \<lparr>lr_id = unat r, lr_space = space_key SpaceDisk, lr_kind = class_kind c,
                    lr_name = ''layer '' @ decimal (unat (f_layer (object_fields i))) @ '' tile '' @
                      decimal (unat (f_tensor (object_fields i))),
                    lr_owner = ''model '' @ decimal (unat (f_model (object_fields i))),
                    lr_start = sector_of i * SECTOR, lr_length = m_size m, lr_tier = tier_name (m_tier m),
                    lr_object = decimal (unat i), lr_state = state_name m, lr_reuse = m_reuse_count m,
                    lr_cost = m_reload_cost m, lr_next_use = next_use_text (m_next_use m)\<rparr>))"

definition image_disk :: "nat \<Rightarrow> image_error + lay_space \<times> lay_region list" where
  "image_disk disk_len =
     then_ok (collect_ok (\<lambda>i. stored_region i weights) stored_ids)
       (filled SpaceDisk (image_space SpaceDisk ''virtio-blk model image'' SECTOR disk_len) 0)"

section \<open>Guest RAM and the arena (memory.rs)\<close>

definition PAGE :: nat where "PAGE = 4096"

definition SECTIONS :: "(string \<times> string) list" where
  "SECTIONS = [(''.text'', ''text''), (''.rodata'', ''rodata''), (''.data'', ''data''), (''.bss'', ''bss'')]"

definition structural_region :: "nat \<Rightarrow> string \<Rightarrow> string \<Rightarrow> nat \<Rightarrow> nat \<Rightarrow> lay_region" where
  "structural_region k kind name at len =
     \<lparr>lr_id = unat (structural_id SpaceSysram k), lr_space = space_key SpaceSysram, lr_kind = kind, lr_name = name,
      lr_owner = ''kernel'', lr_start = at, lr_length = len, lr_tier = [], lr_object = [], lr_state = ''fixed'',
      lr_reuse = 0, lr_cost = 0, lr_next_use = []\<rparr>"

definition image_header :: "bytes \<Rightarrow> image_error + nat \<times> nat" where
  "image_header bs =
     (case (get_range bs 8 16, get_range bs 16 24) of
        (Some offset, Some sz) \<Rightarrow> Inr (le_value offset, le_value sz)
      | _ \<Rightarrow> Inl ShortImage)"

definition section_kind :: "elf_section \<Rightarrow> (string \<times> string) option" where
  "section_kind s = find (\<lambda>(name, _). bytes_of name = es_name s) SECTIONS"

text \<open>The sections worth drawing: the next id, the end of the last one, the regions.\<close>

fun section_regions :: "elf_section list \<Rightarrow> nat \<Rightarrow> nat \<Rightarrow> lay_region list \<Rightarrow> (nat \<times> nat \<times> lay_region list) option" where
  "section_regions [] k e regions = Some (k, e, regions)"
| "section_regions (s # ss) k e regions =
     (case section_kind s of
        None \<Rightarrow> section_regions ss k e regions
      | Some (name, kind) \<Rightarrow>
          (let start = es_addr s - RAM_BASE in
           case checked_add 64 start (es_size s) of
             None \<Rightarrow> None
           | Some after \<Rightarrow>
               section_regions ss (k + 1) after (regions @ [structural_region k kind name start (es_size s)])))"

definition image_sysram :: "bytes \<Rightarrow> bytes \<Rightarrow> (image_error + lay_space \<times> lay_region list) option" where
  "image_sysram elf loaded =
     (case image_header loaded of
        Inl e \<Rightarrow> Some (Inl e)
      | Inr (offset, sz) \<Rightarrow>
          (case elf_sections elf of
             Inl e \<Rightarrow> Some (Inl (ElfFailed e))
           | Inr ss \<Rightarrow>
               (case section_regions ss 1 offset [structural_region 0 ''reserved'' ''loader reserve'' 0 offset] of
                  None \<Rightarrow> None
                | Some (k, e, regions) \<Rightarrow>
                    (let stack = next_multiple_of PAGE e in
                     case checked_add 64 offset sz of
                       None \<Rightarrow> None
                     | Some upper \<Rightarrow>
                         if 2 ^ 64 \<le> stack then None
                         else (case checked_sub upper stack of
                                 None \<Rightarrow> None
                               | Some len \<Rightarrow>
                                   Some (filled SpaceSysram (image_space SpaceSysram ''guest RAM'' PAGE RAM_BYTES) (k + 1)
                                     (regions @ [structural_region k ''stack'' ''boot stack'' stack len])))))))"

definition image_dram :: "image_error + lay_space \<times> lay_region list" where
  "image_dram = filled SpaceDram (image_space SpaceDram ''object arena'' ALIGN ARENA_BYTES) 0 []"

section \<open>The document (lib.rs)\<close>

definition image_document :: "nat \<Rightarrow> bytes \<Rightarrow> bytes \<Rightarrow> (image_error + doc) option" where
  "image_document disk_len elf loaded =
     (case image_disk disk_len of
        Inl e \<Rightarrow> Some (Inl e)
      | Inr (s1, r1) \<Rightarrow>
          (case image_dram of
             Inl e \<Rightarrow> Some (Inl e)
           | Inr (s2, r2) \<Rightarrow>
               (case image_sysram elf loaded of
                  None \<Rightarrow> None
                | Some (Inl e) \<Rightarrow> Some (Inl e)
                | Some (Inr (s3, r3)) \<Rightarrow>
                    Some (Inr \<lparr>dc_spaces = [s1, s2, s3], dc_regions = r1 @ r2 @ r3, dc_edges = []\<rparr>))))"

text \<open>\<open>emit\<close>, up to saving the text.\<close>

definition image_emit :: "string \<Rightarrow> nat \<Rightarrow> bytes \<Rightarrow> bytes \<Rightarrow> (image_error + string) option" where
  "image_emit revision disk_len elf loaded =
     (case image_document disk_len elf loaded of
        None \<Rightarrow> None
      | Some (Inl e) \<Rightarrow> Some (Inl e)
      | Some (Inr d) \<Rightarrow>
          (let t = doc_render d PRODUCER revision in
           case validate t of Some why \<Rightarrow> Some (Inl (Rejected why)) | None \<Rightarrow> Some (Inr t)))"

section \<open>A captured console (runtime.rs)\<close>

definition runtime_events :: "string \<Rightarrow> string" where
  "runtime_events console =
     join [newline] (List.map_filter (\<lambda>l. map_option trim_start (strip_prefix MARKER (trim_end l))) (text_lines console)) @ [newline]"

text \<open>\<open>Inl False\<close>: no layout was printed; \<open>Inl True\<close>: one that never ended.\<close>

definition runtime_extract :: "string \<Rightarrow> bool + string" where
  "runtime_extract console =
     (let ls = map trim_end (text_lines console) in
      case position (\<lambda>l. l = ''{'') ls of
        None \<Rightarrow> Inl False
      | Some p \<Rightarrow>
          (case position (\<lambda>l. l = ''}'') (drop p ls) of
             None \<Rightarrow> Inl True
           | Some n \<Rightarrow> Inr (join [newline] (take (n + 1) (drop p ls)) @ [newline])))"

definition SYNTH_MODEL :: string where "SYNTH_MODEL = ''synth-8x16''"
definition EVENTS_PATH :: string where "EVENTS_PATH = ''build/runtime-events.jsonl''"

definition runtime_trace :: "string \<Rightarrow> image_error + string" where
  "runtime_trace events =
     (case trace_from_events events (length (text_lines events)) of
        Inl e \<Rightarrow> Inl (BadEvents e)
      | Inr as \<Rightarrow> Inr (trace_render \<lparr>th_model = SYNTH_MODEL, th_source = EVENTS_PATH\<rparr> as))"

end
