(* ===== verification/ImageProps.thy ===== *)
theory ImageProps
  imports ImageMap SnapshotProofs
begin

text \<open>
  The document mlos-image-map emits is one its own validator accepts, and draws every tile and every section where it lies.
\<close>

section \<open>The ids a fill takes\<close>

definition id_at :: "ids \<Rightarrow> nat \<Rightarrow> nat" where "id_at ids k = (case ids k of Some i \<Rightarrow> i | None \<Rightarrow> 0)"

definition gaps_at :: "string \<Rightarrow> ids \<Rightarrow> nat \<Rightarrow> nat \<Rightarrow> lay_region list \<Rightarrow> bool" where
  "gaps_at space ids k k' gs \<longleftrightarrow>
     map lr_id gs = map (id_at ids) [k..<k'] \<and>
     (\<forall>g \<in> set gs. \<exists>j at len kind. kind \<in> {''padding'', ''free''} \<and> g = gap space ids j at len kind)"

lemma gaps_at_Nil: "gaps_at space ids k k []"
  by (simp add: gaps_at_def)

lemma gaps_at_Cons:
  assumes "gaps_at space ids (k + 1) k' gs" "kind \<in> {''padding'', ''free''}" "k + 1 \<le> k'"
  shows "gaps_at space ids k k' (gap space ids k at len kind # gs)"
proof -
  have "[k..<k'] = k # [k + 1..<k']" using assms(3) by (simp add: upt_conv_Cons)
  moreover have "lr_id (gap space ids k at len kind) = id_at ids k" by (simp add: gap_def id_at_def)
  ultimately show ?thesis using assms(1,2) by (auto simp: gaps_at_def)
qed

lemma gaps_at_snoc:
  assumes "gaps_at space ids k k' gs" "kind \<in> {''padding'', ''free''}" "k \<le> k'"
  shows "gaps_at space ids k (k' + 1) (gs @ [gap space ids k' at len kind])"
  using assms by (auto simp: gaps_at_def gap_def id_at_def)

lemma fill_loop_ids:
  "fill_loop space ids rs k at tiled = Inr (k', at', out) \<Longrightarrow>
     \<exists>gs. mset out = mset tiled + mset rs + mset gs \<and> gaps_at space ids k k' gs \<and> k \<le> k' \<and> k' \<le> k + length rs"
proof (induction rs arbitrary: k at tiled)
  case Nil
  then show ?case using gaps_at_Nil by auto
next
  case (Cons r rs)
  let ?after = "sat_add 64 (lr_start r) (lr_length r)"
  show ?case
  proof (cases "at < lr_start r")
    case True
    let ?g = "gap space ids k at (lr_start r - at) ''padding''"
    have "fill_loop space ids rs (k + 1) ?after (tiled @ [?g, r]) = Inr (k', at', out)"
      using Cons.prems True by (simp add: overlap_def Let_def split: if_splits)
    from Cons.IH [OF this] obtain gs where gs: "mset out = mset (tiled @ [?g, r]) + mset rs + mset gs"
      "gaps_at space ids (k + 1) k' gs" "k + 1 \<le> k'" "k' \<le> k + 1 + length rs" by blast
    then show ?thesis using gaps_at_Cons [OF gs(2) _ gs(3), of "''padding''" at "lr_start r - at"]
      by (intro exI [of _ "?g # gs"]) simp
  next
    case False
    then have "fill_loop space ids rs k ?after (tiled @ [r]) = Inr (k', at', out)"
      using Cons.prems by (simp add: overlap_def Let_def split: if_splits)
    from Cons.IH [OF this] show ?thesis by fastforce
  qed
qed

lemma fill_ids:
  assumes "fill space cap ids k rs = (Inr (), out)"
  shows "\<exists>gs k'. mset out = mset rs + mset gs \<and> gaps_at space ids k k' gs \<and> k \<le> k' \<and> k' \<le> k + length rs + 1"
proof -
  obtain k1 at tiled where run: "fill_loop space ids (sort_key lr_start rs) k 0 [] = Inr (k1, at, tiled)"
    and out: "out = tiled @ (if at < cap then [gap space ids k1 at (cap - at) ''free''] else [])"
    using assms by (auto simp: fill_def fill_tail_def split: sum.splits if_splits)
  from fill_loop_ids [OF run] obtain gs where
    gs: "mset tiled = mset rs + mset gs" "gaps_at space ids k k1 gs" "k \<le> k1" "k1 \<le> k + length rs" by auto
  show ?thesis
  proof (cases "at < cap")
    case True
    then show ?thesis using gs gaps_at_snoc [OF gs(2) _ gs(3), of "''free''" at "cap - at"]
      by (intro exI [of _ "gs @ [gap space ids k1 at (cap - at) ''free'']"] exI [of _ "k1 + 1"]) (simp add: out)
  next
    case False
    then show ?thesis using gs out by (intro exI [of _ gs] exI [of _ k1]) simp
  qed
qed

section \<open>One filled space\<close>

lemma chain_within: "chain_from at rs e \<Longrightarrow> \<forall>r \<in> set rs. lr_start r + lr_length r \<le> e"
proof -
  have "chain_from at rs e \<Longrightarrow> at \<le> e \<and> (\<forall>r \<in> set rs. lr_start r + lr_length r \<le> e)"
    by (induction rs arbitrary: at) fastforce+
  then show "chain_from at rs e \<Longrightarrow> \<forall>r \<in> set rs. lr_start r + lr_length r \<le> e" by blast
qed

definition region_ok :: "lay_region \<Rightarrow> bool" where
  "region_ok r \<longleftrightarrow> (\<forall>c \<in> set REGION_TEXT. text_ok (snd c r)) \<and> lr_id r < 2 ^ 32"

lemma fixed_texts: "text_ok ''padding''" "text_ok ''free''" "text_ok ''fixed''" "text_ok '' at 0x''" "text_ok []"
  by (simp_all add: text_ok_def plain_text_def)

lemma gap_ok: "kind \<in> {''padding'', ''free''} \<Longrightarrow> region_ok (gap (space_key w) (structural_ids v) k at len kind)"
proof -
  assume "kind \<in> {''padding'', ''free''}"
  then have "text_ok kind" "text_ok (kind @ '' at 0x'' @ hex at)"
    using fixed_texts text_ok_alnum [OF hex_alnum, of at] by (auto simp: text_ok_append simp del: append_Cons append_Nil)
  moreover have "unat (structural_id v k) < 2 ^ 32" using unsigned_less [of "structural_id v k", where ?'a = nat] by simp
  ultimately show ?thesis
    using fixed_texts space_key_ok [of w]
    by (simp add: region_ok_def REGION_TEXT_def gap_def structural_ids_def del: space_key.simps append_Cons)
qed

text \<open>What a space that was filled is: it tiles, its texts and numbers are good, and its ids are those of the given regions
  and a run of structural ones.\<close>

lemma filled_space_ok:
  assumes run: "filled place s k rs = Inr (s', out)" and key: "sp_key s = space_key place"
    and fits: "\<forall>r \<in> set rs. lr_start r + lr_length r < 2 ^ 64"
    and rs: "\<forall>r \<in> set rs. region_ok r \<and> lr_space r = space_key place"
  shows "s' = s" "chain_from 0 out (sp_capacity s)" "\<forall>r \<in> set out. region_ok r \<and> lr_space r = space_key place"
    "\<exists>k'. mset (map lr_id out) = mset (map lr_id rs @ map (\<lambda>j. unat (structural_id place j)) [k..<k']) \<and> k' \<le> k + length rs + 1"
    "set rs \<subseteq> set out"
proof -
  have f: "fill (space_key place) (sp_capacity s) (structural_ids place) k rs = (Inr (), out)" and s': "s' = s"
    using run by (auto simp: filled_def split: prod.splits sum.splits)
  show "s' = s" by (rule s')
  show "chain_from 0 out (sp_capacity s)" by (rule fill_ok(1) [OF fits f])
  from fill_ids [OF f] obtain gs k' where
    gs: "mset out = mset rs + mset gs" "gaps_at (space_key place) (structural_ids place) k k' gs" "k' \<le> k + length rs + 1" by blast
  have mem: "set out = set rs \<union> set gs" using gs(1) by (metis set_mset_mset set_mset_union)
  then show "set rs \<subseteq> set out" by blast
  have "region_ok g \<and> lr_space g = space_key place" if "g \<in> set gs" for g
    using that gs(2) gap_ok unfolding gaps_at_def by (metis gap_simps(3))
  with rs mem show "\<forall>r \<in> set out. region_ok r \<and> lr_space r = space_key place" by blast
  have "mset (map lr_id out) = mset (map lr_id rs) + mset (map lr_id gs)" by (simp add: gs(1))
  moreover have "map lr_id gs = map (\<lambda>j. unat (structural_id place j)) [k..<k']"
    using gs(2) by (simp add: gaps_at_def id_at_def structural_ids_def)
  ultimately show "\<exists>k'. mset (map lr_id out) = mset (map lr_id rs @ map (\<lambda>j. unat (structural_id place j)) [k..<k']) \<and> k' \<le> k + length rs + 1"
    using gs(3) by auto
qed

section \<open>The three spaces\<close>

lemma unat_structural: "k < 2 ^ 24 \<Longrightarrow> unat (structural_id w k) = unat (space_u32 w) * 2 ^ 28 + k"
  by (cases w) (simp_all add: structural_id_def unat_word_ariths unat_of_nat)

lemma structural_inject:
  "unat (structural_id v j) = unat (structural_id w k) \<Longrightarrow> j < 2 ^ 24 \<Longrightarrow> k < 2 ^ 24 \<Longrightarrow> v = w \<and> j = k"
  by (simp add: unat_structural) (cases v; cases w; simp)

lemma collect_all: "collect_ok f xs = Inr ys \<Longrightarrow> y \<in> set ys \<Longrightarrow> \<exists>x \<in> set xs. f x = Inr y"
proof -
  assume "collect_ok f xs = Inr ys" "y \<in> set ys"
  then obtain k where "k < length xs" "f (xs ! k) = Inr y" unfolding collect_ok_Inr by (metis in_set_conv_nth)
  then show ?thesis using nth_mem by blast
qed

lemma stored_at: "i \<in> set stored_ids \<Longrightarrow> sector_of i * SECTOR + TILE_BYTES \<le> LAYERS * TILES * TILE_BYTES"
proof -
  assume "i \<in> set stored_ids"
  then obtain l t where lt: "l < LAYERS" "t < TILES" and i: "i = tile (of_nat l) (of_nat t)"
    by (auto simp: stored_ids_def)
  have u: "unat (of_nat l :: u16) = l" "unat (of_nat t :: u16) = t"
    using lt by (simp_all add: LAYERS_def TILES_def unat_of_nat)
  have at: "sector_of i * SECTOR = (l * TILES + t) * TILE_BYTES" unfolding i tile_offset u by (rule refl)
  have "(l * TILES + t + 1) * TILE_BYTES \<le> LAYERS * TILES * TILE_BYTES"
    using lt by (intro mult_le_mono1) (simp add: LAYERS_def TILES_def)
  then show ?thesis by (simp add: at)
qed

lemma stored_region_ok:
  assumes "stored_region i weights = Inr r" "i \<in> set stored_ids"
  shows "region_ok r \<and> lr_space r = space_key SpaceDisk" "lr_start r + lr_length r < 2 ^ 64"
    "\<exists>n. region_object SpaceDisk i = Some n \<and> lr_id r = unat n" "lr_object r = decimal (unat i)" "lr_start r = sector_of i * SECTOR"
proof -
  obtain n c where r: "region_object SpaceDisk i = Some n" "lr_id r = unat n" "lr_space r = space_key SpaceDisk"
    "lr_kind r = class_kind c"
    "lr_name r = ''layer '' @ decimal (unat (f_layer (object_fields i))) @ '' tile '' @ decimal (unat (f_tensor (object_fields i)))"
    "lr_owner r = ''model '' @ decimal (unat (f_model (object_fields i)))" "lr_start r = sector_of i * SECTOR" "lr_length r = TILE_BYTES"
    "lr_tier r = tier_name (m_tier weights)" "lr_object r = decimal (unat i)" "lr_state r = state_name weights"
    "lr_next_use r = next_use_text (m_next_use weights)"
    using assms(1) by (auto simp: stored_region_def weights_def split: option.splits simp del: space_key.simps)
  have "text_ok ''layer ''" "text_ok '' tile ''" "text_ok ''model ''" by (simp_all add: text_ok_def plain_text_def)
  moreover have "unat n < 2 ^ 32" using unsigned_less [of n, where ?'a = nat] by simp
  ultimately show "region_ok r \<and> lr_space r = space_key SpaceDisk"
    using r space_key_ok [of SpaceDisk] words_ok text_ok_decimal
    by (simp add: region_ok_def REGION_TEXT_def text_ok_append del: space_key.simps append_Cons append_Nil)
  show "lr_start r + lr_length r < 2 ^ 64"
    using stored_at [OF assms(2)] r(7,8) by (simp add: LAYERS_def TILES_def TILE_BYTES_def)
  show "\<exists>n. region_object SpaceDisk i = Some n \<and> lr_id r = unat n" "lr_object r = decimal (unat i)" "lr_start r = sector_of i * SECTOR"
    using r by blast+
qed

definition object_ids :: "lay_region list \<Rightarrow> bool" where
  "object_ids rs \<longleftrightarrow> distinct (map lr_id rs) \<and> (\<forall>r \<in> set rs. \<exists>i n. region_object SpaceDisk i = Some n \<and> lr_id r = unat n)"

lemma disk_space_ok:
  assumes run: "image_disk disk_len = Inr (s, out)"
  shows "sp_key s = ''disk'' \<and> sp_name s = ''virtio-blk model image'' \<and> sp_capacity s = disk_len"
    "chain_from 0 out disk_len" "\<forall>r \<in> set out. region_ok r \<and> lr_space r = ''disk''"
    "\<exists>rs k. object_ids rs \<and> k < 2 ^ 24 \<and> mset (map lr_id out) = mset (map lr_id rs @ map (\<lambda>j. unat (structural_id SpaceDisk j)) [0..<k])"
    "\<forall>i \<in> set stored_ids. \<exists>r \<in> set out. lr_object r = decimal (unat i) \<and> lr_start r = sector_of i * SECTOR"
proof -
  let ?s = "image_space SpaceDisk ''virtio-blk model image'' SECTOR disk_len"
  obtain rs where c: "collect_ok (\<lambda>i. stored_region i weights) stored_ids = Inr rs" and f: "filled SpaceDisk ?s 0 rs = Inr (s, out)"
    using run by (auto simp: image_disk_def then_ok_Inr)
  have each: "\<exists>i \<in> set stored_ids. stored_region i weights = Inr r" if "r \<in> set rs" for r using collect_all [OF c that] .
  have fits: "\<forall>r \<in> set rs. lr_start r + lr_length r < 2 ^ 64" and rs: "\<forall>r \<in> set rs. region_ok r \<and> lr_space r = space_key SpaceDisk"
    using each stored_region_ok by blast+
  have key: "sp_key ?s = space_key SpaceDisk" by (simp add: image_space_def)
  note F = filled_space_ok [OF f key fits rs]
  show "sp_key s = ''disk'' \<and> sp_name s = ''virtio-blk model image'' \<and> sp_capacity s = disk_len"
    using F(1) by (simp add: image_space_def)
  show "chain_from 0 out disk_len" "\<forall>r \<in> set out. region_ok r \<and> lr_space r = ''disk''"
    using F(2,3) by (simp_all add: image_space_def)
  have len: "length rs = length stored_ids" using c by (simp add: collect_ok_Inr)
  have nth: "stored_region (stored_ids ! k) weights = Inr (rs ! k)" if "k < length rs" for k
    using c that len by (simp add: collect_ok_Inr)
  have "distinct (map lr_id rs)"
  proof (rule distinct_conv_nth [THEN iffD2], intro allI impI)
    fix a b assume ab: "a < length (map lr_id rs)" "b < length (map lr_id rs)" "a \<noteq> b"
    then have lt: "a < length stored_ids" "b < length stored_ids" "a < length rs" "b < length rs" using len by simp_all
    obtain m where m: "region_object SpaceDisk (stored_ids ! a) = Some m" "lr_id (rs ! a) = unat m"
      using stored_region_ok(3) [OF nth [OF lt(3)] nth_mem [OF lt(1)]] by blast
    obtain n where n: "region_object SpaceDisk (stored_ids ! b) = Some n" "lr_id (rs ! b) = unat n"
      using stored_region_ok(3) [OF nth [OF lt(4)] nth_mem [OF lt(2)]] by blast
    show "map lr_id rs ! a \<noteq> map lr_id rs ! b"
    proof
      assume "map lr_id rs ! a = map lr_id rs ! b"
      then have "unat m = unat n" using m(2) n(2) lt by simp
      then have "m = n" by (simp add: word_unat_eq_iff)
      then have "stored_ids ! a = stored_ids ! b" using region_ids_inject m(1) n(1) by blast
      then show False using stored_ids_distinct ab(3) lt(1,2) by (simp add: nth_eq_iff_index_eq)
    qed
  qed
  moreover have "\<forall>r \<in> set rs. \<exists>i n. region_object SpaceDisk i = Some n \<and> lr_id r = unat n" using each stored_region_ok(3) by blast
  ultimately have "object_ids rs" by (simp add: object_ids_def)
  moreover have "length rs + 1 < 2 ^ 24" by (simp add: len stored_ids_list LAYERS_def TILES_def)
  ultimately show "\<exists>rs k. object_ids rs \<and> k < 2 ^ 24 \<and> mset (map lr_id out) = mset (map lr_id rs @ map (\<lambda>j. unat (structural_id SpaceDisk j)) [0..<k])"
    using F(4) by (metis add_0 le_less_trans)
  show "\<forall>i \<in> set stored_ids. \<exists>r \<in> set out. lr_object r = decimal (unat i) \<and> lr_start r = sector_of i * SECTOR"
  proof
    fix i assume i: "i \<in> set stored_ids"
    then obtain k where k: "k < length rs" "stored_ids ! k = i" using len by (metis in_set_conv_nth)
    have in_out: "rs ! k \<in> set out" using F(5) nth_mem [OF k(1)] by blast
    have run_k: "stored_region i weights = Inr (rs ! k)" using nth [OF k(1)] unfolding k(2) .
    show "\<exists>r \<in> set out. lr_object r = decimal (unat i) \<and> lr_start r = sector_of i * SECTOR"
      by (rule bexI [OF _ in_out]) (rule conjI [OF stored_region_ok(4,5) [OF run_k i]])
  qed
qed

lemma dram_space_ok:
  assumes run: "image_dram = Inr (s, out)"
  shows "sp_key s = ''dram'' \<and> sp_name s = ''object arena'' \<and> sp_capacity s = ARENA_BYTES"
    "chain_from 0 out ARENA_BYTES" "\<forall>r \<in> set out. region_ok r \<and> lr_space r = ''dram''"
    "\<exists>k. k < 2 ^ 24 \<and> mset (map lr_id out) = mset (map (\<lambda>j. unat (structural_id SpaceDram j)) [0..<k])"
proof -
  let ?s = "image_space SpaceDram ''object arena'' ALIGN ARENA_BYTES"
  have f: "filled SpaceDram ?s 0 [] = Inr (s, out)" using run by (simp add: image_dram_def)
  have key: "sp_key ?s = space_key SpaceDram" by (simp add: image_space_def)
  have none: "\<forall>r \<in> set []. lr_start r + lr_length r < 2 ^ 64" "\<forall>r \<in> set []. region_ok r \<and> lr_space r = space_key SpaceDram" by simp_all
  note F = filled_space_ok [OF f key none]
  show "sp_key s = ''dram'' \<and> sp_name s = ''object arena'' \<and> sp_capacity s = ARENA_BYTES"
    "chain_from 0 out ARENA_BYTES" "\<forall>r \<in> set out. region_ok r \<and> lr_space r = ''dram''"
    using F(1-3) by (simp_all add: image_space_def)
  from F(4) obtain k where "mset (map lr_id out) = mset (map (\<lambda>j. unat (structural_id SpaceDram j)) [0..<k])" "k \<le> 1" by auto
  then show "\<exists>k. k < 2 ^ 24 \<and> mset (map lr_id out) = mset (map (\<lambda>j. unat (structural_id SpaceDram j)) [0..<k])"
    by (intro exI [of _ k]) simp
qed

lemma le_value_less: "le_value bs < 2 ^ (8 * length bs)"
  using be_value_less [of "rev bs"] by (simp add: le_value_def power_mult)

lemma range_value_less: "get_range bs p (p + 8) = Some v \<Longrightarrow> le_value v < 2 ^ 64"
  using get_range_length [of bs p "p + 8" v] le_value_less [of v] by simp

lemma header_less: "image_header bs = Inr (offset, sz) \<Longrightarrow> offset < 2 ^ 64 \<and> sz < 2 ^ 64"
  using range_value_less [of bs 8] range_value_less [of bs 16] by (auto simp: image_header_def split: option.splits)

definition sys_region :: "nat \<Rightarrow> lay_region \<Rightarrow> bool" where
  "sys_region k r \<longleftrightarrow> (\<exists>kind name at len. text_ok kind \<and> text_ok name \<and> at + len < 2 ^ 64 \<and> r = structural_region k kind name at len)"

lemma sys_region_ok:
  "sys_region k r \<Longrightarrow> region_ok r \<and> lr_space r = space_key SpaceSysram \<and> lr_start r + lr_length r < 2 ^ 64 \<and> lr_id r = unat (structural_id SpaceSysram k)"
proof -
  assume "sys_region k r"
  then obtain kind name at len where "text_ok kind" "text_ok name" "at + len < 2 ^ 64" "r = structural_region k kind name at len"
    by (auto simp: sys_region_def)
  moreover have "text_ok ''kernel''" by (simp add: text_ok_def plain_text_def)
  moreover have "unat (structural_id SpaceSysram k) < 2 ^ 32" using unsigned_less [of "structural_id SpaceSysram k", where ?'a = nat] by simp
  ultimately show ?thesis
    using fixed_texts space_key_ok [of SpaceSysram] by (simp add: region_ok_def REGION_TEXT_def structural_region_def del: space_key.simps)
qed

definition sys_regions :: "lay_region list \<Rightarrow> bool" where
  "sys_regions rs \<longleftrightarrow> (\<forall>j < length rs. sys_region j (rs ! j))"

lemma sys_regions_snoc: "sys_regions rs \<Longrightarrow> sys_region (length rs) r \<Longrightarrow> sys_regions (rs @ [r])"
  by (auto simp: sys_regions_def nth_append less_Suc_eq)

lemma section_kind_ok: "section_kind s = Some (name, kind) \<Longrightarrow> text_ok name \<and> text_ok kind \<and> bytes_of name = es_name s"
proof -
  assume "section_kind s = Some (name, kind)"
  then have "(name, kind) \<in> set SECTIONS" "bytes_of name = es_name s"
    by (auto simp: section_kind_def find_Some_iff) (metis nth_mem)
  moreover have "\<forall>(n, k) \<in> set SECTIONS. text_ok n \<and> text_ok k" by (simp add: SECTIONS_def text_ok_def plain_text_def)
  ultimately show ?thesis by auto
qed

text \<open>The section's region, when it is drawn.\<close>

definition drawn :: "lay_region list \<Rightarrow> elf_section \<Rightarrow> bool" where
  "drawn rs s \<longleftrightarrow> (\<exists>r \<in> set rs. bytes_of (lr_name r) = es_name s \<and> lr_start r = es_addr s - RAM_BASE \<and> lr_length r = es_size s)"

lemma section_regions_ok:
  assumes "section_regions ss k e regions = Some (k', e', out)" "sys_regions regions" "k = length regions" "e < 2 ^ 64"
  shows "sys_regions out \<and> k' = length out \<and> e' < 2 ^ 64 \<and> length out \<le> length regions + length ss \<and> set regions \<subseteq> set out \<and>
    (\<forall>s \<in> set ss. section_kind s \<noteq> None \<longrightarrow> drawn out s)"
  using assms
proof (induction ss arbitrary: k e regions)
  case (Cons s ss)
  show ?case
  proof (cases "section_kind s")
    case None
    with Cons show ?thesis by fastforce
  next
    case (Some p)
    obtain name kind where p: "p = (name, kind)" by (cases p)
    let ?start = "es_addr s - RAM_BASE"
    let ?r = "structural_region k kind name ?start (es_size s)"
    obtain after where after: "checked_add 64 ?start (es_size s) = Some after"
      and run: "section_regions ss (k + 1) after (regions @ [?r]) = Some (k', e', out)"
      using Cons.prems(1) Some p by (auto simp: Let_def split: option.splits)
    have fit: "?start + es_size s < 2 ^ 64" "after = ?start + es_size s" using after by (auto simp: checked_add_def split: if_splits)
    have "sys_region k ?r" using section_kind_ok Some p fit unfolding sys_region_def by blast
    then have "sys_regions (regions @ [?r])" using sys_regions_snoc Cons.prems(2,3) by simp
    from Cons.IH [OF run this] Cons.prems(3) fit have IH: "sys_regions out" "k' = length out" "e' < 2 ^ 64"
      "length out \<le> length regions + 1 + length ss" "set (regions @ [?r]) \<subseteq> set out" "\<forall>s \<in> set ss. section_kind s \<noteq> None \<longrightarrow> drawn out s"
      by simp_all
    have "?r \<in> set out" using IH(5) by simp
    moreover have "bytes_of (lr_name ?r) = es_name s" "lr_start ?r = ?start" "lr_length ?r = es_size s"
      using section_kind_ok [of s name kind] Some p by (simp_all add: structural_region_def)
    ultimately have "drawn out s" unfolding drawn_def by blast
    with IH show ?thesis by simp
  qed
qed simp

lemma elf_count: "elf_sections bs = Inr ss \<Longrightarrow> length ss < 65536"
proof -
  assume ok: "elf_sections bs = Inr ss"
  then obtain t where t: "elf_table bs = Inr t" by (cases "elf_table bs") (auto simp: elf_sections_def)
  obtain offset stride count names where t4: "t = (offset, stride, count, names)" by (cases t)
  have "length ss = count"
    using ok t t4 by (auto simp: elf_sections_def then_ok_Inr collect_ok_Inr split: option.splits)
  moreover have "count < 65536"
    using elf_table_Inr [OF t [unfolded t4]] le_value_less [of "take 2 (drop 0x3c bs)"]
      power_increasing [of "8 * length (take 2 (drop 0x3c bs))" 16 "2 :: nat"] by simp
  ultimately show ?thesis by simp
qed

lemma sysram_space_ok:
  assumes run: "image_sysram elf loaded = Some (Inr (s, out))"
  shows "sp_key s = ''sysram'' \<and> sp_name s = ''guest RAM'' \<and> sp_capacity s = RAM_BYTES"
    "chain_from 0 out RAM_BYTES" "\<forall>r \<in> set out. region_ok r \<and> lr_space r = ''sysram''"
    "\<exists>k. k < 2 ^ 24 \<and> mset (map lr_id out) = mset (map (\<lambda>j. unat (structural_id SpaceSysram j)) [0..<k])"
    "\<exists>ss. elf_sections elf = Inr ss \<and> (\<forall>x \<in> set ss. section_kind x \<noteq> None \<longrightarrow> drawn out x)"
proof -
  let ?s = "image_space SpaceSysram ''guest RAM'' PAGE RAM_BYTES"
  obtain offset sz where h: "image_header loaded = Inr (offset, sz)"
    using run by (auto simp: image_sysram_def split: sum.splits)
  obtain ss where ss: "elf_sections elf = Inr ss"
    using run h by (auto simp: image_sysram_def split: sum.splits)
  let ?first = "structural_region 0 ''reserved'' ''loader reserve'' 0 offset"
  obtain k e regions upper len where
    loop: "section_regions ss 1 offset [?first] = Some (k, e, regions)"
    and upper: "checked_add 64 offset sz = Some upper" and len: "checked_sub upper (next_multiple_of PAGE e) = Some len"
    and f: "filled SpaceSysram ?s (k + 1) (regions @ [structural_region k ''stack'' ''boot stack'' (next_multiple_of PAGE e) len]) = Inr (s, out)"
    using run h ss by (auto simp: image_sysram_def Let_def split: option.splits if_splits)
  let ?stack = "structural_region k ''stack'' ''boot stack'' (next_multiple_of PAGE e) len"
  let ?rs = "regions @ [?stack]"
  have words: "text_ok ''reserved''" "text_ok ''loader reserve''" "text_ok ''stack''" "text_ok ''boot stack''"
    by (simp_all add: text_ok_def plain_text_def)
  have "0 + offset < 2 ^ 64" using header_less [OF h] by simp
  then have "sys_region 0 ?first" using words unfolding sys_region_def by blast
  then have "sys_regions [?first]" by (simp add: sys_regions_def)
  from section_regions_ok [OF loop this] header_less [OF h] have R: "sys_regions regions" "k = length regions"
    "length regions \<le> 1 + length ss" "\<forall>x \<in> set ss. section_kind x \<noteq> None \<longrightarrow> drawn regions x" by simp_all
  have "next_multiple_of PAGE e + len < 2 ^ 64" using upper len by (auto simp: checked_add_def checked_sub_def split: if_splits)
  then have "sys_region k ?stack" using words unfolding sys_region_def by blast
  with R(1,2) have S: "sys_regions ?rs" by (simp add: sys_regions_snoc)
  have each: "region_ok r \<and> lr_space r = space_key SpaceSysram \<and> lr_start r + lr_length r < 2 ^ 64" if "r \<in> set ?rs" for r
  proof -
    obtain j where "j < length ?rs" "?rs ! j = r" using \<open>r \<in> set ?rs\<close> by (metis in_set_conv_nth)
    then have "sys_region j r" using S by (auto simp: sys_regions_def)
    then show ?thesis using sys_region_ok by blast
  qed
  have key: "sp_key ?s = space_key SpaceSysram" by (simp add: image_space_def)
  have fits: "\<forall>r \<in> set ?rs. lr_start r + lr_length r < 2 ^ 64" and rs: "\<forall>r \<in> set ?rs. region_ok r \<and> lr_space r = space_key SpaceSysram"
    using each by blast+
  note F = filled_space_ok [OF f key fits rs]
  show "sp_key s = ''sysram'' \<and> sp_name s = ''guest RAM'' \<and> sp_capacity s = RAM_BYTES"
    "chain_from 0 out RAM_BYTES" "\<forall>r \<in> set out. region_ok r \<and> lr_space r = ''sysram''"
    using F(1-3) by (simp_all add: image_space_def)
  have ids: "map lr_id ?rs = map (\<lambda>j. unat (structural_id SpaceSysram j)) [0..<k + 1]"
  proof (rule nth_equalityI)
    fix i assume "i < length (map lr_id ?rs)"
    then have i: "i < length ?rs" "i < k + 1" using R(2) by simp_all
    then have "lr_id (?rs ! i) = unat (structural_id SpaceSysram i)" using S sys_region_ok unfolding sys_regions_def by blast
    moreover have "map lr_id ?rs ! i = lr_id (?rs ! i)" using i(1) by (rule nth_map)
    moreover have "[0..<k + 1] ! i = i" "i < length [0..<k + 1]" using i(2) by (simp_all del: upt_Suc)
    ultimately show "map lr_id ?rs ! i = map (\<lambda>j. unat (structural_id SpaceSysram j)) [0..<k + 1] ! i"
      by (simp only: nth_map)
  qed (use R(2) in simp)
  from F(4) obtain k' where k': "mset (map lr_id out) = mset (map lr_id ?rs @ map (\<lambda>j. unat (structural_id SpaceSysram j)) [k + 1..<k'])"
    "k' \<le> k + 1 + length ?rs + 1" by blast
  show "\<exists>k. k < 2 ^ 24 \<and> mset (map lr_id out) = mset (map (\<lambda>j. unat (structural_id SpaceSysram j)) [0..<k])"
  proof (cases "k + 1 \<le> k'")
    case True
    then have "[0..<k'] = [0..<k + 1] @ [k + 1..<k']" using upt_add_eq_append [of 0 "k + 1" "k' - (k + 1)"] by simp
    then have "mset (map lr_id out) = mset (map (\<lambda>j. unat (structural_id SpaceSysram j)) [0..<k'])"
      using k'(1) unfolding ids by simp
    moreover have "k' < 2 ^ 24" using k'(2) R(2,3) elf_count [OF ss] by simp
    ultimately show ?thesis by blast
  next
    case False
    then have "mset (map lr_id out) = mset (map (\<lambda>j. unat (structural_id SpaceSysram j)) [0..<k + 1])"
      using k'(1) unfolding ids by simp
    moreover have "k + 1 < 2 ^ 24" using R(2,3) elf_count [OF ss] by simp
    ultimately show ?thesis by blast
  qed
  have "drawn out x" if "drawn regions x" for x using that F(5) unfolding drawn_def by auto
  then show "\<exists>ss. elf_sections elf = Inr ss \<and> (\<forall>x \<in> set ss. section_kind x \<noteq> None \<longrightarrow> drawn out x)" using ss R(4) by blast
qed

section \<open>The document\<close>

lemma runs_distinct:
  assumes "k < 2 ^ 24"
  shows "distinct (map (\<lambda>j. unat (structural_id w j)) [0..<k])"
  using assms structural_inject by (auto simp: distinct_map inj_on_def)

lemma image_ids:
  assumes "object_ids rs" "a < 2 ^ 24" "b < 2 ^ 24" "c < 2 ^ 24"
  shows "distinct (map lr_id rs @ map (\<lambda>j. unat (structural_id SpaceDisk j)) [0..<a] @
      map (\<lambda>j. unat (structural_id SpaceDram j)) [0..<b] @ map (\<lambda>j. unat (structural_id SpaceSysram j)) [0..<c])"
    "0 \<notin> set (map lr_id rs @ map (\<lambda>j. unat (structural_id SpaceDisk j)) [0..<a] @
      map (\<lambda>j. unat (structural_id SpaceDram j)) [0..<b] @ map (\<lambda>j. unat (structural_id SpaceSysram j)) [0..<c])"
proof -
  have apart: "unat (structural_id v j) \<noteq> unat (structural_id w k)" if "v \<noteq> w" "j < 2 ^ 24" "k < 2 ^ 24" for v w j k
    using structural_inject [of v j w k] that by blast
  have obj: "unat (structural_id v j) \<noteq> lr_id r" if "r \<in> set rs" "j < 2 ^ 24" for v j r
  proof -
    obtain i n where "region_object SpaceDisk i = Some n" "lr_id r = unat n" using assms(1) \<open>r \<in> set rs\<close> by (auto simp: object_ids_def)
    then show ?thesis using structural_not_object [of SpaceDisk i n j v] that(2) by (simp add: word_unat_eq_iff)
  qed
  let ?S = "\<lambda>w k. (\<lambda>j. unat (structural_id w j)) ` {0..<k}"
  have "lr_id ` set rs \<inter> ?S w k = {}" if "k \<le> 2 ^ 24" for w k
  proof -
    have "lr_id r \<noteq> unat (structural_id w j)" if "r \<in> set rs" "j < k" for r j
      using obj [OF that(1), of j w] that(2) \<open>k \<le> 2 ^ 24\<close> by (metis less_le_trans)
    then show ?thesis by auto
  qed
  moreover have "?S v j \<inter> ?S w k = {}" if "v \<noteq> w" "j \<le> 2 ^ 24" "k \<le> 2 ^ 24" for v w j k
  proof -
    have "unat (structural_id v m) \<noteq> unat (structural_id w n)" if "m < j" "n < k" for m n
      using apart [OF \<open>v \<noteq> w\<close>, of m n] that \<open>j \<le> 2 ^ 24\<close> \<open>k \<le> 2 ^ 24\<close> by (metis less_le_trans)
    then show ?thesis by auto
  qed
  moreover have "distinct (map lr_id rs)" using assms(1) by (simp add: object_ids_def)
  ultimately show "distinct (map lr_id rs @ map (\<lambda>j. unat (structural_id SpaceDisk j)) [0..<a] @
      map (\<lambda>j. unat (structural_id SpaceDram j)) [0..<b] @ map (\<lambda>j. unat (structural_id SpaceSysram j)) [0..<c])"
    using assms runs_distinct by (simp add: Int_Un_distrib)
  have "lr_id r \<noteq> 0" if r: "r \<in> set rs" for r
  proof -
    obtain i n where "region_object SpaceDisk i = Some n" "lr_id r = unat n" using assms(1) r by (auto simp: object_ids_def)
    then show ?thesis using region_id_nonzero [of SpaceDisk i n] by (simp add: unat_eq_zero)
  qed
  then have O: "0 \<notin> lr_id ` set rs" by fastforce
  have S0: "0 \<notin> (\<lambda>j. unat (structural_id w j)) ` set [0..<k]" if "k < 2 ^ 24" for w k
  proof
    assume "0 \<in> (\<lambda>j. unat (structural_id w j)) ` set [0..<k]"
    then obtain j where "j < k" "unat (structural_id w j) = 0" by auto
    then show False using unat_structural [of j w] \<open>k < 2 ^ 24\<close> by (cases w) simp_all
  qed
  show "0 \<notin> set (map lr_id rs @ map (\<lambda>j. unat (structural_id SpaceDisk j)) [0..<a] @
      map (\<lambda>j. unat (structural_id SpaceDram j)) [0..<b] @ map (\<lambda>j. unat (structural_id SpaceSysram j)) [0..<c])"
    unfolding set_append set_map Un_iff using O S0 [OF assms(2)] S0 [OF assms(3)] S0 [OF assms(4)] by blast
qed

text \<open>C36: a document the host assembles from the disk's length, the kernel's ELF file and the loader's image is one its own
  validator accepts, so emitting fails only where assembling does: in each space the regions tile it from zero to its
  capacity, no id is zero or taken twice, and the text reads back. Every tile of the model is in it where the disk provider reads
  it, and every section worth drawing of the ELF file where the linker put it, with its size.\<close>

theorem image_layout_valid:
  assumes built: "image_document disk_len elf loaded = Some (Inr d)" and len: "disk_len < 2 ^ 64" and rev: "label_ok revision"
  shows "image_emit revision disk_len elf loaded = Some (Inr (doc_render d PRODUCER revision)) \<and>
    validate (doc_render d PRODUCER revision) = None \<and>
    (\<forall>i \<in> set stored_ids. \<exists>r \<in> set (dc_regions d). lr_object r = decimal (unat i) \<and> lr_start r = sector_of i * SECTOR) \<and>
    (\<exists>ss. elf_sections elf = Inr ss \<and> (\<forall>s \<in> set ss. section_kind s \<noteq> None \<longrightarrow> drawn (dc_regions d) s))"
proof -
  obtain s1 r1 s2 r2 s3 r3 where parts: "image_disk disk_len = Inr (s1, r1)" "image_dram = Inr (s2, r2)"
    "image_sysram elf loaded = Some (Inr (s3, r3))"
    and d: "d = \<lparr>dc_spaces = [s1, s2, s3], dc_regions = r1 @ r2 @ r3, dc_edges = []\<rparr>"
    using built by (auto simp: image_document_def split: sum.splits option.splits)
  note D = disk_space_ok [OF parts(1)] and A = dram_space_ok [OF parts(2)] and S = sysram_space_ok [OF parts(3)]
  have each: "region_ok r" if "r \<in> set (dc_regions d)" for r using that D(3) A(3) S(3) by (auto simp: d)
  have caps: "ARENA_BYTES < 2 ^ 64" "RAM_BYTES < 2 ^ 64" by (simp_all add: ARENA_BYTES_def RAM_BYTES_def)
  have within: "lr_start r + lr_length r < 2 ^ 64" if "r \<in> set (dc_regions d)" for r
    using that chain_within [OF D(2)] chain_within [OF A(2)] chain_within [OF S(2)] len caps unfolding d by fastforce
  have names: "text_ok ''disk''" "text_ok ''dram''" "text_ok ''sysram''" "text_ok ''virtio-blk model image''" "text_ok ''object arena''"
    "text_ok ''guest RAM''" by (simp_all add: text_ok_def plain_text_def)
  have texts: "texts_ok d"
    using each names D(1) A(1) S(1) by (simp add: texts_ok_def region_ok_def SPACE_TEXT_def d)
  have nums: "numbers_ok d"
    using each within D(1) A(1) S(1) len caps by (simp add: numbers_ok_def region_ok_def d)
  have refs: "refs_ok d"
  proof -
    obtain rs a b c where ids: "object_ids rs" "a < 2 ^ 24" "b < 2 ^ 24" "c < 2 ^ 24"
      "mset (map lr_id r1) = mset (map lr_id rs @ map (\<lambda>j. unat (structural_id SpaceDisk j)) [0..<a])"
      "mset (map lr_id r2) = mset (map (\<lambda>j. unat (structural_id SpaceDram j)) [0..<b])"
      "mset (map lr_id r3) = mset (map (\<lambda>j. unat (structural_id SpaceSysram j)) [0..<c])"
      using D(4) A(4) S(4) by blast
    let ?all = "map lr_id rs @ map (\<lambda>j. unat (structural_id SpaceDisk j)) [0..<a] @
      map (\<lambda>j. unat (structural_id SpaceDram j)) [0..<b] @ map (\<lambda>j. unat (structural_id SpaceSysram j)) [0..<c]"
    have same: "mset (map lr_id (dc_regions d)) = mset ?all" using ids(5-7) by (simp add: d)
    have "distinct (map lr_id (dc_regions d))" using mset_eq_imp_distinct_iff [OF same] image_ids(1) [OF ids(1-4)] by blast
    moreover have "0 \<notin> lr_id ` set (dc_regions d)"
      using mset_eq_setD [OF same] image_ids(2) [OF ids(1-4)] by (metis set_map)
    ultimately show ?thesis by (simp add: refs_ok_def d)
  qed
  have tiles: "tiles_ok d"
  proof -
    have "filter (\<lambda>r. lr_space r = ''disk'') (dc_regions d) = r1" "filter (\<lambda>r. lr_space r = ''dram'') (dc_regions d) = r2"
      "filter (\<lambda>r. lr_space r = ''sysram'') (dc_regions d) = r3"
      using D(3) A(3) S(3) by (simp_all add: d filter_id_conv filter_empty_conv)
    then have "of_space d ''disk'' = r1" "of_space d ''dram'' = r2" "of_space d ''sysram'' = r3"
      using chain_extents [OF D(2)] chain_extents [OF A(2)] chain_extents [OF S(2)]
      by (simp_all add: of_space_def sort_key_id_if_sorted)
    then show ?thesis using D(1,2) A(1,2) S(1,2) by (simp add: tiles_ok_def d)
  qed
  have "label_ok PRODUCER" by (simp add: PRODUCER_def label_ok_def plain_text_def)
  then have ok: "validate (doc_render d PRODUCER revision) = None"
    using doc_refs [OF nums] doc_tiles [OF nums texts] refs tiles
    by (simp add: validate_def doc_has_schema doc_read_back [OF texts _ rev] check_columns_def doc_present doc_aligned)
  have drawn_in: "drawn (dc_regions d) s" if "drawn r3 s" for s using that by (auto simp: drawn_def d)
  show ?thesis
  proof (intro conjI)
    show "image_emit revision disk_len elf loaded = Some (Inr (doc_render d PRODUCER revision))"
      using built ok by (simp add: image_emit_def Let_def)
    show "validate (doc_render d PRODUCER revision) = None" by (rule ok)
    show "\<forall>i \<in> set stored_ids. \<exists>r \<in> set (dc_regions d). lr_object r = decimal (unat i) \<and> lr_start r = sector_of i * SECTOR"
      using D(5) by (auto simp: d)
    show "\<exists>ss. elf_sections elf = Inr ss \<and> (\<forall>s \<in> set ss. section_kind s \<noteq> None \<longrightarrow> drawn (dc_regions d) s)"
      using S(5) drawn_in by blast
  qed
qed

section \<open>When it is assembled\<close>

lemma stored_regions_all:
  "\<exists>f. collect_ok (\<lambda>i. stored_region i weights) stored_ids = Inr (map f [0..<LAYERS * TILES]) \<and>
     (\<forall>k < LAYERS * TILES. lr_start (f k) = k * TILE_BYTES \<and> lr_length (f k) = TILE_BYTES)"
proof -
  have one: "\<exists>r. stored_region (nth_tile k) weights = Inr r \<and> lr_start r = k * TILE_BYTES \<and> lr_length r = TILE_BYTES"
    if k: "k < LAYERS * TILES" for k
  proof -
    have mem: "nth_tile k \<in> set placed_ids" using k stored_sub by (auto simp: stored_ids_list)
    obtain n c where nc: "region_object SpaceDisk (nth_tile k) = Some n" "object_class_of (nth_tile k) = Some c"
      using placed_named [OF mem, of SpaceDisk] by metis
    have "k div TILES < 65536" "k mod TILES < 65536" using k by (simp_all add: LAYERS_def TILES_def)
    then have "sector_of (nth_tile k) * SECTOR = k * TILE_BYTES" unfolding nth_tile_def tile_offset by (simp add: unat_of_nat)
    then show ?thesis using nc by (simp add: stored_region_def weights_def)
  qed
  define f where "f k = projr (stored_region (nth_tile k) weights)" for k
  have f: "stored_region (nth_tile k) weights = Inr (f k)" if "k < LAYERS * TILES" for k
    using one [OF that] by (auto simp: f_def)
  have "collect_ok (\<lambda>i. stored_region i weights) stored_ids = Inr (map f [0..<LAYERS * TILES])"
    unfolding collect_ok_Inr stored_ids_list using f by simp
  moreover have "lr_start (f k) = k * TILE_BYTES \<and> lr_length (f k) = TILE_BYTES" if "k < LAYERS * TILES" for k
    using one [OF that] f [OF that] by simp
  ultimately show ?thesis by blast
qed

text \<open>The disk's space is assembled exactly when its file holds the whole model.\<close>

lemma image_disk_fits: "(\<exists>x. image_disk disk_len = Inr x) \<longleftrightarrow> LAYERS * TILES * TILE_BYTES \<le> disk_len"
proof -
  let ?N = "LAYERS * TILES"
  obtain f where f: "collect_ok (\<lambda>i. stored_region i weights) stored_ids = Inr (map f [0..<?N])"
    "\<forall>k < ?N. lr_start (f k) = k * TILE_BYTES \<and> lr_length (f k) = TILE_BYTES" using stored_regions_all by blast
  let ?rs = "map f [0..<?N]"
  have "sorted (map (\<lambda>k. k * TILE_BYTES) [0..<?N])"
    by (auto simp: sorted_iff_nth_mono intro!: mult_le_mono1)
  moreover have starts: "map lr_start ?rs = map (\<lambda>k. k * TILE_BYTES) [0..<?N]" using f(2) by simp
  ultimately have sorted: "sort_key lr_start ?rs = ?rs" by (intro sort_key_id_if_sorted) (simp only: starts)
  have apart: "apart ?rs"
  proof -
    have "k * TILE_BYTES + TILE_BYTES \<le> j * TILE_BYTES" if "k < j" for k j
      using that mult_le_mono1 [of "Suc k" j TILE_BYTES] by simp
    then show ?thesis using f(2) by (auto simp: apart_def sorted_wrt_iff_nth_less)
  qed
  have fits: "\<forall>r \<in> set ?rs. lr_start r + lr_length r < 2 ^ 64"
    using f(2) by (auto simp: LAYERS_def TILES_def TILE_BYTES_def)
  have ends: "ends_below disk_len ?rs \<longleftrightarrow> ?N * TILE_BYTES \<le> disk_len"
  proof
    assume e: "ends_below disk_len ?rs"
    have "f (?N - 1) \<in> set ?rs" "lr_start (f (?N - 1)) + lr_length (f (?N - 1)) = ?N * TILE_BYTES"
      using f(2) by (simp_all add: LAYERS_def TILES_def TILE_BYTES_def)
    with e show "?N * TILE_BYTES \<le> disk_len" unfolding ends_below_def by metis
  next
    assume le: "?N * TILE_BYTES \<le> disk_len"
    have "k * TILE_BYTES + TILE_BYTES \<le> ?N * TILE_BYTES" if "k < ?N" for k
      using that mult_le_mono1 [of "Suc k" ?N TILE_BYTES] by simp
    with f(2) le show "ends_below disk_len ?rs" by (fastforce simp: ends_below_def)
  qed
  obtain res out where run: "fill ''disk'' disk_len (structural_ids SpaceDisk) 0 ?rs = (res, out)" by fastforce
  have "image_disk disk_len = (case res of Inl e \<Rightarrow> Inl (FillFailed e) | Inr _ \<Rightarrow> Inr (image_space SpaceDisk ''virtio-blk model image'' SECTOR disk_len, out))"
    using run by (simp add: image_disk_def f(1) filled_def image_space_def split: sum.splits)
  then show ?thesis
    using fill_tiles [OF fits run] unfolding sorted ends by (auto split: sum.splits if_splits simp: apart)
qed

lemma elf_sections_sample: "\<exists>s. elf_sections sample_elf = Inr [s] \<and> section_kind s = None"
proof -
  have z: "be_value (replicate n 0) = 0" "be_value (replicate n 0 @ xs) = be_value xs" for n xs
    by (induction n) (simp_all add: be_value_Cons)
  show ?thesis
    by (simp add: elf_sections_def elf_table_def elf_at_def get_to_def sample_elf_def u64_at_def u32_at_def u16_at_def
        elf_field_def checked_add_def sat_mul_def get_range_def sat_add_def wrap_def le_value_def be_value_Cons z
        section_kind_def SECTIONS_def bytes_of_def elf_label_def get_from_def)
qed

lemma image_layout_valid_witness:
  "\<exists>d. image_document (LAYERS * TILES * TILE_BYTES) sample_elf (replicate 24 0) = Some (Inr d) \<and>
     validate (doc_render d PRODUCER ''r1'') = None"
proof -
  obtain s1 r1 where disk: "image_disk (LAYERS * TILES * TILE_BYTES) = Inr (s1, r1)"
    using image_disk_fits [of "LAYERS * TILES * TILE_BYTES"] by auto
  have dram: "\<exists>x. image_dram = Inr x"
    by (simp add: image_dram_def filled_def fill_def fill_tail_def image_space_def)
  have z: "be_value (replicate n 0) = 0" "be_value (replicate n 0 @ xs) = be_value xs" for n xs
    by (induction n) (simp_all add: be_value_Cons)
  obtain s where s: "elf_sections sample_elf = Inr [s]" "section_kind s = None" using elf_sections_sample by blast
  have sys: "\<exists>x. image_sysram sample_elf (replicate 24 0) = Some (Inr x)"
    using s
    by (simp add: image_sysram_def image_header_def get_range_def le_value_def z checked_add_def checked_sub_def
        structural_region_def filled_def fill_def fill_tail_def overlap_def image_space_def sat_add_def RAM_BYTES_def Let_def)
  obtain s2 r2 s3 r3 where parts: "image_dram = Inr (s2, r2)" "image_sysram sample_elf (replicate 24 0) = Some (Inr (s3, r3))"
    using dram sys by (metis prod.exhaust)
  let ?d = "\<lparr>dc_spaces = [s1, s2, s3], dc_regions = r1 @ r2 @ r3, dc_edges = []\<rparr>"
  have d: "image_document (LAYERS * TILES * TILE_BYTES) sample_elf (replicate 24 0) = Some (Inr ?d)"
    unfolding image_document_def disk parts sum.case prod.case option.case ..
  have "LAYERS * TILES * TILE_BYTES < 2 ^ 64" by (simp add: LAYERS_def TILES_def TILE_BYTES_def)
  moreover have "label_ok ''r1''" by (simp add: label_ok_def plain_text_def)
  ultimately show ?thesis using image_layout_valid [OF d] d by blast
qed

end
