(* ===== verification/Captured.thy ===== *)
theory Captured
  imports ImageMap SnapshotProps
begin

text \<open>
  What mlos-image-map lifts off a captured console: the layout document and the events the shell printed, whatever else is on
  the console, with the carriage returns the console's driver put before newlines.
\<close>

section \<open>Lines of a console\<close>

text \<open>What reaches the wire of a text: a carriage return before every newline.\<close>

definition on_wire :: "string \<Rightarrow> string" where
  "on_wire s = concat (map (\<lambda>c. if c = newline then [carriage, newline] else [c]) s)"

lemma on_wire_append [simp]: "on_wire (s @ t) = on_wire s @ on_wire t" "on_wire [] = []"
  by (simp_all add: on_wire_def)

lemma on_wire_line: "newline \<notin> set l \<Longrightarrow> on_wire l = l"
  by (induction l) (auto simp: on_wire_def)

definition whole_lines :: "string \<Rightarrow> bool" where "whole_lines s \<longleftrightarrow> s = [] \<or> last s = newline"

lemma lines_from_newline: "lines_from cur (s @ newline # t) = lines_from cur (s @ [newline]) @ lines_from [] t"
  by (induction s arbitrary: cur) simp_all

lemma text_lines_append: "whole_lines s \<Longrightarrow> text_lines (s @ t) = text_lines s @ text_lines t"
proof (cases s rule: rev_cases)
  case (snoc ys y)
  assume "whole_lines s"
  then show ?thesis using snoc lines_from_newline [of "[]" ys t] by (simp add: text_lines_def whole_lines_def)
qed (simp add: text_lines_def)

lemma is_space_ends: "is_space carriage" "is_space newline"
  by (simp_all add: is_space_def carriage_def newline_def)

lemma trim_end_snoc: "is_space c \<Longrightarrow> trim_end (s @ [c]) = trim_end s"
  by (simp add: trim_end_def)

lemma trim_end_carriage: "trim_end (strip_carriage l) = trim_end l"
proof (cases l rule: rev_cases)
  case (snoc ys y)
  then show ?thesis using trim_end_snoc [of carriage ys] is_space_ends(1) by (auto simp: strip_carriage_def)
qed (simp add: strip_carriage_def)

lemma trim_snoc: "is_space c \<Longrightarrow> trim (s @ [c]) = trim s"
proof (cases "\<forall>x \<in> set s. is_space x")
  case True
  assume "is_space c"
  then have "dropWhile is_space (s @ [c]) = []" "dropWhile is_space s = []" using True by simp_all
  then show ?thesis by (simp only: trim_def trim_start_def)
next
  case False
  assume c: "is_space c"
  have "dropWhile is_space (s @ [c]) = dropWhile is_space s @ [c]" using False by (auto intro: dropWhile_append1)
  then show ?thesis using trim_end_snoc [OF c] by (simp add: trim_def trim_start_def)
qed

lemma trim_trim_end: "trim (trim_end l) = trim l"
proof (induction l rule: rev_induct)
  case (snoc c l)
  show ?case
  proof (cases "is_space c")
    case True
    then show ?thesis using snoc by (simp add: trim_end_snoc trim_snoc)
  next
    case False
    then have "trim_end (l @ [c]) = l @ [c]" by (simp add: trim_end_def)
    then show ?thesis by simp
  qed
qed (simp add: trim_end_def)

lemma trim_end_head: "trim_end l \<noteq> [] \<Longrightarrow> hd (trim_end l) = hd l"
proof (induction l rule: rev_induct)
  case (snoc c l)
  show ?case
  proof (cases "is_space c")
    case True
    then have t: "trim_end (l @ [c]) = trim_end l" by (rule trim_end_snoc)
    then have "trim_end l \<noteq> []" using snoc.prems by simp
    moreover from this have "l \<noteq> []" by (auto simp: trim_end_def)
    ultimately show ?thesis using snoc.IH t by simp
  next
    case False
    then show ?thesis by (simp add: trim_end_def)
  qed
qed (simp add: trim_end_def)

lemma trim_end_members: "set (trim_end l) \<subseteq> set l"
  using set_dropWhileD [of _ is_space "rev l"] by (auto simp: trim_end_def)

lemma trim_end_strip: "strip_carriage (trim_end l) = trim_end l"
proof -
  have "\<not> is_space (last (trim_end l))" if "trim_end l \<noteq> []"
    using that hd_dropWhile [of is_space "rev l"] by (simp add: trim_end_def last_rev)
  then show ?thesis using is_space_ends(1) by (auto simp: strip_carriage_def)
qed

lemma read_column_end: "read_column (trim_end l) = read_column l"
  by (simp add: read_column_def trim_trim_end)

text \<open>The lines of what the wire carried of lines that end in a carriage return and a newline, or a newline alone, trimmed.\<close>

lemma wire_lines:
  assumes "\<forall>l \<in> set ls. newline \<notin> set l"
  shows "map trim_end (text_lines (on_wire (concat (map (\<lambda>l. l @ crlf) ls)) @ rest)) = map trim_end ls @ map trim_end (text_lines rest)"
  using assms
proof (induction ls)
  case (Cons l ls)
  have "on_wire crlf = [carriage, carriage, newline]" by (simp add: on_wire_def crlf_def carriage_def newline_def)
  then have "on_wire (concat (map (\<lambda>l. l @ crlf) (l # ls))) @ rest =
      (l @ [carriage, carriage]) @ newline # (on_wire (concat (map (\<lambda>l. l @ crlf) ls)) @ rest)"
    using Cons.prems by (simp add: on_wire_line)
  moreover have "newline \<notin> set (l @ [carriage, carriage])" using Cons.prems by (simp add: carriage_def newline_def)
  then have "text_lines ((l @ [carriage, carriage]) @ newline # t) = strip_carriage (l @ [carriage, carriage]) # text_lines t" for t
    by (rule text_lines_line)
  moreover have "trim_end (strip_carriage (l @ [carriage, carriage])) = trim_end l"
    using trim_end_snoc [OF is_space_ends(1), of l] trim_end_snoc [OF is_space_ends(1), of "l @ [carriage]"]
    by (simp add: trim_end_carriage)
  ultimately show ?case using Cons by (simp only: list.map) simp
qed simp

lemma wire_whole: "ls \<noteq> [] \<Longrightarrow> whole_lines (on_wire (concat (map (\<lambda>l. l @ crlf) ls)))"
  by (cases ls rule: rev_cases) (simp_all add: whole_lines_def crlf_def on_wire_def)

section \<open>The lines of a snapshot\<close>

definition snap_line :: "string \<times> string list \<Rightarrow> string" where "snap_line c = open_column c @ '',''"

definition snapshot_mid :: "manager \<Rightarrow> string \<Rightarrow> string list" where
  "snapshot_mid M revision =
     (let rows = manager_rows M in
      ['' '' @ '' '' @ [CHR 0x22] @ ''schema'' @ [CHR 0x22] @ '': '' @ [CHR 0x22] @ SCHEMA @ [CHR 0x22] @ '','',
       '' '' @ '' '' @ [CHR 0x22] @ ''version'' @ [CHR 0x22] @ '': '' @ decimal LAYOUT_VERSION @ '','', []] @
      map snap_line (snap_spaces (LAYERS * TILES * TILE_BYTES) (oc_capacity (arena_occupancy (mg_arena M)))) @ [[]] @
      map snap_line (snap_contract rows) @ map snap_line (snap_extras rows) @ [[]] @ map snap_line (snap_edges rows) @
      [[], '' '' @ '' '' @ [CHR 0x22] @ ''provenance'' @ [CHR 0x22] @ '': { '' @ [CHR 0x22] @ ''producer'' @ [CHR 0x22] @ '': '' @
        [CHR 0x22] @ PRODUCER @ [CHR 0x22] @ '', '' @ [CHR 0x22] @ ''revision'' @ [CHR 0x22] @ '': '' @ [CHR 0x22] @ revision @
        [CHR 0x22] @ '' }''])"

definition crlf_lines :: "string list \<Rightarrow> string" where "crlf_lines ls = concat (map (\<lambda>l. l @ crlf) ls)"

lemma crlf_lines_simps [simp]:
  "crlf_lines [] = []" "crlf_lines (l # ls) = l @ crlf @ crlf_lines ls" "crlf_lines (xs @ ys) = crlf_lines xs @ crlf_lines ys"
  by (simp_all add: crlf_lines_def)

lemma crlf_columns: "concat (map snap_column cs) = crlf_lines (map snap_line cs)"
  by (induction cs) (simp_all add: snap_line_def snap_column_def open_column_def)

lemma snapshot_lines: "snapshot_of M r = crlf_lines ([''{''] @ snapshot_mid M r @ [''}''])"
  by (simp add: snapshot_of_def snapshot_mid_def snapshot_head_def snapshot_foot_def crlf_columns Let_def)

definition indented :: "string \<Rightarrow> bool" where "indented l \<longleftrightarrow> newline \<notin> set l \<and> (l = [] \<or> hd l = CHR '' '')"

lemma mid_indented:
  assumes "label_ok r"
  shows "\<forall>l \<in> set (snapshot_mid M r). indented l"
proof -
  have "indented (snap_line c)" if "col_ok c" for c
    using open_column_newline [OF that] by (simp add: indented_def snap_line_def open_column_def) (simp add: newline_def)
  moreover have "\<forall>c \<in> set (snap_columns (LAYERS * TILES * TILE_BYTES) (oc_capacity (arena_occupancy (mg_arena M))) (manager_rows M)). col_ok c"
    by (rule snap_cols_ok [OF rows_ok])
  ultimately have cols: "\<forall>l \<in> set (map snap_line (snap_columns (LAYERS * TILES * TILE_BYTES) (oc_capacity (arena_occupancy (mg_arena M))) (manager_rows M))). indented l"
    by simp
  have r: "newline \<notin> set r" using assms plain_text_no by (simp add: label_ok_def)
  have one: "decimal LAYOUT_VERSION = ''1''" unfolding LAYOUT_VERSION_def by (subst decimal.simps) (simp add: digit_char_def char_of_def bit_0)
  have labels: "indented ('' '' @ '' '' @ [CHR 0x22] @ ''schema'' @ [CHR 0x22] @ '': '' @ [CHR 0x22] @ SCHEMA @ [CHR 0x22] @ '','')"
    "indented ('' '' @ '' '' @ [CHR 0x22] @ ''version'' @ [CHR 0x22] @ '': '' @ decimal LAYOUT_VERSION @ '','')" "indented []"
    "indented ('' '' @ '' '' @ [CHR 0x22] @ ''provenance'' @ [CHR 0x22] @ '': { '' @ [CHR 0x22] @ ''producer'' @ [CHR 0x22] @ '': '' @
        [CHR 0x22] @ PRODUCER @ [CHR 0x22] @ '', '' @ [CHR 0x22] @ ''revision'' @ [CHR 0x22] @ '': '' @ [CHR 0x22] @ r @
        [CHR 0x22] @ '' }'')"
    unfolding one using r by (simp_all add: indented_def SCHEMA_def PRODUCER_def newline_def)
  show ?thesis
    using cols labels by (simp only: snapshot_mid_def Let_def snap_columns_def map_append set_append ball_Un list.set ball_simps) blast
qed

lemma indented_end:
  assumes "indented l"
  shows "trim_end l \<noteq> ''{''" "trim_end l \<noteq> ''}''" "strip_prefix MARKER (trim_end l) = None"
proof -
  have h: "trim_end l = [] \<or> hd (trim_end l) = CHR '' ''" using assms trim_end_head [of l] by (cases "l = []") (auto simp: indented_def trim_end_def)
  then show "trim_end l \<noteq> ''{''" "trim_end l \<noteq> ''}''" by auto
  show "strip_prefix MARKER (trim_end l) = None" using h by (cases "trim_end l") (auto simp: MARKER_def)
qed

section \<open>The document\<close>

definition nl_lines :: "string list \<Rightarrow> string" where "nl_lines ls = concat (map (\<lambda>l. l @ [newline]) ls)"

lemma nl_lines_simps [simp]:
  "nl_lines [] = []" "nl_lines (l # ls) = l @ newline # nl_lines ls" "nl_lines (xs @ ys) = nl_lines xs @ nl_lines ys"
  by (simp_all add: nl_lines_def)

lemma join_lines: "ls \<noteq> [] \<Longrightarrow> join [newline] ls @ [newline] = nl_lines ls"
  by (induction ls rule: induct_list012) simp_all

lemma nl_text_lines: "\<forall>l \<in> set ls. newline \<notin> set l \<Longrightarrow> text_lines (nl_lines ls) = map strip_carriage ls"
  by (induction ls) (simp_all add: text_lines_line)

lemma position_first: "\<forall>u \<in> set us. \<not> Q u \<Longrightarrow> Q y \<Longrightarrow> position Q (us @ y # ys) = Some (length us)"
  by (induction us) simp_all

lemma extract_document:
  assumes "map trim_end (text_lines console) = P @ ''{'' # mid @ ''}'' # Q" "''{'' \<notin> set P" "''}'' \<notin> set mid"
  shows "runtime_extract console = Inr (nl_lines (''{'' # mid @ [''}'']))"
proof -
  have "position (\<lambda>l. l = ''{'') (P @ ''{'' # mid @ ''}'' # Q) = Some (length P)"
    by (rule position_first) (use assms(2) in auto)
  moreover have "position (\<lambda>l. l = ''}'') ((''{'' # mid) @ ''}'' # Q) = Some (length (''{'' # mid))"
    by (rule position_first) (use assms(3) in auto)
  ultimately show ?thesis
    unfolding runtime_extract_def Let_def assms(1) using join_lines [of "''{'' # mid @ [''}'']"] by simp
qed

lemma crlf_text_lines: "\<forall>l \<in> set ls. newline \<notin> set l \<Longrightarrow> text_lines (crlf_lines ls) = ls"
proof (induction ls)
  case (Cons l ls)
  have "newline \<notin> set (l @ [carriage])" using Cons.prems by (simp add: carriage_def newline_def)
  from text_lines_line [OF this, of "crlf_lines ls"] show ?case using Cons by (simp add: crlf_def strip_carriage_def)
qed simp

lemma read_ended: "List.map_filter read_column (map trim_end ls) = List.map_filter read_column ls"
  by (simp add: List.map_filter_def comp_def filter_map read_column_end)

lemma document_recovered:
  assumes r: "label_ok r" and lines: "map trim_end (text_lines console) = P @ map trim_end ([''{''] @ snapshot_mid M r @ [''}'']) @ Q"
    and P: "''{'' \<notin> set P"
  shows "\<exists>t. runtime_extract console = Inr t \<and> columns_read t = columns_read (snapshot_of M r) \<and> validate t = validate (snapshot_of M r)"
proof -
  let ?mid = "map trim_end (snapshot_mid M r)" and ?ls = "[''{''] @ snapshot_mid M r @ [''}'']"
  have brace: "trim_end ''{'' = ''{''" "trim_end ''}'' = ''}''" by (simp_all add: trim_end_def is_space_def)
  have "''}'' \<notin> set ?mid" using mid_indented [OF r, of M] indented_end(2) by fastforce
  with extract_document [of console P ?mid Q] lines P
  have x: "runtime_extract console = Inr (nl_lines (''{'' # ?mid @ [''}'']))" by (simp add: brace)
  have nn: "\<forall>l \<in> set ?ls. newline \<notin> set l" using mid_indented [OF r, of M] by (auto simp: indented_def newline_def)
  let ?t = "nl_lines (map trim_end ?ls)"
  have t: "?t = nl_lines (''{'' # ?mid @ [''}''])" by (simp add: brace)
  have "\<forall>l \<in> set (map trim_end ?ls). newline \<notin> set l" using nn trim_end_members by fastforce
  from nl_text_lines [OF this] have "text_lines ?t = map trim_end ?ls" by (simp add: trim_end_strip comp_def)
  then have "columns_read ?t = List.map_filter read_column ?ls" by (simp only: columns_read_def read_ended)
  moreover have "columns_read (snapshot_of M r) = List.map_filter read_column ?ls"
    unfolding columns_read_def snapshot_lines crlf_text_lines [OF nn] ..
  ultimately have cols: "columns_read ?t = columns_read (snapshot_of M r)" by simp
  have "contains ?t SCHEMA"
  proof -
    let ?l = "'' '' @ '' '' @ [CHR 0x22] @ ''schema'' @ [CHR 0x22] @ '': '' @ [CHR 0x22] @ SCHEMA @ [CHR 0x22] @ '',''"
    have "trim_end ?l = ?l" by (simp add: trim_end_def is_space_def)
    moreover obtain ms where "snapshot_mid M r = ?l # ms" by (simp add: snapshot_mid_def Let_def)
    ultimately have "?t = (''{'' @ [newline] @ '' '' @ '' '' @ [CHR 0x22] @ ''schema'' @ [CHR 0x22] @ '': '' @ [CHR 0x22]) @ SCHEMA @
        ([CHR 0x22] @ '','' @ [newline] @ nl_lines (map trim_end (ms @ [''}''])))"
      by (simp add: brace)
    then show ?thesis using after_sub_inside unfolding contains_def by metis
  qed
  then have "validate ?t = validate (snapshot_of M r)" using cols snapshot_schema by (simp add: validate_def)
  with cols x t show ?thesis by (intro exI [of _ ?t]) simp
qed

section \<open>The events\<close>

definition event_of :: "string \<Rightarrow> string option" where
  "event_of l = map_option trim_start (strip_prefix MARKER l)"

lemma events_lines: "runtime_events console = join [newline] (List.map_filter event_of (map trim_end (text_lines console))) @ [newline]"
proof -
  have "List.map_filter (\<lambda>l. map_option trim_start (strip_prefix MARKER (trim_end l))) ls = List.map_filter event_of (map trim_end ls)" for ls
    by (simp add: List.map_filter_def comp_def filter_map event_of_def)
  then show ?thesis by (simp add: runtime_events_def)
qed

lemma joined_head: "ss \<noteq> [] \<Longrightarrow> joined ((h @ g) # ss) = h @ joined (g # ss)"
  by (cases ss) simp_all

lemma joined_end: "ss \<noteq> [] \<Longrightarrow> last ss \<noteq> [] \<Longrightarrow> joined ss \<noteq> [] \<and> last (joined ss) = last (last ss)"
  by (induction ss rule: joined.induct) auto

lemma marked:
  assumes "ss \<noteq> []" "last ss = ''}''" "l = joined ((MARKER @ '' {'') # ss)"
  shows "trim_end l = l" "event_of l = Some (joined (''{'' # ss))" "last (joined (''{'' # ss)) = CHR ''}''" "joined (''{'' # ss) \<noteq> []"
proof -
  have l: "l = MARKER @ '' '' @ joined (''{'' # ss)"
    using joined_head [OF assms(1), of MARKER "'' {''"] joined_head [OF assms(1), of "'' ''" "''{''"] assms(3) by simp
  have e: "joined (''{'' # ss) \<noteq> []" "last (joined (''{'' # ss)) = CHR ''}''"
    using joined_end [of "''{'' # ss"] assms(1,2) by simp_all
  then have "last l = CHR ''}''" unfolding l by simp
  then show "trim_end l = l" by (cases l rule: rev_cases) (simp_all add: trim_end_def is_space_def)
  have "hd (joined (''{'' # ss)) = CHR ''{''" using assms(1) by (cases ss) simp_all
  then have "trim_start ('' '' @ joined (''{'' # ss)) = joined (''{'' # ss)"
    using e(1) by (cases "joined (''{'' # ss)") (simp_all add: trim_start_def is_space_def)
  then show "event_of l = Some (joined (''{'' # ss))" unfolding event_of_def l by simp
  show "last (joined (''{'' # ss)) = CHR ''}''" "joined (''{'' # ss) \<noteq> []" using e by simp_all
qed

lemma marked_event:
  "trim_end (event_line e) = event_line e" "event_of (event_line e) = Some (event_after ''{'' e)"
  "last (event_after ''{'' e) = CHR ''}''" "event_after ''{'' e \<noteq> []"
  unfolding event_after_def
  by (rule marked [OF _ _ event_line_joined]; simp add: event_pieces_def)+

lemma marked_lost:
  "trim_end (lost_line d) = lost_line d" "event_of (lost_line d) = Some (lost_after ''{'' d)"
  "last (lost_after ''{'' d) = CHR ''}''" "lost_after ''{'' d \<noteq> []"
  unfolding lost_after_def
  by (rule marked [OF _ _ lost_line_joined]; simp add: lost_pieces_def)+

lemma strip_prefix_members: "strip_prefix p s = Some t \<Longrightarrow> set t \<subseteq> set s"
  by (induction p s rule: strip_prefix.induct) (auto split: if_splits)

lemma event_of_members: "event_of l = Some t \<Longrightarrow> set t \<subseteq> set l"
  using strip_prefix_members [of MARKER l] set_dropWhileD by (fastforce simp: event_of_def trim_start_def)

lemma after_plain:
  "newline \<notin> set (event_after ''{'' e)" "newline \<notin> set (lost_after ''{'' d)"
  "strip_carriage (event_after ''{'' e) = event_after ''{'' e" "strip_carriage (lost_after ''{'' d) = lost_after ''{'' d"
proof -
  show "newline \<notin> set (event_after ''{'' e)" "newline \<notin> set (lost_after ''{'' d)"
    using event_of_members [OF marked_event(2)] event_of_members [OF marked_lost(2)] lines_no_newline(1) [of e] lines_no_newline(2) [of d] by blast+
  show "strip_carriage (event_after ''{'' e) = event_after ''{'' e" "strip_carriage (lost_after ''{'' d) = lost_after ''{'' d"
    using marked_event(3) [of e] marked_lost(3) [of d] by (auto simp: strip_carriage_def carriage_def)
qed

lemma map_filter_app: "List.map_filter f (xs @ ys) = List.map_filter f xs @ List.map_filter f ys"
  by (simp add: List.map_filter_def)

lemma events_recovered:
  assumes "map trim_end (text_lines console) = A @ map trim_end (map event_line es @ [lost_line d]) @ B"
    and "\<forall>l \<in> set A \<union> set B. event_of l = None"
  shows "text_lines (runtime_events console) = map (event_after ''{'') es @ [lost_after ''{'' d]"
proof -
  have none: "List.map_filter event_of ls = []" if "\<forall>l \<in> set ls. event_of l = None" for ls
    using that by (induction ls) (simp_all add: map_filter_simps)
  have some: "List.map_filter event_of (map trim_end (map event_line es @ [lost_line d])) = map (event_after ''{'') es @ [lost_after ''{'' d]"
    by (induction es) (simp_all add: map_filter_simps marked_event marked_lost)
  have all: "runtime_events console = nl_lines (map (event_after ''{'') es @ [lost_after ''{'' d])"
    unfolding events_lines assms(1) map_filter_app some using none [of A] none [of B] assms(2) by (simp add: join_lines)
  have "\<forall>l \<in> set (map (event_after ''{'') es @ [lost_after ''{'' d]). newline \<notin> set l"
    using after_plain by auto
  from nl_text_lines [OF this] show ?thesis unfolding all using after_plain by (simp add: comp_def)
qed

lemma trace_recovered:
  assumes t: "text_lines (runtime_events console) = map (event_after ''{'') es @ [lost_after ''{'' d]"
    and ok: "\<forall>e \<in> set es. event_ok e" "d \<le> umax 32"
  shows "runtime_trace (runtime_events console) =
    (if d = 0 then Inr (trace_render \<lparr>th_model = SYNTH_MODEL, th_source = EVENTS_PATH\<rparr> (acquires es)) else Inl (BadEvents TooFew))"
proof -
  have "length (acquires es) \<le> length es" by (simp add: acquires_def)
  moreover have "quote \<notin> set ''{''" "d \<le> umax 64" using ok(2) by simp_all
  ultimately show ?thesis
    using derive_events [of "''{''" d es "[]" "Suc (length es)"] ok(1) by (simp add: runtime_trace_def trace_from_events_def t)
qed

text \<open>A stretch of the console between what is lifted: whole lines, none of them an event and none the start of a document.\<close>

definition other_lines :: "string \<Rightarrow> bool" where
  "other_lines s \<longleftrightarrow> (\<forall>l \<in> set (text_lines s). event_of (trim_end l) = None)"

definition no_document :: "string \<Rightarrow> bool" where
  "no_document s \<longleftrightarrow> (\<forall>l \<in> set (text_lines s). trim_end l \<noteq> ''{'')"

definition captured :: "string \<Rightarrow> string \<Rightarrow> string \<Rightarrow> string \<Rightarrow> ring \<Rightarrow> string" where
  "captured before document between after r = before @ on_wire document @ between @ on_wire (ring_write r) @ after"

lemma captured_lines:
  assumes "whole_lines before" "whole_lines between" "label_ok revision"
  shows "map trim_end (text_lines (captured before (snapshot_of M revision) between after r)) =
    map trim_end (text_lines before) @ map trim_end ([''{''] @ snapshot_mid M revision @ [''}'']) @ map trim_end (text_lines between) @
    map trim_end (map event_line (ring_events r) @ [lost_line (rg_dropped r)]) @ map trim_end (text_lines after)"
proof -
  have w: "ring_write r = crlf_lines (map event_line (ring_events r) @ [lost_line (rg_dropped r)])"
    by (simp add: ring_write_def crlf_lines_def comp_def line_end_def crlf_def)
  have nn: "\<forall>l \<in> set ([''{''] @ snapshot_mid M revision @ [''}'']). newline \<notin> set l"
    using mid_indented [OF assms(3), of M] by (auto simp: indented_def newline_def)
  have nr: "\<forall>l \<in> set (map event_line (ring_events r) @ [lost_line (rg_dropped r)]). newline \<notin> set l"
    using lines_no_newline by auto
  show ?thesis
    unfolding captured_def text_lines_append [OF assms(1)] snapshot_lines w crlf_lines_def
    using wire_lines [OF nn] wire_lines [OF nr] text_lines_append [OF assms(2)] by simp
qed

lemma document_no_event: "label_ok revision \<Longrightarrow> \<forall>l \<in> set (map trim_end ([''{''] @ snapshot_mid M revision @ [''}''])). event_of l = None"
  using mid_indented [of revision M] indented_end(3) by (auto simp: event_of_def trim_end_def is_space_def MARKER_def)

text \<open>C35: off a captured console that printed a snapshot and then a recording, among other lines and with the carriage
  returns of the wire, what is lifted is a document with the columns of the snapshot, which validates as the snapshot does, and
  a trace of exactly the recorded acquires; a recording that lost an event gives no trace.\<close>

theorem captured_console:
  assumes "label_ok revision" "whole_lines before" "whole_lines between" "no_document before"
    and "other_lines before" "other_lines between" "other_lines after"
    and "\<forall>e \<in> set (ring_events r). event_ok e" "rg_dropped r \<le> umax 32"
  shows "\<exists>t. runtime_extract (captured before (snapshot_of M revision) between after r) = Inr t \<and>
      columns_read t = columns_read (snapshot_of M revision) \<and> validate t = validate (snapshot_of M revision) \<and>
      runtime_trace (runtime_events (captured before (snapshot_of M revision) between after r)) =
        (if rg_dropped r = 0 then Inr (trace_render \<lparr>th_model = SYNTH_MODEL, th_source = EVENTS_PATH\<rparr> (acquires (ring_events r)))
         else Inl (BadEvents TooFew))"
proof -
  let ?console = "captured before (snapshot_of M revision) between after r"
  let ?S = "map trim_end ([''{''] @ snapshot_mid M revision @ [''}''])"
  let ?E = "map trim_end (map event_line (ring_events r) @ [lost_line (rg_dropped r)])"
  let ?A = "map trim_end (text_lines before)" and ?B = "map trim_end (text_lines between)" and ?C = "map trim_end (text_lines after)"
  have lines: "map trim_end (text_lines ?console) = ?A @ ?S @ (?B @ ?E @ ?C)"
    using captured_lines [OF assms(2,3,1)] by simp
  have "''{'' \<notin> set ?A" using assms(4) by (auto simp: no_document_def)
  from document_recovered [OF assms(1) lines this] obtain t where
    t: "runtime_extract ?console = Inr t" "columns_read t = columns_read (snapshot_of M revision)" "validate t = validate (snapshot_of M revision)"
    by blast
  have "map trim_end (text_lines ?console) = (?A @ ?S @ ?B) @ ?E @ ?C" using lines by simp
  moreover have "\<forall>l \<in> set (?A @ ?S @ ?B) \<union> set ?C. event_of l = None"
    using assms(5-7) document_no_event [OF assms(1), of M] unfolding other_lines_def by (auto simp del: map_append)
  ultimately have "text_lines (runtime_events ?console) = map (event_after ''{'') (ring_events r) @ [lost_after ''{'' (rg_dropped r)]"
    by (rule events_recovered)
  from trace_recovered [OF this assms(8,9)] t show ?thesis by blast
qed

definition captured_ring :: ring where
  "captured_ring = \<lparr>rg_enabled = True, rg_events = [Some (event_hit 5 1 64), Some (event_evicted 6 2 sample_meta)],
     rg_next = 0, rg_seq = 2, rg_dropped = 0\<rparr>"

lemma captured_console_witness:
  "\<exists>t. runtime_extract (captured (''mlos'' @ [newline]) (snapshot_of (manager_new 1 (arena_new 4096 [])) ''dev'') [] (''mlos> '') captured_ring) = Inr t \<and>
      validate t = validate (snapshot_of (manager_new 1 (arena_new 4096 [])) ''dev'') \<and>
      runtime_trace (runtime_events (captured (''mlos'' @ [newline]) (snapshot_of (manager_new 1 (arena_new 4096 [])) ''dev'') [] (''mlos> '') captured_ring)) =
        Inr (trace_render \<lparr>th_model = SYNTH_MODEL, th_source = EVENTS_PATH\<rparr> [\<lparr>ac_session = 1, ac_object = 5\<rparr>])"
proof -
  have ends: "whole_lines (''mlos'' @ [newline])" "whole_lines []" by (simp_all add: whole_lines_def)
  have lines: "text_lines (''mlos'' @ [newline]) = [''mlos'']" "text_lines ''mlos> '' = [''mlos> '']" "text_lines [] = []"
    using nl_text_lines [of "[''mlos'']"] by (simp_all add: newline_def strip_carriage_def carriage_def text_lines_def)
  have quiet: "no_document (''mlos'' @ [newline])" "other_lines (''mlos'' @ [newline])" "other_lines []" "other_lines (''mlos> '')"
    unfolding no_document_def other_lines_def lines by (simp_all add: event_of_def trim_end_def is_space_def MARKER_def)
  have es: "ring_events captured_ring = [event_hit 5 1 64, event_evicted 6 2 sample_meta]"
    by (simp add: captured_ring_def ring_events_def map_filter_simps)
  have "\<forall>e \<in> set (ring_events captured_ring). event_ok e" "rg_dropped captured_ring \<le> umax 32"
    unfolding es by (simp_all add: event_ok_def event_hit_def event_evicted_def captured_ring_def)
  moreover have "label_ok ''dev''" by (simp add: label_ok_def plain_text_def is_space_def)
  ultimately show ?thesis
    using captured_console [OF _ ends quiet(1,2,3,4), of "''dev''" captured_ring "manager_new 1 (arena_new 4096 [])"]
    unfolding es by (auto simp: captured_ring_def acquires_def event_hit_def event_evicted_def)
qed

end
