(* ===== verification/Mmu.thy ===== *)
theory Mmu
  imports Machine
begin

text \<open>
  crates/mlos-mmu-aarch64: the boot translation table, an identity map of blocks of a gigabyte, and the values of
  the registers it is walked with. The instructions that install them are not modelled; the walk the
  hardware does is the specification the table is proved against.
\<close>

unbundle bit_operations_syntax

section \<open>Block descriptors (descriptor.rs)\<close>

definition MMU_BLOCK :: "64 word" where "MMU_BLOCK = 1"
definition MMU_AF :: "64 word" where "MMU_AF = push_bit 10 1"
definition SH_INNER :: "64 word" where "SH_INNER = push_bit 8 3"
definition ATTR_DEVICE :: "64 word" where "ATTR_DEVICE = push_bit 2 0"
definition ATTR_NORMAL :: "64 word" where "ATTR_NORMAL = push_bit 2 1"
definition XN :: "64 word" where "XN = push_bit 53 1 OR push_bit 54 1"
definition ADDR_MASK :: "64 word" where "ADDR_MASK = 0x0000FFFFC0000000"
definition BLOCK_SIZE :: nat where "BLOCK_SIZE = 2 ^ 30"

definition device_block :: "nat \<Rightarrow> 64 word" where
  "device_block physical = (of_nat physical AND ADDR_MASK) OR MMU_BLOCK OR MMU_AF OR ATTR_DEVICE OR XN"

definition normal_block :: "nat \<Rightarrow> 64 word" where
  "normal_block physical = (of_nat physical AND ADDR_MASK) OR MMU_BLOCK OR MMU_AF OR ATTR_NORMAL OR SH_INNER"

section \<open>The registers (regs.rs)\<close>

definition MAIR :: "64 word" where "MAIR = push_bit 8 0xff OR 0x04"

text \<open>\<open>mmfr0\<close> is the identification register the code reads.\<close>

definition tcr :: "64 word \<Rightarrow> 64 word" where
  "tcr mmfr0 =
     25 OR push_bit 8 1 OR push_bit 10 1 OR push_bit 12 3 OR push_bit 23 1 OR push_bit 32 (mmfr0 AND 0xf)"

section \<open>The table (lib.rs)\<close>

text \<open>The sum of a region's base and length is taken in 64 bits.\<close>

definition covered :: "region list \<Rightarrow> nat \<Rightarrow> bool" where
  "covered regions base =
     (let end = base + BLOCK_SIZE in
      list_ex (\<lambda>r. rg_base r < end \<and> base < wrap 64 (rg_base r + rg_len r)) (filter (\<lambda>r. rg_kind r \<noteq> Device) regions))"

definition table_entry :: "region list \<Rightarrow> nat \<Rightarrow> 64 word" where
  "table_entry regions index =
     (let base = index * BLOCK_SIZE in
      if base < BLOCK_SIZE then device_block base else if covered regions base then normal_block base else 0)"

definition identity_table :: "region list \<Rightarrow> 64 word list" where
  "identity_table regions = map (table_entry regions) [0..<512]"

section \<open>The walk\<close>

text \<open>What the hardware does with an address: the entry of its block, whose low two bits must say block and whose
  access flag must be set, gives the output address, the memory attribute and whether code may run there.\<close>

record translation =
  tr_address :: nat
  tr_attribute :: "8 word"
  tr_shared :: bool
  tr_never_execute :: bool

definition va_bits :: "64 word \<Rightarrow> nat" where
  "va_bits control = 64 - unat (control AND 0x3f)"

definition walk_address :: "64 word \<Rightarrow> 64 word \<Rightarrow> 64 word list \<Rightarrow> nat \<Rightarrow> translation option" where
  "walk_address control mair t va =
     (let e = t ! (va div 2 ^ 30) in
      if 2 ^ va_bits control \<le> va \<or> e AND 3 \<noteq> 1 \<or> \<not> bit e 10 then None
      else Some \<lparr>tr_address = unat (push_bit 30 (take_bit 18 (drop_bit 30 e))) + va mod 2 ^ 30,
                 tr_attribute = ucast (drop_bit (8 * unat (take_bit 3 (drop_bit 2 e))) mair),
                 tr_shared = (take_bit 2 (drop_bit 8 e) = 3),
                 tr_never_execute = (bit e 53 \<and> bit e 54)\<rparr>)"

lemma tcr_bits: "va_bits (tcr mmfr0) = 39"
proof -
  have "tcr mmfr0 AND 0x3f = 25"
  proof -
    have m: "(0x3f :: 64 word) = mask 6" by (simp add: mask_eq_exp_minus_1)
    have low: "take_bit 6 (push_bit k w) = 0" if "6 \<le> k" for k and w :: "64 word"
      by (rule bit_word_eqI) (use that in \<open>auto simp: bit_simps\<close>)
    show ?thesis unfolding m tcr_def
      by (simp only: flip: take_bit_eq_mask) (simp add: low take_bit_or)
  qed
  then show ?thesis by (simp add: va_bits_def)
qed

section \<open>What a descriptor says\<close>

lemma addr_mask: "ADDR_MASK = push_bit 30 (mask 18)"
  by (simp add: ADDR_MASK_def mask_eq_exp_minus_1 push_bit_eq_mult)

lemmas block_defs = device_block_def normal_block_def MMU_BLOCK_def MMU_AF_def ATTR_DEVICE_def ATTR_NORMAL_def SH_INNER_def XN_def addr_mask

lemma base_word: "of_nat (k * BLOCK_SIZE) = (push_bit 30 (of_nat k) :: 64 word)"
  by (simp add: BLOCK_SIZE_def push_bit_eq_mult mult.commute)

lemma low_bits: "e AND 3 = (take_bit 2 e :: 64 word)"
proof -
  have "(3 :: 64 word) = mask 2" by (simp add: mask_eq_exp_minus_1)
  then show ?thesis by (simp add: take_bit_eq_mask)
qed

lemma device_fields:
  fixes k
  defines "e \<equiv> device_block (k * BLOCK_SIZE)"
  shows "e AND 3 = 1" "bit e 10" "take_bit 18 (drop_bit 30 e) = take_bit 18 (of_nat k)" "take_bit 3 (drop_bit 2 e) = 0"
    "take_bit 2 (drop_bit 8 e) = 0" "bit e 53" "bit e 54"
proof -
  show "e AND 3 = 1" unfolding low_bits e_def block_defs base_word
    by (rule bit_word_eqI) (auto simp: bit_simps)
  show "take_bit 18 (drop_bit 30 e) = take_bit 18 (of_nat k)" "take_bit 3 (drop_bit 2 e) = 0" "take_bit 2 (drop_bit 8 e) = 0"
    unfolding e_def block_defs base_word by (rule bit_word_eqI; auto simp: bit_simps)+
  show "bit e 10" "bit e 53" "bit e 54" unfolding e_def block_defs base_word by (simp_all add: bit_simps)
qed

lemma normal_fields:
  fixes k
  defines "e \<equiv> normal_block (k * BLOCK_SIZE)"
  shows "e AND 3 = 1" "bit e 10" "take_bit 18 (drop_bit 30 e) = take_bit 18 (of_nat k)" "take_bit 3 (drop_bit 2 e) = 1"
    "take_bit 2 (drop_bit 8 e) = 3" "\<not> bit e 53"
proof -
  have three: "(3 :: 64 word) = mask 2" by (simp add: mask_eq_exp_minus_1)
  show "e AND 3 = 1" unfolding low_bits e_def block_defs base_word three
    by (rule bit_word_eqI) (auto simp: bit_simps less_2_cases_iff)
  show "take_bit 18 (drop_bit 30 e) = take_bit 18 (of_nat k)" "take_bit 3 (drop_bit 2 e) = 1" "take_bit 2 (drop_bit 8 e) = 3"
    unfolding e_def block_defs base_word three by (rule bit_word_eqI; auto simp: bit_simps)+
  show "bit e 10" "\<not> bit e 53" unfolding e_def block_defs base_word three by (simp_all add: bit_simps)
qed

lemma block_address:
  assumes "k < 512"
  shows "unat (push_bit 30 (take_bit 18 (of_nat k)) :: 64 word) = k * 2 ^ 30"
proof -
  have "take_bit 18 (of_nat k :: 64 word) = of_nat k"
    using assms by (simp add: word_unat_eq_iff unsigned_take_bit_eq unat_of_nat take_bit_nat_eq_self)
  then have "(push_bit 30 (take_bit 18 (of_nat k)) :: 64 word) = of_nat (k * 2 ^ 30)"
    by (simp add: push_bit_eq_mult mult.commute)
  then show ?thesis using assms by (simp only: unat_of_nat) simp
qed

lemma mair_bytes: "ucast MAIR = (0x04 :: 8 word)" "ucast (drop_bit 8 MAIR) = (0xff :: 8 word)"
  by (simp_all add: MAIR_def)

section \<open>Properties\<close>

text \<open>C37: With the table the boot code builds and the registers it sets, the hardware's walk is the identity wherever it succeeds:
  the first gigabyte as device memory that cannot be executed; every other block that a region which is not a device's
  reaches into, up to 512 GiB, as shared, cached, executable memory; and everything else faults. The
  attribute indices of the descriptors and the attribute register agree.\<close>

theorem boot_map_is_identity:
  "walk_address (tcr mmfr0) MAIR (identity_table regions) va =
     (if va < 2 ^ 30 then Some \<lparr>tr_address = va, tr_attribute = 0x04, tr_shared = False, tr_never_execute = True\<rparr>
      else if va < 2 ^ 39 \<and> covered regions (va div 2 ^ 30 * BLOCK_SIZE)
      then Some \<lparr>tr_address = va, tr_attribute = 0xff, tr_shared = True, tr_never_execute = False\<rparr>
      else None)"
proof (cases "va < 2 ^ 39")
  case True
  let ?k = "va div 2 ^ 30"
  have k: "?k < 512" using True by simp
  have e: "identity_table regions ! ?k = table_entry regions ?k" using k by (simp add: identity_table_def)
  have va: "?k * 2 ^ 30 + va mod 2 ^ 30 = va" by simp
  have first: "?k * BLOCK_SIZE < BLOCK_SIZE \<longleftrightarrow> va < 2 ^ 30" by (auto simp: BLOCK_SIZE_def)
  consider (low) "va < 2 ^ 30" | (ram) "\<not> va < 2 ^ 30" "covered regions (?k * BLOCK_SIZE)" | (hole) "\<not> va < 2 ^ 30" "\<not> covered regions (?k * BLOCK_SIZE)" by blast
  then show ?thesis
  proof cases
    case low
    then have "table_entry regions ?k = device_block (?k * BLOCK_SIZE)" using first by (simp only: table_entry_def Let_def if_True if_False simp_thms)
    then show ?thesis using low True unfolding walk_address_def Let_def e tcr_bits
      by (simp only: device_fields block_address [OF k] va) (simp add: mair_bytes)
  next
    case ram
    then have "table_entry regions ?k = normal_block (?k * BLOCK_SIZE)" using first by (simp only: table_entry_def Let_def if_True if_False simp_thms)
    then show ?thesis using ram True unfolding walk_address_def Let_def e tcr_bits
      by (simp only: normal_fields block_address [OF k] va) (simp add: mair_bytes)
  next
    case hole
    then have "table_entry regions ?k = 0" using first by (simp only: table_entry_def Let_def if_True if_False simp_thms)
    then show ?thesis using hole True unfolding walk_address_def Let_def e tcr_bits by simp
  qed
qed (simp add: walk_address_def tcr_bits)

end
