(* ===== verification/ShellText.thy ===== *)
theory ShellText
  imports Lab Layout Snapshot Machine
begin

text \<open>
  How the shell of mlsh writes things: the formatting of the standard library it uses, the names derived for the enums, and the
  texts of mlos-admit and mlos-metrics.
\<close>

section \<open>Formatting\<close>

definition ln :: "string \<Rightarrow> string" where "ln s = s @ [newline]"

definition hex_text :: "nat \<Rightarrow> string" where "hex_text n = ''0x'' @ hex n"

definition hex_wide :: "nat \<Rightarrow> nat \<Rightarrow> string" where
  "hex_wide w n = ''0x'' @ replicate (w - 2 - length (hex n)) CHR ''0'' @ hex n"

definition decimal_wide :: "nat \<Rightarrow> nat \<Rightarrow> string" where
  "decimal_wide w n = replicate (w - length (decimal n)) CHR ''0'' @ decimal n"

definition pad_right :: "nat \<Rightarrow> string \<Rightarrow> string" where
  "pad_right w s = s @ replicate (w - length s) CHR '' ''"

definition kib_text :: "nat \<Rightarrow> string" where "kib_text n = decimal (n div 1024)"

section \<open>Names\<close>

fun class_debug :: "object_class \<Rightarrow> string" where
  "class_debug WeightTile = ''WeightTile''"
| "class_debug Scale = ''Scale''"
| "class_debug Expert = ''Expert''"
| "class_debug KvBlock = ''KvBlock''"
| "class_debug Activation = ''Activation''"
| "class_debug EmbedBlock = ''EmbedBlock''"
| "class_debug RagBlock = ''RagBlock''"
| "class_debug Adapter = ''Adapter''"

fun err_debug :: "err \<Rightarrow> string" where
  "err_debug BadObject = ''BadObject''"
| "err_debug BadClass = ''BadClass''"
| "err_debug NotResident = ''NotResident''"
| "err_debug NoBudget = ''NoBudget''"
| "err_debug Refused = ''Refused''"
| "err_debug NoProvider = ''NoProvider''"
| "err_debug Revoked = ''Revoked''"
| "err_debug Denied = ''Denied''"

fun precision_debug :: "precision \<Rightarrow> string" where
  "precision_debug Fp16 = ''Fp16''"
| "precision_debug Bf16 = ''Bf16''"
| "precision_debug Q8 = ''Q8''"
| "precision_debug Q4 = ''Q4''"
| "precision_debug Q3 = ''Q3''"
| "precision_debug Ternary = ''Ternary''"

fun tier_debug :: "tier \<Rightarrow> string" where
  "tier_debug Hot = ''Hot''"
| "tier_debug Warm = ''Warm''"
| "tier_debug Cold = ''Cold''"
| "tier_debug Stream = ''Stream''"
| "tier_debug Archive = ''Archive''"

fun kind_debug :: "memory_kind \<Rightarrow> string" where
  "kind_debug Usable = ''Usable''"
| "kind_debug Kernel = ''Kernel''"
| "kind_debug Reclaimable = ''Reclaimable''"
| "kind_debug Device = ''Device''"
| "kind_debug Reserved = ''Reserved''"

definition rung_text :: "rung \<Rightarrow> string" where "rung_text r = ''L'' @ decimal (rung_u8 r)"

fun refusal_text :: "refusal \<Rightarrow> string" where
  "refusal_text Slots = ''no session slot free''"
| "refusal_text (Ceiling c n) =
     ''its context needs '' @ decimal n @ '' B resident, over its own ceiling of '' @ decimal c @ '' B''"
| "refusal_text (Bytes n f) =
     ''its context needs '' @ decimal n @ '' B, the budget has '' @ decimal f @ '' B unpromised''"
| "refusal_text (Latency c n) =
     ''a ceiling of '' @ decimal c @ '' acquires could not be kept; the least here is '' @ decimal n"

definition headline_text :: "headline \<Rightarrow> string" where
  "headline_text h =
     ''ps '' @ decimal (hl_ps_per_mille h) @ ''/1000, ks '' @ decimal (hl_ks h) @ '' B, ss '' @
     decimal (hl_ss_milli h) @ ''/1000 per GiB''"

section \<open>Words\<close>

lemma strip_prefix_shorter: "strip_prefix p s = Some r \<Longrightarrow> length s = length p + length r"
  by (induction p s rule: strip_prefix.induct) (auto split: if_splits)

text \<open>\<open>trim_start_matches\<close>: the prefix is taken off as long as it is there.\<close>

function strip_all :: "string \<Rightarrow> string \<Rightarrow> string" where
  "strip_all p s = (if p = [] then s else case strip_prefix p s of None \<Rightarrow> s | Some r \<Rightarrow> strip_all p r)"
  by pat_completeness auto
termination
  by (relation "measure (\<lambda>(p, s). length s)") (auto dest: strip_prefix_shorter)

declare strip_all.simps [simp del]

definition u16_word :: "string \<Rightarrow> nat option" where "u16_word w = parse_uint 10 (umax 16) w"
definition u32_word :: "string \<Rightarrow> nat option" where "u32_word w = parse_uint 10 (umax 32) w"
definition u64_word :: "string \<Rightarrow> nat option" where "u64_word w = parse_uint 10 (umax 64) w"

definition first_word :: "string \<Rightarrow> string option" where
  "first_word args = (case split_space [] args of [] \<Rightarrow> None | w # _ \<Rightarrow> Some w)"

text \<open>The first two of the words that are numbers.\<close>

definition two_numbers :: "string \<Rightarrow> (nat \<times> nat) option" where
  "two_numbers args =
     (case List.map_filter u16_word (split_space [] args) of
        a # b # _ \<Rightarrow> Some (a, b)
      | _ \<Rightarrow> None)"

end
