(* ===== verification/LineEdit.thy ===== *)
theory LineEdit
  imports Bytes
begin

text \<open>
  crates/mlos-line: one line of input in a fixed buffer. Typing and backspacing refine a bounded
  stack of bytes; the line is its text.
\<close>

definition LINE_CAPACITY :: nat where "LINE_CAPACITY = 96"

record line =
  ln_bytes :: bytes
  ln_len :: nat

definition line_default :: line where
  "line_default = \<lparr>ln_bytes = replicate LINE_CAPACITY 0, ln_len = 0\<rparr>"

definition line_push :: "u8 \<Rightarrow> line \<Rightarrow> bool \<times> line" where
  "line_push b l =
     (if ln_len l < length (ln_bytes l)
      then (True, l\<lparr>ln_bytes := (ln_bytes l)[ln_len l := b], ln_len := ln_len l + 1\<rparr>)
      else (False, l))"

definition line_backspace :: "line \<Rightarrow> bool \<times> line" where
  "line_backspace l =
     (case checked_sub (ln_len l) 1 of
        None \<Rightarrow> (False, l)
      | Some n \<Rightarrow> (True, l\<lparr>ln_len := n\<rparr>))"

definition line_as_str :: "line \<Rightarrow> string" where
  "line_as_str l = (case from_utf8 (take (ln_len l) (ln_bytes l)) of Some s \<Rightarrow> s | None \<Rightarrow> [])"

section \<open>A bounded stack\<close>

datatype key = Type u8 | Backspace

fun line_key :: "key \<Rightarrow> line \<Rightarrow> bool \<times> line" where
  "line_key (Type b) l = line_push b l"
| "line_key Backspace l = line_backspace l"

fun stack_key :: "key \<Rightarrow> bytes \<Rightarrow> bool \<times> bytes" where
  "stack_key (Type b) s = (if length s < LINE_CAPACITY then (True, s @ [b]) else (False, s))"
| "stack_key Backspace s = (if s = [] then (False, []) else (True, butlast s))"

definition line_inv :: "line \<Rightarrow> bool" where
  "line_inv l \<longleftrightarrow> length (ln_bytes l) = LINE_CAPACITY \<and> ln_len l \<le> LINE_CAPACITY"

definition line_abs :: "line \<Rightarrow> bytes" where
  "line_abs l = take (ln_len l) (ln_bytes l)"

lemma line_abs_length: "line_inv l \<Longrightarrow> length (line_abs l) = ln_len l"
  by (simp add: line_inv_def line_abs_def)

lemma line_key_refines:
  assumes "line_inv l" "line_key k l = (ok, l')"
  shows "line_inv l'" "stack_key k (line_abs l) = (ok, line_abs l')"
proof -
  have "line_inv l' \<and> stack_key k (line_abs l) = (ok, line_abs l')"
  proof (cases k)
    case (Type b)
    with assms line_abs_length [OF assms(1)] show ?thesis
      by (auto simp: line_inv_def line_push_def line_abs_def take_Suc_conv_app_nth split: if_splits)
  next
    case Backspace
    with assms line_abs_length [OF assms(1)] show ?thesis
      by (cases "ln_len l")
        (auto simp: line_inv_def line_backspace_def checked_sub_def line_abs_def take_Suc_conv_app_nth)
  qed
  then show "line_inv l'" "stack_key k (line_abs l) = (ok, line_abs l')" by blast+
qed

fun line_keys :: "key list \<Rightarrow> line \<Rightarrow> bool list \<times> line" where
  "line_keys [] l = ([], l)"
| "line_keys (k # ks) l =
     (case line_key k l of (ok, l1) \<Rightarrow> (case line_keys ks l1 of (oks, l2) \<Rightarrow> (ok # oks, l2)))"

fun stack_keys :: "key list \<Rightarrow> bytes \<Rightarrow> bool list \<times> bytes" where
  "stack_keys [] s = ([], s)"
| "stack_keys (k # ks) s =
     (case stack_key k s of (ok, s1) \<Rightarrow> (case stack_keys ks s1 of (oks, s2) \<Rightarrow> (ok # oks, s2)))"

section \<open>Properties\<close>

text \<open>Whatever is typed and erased, in any order, the line answers and holds what a stack of
  at most 96 bytes would: a byte past the end is refused, and so is erasing an empty line.\<close>

theorem line_refines_stack:
  "line_keys ks line_default = (oks, l) \<Longrightarrow> line_inv l \<and> stack_keys ks [] = (oks, line_abs l)"
proof -
  have "line_keys ks l0 = (oks, l) \<Longrightarrow> line_inv l0 \<Longrightarrow> line_inv l \<and> stack_keys ks (line_abs l0) = (oks, line_abs l)"
    for l0 oks
  proof (induction ks arbitrary: l0 oks)
    case (Cons k ks)
    then show ?case using line_key_refines [of l0 k] by (fastforce split: prod.splits)
  qed simp
  moreover have "line_inv line_default" "line_abs line_default = []"
    by (simp_all add: line_inv_def line_abs_def line_default_def)
  ultimately show "line_keys ks line_default = (oks, l) \<Longrightarrow> ?thesis" by metis
qed

lemma line_refines_stack_witness:
  "line_abs (snd (line_keys [Type 104, Type 105, Backspace, Backspace, Backspace, Type 106] line_default)) = [106]"
proof -
  let ?r = "line_keys [Type 104, Type 105, Backspace, Backspace, Backspace, Type 106] line_default"
  have "?r = (fst ?r, snd ?r)" by simp
  from line_refines_stack [OF this] show ?thesis by (simp add: LINE_CAPACITY_def)
qed

end
