(* ===== verification/Shell.thy ===== *)
theory Shell
  imports ShellText Ladder LineEdit Queue
begin

text \<open>
  crates/mlsh: the inspector shell. A line is dispatched to a verb over the laboratory; what a verb prints is the
  string it gives back. The addresses and clock readings the code takes from the machine are in
  \<open>facts\<close>, as read when the line runs. None is a line that does not return: a peek at an address that faults, an
  arithmetic overflow (the kernel is built with the checks on), a squeeze, a merge or an access that does not end.
\<close>

section \<open>What the shell knows (lib.rs)\<close>

text \<open>\<open>fa_clock\<close>: the counter before and after a sweep, and its rate. \<open>pf_peek\<close>: the eight bytes at an address, or None where
  reading it faults and the trap reporter takes over.\<close>

record platform =
  pf_timer :: string
  pf_irqchip :: string
  pf_peek :: "(nat \<Rightarrow> nat option) option"

definition GENERIC :: platform where
  "GENERIC = \<lparr>pf_timer = ''generic, irq'', pf_irqchip = [], pf_peek = None\<rparr>"

record facts =
  fa_info :: boot_info
  fa_total :: nat
  fa_image :: "nat \<times> nat"
  fa_uart :: nat
  fa_uart_irq :: nat
  fa_timer_irq :: nat
  fa_gic :: "(nat \<times> nat) option"
  fa_console :: string
  fa_clock :: "(nat \<times> nat) \<times> nat"
  fa_bootargs :: string
  fa_ticks :: nat
  fa_platform :: platform

text \<open>The laboratory and the bytes of its static arena, of which a registered manager holds a prefix; where that arena
  is and what disk was found are the machine's.\<close>

record world =
  wo_lab :: lab
  wo_arena :: "u8 list"
  wo_base :: nat
  wo_disk :: "device option"

definition static_arena :: "world \<Rightarrow> u8 list" where
  "static_arena W =
     (case lab_manager (wo_lab W) of
        None \<Rightarrow> wo_arena W
      | Some M \<Rightarrow> ar_bytes (mg_arena M) @ drop (length (ar_bytes (mg_arena M))) (wo_arena W))"

definition with_manager :: "(manager \<Rightarrow> 'a \<times> manager) \<Rightarrow> world \<Rightarrow> 'a option \<times> world" where
  "with_manager f W =
     (case lab_manager (wo_lab W) of
        None \<Rightarrow> (None, W)
      | Some M \<Rightarrow> (case f M of (x, M') \<Rightarrow> (Some x, W\<lparr>wo_lab := (wo_lab W)\<lparr>lab_manager := Some M'\<rparr>\<rparr>)))"

definition LADDER :: shape where "LADDER = \<lparr>sh_per_block = 1, sh_hot = 1\<rparr>"

section \<open>Looking (report.rs)\<close>

definition objs_line :: "nat \<Rightarrow> nat \<Rightarrow> object_meta \<Rightarrow> string" where
  "objs_line layer tensor m =
     ln (''  L'' @ decimal_wide 2 layer @ '' T'' @ decimal_wide 2 tensor @ ''  '' @ tier_debug (m_tier m) @ ''  '' @
       hex_text (m_resident_at m) @ ''  used '' @ decimal (m_reuse_count m) @ ''  next '' @ next_use_text (m_next_use m))"

definition objs_list :: "bool \<Rightarrow> manager \<Rightarrow> string list" where
  "objs_list all M =
     List.map_filter (\<lambda>(layer, tensor).
       case table_get (mg_table M) (tile (of_nat layer) (of_nat tensor)) of
         None \<Rightarrow> None
       | Some m \<Rightarrow> if m_resident_at m = 0 \<and> \<not> all then None else Some (objs_line layer tensor m))
     (concat (map (\<lambda>layer. map (Pair layer) [0..<TILES]) [0..<LAYERS]))"

definition report_objs :: "string \<Rightarrow> world \<Rightarrow> string" where
  "report_objs args W =
     (case lab_manager (wo_lab W) of
        None \<Rightarrow> []
      | Some M \<Rightarrow>
          (let shown = objs_list (first_word args = Some ''all'') M in
           concat shown @
           (if shown = [] then ln ''  nothing resident (try `sweep`, or `objs all`)''
            else ln (''  '' @ decimal (length shown) @ '' shown''))))"

definition report_arena :: "world \<Rightarrow> string" where
  "report_arena W =
     (case lab_manager (wo_lab W) of
        None \<Rightarrow> []
      | Some M \<Rightarrow>
          (let a = arena_occupancy (mg_arena M); r = report_of (mg_counters M) in
           ln (''  arena    '' @ kib_text (oc_used a) @ '' of '' @ kib_text (oc_capacity a) @ '' KiB used'') @
           ln (''  room for '' @ decimal (oc_largest a div TILE_BYTES) @ '' more tiles of '' @ decimal TILE_BYTES @
               '' B, largest run '' @ decimal (oc_largest a) @ '' B'') @
           ln (''  Rm       '' @ kib_text (rp_resident r) @ ''/'' @ kib_text (rp_registered r) @ '' KiB of the model = '' @
               decimal (case residency_per_mille r of None \<Rightarrow> 0 | Some n \<Rightarrow> n) @ '' per mille'')))"

definition report_metrics :: "world \<Rightarrow> string" where
  "report_metrics W =
     (case lab_manager (wo_lab W) of
        None \<Rightarrow> []
      | Some M \<Rightarrow>
          (let r = report_of (mg_counters M); h = mgr_headline M in
           ln (''  Rm       '' @ decimal (case residency_per_mille r of None \<Rightarrow> 0 | Some n \<Rightarrow> n) @ ''/1000 of the model resident'') @
           ln (''  Ps       '' @ decimal (hl_ps_per_mille h) @ ''/1000 weight bytes applied per byte read'') @
           ln (''  Ks       '' @ decimal (hl_ks h) @ '' B of KV per session, '' @ decimal (sessions_live (mg_sessions M)) @ '' session(s)'') @
           ln (''  Ss       '' @ decimal (hl_ss_milli h) @ ''/1000 sessions per GiB of arena'')))"

definition fault_lines :: "report \<Rightarrow> string" where
  "fault_lines r =
     concat (map (\<lambda>c.
       if 0 < rp_faults r ! class_index c
       then ln (''    '' @ class_debug c @ '': '' @ decimal (rp_faults r ! class_index c) @ '' faults, '' @
                kib_text (rp_fetched r ! class_index c) @ '' KiB fetched'')
       else []) all_classes)"

definition last_fault_line :: "model_fault option \<Rightarrow> string" where
  "last_fault_line held =
     (case held of
        None \<Rightarrow> []
      | Some f \<Rightarrow>
          ln (''  last     '' @ class_debug (mf_class f) @ '' L'' @ decimal (unat (f_layer (mf_fields f))) @ '' T'' @
              decimal (unat (f_tensor (mf_fields f))) @ '' tile '' @ decimal (unat (f_tile (mf_fields f))) @ '', '' @
              decimal (mf_cost f div 1000) @ '' us''))"

definition report_faults :: "world \<Rightarrow> string" where
  "report_faults W =
     (case lab_manager (wo_lab W) of
        None \<Rightarrow> []
      | Some M \<Rightarrow>
          (let r = report_of (mg_counters M) in
           ln (''  faults   '' @ decimal (total_faults r) @ '' total'') @ fault_lines r @ last_fault_line (mg_last_fault M)))"

section \<open>The machine (commands.rs)\<close>

definition ticks_verb :: "facts \<Rightarrow> string" where
  "ticks_verb F = ln (decimal (fa_ticks F) @ '' timer ticks since boot'')"

definition peek_address :: "string \<Rightarrow> nat option" where
  "peek_address arg = parse_uint 16 (umax 64) (strip_all ''0x'' (trim arg))"

definition peek_line :: "facts \<Rightarrow> string \<Rightarrow> string option" where
  "peek_line F arg =
     (case (pf_peek (fa_platform F), peek_address arg) of
        (Some peek, Some a) \<Rightarrow>
          (case peek a of
             None \<Rightarrow> None
           | Some v \<Rightarrow> Some (ln (''  '' @ hex_text a @ '': '' @ hex_wide 18 v)))
      | (None, _) \<Rightarrow> Some (ln ''  mem peek: not provided on this machine'')
      | (_, None) \<Rightarrow> Some (ln ''  mem peek ADDR   (ADDR in hex)''))"

definition region_line :: "region \<Rightarrow> string" where
  "region_line r = ln (''  '' @ hex_wide 12 (rg_base r) @ '' + '' @ hex_text (rg_len r) @ '' '' @ kind_debug (rg_kind r))"

definition mem_verb :: "facts \<Rightarrow> string \<Rightarrow> string option" where
  "mem_verb F args =
     (case strip_prefix ''peek'' args of
        Some arg \<Rightarrow> peek_line F arg
      | None \<Rightarrow>
          (case usable_bytes (fa_info F) of
             None \<Rightarrow> None
           | Some usable \<Rightarrow>
               Some
                 (concat (map region_line (bi_regions (fa_info F))) @
                  ln (''  image  '' @ hex_text (fst (fa_image F)) @ '' + '' @ hex_text (snd (fa_image F))) @
                  ln (''  usable '' @ decimal (usable div 1048576) @ '' MiB of '' @ decimal (fa_total F div 1048576) @
                    '' MiB, '' @ decimal (bi_cpu_count (fa_info F)) @ '' cpu(s)''))))"

definition dev_verb :: "facts \<Rightarrow> string" where
  "dev_verb F =
     ln (''  console  '' @ fa_console F @ '' @ '' @ hex_text (fa_uart F) @ '', irq '' @ decimal (fa_uart_irq F)) @
     (if fa_timer_irq F = 0 then ln ''  timer    none''
      else ln (''  timer    '' @ pf_timer (fa_platform F) @ '' '' @ decimal (fa_timer_irq F))) @
     (case fa_gic F of
        Some (dist, redist) \<Rightarrow> ln (''  gic      v3, dist '' @ hex_text dist @ '', redist '' @ hex_text redist)
      | None \<Rightarrow>
          if pf_irqchip (fa_platform F) = [] then ln ''  gic      none''
          else ln (''  irqchip  '' @ pf_irqchip (fa_platform F)))"

section \<open>Doing (objects.rs)\<close>

definition registered_text :: "world \<Rightarrow> nat \<Rightarrow> nat \<Rightarrow> nat \<Rightarrow> string" where
  "registered_text W objects held budget =
     ln (''  registered '' @ decimal objects @ '' objects, '' @ kib_text held @ '' KiB across 3 tiers'') @
     ln (''  budget     '' @ kib_text budget @ '' KiB of arena'') @
     ln (''  weights    from '' @ (if wo_disk W \<noteq> None then ''virtio-blk'' else ''a pattern (no disk attached)''))"

text \<open>The product is checked: a number of kibibytes that is more bytes than 64 bits hold panics.\<close>

definition model_budget :: "string \<Rightarrow> nat option" where
  "model_budget args =
     (case Option.bind (first_word args) u64_word of
        None \<Rightarrow> Some ARENA_BYTES
      | Some kib \<Rightarrow> if kib * 1024 < 2 ^ 64 then Some (kib * 1024) else None)"

definition model_verb :: "string \<Rightarrow> world \<Rightarrow> (string \<times> world) option" where
  "model_verb args W =
     (case model_budget args of
        None \<Rightarrow> None
      | Some budget \<Rightarrow>
          (let bytes = static_arena W in
           case lab_register (wo_base W) bytes (wo_disk W) budget (wo_lab W) of
             (r, L') \<Rightarrow>
               Some
                 (case r of
                    Inr (objects, held) \<Rightarrow> registered_text W objects held budget
                  | Inl e \<Rightarrow> ln (''  could not register: '' @ err_debug e),
                  W\<lparr>wo_lab := L', wo_arena := bytes\<rparr>)))"

definition sweep_text :: "swept \<Rightarrow> (nat \<times> nat) \<times> nat \<Rightarrow> string" where
  "sweep_text s clock =
     (case clock of
        ((started, stopped), hz) \<Rightarrow>
          (let ns = sat_mul 64 (stopped - started) 1000000000 div max hz 1 in
           ln (''  acquired '' @ decimal (sw_acquired s) @ '' of '' @ decimal (sw_total s) @ '' tiles in '' @
               decimal (ns div 1000) @ ''.'' @ decimal_wide 3 (ns mod 1000) @ '' us'') @
           (case sw_stopped s of
              Some e \<Rightarrow> ln (''  stopped: '' @ err_debug e @ '' -- no eviction policy yet'')
            | None \<Rightarrow> ln ''  swept the whole model'')))"

definition sweep_verb :: "facts \<Rightarrow> world \<Rightarrow> string \<times> world" where
  "sweep_verb F W = (case sweep 1 (wo_lab W) of (s, L') \<Rightarrow> (sweep_text s (fa_clock F), W\<lparr>wo_lab := L'\<rparr>))"

definition replayed_text :: "string \<Rightarrow> string \<Rightarrow> replayed \<Rightarrow> string" where
  "replayed_text name how rd =
     ln (''  '' @ name @ '' '' @ how @ '': '' @ decimal (rd_reads rd) @ '' reads, '' @ decimal (rd_hits rd) @ '' hits, '' @
       decimal (rd_bytes rd) @ '' bytes, '' @ decimal (rd_evicted rd) @ '' evicted, '' @ decimal (rd_refused rd) @
       '' refused, '' @ headline_text (rd_headline rd))"

definition replay_verb :: "string \<Rightarrow> world \<Rightarrow> (string \<times> world) option" where
  "replay_verb args W =
     (let ws = split_space [] args;
          name = (case ws of [] \<Rightarrow> ''demand'' | w # _ \<Rightarrow> w);
          how = (case ws of _ # w # _ \<Rightarrow> w | _ \<Rightarrow> ''process'')
      in case lab_choose name (wo_lab W) of
           (chosen, L') \<Rightarrow>
             if \<not> chosen \<or> how \<notin> {''process'', ''parameter''}
             then Some (ln ''  usage: replay demand|fifo|lru|next-use [process|parameter]'', W\<lparr>wo_lab := L'\<rparr>)
             else (case lab_replay (how = ''parameter'') (wo_disk W) L' of
                     None \<Rightarrow> None
                   | Some (r, L'') \<Rightarrow>
                       Some (case r of Inr rd \<Rightarrow> replayed_text name how rd | Inl e \<Rightarrow> ln (''  could not replay: '' @ err_debug e),
                             W\<lparr>wo_lab := L''\<rparr>)))"

definition stream_verb :: "string \<Rightarrow> world \<Rightarrow> string \<times> world" where
  "stream_verb args W =
     (case Option.bind (first_word args) u32_word of
        Some steps \<Rightarrow>
          (case lab_advance_stream steps (wo_lab W) of
             (r, L') \<Rightarrow>
               (case r of
                  Some at \<Rightarrow> ln (''  advanced to position '' @ decimal at)
                | None \<Rightarrow> ln ''  no model registered (try `model`)'', W\<lparr>wo_lab := L'\<rparr>))
      | None \<Rightarrow>
          (case lab_declare (wo_lab W) of
             (r, L') \<Rightarrow>
               (case r of
                  Some n \<Rightarrow> ln (''  declared '' @ decimal n @ '' objects, cursor at 0'')
                | None \<Rightarrow> ln ''  could not declare a stream'', W\<lparr>wo_lab := L'\<rparr>)))"

section \<open>One object by hand (acquire.rs)\<close>

definition evict_text :: "nat res \<Rightarrow> string" where
  "evict_text r =
     (case r of
        Inr freed \<Rightarrow> ln (''  evicted '' @ decimal freed @ '' B, returned to the arena'')
      | Inl e \<Rightarrow> ln (''  refused: '' @ err_debug e))"

definition release_text :: "nat res \<Rightarrow> string" where
  "release_text r =
     (case r of
        Inr left \<Rightarrow> ln (''  released; '' @ decimal left @ '' lease(s) still hold it'')
      | Inl e \<Rightarrow> ln (''  refused: '' @ err_debug e))"

definition released :: "object_id \<Rightarrow> manager \<Rightarrow> nat res \<times> manager" where
  "released i M =
     (case release i Pin M of
        (Inl e, M') \<Rightarrow> (Inl e, M')
      | (Inr _, M') \<Rightarrow> (Inr (case table_get (mg_table M') i of None \<Rightarrow> 0 | Some m \<Rightarrow> m_share_count m), M'))"

definition let_go :: "string \<Rightarrow> bool \<Rightarrow> world \<Rightarrow> string \<times> world" where
  "let_go args evicting W =
     (case two_numbers args of
        None \<Rightarrow> (ln (''  usage: '' @ (if evicting then ''evict'' else ''release'') @ '' LAYER TILE''), W)
      | Some (layer, tensor) \<Rightarrow>
          (let i = tile (of_nat layer) (of_nat tensor) in
           case with_manager (\<lambda>M. if evicting then evict i M else released i M) W of
             (None, W') \<Rightarrow> ([], W')
           | (Some r, W') \<Rightarrow> (if evicting then evict_text r else release_text r, W')))"

text \<open>The residency before, the outcome, the last fault after; with the outcome, the byte at the handle's address.\<close>

definition acquire_by_hand :: "object_id \<Rightarrow> manager \<Rightarrow> (bool \<times> (handle \<times> u8) res \<times> model_fault option) \<times> manager" where
  "acquire_by_hand i M =
     (let resident = (case table_get (mg_table M) i of None \<Rightarrow> False | Some m \<Rightarrow> m_resident_at m \<noteq> 0) in
      case acquire i Pin 1 M of
        (r, M') \<Rightarrow>
          ((resident,
            case r of
              Inl e \<Rightarrow> Inl e
            | Inr h \<Rightarrow> Inr (h, ar_bytes (mg_arena M') ! (hd_address h - ar_base (mg_arena M'))),
            mg_last_fault M'), M'))"

definition outcome_text :: "bool \<Rightarrow> handle \<Rightarrow> u8 \<Rightarrow> model_fault option \<Rightarrow> string" where
  "outcome_text resident h first fault =
     ln (''  '' @ (if resident then ''hit'' else ''faulted'') @ '': '' @ decimal (hd_size h) @ '' B at '' @
       hex_text (hd_address h) @ '', first byte '' @ hex_wide 4 (unat first)) @
     (case fault of
        Some f \<Rightarrow> if resident then [] else ln (''  cost '' @ decimal (mf_cost f div 1000) @ '' us'')
      | None \<Rightarrow> [])"

definition get_verb :: "string \<Rightarrow> world \<Rightarrow> string \<times> world" where
  "get_verb args W =
     (case two_numbers args of
        None \<Rightarrow> (ln ''  usage: get <layer> <tensor>'', W)
      | Some (layer, tensor) \<Rightarrow>
          (case with_manager (acquire_by_hand (tile (of_nat layer) (of_nat tensor))) W of
             (None, W') \<Rightarrow> ([], W')
           | (Some (resident, Inl e, fault), W') \<Rightarrow> (ln (''  refused: '' @ err_debug e), W')
           | (Some (resident, Inr (h, first), fault), W') \<Rightarrow> (outcome_text resident h first fault, W')))"

section \<open>Sessions (session.rs)\<close>

fun floor_word :: "string option \<Rightarrow> precision" where
  "floor_word None = Ternary"
| "floor_word (Some w) =
     (if w = ''fp16'' then Fp16 else if w = ''bf16'' then Bf16 else if w = ''q8'' then Q8
      else if w = ''q4'' then Q4 else if w = ''q3'' then Q3 else Ternary)"

definition word_number :: "string list \<Rightarrow> nat \<Rightarrow> nat option" where
  "word_number ws at = Option.bind (nth_opt ws at) u64_word"

definition clamp_u32 :: "nat \<Rightarrow> nat" where "clamp_u32 n = (if n \<le> umax 32 then n else umax 32)"

definition wanted_contract :: "string list \<Rightarrow> contract" where
  "wanted_contract ws =
     \<lparr>c_quality_floor = floor_word (nth_opt ws 2),
      c_latency_ceiling = (case word_number ws 1 of None \<Rightarrow> 0 | Some n \<Rightarrow> clamp_u32 n),
      c_resident_ceiling = (case word_number ws 0 of None \<Rightarrow> 0 | Some kib \<Rightarrow> wrap 64 (kib * 1024)),
      c_context = (case word_number ws 3 of None \<Rightarrow> 0 | Some n \<Rightarrow> clamp_u32 n)\<rparr>"

definition session_create :: "string list \<Rightarrow> world \<Rightarrow> string \<times> world" where
  "session_create ws W =
     (case with_manager (arrive LADDER (wanted_contract ws) (LAYERS, kv_meta 0)) W of
        (None, W') \<Rightarrow> ([], W')
      | (Some (Inr (i, _)), W') \<Rightarrow> (ln (''  session '' @ decimal i @ '' created''), W')
      | (Some (Inl why), W') \<Rightarrow> (ln (''  refused: '' @ refusal_text why), W'))"

definition session_row :: "session \<Rightarrow> string" where
  "session_row s =
     (let c = s_contract s; d = s_delivered s in
      ln (''  session '' @ pad_right 3 (decimal (s_id s)) @ '' on '' @ rung_text (s_rung s) @ '' promised floor '' @
        precision_debug (c_quality_floor c) @ '', wait '' @ decimal (c_latency_ceiling c) @ '', resident '' @
        kib_text (c_resident_ceiling c) @ '' KiB, context '' @ decimal (c_context c) @ '' tok; delivered '' @
        precision_debug (dl_coarsest d) @ '', worst period '' @ decimal (dl_worst_period d) @ '', peak '' @
        decimal (dl_peak_resident d) @ '' B, read '' @ decimal (dl_recomputed d) @ '' B, holds '' @
        decimal (s_resident s) @ '' B''))"

definition session_list :: "world \<Rightarrow> string" where
  "session_list W =
     (case lab_manager (wo_lab W) of
        None \<Rightarrow> []
      | Some M \<Rightarrow>
          concat (map session_row (each (mg_sessions M))) @
          (if sessions_live (mg_sessions M) = 0 then ln ''  no sessions (try `session new`)''
           else ln (''  budget admits '' @ decimal (admits (mg_capacity M) (mg_sessions M)) @ '' session(s) like these'')))"

definition session_end :: "nat option \<Rightarrow> world \<Rightarrow> string \<times> world" where
  "session_end arg W =
     (case arg of
        None \<Rightarrow> (ln ''  usage: session end ID'', W)
      | Some i \<Rightarrow>
          (case with_manager (destroy_session i) W of
             (None, W') \<Rightarrow> ([], W')
           | (Some (Inr evicted), W') \<Rightarrow>
               (ln (''  session '' @ decimal i @ '' ended, '' @ decimal evicted @ '' object(s) evicted''), W')
           | (Some (Inl why), W') \<Rightarrow> (ln (''  not ended: '' @ err_debug why), W')))"

definition session_squeeze :: "nat option \<Rightarrow> world \<Rightarrow> (string \<times> world) option" where
  "session_squeeze arg W =
     (case arg of
        None \<Rightarrow> Some (ln ''  usage: session squeeze KIB'', W)
      | Some kib \<Rightarrow>
          (case lab_manager (wo_lab W) of
             None \<Rightarrow> Some ([], W)
           | Some M \<Rightarrow>
               (case squeeze LADDER (wrap 64 (kib * 1024)) M of
                  None \<Rightarrow> None
                | Some (sq, M') \<Rightarrow>
                    Some (ln (''  squeezed to '' @ decimal kib @ '' KiB: reached '' @ rung_text (sq_reached sq) @ '', read '' @
                            decimal (sq_recomputed sq) @ '' B, '' @ decimal (sq_terminated sq) @ '' terminated, '' @
                            (if sq_fits sq then ''fits'' else ''still over'')),
                          W\<lparr>wo_lab := (wo_lab W)\<lparr>lab_manager := Some M'\<rparr>\<rparr>))))"

text \<open>Of the words after the verb, four are kept.\<close>

definition session_verb :: "string \<Rightarrow> world \<Rightarrow> (string \<times> world) option" where
  "session_verb args W =
     (case split_space [] args of
        [] \<Rightarrow> Some (session_list W, W)
      | verb # words \<Rightarrow>
          (let ws = take 4 words in
           if verb = ''new'' then Some (session_create ws W)
           else if verb = ''end'' then Some (session_end (Option.bind (nth_opt ws 0) u16_word) W)
           else if verb = ''squeeze'' then session_squeeze (word_number ws 0) W
           else Some (ln ''  usage: session | session new [KIB] [WAIT] [FLOOR] [CTX] | session end ID | session squeeze KIB'', W)))"

section \<open>Dispatch (commands.rs)\<close>

definition NEEDS_MODEL :: "string list" where
  "NEEDS_MODEL =
     [''sweep'', ''get'', ''evict'', ''objs'', ''arena'', ''faults'', ''layout'', ''trace'', ''stream'', ''replay'',
      ''session'', ''release'', ''metrics'']"

definition HELP :: string where
  "HELP =
     concat (map (\<lambda>l. l @ line_end)
       [''model [KiB]   register the model; optionally set the arena budget'',
        ''sweep         acquire every tile in order, faulting them in'',
        ''get L T       acquire one tile, and say if it had to fault'',
        ''evict L T     throw one tile out, returning its bytes to the arena'',
        ''release L T   let go of the pin `get` took; shared objects are dearer to evict'',
        ''objs [all]    what the table knows: tier, residency, use count'',
        ''arena         how full memory is, and what would still fit'',
        ''faults        what it all cost, per object class'',
        ''metrics       Rm, Ps, Ks, Ss: the numbers docs/PRD.md says matter'',
        ''layout        the running layout as JSON, for the visualizer'',
        ''trace [on|off] residency events as they happened, one per line'',
        ''stream [N]    declare the model'' @ [CHR 0x27] @ ''s access order, or advance it by N'',
        ''replay POLICY [process|parameter]  replay the workload under a policy and schedule'',
        ''session [new [KIB] [WAIT] [FLOOR] [CTX] | end ID | squeeze KIB]  promised vs delivered; admit; end; degrade'',
        ''mem           physical memory map, and what is left'',
        ''mem peek ADDR read 8 bytes at ADDR; unmapped faults, on purpose'',
        ''dev           console, timer and interrupt controller'',
        ''ticks         timer ticks since boot'',
        ''help          this''])"

definition command_of :: "string \<Rightarrow> string \<times> string" where
  "command_of entered =
     (case split_once CHR '' '' (trim entered) of None \<Rightarrow> (trim entered, []) | Some p \<Rightarrow> p)"

definition trace_verb :: "string \<Rightarrow> world \<Rightarrow> string \<times> world" where
  "trace_verb args W =
     (case with_manager (\<lambda>M. case ring_verb args (mg_events M) of (s, r) \<Rightarrow> (s, M\<lparr>mg_events := r\<rparr>)) W of
        (None, W') \<Rightarrow> ([], W')
      | (Some s, W') \<Rightarrow> (s, W'))"

definition run_verb :: "facts \<Rightarrow> string \<Rightarrow> string \<Rightarrow> world \<Rightarrow> (string \<times> world) option" where
  "run_verb F verb args W =
     (if verb = [] then Some ([], W)
      else if verb = ''help'' \<or> verb = ''?'' then Some (HELP, W)
      else if verb = ''mem'' then map_option (\<lambda>s. (s, W)) (mem_verb F args)
      else if verb = ''dev'' then Some (dev_verb F, W)
      else if verb = ''sweep'' then Some (sweep_verb F W)
      else if verb = ''arena'' then Some (report_arena W, W)
      else if verb = ''faults'' then Some (report_faults W, W)
      else if verb = ''metrics'' then Some (report_metrics W, W)
      else if verb = ''layout'' then Some (snd (snapshot_write_for (lab_manager (wo_lab W)) (fa_bootargs F)), W)
      else if verb = ''stream'' then Some (stream_verb args W)
      else if verb = ''replay'' then replay_verb args W
      else if verb = ''session'' then session_verb args W
      else if verb = ''trace'' then Some (trace_verb args W)
      else if verb = ''model'' then model_verb args W
      else if verb = ''get'' then Some (get_verb args W)
      else if verb = ''evict'' \<or> verb = ''release'' then Some (let_go args (verb = ''evict'') W)
      else if verb = ''objs'' then Some (report_objs args W, W)
      else if verb = ''ticks'' then Some (ticks_verb F, W)
      else Some (ln (''no such command: '' @ verb @ ''   (try `help`)''), W))"

definition dispatch :: "facts \<Rightarrow> string \<Rightarrow> world \<Rightarrow> (string \<times> world) option" where
  "dispatch F entered W =
     (case command_of entered of
        (verb, args) \<Rightarrow>
          (let ready = verb \<notin> set NEEDS_MODEL \<or> lab_manager (wo_lab W) \<noteq> None in
           if \<not> ready then Some (ln ''  no model registered (try `model`)'', W) else run_verb F verb args W))"

section \<open>The line reader (lib.rs)\<close>

definition PROMPT :: string where "PROMPT = ''mlsh> ''"

record shell =
  sl_line :: line
  sl_world :: world

definition shell_feed :: "facts \<Rightarrow> u8 \<Rightarrow> shell \<Rightarrow> (string \<times> shell) option" where
  "shell_feed F b S =
     (if b = 13 \<or> b = 10 then
        (case dispatch F (line_as_str (sl_line S)) (sl_world S) of
           None \<Rightarrow> None
         | Some (s, W) \<Rightarrow> Some (line_end @ s @ PROMPT, \<lparr>sl_line = line_default, sl_world = W\<rparr>))
      else
        (let (erased, shorter) = line_backspace (sl_line S); (pushed, longer) = line_push b (sl_line S) in
         if (b = 0x7f \<or> b = 8) \<and> erased then Some ([CHR 8, CHR '' '', CHR 8], S\<lparr>sl_line := shorter\<rparr>)
         else if 0x20 \<le> b \<and> b \<le> 0x7e \<and> pushed then Some ([char_of (unat b)], S\<lparr>sl_line := longer\<rparr>)
         else Some ([], S)))"

text \<open>\<open>pump\<close>: the bytes the queue gives until it is empty, each with the facts as they are then.\<close>

fun shell_pump :: "(facts \<times> u8) list \<Rightarrow> shell \<Rightarrow> (string \<times> shell) option" where
  "shell_pump [] S = Some ([], S)"
| "shell_pump ((F, b) # rest) S =
     (case shell_feed F b S of
        None \<Rightarrow> None
      | Some (s, S') \<Rightarrow>
          (case shell_pump rest S' of None \<Rightarrow> None | Some (t, S'') \<Rightarrow> Some (s @ t, S'')))"

text \<open>The boot script: the verbs after \<open>mlsh.run=\<close>, and the prompt.\<close>

fun run_verbs :: "facts \<Rightarrow> string list \<Rightarrow> world \<Rightarrow> (string \<times> world) option" where
  "run_verbs F [] W = Some ([], W)"
| "run_verbs F (verb # rest) W =
     (if verb = [] then run_verbs F rest W
      else case dispatch F verb W of
             None \<Rightarrow> None
           | Some (s, W') \<Rightarrow>
               (case run_verbs F rest W' of
                  None \<Rightarrow> None
                | Some (t, W'') \<Rightarrow> Some (PROMPT @ verb @ line_end @ s @ t, W'')))"

definition shell_run :: "facts \<Rightarrow> shell \<Rightarrow> (string \<times> shell) option" where
  "shell_run F S =
     (case run_verbs F (split_on CHR '';'' (bootargs_rest (fa_bootargs F) ''mlsh.run='')) (sl_world S) of
        None \<Rightarrow> None
      | Some (s, W) \<Rightarrow> Some (line_end @ s @ PROMPT, S\<lparr>sl_world := W\<rparr>))"

end
