(* ===== verification/ShellProps.thy ===== *)
theory ShellProps
  imports Shell LabStart
begin

text \<open>
  The shell of mlsh over a laboratory: no line leaves the manager in a state its lemmas do not cover, and a line is what its
  keys edited it to be.
\<close>

section \<open>A manager at work under a verb\<close>

text \<open>What every verb's work on the manager keeps: its invariant, and where its arena is.\<close>

definition same_place :: "manager \<Rightarrow> manager \<Rightarrow> bool" where
  "same_place M M' \<longleftrightarrow>
     ar_base (mg_arena M') = ar_base (mg_arena M) \<and> length (ar_bytes (mg_arena M')) = length (ar_bytes (mg_arena M))"

definition worked :: "manager \<Rightarrow> manager \<Rightarrow> bool" where
  "worked M M' \<longleftrightarrow> (mgr_inv M \<longrightarrow> mgr_inv M' \<and> same_place M M')"

named_theorems works

lemma same_place_refl [simp]: "same_place M M"
  by (simp add: same_place_def)

lemma same_place_trans: "same_place M M1 \<Longrightarrow> same_place M1 M2 \<Longrightarrow> same_place M M2"
  by (simp add: same_place_def)

lemma same_place_fields [simp]:
  "same_place (M\<lparr>mg_table := t\<rparr>) M' = same_place M M'" "same_place M (M'\<lparr>mg_table := t\<rparr>) = same_place M M'"
  by (simp_all add: same_place_def)

lemma worked_refl [simp]: "worked M M"
  by (simp add: worked_def)

lemma worked_trans: "worked M M1 \<Longrightarrow> worked M1 M2 \<Longrightarrow> worked M M2"
  using same_place_trans by (auto simp: worked_def)

lemma worked_step: "mgr_step M M' \<Longrightarrow> (mgr_inv M \<Longrightarrow> same_place M M') \<Longrightarrow> worked M M'"
  using mgr_step_inv by (simp add: worked_def)

lemma worked_fields [works]:
  "worked M (M\<lparr>mg_stream := st\<rparr>)" "worked M (M\<lparr>mg_policy := pol\<rparr>)" "worked M (M\<lparr>mg_events := r\<rparr>)"
  by (simp_all add: worked_def same_place_def mgr_inv_def)

lemma worked_acquire [works]: "worked M (snd (acquire i l who M))"
proof (rule worked_step [OF st_acquire])
  assume "mgr_inv M"
  from acquire_spec [OF this, of i l who] show "same_place M (snd (acquire i l who M))"
    by (cases "acquire i l who M") (simp add: same_place_def)
qed

lemma worked_release [works]: "worked M (snd (release i l M))"
proof (rule worked_step [OF st_release])
  assume "mgr_inv M"
  from release_inv(3) [OF this, of i l] show "same_place M (snd (release i l M))"
    by (cases "release i l M") (simp add: same_place_def)
qed

lemma release_base: "ar_base (snd (arena_release at n a)) = ar_base a" "ar_bytes (snd (arena_release at n a)) = ar_bytes a"
  by (auto simp: arena_release_def Let_def split: option.splits)

lemma evict_place: "same_place M (snd (evict i M))"
  using release_base by (auto simp: same_place_def evict_def Let_def split: option.splits prod.splits sum.splits) (metis snd_conv)+

lemma worked_evict [works]: "worked M (snd (evict i M))"
  by (rule worked_step [OF st_evict evict_place])

lemma worked_consume: "worked M (snd (consume i who M))"
proof -
  have "worked M (snd (acquire i Streaming who M))" by (rule worked_acquire)
  moreover have "worked (snd (acquire i Streaming who M)) (snd (release i Streaming (snd (acquire i Streaming who M))))"
    by (rule worked_release)
  ultimately have "worked M (snd (release i Streaming (snd (acquire i Streaming who M))))" by (rule worked_trans)
  then show ?thesis using worked_acquire [of M i Streaming who] by (auto simp: consume_def split: prod.splits sum.splits)
qed

lemma worked_walk [works]: "worked M (snd (walk s ids n M))"
proof (induction ids arbitrary: n M)
  case (Cons i ids)
  obtain r M1 where c: "consume i s M = (r, M1)" by (cases "consume i s M")
  then have "worked M M1" using worked_consume [of M i s] by simp
  then show ?case using c Cons.IH [of M1 "n + 1"] worked_trans by (auto split: sum.splits)
qed simp

lemma destroy_slots_place: "same_place M (snd (destroy_slots i slots n M))"
proof (induction i slots n M rule: destroy_slots.induct)
  case (2 i slot slots n M)
  show ?case
  proof (cases "table_at (mg_table M) slot")
    case (Some p)
    obtain k m where p: "p = (k, m)" by (cases p)
    obtain r M1 where e: "evict k M = (r, M1)" by (cases "evict k M")
    have M1: "same_place M M1" using evict_place [of M k] e by simp
    show ?thesis
    proof (cases "m_owner m \<noteq> i \<or> i = 0")
      case True
      then show ?thesis using 2(2) [OF Some p [symmetric]] Some p by simp
    next
      case False
      show ?thesis
      proof (cases "m_resident_at m = 0")
        case True
        then show ?thesis using 2(4) [OF Some p [symmetric] False] False Some p by simp
      next
        case False': False
        show ?thesis
        proof (cases r)
          case (Inl err)
          then show ?thesis using M1 False False' Some p e by simp
        next
          case (Inr freed)
          then have "same_place M1 (snd (destroy_slots i slots (n + 1) (M1\<lparr>mg_table := snd (table_remove k (mg_table M1))\<rparr>)))"
            using 2(3) [OF Some p [symmetric] False False'] e by simp
          with M1 show ?thesis using False False' Some p e Inr same_place_trans by simp
        qed
      qed
    qed
  qed (use 2 in simp)
qed simp

lemma worked_destroy [works]: "worked M (snd (destroy_session i M))"
proof (rule worked_step [OF st_destroy])
  obtain r M1 where d: "destroy_slots i [0..<length (mg_table M)] 0 M = (r, M1)"
    by (cases "destroy_slots i [0..<length (mg_table M)] 0 M")
  then have "same_place M M1" using destroy_slots_place [of M i "[0..<length (mg_table M)]" 0] by simp
  then show "same_place M (snd (destroy_session i M))"
    using d by (auto simp: destroy_session_def same_place_def split: sum.splits prod.splits)
qed

section \<open>Registering\<close>

definition all_away :: "manager \<Rightarrow> bool" where
  "all_away M \<longleftrightarrow> (\<forall>k m. table_map (mg_table M) k = Some m \<longrightarrow> m_resident_at m = 0)"

lemma model_entry_ok:
  "(i, m) \<in> set (model_entries b) \<Longrightarrow> 0 < m_size m \<and> m_size m + ALIGN \<le> 2 ^ 32 \<and> m_resident_at m = 0"
  using model_entry [of i m b]
  by (auto simp: weights_def activations_def TILE_BYTES_def ACTIVATION_BYTES_def ALIGN_def split: if_splits)

lemma register_away:
  assumes "mgr_inv M" "all_away M" "0 < m_size m" "m_size m + ALIGN \<le> 2 ^ 32" "m_resident_at m = 0"
    and run: "register i m M = (r, M')"
  shows "mgr_inv M' \<and> all_away M' \<and> same_place M M'"
proof -
  have ok: "registrable i m M" using assms(2-5) by (simp add: registrable_def blocks_None_resident all_away_def)
  note I = mgr_invD [OF assms(1) [unfolded mgr_inv_def]]
  obtain placed t where ins: "table_insert i m (mg_table M) = (placed, t)" by (cases "table_insert i m (mg_table M)")
  have "all_away M' \<and> same_place M M'"
  proof (cases placed)
    case True
    with tab.put_true [OF I(1)] ins have "table_map t = (table_map (mg_table M))(i \<mapsto> m)" by auto
    then show ?thesis using run ins True assms(2,5) by (auto simp: register_def all_away_def same_place_def split: if_splits)
  qed (use run ins assms(2) in \<open>simp add: register_def\<close>)
  then show ?thesis using register_inv [OF assms(1) ok run] by simp
qed

lemma populate_away:
  assumes "mgr_inv M" "all_away M" "\<forall>(i, m) \<in> set es. 0 < m_size m \<and> m_size m + ALIGN \<le> 2 ^ 32 \<and> m_resident_at m = 0"
    and "populate es n M = (r, M')"
  shows "mgr_inv M' \<and> same_place M M'"
  using assms
proof (induction es arbitrary: n M)
  case (Cons e es)
  obtain i m where e: "e = (i, m)" by (cases e)
  obtain q M1 where run: "register i m M = (q, M1)" by (cases "register i m M")
  have M1: "mgr_inv M1 \<and> all_away M1 \<and> same_place M M1" by (rule register_away [OF _ _ _ _ _ run]) (use Cons.prems e in auto)
  show ?case
  proof (cases q)
    case (Inl err)
    then show ?thesis using Cons.prems(4) e run M1 by simp
  next
    case (Inr u)
    then have "populate es (n + 1) M1 = (r, M')" using Cons.prems(4) e run by simp
    from Cons.IH [OF _ _ _ this] have "mgr_inv M' \<and> same_place M1 M'" using M1 Cons.prems(3) by simp
    then show ?thesis using M1 same_place_trans by blast
  qed
qed simp

lemma lab_attach_away:
  assumes "mgr_inv M" "all_away M" "lab_attach disk M = (r, M')"
  shows "mgr_inv M' \<and> all_away M' \<and> same_place M M'"
proof -
  have tl: "\<forall>loc off into. length (snd (pr_read (tier_provider t) loc off into)) = length into" for t
    by (simp add: tier_provider_def tier_read_def Let_def)
  have dl: "\<forall>loc off into. length (snd (pr_read (disk_provider dev) loc off into)) = length into" for dev
    by (simp add: disk_provider_def disk.read_length)
  have one: "mgr_inv B \<and> all_away B \<and> same_place A B"
    if "mgr_inv A" "all_away A" "attach p A = (q, B)" "\<forall>loc off into. length (snd (pr_read p loc off into)) = length into" for A B p q
  proof -
    have B: "mgr_inv B" "B = A\<lparr>mg_providers := mg_providers B\<rparr>" using attach_keeps [OF that(3,1,4)] by auto
    have "all_away (A\<lparr>mg_providers := ps\<rparr>)" "same_place A (A\<lparr>mg_providers := ps\<rparr>)" for ps
      using that(2) by (simp_all add: all_away_def same_place_def)
    then show ?thesis using B by metis
  qed
  obtain r1 M1 where a1: "attach (tier_provider BACKING) M = (r1, M1)" by (cases "attach (tier_provider BACKING) M")
  obtain r2 M2 where a2: "attach (tier_provider RECOMPUTE) M1 = (r2, M2)" by (cases "attach (tier_provider RECOMPUTE) M1")
  note S1 = one [OF assms(1,2) a1 tl]
  from one [OF _ _ a2 tl] S1 have S2: "mgr_inv M2 \<and> all_away M2 \<and> same_place M M2" using same_place_trans by blast
  have S3: "mgr_inv M3 \<and> all_away M3 \<and> same_place M M3" if "attach (disk_provider dev) M2 = (r3, M3)" for dev r3 M3
    using one [OF _ _ that dl] S2 same_place_trans by blast
  show ?thesis using assms(3) a1 a2 S1 S2 S3 by (auto simp: lab_attach_def split: sum.splits option.splits)
qed

lemma registered_inv:
  assumes "0 < base" "base + length bytes < 2 ^ 64" "TILE_BYTES \<le> length bytes"
    and run: "lab_register base bytes disk budget L = (r, L')"
  shows "\<exists>M. L' = L\<lparr>lab_manager := Some M\<rparr> \<and> mgr_inv M \<and> ar_base (mg_arena M) = base \<and>
    length (ar_bytes (mg_arena M)) \<le> length bytes"
proof -
  let ?l = "clamp TILE_BYTES (length bytes) budget"
  have l: "TILE_BYTES \<le> ?l" "?l \<le> length bytes" using clamp_within [OF assms(3)] by blast+
  then have lb: "length (take ?l bytes) = ?l" "0 < length (take ?l bytes)" by (simp_all add: TILE_BYTES_def)
  let ?M0 = "(manager_new CAPACITY_LAB (arena_new base (take ?l bytes)))\<lparr>mg_capacity := SYNTHETIC\<lparr>cp_bytes := ?l\<rparr>\<rparr>"
  have "mgr_inv (manager_start CAPACITY_LAB base (take ?l bytes))"
    by (rule manager_start_inv(1)) (use lb l assms in simp_all)
  then have I0: "mgr_inv ?M0" by (simp add: manager_start_def mgr_inv_def)
  have A0: "all_away ?M0" by (simp add: all_away_def manager_new_def table_empty_map)
  have P0: "ar_base (mg_arena ?M0) = base" "length (ar_bytes (mg_arena ?M0)) = ?l"
    using lb by (simp_all add: manager_new_def arena_new_def)
  obtain q M1 where a: "lab_attach disk ?M0 = (q, M1)" by (cases "lab_attach disk ?M0")
  note S1 = lab_attach_away [OF I0 A0 a]
  obtain p M2 where b: "populate (model_entries (disk \<noteq> None)) 0 M1 = (p, M2)" by (cases "populate (model_entries (disk \<noteq> None)) 0 M1")
  have S2: "mgr_inv M2 \<and> same_place M1 M2"
    by (rule populate_away [OF _ _ _ b]) (use S1 model_entry_ok in auto)
  have "L' = L\<lparr>lab_manager := Some (case q of Inl _ \<Rightarrow> M1 | Inr _ \<Rightarrow> M2)\<rparr>"
    using run a b by (auto simp: lab_register_def Let_def split: sum.splits)
  moreover have "mgr_inv M \<and> ar_base (mg_arena M) = base \<and> length (ar_bytes (mg_arena M)) \<le> length bytes" if "M = M1 \<or> M = M2" for M
    using that S1 S2 P0 l(2) by (auto simp: same_place_def)
  ultimately show ?thesis by (auto split: sum.splits)
qed

section \<open>The laboratory under a verb\<close>

text \<open>The static arena is where a machine can have it, and a registered manager keeps its invariant over a prefix of it.\<close>

definition world_ok :: "world \<Rightarrow> bool" where
  "world_ok W \<longleftrightarrow>
     0 < wo_base W \<and> wo_base W + length (wo_arena W) < 2 ^ 64 \<and> TILE_BYTES \<le> length (wo_arena W) \<and>
     (case lab_manager (wo_lab W) of
        None \<Rightarrow> True
      | Some M \<Rightarrow> mgr_inv M \<and> ar_base (mg_arena M) = wo_base W \<and> length (ar_bytes (mg_arena M)) \<le> length (wo_arena W))"

lemma world_ok_put:
  assumes "world_ok W" "lab_manager (wo_lab W) = Some M" "worked M M'" "lab_manager L = Some M'"
  shows "world_ok (W\<lparr>wo_lab := L\<rparr>)"
  using assms by (auto simp: world_ok_def worked_def same_place_def)

lemma with_manager_ok:
  assumes "world_ok W" "\<And>M. worked M (snd (f M))"
  shows "world_ok (snd (with_manager f W))"
proof (cases "lab_manager (wo_lab W)")
  case (Some M)
  then have "snd (with_manager f W) = W\<lparr>wo_lab := (wo_lab W)\<lparr>lab_manager := Some (snd (f M))\<rparr>\<rparr>"
    by (simp add: with_manager_def split: prod.splits)
  with world_ok_put [OF assms(1) Some assms(2)] show ?thesis by simp
qed (use assms in \<open>simp add: with_manager_def\<close>)

lemma model_verb_ok:
  assumes ok: "world_ok W" and run: "model_verb args W = Some (s, W')"
  shows "world_ok W'"
proof -
  obtain budget where b: "model_budget args = Some budget" using run by (auto simp: model_verb_def split: option.splits)
  have len: "length (static_arena W) = length (wo_arena W)"
    using ok by (simp add: world_ok_def static_arena_def split: option.splits)
  obtain r L' where reg: "lab_register (wo_base W) (static_arena W) (wo_disk W) budget (wo_lab W) = (r, L')"
    by (cases "lab_register (wo_base W) (static_arena W) (wo_disk W) budget (wo_lab W)")
  from registered_inv [OF _ _ _ reg] ok len obtain M where
    "L' = (wo_lab W)\<lparr>lab_manager := Some M\<rparr>" "mgr_inv M" "ar_base (mg_arena M) = wo_base W"
    "length (ar_bytes (mg_arena M)) \<le> length (wo_arena W)" by (auto simp: world_ok_def)
  moreover have "W' = W\<lparr>wo_lab := L', wo_arena := static_arena W\<rparr>" using run b reg by (simp add: model_verb_def Let_def)
  ultimately show ?thesis using ok len by (simp add: world_ok_def)
qed

lemma sweep_verb_ok:
  assumes "world_ok W"
  shows "world_ok (snd (sweep_verb F W))"
proof (cases "lab_manager (wo_lab W)")
  case (Some M)
  obtain n e M' where w: "walk 1 sweep_order 0 M = ((n, e), M')" by (cases "walk 1 sweep_order 0 M") auto
  have "worked M M'" using worked_walk [of M 1 sweep_order 0] w by simp
  from world_ok_put [OF assms Some this, of "(wo_lab W)\<lparr>lab_manager := Some M'\<rparr>"] show ?thesis
    using Some w by (simp add: sweep_verb_def sweep_def)
qed (use assms in \<open>simp add: sweep_verb_def sweep_def\<close>)

lemma declare_manager:
  "lab_declare L = (r, L') \<Longrightarrow> \<exists>f. lab_manager L' = map_option (\<lambda>M. M\<lparr>mg_stream := f M\<rparr>) (lab_manager L)"
proof -
  assume run: "lab_declare L = (r, L')"
  have stay: "\<exists>st. M = M\<lparr>mg_stream := st\<rparr>" for M :: manager by (rule exI [of _ "mg_stream M"]) simp
  show ?thesis
  proof (cases "lab_manager L")
    case None
    then have "lab_manager L' = None"
      using run by (auto simp: lab_declare_def Let_def with_buffers_def split: if_splits prod.splits sum.splits)
    then show ?thesis using None by simp
  next
    case (Some M)
    then have "\<exists>st. lab_manager L' = Some (M\<lparr>mg_stream := st\<rparr>)"
      using run stay by (auto simp: lab_declare_def Let_def with_buffers_def split: if_splits prod.splits sum.splits)
    then show ?thesis using Some by auto
  qed
qed

lemma stream_verb_ok:
  assumes ok: "world_ok W"
  shows "world_ok (snd (stream_verb args W))"
proof (cases "Option.bind (first_word args) u32_word")
  case None
  obtain r L' where run: "lab_declare (wo_lab W) = (r, L')" by (cases "lab_declare (wo_lab W)")
  from declare_manager [OF run] obtain f where f: "lab_manager L' = map_option (\<lambda>M. M\<lparr>mg_stream := f M\<rparr>) (lab_manager (wo_lab W))" by blast
  have "world_ok (W\<lparr>wo_lab := L'\<rparr>)"
  proof (cases "lab_manager (wo_lab W)")
    case (Some M)
    from world_ok_put [OF ok Some worked_fields(1), of L' "f M"] f Some show ?thesis by simp
  qed (use ok f in \<open>simp add: world_ok_def\<close>)
  then show ?thesis using run None by (simp add: stream_verb_def)
next
  case (Some steps)
  show ?thesis
  proof (cases "lab_manager (wo_lab W)")
    case held: (Some M)
    let ?st = "stream_advance steps (mg_stream M)"
    from world_ok_put [OF ok held worked_fields(1), of "(wo_lab W)\<lparr>lab_manager := Some (M\<lparr>mg_stream := ?st\<rparr>)\<rparr>" ?st] show ?thesis
      using Some held by (simp add: stream_verb_def lab_advance_stream_def Let_def)
  qed (use ok Some in \<open>simp add: stream_verb_def lab_advance_stream_def\<close>)
qed

lemma by_hand_works:
  "worked M (snd (acquire_by_hand i M))" "worked M (snd (released i M))"
proof -
  show "worked M (snd (acquire_by_hand i M))"
    using worked_acquire [of M i Pin 1] by (auto simp: acquire_by_hand_def Let_def split: prod.splits)
  show "worked M (snd (released i M))"
    using worked_release [of M i Pin] by (auto simp: released_def split: prod.splits sum.splits)
qed

lemma get_verb_ok:
  assumes "world_ok W"
  shows "world_ok (snd (get_verb args W))"
proof (cases "two_numbers args")
  case (Some p)
  have "world_ok (snd (with_manager (acquire_by_hand (tile (of_nat (fst p)) (of_nat (snd p)))) W))"
    by (rule with_manager_ok [OF assms by_hand_works(1)])
  then show ?thesis using Some by (auto simp: get_verb_def split: prod.splits option.splits sum.splits)
qed (use assms in \<open>simp add: get_verb_def\<close>)

lemma let_go_ok:
  assumes "world_ok W"
  shows "world_ok (snd (let_go args evicting W))"
proof (cases "two_numbers args")
  case (Some p)
  obtain layer tensor where p: "p = (layer, tensor)" by (cases p)
  let ?f = "\<lambda>M. if evicting then evict (tile (of_nat layer) (of_nat tensor)) M else released (tile (of_nat layer) (of_nat tensor)) M"
  have "world_ok (snd (with_manager ?f W))"
    by (rule with_manager_ok [OF assms]) (simp add: by_hand_works worked_evict)
  then show ?thesis using Some p by (cases "with_manager ?f W") (auto simp: let_go_def Let_def split: option.splits)
qed (use assms in \<open>simp add: let_go_def\<close>)

lemma trace_verb_ok:
  assumes "world_ok W"
  shows "world_ok (snd (trace_verb args W))"
proof -
  have "world_ok (snd (with_manager (\<lambda>M. case ring_verb args (mg_events M) of (s, r) \<Rightarrow> (s, M\<lparr>mg_events := r\<rparr>)) W))"
    by (rule with_manager_ok [OF assms]) (simp add: worked_fields split: prod.splits)
  then show ?thesis unfolding trace_verb_def by (auto split: prod.splits option.splits)
qed

lemma session_end_ok:
  assumes "world_ok W"
  shows "world_ok (snd (session_end arg W))"
proof (cases arg)
  case (Some i)
  have "world_ok (snd (with_manager (destroy_session i) W))" by (rule with_manager_ok [OF assms worked_destroy])
  then show ?thesis using Some by (auto simp: session_end_def split: prod.splits option.splits sum.splits)
qed (use assms in \<open>simp add: session_end_def\<close>)

definition runs_ok :: "(string \<times> world) option \<Rightarrow> bool" where
  "runs_ok r \<longleftrightarrow> (case r of None \<Rightarrow> False | Some (s, W) \<Rightarrow> world_ok W)"

lemma runs_ok_Some [simp]: "runs_ok (Some p) = world_ok (snd p)"
  by (simp add: runs_ok_def split: prod.splits)

lemma runs_ok_if: "(c \<Longrightarrow> runs_ok a) \<Longrightarrow> (\<not> c \<Longrightarrow> runs_ok b) \<Longrightarrow> runs_ok (if c then a else b)"
  by simp

lemma session_verb_ok:
  assumes ok: "world_ok W" and first: "first_word args \<notin> {Some ''new'', Some ''squeeze''}"
  shows "runs_ok (session_verb args W)"
proof (cases "split_space [] args")
  case (Cons verb ws)
  then have "verb \<noteq> ''new''" "verb \<noteq> ''squeeze''" using first by (auto simp: first_word_def)
  then show ?thesis using ok session_end_ok [OF ok] Cons by (simp add: session_verb_def Let_def)
qed (use ok in \<open>simp add: session_verb_def\<close>)

text \<open>The lines that stop the machine: a peek at an address whose reading faults, the map of a machine with more usable bytes
  than 64 bits hold, and a model of more bytes than that.\<close>

definition stops :: "facts \<Rightarrow> string \<Rightarrow> string \<Rightarrow> bool" where
  "stops F verb args \<longleftrightarrow>
     verb = ''mem'' \<and>
       (\<exists>arg peek a. strip_prefix ''peek'' args = Some arg \<and> pf_peek (fa_platform F) = Some peek \<and> peek_address arg = Some a \<and>
          peek a = None) \<or>
     verb = ''mem'' \<and> strip_prefix ''peek'' args = None \<and>
       2 ^ 64 \<le> sum_list (map rg_len (filter (\<lambda>r. rg_kind r = Usable) (bi_regions (fa_info F)))) \<or>
     verb = ''model'' \<and> (\<exists>kib. Option.bind (first_word args) u64_word = Some kib \<and> 2 ^ 64 \<le> kib * 1024)"

lemma checked_sum:
  "foldl (\<lambda>acc r. Option.bind acc (\<lambda>n. checked_add 64 n (rg_len r))) (Some a) rs =
     (if a < 2 ^ 64 \<and> 2 ^ 64 \<le> a + sum_list (map rg_len rs) then None else Some (a + sum_list (map rg_len rs)))"
  if "a < 2 ^ 64"
proof -
  have none: "foldl (\<lambda>acc r. Option.bind acc (\<lambda>n. checked_add 64 n (rg_len r))) None rs = None" for rs
    by (induction rs) simp_all
  show ?thesis using that none by (induction rs arbitrary: a) (auto simp: checked_add_def add.assoc)
qed

lemma mem_verb_stops: "mem_verb F args = None \<longleftrightarrow> stops F ''mem'' args"
  by (auto simp: mem_verb_def peek_line_def stops_def usable_bytes_def checked_sum split: option.splits)

lemma model_verb_stops: "model_verb args W = None \<longleftrightarrow> stops F ''model'' args"
  by (auto simp: model_verb_def model_budget_def stops_def Let_def not_less split: option.splits prod.splits if_splits)

lemma stopping_verbs: "stops F verb args \<Longrightarrow> verb = ''mem'' \<or> verb = ''model''"
  by (auto simp: stops_def)

lemma stopping_ready: "stops F verb args \<Longrightarrow> verb \<notin> set NEEDS_MODEL"
  using stopping_verbs by (fastforce simp: NEEDS_MODEL_def)

lemma run_verb_stopping:
  "run_verb F ''mem'' args W = map_option (\<lambda>s. (s, W)) (mem_verb F args)" "run_verb F ''model'' args W = model_verb args W"
  by (simp_all add: run_verb_def)

lemma run_verb_stops: "stops F verb args \<Longrightarrow> run_verb F verb args W = None"
proof -
  assume s: "stops F verb args"
  from stopping_verbs [OF s] show ?thesis
  proof
    assume v: "verb = ''mem''"
    with s have "mem_verb F args = None" by (simp only: mem_verb_stops)
    then show ?thesis unfolding v run_verb_stopping by (simp only: option.map)
  next
    assume v: "verb = ''model''"
    with s have "model_verb args W = None" by (simp only: model_verb_stops [of args W F])
    then show ?thesis unfolding v run_verb_stopping .
  qed
qed

lemma run_verb_ok:
  assumes ok: "world_ok W" and verb: "verb \<noteq> ''replay''"
    and session: "verb = ''session'' \<longrightarrow> first_word args \<notin> {Some ''new'', Some ''squeeze''}"
    and goes: "\<not> stops F verb args"
  shows "runs_ok (run_verb F verb args W)"
proof -
  note oks = sweep_verb_ok stream_verb_ok get_verb_ok let_go_ok trace_verb_ok
  have "runs_ok (map_option (\<lambda>s. (s, W)) (mem_verb F args))" if "verb = ''mem''"
    using mem_verb_stops [of F args] goes that ok by (cases "mem_verb F args") simp_all
  moreover have "runs_ok (model_verb args W)" if "verb = ''model''"
    using model_verb_stops [of args W F] goes that model_verb_ok [OF ok] by (cases "model_verb args W") auto
  moreover have "runs_ok (session_verb args W)" if "verb = ''session''" using session_verb_ok [OF ok] session that by blast
  moreover have "runs_ok (replay_verb args W)" if "verb = ''replay''" using that verb by blast
  ultimately show ?thesis unfolding run_verb_def by (intro runs_ok_if) (simp_all only: runs_ok_Some snd_conv ok oks [OF ok])
qed

lemma looking:
  assumes "verb \<notin> {''sweep'', ''stream'', ''replay'', ''session'', ''trace'', ''model'', ''get'', ''evict'', ''release''}"
    and goes: "\<not> stops F verb args"
  shows "\<exists>s. run_verb F verb args W = Some (s, W)"
proof (cases "verb = ''mem''")
  case True
  then show ?thesis using mem_verb_stops [of F args] goes by (cases "mem_verb F args") (simp_all add: run_verb_def)
next
  case False
  then show ?thesis
    using assms unfolding run_verb_def by (simp only: insert_iff empty_iff de_Morgan_disj if_False simp_thms if_cancel) (simp split: if_split)
qed

lemma outcome_of:
  "r = Some (s, W') \<Longrightarrow> \<not> st \<Longrightarrow> P s W' \<Longrightarrow> (r = None \<longleftrightarrow> st) \<and> (\<forall>s W'. r = Some (s, W') \<longrightarrow> P s W')"
  by simp

text \<open>C33: whatever line is entered, apart from a replay, a new session and a squeeze: dispatching it does not return exactly
  when it peeks at an address that faults, or sums more usable bytes, or asks for a model of more bytes, than 64 bits hold.
  Otherwise it returns, and the
  laboratory it leaves has a manager that keeps its invariant over a prefix of the static arena, or none. Without a manager the
  verbs that need one answer so and change nothing; and only sweep, stream, session, trace, model, get, evict and release
  change anything.\<close>

theorem lines_keep_laboratory:
  assumes ok: "world_ok W" and cmd: "command_of entered = (verb, args)" and verb: "verb \<noteq> ''replay''"
    and session: "verb = ''session'' \<longrightarrow> first_word args \<notin> {Some ''new'', Some ''squeeze''}"
  shows "(dispatch F entered W = None \<longleftrightarrow> stops F verb args) \<and>
    (\<forall>s W'. dispatch F entered W = Some (s, W') \<longrightarrow> world_ok W' \<and>
    (lab_manager (wo_lab W) = None \<and>
       verb \<in> {''sweep'', ''get'', ''evict'', ''objs'', ''arena'', ''faults'', ''layout'', ''trace'', ''stream'', ''session'',
               ''release'', ''metrics''} \<longrightarrow>
     s = ln ''  no model registered (try `model`)'' \<and> W' = W) \<and>
    (verb \<notin> {''sweep'', ''stream'', ''session'', ''trace'', ''model'', ''get'', ''evict'', ''release''} \<longrightarrow> W' = W))"
proof (cases "verb \<in> set NEEDS_MODEL \<and> lab_manager (wo_lab W) = None")
  case True
  then have "\<not> stops F verb args" using stopping_ready by blast
  then show ?thesis using True ok cmd by (auto simp: dispatch_def Let_def)
next
  case False
  then have run: "dispatch F entered W = run_verb F verb args W" using cmd by (auto simp: dispatch_def Let_def)
  show ?thesis
  proof (cases "stops F verb args")
    case True
    then show ?thesis using run run_verb_stops by simp
  next
    case goes: False
    obtain s W' where W': "run_verb F verb args W = Some (s, W')" "world_ok W'"
      using run_verb_ok [OF ok verb session goes] by (auto simp: runs_ok_def split: option.splits prod.splits)
    have "W' = W" if "verb \<notin> {''sweep'', ''stream'', ''session'', ''trace'', ''model'', ''get'', ''evict'', ''release''}"
      using looking [OF _ goes, of W] that verb W'(1) by auto
    moreover have "\<not> (lab_manager (wo_lab W) = None \<and>
        verb \<in> {''sweep'', ''get'', ''evict'', ''objs'', ''arena'', ''faults'', ''layout'', ''trace'', ''stream'', ''session'',
                ''release'', ''metrics''})"
      using False unfolding NEEDS_MODEL_def by auto
    ultimately show ?thesis
      by (intro outcome_of [OF _ goes, where s = s and W' = W'] conjI impI) (simp add: run W'(1), rule W'(2), argo, argo, argo)
  qed
qed

lemma lines_keep_laboratory_witness:
  "\<forall>F. let W = \<lparr>wo_lab = lab_start, wo_arena = replicate ARENA_BYTES 0, wo_base = 4096, wo_disk = None\<rparr> in
     dispatch F ''release 1 2'' W = Some (ln ''  no model registered (try `model`)'', W) \<and>
     dispatch (F\<lparr>fa_platform := GENERIC\<lparr>pf_peek := Some (\<lambda>a. if a < 2 ^ 30 then Some 0 else None)\<rparr>\<rparr>) ''mem peek 0xffffffff'' W = None"
proof (rule allI)
  fix F :: facts
  let ?W = "\<lparr>wo_lab = lab_start, wo_arena = replicate ARENA_BYTES (0 :: u8), wo_base = 4096, wo_disk = None\<rparr>"
  let ?F = "F\<lparr>fa_platform := GENERIC\<lparr>pf_peek := Some (\<lambda>a. if a < 2 ^ 30 then Some 0 else None)\<rparr>\<rparr>"
  have W: "world_ok ?W" by (simp add: world_ok_def lab_start_def ARENA_BYTES_def TILE_BYTES_def)
  have "command_of ''release 1 2'' = (''release'', ''1 2'')" by code_simp
  moreover have "''release'' \<noteq> ''replay''" "''release'' = ''session'' \<longrightarrow> first_word ''1 2'' \<notin> {Some ''new'', Some ''squeeze''}" by simp_all
  ultimately have L: "(dispatch F ''release 1 2'' ?W = None \<longleftrightarrow> stops F ''release'' ''1 2'') \<and>
      (\<forall>s W'. dispatch F ''release 1 2'' ?W = Some (s, W') \<longrightarrow> world_ok W' \<and> (lab_manager (wo_lab ?W) = None \<longrightarrow>
        s = ln ''  no model registered (try `model`)'' \<and> W' = ?W))"
    using lines_keep_laboratory [OF W, of "''release 1 2''" "''release''" "''1 2''" F] by simp
  have "\<not> stops F ''release'' ''1 2''" by (simp add: stops_def)
  with L [THEN conjunct1] have "dispatch F ''release 1 2'' ?W \<noteq> None" by argo
  then obtain s W' where D: "dispatch F ''release 1 2'' ?W = Some (s, W')" by (metis not_None_eq surj_pair)
  have "s = ln ''  no model registered (try `model`)'' \<and> W' = ?W"
    by (rule L [THEN conjunct2, THEN spec, THEN spec, THEN mp, OF D, THEN conjunct2, THEN mp])
      (simp add: lab_start_def)
  with D have "dispatch F ''release 1 2'' ?W = Some (ln ''  no model registered (try `model`)'', ?W)" by (simp only: simp_thms)
  note first = this
  have cmd: "command_of ''mem peek 0xffffffff'' = (''mem'', ''peek 0xffffffff'')" by code_simp
  have "trim '' 0xffffffff'' = ''0xffffffff''" by (simp add: trim_def trim_start_def trim_end_def is_space_def)
  moreover have "strip_all ''0x'' ''0xffffffff'' = ''ffffffff''" by (simp add: strip_all.simps)
  ultimately have "peek_address '' 0xffffffff'' = Some 4294967295"
    by (simp add: peek_address_def parse_uint_def digit_of_def)
  then have "stops ?F ''mem'' ''peek 0xffffffff''" by (simp add: stops_def GENERIC_def)
  then have "dispatch ?F ''mem peek 0xffffffff'' ?W = None" using lines_keep_laboratory [OF W cmd, of ?F] by simp
  with first show "let W = ?W in dispatch F ''release 1 2'' W = Some (ln ''  no model registered (try `model`)'', W) \<and>
     dispatch ?F ''mem peek 0xffffffff'' W = None" by (simp only: Let_def)
qed

section \<open>Typing a line\<close>

definition printable :: "u8 \<Rightarrow> bool" where "printable b \<longleftrightarrow> 0x20 \<le> b \<and> b \<le> 0x7e"

text \<open>What a key does to the text being typed.\<close>

definition edit :: "u8 \<Rightarrow> bytes \<Rightarrow> bytes" where
  "edit b s =
     (if b = 0x7f \<or> b = 8 then butlast s else if printable b \<and> length s < LINE_CAPACITY then s @ [b] else s)"

definition edited :: "u8 list \<Rightarrow> bytes" where "edited bs = foldl (\<lambda>s b. edit b s) [] bs"

text \<open>A terminal: what is left of the cursor, and what is at it and right of it. A backspace moves the cursor, a character
  is written over what is there.\<close>

fun show_char :: "string \<times> string \<Rightarrow> char \<Rightarrow> string \<times> string" where
  "show_char (left, right) c =
     (if c = CHR 8 then (if left = [] then (left, right) else (butlast left, last left # right)) else (left @ [c], tl right))"

definition display :: "string \<times> string \<Rightarrow> string \<Rightarrow> string \<times> string" where
  "display d s = foldl show_char d s"

lemma display_append [simp]: "display d (s @ t) = display (display d s) t" "display d [] = d"
  by (simp_all add: display_def)

definition blank :: "string \<Rightarrow> bool" where "blank s \<longleftrightarrow> set s \<subseteq> {CHR '' ''}"

lemma printable_nat: "printable b \<longleftrightarrow> 32 \<le> unat b \<and> unat b \<le> 126"
  by (simp add: printable_def word_le_nat_alt)

lemma printable_char: "printable b \<Longrightarrow> (char_of (unat b) :: char) \<noteq> CHR 8"
proof
  assume p: "printable b" and eq: "(char_of (unat b) :: char) = CHR 8"
  have "(of_char (char_of (unat b) :: char) :: nat) = of_char (CHR 8)" by (simp only: eq)
  then show False using p by (simp add: printable_nat of_char_of)
qed

text \<open>The line holds what was typed, which is printable, and the terminal shows it left of the cursor, with nothing right
  of it.\<close>

definition typing :: "bytes \<Rightarrow> shell \<Rightarrow> string \<times> string \<Rightarrow> bool" where
  "typing s S d \<longleftrightarrow>
     line_inv (sl_line S) \<and> line_abs (sl_line S) = s \<and> (\<forall>b \<in> set s. printable b) \<and> fst d = text_of s \<and> blank (snd d)"

lemma typing_start: "sl_line S = line_default \<Longrightarrow> typing [] S ([], [])"
  by (simp add: typing_def line_inv_def line_abs_def line_default_def text_of_def blank_def)

lemma feed_keys:
  assumes t: "typing s S d" and key: "b \<noteq> 13" "b \<noteq> 10"
  shows "\<exists>out S'. shell_feed F b S = Some (out, S') \<and> typing (edit b s) S' (display d out) \<and> sl_world S' = sl_world S"
proof -
  obtain left right where d: "d = (left, right)" by (cases d)
  have inv: "line_inv (sl_line S)" and s: "line_abs (sl_line S) = s" "\<forall>b \<in> set s. printable b"
    "left = text_of s" "blank right" using t d by (simp_all add: typing_def)
  obtain erased l1 where rub: "line_backspace (sl_line S) = (erased, l1)" by (cases "line_backspace (sl_line S)")
  obtain pushed l2 where push: "line_push b (sl_line S) = (pushed, l2)" by (cases "line_push b (sl_line S)")
  have B: "line_inv l1" "(erased, line_abs l1) = (if s = [] then (False, []) else (True, butlast s))"
    using line_key_refines [OF inv, of Backspace erased l1] rub s(1) by simp_all
  have P: "line_inv l2" "(pushed, line_abs l2) = (if length s < LINE_CAPACITY then (True, s @ [b]) else (False, s))"
    using line_key_refines [OF inv, of "Type b" pushed l2] push s(1) by simp_all
  show ?thesis
  proof (cases "b = 0x7f \<or> b = 8")
    case True
    then have np: "\<not> printable b" by (auto simp: printable_def)
    show ?thesis
    proof (cases "s = []")
      case True': True
      then have "shell_feed F b S = Some ([], S)"
        using key rub push B(2) np by (auto simp: shell_feed_def printable_def)
      then show ?thesis using t True True' by (simp add: edit_def)
    next
      case False
      then have run: "shell_feed F b S = Some ([CHR 8, CHR '' '', CHR 8], S\<lparr>sl_line := l1\<rparr>)"
        using key rub push B(2) True by (simp add: shell_feed_def)
      have left: "left \<noteq> []" "butlast left = text_of (butlast s)"
        using False s(3) by (simp_all add: text_of_def map_butlast)
      have "typing (butlast s) (S\<lparr>sl_line := l1\<rparr>) (display d [CHR 8, CHR '' '', CHR 8])"
        using B False s left by (auto simp: typing_def d display_def blank_def dest: in_set_butlastD)
      then show ?thesis using run True by (simp add: edit_def)
    qed
  next
    case False
    show ?thesis
    proof (cases "printable b \<and> length s < LINE_CAPACITY")
      case True
      then have run: "shell_feed F b S = Some ([char_of (unat b)], S\<lparr>sl_line := l2\<rparr>)"
        using key rub push P(2) False by (simp add: shell_feed_def printable_def)
      have "set (tl right) \<subseteq> set right" by (cases right) auto
      then have "typing (s @ [b]) (S\<lparr>sl_line := l2\<rparr>) (display d [char_of (unat b)])"
        using P True s printable_char [of b] by (auto simp: typing_def d display_def blank_def text_of_def)
      then show ?thesis using run True False by (simp add: edit_def)
    next
      case no: False
      then have "shell_feed F b S = Some ([], S)"
        using key rub push P(2) False by (auto simp: shell_feed_def printable_def)
      then show ?thesis using t no False by (auto simp: edit_def)
    qed
  qed
qed

lemma pump_keys:
  assumes "typing s S d" "13 \<notin> snd ` set fbs" "10 \<notin> snd ` set fbs"
  shows "\<exists>out S'. shell_pump fbs S = Some (out, S') \<and>
    typing (foldl (\<lambda>s b. edit b s) s (map snd fbs)) S' (display d out) \<and> sl_world S' = sl_world S"
  using assms
proof (induction fbs arbitrary: s S d)
  case (Cons fb fbs)
  obtain F b where fb: "fb = (F, b)" by (cases fb)
  from feed_keys [OF Cons.prems(1), of b F] Cons.prems(2,3) fb obtain o1 S1 where
    1: "shell_feed F b S = Some (o1, S1)" "typing (edit b s) S1 (display d o1)" "sl_world S1 = sl_world S" by auto
  from Cons.IH [OF 1(2)] Cons.prems(2,3) obtain o2 S2 where
    2: "shell_pump fbs S1 = Some (o2, S2)" "typing (foldl (\<lambda>s b. edit b s) (edit b s) (map snd fbs)) S2 (display (display d o1) o2)"
      "sl_world S2 = sl_world S1" by auto
  then show ?case using 1 fb by simp
qed simp

lemma typed_text: "typing s S d \<Longrightarrow> line_as_str (sl_line S) = text_of s"
proof -
  assume t: "typing s S d"
  then have "\<forall>b \<in> set s. unat b < 128" by (auto simp: typing_def printable_nat)
  then have "from_utf8 s = Some (text_of s)" by (auto simp: from_utf8_def intro!: utf8_ascii)
  then show ?thesis using t by (simp add: line_as_str_def typing_def line_abs_def)
qed

text \<open>C34: from an empty line, whatever bytes arrive before the return, in whatever order, the shell echoes them so that the
  terminal shows the edited text left of the cursor and blanks right of it, and the laboratory is untouched; the return then
  dispatches exactly that text, which is at most 96 printable bytes, and leaves an empty line and a prompt. What is seen is
  what runs.\<close>

theorem seen_is_run:
  assumes "sl_line S = line_default" "13 \<notin> snd ` set fbs" "10 \<notin> snd ` set fbs"
  shows "\<exists>out S'. shell_pump fbs S = Some (out, S') \<and> sl_world S' = sl_world S \<and>
    fst (display ([], []) out) = text_of (edited (map snd fbs)) \<and> blank (snd (display ([], []) out)) \<and>
    length (edited (map snd fbs)) \<le> 96 \<and> (\<forall>b \<in> set (edited (map snd fbs)). printable b) \<and>
    shell_feed F 13 S' =
      (case dispatch F (text_of (edited (map snd fbs))) (sl_world S) of
         None \<Rightarrow> None
       | Some (s, W) \<Rightarrow> Some (line_end @ s @ PROMPT, \<lparr>sl_line = line_default, sl_world = W\<rparr>))"
proof -
  from pump_keys [OF typing_start [OF assms(1)] assms(2,3)] obtain out S' where
    S': "shell_pump fbs S = Some (out, S')" "typing (edited (map snd fbs)) S' (display ([], []) out)" "sl_world S' = sl_world S"
    by (auto simp: edited_def)
  have "length (edited (map snd fbs)) \<le> 96"
    using S'(2) line_abs_length [of "sl_line S'"] by (simp add: typing_def line_inv_def LINE_CAPACITY_def)
  then show ?thesis using S' typed_text [OF S'(2)] by (auto simp: typing_def shell_feed_def)
qed

lemma seen_is_run_witness:
  "\<forall>F W. \<exists>out S'. shell_pump (map (Pair F) [0x68, 0x78, 0x7f, 0x65, 8, 8, 8, 0x3f]) \<lparr>sl_line = line_default, sl_world = W\<rparr> = Some (out, S') \<and>
     fst (display ([], []) out) = ''?''"
proof (intro allI)
  fix F W
  let ?bs = "[0x68, 0x78, 0x7f, 0x65, 8, 8, 8, 0x3f] :: u8 list"
  have "text_of (edited ?bs) = ''?''" by code_simp
  then show "\<exists>out S'. shell_pump (map (Pair F) ?bs) \<lparr>sl_line = line_default, sl_world = W\<rparr> = Some (out, S') \<and>
     fst (display ([], []) out) = ''?''"
    using seen_is_run [of "\<lparr>sl_line = line_default, sl_world = W\<rparr>" "map (Pair F) ?bs" F] by (auto simp: comp_def)
qed

end
