(* ===== verification/Pvh.thy ===== *)
theory Pvh
  imports Machine
begin

text \<open>
  crates/mlos-pvh: what the loader hands an x86-64 guest. The start info and the e820 memory map
  are little-endian records read from bytes; the virtio transports are words of the kernel
  command line.
\<close>

section \<open>The start info (lib.rs)\<close>

definition PVH_MAGIC :: nat where "PVH_MAGIC = 0x336ec578"
definition HEADER_LEN :: nat where "HEADER_LEN = 56"

record start_info =
  si_version :: nat
  si_cmdline :: nat
  si_rsdp :: nat
  si_memmap :: nat
  si_memmap_entries :: nat

definition start_info_parse :: "bytes \<Rightarrow> start_info option" where
  "start_info_parse bs =
     (case (le_at 4 bs 0, le_at 4 bs 4) of
        (Some magic, Some version) \<Rightarrow>
          if magic \<noteq> PVH_MAGIC \<or> version < 1 then None
          else (case (le_at 8 bs 24, le_at 8 bs 32, le_at 8 bs 40, le_at 4 bs 48) of
                  (Some cmdline, Some rsdp, Some memmap, Some entries) \<Rightarrow>
                    Some \<lparr>si_version = version, si_cmdline = cmdline, si_rsdp = rsdp,
                          si_memmap = memmap, si_memmap_entries = entries\<rparr>
                | _ \<Rightarrow> None)
      | _ \<Rightarrow> None)"

section \<open>The memory map (memmap.rs)\<close>

definition ENTRY_LEN :: nat where "ENTRY_LEN = 24"
definition RAM :: nat where "RAM = 1"
definition ACPI :: nat where "ACPI = 3"

text \<open>\<open>chunks_exact\<close>: whole records; what is left over is ignored.\<close>

function chunks_exact :: "nat \<Rightarrow> 'a list \<Rightarrow> 'a list list" where
  "chunks_exact n xs =
     (if n = 0 \<or> length xs < n then [] else take n xs # chunks_exact n (drop n xs))"
  by pat_completeness auto
termination by (relation "measure (\<lambda>(n, xs). length xs)") auto

declare chunks_exact.simps [simp del]

definition record_kind :: "nat \<Rightarrow> memory_kind" where
  "record_kind t = (if t = RAM then Usable else if t = ACPI then Reclaimable else Reserved)"

definition record_region :: "bytes \<Rightarrow> region option" where
  "record_region rec =
     (let word = (\<lambda>p n. le_value (take n (drop p rec)));
          base = word 0 8; len = word 8 8; kind = record_kind (word 16 4) in
      if 0 < len then Some \<lparr>rg_base = base, rg_len = len, rg_kind = kind\<rparr> else None)"

text \<open>What is pushed, in order.\<close>

definition memmap_regions :: "bytes \<Rightarrow> region list" where
  "memmap_regions memmap = List.map_filter record_region (chunks_exact ENTRY_LEN memmap)"

section \<open>The command line (cmdline.rs)\<close>

fun before_char :: "char \<Rightarrow> string \<Rightarrow> string" where
  "before_char d s = takeWhile (\<lambda>c. c \<noteq> d) s"

definition VIRTIO_KEY :: string where "VIRTIO_KEY = ''virtio_mmio.device=''"

definition size_scale :: "string \<Rightarrow> (string \<times> nat) option" where
  "size_scale s =
     (if s = [] then None
      else if last s \<in> {CHR ''K'', CHR ''k''} then Some (butlast s, 2 ^ 10)
      else if last s \<in> {CHR ''M'', CHR ''m''} then Some (butlast s, 2 ^ 20)
      else Some (s, 1))"

definition slot_entry :: "string \<Rightarrow> (nat \<times> nat) option" where
  "slot_entry word =
     (case Option.bind (strip_prefix VIRTIO_KEY word) (split_once CHR ''@'') of
        None \<Rightarrow> None
      | Some (sz, rest) \<Rightarrow>
          (case strip_prefix ''0x'' (before_char CHR '':'' rest) of
             None \<Rightarrow> None
           | Some base \<Rightarrow>
               (case size_scale sz of
                  None \<Rightarrow> None
                | Some (digits, scale) \<Rightarrow>
                    (case parse_uint 10 (umax 64) digits of
                       None \<Rightarrow> None
                     | Some n \<Rightarrow>
                         if umax 64 < n * scale then None
                         else map_option (\<lambda>b. (b, n * scale)) (parse_uint 16 (umax 64) base)))))"

definition is_word_space :: "char \<Rightarrow> bool" where
  "is_word_space c = is_ascii_space c"

text \<open>\<open>split_ascii_whitespace\<close>.\<close>

fun words_from :: "string \<Rightarrow> string \<Rightarrow> string list" where
  "words_from cur [] = (if cur = [] then [] else [cur])"
| "words_from cur (c # cs) =
     (if is_word_space c then (if cur = [] then words_from [] cs else cur # words_from [] cs)
      else words_from (cur @ [c]) cs)"

definition next_slot :: "(nat \<times> nat \<times> nat) option \<Rightarrow> nat \<times> nat \<Rightarrow> (nat \<times> nat \<times> nat) option" where
  "next_slot found e =
     (case e of (base, sz) \<Rightarrow>
        (case found of
           Some (low, low_size, count) \<Rightarrow>
             if low < base then Some (low, low_size, wrap 32 (count + 1))
             else Some (base, sz, wrap 32 (count + 1))
         | None \<Rightarrow> Some (base, sz, 1)))"

definition slot_entries :: "string \<Rightarrow> (nat \<times> nat) list" where
  "slot_entries cmdline = List.map_filter slot_entry (words_from [] cmdline)"

definition virtio_slots :: "string \<Rightarrow> (nat \<times> nat \<times> nat) option" where
  "virtio_slots cmdline = foldl next_slot None (slot_entries cmdline)"

text \<open>\<open>str::find\<close>.\<close>

fun find_sub :: "string \<Rightarrow> string \<Rightarrow> nat option" where
  "find_sub key s =
     (if starts_with s key then Some 0
      else case s of [] \<Rightarrow> None | c # cs \<Rightarrow> map_option Suc (find_sub key cs))"

declare find_sub.simps [simp del]

definition user_args :: "string \<Rightarrow> string" where
  "user_args cmdline =
     (case find_sub ''mlsh.run='' cmdline of
        None \<Rightarrow> cmdline
      | Some run \<Rightarrow>
          (case find_sub '' virtio_mmio.device='' (drop run cmdline) of
             None \<Rightarrow> cmdline
           | Some stop \<Rightarrow> take (run + stop) cmdline))"

section \<open>Facts\<close>

lemma find_sub_Some: "find_sub key s = Some n \<Longrightarrow> n \<le> length s \<and> starts_with (drop n s) key"
proof (induction s arbitrary: n)
  case (Cons c cs)
  then show ?case by (auto simp: find_sub.simps [of key "c # cs"] split: if_splits)
qed (simp add: find_sub.simps [of key "[]"] split: if_splits)

text \<open>Nothing but a tail that begins at a virtio word is cut, and what \<open>mlsh.run=\<close> begins stays.\<close>

lemma user_args_cut:
  obtains (whole) "user_args s = s"
  | (cut_off) n where "user_args s = take n s" "n \<le> length s" "starts_with (drop n s) '' virtio_mmio.device=''"
proof (cases "user_args s = s")
  case False
  then obtain run stop where "find_sub ''mlsh.run='' s = Some run"
    "find_sub '' virtio_mmio.device='' (drop run s) = Some stop" "user_args s = take (run + stop) s"
    by (auto simp: user_args_def split: option.splits)
  with find_sub_Some [of "''mlsh.run=''" s run] find_sub_Some [of "'' virtio_mmio.device=''" "drop run s" stop]
  show ?thesis by (intro cut_off [of "run + stop"]) (auto simp: add.commute)
qed (rule whole)


lemma slots_fold:
  assumes "(low, low_size) \<in> E" "\<forall>e \<in> E. low \<le> fst e" "count < 2 ^ 32"
  shows "\<exists>low' sz'. foldl next_slot (Some (low, low_size, count)) es = Some (low', sz', wrap 32 (count + length es)) \<and>
    (low', sz') \<in> E \<union> set es \<and> (\<forall>e \<in> E \<union> set es. low' \<le> fst e)"
  using assms
proof (induction es arbitrary: low low_size count E)
  case Nil
  then show ?case by (auto simp: wrap_exact)
next
  case (Cons e es)
  obtain base sz where e: "e = (base, sz)" by (cases e)
  have w: "wrap 32 (wrap 32 (Suc count) + length es) = wrap 32 (Suc (count + length es))"
    by (simp add: wrap_def mod_simps)
  have lt: "wrap 32 (count + 1) < 2 ^ 32" by (simp add: wrap_def)
  show ?case
  proof (cases "low < base")
    case True
    have "\<forall>x \<in> insert e E. low \<le> fst x" using Cons.prems(2) True e by auto
    from Cons.IH [OF _ this lt, of low_size] Cons.prems(1) show ?thesis
      using True by (auto simp: e next_slot_def w)
  next
    case False
    have "\<forall>x \<in> insert e E. base \<le> fst x" using Cons.prems(2) False e by auto
    from Cons.IH [OF _ this lt, of sz] show ?thesis
      using False by (auto simp: e next_slot_def w)
  qed
qed

lemma chunks_append:
  assumes "length r = n" "0 < n"
  shows "chunks_exact n (r @ rest) = r # chunks_exact n rest"
  using assms by (subst chunks_exact.simps) simp

section \<open>A memory map, from its records\<close>

definition e820 :: "nat \<times> nat \<times> nat \<Rightarrow> bytes" where
  "e820 t = (case t of (base, len, kind) \<Rightarrow> le_bytes 8 base @ le_bytes 8 len @ le_bytes 4 kind @ le_bytes 4 0)"

lemma le_value_le_bytes: "n < 256 ^ k \<Longrightarrow> le_value (le_bytes k n) = n"
  by (simp add: le_value_def le_bytes_def be_value_be_bytes)

lemma le_bytes_length [simp]: "length (le_bytes k n) = k"
  by (simp add: le_bytes_def)

section \<open>Properties\<close>

text \<open>The memory map's records come out as regions in order, RAM usable, ACPI tables
  reclaimable and every other type reserved; empty records and a partial record at the end are
  left out.\<close>

theorem memmap_exact:
  assumes "\<forall>(base, len, kind) \<in> set es. base < 2 ^ 64 \<and> len < 2 ^ 64 \<and> kind < 2 ^ 32" "length tail < ENTRY_LEN"
  shows "memmap_regions (concat (map e820 es) @ tail) =
    map (\<lambda>(base, len, kind). \<lparr>rg_base = base, rg_len = len, rg_kind = record_kind kind\<rparr>)
      (filter (\<lambda>(base, len, kind). len \<noteq> 0) es)"
  using assms(1)
proof (induction es)
  case Nil
  then show ?case using assms(2) by (simp add: memmap_regions_def chunks_exact.simps [of _ tail] map_filter_def)
next
  case (Cons e es)
  obtain base len kind where e: "e = (base, len, kind)" by (cases e)
  have b: "base < 256 ^ 8" "len < 256 ^ 8" "kind < 256 ^ 4" using Cons.prems e by auto
  have l: "length (e820 e) = ENTRY_LEN" "0 < ENTRY_LEN" by (simp_all add: e820_def e ENTRY_LEN_def)
  have "record_region (e820 e) =
      (if len = 0 then None else Some \<lparr>rg_base = base, rg_len = len, rg_kind = record_kind kind\<rparr>)"
    using le_value_le_bytes [OF b(1)] le_value_le_bytes [OF b(2)] le_value_le_bytes [OF b(3)]
    by (simp add: record_region_def e820_def e Let_def)
  then show ?case
    using Cons.IH Cons.prems chunks_append [OF l] by (simp add: memmap_regions_def map_filter_simps e)
qed

lemma memmap_exact_witness:
  "memmap_regions (concat (map e820 [(0, 640, 1), (1000, 0, 1), (4096, 16, 3), (9000, 7, 5)]) @ [1, 2]) =
     [\<lparr>rg_base = 0, rg_len = 640, rg_kind = Usable\<rparr>, \<lparr>rg_base = 4096, rg_len = 16, rg_kind = Reclaimable\<rparr>,
      \<lparr>rg_base = 9000, rg_len = 7, rg_kind = Reserved\<rparr>]"
  using memmap_exact [of "[(0, 640, 1), (1000, 0, 1), (4096, 16, 3), (9000, 7, 5)]" "[1, 2]"]
  by (simp add: ENTRY_LEN_def record_kind_def RAM_def ACPI_def)

text \<open>The transports on the command line are reported as the lowest base, with the size of
  an entry at it, and how many well-formed entries there are; none when there is no such entry.\<close>

theorem virtio_slots_lowest:
  "case slot_entries cmdline of
     [] \<Rightarrow> virtio_slots cmdline = None
   | es \<Rightarrow> (\<exists>low sz. virtio_slots cmdline = Some (low, sz, wrap 32 (length es)) \<and>
       (low, sz) \<in> set es \<and> (\<forall>e \<in> set es. low \<le> fst e))"
proof (cases "slot_entries cmdline")
  case (Cons e es)
  obtain base sz where e: "e = (base, sz)" by (cases e)
  have "\<exists>low' sz'. foldl next_slot (Some (base, sz, 1)) es = Some (low', sz', wrap 32 (1 + length es)) \<and>
      (low', sz') \<in> {e} \<union> set es \<and> (\<forall>x \<in> {e} \<union> set es. low' \<le> fst x)"
    by (rule slots_fold) (simp_all add: e)
  then show ?thesis by (simp add: Cons virtio_slots_def next_slot_def e)
qed (simp add: virtio_slots_def)

lemma virtio_slots_lowest_witness:
  "\<exists>low sz. virtio_slots ''a virtio_mmio.device=512@0x1e:5 virtio_mmio.device=1K@0x1a:6'' = Some (low, sz, 2) \<and> low = 26"
proof -
  let ?s = "''a virtio_mmio.device=512@0x1e:5 virtio_mmio.device=1K@0x1a:6''"
  have d: "digits_value 10 18446744073709551615 0 ''512'' = Some 512" "digits_value 10 18446744073709551615 0 ''1'' = Some 1"
    "digits_value 16 18446744073709551615 0 ''1e'' = Some 30" "digits_value 16 18446744073709551615 0 ''1a'' = Some 26"
    by (simp_all add: digit_of_def)
  have "slot_entries ?s = [(30, 512), (26, 1024)]"
    using d by (simp add: slot_entries_def is_word_space_def is_ascii_space_def map_filter_simps slot_entry_def
        VIRTIO_KEY_def size_scale_def parse_uint_def)
  with virtio_slots_lowest [of ?s] show ?thesis by (auto simp: wrap_def)
qed

end
