(* ===== verification/Spec2Isabelle.thy ===== *)
theory Spec2Isabelle
  imports Objtab Arena DeclStream Policy Provider Session Admit Metrics Events Objman ObjmanProps Synth Ladder LadderProps Queue Sched Text Trace Spaces Sim SimProofs Rounds Workload LabLanes Lab LabMatch LabParity LabReplay LabDisk LabStart LabPlay LabProps Snapshot SnapshotText SnapshotProps Virtio VirtioBlk VirtioProps Uart Terminal TerminalProps ImageMap ImageProps Captured Mmu ShellText Shell ShellProps Bytes Fdt Machine Pvh LineEdit Elf EventLines Layout LayoutProofs LayoutText
begin

text \<open>
  MLOS, a kernel whose virtualized resource is machine-learning state. This development models the
  crates under src/crates that carry its logic, and proves what makes them correct. One theory or a few
  follow each crate; definitions keep the names of the functions they model.

  How the parts interact. An object manager (mlos-objman) holds a table of object records
  (mlos-objtab), an arena of bytes (mlos-arena), up to a few providers that can read an object's bytes
  (mlos-provider, mlos-provider-dram, and the tiers and the disk of mlos-synth), the sessions that own
  objects (mlos-session), counters (mlos-metrics), a ring of events (mlos-events), a declared stream of future
  accesses (mlos-stream) and an eviction policy (mlos-policy). An acquire looks the object up, charges its
  owner, makes room by asking the policy for victims, places the bytes and has the provider
  fill them. Admission (mlos-admit) decides which contracts are taken on; the quality ladder
  (mlos-ladder) shrinks sessions' caches when the budget does not suffice. Schedulers (mlos-sched) merge
  the accesses of several sessions; a trace (mlos-trace) records them as text; the simulator
  (mlos-sim) replays a trace against the same policies without a manager. The synthetic and the recorded
  workloads (mlos-workload) make such traces; the kernel's laboratory (mlos-lab) registers the synthetic model in
  a static arena and replays the trace on its disk through the one manager, to be compared with the host. At boot the machine is
  described by a device tree (mlos-fdt, mlos-machine) or by the PVH start info (mlos-pvh); a byte queue
  (mlos-queue) and a line buffer (mlos-line) carry the console's input. Layout documents (mlos-layout)
  describe memory to a viewer, with names from mlos-spaces and sections from mlos-elf. The shell (mlsh) reads
  lines from the queue and runs each as a verb over the laboratory.

  Theories and sources.
  \<^item> Prelude: shared arithmetic (sat_add, wrap, umax), list and option lemmas, the collections of
    simplification rules.
  \<^item> Abi: mlos-abi (class.rs, error.rs, object.rs). Object ids are 64-bit words; errors are the left of a sum.
  \<^item> Objtab: mlos-objtab (meta.rs, probe.rs, table.rs). The open-addressed table is a list of slots; its
    refinement of a finite map is the locale interpretation of that theory.
  \<^item> Arena: mlos-arena (lib.rs, holes.rs). The free list is the live prefix of the array of holes.
  \<^item> DeclStream: mlos-stream (chain.rs, lib.rs). Policy: mlos-policy. Provider: mlos-provider and
    mlos-provider-dram. Session: mlos-session. Admit: mlos-admit. Metrics: mlos-metrics.
    Events and EventLines: mlos-events (the ring, and its text).
  \<^item> Objman: mlos-objman (the manager's record and every operation); ObjmanProofs holds its invariants,
    ObjmanProps the properties.
  \<^item> Ladder, LadderProofs, LadderProps: mlos-ladder. Synth: mlos-synth and the sector reads of
    mlos-virtio-blk.
  \<^item> Sched: mlos-sched. Queue: mlos-queue, as steps of a producer and a consumer. Text: the string
    functions of the standard library the sources use. Trace: mlos-trace. Spaces: mlos-spaces.
  \<^item> Sim, SimProofs: mlos-sim. Rounds: what merging process-major amounts to. Workload: mlos-workload.
  \<^item> LabLanes: mlos-lab, lanes.rs. Lab: the rest of mlos-lab (lib.rs, sweep.rs, replay.rs, state.rs).
    LabMatch, LabParity, LabReplay, LabDisk, LabStart and LabPlay relate it to mlos-sched and
    mlos-sim (one access, the whole trace, the disk, the registered manager, the ordered replay); LabProps concludes.
  \<^item> Bytes, Fdt, Machine: mlos-fdt, mlos-machine and the boot information of mlos-hal. Pvh: mlos-pvh.
    LineEdit: mlos-line. Elf: mlos-elf.
  \<^item> Layout, LayoutProofs, LayoutText: mlos-layout (filling, rendering, reading back, validating).
  \<^item> Virtio, VirtioBlk, VirtioProps: mlos-virtio and the rings of mlos-virtio-blk. Uart: mlos-pl011 and mlos-uart16550.
    Terminal, TerminalProps: mlos-virtio-console, mlos-console and devices.rs of mlos-lab.
  \<^item> Snapshot: mlos-snapshot, the running store written as a layout document. SnapshotText relates its
    columns to those mlos-layout renders and reads, SnapshotProofs says what its rows are, SnapshotProps when
    the validator accepts it.
  \<^item> ImageMap: mlos-image-map, the layout document of the built artifacts and what is lifted off a captured console;
    ImageProps about the one, Captured about the other.
  \<^item> Mmu: mlos-mmu-aarch64, the boot table and the register values, against the walk the hardware does.
  \<^item> ShellText, Shell, ShellProps: mlsh, every verb over the laboratory, the text it prints, and the line reader.

  Conventions. A fallible operation returns a sum, the error on the left; an operation that changes
  state returns the new state beside its result, also when it fails, so that what a failure leaves
  behind can be stated. Unsigned integers are naturals where the code's bounds keep them from wrapping
  and where it saturates, with wrap and sat_add written out at their width; ids, bit
  fields and bytes are words. A panic (an index out of range, an unwrap of nothing, an
  overflow the kernel's debug build checks) is None in the models of the simulator, the shell and mlos-image-map, and so is a peek
  that faults. Two unchecked sums are modelled as the unchecked build computes them, and the manifest says so: the
  rounding in fits (Arena) and the end of a region in covered (Mmu). Loops whose end is not structural are partial functions into option: the squeeze of the ladder, and
  the merge of the schedulers; that they return is proved (squeeze_ends, replay_accounts,
  merge_serves_everyone), not assumed. make_room recurses on the number of resident objects.

  What the lemmas show.
  \<^item> Memory: residents are disjoint, aligned, outside the free list and accounted to their owners in every
    reachable state; a placement finds room exactly when there is a run; release undoes placement.
  \<^item> Delivery: an acquire returns the bytes its provider has; errors move nothing, or leave exactly what is
    stated.
  \<^item> Promises: admitted contracts fit the capacity, ceilings hold, the squeeze respects floors and ends.
  \<^item> Replacement: the chain of next uses is exact, next-use evicts an object wanted furthest
    away up to what its fixed-point scale tells apart, the victims of FIFO, LRU and next-use are extreme in their order, and demand
    has none.
  \<^item> Formats: traces, event lines, device trees, memory maps and layout documents read back
    as what was written, and malformed ones are refused.
  \<^item> Tools: the document of a built image tiles its spaces and validates; off a console the document the shell printed
    and the trace of the recorded acquires come back, whatever else was printed.
  \<^item> Parity: the kernel's lanes give the host's merge, and its replay of the trace on the disk the simulator's
    figures, by a simulation: two arenas alike but for their base, the same residents at the same
    offsets, the same victim at every choice.
  \<^item> Devices: a bus is the log of what was read and written and the memory shared with the device; what a register
    reads and what the device does to that memory are arguments. The handshake and the typing of the rings
    hold for every device; reads and text are delivered by every device that serves what it is shown, in
    finite time, and the wait for one that does not is no value.
  \<^item> Shell: what the terminal shows of a line is what runs; the lines that stop the machine are exactly a peek that faults
    and two overflows; any other leaves a manager that keeps its invariant, and only the verbs that act change anything.
  \<^item> Boot: the hardware's walk of the boot table is the identity on what the regions cover, with device attributes
    below a gigabyte, and faults elsewhere.
  \<^item> Concurrency: the byte queue hands over what was pushed, under every interleaving.

  Parameters. Physical memory is a function from addresses to bytes, a block device a function from
  sectors to an answer, a provider a record of functions, and the model behind a trace a function from ids
  to records. Properties that need more than their type says so as a hypothesis.

  Not modelled, and why. The two kernels, the HAL, trap and interrupt controller crates are inline
  assembly, controller registers and the wiring of what is modelled here; the device traits have no body; the command line
  tool drives processes and files of its host. That a replay, a new session and a squeeze entered at the shell keep the
  whole invariant is not stated: sessions adopted or created over objects that still carry their id start with an account
  that leaves those out, and a squeeze leaves the drift rewrite_in_place states.
\<close>

end
